(* ===== verification/Emp_Prelude.thy ===== *)
theory Emp_Prelude
  imports Main "HOL-Library.Word" "HOL-Library.Multiset"
begin

unbundle bit_operations_syntax

text \<open>
  Shared vocabulary of the development: the machine types of the module, the generic lemmas on
  lists, bit masks and aligned numbers that the component theories use, and the collections
  their proofs draw on.

  Conventions used by every theory:
  \<^item> The C of the module is compiled with the options of \<^verbatim>\<open>src/Makefile.inc\<close>: EMP_USER, EMP_VM,
    EMP_BLOCK, EMP_ELASTIC_BLOCK, EMP_OPT, EMP_IO and EMP_STAT are on, EMP_EXT and EMP_DEBUG are
    off.  With EMP_DEBUG off \<^verbatim>\<open>debug_assert\<close>, \<^verbatim>\<open>debug_BUG_ON\<close> and the other debug macros are
    empty (\<^verbatim>\<open>src/module_gpl/debug_assert.h\<close>), so they have no counterpart in the models; what
    they claim is proved where it is needed.
  \<^item> The kernel's lists, atomics, bit operations and spin locks are the standard library of this
    code and have their documented meaning.  A critical section is one step.
  \<^item> A pointer to a descriptor is a natural number, \<open>None\<close> is NULL.
\<close>

type_synonym u8 = "8 word"
type_synonym u32 = "32 word"
type_synonym u64 = "64 word"

named_theorems emp_ops \<open>unfolding rules of straight-line operations\<close>

section \<open>Lists\<close>

lemma mset_take_drop [simp]: "mset (take n xs) + mset (drop n xs) = mset xs"
  by (metis append_take_drop_id mset_append)

lemma mset_drop_take [simp]: "mset (drop n xs) + mset (take n xs) = mset xs"
  by (metis add.commute mset_take_drop)

lemma list_all_nth_upd:
  "list_all P xs \<Longrightarrow> P x \<Longrightarrow> list_all P (xs[i := x])"
  by (metis list_all_iff set_update_subset_insert insertE subsetD)

text \<open>The indices of a Boolean list that are set.\<close>

definition ones :: "bool list \<Rightarrow> nat set" where
  "ones bs = {i. i < length bs \<and> bs ! i}"

definition zeros :: "bool list \<Rightarrow> nat set" where
  "zeros bs = {i. i < length bs \<and> \<not> bs ! i}"

lemma finite_ones [simp]: "finite (ones bs)" and finite_zeros [simp]: "finite (zeros bs)"
  by (simp_all add: ones_def zeros_def)

lemma ones_zeros_card: "card (ones bs) + card (zeros bs) = length bs"
proof -
  have "ones bs \<union> zeros bs = {..<length bs}" "ones bs \<inter> zeros bs = {}"
    by (auto simp: ones_def zeros_def)
  then show ?thesis
    by (metis card_Un_disjoint card_lessThan finite_ones finite_zeros)
qed

lemma zeros_clear: "i < length bs \<Longrightarrow> zeros (bs[i := False]) = insert i (zeros bs)"
  by (auto simp: zeros_def nth_list_update split: if_splits)

lemma zeros_set: "i < length bs \<Longrightarrow> zeros (bs[i := True]) = zeros bs - {i}"
  by (auto simp: zeros_def nth_list_update split: if_splits)

lemma zeros_replicate [simp]: "zeros (replicate n True) = {}"
  by (auto simp: zeros_def)

lemma card_zeros_clear:
  "i < length bs \<Longrightarrow> bs ! i \<Longrightarrow> card (zeros (bs[i := False])) = Suc (card (zeros bs))"
proof -
  assume i: "i < length bs" "bs ! i"
  then have "i \<notin> zeros bs" by (simp add: zeros_def)
  with zeros_clear [OF i(1)] show ?thesis by simp
qed

lemma card_zeros_set:
  "i < length bs \<Longrightarrow> \<not> bs ! i \<Longrightarrow> Suc (card (zeros (bs[i := True]))) = card (zeros bs)"
proof -
  assume i: "i < length bs" "\<not> bs ! i"
  then have "i \<in> zeros bs" by (simp add: zeros_def)
  then have "Suc (card (zeros bs - {i})) = card (zeros bs)" by (intro card_Suc_Diff1) simp
  with zeros_set [OF i(1)] show ?thesis by simp
qed

section \<open>Alignment\<close>

definition align_down :: "nat \<Rightarrow> nat \<Rightarrow> nat" where
  "align_down k x = x - x mod 2 ^ k"

lemma align_down_le [simp]: "align_down k x \<le> x"
  by (simp add: align_down_def)

lemma align_down_dvd [simp]: "2 ^ k dvd align_down k x"
  by (simp add: align_down_def minus_mod_eq_mult_div)

lemma align_down_eq: "align_down k x = x div 2 ^ k * 2 ^ k"
  by (simp add: align_down_def minus_mod_eq_div_mult)

lemma align_down_upper: "x < align_down k x + 2 ^ k"
proof -
  have "x = x div 2 ^ k * 2 ^ k + x mod 2 ^ k" by (rule div_mult_mod_eq [symmetric])
  moreover have "x mod 2 ^ k < 2 ^ k" by simp
  ultimately show ?thesis unfolding align_down_eq by linarith
qed

lemma align_down_unique: "2 ^ k dvd h \<Longrightarrow> h \<le> x \<Longrightarrow> x < h + 2 ^ k \<Longrightarrow> align_down k x = h"
proof -
  assume a: "2 ^ k dvd h" "h \<le> x" "x < h + 2 ^ k"
  from a(1) obtain q where q: "h = 2 ^ k * q" by (auto simp: dvd_def)
  have "x div 2 ^ k = q"
    using a(2,3) q by (intro div_nat_eqI) (simp_all add: mult.commute)
  with q show ?thesis by (simp add: align_down_eq)
qed

lemma align_down_idem [simp]: "align_down k (align_down k x) = align_down k x"
  by (rule align_down_unique) auto

lemma align_down_Suc:
  "align_down (Suc k) x = align_down k x \<or> align_down (Suc k) x + 2 ^ k = align_down k x"
proof -
  define a b where "a = x div 2 ^ Suc k" and "b = x div 2 ^ k mod 2"
  have "x div 2 ^ k div 2 = a" by (simp only: a_def power_Suc2 div_mult2_eq)
  then have "x div 2 ^ k = 2 * a + b"
    unfolding b_def by (metis mult_div_mod_eq)
  then have "align_down k x = a * 2 ^ Suc k + b * 2 ^ k"
    by (simp add: align_down_eq algebra_simps)
  moreover have "align_down (Suc k) x = a * 2 ^ Suc k"
    by (simp only: align_down_eq a_def)
  moreover have "b = 0 \<or> b = 1" by (auto simp: b_def)
  ultimately show ?thesis by auto
qed

end
