(* ===== verification/Gpa.thy ===== *)
theory Gpa
  imports Emp_Prelude
begin

text \<open>
  The block descriptor \<^verbatim>\<open>struct emp_gpa\<close> of \<^verbatim>\<open>src/module_gpl/emp_type.h\<close>, its flag word
  (\<^verbatim>\<open>src/module_gpl/gpa.h\<close>) and the four order fields that give a block its geometry.  A
  descriptor is one subblock; a block is \<open>2 ^ (block_order - subblock_order)\<close> descriptors in a row,
  of which the first, the head, speaks for the block.  The 4-bit order fields are numbers modulo 16.

  A descriptor pointer is its address divided by \<^verbatim>\<open>sizeof(struct emp_gpa)\<close>, a power of two
  (\<^verbatim>\<open>check_assumption()\<close>); descriptors come from caches aligned to the size of their group, so the
  division is exact and pointer arithmetic in C is arithmetic on these numbers.  The heap of
  descriptors maps pointers to descriptors.
\<close>

section \<open>Flags\<close>

definition GPA_TOUCHED_MASK :: u32 where "GPA_TOUCHED_MASK = push_bit 0 1"
definition GPA_DIRTY_MASK :: u32 where "GPA_DIRTY_MASK = push_bit 1 1"
definition GPA_ACCESS_MASK :: u32 where "GPA_ACCESS_MASK = push_bit 2 1"
definition GPA_EPT_MASK :: u32 where "GPA_EPT_MASK = push_bit 3 1"
definition GPA_HPT_MASK :: u32 where "GPA_HPT_MASK = push_bit 4 1"
definition GPA_nPT_MASK :: u32 where "GPA_nPT_MASK = GPA_EPT_MASK OR GPA_HPT_MASK"
definition GPA_REMOTE_MASK :: u32 where "GPA_REMOTE_MASK = push_bit 5 1"
definition GPA_PREFETCHED_CSF_MASK :: u32 where "GPA_PREFETCHED_CSF_MASK = push_bit 6 1"
definition GPA_PREFETCHED_CPF_MASK :: u32 where "GPA_PREFETCHED_CPF_MASK = push_bit 7 1"
definition GPA_PREFETCHED_BLK_MASK :: u32 where "GPA_PREFETCHED_BLK_MASK = push_bit 8 1"
definition GPA_PREFETCHED_MASK :: u32 where
  "GPA_PREFETCHED_MASK =
     GPA_PREFETCHED_CSF_MASK OR GPA_PREFETCHED_CPF_MASK OR GPA_PREFETCHED_BLK_MASK"
definition GPA_PREFETCH_ONCE_MASK :: u32 where "GPA_PREFETCH_ONCE_MASK = push_bit 9 1"
definition GPA_REFERENCED_MASK :: u32 where "GPA_REFERENCED_MASK = push_bit 10 1"
definition GPA_LOWMEM_BLOCK_MASK :: u32 where "GPA_LOWMEM_BLOCK_MASK = push_bit 11 1"
definition GPA_STALE_BLOCK_MASK :: u32 where "GPA_STALE_BLOCK_MASK = push_bit 12 1"
definition GPA_PARTIAL_MAP_MASK :: u32 where "GPA_PARTIAL_MAP_MASK = push_bit 13 1"
definition GPA_IO_READ_MASK :: u32 where "GPA_IO_READ_MASK = push_bit 14 1"
definition GPA_IO_WRITE_MASK :: u32 where "GPA_IO_WRITE_MASK = push_bit 15 1"
definition GPA_IO_IP_MASK :: u32 where "GPA_IO_IP_MASK = push_bit 16 1"
definition GPA_IO_MASK :: u32 where
  "GPA_IO_MASK = GPA_IO_READ_MASK OR GPA_IO_WRITE_MASK OR GPA_IO_IP_MASK"
definition GPA_PROMOTE_MASK :: u32 where "GPA_PROMOTE_MASK = push_bit 17 1"
definition GPA_PROACTIVE_MASK :: u32 where "GPA_PROACTIVE_MASK = push_bit 18 1"
definition GPA_EAGER_WBR_MASK :: u32 where "GPA_EAGER_WBR_MASK = push_bit 19 1"
definition GPA_STRETCHED_MASK :: u32 where "GPA_STRETCHED_MASK = push_bit 20 1"
definition GPA_PINNED_MASK :: u32 where "GPA_PINNED_MASK = push_bit 21 1"
definition GPA_WPROTECT_MASK :: u32 where "GPA_WPROTECT_MASK = push_bit 22 1"

definition NUM_GPA_FLAGS :: nat where "NUM_GPA_FLAGS = 23"

definition GPA_KEEP_FLAGS_MASK :: u32 where
  "GPA_KEEP_FLAGS_MASK =
     GPA_TOUCHED_MASK OR GPA_LOWMEM_BLOCK_MASK OR GPA_PARTIAL_MAP_MASK
       OR GPA_PINNED_MASK OR GPA_WPROTECT_MASK"

definition GPA_CLEANUP_MASK :: u32 where
  "GPA_CLEANUP_MASK = (push_bit NUM_GPA_FLAGS 1 - 1) AND NOT GPA_KEEP_FLAGS_MASK"

lemmas gpa_flag_masks =
  GPA_TOUCHED_MASK_def GPA_DIRTY_MASK_def GPA_ACCESS_MASK_def GPA_EPT_MASK_def GPA_HPT_MASK_def
  GPA_nPT_MASK_def GPA_REMOTE_MASK_def GPA_PREFETCHED_CSF_MASK_def GPA_PREFETCHED_CPF_MASK_def
  GPA_PREFETCHED_BLK_MASK_def GPA_PREFETCHED_MASK_def GPA_PREFETCH_ONCE_MASK_def
  GPA_REFERENCED_MASK_def GPA_LOWMEM_BLOCK_MASK_def GPA_STALE_BLOCK_MASK_def
  GPA_PARTIAL_MAP_MASK_def GPA_IO_READ_MASK_def GPA_IO_WRITE_MASK_def GPA_IO_IP_MASK_def
  GPA_IO_MASK_def GPA_PROMOTE_MASK_def GPA_PROACTIVE_MASK_def GPA_EAGER_WBR_MASK_def
  GPA_STRETCHED_MASK_def GPA_PINNED_MASK_def GPA_WPROTECT_MASK_def

section \<open>The descriptor\<close>

datatype gpa_state =
  GPA_INIT | GPA_ACTIVE | GPA_INACTIVE | GPA_WB | GPA_FETCHING
  | GPA_TRANS_IL | GPA_TRANS_AL | GPA_TRANS_PL

text \<open>\<open>remote_page\<close> is the word of \<^verbatim>\<open>struct remote_page\<close>, \<open>local_page\<close> a pointer.\<close>

record emp_gpa =
  gpa_lock :: bool
  gpa_flags :: u32
  gpa_refcnt :: int
  sb_order :: nat
  block_order :: nat
  max_block_order :: nat
  desc_order :: nat
  last_mr_id :: u8
  r_state :: gpa_state
  remote_page :: u64
  local_page :: "nat option"

type_synonym gpa_ptr = nat
type_synonym gpa_heap = "gpa_ptr \<Rightarrow> emp_gpa"

definition BLOCK_MAX_ORDER :: nat where "BLOCK_MAX_ORDER = 9"

definition FREE_REMOTE_PAGE_VAL :: u64 where "FREE_REMOTE_PAGE_VAL = 0xfffffffffffffffc"

section \<open>Flag accessors\<close>

definition is_gpa_flags_set :: "emp_gpa \<Rightarrow> u32 \<Rightarrow> bool" where
  "is_gpa_flags_set g m \<longleftrightarrow> gpa_flags g AND m \<noteq> 0"

definition is_gpa_flags_same :: "emp_gpa \<Rightarrow> u32 \<Rightarrow> u32 \<Rightarrow> bool" where
  "is_gpa_flags_same g m v \<longleftrightarrow> gpa_flags g AND m = v"

definition init_gpa_flags :: "emp_gpa \<Rightarrow> u32 \<Rightarrow> emp_gpa" where
  "init_gpa_flags g f = g\<lparr>gpa_flags := f\<rparr>"

definition set_gpa_flags :: "emp_gpa \<Rightarrow> u32 \<Rightarrow> emp_gpa" where
  "set_gpa_flags g f = g\<lparr>gpa_flags := gpa_flags g OR f\<rparr>"

text \<open>Both return the previous value: whether all, or any, of the flags were set.\<close>

definition set_gpa_flags_if_unset :: "emp_gpa \<Rightarrow> u32 \<Rightarrow> bool \<times> emp_gpa" where
  "set_gpa_flags_if_unset g m =
     (if \<not> is_gpa_flags_same g m m then (False, g\<lparr>gpa_flags := gpa_flags g OR m\<rparr>)
      else (True, g))"

definition clear_gpa_flags_if_set :: "emp_gpa \<Rightarrow> u32 \<Rightarrow> bool \<times> emp_gpa" where
  "clear_gpa_flags_if_set g m =
     (if \<not> is_gpa_flags_same g m 0 then (True, g\<lparr>gpa_flags := gpa_flags g AND NOT m\<rparr>)
      else (False, g))"

section \<open>Orders\<close>

definition update_gpa_desc_order :: "emp_gpa \<Rightarrow> emp_gpa" where
  "update_gpa_desc_order g = g\<lparr>desc_order := (block_order g + 16 - sb_order g) mod 16\<rparr>"

definition set_gpa_block_order :: "emp_gpa \<Rightarrow> nat \<Rightarrow> emp_gpa" where
  "set_gpa_block_order g k = update_gpa_desc_order (g\<lparr>block_order := k mod 16\<rparr>)"

definition inc_gpa_block_order :: "emp_gpa \<Rightarrow> emp_gpa" where
  "inc_gpa_block_order g = update_gpa_desc_order (g\<lparr>block_order := (block_order g + 1) mod 16\<rparr>)"

definition set_gpa_max_block_order :: "emp_gpa \<Rightarrow> nat \<Rightarrow> emp_gpa" where
  "set_gpa_max_block_order g k = g\<lparr>max_block_order := k mod 16\<rparr>"

definition copy_gpa_orders :: "emp_gpa \<Rightarrow> emp_gpa \<Rightarrow> emp_gpa" where
  "copy_gpa_orders dst src =
     dst\<lparr>sb_order := sb_order src, block_order := block_order src,
         max_block_order := max_block_order src, desc_order := desc_order src\<rparr>"

definition init_gpa_subblock_order :: "emp_gpa \<Rightarrow> nat \<Rightarrow> emp_gpa" where
  "init_gpa_subblock_order g k = g\<lparr>sb_order := k mod 16\<rparr>"

definition update_gpa_order :: "emp_gpa \<Rightarrow> nat \<Rightarrow> emp_gpa" where
  "update_gpa_order g k = set_gpa_max_block_order (set_gpa_block_order g k) k"

definition num_subblock_in_block :: "emp_gpa \<Rightarrow> nat" where
  "num_subblock_in_block g = 2 ^ (block_order g - sb_order g)"

definition gpa_block_size :: "emp_gpa \<Rightarrow> nat" where
  "gpa_block_size g = 2 ^ block_order g"

definition gpa_desc_size :: "emp_gpa \<Rightarrow> nat" where
  "gpa_desc_size g = 2 ^ desc_order g"

definition gpa_subblock_size :: "emp_gpa \<Rightarrow> nat" where
  "gpa_subblock_size g = 2 ^ sb_order g"

text \<open>\<^verbatim>\<open>for_each_gpas(pos, head)\<close> visits these pointers.\<close>

definition for_each_gpas :: "gpa_heap \<Rightarrow> gpa_ptr \<Rightarrow> gpa_ptr list" where
  "for_each_gpas h head = [head ..< head + num_subblock_in_block (h head)]"

text \<open>\<^verbatim>\<open>emp_init_gpa()\<close> of \<^verbatim>\<open>gpa.c\<close>: \<^verbatim>\<open>memset\<close> to zero, then the fields that are not zero.\<close>

definition zero_gpa :: emp_gpa where
  "zero_gpa = \<lparr>gpa_lock = False, gpa_flags = 0, gpa_refcnt = 0, sb_order = 0, block_order = 0,
     max_block_order = 0, desc_order = 0, last_mr_id = 0, r_state = GPA_INIT, remote_page = 0,
     local_page = None\<rparr>"

definition emp_init_gpa :: "nat \<Rightarrow> emp_gpa" where
  "emp_init_gpa subblock_order =
     (let g = zero_gpa\<lparr>gpa_lock := False, r_state := GPA_INIT,
                       remote_page := FREE_REMOTE_PAGE_VAL, last_mr_id := - 1\<rparr>;
          g = init_gpa_subblock_order g subblock_order;
          g = set_gpa_block_order g BLOCK_MAX_ORDER
      in set_gpa_max_block_order g BLOCK_MAX_ORDER)"

section \<open>Well-formed orders\<close>

definition orders_ok :: "emp_gpa \<Rightarrow> bool" where
  "orders_ok g \<longleftrightarrow> sb_order g \<le> block_order g \<and> block_order g \<le> max_block_order g
     \<and> max_block_order g \<le> BLOCK_MAX_ORDER \<and> desc_order g = block_order g - sb_order g"

lemmas order_ops [emp_ops] = update_gpa_desc_order_def set_gpa_block_order_def
  inc_gpa_block_order_def set_gpa_max_block_order_def copy_gpa_orders_def
  init_gpa_subblock_order_def update_gpa_order_def

lemma mod16_sub: "s \<le> b \<Longrightarrow> b < 16 \<Longrightarrow> (b + 16 - s) mod 16 = b - (s::nat)"
proof -
  assume "s \<le> b" "b < 16"
  then have e: "b + 16 - s = (b - s) + 16" and l: "b - s < 16" by arith+
  show ?thesis unfolding e mod_add_self2 using l by (rule mod_less)
qed

lemma set_gpa_block_order_ok:
  assumes "orders_ok g" and "sb_order g \<le> k" and "k \<le> max_block_order g"
  shows "orders_ok (set_gpa_block_order g k)"
proof -
  have k: "k < 16" using assms by (simp add: orders_ok_def BLOCK_MAX_ORDER_def)
  then have "(k + 16 - sb_order g) mod 16 = k - sb_order g" using assms(2) by (intro mod16_sub)
  with assms k show ?thesis by (simp add: orders_ok_def emp_ops)
qed

lemma inc_gpa_block_order_ok:
  assumes "orders_ok g" and "block_order g < max_block_order g"
  shows "orders_ok (inc_gpa_block_order g)"
proof -
  have k: "Suc (block_order g) < 16" "sb_order g \<le> Suc (block_order g)"
    using assms by (simp_all add: orders_ok_def BLOCK_MAX_ORDER_def)
  then have "(Suc (block_order g) + 16 - sb_order g) mod 16 = Suc (block_order g) - sb_order g"
    by (intro mod16_sub)
  with assms k show ?thesis by (simp add: orders_ok_def emp_ops)
qed

lemma copy_gpa_orders_ok: "orders_ok src \<Longrightarrow> orders_ok (copy_gpa_orders dst src)"
  by (simp add: orders_ok_def emp_ops)

lemma emp_init_gpa_ok: "s \<le> BLOCK_MAX_ORDER \<Longrightarrow> orders_ok (emp_init_gpa s)"
  using mod16_sub [of s 9]
  by (simp add: orders_ok_def emp_init_gpa_def emp_ops BLOCK_MAX_ORDER_def Let_def zero_gpa_def)

lemma orders_ok_desc_size: "orders_ok g \<Longrightarrow> gpa_desc_size g = num_subblock_in_block g"
  by (simp add: orders_ok_def gpa_desc_size_def num_subblock_in_block_def)

lemma orders_ok_block_size:
  "orders_ok g \<Longrightarrow> gpa_block_size g = num_subblock_in_block g * gpa_subblock_size g"
  by (simp add: orders_ok_def gpa_block_size_def num_subblock_in_block_def gpa_subblock_size_def
      flip: power_add)

lemma set_for_each_gpas [simp]:
  "p \<in> set (for_each_gpas h head) \<longleftrightarrow> head \<le> p \<and> p < head + num_subblock_in_block (h head)"
  by (auto simp: for_each_gpas_def)

section \<open>Flag laws\<close>

lemma bit_flag_ops:
  "bit (gpa_flags (set_gpa_flags g m)) n \<longleftrightarrow> bit (gpa_flags g) n \<or> bit m n"
  "bit (gpa_flags (snd (clear_gpa_flags_if_set g m))) n \<longleftrightarrow> bit (gpa_flags g) n \<and> \<not> bit m n"
  "bit (gpa_flags (snd (set_gpa_flags_if_unset g m))) n \<longleftrightarrow> bit (gpa_flags g) n \<or> bit m n"
proof -
  show "bit (gpa_flags (set_gpa_flags g m)) n \<longleftrightarrow> bit (gpa_flags g) n \<or> bit m n"
    by (simp add: set_gpa_flags_def bit_or_iff)
  show "bit (gpa_flags (snd (clear_gpa_flags_if_set g m))) n \<longleftrightarrow> bit (gpa_flags g) n \<and> \<not> bit m n"
  proof (cases "gpa_flags g AND m = 0")
    case True
    then have "\<not> (bit (gpa_flags g) n \<and> bit m n)" by (metis bit_and_iff bit_0_eq bot_apply bot_bool_def)
    with True show ?thesis
      by (auto simp: clear_gpa_flags_if_set_def is_gpa_flags_same_def)
  next
    case False
    then show ?thesis
      by (auto simp: clear_gpa_flags_if_set_def is_gpa_flags_same_def bit_and_iff bit_not_iff
          dest: bit_imp_le_length)
  qed
  show "bit (gpa_flags (snd (set_gpa_flags_if_unset g m))) n \<longleftrightarrow> bit (gpa_flags g) n \<or> bit m n"
  proof (cases "gpa_flags g AND m = m")
    case True
    then have "bit m n \<Longrightarrow> bit (gpa_flags g) n" by (metis bit_and_iff)
    with True show ?thesis
      by (auto simp: set_gpa_flags_if_unset_def is_gpa_flags_same_def)
  next
    case False
    then show ?thesis
      by (simp add: set_gpa_flags_if_unset_def is_gpa_flags_same_def bit_or_iff)
  qed
qed

lemma flag_ops_orders [simp]:
  "orders_ok (set_gpa_flags g m) = orders_ok g"
  "orders_ok (snd (set_gpa_flags_if_unset g m)) = orders_ok g"
  "orders_ok (snd (clear_gpa_flags_if_set g m)) = orders_ok g"
  by (simp_all add: orders_ok_def set_gpa_flags_def set_gpa_flags_if_unset_def
      clear_gpa_flags_if_set_def)

lemma set_if_unset_eq_set: "snd (set_gpa_flags_if_unset g m) = set_gpa_flags g m"
proof (cases "gpa_flags g AND m = m")
  case True
  then have "gpa_flags g OR m = gpa_flags g"
    by (metis or.commute word_bw_comms(1) word_ao_absorbs(2))
  with True show ?thesis
    by (simp add: set_gpa_flags_if_unset_def is_gpa_flags_same_def set_gpa_flags_def)
next
  case False
  then show ?thesis
    by (simp add: set_gpa_flags_if_unset_def is_gpa_flags_same_def set_gpa_flags_def)
qed

text \<open>
  The bits \<^verbatim>\<open>cleanup_gpa()\<close> clears: all of the flag word but the five kept flags.
\<close>

lemma bit_keep_mask: "bit GPA_KEEP_FLAGS_MASK n \<longleftrightarrow> n \<in> {0, 11, 13, 21, 22}"
  unfolding GPA_KEEP_FLAGS_MASK_def gpa_flag_masks
  by (simp only: bit_or_iff bit_push_bit_iff bit_1_iff possible_bit_word) auto

lemma bit_cleanup_mask:
  "bit GPA_CLEANUP_MASK n \<longleftrightarrow> n < 23 \<and> n \<notin> {0, 11, 13, 21, 22}"
proof -
  have m: "push_bit NUM_GPA_FLAGS (1::u32) - 1 = mask 23"
    by (simp add: NUM_GPA_FLAGS_def mask_eq_exp_minus_1 push_bit_eq_mult)
  show ?thesis
    unfolding GPA_CLEANUP_MASK_def m
    by (simp only: bit_and_iff bit_not_iff bit_mask_iff bit_keep_mask possible_bit_word) auto
qed

end
