(* ===== verification/Remote_Page.thy ===== *)
theory Remote_Page
  imports Gpa
begin

text \<open>
  The word \<^verbatim>\<open>struct remote_page\<close> (\<^verbatim>\<open>src/module_gpl/emp_type.h\<close>, \<^verbatim>\<open>remote_page.h\<close>): bits 63 to 56
  name the memory region, bits 55 to 2 the page offset in it, bit 1 says the page was freed and bit
  0 that the upper 62 bits are the address of a shared \<^verbatim>\<open>struct cow_remote_page\<close>.  Region 255 is
  reserved for the invalid page.
\<close>

definition REMOTE_PAGE_NONFLAG_MASK :: u64 where "REMOTE_PAGE_NONFLAG_MASK = 0xfffffffffffffffc"
definition REMOTE_PAGE_FLAG_MASK :: u64 where "REMOTE_PAGE_FLAG_MASK = 0x0000000000000003"
definition REMOTE_PAGE_MRID_MASK :: u64 where "REMOTE_PAGE_MRID_MASK = 0xff00000000000000"
definition REMOTE_PAGE_OFFSET_MASK :: u64 where "REMOTE_PAGE_OFFSET_MASK = 0x00fffffffffffffc"
definition REMOTE_PAGE_MRID_SHIFT :: nat where "REMOTE_PAGE_MRID_SHIFT = 56"
definition REMOTE_PAGE_OFFSET_SHIFT :: nat where "REMOTE_PAGE_OFFSET_SHIFT = 2"
definition REMOTE_PAGE_COW_MASK :: u64 where "REMOTE_PAGE_COW_MASK = 1"
definition REMOTE_PAGE_FREED_MASK :: u64 where "REMOTE_PAGE_FREED_MASK = 2"

section \<open>Operations on the word\<close>

definition is_remote_page_free :: "u64 \<Rightarrow> bool" where
  "is_remote_page_free rp \<longleftrightarrow> rp = FREE_REMOTE_PAGE_VAL"

definition is_remote_page_cow :: "u64 \<Rightarrow> bool" where
  "is_remote_page_cow rp \<longleftrightarrow> rp AND REMOTE_PAGE_COW_MASK \<noteq> 0"

definition is_remote_page_freed :: "u64 \<Rightarrow> bool" where
  "is_remote_page_freed rp \<longleftrightarrow> rp AND REMOTE_PAGE_FREED_MASK \<noteq> 0"

definition get_remote_page_cow :: "u64 \<Rightarrow> u64" where
  "get_remote_page_cow rp = rp AND REMOTE_PAGE_NONFLAG_MASK"

text \<open>The accessors on a word that is not a CoW pointer, and the \<^verbatim>\<open>u8\<close> they return.\<close>

definition raw_remote_page_mrid :: "u64 \<Rightarrow> u64" where
  "raw_remote_page_mrid rp = drop_bit REMOTE_PAGE_MRID_SHIFT (rp AND REMOTE_PAGE_MRID_MASK)"

definition raw_remote_page_offset :: "u64 \<Rightarrow> u64" where
  "raw_remote_page_offset rp =
     drop_bit REMOTE_PAGE_OFFSET_SHIFT (rp AND REMOTE_PAGE_OFFSET_MASK)"

text \<open>\<^verbatim>\<open>____get_rp_ptr\<close>: the word itself, or the one in the CoW record it points to.\<close>

record cow_remote_page =
  crp_refcnt :: int
  crp_remote_page :: u64

type_synonym cow_store = "u64 \<Rightarrow> cow_remote_page"

definition get_rp_val :: "cow_store \<Rightarrow> u64 \<Rightarrow> u64" where
  "get_rp_val st rp =
     (if is_remote_page_cow rp then crp_remote_page (st (get_remote_page_cow rp)) else rp)"

definition get_remote_page_mrid :: "cow_store \<Rightarrow> u64 \<Rightarrow> u8" where
  "get_remote_page_mrid st rp = ucast (raw_remote_page_mrid (get_rp_val st rp))"

definition get_remote_page_offset :: "cow_store \<Rightarrow> u64 \<Rightarrow> u64" where
  "get_remote_page_offset st rp = raw_remote_page_offset (get_rp_val st rp)"

definition set_remote_page_free :: "u64 \<Rightarrow> u64" where
  "set_remote_page_free rp = FREE_REMOTE_PAGE_VAL"

definition set_remote_page_freed :: "u64 \<Rightarrow> u64" where
  "set_remote_page_freed rp = rp OR REMOTE_PAGE_FREED_MASK"

definition set_remote_page_cow :: "u64 \<Rightarrow> u64 \<Rightarrow> u64" where
  "set_remote_page_cow rp cow = (cow AND REMOTE_PAGE_NONFLAG_MASK) OR REMOTE_PAGE_COW_MASK"

text \<open>The region id is a C \<^verbatim>\<open>int\<close>, sign-extended by the cast to \<^verbatim>\<open>u64\<close>.\<close>

definition make_remote_page_val :: "int \<Rightarrow> u64 \<Rightarrow> u64" where
  "make_remote_page_val mrid offset =
     push_bit REMOTE_PAGE_MRID_SHIFT (word_of_int mrid)
       OR push_bit REMOTE_PAGE_OFFSET_SHIFT offset"

text \<open>\<^verbatim>\<open>is_block_remote_page_valid()\<close>: an untouched block reads as zero pages.\<close>

definition is_block_remote_page_valid :: "gpa_heap \<Rightarrow> gpa_ptr \<Rightarrow> bool" where
  "is_block_remote_page_valid h head =
     (if \<not> is_gpa_flags_set (h head) GPA_TOUCHED_MASK then True
      else if r_state (h head) = GPA_WB then False
      else list_all (\<lambda>p. \<not> is_remote_page_free (remote_page (h p))) (for_each_gpas h head))"

section \<open>The fields as bits\<close>

lemma remote_page_masks:
  "REMOTE_PAGE_MRID_MASK = push_bit 56 (mask 8)"
  "REMOTE_PAGE_OFFSET_MASK = push_bit 2 (mask 54)"
  "REMOTE_PAGE_FLAG_MASK = mask 2"
  "REMOTE_PAGE_NONFLAG_MASK = NOT (mask 2)"
  "FREE_REMOTE_PAGE_VAL = NOT (mask 2)"
  by (simp_all add: REMOTE_PAGE_MRID_MASK_def REMOTE_PAGE_OFFSET_MASK_def REMOTE_PAGE_FLAG_MASK_def
      REMOTE_PAGE_NONFLAG_MASK_def FREE_REMOTE_PAGE_VAL_def mask_eq_exp_minus_1 push_bit_eq_mult)

lemma bit_raw_mrid:
  "bit (raw_remote_page_mrid rp) n \<longleftrightarrow> n < 8 \<and> bit rp (56 + n)"
  unfolding raw_remote_page_mrid_def REMOTE_PAGE_MRID_SHIFT_def remote_page_masks
  by (simp only: bit_drop_bit_eq o_apply bit_and_iff bit_push_bit_iff bit_mask_iff possible_bit_word)
     (auto dest: bit_imp_le_length)

lemma bit_raw_offset:
  "bit (raw_remote_page_offset rp) n \<longleftrightarrow> n < 54 \<and> bit rp (2 + n)"
  unfolding raw_remote_page_offset_def REMOTE_PAGE_OFFSET_SHIFT_def remote_page_masks
  by (simp only: bit_drop_bit_eq o_apply bit_and_iff bit_push_bit_iff bit_mask_iff possible_bit_word)
     (auto dest: bit_imp_le_length)

lemma bit_make_val:
  "bit (make_remote_page_val (int m) off) n \<longleftrightarrow>
     n < 64 \<and> (56 \<le> n \<and> bit m (n - 56) \<or> 2 \<le> n \<and> bit off (n - 2))"
  unfolding make_remote_page_val_def REMOTE_PAGE_MRID_SHIFT_def REMOTE_PAGE_OFFSET_SHIFT_def
  by (auto simp: bit_or_iff bit_push_bit_iff bit_of_nat_iff possible_bit_word of_int_of_nat_eq
      simp del: push_bit_of_nat)

lemma cow_iff_bit: "is_remote_page_cow rp \<longleftrightarrow> bit rp 0"
  by (auto simp: is_remote_page_cow_def REMOTE_PAGE_COW_MASK_def and_one_eq odd_iff_mod_2_eq_one
      bit_0 even_iff_mod_2_eq_zero)

lemma make_val_not_cow [simp]: "\<not> is_remote_page_cow (make_remote_page_val (int m) off)"
  unfolding cow_iff_bit by (subst bit_make_val) simp

lemma bit_small_nat: "m < 2 ^ k \<Longrightarrow> bit (m::nat) n \<Longrightarrow> n < k"
  by (metis bit_take_bit_iff take_bit_nat_eq_self)

lemma bit_small_word: "unat (w::u64) < 2 ^ k \<Longrightarrow> bit w n \<Longrightarrow> n < k"
  by (metis bit_small_nat bit_unsigned_iff possible_bit_nat)

lemma raw_mrid_make:
  assumes "m < 256" and "unat off < 2 ^ 54"
  shows "raw_remote_page_mrid (make_remote_page_val (int m) off) = of_nat m"
proof (rule bit_word_eqI)
  fix n :: nat
  assume n: "n < LENGTH(64)"
  have "bit m n \<Longrightarrow> n < 8" using bit_small_nat [of m 8 n] assms(1) by simp
  moreover have "\<not> bit off (56 + n - 2)" using bit_small_word [OF assms(2), of "56 + n - 2"] by auto
  ultimately show "bit (raw_remote_page_mrid (make_remote_page_val (int m) off)) n
      \<longleftrightarrow> bit (of_nat m :: u64) n"
    using n by (subst bit_raw_mrid, subst bit_make_val) (auto simp: bit_of_nat_iff possible_bit_word)
qed

lemma raw_offset_make:
  assumes "unat off < 2 ^ 54"
  shows "raw_remote_page_offset (make_remote_page_val (int m) off) = off"
proof (rule bit_word_eqI)
  fix n :: nat
  assume "n < LENGTH(64)"
  have "bit off n \<Longrightarrow> n < 54" by (rule bit_small_word [OF assms])
  then show "bit (raw_remote_page_offset (make_remote_page_val (int m) off)) n \<longleftrightarrow> bit off n"
    by (subst bit_raw_offset, subst bit_make_val) auto
qed

lemma make_val_not_free:
  assumes "m < 255"
  shows "make_remote_page_val (int m) off \<noteq> FREE_REMOTE_PAGE_VAL \<or> unat off \<ge> 2 ^ 54"
proof (rule disjCI)
  assume "\<not> unat off \<ge> 2 ^ 54"
  then have off: "unat off < 2 ^ 54" by simp
  have "raw_remote_page_mrid FREE_REMOTE_PAGE_VAL = 255"
    by (simp add: raw_remote_page_mrid_def REMOTE_PAGE_MRID_SHIFT_def REMOTE_PAGE_MRID_MASK_def
        FREE_REMOTE_PAGE_VAL_def)
  moreover have "raw_remote_page_mrid (make_remote_page_val (int m) off) = of_nat m"
    using assms off by (intro raw_mrid_make) simp_all
  moreover have "(of_nat m :: u64) \<noteq> 255"
    using assms by (simp add: word_unat_eq_iff unat_of_nat)
  ultimately show "make_remote_page_val (int m) off \<noteq> FREE_REMOTE_PAGE_VAL" by metis
qed

lemma free_not_cow [simp]: "\<not> is_remote_page_cow FREE_REMOTE_PAGE_VAL"
  by (simp add: is_remote_page_cow_def REMOTE_PAGE_COW_MASK_def FREE_REMOTE_PAGE_VAL_def)

lemma cow_tag_roundtrip:
  assumes "cow AND REMOTE_PAGE_FLAG_MASK = 0"
  shows "is_remote_page_cow (set_remote_page_cow rp cow)"
    and "get_remote_page_cow (set_remote_page_cow rp cow) = cow"
proof -
  have z: "\<not> (bit cow n \<and> n < 2)" for n
    using arg_cong [OF assms, of "\<lambda>w. bit w n"]
    by (auto simp: remote_page_masks bit_and_iff bit_mask_iff dest: bit_imp_le_length)
  show "is_remote_page_cow (set_remote_page_cow rp cow)"
    unfolding cow_iff_bit set_remote_page_cow_def REMOTE_PAGE_COW_MASK_def by (simp add: bit_or_iff)
  show "get_remote_page_cow (set_remote_page_cow rp cow) = cow"
    unfolding get_remote_page_cow_def set_remote_page_cow_def REMOTE_PAGE_COW_MASK_def
      remote_page_masks
    by (rule bit_word_eqI)
       (use z in \<open>auto simp: bit_and_iff bit_or_iff bit_not_iff bit_mask_iff bit_1_iff\<close>)
qed

end
