(* ===== verification/Donor_Mgmt.thy ===== *)
theory Donor_Mgmt
  imports Remote_Page
begin

text \<open>
  Memory regions and their table (\<^verbatim>\<open>struct memreg\<close> of \<^verbatim>\<open>src/module_gpl/remote_page.h\<close>,
  \<^verbatim>\<open>struct emp_mrs\<close> of \<^verbatim>\<open>vm.h\<close>, \<^verbatim>\<open>donor_mgmt.h\<close> and \<^verbatim>\<open>donor_mgmt.c\<close>): a donor becomes a region with
  an id, a size in pages and a bitmap with one bit per subblock, set while the subblock is free.
  A slot of the table holds the region itself instead of a pointer to it.

  What the devices and the allocators answer is a parameter (\<open>create_env\<close>, \<open>destroy_env\<close>); the four
  counters of \<open>emm_mr\<close> count connections, region objects, bitmaps and request caches that exist, so
  that a leak shows.
\<close>

definition MAX_MRID :: nat where "MAX_MRID = 254"

definition EINVAL :: int where "EINVAL = 22"
definition ENOMEM :: int where "ENOMEM = 12"
definition EBUSY :: int where "EBUSY = 16"

datatype donor_dev_type =
  DONOR_DEV_DRAM | DONOR_DEV_NVME | DONOR_DEV_RDMA | DONOR_DEV_PMEM | DONOR_DEV_MEMDEV

datatype mr_type = MR_NVME | MR_MEM

datatype mr_state = MR_STATE_NORMAL | MR_STATE_CLOSING

record memreg =
  mr_id :: nat
  mr_size :: nat
  alloc_len :: int
  alloc_bitmap :: "bool list"
  free_start :: nat
  alloc_next :: nat
  dma_order :: nat
  mr_kind :: mr_type
  has_wr_cache :: bool
  conn_latency :: int

record emp_mrs =
  memregs :: "memreg option list"
  memregs_len :: nat
  memregs_last :: nat
  memregs_num_alloc :: int
  memregs_last_alloc :: nat
  memregs_block_size :: nat
  memregs_wdma_size :: nat
  blockdev_used :: bool

record emp_config =
  cfg_block_order :: nat
  cfg_subblock_order :: nat
  critical_page_first :: bool
  eval_media :: bool
  remote_reuse :: bool
  remote_policy_subblock :: nat
  remote_policy_block :: int

record emm_mr =
  mrs :: emp_mrs
  cfg :: emp_config
  open_conns :: int
  live_mrs :: int
  live_bitmaps :: int
  live_wr_caches :: int

record donor_info =
  dev_type :: donor_dev_type
  donor_size :: nat

record create_env =
  conn_ret :: int
  mr_alloc_ok :: bool
  bitmap_alloc_ok :: bool
  wr_cache_ok :: bool

section \<open>Ids\<close>

function find_free_mrid :: "memreg option list \<Rightarrow> nat \<Rightarrow> nat option" where
  "find_free_mrid t i =
     (if i < MAX_MRID then (if t ! i = None then Some i else find_free_mrid t (Suc i)) else None)"
  by pat_completeness auto
termination
  by (relation "measure (\<lambda>(t, i). MAX_MRID - i)") auto

declare find_free_mrid.simps [simp del]

text \<open>
  The C function keeps \<^verbatim>\<open>int mrid = -1\<close> when no slot is free and returns it as \<^verbatim>\<open>u8\<close>: 255.
\<close>

definition alloc_mrid :: "emp_mrs \<Rightarrow> memreg \<Rightarrow> nat \<times> emp_mrs" where
  "alloc_mrid m mr =
     (case find_free_mrid (memregs m) 0 of
        None \<Rightarrow> (255, m)
      | Some i \<Rightarrow>
          (i, m\<lparr>memregs := (memregs m)[i := Some mr],
                memregs_len := (memregs_len m + 1) mod 256,
                memregs_last := (if i \<ge> memregs_last m then (i + 1) mod 256
                                 else memregs_last m)\<rparr>))"

fun reduce_memregs_last :: "memreg option list \<Rightarrow> nat \<Rightarrow> nat" where
  "reduce_memregs_last t 0 = 0"
| "reduce_memregs_last t (Suc n) = (if t ! n = None then reduce_memregs_last t n else Suc n)"

definition free_mrid :: "emp_mrs \<Rightarrow> nat \<Rightarrow> memreg option \<times> emp_mrs" where
  "free_mrid m mrid =
     (case memregs m ! mrid of
        None \<Rightarrow> (None, m)
      | Some mr \<Rightarrow>
          (let t = (memregs m)[mrid := None];
               m' = m\<lparr>memregs := t, memregs_len := (memregs_len m + 255) mod 256\<rparr>
           in (Some mr,
               if int mrid = int (memregs_last m) - 1
               then m'\<lparr>memregs_last := reduce_memregs_last t (memregs_last m)\<rparr> else m')))"

section \<open>Creating a region\<close>

definition MB_TO_PAGE :: "nat \<Rightarrow> nat" where
  "MB_TO_PAGE x = push_bit (20 - 12) x"

definition dma_ops_known :: "donor_dev_type \<Rightarrow> mr_type option" where
  "dma_ops_known d =
     (case d of DONOR_DEV_NVME \<Rightarrow> Some MR_NVME | DONOR_DEV_MEMDEV \<Rightarrow> Some MR_MEM | _ \<Rightarrow> None)"

definition init_memreg :: "emp_config \<Rightarrow> nat \<Rightarrow> mr_type \<Rightarrow> memreg" where
  "init_memreg c mb k =
     (let pages = MB_TO_PAGE mb; ord = cfg_subblock_order c
      in \<lparr>mr_id = 0, mr_size = pages, alloc_len = 0,
          alloc_bitmap = replicate (drop_bit ord pages) True, free_start = 0, alloc_next = 0,
          dma_order = ord, mr_kind = k, has_wr_cache = False, conn_latency = 0\<rparr>)"

definition create_mr :: "emm_mr \<Rightarrow> donor_info \<Rightarrow> create_env \<Rightarrow> int \<times> nat option \<times> emm_mr" where
  "create_mr e donor env =
     (case dma_ops_known (dev_type donor) of
        None \<Rightarrow> (- EINVAL, None, e)
      | Some kind \<Rightarrow>
     (if conn_ret env \<noteq> 0 then (- EINVAL, None, e)
      else
        let e1 = e\<lparr>open_conns := open_conns e + 1\<rparr>;
            err_alloc_mr = (\<lambda>x. x\<lparr>open_conns := open_conns x - 1\<rparr>);
            err_alloc_bitmap = (\<lambda>x. err_alloc_mr (x\<lparr>live_mrs := live_mrs x - 1\<rparr>));
            err_alloc_mrid = (\<lambda>x. err_alloc_bitmap (x\<lparr>live_bitmaps := live_bitmaps x - 1\<rparr>))
        in if \<not> mr_alloc_ok env then (- ENOMEM, None, err_alloc_mr e1)
           else
             let e2 = e1\<lparr>live_mrs := live_mrs e1 + 1\<rparr>
             in if \<not> bitmap_alloc_ok env then (- ENOMEM, None, err_alloc_bitmap e2)
                else
                  let e3 = e2\<lparr>live_bitmaps := live_bitmaps e2 + 1\<rparr>;
                      mr = init_memreg (cfg e) (donor_size donor) kind;
                      (mrid, m4) = alloc_mrid (mrs e3) mr;
                      e4 = e3\<lparr>mrs := m4\<rparr>
                  in if int mrid < 0 then (- EBUSY, None, err_alloc_mrid e4)
                     else if \<not> wr_cache_ok env
                     then (- ENOMEM, None,
                           err_alloc_mrid (e4\<lparr>mrs := snd (free_mrid m4 mrid)\<rparr>))
                     else
                       let mr' = mr\<lparr>mr_id := mrid, has_wr_cache := True\<rparr>;
                           t = memregs m4;
                           m5 = m4\<lparr>memregs := (if t ! mrid = None then t else t[mrid := Some mr']),
                                   blockdev_used := (blockdev_used m4 \<or> kind = MR_NVME)\<rparr>
                       in (0, Some mrid,
                           e4\<lparr>mrs := m5, live_wr_caches := live_wr_caches e4 + 1,
                              cfg := (cfg e4)\<lparr>critical_page_first := False\<rparr>\<rparr>)))"

section \<open>Checking the connections\<close>

text \<open>
  \<open>wait_for_conn\<close> and \<open>test_conn\<close> give the answers of the two device operations per region id.
\<close>

fun check_mrs_from :: "bool \<Rightarrow> (nat \<Rightarrow> int) \<Rightarrow> (nat \<Rightarrow> int) \<Rightarrow> memreg option list \<Rightarrow> nat list \<Rightarrow> int
    \<Rightarrow> int \<times> memreg option list" where
  "check_mrs_from em wait_for_conn test_conn t [] failed = (failed, t)"
| "check_mrs_from em wait_for_conn test_conn t (i # is) failed =
     (case t ! i of
        None \<Rightarrow> check_mrs_from em wait_for_conn test_conn t is failed
      | Some mr \<Rightarrow>
          if wait_for_conn i \<noteq> 0 then check_mrs_from em wait_for_conn test_conn t is 1
          else if \<not> em \<or> conn_latency mr \<noteq> 0
          then check_mrs_from em wait_for_conn test_conn t is failed
          else check_mrs_from em wait_for_conn test_conn
                 (t[i := Some (mr\<lparr>conn_latency := test_conn i\<rparr>)]) is failed)"

definition check_creation_mrs :: "emm_mr \<Rightarrow> (nat \<Rightarrow> int) \<Rightarrow> (nat \<Rightarrow> int) \<Rightarrow> int \<times> emm_mr" where
  "check_creation_mrs e wait_for_conn test_conn =
     (let (failed, t) = check_mrs_from (eval_media (cfg e)) wait_for_conn test_conn
                          (memregs (mrs e)) [0 ..< MAX_MRID] 0
      in (failed, e\<lparr>mrs := (mrs e)\<lparr>memregs := t\<rparr>\<rparr>))"

section \<open>Destroying regions\<close>

text \<open>
  \<open>destroy_conn\<close> and \<open>wait_wr\<close>: the results of the connection's destructor and of the
  interruptible wait for the requests in flight, not 0 when they were interrupted.
\<close>

record destroy_env =
  destroy_conn_ret :: "nat \<Rightarrow> int"
  wait_wr_ret :: "nat \<Rightarrow> int"

definition disconnect_mr :: "emm_mr \<Rightarrow> destroy_env \<Rightarrow> memreg \<Rightarrow> emm_mr" where
  "disconnect_mr e env mr =
     (if destroy_conn_ret env (mr_id mr) \<noteq> 0 then e
      else
        let e1 = e\<lparr>open_conns := open_conns e - 1\<rparr>
        in if has_wr_cache mr \<and> wait_wr_ret env (mr_id mr) \<noteq> 0 then e1
           else
             let e2 = (if has_wr_cache mr then e1\<lparr>live_wr_caches := live_wr_caches e1 - 1\<rparr>
                       else e1)
             in e2\<lparr>live_bitmaps := live_bitmaps e2 - 1, live_mrs := live_mrs e2 - 1\<rparr>)"

fun disconnect_mrs_from :: "emm_mr \<Rightarrow> destroy_env \<Rightarrow> nat list \<Rightarrow> emm_mr" where
  "disconnect_mrs_from e env [] = e"
| "disconnect_mrs_from e env (i # is) =
     (case memregs (mrs e) ! i of
        None \<Rightarrow> disconnect_mrs_from e env is
      | Some mr \<Rightarrow>
          disconnect_mrs_from
            (disconnect_mr (e\<lparr>mrs := snd (free_mrid (mrs e) i)\<rparr>) env mr) env is)"

definition disconnect_mrs :: "emm_mr \<Rightarrow> destroy_env \<Rightarrow> emm_mr" where
  "disconnect_mrs e env = disconnect_mrs_from e env [0 ..< MAX_MRID]"

text \<open>
  \<^verbatim>\<open>donor_mgmt_init()\<close> zeroes a table of \<^verbatim>\<open>sizeof(memregs_len) << BITS_PER_BYTE\<close> pointers;
  \<^verbatim>\<open>remote_page_init()\<close> sets up the counters.
\<close>

definition donor_mgmt_init :: "emp_mrs \<Rightarrow> bool \<Rightarrow> int \<times> emp_mrs" where
  "donor_mgmt_init m kzalloc_ok =
     (if \<not> kzalloc_ok then (- ENOMEM, m)
      else (0, m\<lparr>memregs := replicate (push_bit 8 1) None\<rparr>))"

definition remote_page_init :: "emp_config \<Rightarrow> emp_mrs \<Rightarrow> int \<times> emp_mrs" where
  "remote_page_init c m =
     (let dma_wr_size = push_bit 5 (1::nat);
          block_order = cfg_subblock_order c
      in if min (push_bit block_order 1) dma_wr_size \<ge> 255 then (- EINVAL, m)
         else (0, m\<lparr>memregs_block_size := push_bit block_order 1,
                    memregs_wdma_size := min (push_bit block_order 1) dma_wr_size,
                    memregs_last := 0, memregs_num_alloc := 0, memregs_last_alloc := 0\<rparr>))"

section \<open>Invariant of the table\<close>

definition mr_ids :: "memreg option list \<Rightarrow> nat set" where
  "mr_ids t = {i. i < length t \<and> t ! i \<noteq> None}"

text \<open>
  Slots from \<open>MAX_MRID\<close> on are empty, \<open>memregs_len\<close> counts the used ones, \<open>memregs_last\<close> is one more
  than the last used one, and a region knows its slot.
\<close>

definition table_ok :: "emp_mrs \<Rightarrow> bool" where
  "table_ok m \<longleftrightarrow> length (memregs m) = 256 \<and> mr_ids (memregs m) \<subseteq> {..<MAX_MRID}
     \<and> memregs_len m = card (mr_ids (memregs m))
     \<and> memregs_last m = (if mr_ids (memregs m) = {} then 0 else Suc (Max (mr_ids (memregs m))))"

lemma finite_mr_ids [simp]: "finite (mr_ids t)"
  by (simp add: mr_ids_def)

lemma mr_ids_set: "i < length t \<Longrightarrow> mr_ids (t[i := Some r]) = insert i (mr_ids t)"
  by (auto simp: mr_ids_def nth_list_update split: if_splits)

lemma mr_ids_clear: "i < length t \<Longrightarrow> mr_ids (t[i := None]) = mr_ids t - {i}"
  by (auto simp: mr_ids_def nth_list_update split: if_splits)

lemma find_free_mrid_Some:
  "find_free_mrid t i = Some j \<Longrightarrow> i \<le> j \<and> j < MAX_MRID \<and> t ! j = None \<and> (\<forall>k. i \<le> k \<and> k < j \<longrightarrow> t ! k \<noteq> None)"
proof (induction t i rule: find_free_mrid.induct)
  case (1 t i)
  show ?case
  proof (cases "i < MAX_MRID \<and> t ! i \<noteq> None")
    case True
    with 1 have "Suc i \<le> j \<and> j < MAX_MRID \<and> t ! j = None \<and> (\<forall>k. Suc i \<le> k \<and> k < j \<longrightarrow> t ! k \<noteq> None)"
      by (simp add: find_free_mrid.simps [of t i])
    with True show ?thesis by (metis Suc_leD Suc_leI le_neq_implies_less)
  next
    case False
    with 1(2) show ?thesis by (auto simp: find_free_mrid.simps [of t i] split: if_splits)
  qed
qed

lemma find_free_mrid_None:
  "find_free_mrid t i = None \<Longrightarrow> i \<le> k \<Longrightarrow> k < MAX_MRID \<Longrightarrow> t ! k \<noteq> None"
proof (induction t i rule: find_free_mrid.induct)
  case (1 t i)
  have i: "i < MAX_MRID" using 1(3,4) by simp
  with 1(2) have t: "t ! i \<noteq> None"
    unfolding find_free_mrid.simps [of t i] by (auto split: if_splits)
  show ?case
  proof (cases "k = i")
    case True
    with t show ?thesis by simp
  next
    case False
    with 1 i t show ?thesis by (simp add: find_free_mrid.simps [of t i])
  qed
qed

lemma mr_ids_last_upper: "i \<in> mr_ids t \<Longrightarrow> i < Suc (Max (mr_ids t))"
  by (simp add: less_Suc_eq_le)

lemma reduce_memregs_last_eq:
  assumes "n \<le> length t" and "mr_ids t \<subseteq> {..<n}"
  shows "reduce_memregs_last t n = (if mr_ids t = {} then 0 else Suc (Max (mr_ids t)))"
  using assms
proof (induction n)
  case 0
  then show ?case by simp
next
  case (Suc n)
  show ?case
  proof (cases "t ! n = None")
    case True
    then have "n \<notin> mr_ids t" by (simp add: mr_ids_def)
    with Suc.prems have "mr_ids t \<subseteq> {..<n}" by (auto simp: less_Suc_eq)
    with Suc True show ?thesis by simp
  next
    case False
    then have n: "n \<in> mr_ids t" using Suc.prems by (simp add: mr_ids_def)
    then have "Max (mr_ids t) = n" using Suc.prems(2) by (intro Max_eqI) (auto simp: less_Suc_eq_le)
    with n False show ?thesis by auto
  qed
qed

lemma table_ok_card: "table_ok m \<Longrightarrow> memregs_len m \<le> MAX_MRID"
  using card_mono [of "{..<MAX_MRID}" "mr_ids (memregs m)"] by (simp add: table_ok_def)

lemma alloc_mrid_ok:
  assumes "table_ok m" and "alloc_mrid m mr = (i, m')" and "i \<noteq> 255"
  shows "table_ok m' \<and> i < MAX_MRID \<and> memregs m ! i = None
    \<and> (\<forall>k<i. memregs m ! k \<noteq> None) \<and> memregs m' = (memregs m)[i := Some mr]"
proof -
  from assms obtain f: "find_free_mrid (memregs m) 0 = Some i"
    and m': "m' = m\<lparr>memregs := (memregs m)[i := Some mr], memregs_len := (memregs_len m + 1) mod 256,
      memregs_last := (if i \<ge> memregs_last m then (i + 1) mod 256 else memregs_last m)\<rparr>"
    by (auto simp: alloc_mrid_def split: option.splits)
  from find_free_mrid_Some [OF f]
  have i: "i < MAX_MRID" "memregs m ! i = None" "\<forall>k<i. memregs m ! k \<noteq> None" by auto
  let ?S = "mr_ids (memregs m)"
  have len: "i < length (memregs m)" using assms(1) i(1) by (simp add: table_ok_def MAX_MRID_def)
  have ids: "mr_ids (memregs m') = insert i ?S" using m' mr_ids_set [OF len] by simp
  have new: "i \<notin> ?S" using i(2) by (simp add: mr_ids_def)
  have sub: "insert i ?S \<subseteq> {..<MAX_MRID}" using assms(1) i(1) by (auto simp: table_ok_def)
  have card: "card (insert i ?S) \<le> MAX_MRID" using card_mono [OF _ sub] by simp
  have last: "memregs_last m' = Suc (Max (insert i ?S))"
  proof (cases "?S = {}")
    case True
    with assms(1) m' i(1) show ?thesis by (simp add: table_ok_def MAX_MRID_def)
  next
    case False
    then have mx: "Max ?S \<in> ?S" "memregs_last m = Suc (Max ?S)"
      using assms(1) by (simp_all add: table_ok_def)
    have "Max (insert i ?S) = (if i < Max ?S then Max ?S else i)"
      using False by (simp add: max_def)
    moreover have "i \<noteq> Max ?S" using mx(1) new by metis
    ultimately show ?thesis using mx(2) m' i(1) by (simp add: MAX_MRID_def)
  qed
  have "memregs_len m' = card (insert i ?S)"
    using assms(1) m' new card by (simp add: table_ok_def MAX_MRID_def)
  with last sub ids m' assms(1) i show ?thesis by (simp add: table_ok_def)
qed

lemma alloc_mrid_full:
  assumes "table_ok m" and "alloc_mrid m mr = (255, m')"
  shows "m' = m \<and> mr_ids (memregs m) = {..<MAX_MRID}"
proof -
  have "find_free_mrid (memregs m) 0 = None"
    using assms(2) find_free_mrid_Some [of "memregs m" 0 255]
    by (auto simp: alloc_mrid_def MAX_MRID_def split: option.splits)
  then have "\<forall>k<MAX_MRID. memregs m ! k \<noteq> None" using find_free_mrid_None by blast
  moreover have "m' = m"
    using assms(2) \<open>find_free_mrid (memregs m) 0 = None\<close> by (simp add: alloc_mrid_def)
  ultimately show ?thesis using assms(1) by (auto simp: table_ok_def mr_ids_def MAX_MRID_def)
qed

lemma free_mrid_ok:
  assumes "table_ok m" and "i < 256"
  shows "table_ok (snd (free_mrid m i)) \<and> mr_ids (memregs (snd (free_mrid m i))) = mr_ids (memregs m) - {i}
    \<and> (\<forall>j. j \<noteq> i \<longrightarrow> memregs (snd (free_mrid m i)) ! j = memregs m ! j)"
proof (cases "memregs m ! i")
  case None
  then have "i \<notin> mr_ids (memregs m)" by (simp add: mr_ids_def)
  with None assms(1) show ?thesis by (simp add: free_mrid_def)
next
  case (Some mr)
  let ?S = "mr_ids (memregs m)" and ?t = "(memregs m)[i := None]"
  have len: "i < length (memregs m)" "length ?t = 256" using assms by (simp_all add: table_ok_def)
  have iS: "i \<in> ?S" using Some len(1) by (simp add: mr_ids_def)
  have ids: "mr_ids ?t = ?S - {i}" by (rule mr_ids_clear [OF len(1)])
  have fin: "card (?S - {i}) = card ?S - 1" using iS by simp
  have pos: "0 < card ?S" using iS by (auto simp: card_gt_0_iff)
  have le: "card ?S \<le> MAX_MRID" using table_ok_card [OF assms(1)] assms(1) by (simp add: table_ok_def)
  have len': "(memregs_len m + 255) mod 256 = card (?S - {i})"
  proof -
    have "memregs_len m + 255 = (card ?S - 1) + 256" using assms(1) pos by (simp add: table_ok_def)
    then show ?thesis using le fin by (simp add: MAX_MRID_def)
  qed
  have mem: "memregs (snd (free_mrid m i)) = ?t" using Some by (simp add: free_mrid_def Let_def)
  have last: "memregs_last (snd (free_mrid m i)) =
      (if ?S - {i} = {} then 0 else Suc (Max (?S - {i})))"
  proof (cases "int i = int (memregs_last m) - 1")
    case True
    then have mx: "memregs_last m = Suc i" by linarith
    have "?S \<subseteq> {..<memregs_last m}"
      using assms(1) iS mr_ids_last_upper by (auto simp: table_ok_def split: if_splits)
    then have "reduce_memregs_last ?t (memregs_last m) =
        (if mr_ids ?t = {} then 0 else Suc (Max (mr_ids ?t)))"
      using ids len mx assms(2) by (intro reduce_memregs_last_eq) auto
    with True Some ids show ?thesis by (simp add: free_mrid_def Let_def)
  next
    case False
    have "?S \<noteq> {}" using iS by blast
    with False assms(1) have "Max ?S \<noteq> i" by (auto simp: table_ok_def)
    moreover have "Max ?S \<in> ?S" using iS by (intro Max_in) auto
    ultimately have "Max ?S \<in> ?S - {i}" by simp
    then have "Max (?S - {i}) = Max ?S" by (intro Max_eqI) auto
    with False Some iS assms(1) \<open>Max ?S \<in> ?S - {i}\<close> show ?thesis
      by (auto simp: free_mrid_def Let_def table_ok_def)
  qed
  have "memregs_len (snd (free_mrid m i)) = card (?S - {i})"
    using Some len' by (simp add: free_mrid_def Let_def)
  with last mem ids len assms(1) show ?thesis by (auto simp: table_ok_def)
qed

end
