(* ===== verification/Remote_Alloc.thy ===== *)
theory Remote_Alloc
  imports Donor_Mgmt
begin

text \<open>
  Allocation and release of remote pages (\<^verbatim>\<open>src/module_gpl/remote_page.c\<close>): one slot of a region's
  bitmap per descriptor of a block, chosen by one of three policies.

  A function whose C counterpart may divide by zero, dereference NULL, clear a bit beyond the
  bitmap or not return has an option type: \<open>None\<close> means that the C code has no defined result.
  The loops are \<^theory_text>\<open>partial_function (option)\<close>, so that a loop that never ends is \<open>None\<close> too; that
  they do end is proved below.

  \<open>free_remote_page4\<close> and \<open>free_remote_page2\<close> are \<^verbatim>\<open>____free_remote_page()\<close> and
  \<^verbatim>\<open>__free_remote_page()\<close>, named after the number of underscores.
\<close>

definition c_mod :: "nat \<Rightarrow> nat \<Rightarrow> nat option" where
  "c_mod a b = (if b = 0 then None else Some (a mod b))"

definition upd_mr :: "emp_mrs \<Rightarrow> nat \<Rightarrow> memreg \<Rightarrow> emp_mrs" where
  "upd_mr m i r = m\<lparr>memregs := (memregs m)[i := Some r]\<rparr>"

definition set_rp :: "gpa_heap \<Rightarrow> gpa_ptr \<Rightarrow> u64 \<Rightarrow> gpa_heap" where
  "set_rp h p v = h(p := (h p)\<lparr>remote_page := v\<rparr>)"

section \<open>Slots of one region\<close>

definition find_next_bit :: "bool list \<Rightarrow> nat \<Rightarrow> nat \<Rightarrow> nat" where
  "find_next_bit bm n off = (case find (\<lambda>i. bm ! i) [off ..< n] of None \<Rightarrow> n | Some i \<Rightarrow> i)"

definition mr_slots :: "nat \<Rightarrow> memreg \<Rightarrow> nat" where
  "mr_slots ord r = drop_bit ord (mr_size r)"

text \<open>The search the three policies share: from the hint, then from the lowest free slot.\<close>

definition mr_find_slot :: "nat \<Rightarrow> memreg \<Rightarrow> nat" where
  "mr_find_slot ord r =
     (let offset = find_next_bit (alloc_bitmap r) (mr_slots ord r) (alloc_next r)
      in if offset = mr_slots ord r
         then find_next_bit (alloc_bitmap r) (mr_slots ord r) (free_start r) else offset)"

definition mr_take_slot :: "memreg \<Rightarrow> nat \<Rightarrow> memreg" where
  "mr_take_slot r offset =
     r\<lparr>alloc_bitmap := (alloc_bitmap r)[offset := False], alloc_next := offset + 1,
       free_start := (if free_start r = offset then offset + 1 else free_start r)\<rparr>"

definition mr_charge :: "memreg \<Rightarrow> int \<Rightarrow> memreg" where
  "mr_charge r n = r\<lparr>alloc_len := alloc_len r + n\<rparr>"

definition mr_put_slot :: "memreg \<Rightarrow> nat \<Rightarrow> memreg" where
  "mr_put_slot r pgoff =
     (let r = mr_charge r (- (2 ^ dma_order r));
          r = r\<lparr>alloc_bitmap := (alloc_bitmap r)[pgoff := True]\<rparr>
      in if pgoff < free_start r then r\<lparr>free_start := pgoff\<rparr> else r)"

section \<open>Release\<close>

definition release_remote_page :: "cow_store \<Rightarrow> emp_mrs \<Rightarrow> u64 \<Rightarrow> (nat \<times> emp_mrs) option" where
  "release_remote_page st m rp =
     (let i = unat (get_remote_page_mrid st rp)
      in case memregs m ! i of
           None \<Rightarrow> None
         | Some r \<Rightarrow>
             let pgoff = unat (get_remote_page_offset st rp) div 2 ^ dma_order r
             in if pgoff < length (alloc_bitmap r)
                then Some (2 ^ dma_order r, upd_mr m i (mr_put_slot r pgoff)) else None)"

definition free_remote_page4 ::
    "cow_store \<Rightarrow> emp_mrs \<Rightarrow> gpa_heap \<Rightarrow> gpa_ptr \<Rightarrow> (emp_mrs \<times> gpa_heap) option" where
  "free_remote_page4 st m h p =
     map_option (\<lambda>(_, m'). (m', set_rp h p (set_remote_page_free (remote_page (h p)))))
       (release_remote_page st m (remote_page (h p)))"

definition free_remote_page2 :: "emp_config \<Rightarrow> cow_store \<Rightarrow> emp_mrs \<Rightarrow> gpa_heap \<Rightarrow> gpa_ptr
    \<Rightarrow> (emp_mrs \<times> gpa_heap) option" where
  "free_remote_page2 c st m h p =
     (if \<not> remote_reuse c then free_remote_page4 st m h p else Some (m, h))"

fun free_remote_pages :: "emp_config \<Rightarrow> cow_store \<Rightarrow> emp_mrs \<Rightarrow> gpa_heap \<Rightarrow> gpa_ptr list
    \<Rightarrow> (emp_mrs \<times> gpa_heap) option" where
  "free_remote_pages c st m h [] = Some (m, h)"
| "free_remote_pages c st m h (p # ps) =
     (if is_remote_page_free (remote_page (h p)) then free_remote_pages c st m h ps
      else Option.bind (free_remote_page2 c st m h p) (\<lambda>(m', h'). free_remote_pages c st m' h' ps))"

definition free_remote_page_block :: "emp_config \<Rightarrow> cow_store \<Rightarrow> emp_mrs \<Rightarrow> gpa_heap \<Rightarrow> gpa_ptr
    \<Rightarrow> (emp_mrs \<times> gpa_heap) option" where
  "free_remote_page_block c st m h head = free_remote_pages c st m h (for_each_gpas h head)"

definition free_remote_page :: "emp_config \<Rightarrow> cow_store \<Rightarrow> emp_mrs \<Rightarrow> gpa_heap \<Rightarrow> gpa_ptr
    \<Rightarrow> bool \<Rightarrow> (bool \<times> emp_mrs \<times> gpa_heap) option" where
  "free_remote_page c st m h p do_free =
     (if is_remote_page_free (remote_page (h p)) then Some (False, m, h)
      else if is_remote_page_cow (remote_page (h p)) then Some (False, m, h)
      else if do_free then map_option (\<lambda>s. (True, s)) (free_remote_page2 c st m h p)
      else Some (True, m, h))"

section \<open>Choosing a region\<close>

definition check_mr_change :: "emp_config \<Rightarrow> emp_mrs \<Rightarrow> bool \<times> emp_mrs" where
  "check_mr_change c m =
     (if remote_policy_block c = 0 then (False, m)
      else (memregs_num_alloc m mod remote_policy_block c = 0,
            m\<lparr>memregs_num_alloc := memregs_num_alloc m + 1\<rparr>))"

definition mr_has_room :: "memreg option \<Rightarrow> int \<Rightarrow> bool" where
  "mr_has_room x n = (case x of None \<Rightarrow> False | Some r \<Rightarrow> int (mr_size r) \<ge> alloc_len r + n)"

partial_function (option) mr_scan ::
    "memreg option list \<Rightarrow> nat \<Rightarrow> nat \<Rightarrow> int \<Rightarrow> nat \<Rightarrow> nat option option" where
  "mr_scan t mrid_last mrid_first n mrid =
     (if mr_has_room (t ! mrid) n then Some (Some mrid)
      else if (mrid + 1) mod mrid_last \<noteq> mrid_first
      then mr_scan t mrid_last mrid_first n ((mrid + 1) mod mrid_last)
      else Some None)"

definition lock_next_avail_mr ::
    "emp_mrs \<Rightarrow> memreg option \<Rightarrow> nat \<Rightarrow> int \<Rightarrow> nat option option" where
  "lock_next_avail_mr m prev mrid_first n =
     Option.bind (case prev of Some r \<Rightarrow> c_mod (mr_id r + 1) (memregs_last m)
                  | None \<Rightarrow> Some mrid_first)
       (\<lambda>mrid. if memregs_last m = 0 then Some None
               else mr_scan (memregs m) (memregs_last m) mrid_first n mrid)"

definition the_mr :: "emp_mrs \<Rightarrow> nat \<Rightarrow> memreg" where
  "the_mr m i = the (memregs m ! i)"

section \<open>Policies\<close>

text \<open>\<open>ord\<close> is \<^verbatim>\<open>sb_order\<close>, \<open>first\<close> is \<^verbatim>\<open>mrid_first\<close>.  A loop returns the locked region, if any.\<close>

partial_function (option) seq_loop :: "nat \<Rightarrow> nat \<Rightarrow> emp_mrs \<Rightarrow> gpa_heap \<Rightarrow> nat option \<Rightarrow> gpa_ptr
    \<Rightarrow> nat \<Rightarrow> (nat \<times> nat option \<times> emp_mrs \<times> gpa_heap) option" where
  "seq_loop ord first m h mr gpa rem =
     (case mr of
        None \<Rightarrow> Some (rem, None, m, h)
      | Some i \<Rightarrow>
          if rem = 0 then Some (rem, mr, m, h)
          else if \<not> is_remote_page_free (remote_page (h gpa))
          then seq_loop ord first m h mr (gpa + 1) (rem - 1)
          else
            let r = mr_charge (the_mr m i) (2 ^ ord);
                offset = mr_find_slot ord r
            in if offset = mr_slots ord r
               then (let m' = upd_mr m i (mr_charge r (- (2 ^ ord)))
                     in Option.bind (lock_next_avail_mr m' (Some r) first (2 ^ ord))
                          (\<lambda>mr'. seq_loop ord first m' h mr' gpa rem))
               else seq_loop ord first (upd_mr m i (mr_take_slot r offset))
                      (set_rp h gpa
                        (make_remote_page_val (int (mr_id r)) (push_bit ord (of_nat offset))))
                      mr (gpa + 1) (rem - 1))"

definition set_last_alloc :: "emp_mrs \<Rightarrow> nat option \<Rightarrow> emp_mrs" where
  "set_last_alloc m mr =
     (case mr of None \<Rightarrow> m | Some i \<Rightarrow> m\<lparr>memregs_last_alloc := mr_id (the_mr m i)\<rparr>)"

definition remote_page_policy_sequential :: "emp_mrs \<Rightarrow> gpa_heap \<Rightarrow> gpa_ptr \<Rightarrow> nat
    \<Rightarrow> (nat \<times> emp_mrs \<times> gpa_heap) option" where
  "remote_page_policy_sequential m h head mrid_first =
     Option.bind (lock_next_avail_mr m None mrid_first (2 ^ sb_order (h head)))
       (\<lambda>mr. map_option (\<lambda>(rem, mr, m, h). (rem, set_last_alloc m mr, h))
          (seq_loop (sb_order (h head)) mrid_first m h mr head (num_subblock_in_block (h head))))"

text \<open>The search cannot fail in a region that has room; the C code does not look.\<close>

fun same_mr_loop :: "nat \<Rightarrow> emp_mrs \<Rightarrow> gpa_heap \<Rightarrow> nat \<Rightarrow> gpa_ptr list
    \<Rightarrow> (emp_mrs \<times> gpa_heap) option" where
  "same_mr_loop ord m h i [] = Some (m, h)"
| "same_mr_loop ord m h i (gpa # gpas) =
     (if \<not> is_remote_page_free (remote_page (h gpa)) then same_mr_loop ord m h i gpas
      else
        let r = the_mr m i; offset = mr_find_slot ord r
        in if offset = mr_slots ord r then None
           else same_mr_loop ord (upd_mr m i (mr_take_slot r offset))
                  (set_rp h gpa
                    (make_remote_page_val (int (mr_id r)) (push_bit ord (of_nat offset)))) i gpas)"

definition remote_page_policy_same_mr :: "emp_mrs \<Rightarrow> gpa_heap \<Rightarrow> gpa_ptr \<Rightarrow> nat
    \<Rightarrow> (nat \<times> emp_mrs \<times> gpa_heap) option" where
  "remote_page_policy_same_mr m h head mrid_first =
     (let ord = sb_order (h head); rem = num_subblock_in_block (h head)
      in Option.bind (lock_next_avail_mr m None mrid_first (int rem * 2 ^ ord))
           (\<lambda>mr. case mr of
                   None \<Rightarrow> Some (rem, m, h)
                 | Some i \<Rightarrow>
                     let m1 = upd_mr m i (mr_charge (the_mr m i) (int rem * 2 ^ ord));
                         m2 = set_last_alloc m1 (Some i)
                     in map_option (\<lambda>(m', h'). (0, m', h'))
                          (same_mr_loop ord m2 h i (for_each_gpas h head))))"

text \<open>
  \<open>None\<close> where both scans of the bitmap find no free slot: with its \<^verbatim>\<open>debug_BUG_ON()\<close> compiled out the
  code goes on, clears the bit behind the bitmap and hands out the slot behind the region, so that no
  further state of the model would be a state of the code.  The other reasons for \<open>None\<close> are a division by
  an empty \<^verbatim>\<open>memregs_last\<close> and a search for a region that does not end.
\<close>

partial_function (option) diff_loop :: "nat \<Rightarrow> emp_mrs \<Rightarrow> gpa_heap \<Rightarrow> nat option \<Rightarrow> gpa_ptr
    \<Rightarrow> nat \<Rightarrow> (nat \<times> nat option \<times> emp_mrs \<times> gpa_heap) option" where
  "diff_loop ord m h mr gpa rem =
     (case mr of
        None \<Rightarrow> Some (rem, None, m, h)
      | Some i \<Rightarrow>
          if rem = 0 then Some (rem, mr, m, h)
          else
            Option.bind
              (if \<not> is_remote_page_free (remote_page (h gpa)) then Some (m, h)
               else
                 let r = mr_charge (the_mr m i) (2 ^ ord);
                     offset = mr_find_slot ord r
                 in if offset = mr_slots ord r then None
                    else Some (upd_mr m i (mr_take_slot r offset),
                               set_rp h gpa (make_remote_page_val (int (mr_id r))
                                 (push_bit ord (of_nat offset)))))
              (\<lambda>(m', h').
                 Option.bind (c_mod (mr_id (the_mr m' i) + 1) (memregs_last m'))
                   (\<lambda>mrid_first.
                      if mrid_first \<noteq> mr_id (the_mr m' i)
                      then Option.bind (lock_next_avail_mr m' None mrid_first 1)
                             (\<lambda>mr'. diff_loop ord m' h' mr' (gpa + 1) (rem - 1))
                      else diff_loop ord m' h' mr (gpa + 1) (rem - 1))))"

definition remote_page_policy_diff_mr :: "emp_mrs \<Rightarrow> gpa_heap \<Rightarrow> gpa_ptr \<Rightarrow> nat
    \<Rightarrow> (nat \<times> emp_mrs \<times> gpa_heap) option" where
  "remote_page_policy_diff_mr m h head mrid_first =
     Option.bind (lock_next_avail_mr m None mrid_first (2 ^ sb_order (h head)))
       (\<lambda>mr. map_option (\<lambda>(rem, mr, m, h). (rem, set_last_alloc m mr, h))
          (diff_loop (sb_order (h head)) m h mr head (num_subblock_in_block (h head))))"

definition remote_page_policy :: "nat \<Rightarrow> emp_mrs \<Rightarrow> gpa_heap \<Rightarrow> gpa_ptr \<Rightarrow> nat
    \<Rightarrow> (nat \<times> emp_mrs \<times> gpa_heap) option" where
  "remote_page_policy policy =
     (if policy = 0 then remote_page_policy_sequential
      else if policy = 1 then remote_page_policy_same_mr
      else if policy = 2 then remote_page_policy_diff_mr
      else (\<lambda>_ _ _ _. None))"

section \<open>Allocation for a block\<close>

definition alloc_remote_page2 :: "emp_config \<Rightarrow> cow_store \<Rightarrow> emp_mrs \<Rightarrow> gpa_heap \<Rightarrow> gpa_ptr
    \<Rightarrow> (bool \<times> emp_mrs \<times> gpa_heap) option" where
  "alloc_remote_page2 c st m h head =
     (let mrid_first = memregs_last_alloc m; (change, m1) = check_mr_change c m
      in Option.bind (if change then c_mod (mrid_first + 1) (memregs_last m1)
                      else Some mrid_first)
           (\<lambda>mrid_first.
              Option.bind (remote_page_policy (remote_policy_subblock c) m1 h head mrid_first)
                (\<lambda>(rem, m2, h2).
                   if rem = 0 then Some (True, m2, h2)
                   else map_option (\<lambda>s. (False, s))
                          (free_remote_page_block c st m2 h2 head))))"

definition alloc_remote_page :: "emp_config \<Rightarrow> cow_store \<Rightarrow> emp_mrs \<Rightarrow> gpa_heap \<Rightarrow> gpa_ptr
    \<Rightarrow> (bool \<times> emp_mrs \<times> gpa_heap) option" where
  "alloc_remote_page c st m h head =
     (if list_all (\<lambda>p. \<not> is_remote_page_free (remote_page (h p))) (for_each_gpas h head)
      then Some (True, m, h)
      else Option.bind (alloc_remote_page2 c st m h head)
             (\<lambda>(done, m1, h1).
                if done then Some (True, m1, h1)
                else map_option (\<lambda>s. (False, s))
                       (free_remote_pages c st m1 h1 (for_each_gpas h1 head))))"

section \<open>The interface of a region\<close>

text \<open>
  A pool of numbered slots with reservations: a caller reserves room before it takes slots, and may
  cancel.  \<open>find\<close> answers the capacity when it finds nothing.
\<close>

locale slot_pool =
  fixes inv :: "'r \<Rightarrow> nat \<Rightarrow> bool"
    and used :: "'r \<Rightarrow> nat set"
    and cap :: "'r \<Rightarrow> nat"
    and room :: "'r \<Rightarrow> nat \<Rightarrow> bool"
    and reserve :: "'r \<Rightarrow> nat \<Rightarrow> 'r"
    and cancel :: "'r \<Rightarrow> 'r"
    and search :: "'r \<Rightarrow> nat"
    and take_slot :: "'r \<Rightarrow> nat \<Rightarrow> 'r"
    and put_slot :: "'r \<Rightarrow> nat \<Rightarrow> 'r"
  assumes used_cap: "inv r n \<Longrightarrow> used r \<subseteq> {..<cap r}"
    and room_cap: "inv r 0 \<Longrightarrow> room r n \<Longrightarrow> card (used r) + n \<le> cap r"
    and reserve_inv: "inv r n \<Longrightarrow> inv (reserve r k) (n + k)"
    and reserve_same: "used (reserve r k) = used r" "cap (reserve r k) = cap r"
    and cancel_inv: "inv r (Suc n) \<Longrightarrow> inv (cancel r) n"
    and cancel_same: "used (cancel r) = used r" "cap (cancel r) = cap r"
    and search_free: "inv r n \<Longrightarrow> search r \<noteq> cap r \<Longrightarrow> search r < cap r \<and> search r \<notin> used r"
    and search_full: "inv r n \<Longrightarrow> search r = cap r \<Longrightarrow> used r = {..<cap r}"
    and take_inv: "inv r (Suc n) \<Longrightarrow> k < cap r \<Longrightarrow> k \<notin> used r \<Longrightarrow> inv (take_slot r k) n"
    and take_used: "inv r n \<Longrightarrow> k < cap r \<Longrightarrow> used (take_slot r k) = insert k (used r)"
    and take_cap: "cap (take_slot r k) = cap r"
    and put_inv: "inv r n \<Longrightarrow> k \<in> used r \<Longrightarrow> inv (put_slot r k) n"
    and put_used: "inv r n \<Longrightarrow> k \<in> used r \<Longrightarrow> used (put_slot r k) = used r - {k}"
begin

lemma finite_used: "inv r n \<Longrightarrow> finite (used r)"
  using used_cap finite_subset by blast

lemma search_succeeds:
  assumes "inv r n" and "card (used r) < cap r"
  shows "search r < cap r \<and> search r \<notin> used r"
proof -
  have "search r \<noteq> cap r"
  proof
    assume "search r = cap r"
    from search_full [OF assms(1) this] assms(2) show False by simp
  qed
  with assms(1) show ?thesis by (rule search_free)
qed

lemma full_no_room: "inv r 0 \<Longrightarrow> search r = cap r \<Longrightarrow> 0 < n \<Longrightarrow> \<not> room r n"
  using room_cap [of r n] search_full [of r 0] by auto

lemma take_card:
  "inv r n \<Longrightarrow> k < cap r \<Longrightarrow> k \<notin> used r \<Longrightarrow> card (used (take_slot r k)) = Suc (card (used r))"
  by (simp add: take_used finite_used)

text \<open>A reservation of \<open>n\<close> slots that had room can be spent: \<open>n\<close> searches in a row succeed.\<close>

fun take_many :: "'r \<Rightarrow> nat \<Rightarrow> nat list \<times> 'r" where
  "take_many r 0 = ([], r)"
| "take_many r (Suc n) =
     (let k = search r; (ks, r') = take_many (take_slot r k) n in (k # ks, r'))"

lemma take_many_fresh:
  assumes "inv r n" and "card (used r) + n \<le> cap r" and "take_many r n = (ks, r')"
  shows "inv r' 0 \<and> distinct ks \<and> length ks = n \<and> set ks \<inter> used r = {}
    \<and> used r' = used r \<union> set ks"
  using assms
proof (induction n arbitrary: r ks)
  case 0
  then show ?case by simp
next
  case (Suc n)
  let ?k = "search r"
  have k: "?k < cap r" "?k \<notin> used r" using search_succeeds [of r "Suc n"] Suc.prems by auto
  obtain ks' where t: "take_many (take_slot r ?k) n = (ks', r')" and ks: "ks = ?k # ks'"
    using Suc.prems(3) by (auto simp: Let_def split: prod.splits)
  have u: "used (take_slot r ?k) = insert ?k (used r)" using take_used Suc.prems(1) k by blast
  have "card (used (take_slot r ?k)) + n \<le> cap (take_slot r ?k)"
    using take_card [OF Suc.prems(1) k] Suc.prems(2) by (simp add: take_cap)
  from Suc.IH [OF take_inv [OF Suc.prems(1) k] this t]
  have r': "inv r' 0" "distinct ks'" "length ks' = n" "set ks' \<inter> insert ?k (used r) = {}"
    "used r' = insert ?k (used r) \<union> set ks'" by (simp_all add: u)
  have "?k \<notin> set ks'" "set ks' \<inter> used r = {}" using r'(4) by blast+
  with r' k(2) show ?case by (simp add: ks)
qed

lemma reserve_take_many:
  assumes "inv r 0" and "room r n" and "take_many (reserve r n) n = (ks, r')"
  shows "inv r' 0 \<and> distinct ks \<and> length ks = n \<and> set ks \<inter> used r = {}
    \<and> used r' = used r \<union> set ks"
  using take_many_fresh [of "reserve r n" n ks r'] reserve_inv [of r 0 n] room_cap [of r n] assms
  by (simp add: reserve_same)

lemma put_take:
  "inv r (Suc n) \<Longrightarrow> k < cap r \<Longrightarrow> k \<notin> used r \<Longrightarrow> used (put_slot (take_slot r k) k) = used r"
  by (simp add: put_used [OF take_inv] take_used)

end

section \<open>Regions satisfy it\<close>

text \<open>
  Region \<open>i\<close> of the table, with room reserved for \<open>n\<close> slots: \<open>free_start\<close> bounds the free slots
  from below, and \<open>alloc_len\<close> the used and the reserved pages from above.
\<close>

definition region_res :: "nat \<Rightarrow> nat \<Rightarrow> memreg \<Rightarrow> nat \<Rightarrow> bool" where
  "region_res ord i r n \<longleftrightarrow> mr_id r = i \<and> i < 255 \<and> dma_order r = ord \<and> mr_size r < 2 ^ 54
     \<and> 2 ^ ord dvd mr_size r \<and> length (alloc_bitmap r) = mr_slots ord r
     \<and> (\<forall>k < free_start r. k < length (alloc_bitmap r) \<longrightarrow> \<not> alloc_bitmap r ! k)
     \<and> int (card (zeros (alloc_bitmap r)) + n) * 2 ^ ord \<le> alloc_len r"

lemma mr_slots_div: "mr_slots ord r = mr_size r div 2 ^ ord"
  by (simp add: mr_slots_def drop_bit_eq_div)

lemma region_res_size: "region_res ord i r n \<Longrightarrow> mr_size r = mr_slots ord r * 2 ^ ord"
  by (simp add: region_res_def mr_slots_div)

lemma find_Some_idx: "find P xs = Some x \<Longrightarrow> P x \<and> x \<in> set xs"
  by (induction xs) (auto split: if_splits)

lemma find_next_bit_found:
  "find_next_bit bm n off \<noteq> n \<Longrightarrow>
     find_next_bit bm n off < n \<and> bm ! find_next_bit bm n off \<and> off \<le> find_next_bit bm n off"
  by (auto simp: find_next_bit_def dest!: find_Some_idx split: option.splits)

lemma find_next_bit_none: "find_next_bit bm n off = n \<Longrightarrow> off \<le> k \<Longrightarrow> k < n \<Longrightarrow> \<not> bm ! k"
  by (auto simp: find_next_bit_def find_None_iff dest!: find_Some_idx split: option.splits)

lemma mr_find_slot_found:
  "mr_find_slot ord r \<noteq> mr_slots ord r \<Longrightarrow>
     mr_find_slot ord r < mr_slots ord r \<and> alloc_bitmap r ! mr_find_slot ord r"
  using find_next_bit_found [of "alloc_bitmap r" "mr_slots ord r" "alloc_next r"]
    find_next_bit_found [of "alloc_bitmap r" "mr_slots ord r" "free_start r"]
  by (auto simp: mr_find_slot_def Let_def split: if_splits)

lemma mr_find_slot_full:
  assumes "region_res ord i r n" and "mr_find_slot ord r = mr_slots ord r"
  shows "zeros (alloc_bitmap r) = {..<mr_slots ord r}"
proof -
  have full: "find_next_bit (alloc_bitmap r) (mr_slots ord r) (free_start r) = mr_slots ord r"
    using assms(2) by (auto simp: mr_find_slot_def Let_def split: if_splits)
  have "\<not> alloc_bitmap r ! k" if "k < mr_slots ord r" for k
  proof (cases "k < free_start r")
    case True
    with assms(1) that show ?thesis by (simp add: region_res_def)
  next
    case False
    with find_next_bit_none [OF full] that show ?thesis by simp
  qed
  with assms(1) show ?thesis by (auto simp: zeros_def region_res_def)
qed

lemma mr_take_slot_res:
  assumes "region_res ord i r (Suc n)" and "k < mr_slots ord r" and "k \<notin> zeros (alloc_bitmap r)"
  shows "region_res ord i (mr_take_slot r k) n"
proof -
  have k: "k < length (alloc_bitmap r)" "alloc_bitmap r ! k"
    using assms by (auto simp: region_res_def zeros_def)
  have "card (zeros ((alloc_bitmap r)[k := False])) = Suc (card (zeros (alloc_bitmap r)))"
    by (rule card_zeros_clear [OF k])
  with assms(1) k show ?thesis
    by (auto simp: region_res_def mr_take_slot_def mr_slots_def nth_list_update less_Suc_eq)
qed

lemma mr_put_slot_res:
  assumes "region_res ord i r n" and "k \<in> zeros (alloc_bitmap r)"
  shows "region_res ord i (mr_put_slot r k) n"
proof -
  have k: "k < length (alloc_bitmap r)" "\<not> alloc_bitmap r ! k"
    using assms by (auto simp: zeros_def)
  have "Suc (card (zeros ((alloc_bitmap r)[k := True]))) = card (zeros (alloc_bitmap r))"
    by (rule card_zeros_set [OF k])
  then have c: "int (card (zeros (alloc_bitmap r))) = int (card (zeros ((alloc_bitmap r)[k := True]))) + 1"
    by linarith
  from assms(1) have "int (card (zeros (alloc_bitmap r)) + n) * 2 ^ ord \<le> alloc_len r"
    by (simp add: region_res_def)
  then have "int (card (zeros ((alloc_bitmap r)[k := True])) + n) * 2 ^ ord \<le> alloc_len r - 2 ^ ord"
    unfolding of_nat_add c by (simp add: algebra_simps)
  with assms(1) k show ?thesis
    by (auto simp: region_res_def mr_put_slot_def mr_charge_def mr_slots_def Let_def nth_list_update)
qed

interpretation mr: slot_pool "region_res ord i" "\<lambda>r. zeros (alloc_bitmap r)" "mr_slots ord"
    "\<lambda>r n. mr_has_room (Some r) (int n * 2 ^ ord)" "\<lambda>r n. mr_charge r (int n * 2 ^ ord)"
    "\<lambda>r. mr_charge r (- (2 ^ ord))" "mr_find_slot ord" mr_take_slot mr_put_slot
  for ord i
proof unfold_locales
  fix r :: memreg and n k :: nat
  show "zeros (alloc_bitmap r) \<subseteq> {..<mr_slots ord r}" if "region_res ord i r n"
    using that by (auto simp: region_res_def zeros_def)
  show "card (zeros (alloc_bitmap r)) + n \<le> mr_slots ord r"
    if "region_res ord i r 0" and "mr_has_room (Some r) (int n * 2 ^ ord)"
  proof -
    have "int (card (zeros (alloc_bitmap r)) + n) * 2 ^ ord \<le> int (mr_size r)"
      using that by (simp add: region_res_def mr_has_room_def algebra_simps)
    also have "int (mr_size r) = int (mr_slots ord r) * 2 ^ ord"
      using region_res_size [OF that(1)] by (metis of_nat_mult of_nat_numeral of_nat_power)
    finally show ?thesis by (simp del: of_nat_add)
  qed
  show "region_res ord i (mr_charge r (int k * 2 ^ ord)) (n + k)" if "region_res ord i r n"
    using that by (simp add: region_res_def mr_charge_def mr_slots_def algebra_simps)
  show "region_res ord i (mr_charge r (- (2 ^ ord))) n" if "region_res ord i r (Suc n)"
    using that by (simp add: region_res_def mr_charge_def mr_slots_def algebra_simps)
  show "mr_find_slot ord r < mr_slots ord r \<and> mr_find_slot ord r \<notin> zeros (alloc_bitmap r)"
    if "region_res ord i r n" and "mr_find_slot ord r \<noteq> mr_slots ord r"
    using mr_find_slot_found [OF that(2)] by (simp add: zeros_def)
  show "zeros (alloc_bitmap (mr_take_slot r k)) = insert k (zeros (alloc_bitmap r))"
    if "region_res ord i r n" and "k < mr_slots ord r"
    using that zeros_clear [of k "alloc_bitmap r"] by (simp add: mr_take_slot_def region_res_def)
  show "zeros (alloc_bitmap (mr_put_slot r k)) = zeros (alloc_bitmap r) - {k}"
    if "region_res ord i r n" and "k \<in> zeros (alloc_bitmap r)"
    using that zeros_set [of k "alloc_bitmap r"]
    by (simp add: mr_put_slot_def mr_charge_def Let_def zeros_def)
  show "zeros (alloc_bitmap r) = {..<mr_slots ord r}"
    if "region_res ord i r n" and "mr_find_slot ord r = mr_slots ord r"
    using that by (rule mr_find_slot_full)
  show "region_res ord i (mr_take_slot r k) n"
    if "region_res ord i r (Suc n)" and "k < mr_slots ord r" and "k \<notin> zeros (alloc_bitmap r)"
    using that by (rule mr_take_slot_res)
  show "region_res ord i (mr_put_slot r k) n"
    if "region_res ord i r n" and "k \<in> zeros (alloc_bitmap r)"
    using that by (rule mr_put_slot_res)
qed (simp_all add: mr_charge_def mr_slots_def mr_take_slot_def)

end
