(* ===== verification/Remote_Policy.thy ===== *)
theory Remote_Policy
  imports Remote_Alloc
begin

text \<open>
  What the allocation of remote pages promises.  The abstract view is a table of slots and the words
  of the descriptors; \<open>alloc_step\<close> hands a free slot to a descriptor without a page, or changes the
  bookkeeping of a region.  The three policies are runs of that relation which end, keep the
  invariant of the regions and fail only when no region has room.
\<close>

section \<open>Slots and words\<close>

definition slot_word :: "nat \<Rightarrow> nat \<times> nat \<Rightarrow> u64" where
  "slot_word ord s = make_remote_page_val (int (fst s)) (push_bit ord (of_nat (snd s)))"

definition word_slot :: "nat \<Rightarrow> u64 \<Rightarrow> nat \<times> nat" where
  "word_slot ord rp = (unat (raw_remote_page_mrid rp), unat (raw_remote_page_offset rp) div 2 ^ ord)"

definition used_slots :: "memreg option list \<Rightarrow> (nat \<times> nat) set" where
  "used_slots t =
     {(i, k). i < length t \<and> (\<exists>r. t ! i = Some r \<and> k \<in> zeros (alloc_bitmap r))}"

definition regions_res :: "nat \<Rightarrow> memreg option list \<Rightarrow> (nat \<Rightarrow> nat) \<Rightarrow> bool" where
  "regions_res ord t R \<longleftrightarrow> (\<forall>i < length t. \<forall>r. t ! i = Some r \<longrightarrow> region_res ord i r (R i))"

abbreviation mr_regions_ok :: "nat \<Rightarrow> memreg option list \<Rightarrow> bool" where
  "mr_regions_ok ord t \<equiv> regions_res ord t (\<lambda>_. 0)"

abbreviation has_page :: "gpa_heap \<Rightarrow> gpa_ptr \<Rightarrow> bool" where
  "has_page h p \<equiv> \<not> is_remote_page_free (remote_page (h p))"

text \<open>
  Every word that a descriptor of \<open>P\<close> holds names a used slot, and no two hold the same.
\<close>

definition pages_ok :: "nat \<Rightarrow> memreg option list \<Rightarrow> gpa_heap \<Rightarrow> gpa_ptr set \<Rightarrow> bool" where
  "pages_ok ord t h P \<longleftrightarrow>
     (\<forall>p \<in> P. has_page h p \<longrightarrow> (\<exists>s \<in> used_slots t. remote_page (h p) = slot_word ord s))
     \<and> inj_on (\<lambda>p. remote_page (h p)) {p \<in> P. has_page h p}"

lemma slot_word_facts:
  assumes "i < 255" and "(k + 1) * 2 ^ ord \<le> 2 ^ 54"
  shows "word_slot ord (slot_word ord (i, k)) = (i, k)"
    and "\<not> is_remote_page_free (slot_word ord (i, k))"
    and "\<not> is_remote_page_cow (slot_word ord (i, k))"
proof -
  have lt: "k * 2 ^ ord < 2 ^ 54" 
  proof -
    have "k * 2 ^ ord < (k + 1) * 2 ^ ord" by simp
    from this assms(2) show ?thesis by (rule less_le_trans)
  qed
  have e: "push_bit ord (of_nat k) = (of_nat (k * 2 ^ ord) :: u64)"
    by (simp add: push_bit_eq_mult)
  have u: "unat (push_bit ord (of_nat k) :: u64) = k * 2 ^ ord"
    unfolding e using lt by (simp only: unat_of_nat) (simp add: take_bit_nat_eq_self)
  then have off: "unat (push_bit ord (of_nat k) :: u64) < 2 ^ 54" using lt by simp
  have "unat (of_nat i :: u64) = i" using assms(1) by (simp add: unat_of_nat take_bit_nat_eq_self)
  with u show "word_slot ord (slot_word ord (i, k)) = (i, k)"
    using raw_mrid_make [OF _ off, of i] raw_offset_make [OF off] assms(1)
    by (simp add: word_slot_def slot_word_def)
  show "\<not> is_remote_page_free (slot_word ord (i, k))"
    using make_val_not_free [of i "push_bit ord (of_nat k)"] off assms(1)
    by (auto simp: is_remote_page_free_def slot_word_def)
  show "\<not> is_remote_page_cow (slot_word ord (i, k))"
    by (simp add: slot_word_def)
qed

lemma region_slot_bound:
  "region_res ord i r n \<Longrightarrow> k < mr_slots ord r \<Longrightarrow> i < 255 \<and> (k + 1) * 2 ^ ord \<le> 2 ^ 54"
proof -
  assume r: "region_res ord i r n" and k: "k < mr_slots ord r"
  have "(k + 1) * 2 ^ ord \<le> mr_slots ord r * 2 ^ ord"
    using k by (intro mult_right_mono) auto
  also have "\<dots> = mr_size r" using region_res_size [OF r] by simp
  also have "\<dots> < 2 ^ 54" using r by (simp add: region_res_def)
  finally show ?thesis using r by (simp add: region_res_def)
qed

lemma used_slot_facts:
  assumes "regions_res ord t R" and "s \<in> used_slots t"
  shows "word_slot ord (slot_word ord s) = s"
    and "\<not> is_remote_page_free (slot_word ord s)" and "\<not> is_remote_page_cow (slot_word ord s)"
proof -
  from assms(2) obtain i k r where s: "s = (i, k)" "i < length t" "t ! i = Some r"
    "k \<in> zeros (alloc_bitmap r)" by (auto simp: used_slots_def)
  with assms(1) have r: "region_res ord i r (R i)" by (simp add: regions_res_def)
  with s(4) mr.used_cap have "k < mr_slots ord r" by blast
  from region_slot_bound [OF r this] slot_word_facts [of i k ord] s(1)
  show "word_slot ord (slot_word ord s) = s" "\<not> is_remote_page_free (slot_word ord s)"
    "\<not> is_remote_page_cow (slot_word ord s)" by auto
qed

lemma slot_word_inj:
  "regions_res ord t R \<Longrightarrow> s \<in> used_slots t \<Longrightarrow> s' \<in> used_slots t \<Longrightarrow>
     slot_word ord s = slot_word ord s' \<Longrightarrow> s = s'"
  by (metis used_slot_facts(1))

lemma regions_resD: "regions_res ord t R \<Longrightarrow> i < length t \<Longrightarrow> t ! i = Some r \<Longrightarrow> region_res ord i r (R i)"
  by (simp add: regions_res_def)

lemma regions_res_upd:
  "regions_res ord t R \<Longrightarrow> region_res ord i r n \<Longrightarrow> regions_res ord (t[i := Some r]) (R(i := n))"
  by (cases "i < length t") (auto simp: regions_res_def nth_list_update)

lemma used_slots_upd:
  "i < length t \<Longrightarrow> used_slots (t[i := Some r]) =
     {s \<in> used_slots t. fst s \<noteq> i} \<union> {i} \<times> zeros (alloc_bitmap r)"
  by (auto simp: used_slots_def nth_list_update split: if_splits)

lemma set_rp_simps [simp]:
  "remote_page (set_rp h p v q) = (if q = p then v else remote_page (h q))"
  "sb_order (set_rp h p v q) = sb_order (h q)"
  "block_order (set_rp h p v q) = block_order (h q)"
  "num_subblock_in_block (set_rp h p v q) = num_subblock_in_block (h q)"
  "orders_ok (set_rp h p v q) = orders_ok (h q)"
  by (simp_all add: set_rp_def num_subblock_in_block_def orders_ok_def)

section \<open>The abstract allocator\<close>

inductive alloc_step :: "nat \<Rightarrow> gpa_ptr set \<Rightarrow> memreg option list \<times> gpa_heap
    \<Rightarrow> memreg option list \<times> gpa_heap \<Rightarrow> bool" for ord B where
  take: "p \<in> B \<Longrightarrow> is_remote_page_free (remote_page (h p)) \<Longrightarrow> i < length t \<Longrightarrow> t ! i = Some r
    \<Longrightarrow> k \<notin> zeros (alloc_bitmap r) \<Longrightarrow> k < length (alloc_bitmap r)
    \<Longrightarrow> alloc_step ord B (t, h) (t[i := Some (mr_take_slot r k)], set_rp h p (slot_word ord (i, k)))"
| charge: "i < length t \<Longrightarrow> t ! i = Some r
    \<Longrightarrow> alloc_step ord B (t, h) (t[i := Some (mr_charge r n)], h)"

inductive_cases alloc_stepE [consumes 1, case_names take charge]: "alloc_step ord B (t, h) (t', h')"

abbreviation alloc_run where "alloc_run ord B \<equiv> (alloc_step ord B)\<^sup>*\<^sup>*"

text \<open>The part of \<open>region_res\<close> that no charge can break.\<close>

definition region_shape :: "nat \<Rightarrow> nat \<Rightarrow> memreg \<Rightarrow> bool" where
  "region_shape ord i r \<longleftrightarrow> i < 255 \<and> mr_size r < 2 ^ 54 \<and> 2 ^ ord dvd mr_size r
     \<and> length (alloc_bitmap r) = mr_slots ord r"

definition regions_shape :: "nat \<Rightarrow> memreg option list \<Rightarrow> bool" where
  "regions_shape ord t \<longleftrightarrow> (\<forall>i < length t. \<forall>r. t ! i = Some r \<longrightarrow> region_shape ord i r)"

lemma regions_shape_upd:
  "regions_shape ord t \<Longrightarrow> region_shape ord i r \<Longrightarrow> regions_shape ord (t[i := Some r])"
  by (cases "i < length t") (auto simp: regions_shape_def nth_list_update)

lemma region_shape_simps [simp]:
  "region_shape ord i (mr_take_slot r k) = region_shape ord i r"
  "region_shape ord i (mr_charge r n) = region_shape ord i r"
  by (simp_all add: region_shape_def mr_take_slot_def mr_charge_def mr_slots_def)

lemma regions_shapeD: "regions_shape ord t \<Longrightarrow> i < length t \<Longrightarrow> t ! i = Some r \<Longrightarrow> region_shape ord i r"
  by (simp add: regions_shape_def)

lemma regions_res_shape: "regions_res ord t R \<Longrightarrow> regions_shape ord t"
  by (auto simp: regions_res_def regions_shape_def region_res_def region_shape_def)

lemma shape_slot_word:
  assumes "regions_shape ord t" and "i < length t" and "t ! i = Some r"
    and "k < length (alloc_bitmap r)"
  shows "word_slot ord (slot_word ord (i, k)) = (i, k)"
    and "\<not> is_remote_page_free (slot_word ord (i, k))"
    and "\<not> is_remote_page_cow (slot_word ord (i, k))"
proof -
  from assms have r: "region_shape ord i r" by (simp add: regions_shape_def)
  then have "mr_slots ord r * 2 ^ ord = mr_size r" by (simp add: region_shape_def mr_slots_div)
  moreover have "(k + 1) * 2 ^ ord \<le> mr_slots ord r * 2 ^ ord"
    using r assms(4) by (intro mult_right_mono) (auto simp: region_shape_def)
  ultimately have b: "(k + 1) * 2 ^ ord \<le> 2 ^ 54" using r by (simp add: region_shape_def)
  have "i < 255" using r by (simp add: region_shape_def)
  from slot_word_facts [OF this b]
  show "word_slot ord (slot_word ord (i, k)) = (i, k)"
    "\<not> is_remote_page_free (slot_word ord (i, k))" "\<not> is_remote_page_cow (slot_word ord (i, k))"
    by auto
qed

lemma shape_used_slot:
  "regions_shape ord t \<Longrightarrow> s \<in> used_slots t \<Longrightarrow> word_slot ord (slot_word ord s) = s
     \<and> \<not> is_remote_page_free (slot_word ord s) \<and> \<not> is_remote_page_cow (slot_word ord s)"
  using shape_slot_word by (fastforce simp: used_slots_def zeros_def)

text \<open>What one step keeps.\<close>

definition run_keeps :: "gpa_ptr set \<Rightarrow> memreg option list \<times> gpa_heap
    \<Rightarrow> memreg option list \<times> gpa_heap \<Rightarrow> bool" where
  "run_keeps B x y \<longleftrightarrow> length (fst y) = length (fst x) \<and> used_slots (fst x) \<subseteq> used_slots (fst y)
     \<and> (\<forall>i. map_option mr_size (fst y ! i) = map_option mr_size (fst x ! i))
     \<and> (\<forall>p. p \<notin> B \<or> has_page (snd x) p \<longrightarrow> snd y p = snd x p)
     \<and> (\<forall>p. \<exists>v. snd y p = (snd x p)\<lparr>remote_page := v\<rparr>)"

lemma rp_self: "\<exists>v. g = g\<lparr>remote_page := v\<rparr>"
  by (rule exI [of _ "remote_page g"]) simp

lemma run_keeps_refl: "run_keeps B x x"
  by (simp add: run_keeps_def rp_self)

lemma nth_upd_size:
  "t ! i = Some r \<Longrightarrow> i < length t \<Longrightarrow> mr_size r' = mr_size r
    \<Longrightarrow> map_option mr_size (t[i := Some r'] ! j) = map_option mr_size (t ! j)"
  by (cases "j = i") auto

lemma run_keeps_None: "run_keeps B x y \<Longrightarrow> fst y ! i = None \<longleftrightarrow> fst x ! i = None"
  unfolding run_keeps_def by (metis option.map_disc_iff)

lemma used_slots_take:
  assumes "i < length t" and "t ! i = Some r" and "k < length (alloc_bitmap r)"
  shows "used_slots (t[i := Some (mr_take_slot r k)]) = insert (i, k) (used_slots t)"
proof -
  have "zeros (alloc_bitmap (mr_take_slot r k)) = insert k (zeros (alloc_bitmap r))"
    using zeros_clear [OF assms(3)] by (simp add: mr_take_slot_def)
  then have "used_slots (t[i := Some (mr_take_slot r k)]) =
      {s \<in> used_slots t. fst s \<noteq> i} \<union> {i} \<times> insert k (zeros (alloc_bitmap r))"
    using used_slots_upd [OF assms(1)] by metis
  moreover have "{i} \<times> zeros (alloc_bitmap r) = {s \<in> used_slots t. fst s = i}"
    using assms by (auto simp: used_slots_def)
  ultimately show ?thesis by auto
qed

lemma used_slots_charge:
  "i < length t \<Longrightarrow> t ! i = Some r \<Longrightarrow> used_slots (t[i := Some (mr_charge r n)]) = used_slots t"
  by (auto simp: used_slots_def nth_list_update mr_charge_def split: if_splits)

lemma alloc_step_keeps:
  assumes "alloc_step ord B (t, h) (t', h')" and "regions_shape ord t"
  shows "run_keeps B (t, h) (t', h') \<and> regions_shape ord t'"
  using assms
proof (cases rule: alloc_stepE)
  case (take p i r k)
  have "used_slots t' = insert (i, k) (used_slots t)"
    unfolding take(7) by (rule used_slots_take [OF take(3,4,6)])
  moreover have "regions_shape ord t'"
    unfolding take(7) using regions_shapeD [OF assms(2) take(3,4)]
    by (intro regions_shape_upd assms(2)) simp
  moreover have "\<forall>q. \<exists>v. h' q = (h q)\<lparr>remote_page := v\<rparr>"
    unfolding take(8) set_rp_def by (simp add: rp_self) blast
  moreover have "\<forall>j. map_option mr_size (t' ! j) = map_option mr_size (t ! j)"
    unfolding take(7) by (intro allI nth_upd_size [OF take(4,3)]) (simp add: mr_take_slot_def)
  ultimately show ?thesis using take(7,8,1,2) by (auto simp: run_keeps_def set_rp_def)
next
  case (charge i r n)
  have "\<forall>j. map_option mr_size (t' ! j) = map_option mr_size (t ! j)"
    unfolding charge(3) by (intro allI nth_upd_size [OF charge(2,1)]) (simp add: mr_charge_def)
  moreover have "regions_shape ord t'"
    unfolding charge(3) using regions_shapeD [OF assms(2) charge(1,2)]
    by (intro regions_shape_upd assms(2)) simp
  moreover have "used_slots t' = used_slots t"
    unfolding charge(3) by (rule used_slots_charge [OF charge(1,2)])
  ultimately show ?thesis using charge(3,4) by (simp add: run_keeps_def rp_self)
qed

lemma run_keeps_trans:
  assumes "run_keeps B x y" and "run_keeps B y z"
  shows "run_keeps B x z"
proof -
  have "\<exists>v. snd z p = (snd x p)\<lparr>remote_page := v\<rparr>" for p
  proof -
    from assms obtain v w where "snd y p = (snd x p)\<lparr>remote_page := v\<rparr>"
      "snd z p = (snd y p)\<lparr>remote_page := w\<rparr>" unfolding run_keeps_def by metis
    then have "snd z p = (snd x p)\<lparr>remote_page := w\<rparr>" by simp
    then show ?thesis by blast
  qed
  moreover have "snd z p = snd x p" if "p \<notin> B \<or> has_page (snd x) p" for p
  proof -
    have "snd y p = snd x p" using assms(1) that by (simp add: run_keeps_def)
    with assms(2) that show ?thesis by (auto simp: run_keeps_def)
  qed
  ultimately show ?thesis using assms by (auto simp: run_keeps_def)
qed

lemma alloc_run_keeps:
  assumes "alloc_run ord B x y" and "regions_shape ord (fst x)"
  shows "run_keeps B x y \<and> regions_shape ord (fst y)"
  using assms
proof (induction rule: rtranclp_induct)
  case base
  then show ?case by (simp add: run_keeps_refl)
next
  case (step y z)
  then have y: "run_keeps B x y" "regions_shape ord (fst y)" by auto
  with step(2) have "run_keeps B y z \<and> regions_shape ord (fst z)"
    using alloc_step_keeps [of ord B "fst y" "snd y" "fst z" "snd z"] by simp
  with y run_keeps_trans show ?case by blast
qed

text \<open>The central safety argument: a step never gives out a slot that some descriptor holds.\<close>

lemma alloc_step_pages:
  assumes "alloc_step ord B (t, h) (t', h')" and "regions_shape ord t" and "B \<subseteq> P"
    and "pages_ok ord t h P"
  shows "pages_ok ord t' h' P"
  using assms(1)
proof (cases rule: alloc_stepE)
  case (take p i r k)
  have u: "used_slots t' = insert (i, k) (used_slots t)"
    unfolding take(7) by (rule used_slots_take [OF take(3,4,6)])
  have new: "(i, k) \<notin> used_slots t" using take(4,5) by (simp add: used_slots_def)
  note w = shape_slot_word [OF assms(2) take(3,4,6)]
  have fresh: "remote_page (h q) \<noteq> slot_word ord (i, k)" if "q \<in> P" "has_page h q" for q
  proof
    assume e: "remote_page (h q) = slot_word ord (i, k)"
    from assms(4) that obtain s where s: "s \<in> used_slots t" "remote_page (h q) = slot_word ord s"
      by (auto simp: pages_ok_def)
    with e w(1) shape_used_slot [OF assms(2) s(1)] have "s = (i, k)" by metis
    with s(1) new show False by simp
  qed
  have "{q \<in> P. has_page h' q} = insert p {q \<in> P. has_page h q}"
    unfolding take(8) using take(1) assms(3) w(2) by (auto split: if_splits)
  moreover have "inj_on (\<lambda>q. remote_page (h' q)) (insert p {q \<in> P. has_page h q})"
    unfolding take(8) using assms(4) fresh not_sym [OF fresh] take(2)
    by (auto simp: inj_on_def pages_ok_def split: if_splits)
  moreover have "\<exists>s \<in> used_slots t'. remote_page (h' q) = slot_word ord s"
    if "q \<in> P" "has_page h' q" for q
  proof (cases "q = p")
    case True
    then show ?thesis unfolding u take(8) by auto
  next
    case False
    with that have "has_page h q" unfolding take(8) by simp
    with assms(4) that(1) False show ?thesis unfolding u take(8) pages_ok_def by auto
  qed
  ultimately show ?thesis by (simp add: pages_ok_def)
next
  case (charge i r n)
  with assms(4) show ?thesis by (simp add: pages_ok_def used_slots_charge)
qed

lemma alloc_run_pages:
  assumes "alloc_run ord B x y" and "regions_shape ord (fst x)" and "B \<subseteq> P"
    and "pages_ok ord (fst x) (snd x) P"
  shows "pages_ok ord (fst y) (snd y) P"
  using assms
proof (induction rule: rtranclp_induct)
  case base
  then show ?case by simp
next
  case (step y z)
  have "regions_shape ord (fst y)" using alloc_run_keeps [OF step(1) step.prems(1)] by simp
  with step alloc_step_pages [of ord B "fst y" "snd y" "fst z" "snd z" P] show ?case by simp
qed

section \<open>The ring scan ends\<close>

text \<open>\<open>cyc a b j\<close>: \<open>j\<close> is met when going round from \<open>a\<close>, before \<open>b\<close>.\<close>

definition cyc :: "nat \<Rightarrow> nat \<Rightarrow> nat \<Rightarrow> bool" where
  "cyc a b j \<longleftrightarrow> (if a \<le> b then a \<le> j \<and> j < b else a \<le> j \<or> j < b)"

lemma next_mod: "a < n \<Longrightarrow> (a + 1) mod n = (if a + 1 = n then 0 else a + (1::nat))"
  by auto

lemma mr_scan_spec:
  assumes "mrid < ml" and "first < ml"
    and "d = (if mrid < first then first - mrid else first + ml - mrid)"
  shows "\<exists>x. mr_scan t ml first n mrid = Some x
    \<and> (\<forall>i. x = Some i \<longrightarrow> i < ml \<and> mr_has_room (t ! i) n \<and> (mrid = first \<or> cyc mrid first i)
          \<and> (\<forall>j<ml. cyc mrid i j \<longrightarrow> \<not> mr_has_room (t ! j) n))
    \<and> (x = None \<longrightarrow> (\<forall>j<ml. mrid = first \<or> cyc mrid first j \<longrightarrow> \<not> mr_has_room (t ! j) n))"
  using assms
proof (induction d arbitrary: mrid)
  case 0
  then show ?case by (auto split: if_splits)
next
  case (Suc d)
  let ?next = "(mrid + 1) mod ml"
  have nx: "?next = (if mrid + 1 = ml then 0 else mrid + 1)" using next_mod Suc.prems(1) .
  consider "mr_has_room (t ! mrid) n" | "\<not> mr_has_room (t ! mrid) n" "?next = first"
    | "\<not> mr_has_room (t ! mrid) n" "?next \<noteq> first" by blast
  then show ?case
  proof cases
    case 1
    then have "mr_scan t ml first n mrid = Some (Some mrid)" by (simp add: mr_scan.simps)
    with 1 Suc.prems show ?thesis by (auto simp: cyc_def split: if_splits)
  next
    case 2
    then have e: "mr_scan t ml first n mrid = Some None" by (simp add: mr_scan.simps)
    have "mrid = first \<or> cyc mrid first j \<Longrightarrow> j < ml \<Longrightarrow> j = mrid" for j
      using 2(2) nx Suc.prems by (auto simp: cyc_def split: if_splits)
    with e 2(1) show ?thesis by blast
  next
    case 3
    have e: "mr_scan t ml first n mrid = mr_scan t ml first n ?next"
      using 3 by (subst mr_scan.simps) simp
    have d: "?next < ml" "d = (if ?next < first then first - ?next else first + ml - ?next)"
      using Suc.prems 3(2) nx by (auto split: if_splits)
    from Suc.IH [OF d(1) assms(2) d(2)] obtain x where x: "mr_scan t ml first n ?next = Some x"
      "\<forall>i. x = Some i \<longrightarrow> i < ml \<and> mr_has_room (t ! i) n \<and> cyc ?next first i
          \<and> (\<forall>j<ml. cyc ?next i j \<longrightarrow> \<not> mr_has_room (t ! j) n)"
      "x = None \<longrightarrow> (\<forall>j<ml. cyc ?next first j \<longrightarrow> \<not> mr_has_room (t ! j) n)"
      using 3(2) by auto
    have c1: "cyc ?next first j \<Longrightarrow> j < ml \<Longrightarrow> mrid = first \<or> cyc mrid first j" for j
      using nx 3(2) Suc.prems(1,2) by (auto simp: cyc_def split: if_splits)
    have c2: "cyc mrid i j \<Longrightarrow> j < ml \<Longrightarrow> i < ml \<Longrightarrow> cyc ?next first i \<Longrightarrow> j = mrid \<or> cyc ?next i j" for i j
      using nx 3(2) Suc.prems(1,2) by (auto simp: cyc_def split: if_splits)
    have c3: "mrid = first \<or> cyc mrid first j \<Longrightarrow> j < ml \<Longrightarrow> j = mrid \<or> cyc ?next first j" for j
      using nx 3(2) Suc.prems(1,2) by (auto simp: cyc_def split: if_splits)
    show ?thesis
    proof (intro exI conjI)
      show "mr_scan t ml first n mrid = Some x" using e x(1) by simp
      show "\<forall>i. x = Some i \<longrightarrow> i < ml \<and> mr_has_room (t ! i) n \<and> (mrid = first \<or> cyc mrid first i)
          \<and> (\<forall>j<ml. cyc mrid i j \<longrightarrow> \<not> mr_has_room (t ! j) n)"
        using x(2) c1 c2 3(1) by blast
      show "x = None \<longrightarrow> (\<forall>j<ml. mrid = first \<or> cyc mrid first j \<longrightarrow> \<not> mr_has_room (t ! j) n)"
        using x(3) c3 3(1) by blast
    qed
  qed
qed

lemma lock_first_spec:
  assumes "first < memregs_last m \<or> memregs_last m = 0"
  shows "\<exists>x. lock_next_avail_mr m None first n = Some x
    \<and> (\<forall>i. x = Some i \<longrightarrow> i < memregs_last m \<and> mr_has_room (memregs m ! i) n
          \<and> (\<forall>j<memregs_last m. cyc first i j \<longrightarrow> \<not> mr_has_room (memregs m ! j) n))
    \<and> (x = None \<longrightarrow> (\<forall>j<memregs_last m. \<not> mr_has_room (memregs m ! j) n))"
proof (cases "memregs_last m = 0")
  case True
  then show ?thesis by (simp add: lock_next_avail_mr_def)
next
  case False
  with assms have f: "first < memregs_last m" by simp
  from mr_scan_spec [OF f f refl, of "memregs m" n] False show ?thesis
    by (simp add: lock_next_avail_mr_def)
qed

lemma lock_next_spec:
  assumes "first < memregs_last m" and "i < memregs_last m" and "mr_id r = i"
  shows "\<exists>x. lock_next_avail_mr m (Some r) first n = Some x
    \<and> (\<forall>j. x = Some j \<longrightarrow> j < memregs_last m \<and> mr_has_room (memregs m ! j) n)
    \<and> ((\<forall>j<memregs_last m. cyc first i j \<or> j = i \<longrightarrow> \<not> mr_has_room (memregs m ! j) n) \<longrightarrow>
         (\<forall>i'. x = Some i' \<longrightarrow>
            (\<forall>j<memregs_last m. cyc first i' j \<longrightarrow> \<not> mr_has_room (memregs m ! j) n))
         \<and> (x = None \<longrightarrow> (\<forall>j<memregs_last m. \<not> mr_has_room (memregs m ! j) n)))"
proof -
  let ?last = "memregs_last m" and ?a = "(i + 1) mod memregs_last m"
  let ?no = "\<lambda>j. \<not> mr_has_room (memregs m ! j) n"
  have a: "?a < ?last" using assms(1) by simp
  have nx: "?a = (if i + 1 = ?last then 0 else i + 1)" using next_mod assms(2) .
  from mr_scan_spec [OF a assms(1) refl, of "memregs m" n] obtain x where
    x: "mr_scan (memregs m) ?last first n ?a = Some x"
      "\<forall>j. x = Some j \<longrightarrow> j < ?last \<and> mr_has_room (memregs m ! j) n \<and> (?a = first \<or> cyc ?a first j)
          \<and> (\<forall>k<?last. cyc ?a j k \<longrightarrow> ?no k)"
      "x = None \<longrightarrow> (\<forall>j<?last. ?a = first \<or> cyc ?a first j \<longrightarrow> ?no j)" by blast
  have e: "lock_next_avail_mr m (Some r) first n = Some x"
    using x(1) assms by (simp add: lock_next_avail_mr_def c_mod_def)
  have c1: "cyc first i' j \<Longrightarrow> j < ?last \<Longrightarrow> i' < ?last \<Longrightarrow> ?a \<noteq> first \<Longrightarrow> cyc ?a first i'
      \<Longrightarrow> cyc first i j \<or> j = i \<or> cyc ?a i' j" for i' j
    using nx assms(1,2) by (auto simp: cyc_def split: if_splits)
  have c2: "j < ?last \<Longrightarrow> ?a = first \<Longrightarrow> cyc first i j \<or> j = i" for j
    using nx assms(1,2) by (auto simp: cyc_def split: if_splits)
  have c3: "j < ?last \<Longrightarrow> ?a \<noteq> first \<Longrightarrow> cyc first i j \<or> j = i \<or> cyc ?a first j" for j
    using nx assms(1,2) by (auto simp: cyc_def split: if_splits)
  show ?thesis
  proof (intro exI conjI impI)
    show "lock_next_avail_mr m (Some r) first n = Some x" by (rule e)
    show "\<forall>j. x = Some j \<longrightarrow> j < ?last \<and> mr_has_room (memregs m ! j) n" using x(2) by blast
    assume no: "\<forall>j<?last. cyc first i j \<or> j = i \<longrightarrow> ?no j"
    show "\<forall>i'. x = Some i' \<longrightarrow> (\<forall>j<?last. cyc first i' j \<longrightarrow> ?no j)"
    proof (cases "?a = first")
      case True
      with no c2 have "\<forall>j<?last. ?no j" by blast
      then show ?thesis by blast
    next
      case False
      with no c1 x(2) show ?thesis by blast
    qed
    show "\<forall>j<?last. ?no j" if "x = None"
      using no c2 c3 x(3) that by blast
  qed
qed

section \<open>Taking one slot\<close>

definition mrs_ok :: "nat \<Rightarrow> emp_mrs \<Rightarrow> bool" where
  "mrs_ok ord m \<longleftrightarrow> length (memregs m) = 256 \<and> memregs_last m \<le> MAX_MRID
     \<and> mr_regions_ok ord (memregs m)"

lemma charge_simps [simp]:
  "mr_slots ord (mr_charge r x) = mr_slots ord r"
  "mr_find_slot ord (mr_charge r x) = mr_find_slot ord r"
  "alloc_bitmap (mr_charge r x) = alloc_bitmap r"
  "mr_id (mr_charge r x) = mr_id r"
  "mr_charge (mr_charge r x) (- x) = r"
  by (simp_all add: mr_charge_def mr_slots_def mr_find_slot_def Let_def)

lemma take_simps [simp]:
  "mr_slots ord (mr_take_slot r k) = mr_slots ord r"
  "mr_id (mr_take_slot r k) = mr_id r"
  by (simp_all add: mr_take_slot_def mr_slots_def)

lemma upd_mr_simps [simp]:
  "memregs (upd_mr m i r) = (memregs m)[i := Some r]"
  "memregs_last (upd_mr m i r) = memregs_last m"
  "memregs_last_alloc (upd_mr m i r) = memregs_last_alloc m"
  by (simp_all add: upd_mr_def)

lemma upd_mr_same: "memregs m ! i = Some r \<Longrightarrow> upd_mr m i r = m"
  by (metis upd_mr_def list_update_id emp_mrs.surjective emp_mrs.update_convs(1))

lemma mrs_ok_region: "mrs_ok ord m \<Longrightarrow> i < 256 \<Longrightarrow> memregs m ! i = Some r \<Longrightarrow> region_res ord i r 0"
  by (simp add: mrs_ok_def regions_res_def)

lemma mrs_ok_last: "mrs_ok ord m \<Longrightarrow> i < memregs_last m \<Longrightarrow> i < 256 \<and> i < length (memregs m)"
  by (simp add: mrs_ok_def MAX_MRID_def)

lemma room_mono: "mr_has_room x n \<Longrightarrow> k \<le> n \<Longrightarrow> mr_has_room x k"
  by (auto simp: mr_has_room_def split: option.splits)

lemma room_Some: "mr_has_room x n \<Longrightarrow> x \<noteq> None"
  by (auto simp: mr_has_room_def split: option.splits)

lemma room_slot:
  assumes "region_res ord i r 0" and "mr_has_room (Some r) n" and "0 < n"
  shows "card (zeros (alloc_bitmap r)) < mr_slots ord r"
proof -
  have "int (card (zeros (alloc_bitmap r))) * 2 ^ ord \<le> alloc_len r"
    using assms(1) by (simp add: region_res_def)
  also have "\<dots> < int (mr_size r)" using assms(2,3) by (simp add: mr_has_room_def)
  also have "int (mr_size r) = int (mr_slots ord r) * 2 ^ ord"
    using region_res_size [OF assms(1)] by (metis of_nat_mult of_nat_numeral of_nat_power)
  finally show ?thesis by simp
qed

definition ran :: "nat \<Rightarrow> gpa_ptr set \<Rightarrow> emp_mrs \<Rightarrow> gpa_heap \<Rightarrow> emp_mrs \<Rightarrow> gpa_heap \<Rightarrow> bool" where
  "ran ord B m h m' h' \<longleftrightarrow> mrs_ok ord m' \<and> alloc_run ord B (memregs m, h) (memregs m', h')
     \<and> memregs_last m' = memregs_last m \<and> memregs_last_alloc m' = memregs_last_alloc m"

lemma ran_refl: "mrs_ok ord m \<Longrightarrow> ran ord B m h m h"
  by (simp add: ran_def)

lemma ran_trans: "ran ord B m h m1 h1 \<Longrightarrow> ran ord B m1 h1 m2 h2 \<Longrightarrow> ran ord B m h m2 h2"
  by (auto simp: ran_def)

lemma ran_keeps: "mrs_ok ord m \<Longrightarrow> ran ord B m h m' h' \<Longrightarrow> run_keeps B (memregs m, h) (memregs m', h')"
  using alloc_run_keeps [of ord B "(memregs m, h)"] regions_res_shape
  by (fastforce simp: ran_def mrs_ok_def)

lemma ran_has_page: "mrs_ok ord m \<Longrightarrow> ran ord B m h m' h' \<Longrightarrow> has_page h p \<Longrightarrow> h' p = h p"
  using ran_keeps by (fastforce simp: run_keeps_def)

definition taken_word :: "nat \<Rightarrow> memreg \<Rightarrow> u64" where
  "taken_word ord r =
     make_remote_page_val (int (mr_id r)) (push_bit ord (of_nat (mr_find_slot ord r)))"

lemma take_ran:
  assumes ok: "mrs_ok ord m" and i: "i < 256" "memregs m ! i = Some r"
    and slot: "mr_find_slot ord r \<noteq> mr_slots ord r"
    and p: "p \<in> B" "\<not> has_page h p"
  defines "m' \<equiv> upd_mr m i (mr_take_slot (mr_charge r (2 ^ ord)) (mr_find_slot ord r))"
    and "h' \<equiv> set_rp h p (taken_word ord r)"
  shows "ran ord B m h m' h'" and "has_page h' p" and "\<forall>q. q \<noteq> p \<longrightarrow> h' q = h q"
proof -
  let ?k = "mr_find_slot ord r" and ?t = "(memregs m)[i := Some (mr_charge r (2 ^ ord))]"
  have r: "region_res ord i r 0" by (rule mrs_ok_region [OF ok i])
  have len: "i < length (memregs m)" using ok i by (simp add: mrs_ok_def)
  have k: "?k < mr_slots ord r" "?k \<notin> zeros (alloc_bitmap r)"
    using mr.search_free [OF r slot] by auto
  have c: "region_res ord i (mr_charge r (2 ^ ord)) (Suc 0)"
    using mr.reserve_inv [OF r, of 1] by simp
  have w: "taken_word ord r = slot_word ord (i, ?k)"
    using r by (simp add: taken_word_def slot_word_def region_res_def)
  have "region_res ord i (mr_take_slot (mr_charge r (2 ^ ord)) ?k) 0"
    using mr.take_inv [OF c] k by simp
  from regions_res_upd [OF _ this, of "memregs m" "\<lambda>_. 0"] ok
  have res: "mrs_ok ord m'" by (simp add: mrs_ok_def m'_def fun_upd_idem)
  have "alloc_step ord B (memregs m, h) (?t, h)"
    by (rule alloc_step.charge [OF len i(2)])
  moreover have "alloc_step ord B (?t, h)
      (?t[i := Some (mr_take_slot (mr_charge r (2 ^ ord)) ?k)], set_rp h p (slot_word ord (i, ?k)))"
    using p k len r by (intro alloc_step.take) (simp_all add: region_res_def)
  ultimately have "alloc_run ord B (memregs m, h) (memregs m', h')"
    unfolding m'_def h'_def w by (auto intro: rtranclp.rtrancl_into_rtrancl)
  with res show "ran ord B m h m' h'" by (simp add: ran_def m'_def)
  have "\<not> is_remote_page_free (slot_word ord (i, ?k))"
    using slot_word_facts(2) region_slot_bound [OF r k(1)] by blast
  then show "has_page h' p" by (simp add: h'_def w)
  show "\<forall>q. q \<noteq> p \<longrightarrow> h' q = h q" by (simp add: h'_def set_rp_def)
qed

section \<open>The three loops\<close>

text \<open>Room for \<open>n\<close> more slots in the bitmap of region \<open>i\<close>.\<close>

definition slack :: "nat \<Rightarrow> emp_mrs \<Rightarrow> nat \<Rightarrow> nat \<Rightarrow> bool" where
  "slack ord m i n \<longleftrightarrow> (\<exists>r. memregs m ! i = Some r
     \<and> card (zeros (alloc_bitmap r)) + n \<le> mr_slots ord r)"

lemma room_slack:
  assumes "mrs_ok ord m" and "i < memregs_last m" and "mr_has_room (memregs m ! i) n" and "0 < n"
  shows "slack ord m i 1"
proof -
  obtain r where r: "memregs m ! i = Some r" "mr_has_room (Some r) n"
    using assms(3) by (auto simp: mr_has_room_def split: option.splits)
  have "region_res ord i r 0" using mrs_ok_region [OF assms(1) _ r(1)] mrs_ok_last assms(1,2) by blast
  from room_slot [OF this r(2) assms(4)] r(1) show ?thesis by (simp add: slack_def)
qed

lemma slack_slot:
  assumes "mrs_ok ord m" and "i < 256" and "slack ord m i (Suc n)"
  obtains r where "memregs m ! i = Some r" "mr_find_slot ord r \<noteq> mr_slots ord r"
    "region_res ord i r 0"
proof -
  from assms(3) obtain r where r: "memregs m ! i = Some r"
    "card (zeros (alloc_bitmap r)) < mr_slots ord r" by (auto simp: slack_def)
  have res: "region_res ord i r 0" by (rule mrs_ok_region [OF assms(1,2) r(1)])
  with mr.search_succeeds r(2) have "mr_find_slot ord r < mr_slots ord r" by blast
  with that r(1) res show ?thesis by simp
qed

lemma slack_take:
  assumes "mrs_ok ord m" and "i < 256" and "memregs m ! i = Some r" and "slack ord m i (Suc n)"
    and "mr_find_slot ord r \<noteq> mr_slots ord r"
  shows "slack ord (upd_mr m i (mr_take_slot (mr_charge r (2 ^ ord)) (mr_find_slot ord r))) i n"
proof -
  let ?r = "mr_charge r (2 ^ ord)"
  have r: "region_res ord i r 0" by (rule mrs_ok_region [OF assms(1,2,3)])
  have c: "region_res ord i ?r 1" using mr.reserve_inv [OF r, of 1] by simp
  have k: "mr_find_slot ord r < mr_slots ord ?r" "mr_find_slot ord r \<notin> zeros (alloc_bitmap ?r)"
    using mr.search_free [OF r assms(5)] by auto
  from mr.take_card [OF c k] have
    "card (zeros (alloc_bitmap (mr_take_slot ?r (mr_find_slot ord r)))) =
       Suc (card (zeros (alloc_bitmap r)))" by simp
  with assms show ?thesis by (simp add: slack_def mrs_ok_def)
qed

lemma no_room_upd:
  "\<forall>j<n. cyc a i j \<longrightarrow> \<not> mr_has_room (t ! j) k \<Longrightarrow>
     \<forall>j<n. cyc a i j \<longrightarrow> \<not> mr_has_room (t[i := x] ! j) k"
  by (metis cyc_def nth_list_update_neq less_irrefl not_le)

definition loop_result :: "nat \<Rightarrow> gpa_ptr set \<Rightarrow> emp_mrs \<Rightarrow> gpa_heap \<Rightarrow> gpa_ptr \<Rightarrow> nat
    \<Rightarrow> nat \<times> nat option \<times> emp_mrs \<times> gpa_heap \<Rightarrow> bool" where
  "loop_result ord B m h gpa rem res = (case res of (rem', mr', m', h') \<Rightarrow>
     ran ord B m h m' h' \<and> rem' \<le> rem
     \<and> (\<forall>p. gpa \<le> p \<and> p < gpa + (rem - rem') \<longrightarrow> has_page h' p)
     \<and> (\<forall>j. mr' = Some j \<longrightarrow> j < memregs_last m \<and> memregs m' ! j \<noteq> None)
     \<and> (0 < rem' \<longrightarrow> (\<forall>j<memregs_last m. \<not> mr_has_room (memregs m' ! j) (2 ^ ord))))"

lemma loop_result_step:
  assumes "mrs_ok ord m" and "ran ord B m h m1 h1" and "has_page h1 gpa"
    and "loop_result ord B m1 h1 (gpa + 1) rem res"
  shows "loop_result ord B m h gpa (Suc rem) res"
proof -
  obtain rem' mr' m' h' where res: "res = (rem', mr', m', h')" by (cases res) auto
  with assms(4) have r: "ran ord B m1 h1 m' h'" "rem' \<le> rem"
    "\<forall>p. gpa + 1 \<le> p \<and> p < gpa + 1 + (rem - rem') \<longrightarrow> has_page h' p"
    by (simp_all add: loop_result_def)
  have m1: "mrs_ok ord m1" "memregs_last m1 = memregs_last m" using assms(2) by (simp_all add: ran_def)
  have "has_page h' gpa" using ran_has_page [OF m1(1) r(1) assms(3)] assms(3) by simp
  with r(3) have "has_page h' p" if "gpa \<le> p \<and> p < gpa + (Suc rem - rem')" for p
    using that r(2) by (cases "p = gpa") auto
  with assms(4) res r ran_trans [OF assms(2) r(1)] m1(2) show ?thesis
    by (simp add: loop_result_def)
qed

lemma seq_loop_spec:
  assumes "mrs_ok ord m" and "first < memregs_last m" and "{gpa..<gpa + rem} \<subseteq> B"
    and "\<And>i. mr = Some i \<Longrightarrow> i < memregs_last m \<and> memregs m ! i \<noteq> None
          \<and> (\<forall>j<memregs_last m. cyc first i j \<longrightarrow> \<not> mr_has_room (memregs m ! j) (2 ^ ord))"
    and "mr = None \<Longrightarrow> \<forall>j<memregs_last m. \<not> mr_has_room (memregs m ! j) (2 ^ ord)"
  shows "\<exists>res. seq_loop ord first m h mr gpa rem = Some res \<and> loop_result ord B m h gpa rem res"
  using assms
proof (induction rem arbitrary: m h mr gpa)
  case 0
  have "seq_loop ord first m h mr gpa 0 = Some (0, mr, m, h)"
    by (simp add: seq_loop.simps split: option.splits)
  with 0 show ?case by (auto simp: loop_result_def ran_refl)
next
  case (Suc rem)
  note IH = Suc.IH and ok = Suc.prems(1) and first = Suc.prems(2)
  have B: "gpa \<in> B" "{gpa + 1..<gpa + 1 + rem} \<subseteq> B" using Suc.prems(3) by auto
  have none: ?case if "\<forall>j<memregs_last m. \<not> mr_has_room (memregs m ! j) (2 ^ ord)"
      and "seq_loop ord first m h mr gpa (Suc rem) = Some (Suc rem, None, m, h)"
    using that ok by (auto simp: loop_result_def ran_refl)
  have taking: "\<exists>res. seq_loop ord first m h (Some i) gpa (Suc rem) = Some res
      \<and> loop_result ord B m h gpa (Suc rem) res"
    if i: "i < memregs_last m" "memregs m ! i = Some r" "\<not> has_page h gpa"
      "mr_find_slot ord r \<noteq> mr_slots ord r"
      "\<forall>j<memregs_last m. cyc first i j \<longrightarrow> \<not> mr_has_room (memregs m ! j) (2 ^ ord)" for i r
  proof -
    let ?m = "upd_mr m i (mr_take_slot (mr_charge r (2 ^ ord)) (mr_find_slot ord r))"
    let ?h = "set_rp h gpa (taken_word ord r)"
    have i256: "i < 256" "i < length (memregs m)" using mrs_ok_last [OF ok i(1)] by auto
    note t = take_ran [of ord m i r gpa B h, OF ok i256(1) i(2,4) B(1) i(3)]
    have e: "seq_loop ord first m h (Some i) gpa (Suc rem)
        = seq_loop ord first ?m ?h (Some i) (gpa + 1) rem"
      using i by (subst seq_loop.simps) (simp add: the_mr_def taken_word_def Let_def)
    have "\<exists>res. seq_loop ord first ?m ?h (Some i) (gpa + 1) rem = Some res
        \<and> loop_result ord B ?m ?h (gpa + 1) rem res"
    proof (rule IH)
      show "mrs_ok ord ?m" using t(1) by (simp add: ran_def)
      show "j < memregs_last ?m \<and> memregs ?m ! j \<noteq> None
          \<and> (\<forall>k<memregs_last ?m. cyc first j k \<longrightarrow> \<not> mr_has_room (memregs ?m ! k) (2 ^ ord))"
        if "Some i = Some j" for j
        using that i i256 no_room_upd [OF i(5)] by simp
    qed (use first B in simp_all)
    with e loop_result_step [OF ok t(1,2)] show ?thesis by auto
  qed
  show ?case
  proof (cases mr)
    case None
    then have "seq_loop ord first m h mr gpa (Suc rem) = Some (Suc rem, None, m, h)"
      by (simp add: seq_loop.simps)
    with none Suc.prems(5) None show ?thesis by blast
  next
    case (Some i)
    with Suc.prems(4) obtain r where i: "i < memregs_last m" "memregs m ! i = Some r"
      "\<forall>j<memregs_last m. cyc first i j \<longrightarrow> \<not> mr_has_room (memregs m ! j) (2 ^ ord)" by blast
    have i256: "i < 256" using mrs_ok_last [OF ok i(1)] by auto
    have r: "region_res ord i r 0" by (rule mrs_ok_region [OF ok i256 i(2)])
    show ?thesis
    proof (cases "has_page h gpa")
      case True
      then have "seq_loop ord first m h mr gpa (Suc rem) = seq_loop ord first m h mr (gpa + 1) rem"
        unfolding Some by (subst seq_loop.simps) simp
      moreover from IH [OF ok first B(2) Suc.prems(4,5), where h = h] obtain res where
        "seq_loop ord first m h mr (gpa + 1) rem = Some res"
        "loop_result ord B m h (gpa + 1) rem res" by blast
      ultimately show ?thesis
        using loop_result_step [of ord m B h m h gpa rem, OF ok ran_refl [OF ok] True] by metis
    next
      case new: False
      show ?thesis
      proof (cases "mr_find_slot ord r = mr_slots ord r")
        case False
        from taking [OF i(1,2) new False i(3)] show ?thesis by (simp add: Some)
      next
        case True
        have ri: "mr_id (mr_charge r (2 ^ ord)) = i" using r by (simp add: region_res_def)
        have m': "upd_mr m i r = m" by (rule upd_mr_same [OF i(2)])
        have "\<not> mr_has_room (memregs m ! i) (2 ^ ord)"
          using mr.full_no_room [OF r True, of 1] i(2) by simp
        with i(3) have full: "\<forall>j<memregs_last m. cyc first i j \<or> j = i \<longrightarrow>
            \<not> mr_has_room (memregs m ! j) (2 ^ ord)" by blast
        from lock_next_spec [OF first i(1) ri, of "2 ^ ord"] full obtain x where
          x: "lock_next_avail_mr m (Some (mr_charge r (2 ^ ord))) first (2 ^ ord) = Some x"
            "\<And>j. x = Some j \<Longrightarrow> j < memregs_last m \<and> mr_has_room (memregs m ! j) (2 ^ ord)"
            "\<And>j. x = Some j \<Longrightarrow> \<forall>k<memregs_last m. cyc first j k \<longrightarrow> \<not> mr_has_room (memregs m ! k) (2 ^ ord)"
            "x = None \<Longrightarrow> \<forall>j<memregs_last m. \<not> mr_has_room (memregs m ! j) (2 ^ ord)" by blast
        have e: "seq_loop ord first m h mr gpa (Suc rem) = seq_loop ord first m h x gpa (Suc rem)"
          unfolding Some using i new True x(1) m'
          by (subst seq_loop.simps) (simp add: the_mr_def Let_def)
        show ?thesis
        proof (cases x)
          case None
          then have "seq_loop ord first m h x gpa (Suc rem) = Some (Suc rem, None, m, h)"
            by (simp add: seq_loop.simps)
          with none x(4) None e show ?thesis by simp
        next
          case (Some j)
          have j256: "j < 256" using mrs_ok_last [OF ok] x(2) [OF Some] by blast
          have "slack ord m j (Suc 0)" using room_slack [OF ok, of j "2 ^ ord"] x(2) [OF Some] by simp
          then obtain r' where "memregs m ! j = Some r'" "mr_find_slot ord r' \<noteq> mr_slots ord r'"
            by (rule slack_slot [OF ok j256])
          with taking [of j r'] x(2,3) [OF Some] new show ?thesis by (simp add: e Some)
        qed
      qed
    qed
  qed
qed

text \<open>
  \<^verbatim>\<open>remote_page_policy_diff_mr()\<close> looks for room again after every descriptor, except that with a
  single region it stays there without looking: then the region must have room for all of them.
\<close>

lemma diff_loop_spec:
  assumes "mrs_ok ord m" and "{gpa..<gpa + rem} \<subseteq> B"
    and "\<And>i. mr = Some i \<Longrightarrow> i < memregs_last m \<and> memregs m ! i \<noteq> None
          \<and> (0 < rem \<longrightarrow> slack ord m i (if memregs_last m = 1 then rem else 1))"
    and "mr = None \<Longrightarrow> \<forall>j<memregs_last m. \<not> mr_has_room (memregs m ! j) (2 ^ ord)"
  shows "\<exists>res. diff_loop ord m h mr gpa rem = Some res \<and> loop_result ord B m h gpa rem res"
  using assms
proof (induction rem arbitrary: m h mr gpa)
  case 0
  have "diff_loop ord m h mr gpa 0 = Some (0, mr, m, h)"
    by (simp add: diff_loop.simps split: option.splits)
  with 0 show ?case by (auto simp: loop_result_def ran_refl)
next
  case (Suc rem)
  note ok = Suc.prems(1)
  have B: "gpa \<in> B" "{gpa + 1..<gpa + 1 + rem} \<subseteq> B" using Suc.prems(2) by auto
  show ?case
  proof (cases mr)
    case None
    then have "diff_loop ord m h mr gpa (Suc rem) = Some (Suc rem, None, m, h)"
      by (simp add: diff_loop.simps)
    with Suc.prems(4) None ok show ?thesis by (auto simp: loop_result_def ran_refl)
  next
    case (Some i)
    from Suc.prems(3) [OF this] have i: "i < memregs_last m"
      "slack ord m i (Suc (if memregs_last m = 1 then rem else 0))" by (auto split: if_splits)
    have i256: "i < 256" "i < length (memregs m)" using mrs_ok_last [OF ok i(1)] by auto
    from slack_slot [OF ok i256(1) i(2)] obtain r where r: "memregs m ! i = Some r"
      "mr_find_slot ord r \<noteq> mr_slots ord r" "region_res ord i r 0" .
    have id: "mr_id r = i" using r(3) by (simp add: region_res_def)
    define first where "first = (i + 1) mod memregs_last m"
    have first: "first < memregs_last m" using i(1) by (simp add: first_def)
    have same: "first = i \<longleftrightarrow> memregs_last m = 1"
      using next_mod [OF i(1)] i(1) by (auto simp: first_def)
    define mh where "mh = (if has_page h gpa then (m, h)
      else (upd_mr m i (mr_take_slot (mr_charge r (2 ^ ord)) (mr_find_slot ord r)),
            set_rp h gpa (taken_word ord r)))"
    obtain m1 h1 where mh1: "mh = (m1, h1)" by (cases mh)
    have step: "ran ord B m h m1 h1" "has_page h1 gpa"
      using take_ran [of ord m i r gpa B h, OF ok i256(1) r(1,2) B(1)] ran_refl [OF ok] mh1
      by (auto simp: mh_def split: if_splits)
    have ok1: "mrs_ok ord m1" "memregs_last m1 = memregs_last m" using step(1) by (simp_all add: ran_def)
    have id1: "mr_id (the_mr m1 i) = i" "memregs m1 ! i \<noteq> None"
      using mh1 r(1) id i256 by (auto simp: mh_def the_mr_def split: if_splits)
    have slack1: "slack ord m1 i rem" if "memregs_last m = 1"
    proof (cases "has_page h gpa")
      case True
      with mh1 i(2) that show ?thesis by (auto simp: mh_def slack_def)
    next
      case False
      with mh1 i(2) that slack_take [OF ok i256(1) r(1) _ r(2), of rem] show ?thesis
        by (auto simp: mh_def)
    qed
    have e: "diff_loop ord m h mr gpa (Suc rem) =
        (if first \<noteq> i then Option.bind (lock_next_avail_mr m1 None first 1)
             (\<lambda>mr'. diff_loop ord m1 h1 mr' (gpa + 1) rem)
         else diff_loop ord m1 h1 mr (gpa + 1) rem)"
    proof -
      have "(if has_page h gpa then Some (m, h)
             else let ra = mr_charge (the_mr m i) (2 ^ ord); offset = mr_find_slot ord ra
                  in if offset = mr_slots ord ra then None
                     else Some (upd_mr m i (mr_take_slot ra offset),
                                set_rp h gpa (make_remote_page_val (int (mr_id ra))
                                  (push_bit ord (of_nat offset))))) = Some (m1, h1)"
        using r(1,2) mh1 by (auto simp: mh_def the_mr_def taken_word_def Let_def)
      then show ?thesis
        unfolding Some
        by (subst diff_loop.simps) (use i(1) id1 ok1 in \<open>simp add: c_mod_def first_def\<close>)
    qed
    have "\<exists>res. diff_loop ord m h mr gpa (Suc rem) = Some res
        \<and> loop_result ord B m1 h1 (gpa + 1) rem res"
    proof (cases "first = i")
      case True
      have "\<exists>res. diff_loop ord m1 h1 mr (gpa + 1) rem = Some res
          \<and> loop_result ord B m1 h1 (gpa + 1) rem res"
        using True same slack1 id1(2) i(1) ok1 B(2) Some by (intro Suc.IH) auto
      with e True show ?thesis by simp
    next
      case False
      from lock_first_spec [of first m1 1] first ok1(2) obtain x where
        x: "lock_next_avail_mr m1 None first 1 = Some x"
          "\<And>j. x = Some j \<Longrightarrow> j < memregs_last m1 \<and> mr_has_room (memregs m1 ! j) 1"
          "x = None \<Longrightarrow> \<forall>j<memregs_last m1. \<not> mr_has_room (memregs m1 ! j) 1" by auto
      have "\<exists>res. diff_loop ord m1 h1 x (gpa + 1) rem = Some res
          \<and> loop_result ord B m1 h1 (gpa + 1) rem res"
      proof (rule Suc.IH [OF ok1(1) B(2)])
        fix j assume j: "x = Some j"
        have "slack ord m1 j 1" using room_slack [OF ok1(1), of j 1] x(2) [OF j] by simp
        with x(2) [OF j] False same ok1(2) show "j < memregs_last m1 \<and> memregs m1 ! j \<noteq> None
            \<and> (0 < rem \<longrightarrow> slack ord m1 j (if memregs_last m1 = 1 then rem else 1))"
          by (auto simp: slack_def)
      next
        assume "x = None"
        from x(3) [OF this] room_mono [of _ "2 ^ ord" 1]
        show "\<forall>j<memregs_last m1. \<not> mr_has_room (memregs m1 ! j) (2 ^ ord)" by fastforce
      qed
      with e False x(1) show ?thesis by simp
    qed
    with loop_result_step [OF ok step] show ?thesis by blast
  qed
qed

lemma region_res_weaken: "region_res ord i r (Suc n) \<Longrightarrow> region_res ord i r n"
proof -
  assume r: "region_res ord i r (Suc n)"
  have "int (card (zeros (alloc_bitmap r)) + n) * 2 ^ ord
      \<le> int (card (zeros (alloc_bitmap r)) + Suc n) * 2 ^ ord"
    by (intro mult_right_mono) auto
  also have "\<dots> \<le> alloc_len r" using r by (simp only: region_res_def)
  finally show ?thesis using r by (simp only: region_res_def) simp
qed

text \<open>Here the room of the whole block is reserved at once.\<close>

lemma same_mr_loop_spec:
  assumes "length (memregs m) = 256" and "memregs_last m \<le> MAX_MRID" and "i < 256"
    and "regions_res ord (memregs m) ((\<lambda>_. 0)(i := length gpas))"
    and "memregs m ! i = Some r" and "card (zeros (alloc_bitmap r)) + length gpas \<le> mr_slots ord r"
    and "set gpas \<subseteq> B"
  shows "\<exists>m' h'. same_mr_loop ord m h i gpas = Some (m', h') \<and> ran ord B m h m' h'
    \<and> (\<forall>p \<in> set gpas. has_page h' p)"
  using assms
proof (induction gpas arbitrary: m h r)
  case Nil
  then show ?case by (simp add: ran_def mrs_ok_def fun_upd_idem)
next
  case (Cons p ps)
  have r: "region_res ord i r (Suc (length ps))"
    using regions_resD [OF Cons.prems(4) _ Cons.prems(5)] Cons.prems(1,3) by simp
  have shape: "regions_shape ord (memregs m)" by (rule regions_res_shape [OF Cons.prems(4)])
  have keep: "has_page h1 q \<Longrightarrow> ran ord B m1 h1 m2 h2 \<Longrightarrow> regions_shape ord (memregs m1) \<Longrightarrow> has_page h2 q"
    for m1 h1 m2 h2 q
    using alloc_run_keeps [of ord B "(memregs m1, h1)" "(memregs m2, h2)"]
    by (auto simp: ran_def run_keeps_def)
  show ?case
  proof (cases "has_page h p")
    case True
    have "regions_res ord (memregs m) ((\<lambda>_. 0)(i := length ps))"
      using Cons.prems(4) region_res_weaken by (auto simp: regions_res_def split: if_splits)
    from Cons.IH [OF Cons.prems(1-3) this Cons.prems(5), of h] Cons.prems(6,7) obtain m' h' where
      "same_mr_loop ord m h i ps = Some (m', h')" "ran ord B m h m' h'"
      "\<forall>q \<in> set ps. has_page h' q" by fastforce
    with keep [of h p m m' h'] shape True show ?thesis by auto
  next
    case False
    let ?k = "mr_find_slot ord r" and ?r = "mr_take_slot r (mr_find_slot ord r)"
    have k: "?k < mr_slots ord r" "?k \<notin> zeros (alloc_bitmap r)"
      using mr.search_succeeds [OF r] Cons.prems(6) by auto
    have r': "region_res ord i ?r (length ps)" by (rule mr.take_inv [OF r k])
    have w: "taken_word ord r = slot_word ord (i, ?k)"
      using r by (simp add: taken_word_def slot_word_def region_res_def)
    define m1 h1 where "m1 = upd_mr m i ?r" and "h1 = set_rp h p (taken_word ord r)"
    have e: "same_mr_loop ord m h i (p # ps) = same_mr_loop ord m1 h1 i ps"
      using False Cons.prems(5) k(1) by (simp add: the_mr_def taken_word_def m1_def h1_def Let_def)
    have step: "alloc_step ord B (memregs m, h) (memregs m1, h1)"
      unfolding h1_def w m1_def upd_mr_simps
      using False Cons.prems k r by (intro alloc_step.take) (auto simp: region_res_def)
    have pg: "has_page h1 p"
      using slot_word_facts(2) region_slot_bound [OF r k(1)] by (simp add: h1_def w)
    have shape1: "regions_shape ord (memregs m1)"
      using alloc_step_keeps [OF step shape] by simp
    have c: "card (zeros (alloc_bitmap ?r)) + length ps \<le> mr_slots ord ?r"
      using mr.take_card [OF r k] Cons.prems(6) by simp
    have res1: "regions_res ord (memregs m1) ((\<lambda>_. 0)(i := length ps))"
      using regions_res_upd [OF Cons.prems(4) r'] by (simp only: m1_def upd_mr_simps fun_upd_upd)
    have "\<exists>m' h'. same_mr_loop ord m1 h1 i ps = Some (m', h') \<and> ran ord B m1 h1 m' h'
        \<and> (\<forall>q \<in> set ps. has_page h' q)"
    proof (rule Cons.IH [OF _ _ Cons.prems(3) res1 _ c])
      show "memregs m1 ! i = Some ?r" using Cons.prems(1,3) by (simp add: m1_def)
    qed (use Cons.prems in \<open>simp_all add: m1_def\<close>)
    then obtain m' h' where x: "same_mr_loop ord m1 h1 i ps = Some (m', h')"
      "ran ord B m1 h1 m' h'" "\<forall>q \<in> set ps. has_page h' q" by blast
    have "alloc_run ord B (memregs m, h) (memregs m', h')"
      using step x(2) by (simp add: ran_def converse_rtranclp_into_rtranclp)
    with x(2) have "ran ord B m h m' h'" by (simp add: ran_def m1_def)
    with e x keep [OF pg x(2) shape1] show ?thesis by auto
  qed
qed

section \<open>The policies\<close>

text \<open>What the diff-mr policy needs of a table with a single region.\<close>

definition diff_mr_safe :: "nat \<Rightarrow> emp_mrs \<Rightarrow> nat \<Rightarrow> bool" where
  "diff_mr_safe ord m n \<longleftrightarrow> memregs_last m \<noteq> 1 \<or> slack ord m 0 n
     \<or> \<not> mr_has_room (memregs m ! 0) (2 ^ ord)"

definition policy_need :: "nat \<Rightarrow> nat \<Rightarrow> nat \<Rightarrow> int" where
  "policy_need policy ord n = (if policy = 1 then int n * 2 ^ ord else 2 ^ ord)"

definition policy_result :: "nat \<Rightarrow> nat \<Rightarrow> gpa_ptr \<Rightarrow> nat \<Rightarrow> emp_mrs \<Rightarrow> gpa_heap
    \<Rightarrow> nat \<times> emp_mrs \<times> gpa_heap \<Rightarrow> bool" where
  "policy_result policy ord head n m h res = (case res of (rem, m', h') \<Rightarrow>
     mrs_ok ord m' \<and> alloc_run ord {head..<head + n} (memregs m, h) (memregs m', h')
     \<and> memregs_last m' = memregs_last m
     \<and> (memregs_last_alloc m' = memregs_last_alloc m \<or> memregs_last_alloc m' < memregs_last m)
     \<and> (if rem = 0 then \<forall>p \<in> {head..<head + n}. has_page h' p
        else \<forall>j<memregs_last m. \<not> mr_has_room (memregs m' ! j) (policy_need policy ord n)))"

lemma set_last_alloc_keeps [simp]:
  "memregs (set_last_alloc m x) = memregs m"
  "memregs_last (set_last_alloc m x) = memregs_last m"
  "mrs_ok ord (set_last_alloc m x) = mrs_ok ord m"
  by (simp_all add: set_last_alloc_def mrs_ok_def split: option.splits)

lemma set_last_alloc_bound:
  assumes "mrs_ok ord m" and "\<And>j. x = Some j \<Longrightarrow> j < memregs_last m \<and> memregs m ! j \<noteq> None"
  shows "memregs_last_alloc (set_last_alloc m x) = memregs_last_alloc m
    \<or> memregs_last_alloc (set_last_alloc m x) < memregs_last m"
proof (cases x)
  case None
  then show ?thesis by (simp add: set_last_alloc_def)
next
  case (Some j)
  with assms(2) obtain r where j: "j < memregs_last m" "memregs m ! j = Some r" by auto
  then have "mr_id r = j"
    using mrs_ok_region [OF assms(1)] mrs_ok_last [OF assms(1)] by (auto simp: region_res_def)
  with j Some show ?thesis by (simp add: set_last_alloc_def the_mr_def)
qed

lemma loop_to_policy:
  assumes "loop_result ord {head..<head + n} m h head n (rem, mr, m', h')" and "policy \<noteq> 1"
  shows "policy_result policy ord head n m h (rem, set_last_alloc m' mr, h')"
  using assms set_last_alloc_bound [of ord m' mr]
  by (auto simp: loop_result_def policy_result_def ran_def policy_need_def)

lemma policy_sequential_spec:
  assumes "mrs_ok ord m" and "first < memregs_last m \<or> memregs_last m = 0"
    and "sb_order (h head) = ord"
  shows "\<exists>res. remote_page_policy_sequential m h head first = Some res
    \<and> policy_result 0 ord head (num_subblock_in_block (h head)) m h res"
proof -
  let ?n = "num_subblock_in_block (h head)"
  from lock_first_spec [OF assms(2), of "2 ^ ord"] obtain x where
    x: "lock_next_avail_mr m None first (2 ^ ord) = Some x"
      "\<And>i. x = Some i \<Longrightarrow> i < memregs_last m \<and> mr_has_room (memregs m ! i) (2 ^ ord)
          \<and> (\<forall>j<memregs_last m. cyc first i j \<longrightarrow> \<not> mr_has_room (memregs m ! j) (2 ^ ord))"
      "x = None \<Longrightarrow> \<forall>j<memregs_last m. \<not> mr_has_room (memregs m ! j) (2 ^ ord)" by blast
  have "\<exists>res. seq_loop ord first m h x head ?n = Some res
      \<and> loop_result ord {head..<head + ?n} m h head ?n res"
  proof (cases "memregs_last m = 0")
    case True
    with x have "x = None" by (cases x) auto
    then have "seq_loop ord first m h x head ?n = Some (?n, None, m, h)" by (simp add: seq_loop.simps)
    with True assms(1) show ?thesis by (auto simp: loop_result_def ran_refl)
  next
    case False
    show ?thesis
    proof (rule seq_loop_spec [OF assms(1) _ subset_refl])
      show "first < memregs_last m" using False assms(2) by simp
      show "i < memregs_last m \<and> memregs m ! i \<noteq> None
          \<and> (\<forall>j<memregs_last m. cyc first i j \<longrightarrow> \<not> mr_has_room (memregs m ! j) (2 ^ ord))"
        if "x = Some i" for i
        using x(2) [OF that] room_Some by blast
      show "\<forall>j<memregs_last m. \<not> mr_has_room (memregs m ! j) (2 ^ ord)" if "x = None"
        by (rule x(3) [OF that])
    qed
  qed
  then obtain rem mr m' h' where l: "seq_loop ord first m h x head ?n = Some (rem, mr, m', h')"
    "loop_result ord {head..<head + ?n} m h head ?n (rem, mr, m', h')" by auto
  from loop_to_policy [OF l(2), of 0] l(1) x(1) assms(3) show ?thesis
    by (simp add: remote_page_policy_sequential_def)
qed

lemma policy_diff_mr_spec:
  assumes "mrs_ok ord m" and "first < memregs_last m \<or> memregs_last m = 0"
    and "sb_order (h head) = ord" and "diff_mr_safe ord m (num_subblock_in_block (h head))"
  shows "\<exists>res. remote_page_policy_diff_mr m h head first = Some res
    \<and> policy_result 2 ord head (num_subblock_in_block (h head)) m h res"
proof -
  let ?n = "num_subblock_in_block (h head)"
  from lock_first_spec [OF assms(2), of "2 ^ ord"] obtain x where
    x: "lock_next_avail_mr m None first (2 ^ ord) = Some x"
      "\<And>i. x = Some i \<Longrightarrow> i < memregs_last m \<and> mr_has_room (memregs m ! i) (2 ^ ord)"
      "x = None \<Longrightarrow> \<forall>j<memregs_last m. \<not> mr_has_room (memregs m ! j) (2 ^ ord)" by blast
  have "\<exists>res. diff_loop ord m h x head ?n = Some res
      \<and> loop_result ord {head..<head + ?n} m h head ?n res"
  proof (rule diff_loop_spec [OF assms(1) subset_refl])
    show "i < memregs_last m \<and> memregs m ! i \<noteq> None
        \<and> (0 < ?n \<longrightarrow> slack ord m i (if memregs_last m = 1 then ?n else 1))" if "x = Some i" for i
      using x(2) [OF that] room_slack [OF assms(1), of i "2 ^ ord"] assms(4)
      by (auto simp: diff_mr_safe_def slack_def)
    show "\<forall>j<memregs_last m. \<not> mr_has_room (memregs m ! j) (2 ^ ord)" if "x = None"
      by (rule x(3) [OF that])
  qed
  then obtain rem mr m' h' where l: "diff_loop ord m h x head ?n = Some (rem, mr, m', h')"
    "loop_result ord {head..<head + ?n} m h head ?n (rem, mr, m', h')" by auto
  from loop_to_policy [OF l(2), of 2] l(1) x(1) assms(3) show ?thesis
    by (simp add: remote_page_policy_diff_mr_def)
qed

lemma policy_same_mr_spec:
  assumes "mrs_ok ord m" and "first < memregs_last m \<or> memregs_last m = 0"
    and "sb_order (h head) = ord"
  shows "\<exists>res. remote_page_policy_same_mr m h head first = Some res
    \<and> policy_result 1 ord head (num_subblock_in_block (h head)) m h res"
proof -
  let ?n = "num_subblock_in_block (h head)"
  have n: "0 < ?n" by (simp add: num_subblock_in_block_def)
  have gpas: "set (for_each_gpas h head) = {head..<head + ?n}" "length (for_each_gpas h head) = ?n"
    by (simp_all add: for_each_gpas_def)
  from lock_first_spec [OF assms(2), of "int ?n * 2 ^ ord"] obtain x where
    x: "lock_next_avail_mr m None first (int ?n * 2 ^ ord) = Some x"
      "\<And>i. x = Some i \<Longrightarrow> i < memregs_last m \<and> mr_has_room (memregs m ! i) (int ?n * 2 ^ ord)"
      "x = None \<Longrightarrow> \<forall>j<memregs_last m. \<not> mr_has_room (memregs m ! j) (int ?n * 2 ^ ord)" by blast
  show ?thesis
  proof (cases x)
    case None
    with x n assms show ?thesis
      by (simp add: remote_page_policy_same_mr_def policy_result_def policy_need_def)
  next
    case (Some i)
    from x(2) [OF this] obtain r where i: "i < memregs_last m" "memregs m ! i = Some r"
      "mr_has_room (Some r) (int ?n * 2 ^ ord)" by (auto simp: mr_has_room_def split: option.splits)
    have i256: "i < 256" "i < length (memregs m)" using mrs_ok_last [OF assms(1) i(1)] by auto
    have r: "region_res ord i r 0" by (rule mrs_ok_region [OF assms(1) i256(1) i(2)])
    let ?r = "mr_charge r (int ?n * 2 ^ ord)"
    let ?m1 = "set_last_alloc (upd_mr m i ?r) (Some i)"
    have r1: "region_res ord i ?r ?n" using mr.reserve_inv [OF r, of ?n] by simp
    have "regions_res ord (memregs ?m1) ((\<lambda>_. 0)(i := length (for_each_gpas h head)))"
      using regions_res_upd [OF _ r1, of "memregs m" "\<lambda>_. 0"] assms(1) gpas(2)
      by (simp add: mrs_ok_def)
    moreover have "card (zeros (alloc_bitmap ?r)) + length (for_each_gpas h head) \<le> mr_slots ord ?r"
      using mr.room_cap [OF r i(3)] gpas(2) by simp
    ultimately obtain m' h' where l: "same_mr_loop ord ?m1 h i (for_each_gpas h head) = Some (m', h')"
      "ran ord {head..<head + ?n} ?m1 h m' h'" "\<forall>p \<in> {head..<head + ?n}. has_page h' p"
      using same_mr_loop_spec [of ?m1 i ord "for_each_gpas h head" ?r "{head..<head + ?n}" h]
        assms(1) i256 gpas by (auto simp: mrs_ok_def)
    have "alloc_step ord {head..<head + ?n} (memregs m, h) (memregs ?m1, h)"
      using alloc_step.charge [OF i256(2) i(2)] by simp
    then have "alloc_run ord {head..<head + ?n} (memregs m, h) (memregs m', h')"
      using l(2) by (simp add: ran_def converse_rtranclp_into_rtranclp)
    moreover have "memregs_last_alloc m' < memregs_last m"
      using l(2) r i(1) i256 by (simp add: ran_def set_last_alloc_def the_mr_def region_res_def)
    ultimately have "policy_result 1 ord head ?n m h (0, m', h')"
      using l(2,3) by (simp add: policy_result_def ran_def)
    moreover have "remote_page_policy_same_mr m h head first = Some (0, m', h')"
      using x(1) Some l(1) assms(3) i(2) by (simp add: remote_page_policy_same_mr_def the_mr_def Let_def)
    ultimately show ?thesis by blast
  qed
qed

lemma remote_page_policy_spec:
  assumes "mrs_ok ord m" and "first < memregs_last m \<or> memregs_last m = 0"
    and "sb_order (h head) = ord" and "policy \<le> 2"
    and "policy = 2 \<longrightarrow> diff_mr_safe ord m (num_subblock_in_block (h head))"
  shows "\<exists>res. remote_page_policy policy m h head first = Some res
    \<and> policy_result policy ord head (num_subblock_in_block (h head)) m h res"
proof -
  consider "policy = 0" | "policy = 1" | "policy = 2" using assms(4) by linarith
  then show ?thesis
  proof cases
    case 1
    with policy_sequential_spec [of ord m first h head, OF assms(1-3)] show ?thesis by (simp add: remote_page_policy_def)
  next
    case 2
    with policy_same_mr_spec [of ord m first h head, OF assms(1-3)] show ?thesis by (simp add: remote_page_policy_def)
  next
    case 3
    with policy_diff_mr_spec [of ord m first h head, OF assms(1-3)] assms(5) show ?thesis
      by (simp add: remote_page_policy_def)
  qed
qed

section \<open>Release\<close>

lemma used_slots_put:
  assumes "region_res ord i r n" and "i < length t" and "t ! i = Some r"
    and "k \<in> zeros (alloc_bitmap r)"
  shows "used_slots (t[i := Some (mr_put_slot r k)]) = used_slots t - {(i, k)}"
proof -
  have "used_slots (t[i := Some (mr_put_slot r k)]) =
      {s \<in> used_slots t. fst s \<noteq> i} \<union> {i} \<times> (zeros (alloc_bitmap r) - {k})"
    using used_slots_upd [OF assms(2)] mr.put_used [OF assms(1,4)] by metis
  moreover have "{i} \<times> zeros (alloc_bitmap r) = {s \<in> used_slots t. fst s = i}"
    using assms by (auto simp: used_slots_def)
  ultimately show ?thesis by auto
qed

lemma pages_ok_drop:
  assumes "pages_ok ord t h P" and "used_slots t' = used_slots t - {s}" and "regions_res ord t R"
    and "p \<in> P" and "remote_page (h p) = slot_word ord s" and "s \<in> used_slots t"
  shows "pages_ok ord t' (set_rp h p FREE_REMOTE_PAGE_VAL) P"
proof -
  let ?h = "set_rp h p FREE_REMOTE_PAGE_VAL"
  have pg: "has_page h p" using used_slot_facts(2) [OF assms(3,6)] assms(5) by simp
  have dom: "{q \<in> P. has_page ?h q} = {q \<in> P. has_page h q} - {p}"
    by (auto simp: is_remote_page_free_def)
  have "\<exists>s' \<in> used_slots t'. remote_page (?h q) = slot_word ord s'"
    if q: "q \<in> P" "has_page ?h q" for q
  proof -
    from q dom have "q \<noteq> p" "has_page h q" by auto
    with assms(1) q(1) obtain s' where s': "s' \<in> used_slots t" "remote_page (h q) = slot_word ord s'"
      by (auto simp: pages_ok_def)
    have "s' \<noteq> s"
    proof
      assume "s' = s"
      with s'(2) assms(5) have "remote_page (h q) = remote_page (h p)" by simp
      with assms(1,4) q(1) \<open>has_page h q\<close> pg \<open>q \<noteq> p\<close> show False
        by (auto simp: pages_ok_def inj_on_def)
    qed
    with s' \<open>q \<noteq> p\<close> assms(2) show ?thesis by auto
  qed
  moreover have "inj_on (\<lambda>q. remote_page (?h q)) {q \<in> P. has_page ?h q}"
    unfolding dom using assms(1) by (auto simp: pages_ok_def inj_on_def)
  ultimately show ?thesis by (simp add: pages_ok_def)
qed

lemma free_remote_page4_spec:
  assumes "mrs_ok ord m" and "pages_ok ord (memregs m) h P" and "p \<in> P" and "has_page h p"
  shows "\<exists>m'. free_remote_page4 st m h p = Some (m', set_rp h p FREE_REMOTE_PAGE_VAL)
    \<and> mrs_ok ord m' \<and> pages_ok ord (memregs m') (set_rp h p FREE_REMOTE_PAGE_VAL) P
    \<and> used_slots (memregs m') = used_slots (memregs m) - {word_slot ord (remote_page (h p))}
    \<and> memregs_last m' = memregs_last m \<and> memregs_last_alloc m' = memregs_last_alloc m"
proof -
  let ?rp = "remote_page (h p)"
  have res: "regions_res ord (memregs m) (\<lambda>_. 0)" using assms(1) by (simp add: mrs_ok_def)
  from assms(2-4) obtain s where s: "s \<in> used_slots (memregs m)" "?rp = slot_word ord s"
    by (auto simp: pages_ok_def)
  obtain i k where ik: "s = (i, k)" by (cases s)
  note w = used_slot_facts [OF res s(1)]
  from s(1) ik obtain r where r: "i < length (memregs m)" "memregs m ! i = Some r"
    "k \<in> zeros (alloc_bitmap r)" by (auto simp: used_slots_def)
  have rr: "region_res ord i r 0" using regions_resD [OF res r(1,2)] .
  have ws: "word_slot ord ?rp = (i, k)" using w(1) s(2) ik by simp
  have cow: "\<not> is_remote_page_cow ?rp" using w(3) s(2) by simp
  have i: "unat (get_remote_page_mrid st ?rp) = i"
  proof -
    have "unat (raw_remote_page_mrid ?rp) = i" using ws by (simp add: word_slot_def)
    moreover have "i < 256" using rr by (simp add: region_res_def)
    ultimately show ?thesis
      using cow by (simp add: get_remote_page_mrid_def get_rp_val_def unsigned_ucast_eq unsigned_take_bit_eq
          take_bit_nat_eq_self)
  qed
  have k: "unat (get_remote_page_offset st ?rp) div 2 ^ dma_order r = k"
    using ws rr cow by (simp add: get_remote_page_offset_def get_rp_val_def word_slot_def region_res_def)
  have kl: "k < length (alloc_bitmap r)" using r(3) by (simp add: zeros_def)
  let ?m = "upd_mr m i (mr_put_slot r k)"
  have e: "free_remote_page4 st m h p = Some (?m, set_rp h p FREE_REMOTE_PAGE_VAL)"
    using i k kl r(2)
    by (simp add: free_remote_page4_def release_remote_page_def set_remote_page_free_def Let_def)
  have u: "used_slots (memregs ?m) = used_slots (memregs m) - {s}"
    using used_slots_put [OF rr r] ik by simp
  have "region_res ord i (mr_put_slot r k) 0" by (rule mr.put_inv [OF rr r(3)])
  from regions_res_upd [OF res this] assms(1) have "mrs_ok ord ?m"
    by (simp add: mrs_ok_def fun_upd_idem)
  with e u pages_ok_drop [OF assms(2) u res assms(3) s(2,1)] ws ik show ?thesis by simp
qed

definition freed_pages :: "bool \<Rightarrow> gpa_ptr set \<Rightarrow> gpa_heap \<Rightarrow> gpa_heap \<Rightarrow> bool" where
  "freed_pages reuse S h h' \<longleftrightarrow> (\<forall>p. h' p = (if \<not> reuse \<and> p \<in> S \<and> has_page h p
     then (h p)\<lparr>remote_page := FREE_REMOTE_PAGE_VAL\<rparr> else h p))"

lemma free_remote_pages_spec:
  assumes "mrs_ok ord m" and "pages_ok ord (memregs m) h P" and "set ps \<subseteq> P"
  shows "\<exists>m' h'. free_remote_pages c st m h ps = Some (m', h') \<and> mrs_ok ord m'
    \<and> pages_ok ord (memregs m') h' P \<and> freed_pages (remote_reuse c) (set ps) h h'
    \<and> (remote_reuse c \<longrightarrow> m' = m)
    \<and> memregs_last m' = memregs_last m \<and> memregs_last_alloc m' = memregs_last_alloc m"
  using assms
proof (induction ps arbitrary: m h)
  case Nil
  then show ?case by (simp add: freed_pages_def)
next
  case (Cons p ps)
  then have p: "p \<in> P" "set ps \<subseteq> P" by auto
  show ?case
  proof (cases "remote_reuse c \<or> \<not> has_page h p")
    case True
    then have "free_remote_pages c st m h (p # ps) = free_remote_pages c st m h ps"
      by (auto simp: free_remote_page2_def)
    with Cons.IH [OF Cons.prems(1,2) p(2)] True show ?thesis
      by (auto simp: freed_pages_def)
  next
    case False
    let ?h = "set_rp h p FREE_REMOTE_PAGE_VAL"
    from free_remote_page4_spec [OF Cons.prems(1,2) p(1), of st] False obtain m1 where
      f: "free_remote_page4 st m h p = Some (m1, ?h)" "mrs_ok ord m1" "pages_ok ord (memregs m1) ?h P"
      "memregs_last m1 = memregs_last m" "memregs_last_alloc m1 = memregs_last_alloc m" by blast
    from Cons.IH [OF f(2,3) p(2)] obtain m' h' where
      g: "free_remote_pages c st m1 ?h ps = Some (m', h')" "mrs_ok ord m'"
      "pages_ok ord (memregs m') h' P" "freed_pages (remote_reuse c) (set ps) ?h h'"
      "memregs_last m' = memregs_last m1" "memregs_last_alloc m' = memregs_last_alloc m1" by blast
    have "freed_pages (remote_reuse c) (set (p # ps)) h h'"
      using g(4) False by (auto simp: freed_pages_def set_rp_def is_remote_page_free_def)
    with f g False show ?thesis by (simp add: free_remote_page2_def)
  qed
qed

section \<open>Allocation for a block\<close>

text \<open>
  Where the region ring may start, and that advancing it does not divide by zero.
\<close>

definition ring_ok :: "emp_config \<Rightarrow> emp_mrs \<Rightarrow> bool" where
  "ring_ok c m \<longleftrightarrow> memregs_last_alloc m < memregs_last m
     \<or> memregs_last m = 0 \<and> remote_policy_block c = 0"

definition alloc_pre :: "emp_config \<Rightarrow> emp_mrs \<Rightarrow> gpa_heap \<Rightarrow> gpa_ptr \<Rightarrow> bool" where
  "alloc_pre c m h head \<longleftrightarrow> ring_ok c m \<and> remote_policy_subblock c \<le> 2
     \<and> (remote_policy_subblock c = 2 \<longrightarrow>
          diff_mr_safe (sb_order (h head)) m (num_subblock_in_block (h head)))"

lemma check_mr_change_keeps [simp]:
  "memregs (snd (check_mr_change c m)) = memregs m"
  "memregs_last (snd (check_mr_change c m)) = memregs_last m"
  "memregs_last_alloc (snd (check_mr_change c m)) = memregs_last_alloc m"
  "mrs_ok ord (snd (check_mr_change c m)) = mrs_ok ord m"
  "diff_mr_safe ord (snd (check_mr_change c m)) n = diff_mr_safe ord m n"
  by (simp_all add: check_mr_change_def mrs_ok_def diff_mr_safe_def slack_def)

definition block_gpas :: "gpa_heap \<Rightarrow> gpa_ptr \<Rightarrow> gpa_ptr set" where
  "block_gpas h head = {head ..< head + num_subblock_in_block (h head)}"

lemma alloc_remote_page2_spec:
  assumes "mrs_ok ord m" and "pages_ok ord (memregs m) h P" and "block_gpas h head \<subseteq> P"
    and "sb_order (h head) = ord" and "alloc_pre c m h head"
  shows "\<exists>done m' h' h1. alloc_remote_page2 c st m h head = Some (done, m', h')
    \<and> mrs_ok ord m' \<and> pages_ok ord (memregs m') h' P \<and> ring_ok c m'
    \<and> (\<forall>p. p \<notin> block_gpas h head \<or> has_page h p \<longrightarrow> h1 p = h p)
    \<and> (\<forall>p. \<exists>v. h1 p = (h p)\<lparr>remote_page := v\<rparr>)
    \<and> (done \<longrightarrow> h' = h1 \<and> (\<forall>p \<in> block_gpas h head. has_page h' p)
         \<and> run_keeps (block_gpas h head) (memregs m, h) (memregs m', h'))
    \<and> (\<not> done \<longrightarrow> freed_pages (remote_reuse c) (block_gpas h head) h1 h'
         \<and> (remote_reuse c \<longrightarrow> (\<forall>j<memregs_last m. \<not> mr_has_room (memregs m' ! j)
              (policy_need (remote_policy_subblock c) ord (num_subblock_in_block (h head))))))"
proof -
  let ?n = "num_subblock_in_block (h head)" and ?B = "block_gpas h head"
  let ?policy = "remote_policy_subblock c"
  obtain change m1 where ch: "check_mr_change c m = (change, m1)" by (cases "check_mr_change c m")
  then have m1: "m1 = snd (check_mr_change c m)" "change = fst (check_mr_change c m)" by simp_all
  have ok1: "mrs_ok ord m1" "memregs m1 = memregs m" "memregs_last m1 = memregs_last m"
    "memregs_last_alloc m1 = memregs_last_alloc m" "diff_mr_safe ord m1 ?n = diff_mr_safe ord m ?n"
    using assms(1) by (simp_all add: m1)
  have chg: "change \<Longrightarrow> memregs_last m \<noteq> 0"
    using assms(5) m1(2) by (auto simp: alloc_pre_def ring_ok_def check_mr_change_def split: if_splits)
  have "\<exists>first. (if change then c_mod (memregs_last_alloc m + 1) (memregs_last m1)
      else Some (memregs_last_alloc m)) = Some first
    \<and> (first < memregs_last m1 \<or> memregs_last m1 = 0)"
    using chg assms(5) ok1(3) by (cases change) (auto simp: c_mod_def alloc_pre_def ring_ok_def)
  then obtain first where first: "(if change then c_mod (memregs_last_alloc m + 1) (memregs_last m1)
      else Some (memregs_last_alloc m)) = Some first" "first < memregs_last m1 \<or> memregs_last m1 = 0"
    by blast
  obtain rem m2 h2 where p: "remote_page_policy ?policy m1 h head first = Some (rem, m2, h2)"
    "policy_result ?policy ord head ?n m1 h (rem, m2, h2)"
    using remote_page_policy_spec [of ord m1 first h head ?policy, OF ok1(1) first(2) assms(4)]
      assms(4,5) ok1(5) by (auto simp: alloc_pre_def)
  then have ok2: "mrs_ok ord m2" "alloc_run ord ?B (memregs m, h) (memregs m2, h2)"
    "memregs_last m2 = memregs_last m"
    "memregs_last_alloc m2 = memregs_last_alloc m \<or> memregs_last_alloc m2 < memregs_last m"
    using ok1 by (simp_all add: policy_result_def block_gpas_def)
  have shape: "regions_shape ord (memregs m)"
    using assms(1) regions_res_shape by (auto simp: mrs_ok_def)
  have keeps: "run_keeps ?B (memregs m, h) (memregs m2, h2)"
    using alloc_run_keeps [OF ok2(2)] shape by simp
  have pages: "pages_ok ord (memregs m2) h2 P"
    using alloc_run_pages [OF ok2(2) _ assms(3)] shape assms(2) by simp
  have ring: "ring_ok c m2" using assms(5) ok2(3,4) by (auto simp: alloc_pre_def ring_ok_def)
  have orders: "num_subblock_in_block (h2 head) = ?n"
  proof -
    have "\<exists>v. h2 head = (h head)\<lparr>remote_page := v\<rparr>" using keeps by (simp add: run_keeps_def)
    then show ?thesis by (auto simp: num_subblock_in_block_def)
  qed
  then have gpas: "set (for_each_gpas h2 head) = ?B" by (simp add: for_each_gpas_def block_gpas_def)
  have e: "alloc_remote_page2 c st m h head =
      (if rem = 0 then Some (True, m2, h2)
       else map_option (Pair False) (free_remote_page_block c st m2 h2 head))"
    using ch first(1) p(1) by (simp add: alloc_remote_page2_def)
  show ?thesis
  proof (cases "rem = 0")
    case True
    with e p(2) keeps ok2(1) pages ring show ?thesis
      by (auto simp: policy_result_def block_gpas_def run_keeps_def)
  next
    case False
    from free_remote_pages_spec [OF ok2(1) pages, of "for_each_gpas h2 head" c st] gpas assms(3)
    obtain m3 h3 where f: "free_remote_pages c st m2 h2 (for_each_gpas h2 head) = Some (m3, h3)"
      "mrs_ok ord m3" "pages_ok ord (memregs m3) h3 P" "freed_pages (remote_reuse c) ?B h2 h3"
      "remote_reuse c \<longrightarrow> m3 = m2" "memregs_last m3 = memregs_last m2"
      "memregs_last_alloc m3 = memregs_last_alloc m2" by auto
    have "ring_ok c m3" using ring f(6,7) by (simp add: ring_ok_def)
    moreover have "\<forall>j<memregs_last m. \<not> mr_has_room (memregs m2 ! j) (policy_need ?policy ord ?n)"
      using p(2) False ok1(3) by (simp add: policy_result_def)
    ultimately show ?thesis
      using e f False keeps
      by (simp add: free_remote_page_block_def) (auto simp: run_keeps_def)
  qed
qed

lemma freed_pages_orders:
  "freed_pages b S h h' \<Longrightarrow> num_subblock_in_block (h' p) = num_subblock_in_block (h p)"
  by (simp add: freed_pages_def num_subblock_in_block_def)

lemma alloc_remote_page_ok:
  assumes "mrs_ok ord m" and "pages_ok ord (memregs m) h P" and "block_gpas h head \<subseteq> P"
    and "sb_order (h head) = ord" and "alloc_pre c m h head"
  shows "\<exists>done m' h'. alloc_remote_page c st m h head = Some (done, m', h')
    \<and> mrs_ok ord m' \<and> pages_ok ord (memregs m') h' P \<and> ring_ok c m'
    \<and> (\<forall>p. p \<notin> block_gpas h head \<or> done \<and> has_page h p \<longrightarrow> h' p = h p)
    \<and> (done \<longrightarrow> (\<forall>p \<in> block_gpas h head. has_page h' p))
    \<and> (\<not> done \<and> \<not> remote_reuse c \<longrightarrow> (\<forall>p \<in> block_gpas h head. \<not> has_page h' p))
    \<and> (\<not> done \<and> remote_reuse c \<longrightarrow> (\<forall>j<memregs_last m. \<not> mr_has_room (memregs m' ! j)
         (policy_need (remote_policy_subblock c) ord (num_subblock_in_block (h head)))))"
proof (cases "list_all (has_page h) (for_each_gpas h head)")
  case True
  then have "\<forall>p \<in> block_gpas h head. has_page h p"
    by (auto simp: list_all_iff block_gpas_def for_each_gpas_def)
  with True assms show ?thesis
    by (intro exI [of _ True] exI [of _ m] exI [of _ h])
       (simp add: alloc_remote_page_def alloc_pre_def)
next
  case False
  let ?B = "block_gpas h head"
  from alloc_remote_page2_spec [of ord m h P head c st, OF assms] obtain dn m1 h1 h0 where
    a: "alloc_remote_page2 c st m h head = Some (dn, m1, h1)"
      "mrs_ok ord m1" "pages_ok ord (memregs m1) h1 P" "ring_ok c m1"
      "\<forall>p. p \<notin> ?B \<or> has_page h p \<longrightarrow> h0 p = h p" "\<forall>p. \<exists>v. h0 p = (h p)\<lparr>remote_page := v\<rparr>"
      "dn \<longrightarrow> h1 = h0 \<and> (\<forall>p \<in> ?B. has_page h1 p)"
      "\<not> dn \<longrightarrow> freed_pages (remote_reuse c) ?B h0 h1
         \<and> (remote_reuse c \<longrightarrow> (\<forall>j<memregs_last m. \<not> mr_has_room (memregs m1 ! j)
              (policy_need (remote_policy_subblock c) ord (num_subblock_in_block (h head)))))"
    by blast
  show ?thesis
  proof (cases "dn")
    case True
    with a False show ?thesis
      by (intro exI [of _ True] exI [of _ m1] exI [of _ h1]) (auto simp: alloc_remote_page_def)
  next
    case nd: False
    have "\<exists>v. h0 head = (h head)\<lparr>remote_page := v\<rparr>" using a(6) by simp
    then have "num_subblock_in_block (h0 head) = num_subblock_in_block (h head)"
      by (auto simp: num_subblock_in_block_def)
    moreover have fr: "freed_pages (remote_reuse c) ?B h0 h1" using a(8) nd by simp
    ultimately have gpas: "set (for_each_gpas h1 head) = ?B"
      using freed_pages_orders [OF fr] by (simp add: for_each_gpas_def block_gpas_def)
    from free_remote_pages_spec [OF a(2,3), of "for_each_gpas h1 head" c st] gpas assms(3)
    obtain m2 h2 where f: "free_remote_pages c st m1 h1 (for_each_gpas h1 head) = Some (m2, h2)"
      "mrs_ok ord m2" "pages_ok ord (memregs m2) h2 P" "freed_pages (remote_reuse c) ?B h1 h2"
      "remote_reuse c \<longrightarrow> m2 = m1" "memregs_last m2 = memregs_last m1"
      "memregs_last_alloc m2 = memregs_last_alloc m1" by auto
    have e: "alloc_remote_page c st m h head = Some (False, m2, h2)"
      using False a(1) nd f(1) by (simp add: alloc_remote_page_def)
    have "ring_ok c m2" using a(4) f(6,7) by (simp add: ring_ok_def)
    moreover have "\<forall>p. p \<notin> ?B \<longrightarrow> h2 p = h p" using a(5) fr f(4) by (simp add: freed_pages_def)
    moreover have "\<not> remote_reuse c \<longrightarrow> (\<forall>p \<in> ?B. \<not> has_page h2 p)"
      using f(4) by (simp add: freed_pages_def is_remote_page_free_def)
    ultimately show ?thesis
      using e f(2,3,5) a(8) nd by (intro exI [of _ False] exI [of _ m2] exI [of _ h2]) simp
  qed
qed

lemma alloc_remote_page_run:
  assumes "mrs_ok ord m" and "pages_ok ord (memregs m) h P" and "block_gpas h head \<subseteq> P"
    and "sb_order (h head) = ord" and "alloc_pre c m h head"
    and "alloc_remote_page c st m h head = Some (True, m', h')"
  shows "run_keeps (block_gpas h head) (memregs m, h) (memregs m', h')"
proof (cases "list_all (has_page h) (for_each_gpas h head)")
  case True
  then show ?thesis using assms(6) by (simp add: alloc_remote_page_def run_keeps_refl)
next
  case False
  have "alloc_remote_page2 c st m h head = Some (True, m', h')"
    using assms(6) False by (auto simp: alloc_remote_page_def split: bind_splits if_splits)
  with alloc_remote_page2_spec [OF assms(1-5), of st] show ?thesis by auto
qed

text \<open>The two ways in which the allocation has no defined result, as the code is written.\<close>

lemma alloc_remote_page_no_region:
  assumes "memregs_last m = 0" and "remote_policy_block c \<noteq> 0"
    and "memregs_num_alloc m mod remote_policy_block c = 0"
    and "\<not> list_all (has_page h) (for_each_gpas h head)"
  shows "alloc_remote_page c st m h head = None"
  using assms by (simp add: alloc_remote_page_def alloc_remote_page2_def check_mr_change_def c_mod_def)

lemma diff_loop_overrun:
  assumes "mrs_ok ord m" and "memregs_last m = 1" and "memregs m ! 0 \<noteq> None"
    and "\<forall>p. gpa \<le> p \<and> p < gpa + rem \<longrightarrow> \<not> has_page h p" and "\<not> slack ord m 0 rem"
  shows "diff_loop ord m h (Some 0) gpa rem = None"
  using assms
proof (induction rem arbitrary: m h gpa)
  case 0
  from 0(3) obtain r where r: "memregs m ! 0 = Some r" by auto
  have "region_res ord 0 r 0" using mrs_ok_region [OF 0(1) _ r] by simp
  from card_mono [OF _ mr.used_cap [OF this]] r 0(5) show ?case by (simp add: slack_def)
next
  case (Suc rem)
  from Suc.prems(3) obtain r where r: "memregs m ! 0 = Some r" by auto
  have res: "region_res ord 0 r 0" using mrs_ok_region [OF Suc.prems(1) _ r] by simp
  have len: "0 < length (memregs m)" using Suc.prems(1) by (simp add: mrs_ok_def)
  have new: "\<not> has_page h gpa" using Suc.prems(4) by simp
  show ?case
  proof (cases "mr_find_slot ord r = mr_slots ord r")
    case True
    with new r show ?thesis by (simp add: diff_loop.simps the_mr_def)
  next
    case False
    let ?m = "upd_mr m 0 (mr_take_slot (mr_charge r (2 ^ ord)) (mr_find_slot ord r))"
    let ?h = "set_rp h gpa (taken_word ord r)"
    have t: "ran ord {gpa} m h ?m ?h"
      using take_ran(1) [of ord m 0 r gpa "{gpa}" h] Suc.prems(1) r False new by simp
    have id: "mr_id (the_mr ?m 0) = 0" using res len by (simp add: the_mr_def region_res_def)
    have k: "mr_find_slot ord r < mr_slots ord r" "mr_find_slot ord r \<notin> zeros (alloc_bitmap r)"
      using mr.search_free [OF res False] by auto
    have "\<not> slack ord ?m 0 rem"
    proof -
      have "region_res ord 0 (mr_charge r (2 ^ ord)) 1" using mr.reserve_inv [OF res, of 1] by simp
      from mr.take_card [OF this, of "mr_find_slot ord r"] k Suc.prems(5) r len
      show ?thesis by (simp add: slack_def)
    qed
    then have "diff_loop ord ?m ?h (Some 0) (gpa + 1) rem = None"
      using t Suc.prems(2,4) len by (intro Suc.IH) (auto simp: ran_def set_rp_def)
    moreover have "diff_loop ord m h (Some 0) gpa (Suc rem) =
        diff_loop ord ?m ?h (Some 0) (gpa + 1) rem"
      using new r False id Suc.prems(2)
      by (subst diff_loop.simps) (simp add: the_mr_def taken_word_def c_mod_def Let_def)
    ultimately show ?thesis by simp
  qed
qed

lemma diff_mr_overrun:
  assumes "mrs_ok (sb_order (h head)) m" and "memregs_last m = 1"
    and "mr_has_room (memregs m ! 0) (2 ^ sb_order (h head))"
    and "\<forall>p \<in> block_gpas h head. \<not> has_page h p"
    and "\<not> slack (sb_order (h head)) m 0 (num_subblock_in_block (h head))"
  shows "remote_page_policy_diff_mr m h head 0 = None"
proof -
  let ?ord = "sb_order (h head)"
  from lock_first_spec [of 0 m "2 ^ ?ord"] assms(2) obtain x where
    x: "lock_next_avail_mr m None 0 (2 ^ ?ord) = Some x"
      "\<And>i. x = Some i \<Longrightarrow> i < 1" "x = None \<Longrightarrow> \<not> mr_has_room (memregs m ! 0) (2 ^ ?ord)"
    by auto
  then have "x = Some 0" using assms(3) by (cases x) auto
  moreover have "diff_loop ?ord m h (Some 0) head (num_subblock_in_block (h head)) = None"
    using assms room_Some by (intro diff_loop_overrun) (auto simp: block_gpas_def)
  ultimately show ?thesis using x(1) by (simp add: remote_page_policy_diff_mr_def)
qed

end
