(* ===== verification/Remote_System.thy ===== *)
theory Remote_System
  imports Remote_Policy
begin

text \<open>
  The remote memory as a transition system: donors are added (\<^verbatim>\<open>create_mr()\<close>), blocks get their remote
  pages (\<^verbatim>\<open>alloc_remote_page()\<close>) and descriptors give them back (\<^verbatim>\<open>____free_remote_page()\<close>), in any
  order.  \<open>remote_inv\<close> holds in every reachable state, so that no two descriptors ever share a slot.
\<close>

section \<open>Adding a region\<close>

lemma init_memreg_res:
  assumes "i < 255" and "2 ^ cfg_subblock_order c dvd MB_TO_PAGE mb" and "MB_TO_PAGE mb < 2 ^ 54"
  shows "region_res (cfg_subblock_order c) i ((init_memreg c mb k)\<lparr>mr_id := i, has_wr_cache := True\<rparr>) 0"
proof -
  have "zeros (replicate n True) = {}" for n by (auto simp: zeros_def)
  then show ?thesis
    using assms by (simp add: region_res_def init_memreg_def Let_def mr_slots_def)
qed

lemma alloc_mrid_regions:
  assumes "mrs_ok ord m" and "alloc_mrid m mr = (i, m')"
  shows "i = 255 \<and> m' = m \<or> i < MAX_MRID \<and> memregs m ! i = None
    \<and> memregs m' = (memregs m)[i := Some mr] \<and> memregs_last m' \<le> MAX_MRID
    \<and> memregs_last_alloc m' = memregs_last_alloc m \<and> memregs_last m \<le> memregs_last m'"
proof (cases "find_free_mrid (memregs m) 0")
  case None
  with assms(2) show ?thesis by (simp add: alloc_mrid_def)
next
  case (Some j)
  from find_free_mrid_Some [OF this] have j: "j < MAX_MRID" "memregs m ! j = None" by auto
  with Some assms show ?thesis by (auto simp: alloc_mrid_def mrs_ok_def MAX_MRID_def)
qed

lemma slot255_empty: "mrs_ok ord m \<Longrightarrow> memregs m ! 255 = None"
  using mrs_ok_region [of ord m 255] by (cases "memregs m ! 255") (auto simp: region_res_def)

lemma used_slots_new:
  assumes "t ! i = None" and "zeros (alloc_bitmap r) = {}"
  shows "used_slots (t[i := Some r]) = used_slots t"
proof (cases "i < length t")
  case True
  with used_slots_upd [of i t r] assms show ?thesis by (auto simp: used_slots_def)
qed (simp add: list_update_beyond)

text \<open>The memory that \<^verbatim>\<open>create_mr()\<close> holds on to: a connection, the region, its bitmap and cache.\<close>

definition holdings :: "emm_mr \<Rightarrow> int \<times> int \<times> int \<times> int" where
  "holdings e = (open_conns e, live_mrs e, live_bitmaps e, live_wr_caches e)"

lemma free_alloc_mrid:
  assumes "mrs_ok ord m" and "alloc_mrid m mr = (i, m')"
  shows "memregs (snd (free_mrid m' i)) = memregs m \<and> memregs_last (snd (free_mrid m' i)) \<le> MAX_MRID
    \<and> memregs_last_alloc (snd (free_mrid m' i)) = memregs_last_alloc m"
proof -
  have red: "reduce_memregs_last t n \<le> n" for t n by (induction n) auto
  consider "i = 255" "m' = m" | "i < MAX_MRID" "memregs m ! i = None"
    "memregs m' = (memregs m)[i := Some mr]" "memregs_last m' \<le> MAX_MRID"
    "memregs_last_alloc m' = memregs_last_alloc m"
    using alloc_mrid_regions [OF assms] by (elim disjE conjE) auto
  then show ?thesis
  proof cases
    case 1
    with slot255_empty [OF assms(1)] assms(1) show ?thesis by (simp add: free_mrid_def mrs_ok_def)
  next
    case 2
    have len: "i < length (memregs m)" using 2(1) assms(1) by (simp add: mrs_ok_def MAX_MRID_def)
    have "(memregs m)[i := None] = memregs m" using 2(2) by (metis list_update_id)
    with 2 len red [of "memregs m" "memregs_last m'"] show ?thesis
      by (auto simp: free_mrid_def Let_def)
  qed
qed

lemma create_mr_ok:
  assumes "mrs_ok ord (mrs e)" and "ord = cfg_subblock_order (cfg e)"
    and "2 ^ ord dvd MB_TO_PAGE (donor_size donor)" and "MB_TO_PAGE (donor_size donor) < 2 ^ 54"
    and "create_mr e donor env = (ret, mrid, e')"
  shows "mrs_ok ord (mrs e') \<and> cfg_subblock_order (cfg e') = ord
    \<and> used_slots (memregs (mrs e')) = used_slots (memregs (mrs e))
    \<and> (ret = 0 \<longrightarrow> (\<exists>i. mrid = Some i \<and> (i = 255 \<and> memregs (mrs e') = memregs (mrs e) \<or>
         i < MAX_MRID \<and> memregs (mrs e) ! i = None \<and> (\<exists>r. memregs (mrs e') ! i = Some r
           \<and> mr_size r = MB_TO_PAGE (donor_size donor) \<and> mr_id r = i))))
    \<and> (ret \<noteq> 0 \<longrightarrow> mrid = None \<and> holdings e' = holdings e
         \<and> memregs (mrs e') = memregs (mrs e) \<and> cfg e' = cfg e)"
proof (cases "dma_ops_known (dev_type donor) = None \<or> conn_ret env \<noteq> 0 \<or> \<not> mr_alloc_ok env
    \<or> \<not> bitmap_alloc_ok env")
  case True
  with assms show ?thesis
    by (auto simp: create_mr_def Let_def holdings_def ENOMEM_def EINVAL_def split: option.splits if_splits)
next
  case False
  then obtain k where k: "dma_ops_known (dev_type donor) = Some k" "conn_ret env = 0"
    "mr_alloc_ok env" "bitmap_alloc_ok env" by auto
  let ?mr = "init_memreg (cfg e) (donor_size donor) k"
  obtain i m4 where al: "alloc_mrid (mrs e) ?mr = (i, m4)" by (cases "alloc_mrid (mrs e) ?mr")
  show ?thesis
  proof (cases "wr_cache_ok env")
    case False
    let ?m = "snd (free_mrid m4 i)"
    have "mrs e' = ?m" "ret = - ENOMEM" "mrid = None" "holdings e' = holdings e" "cfg e' = cfg e"
      using assms(5) k al False by (auto simp: create_mr_def Let_def holdings_def)
    moreover have "mrs_ok ord ?m" "memregs ?m = memregs (mrs e)"
      using free_alloc_mrid [OF assms(1) al] assms(1) by (simp_all add: mrs_ok_def)
    ultimately show ?thesis using assms(2) by (simp add: ENOMEM_def)
  next
    case True
    let ?r = "?mr\<lparr>mr_id := i, has_wr_cache := True\<rparr>"
    have e: "memregs (mrs e') = (if memregs m4 ! i = None then memregs m4 else (memregs m4)[i := Some ?r])"
      "memregs_last (mrs e') = memregs_last m4" "ret = 0" "mrid = Some i"
      "cfg_subblock_order (cfg e') = ord"
      using assms(2,5) k al True by (auto simp: create_mr_def Let_def)
    consider "i = 255" "m4 = mrs e" | "i < MAX_MRID" "memregs (mrs e) ! i = None"
      "memregs m4 = (memregs (mrs e))[i := Some ?mr]" "memregs_last m4 \<le> MAX_MRID"
      using alloc_mrid_regions [OF assms(1) al] by (elim disjE conjE) auto
    then show ?thesis
    proof cases
      case 1
      with e slot255_empty [OF assms(1)] have "memregs (mrs e') = memregs (mrs e)" by simp
      with 1 e assms(1) show ?thesis by (simp add: mrs_ok_def)
    next
      case 2
      have len: "i < length (memregs (mrs e))" using 2(1) assms(1) by (simp add: mrs_ok_def MAX_MRID_def)
      then have t: "memregs (mrs e') = (memregs (mrs e))[i := Some ?r]" using 2(3) e(1) by simp
      have res: "region_res ord i ?r 0"
        using init_memreg_res [of i "cfg e" "donor_size donor" k] assms(2-4) 2(1) by (simp add: MAX_MRID_def)
      have "mr_regions_ok ord ((memregs (mrs e))[i := Some ?r])"
        using regions_res_upd [OF _ res, of "memregs (mrs e)" "\<lambda>_. 0"] assms(1)
        by (simp add: mrs_ok_def fun_upd_idem)
      then have "mrs_ok ord (mrs e')" using assms(1) 2(4) e(2) t by (simp add: mrs_ok_def)
      moreover have "zeros (alloc_bitmap ?r) = {}" by (auto simp: init_memreg_def Let_def zeros_def)
      then have "used_slots (memregs (mrs e')) = used_slots (memregs (mrs e))"
        unfolding t by (rule used_slots_new [OF 2(2)])
      ultimately show ?thesis using e t len 2 by (simp add: init_memreg_def Let_def)
    qed
  qed
qed

text \<open>
  With every id below \<open>MAX_MRID\<close> taken, the region is created and reported with the reserved id 255,
  and the table does not know it.
\<close>

lemma create_mr_full:
  assumes "mrs_ok ord (mrs e)" and "\<forall>i < MAX_MRID. memregs (mrs e) ! i \<noteq> None"
    and "dma_ops_known (dev_type donor) \<noteq> None" and "conn_ret env = 0" and "mr_alloc_ok env"
    and "bitmap_alloc_ok env" and "wr_cache_ok env"
  shows "\<exists>e'. create_mr e donor env = (0, Some 255, e') \<and> memregs (mrs e') = memregs (mrs e)
    \<and> memregs (mrs e') ! 255 = None \<and> live_mrs e' = live_mrs e + 1"
proof -
  have "find_free_mrid (memregs (mrs e)) 0 = None"
    using find_free_mrid_Some [of "memregs (mrs e)" 0] assms(2)
    by (cases "find_free_mrid (memregs (mrs e)) 0") auto
  then have "alloc_mrid (mrs e) r = (255, mrs e)" for r by (simp add: alloc_mrid_def)
  with assms(3-7) slot255_empty [OF assms(1)] show ?thesis
    by (auto simp: create_mr_def Let_def)
qed

section \<open>The transition system\<close>

text \<open>
  \<open>P\<close> is the set of descriptors.  Blocks may be merged and split between two steps (\<open>reorder\<close>); the
  guard of \<open>alloc\<close> names the states in which the allocation is known to have a result.
\<close>

inductive remote_step :: "cow_store \<Rightarrow> gpa_ptr set \<Rightarrow> emm_mr \<times> gpa_heap \<Rightarrow> emm_mr \<times> gpa_heap \<Rightarrow> bool"
  for st P where
  create: "create_mr e donor env = (ret, mrid, e') \<Longrightarrow>
      2 ^ cfg_subblock_order (cfg e) dvd MB_TO_PAGE (donor_size donor) \<Longrightarrow>
      MB_TO_PAGE (donor_size donor) < 2 ^ 54 \<Longrightarrow> remote_step st P (e, h) (e', h)"
| alloc: "alloc_remote_page (cfg e) st (mrs e) h head = Some (dn, m', h') \<Longrightarrow>
      block_gpas h head \<subseteq> P \<Longrightarrow> sb_order (h head) = cfg_subblock_order (cfg e) \<Longrightarrow>
      alloc_pre (cfg e) (mrs e) h head \<Longrightarrow> remote_step st P (e, h) (e\<lparr>mrs := m'\<rparr>, h')"
| free: "free_remote_page4 st (mrs e) h p = Some (m', h') \<Longrightarrow> p \<in> P \<Longrightarrow> has_page h p \<Longrightarrow>
      remote_step st P (e, h) (e\<lparr>mrs := m'\<rparr>, h')"
| reorder: "(\<forall>p. remote_page (h' p) = remote_page (h p)) \<Longrightarrow> remote_step st P (e, h) (e, h')"

inductive_cases remote_stepE [consumes 1]: "remote_step st P (e, h) s"

definition remote_inv :: "nat \<Rightarrow> gpa_ptr set \<Rightarrow> emm_mr \<times> gpa_heap \<Rightarrow> bool" where
  "remote_inv ord P s \<longleftrightarrow> cfg_subblock_order (cfg (fst s)) = ord \<and> mrs_ok ord (mrs (fst s))
     \<and> pages_ok ord (memregs (mrs (fst s))) (snd s) P"

lemma remote_step_inv:
  assumes "remote_step st P s s'" and "remote_inv ord P s"
  shows "remote_inv ord P s'"
  using assms
proof (induction rule: remote_step.induct)
  case (create e donor env ret mrid e' h)
  then have i: "mrs_ok ord (mrs e)" "ord = cfg_subblock_order (cfg e)" "pages_ok ord (memregs (mrs e)) h P"
    by (simp_all add: remote_inv_def)
  have "mrs_ok ord (mrs e') \<and> cfg_subblock_order (cfg e') = ord
      \<and> used_slots (memregs (mrs e')) = used_slots (memregs (mrs e))"
    using create_mr_ok [OF i(1,2) _ create(3,1)] create(2) i(2) by simp
  then show ?case using i(3) by (simp add: remote_inv_def pages_ok_def)
next
  case (alloc e h head dn m' h')
  then have "mrs_ok ord (mrs e)" "pages_ok ord (memregs (mrs e)) h P" "sb_order (h head) = ord"
    by (simp_all add: remote_inv_def)
  from alloc_remote_page_ok [OF this(1,2) alloc(2) this(3) alloc(4), of st] alloc show ?case
    by (auto simp: remote_inv_def)
next
  case (free e h p m' h')
  then have "mrs_ok ord (mrs e)" "pages_ok ord (memregs (mrs e)) h P" by (simp_all add: remote_inv_def)
  from free_remote_page4_spec [OF this free(2,3), of st] free show ?case by (auto simp: remote_inv_def)
next
  case (reorder h' h e)
  then show ?case by (simp add: remote_inv_def pages_ok_def)
qed

lemma remote_steps_inv:
  "(remote_step st P)\<^sup>*\<^sup>* s s' \<Longrightarrow> remote_inv ord P s \<Longrightarrow> remote_inv ord P s'"
  by (induction rule: rtranclp_induct) (auto intro: remote_step_inv)

text \<open>A fresh table, as \<^verbatim>\<open>donor_mgmt_init()\<close> and \<^verbatim>\<open>remote_page_init()\<close> leave it.\<close>

lemma remote_init_inv:
  assumes "donor_mgmt_init m0 True = (0, m1)" and "remote_page_init (cfg e) m1 = (0, m2)"
    and "\<forall>p \<in> P. \<not> has_page h p"
  shows "remote_inv (cfg_subblock_order (cfg e)) P (e\<lparr>mrs := m2\<rparr>, h)"
proof -
  have "memregs m2 = replicate 256 None" "memregs_last m2 = 0"
    using assms(1,2) by (auto simp: donor_mgmt_init_def remote_page_init_def Let_def split: if_splits)
  with assms(3) show ?thesis
    by (auto simp: remote_inv_def mrs_ok_def regions_res_def pages_ok_def inj_on_def)
qed

lemma remote_inv_distinct:
  assumes "remote_inv ord P (e, h)" and "p \<in> P" and "q \<in> P" and "p \<noteq> q"
    and "has_page h p" and "has_page h q"
  shows "word_slot ord (remote_page (h p)) \<noteq> word_slot ord (remote_page (h q))
    \<and> word_slot ord (remote_page (h p)) \<in> used_slots (memregs (mrs e))"
proof -
  have res: "regions_res ord (memregs (mrs e)) (\<lambda>_. 0)" and pg: "pages_ok ord (memregs (mrs e)) h P"
    using assms(1) by (simp_all add: remote_inv_def mrs_ok_def)
  from pg assms(2,5) obtain s where "s \<in> used_slots (memregs (mrs e))" "remote_page (h p) = slot_word ord s"
    unfolding pages_ok_def by blast
  moreover from pg assms(3,6) obtain t where
    "t \<in> used_slots (memregs (mrs e))" "remote_page (h q) = slot_word ord t"
    unfolding pages_ok_def by blast
  moreover have "remote_page (h p) \<noteq> remote_page (h q)"
    using pg assms(2-6) by (auto simp: pages_ok_def inj_on_def)
  ultimately show ?thesis using used_slot_facts(1) [OF res] by metis
qed

end
