(* ===== verification/Remote_Claims.thy ===== *)
theory Remote_Claims
  imports Remote_System
begin

text \<open>
  The properties of the remote memory: the words, the table of regions, the allocation and the release
  of remote pages, and the whole subsystem as a transition system.  The \<open>ex_\<close> definitions are the
  concrete states at which the properties are applied.
\<close>

section \<open>A concrete memory\<close>

definition ex_region :: "nat \<Rightarrow> memreg" where
  "ex_region i = \<lparr>mr_id = i, mr_size = 8, alloc_len = 0, alloc_bitmap = replicate 4 True,
     free_start = 0, alloc_next = 0, dma_order = 1, mr_kind = MR_MEM, has_wr_cache = True,
     conn_latency = 0\<rparr>"

definition ex_mrs :: "nat \<Rightarrow> emp_mrs" where
  "ex_mrs n = \<lparr>memregs = map (\<lambda>i. if i < n then Some (ex_region i) else None) [0 ..< 256],
     memregs_len = n, memregs_last = n, memregs_num_alloc = 0, memregs_last_alloc = 0,
     memregs_block_size = 2, memregs_wdma_size = 2, blockdev_used = False\<rparr>"

definition ex_cfg :: "nat \<Rightarrow> emp_config" where
  "ex_cfg policy = \<lparr>cfg_block_order = 3, cfg_subblock_order = 1, critical_page_first = False,
     eval_media = False, remote_reuse = True, remote_policy_subblock = policy,
     remote_policy_block = 1\<rparr>"

definition ex_gpa :: emp_gpa where
  "ex_gpa = \<lparr>gpa_lock = False, gpa_flags = 0, gpa_refcnt = 0, sb_order = 1, block_order = 3,
     max_block_order = 3, desc_order = 2, last_mr_id = 0, r_state = GPA_INIT,
     remote_page = FREE_REMOTE_PAGE_VAL, local_page = None\<rparr>"

definition ex_heap :: gpa_heap where "ex_heap p = ex_gpa"

lemma ex_region_res: "i < 255 \<Longrightarrow> region_res 1 i (ex_region i) 0"
proof -
  assume "i < 255"
  moreover have "zeros (replicate 4 True) = {}" by (auto simp: zeros_def)
  ultimately show ?thesis by (simp add: region_res_def ex_region_def mr_slots_def)
qed

lemma ex_mrs_ok: "n \<le> MAX_MRID \<Longrightarrow> mrs_ok 1 (ex_mrs n)"
  by (auto simp: mrs_ok_def ex_mrs_def regions_res_def MAX_MRID_def intro: ex_region_res [simplified])

lemma ex_mrs_simps [simp]:
  "memregs_last (ex_mrs n) = n" "memregs_last_alloc (ex_mrs n) = 0" "memregs_num_alloc (ex_mrs n) = 0"
  "i < 256 \<Longrightarrow> memregs (ex_mrs n) ! i = (if i < n then Some (ex_region i) else None)"
  "length (memregs (ex_mrs n)) = 256" "memregs_len (ex_mrs n) = n"
  by (simp_all add: ex_mrs_def)

lemma ex_mr_ids: "n \<le> 256 \<Longrightarrow> mr_ids (memregs (ex_mrs n)) = {..<n}"
  by (auto simp: mr_ids_def split: if_splits)

lemma ex_table_ok: "n \<le> MAX_MRID \<Longrightarrow> table_ok (ex_mrs n)"
proof -
  assume n: "n \<le> MAX_MRID"
  have "Max {..<n} = n - 1" if "0 < n"
    using that by (intro Max_eqI) auto
  with n show ?thesis by (auto simp: table_ok_def ex_mr_ids MAX_MRID_def lessThan_empty_iff)
qed

lemma ex_heap_simps [simp]:
  "num_subblock_in_block (ex_heap p) = 4" "sb_order (ex_heap p) = 1"
  "remote_page (ex_heap p) = FREE_REMOTE_PAGE_VAL"
  by (simp_all add: ex_heap_def ex_gpa_def num_subblock_in_block_def)

lemma ex_pages_ok: "pages_ok 1 t ex_heap P"
  by (auto simp: pages_ok_def is_remote_page_free_def inj_on_def)

lemma ex_alloc_pre: "alloc_pre (ex_cfg 1) (ex_mrs 2) ex_heap 0"
  by (simp add: alloc_pre_def ring_ok_def ex_cfg_def)

text \<open>Definitions that evaluate an allocation at a concrete state.\<close>

lemmas alloc_eval = alloc_remote_page_def alloc_remote_page2_def check_mr_change_def c_mod_def
  for_each_gpas_def is_remote_page_free_def upt_rec remote_page_policy_def
  remote_page_policy_same_mr_def lock_next_avail_mr_def mr_scan.simps mr_has_room_def Let_def the_mr_def
  mr_slots_def drop_bit_eq_div mr_take_slot_def mr_find_slot_def find_next_bit_def mr_charge_def
  upd_mr_def set_last_alloc_def make_remote_page_val_def nth_list_update FREE_REMOTE_PAGE_VAL_def
  REMOTE_PAGE_MRID_SHIFT_def REMOTE_PAGE_OFFSET_SHIFT_def push_bit_eq_mult

definition ex_store :: cow_store where "ex_store a = \<lparr>crp_refcnt = 0, crp_remote_page = 0\<rparr>"

definition ex_emm :: "emp_mrs \<Rightarrow> emm_mr" where
  "ex_emm m = \<lparr>mrs = m, cfg = ex_cfg 1, open_conns = 0, live_mrs = 0, live_bitmaps = 0,
     live_wr_caches = 0\<rparr>"

definition ex_init :: emp_mrs where
  "ex_init = snd (remote_page_init (ex_cfg 1) (snd (donor_mgmt_init (ex_mrs 0) True)))"

definition ex_donor :: donor_info where "ex_donor = \<lparr>dev_type = DONOR_DEV_MEMDEV, donor_size = 1\<rparr>"

definition ex_env :: create_env where
  "ex_env = \<lparr>conn_ret = 0, mr_alloc_ok = True, bitmap_alloc_ok = True, wr_cache_ok = True\<rparr>"

definition ex_created :: emm_mr where
  "ex_created = snd (snd (create_mr (ex_emm ex_init) ex_donor ex_env))"

lemma ex_init_simps [simp]:
  "memregs ex_init = replicate 256 None" "memregs_last ex_init = 0" "memregs_last_alloc ex_init = 0"
  "memregs_num_alloc ex_init = 0"
  by (simp_all add: ex_init_def remote_page_init_def donor_mgmt_init_def ex_cfg_def Let_def
      push_bit_eq_mult)

lemma ex_create: "create_mr (ex_emm ex_init) ex_donor ex_env = (0, Some 0, ex_created)"
  and ex_created_simps [simp]:
  "memregs (mrs ex_created) = (replicate 256 None)[0 := Some ((init_memreg (ex_cfg 1) 1 MR_MEM)
     \<lparr>mr_id := 0, has_wr_cache := True\<rparr>)]"
  "memregs_last (mrs ex_created) = 1" "memregs_last_alloc (mrs ex_created) = 0"
  "memregs_num_alloc (mrs ex_created) = 0" "cfg ex_created = ex_cfg 1"
  by (simp_all add: ex_created_def create_mr_def ex_donor_def ex_env_def dma_ops_known_def ex_emm_def
      alloc_mrid_def find_free_mrid.simps MAX_MRID_def Let_def ex_cfg_def)

lemma ex_created_alloc:
  "\<exists>m' h'. alloc_remote_page (ex_cfg 1) ex_store (mrs ex_created) ex_heap 0 = Some (True, m', h')
     \<and> remote_page (h' 0) = 0 \<and> remote_page (h' 1) = 8"
  by (simp add: alloc_eval ex_cfg_def init_memreg_def MB_TO_PAGE_def)

section \<open>Properties\<close>

text \<open>
  C1: In every state the remote memory reaches from its initialisation, through any sequence of the steps of
  \<^verbatim>\<open>remote_step\<close>, two different descriptors hold pages in different slots, and each slot held exists in the
  table of regions and is marked used.  The steps are: \<^verbatim>\<open>create_mr()\<close> with any outcome, for a donor of a whole
  number of subblocks and less than \<open>2 ^ 54\<close> pages; an allocation for a block of the configured subblock
  order by one of the three policies; the release of a page; a reshaping of blocks, which keeps every remote
  word.  Two allocations are left out, because there the code itself goes wrong: a rotation of the regions
  when there is none (\<^verbatim>\<open>__alloc_remote_page()\<close> divides by zero; excluded by \<^verbatim>\<open>ring_ok\<close>), and the different-regions
  policy with a single region that has room for a part of the block only (the bit past the bitmap is
  handed out, the case of \<^verbatim>\<open>diff_mr_single_region_overrun\<close>; excluded by \<^verbatim>\<open>diff_mr_safe\<close>).
\<close>

theorem remote_slots_never_shared:
  assumes "donor_mgmt_init m0 True = (0, m1)" and "remote_page_init (cfg e) m1 = (0, m2)"
    and "\<forall>p \<in> P. \<not> has_page h p"
    and "(remote_step st P)\<^sup>*\<^sup>* (e\<lparr>mrs := m2\<rparr>, h) (e', h')"
    and "p \<in> P" and "q \<in> P" and "p \<noteq> q" and "has_page h' p" and "has_page h' q"
  shows "word_slot (cfg_subblock_order (cfg e)) (remote_page (h' p))
      \<noteq> word_slot (cfg_subblock_order (cfg e)) (remote_page (h' q))
    \<and> word_slot (cfg_subblock_order (cfg e)) (remote_page (h' p)) \<in> used_slots (memregs (mrs e'))"
  using remote_inv_distinct [OF remote_steps_inv [OF assms(4) remote_init_inv [OF assms(1-3)]]]
    assms(5-9) by blast

lemma ex_reach:
  "\<exists>e' h'. (remote_step ex_store {0, 1, 2, 3})\<^sup>*\<^sup>* (ex_emm ex_init, ex_heap) (e', h')
     \<and> has_page h' 0 \<and> has_page h' 1"
proof -
  obtain m' h' where a: "alloc_remote_page (ex_cfg 1) ex_store (mrs ex_created) ex_heap 0 = Some (True, m', h')"
    "remote_page (h' 0) = 0" "remote_page (h' 1) = 8" using ex_created_alloc by blast
  have "remote_step ex_store {0, 1, 2, 3} (ex_emm ex_init, ex_heap) (ex_created, ex_heap)"
    by (rule remote_step.create [OF ex_create])
       (simp_all add: ex_emm_def ex_cfg_def MB_TO_PAGE_def ex_donor_def)
  moreover have "alloc_pre (ex_cfg 1) (mrs ex_created) ex_heap 0"
    by (simp add: alloc_pre_def ring_ok_def ex_cfg_def)
  then have "remote_step ex_store {0, 1, 2, 3} (ex_created, ex_heap) (ex_created\<lparr>mrs := m'\<rparr>, h')"
    using a(1) by (intro remote_step.alloc [where head = 0 and dn = True])
      (auto simp: ex_cfg_def block_gpas_def)
  ultimately have "(remote_step ex_store {0, 1, 2, 3})\<^sup>*\<^sup>* (ex_emm ex_init, ex_heap) (ex_created\<lparr>mrs := m'\<rparr>, h')"
    by (meson converse_rtranclp_into_rtranclp r_into_rtranclp)
  moreover have "has_page h' 0" "has_page h' 1"
    unfolding is_remote_page_free_def a(2,3) by (simp_all add: FREE_REMOTE_PAGE_VAL_def)
  ultimately show ?thesis by blast
qed

lemma remote_slots_never_shared_witness:
  "\<exists>e' h'. (remote_step ex_store {0, 1, 2, 3})\<^sup>*\<^sup>* (ex_emm ex_init, ex_heap) (e', h')
     \<and> word_slot 1 (remote_page (h' 0)) \<noteq> word_slot 1 (remote_page (h' 1))"
proof -
  obtain e' h' where r: "(remote_step ex_store {0, 1, 2, 3})\<^sup>*\<^sup>* (ex_emm ex_init, ex_heap) (e', h')"
    "has_page h' 0" "has_page h' 1" using ex_reach by blast
  have i: "donor_mgmt_init (ex_mrs 0) True = (0, snd (donor_mgmt_init (ex_mrs 0) True))"
    "remote_page_init (cfg (ex_emm ex_init)) (snd (donor_mgmt_init (ex_mrs 0) True)) = (0, ex_init)"
    "(ex_emm ex_init)\<lparr>mrs := ex_init\<rparr> = ex_emm ex_init" "cfg_subblock_order (cfg (ex_emm ex_init)) = 1"
    by (simp_all add: ex_init_def donor_mgmt_init_def remote_page_init_def ex_emm_def ex_cfg_def Let_def
        push_bit_eq_mult)
  have "\<forall>p \<in> {0, 1, 2, 3}. \<not> has_page ex_heap p" by (simp add: is_remote_page_free_def)
  from remote_slots_never_shared [OF i(1,2) this, of ex_store e' h' 0 1] i(3,4) r show ?thesis by auto
qed

text \<open>
  C2: In a consistent state, with a start region inside the table and, for the diff-mr policy with a
  single region, no shortage, the allocation of a block returns.  It keeps the table and the pages
  consistent, leaves other blocks alone, and keeps the pages a block already had.  On success every
  subblock has a page.  On failure no subblock keeps one, unless pages are reused, and then no region
  had the room that the policy asks for.
\<close>

theorem alloc_remote_page_total:
  assumes "mrs_ok ord m" and "pages_ok ord (memregs m) h P" and "block_gpas h head \<subseteq> P"
    and "sb_order (h head) = ord" and "alloc_pre c m h head"
  shows "\<exists>dn m' h'. alloc_remote_page c st m h head = Some (dn, m', h')
    \<and> mrs_ok ord m' \<and> pages_ok ord (memregs m') h' P \<and> ring_ok c m'
    \<and> (\<forall>p. p \<notin> block_gpas h head \<or> dn \<and> has_page h p \<longrightarrow> h' p = h p)
    \<and> (dn \<longrightarrow> (\<forall>p \<in> block_gpas h head. has_page h' p))
    \<and> (\<not> dn \<and> \<not> remote_reuse c \<longrightarrow> (\<forall>p \<in> block_gpas h head. \<not> has_page h' p))
    \<and> (\<not> dn \<and> remote_reuse c \<longrightarrow> (\<forall>j<memregs_last m. \<not> mr_has_room (memregs m' ! j)
         (policy_need (remote_policy_subblock c) ord (num_subblock_in_block (h head)))))"
  by (rule alloc_remote_page_ok [OF assms])

lemma alloc_remote_page_total_witness:
  "\<exists>dn m' h'. alloc_remote_page (ex_cfg 1) ex_store (ex_mrs 2) ex_heap 0 = Some (dn, m', h')
     \<and> mrs_ok 1 m'"
proof -
  have "alloc_pre (ex_cfg 1) (ex_mrs 2) ex_heap 0" "mrs_ok 1 (ex_mrs 2)"
    by (rule ex_alloc_pre) (rule ex_mrs_ok, simp add: MAX_MRID_def)
  from alloc_remote_page_total [OF this(2) ex_pages_ok subset_UNIV ex_heap_simps(2) this(1)]
  show ?thesis by blast
qed

text \<open>
  C3: Giving back the page of a descriptor always works: the slot the word names becomes free and no
  other, the descriptor is left without a page, and the table and the other pages stay consistent.
\<close>

theorem release_returns_slot:
  assumes "mrs_ok ord m" and "pages_ok ord (memregs m) h P" and "p \<in> P" and "has_page h p"
  shows "\<exists>m'. free_remote_page4 st m h p = Some (m', h(p := (h p)\<lparr>remote_page := FREE_REMOTE_PAGE_VAL\<rparr>))
    \<and> mrs_ok ord m' \<and> pages_ok ord (memregs m') (h(p := (h p)\<lparr>remote_page := FREE_REMOTE_PAGE_VAL\<rparr>)) P
    \<and> used_slots (memregs m') = used_slots (memregs m) - {word_slot ord (remote_page (h p))}"
  using free_remote_page4_spec [OF assms, of st] by (auto simp: set_rp_def)

lemma release_returns_slot_witness:
  "\<exists>m h m'. free_remote_page4 ex_store m h 0 = Some (m', h(0 := (h 0)\<lparr>remote_page := FREE_REMOTE_PAGE_VAL\<rparr>))
     \<and> mrs_ok 1 m'"
proof -
  obtain m h where a: "alloc_remote_page (ex_cfg 1) ex_store (ex_mrs 2) ex_heap 0 = Some (True, m, h)"
    "has_page h 0"
    by (simp add: alloc_eval ex_cfg_def ex_region_def)
  have pre: "alloc_pre (ex_cfg 1) (ex_mrs 2) ex_heap 0" "mrs_ok 1 (ex_mrs 2)"
    by (rule ex_alloc_pre) (rule ex_mrs_ok, simp add: MAX_MRID_def)
  from alloc_remote_page_ok [OF this(2) ex_pages_ok subset_UNIV ex_heap_simps(2) this(1), of ex_store] a(1)
  have "mrs_ok 1 m" "pages_ok 1 (memregs m) h UNIV" by auto
  from release_returns_slot [OF this UNIV_I a(2), of ex_store] show ?thesis by blast
qed

text \<open>
  C17: Adding a donor is all or nothing.  A failure gives back everything it took and leaves the table
  and the configuration alone.  Success enters a region of the requested size, with no slot used,
  under the id it reports, or reports the reserved id 255 and enters nothing.  The table stays
  consistent either way, and the used slots are the same.
\<close>

theorem create_mr_all_or_nothing:
  assumes "mrs_ok ord (mrs e)" and "ord = cfg_subblock_order (cfg e)"
    and "2 ^ ord dvd MB_TO_PAGE (donor_size donor)" and "MB_TO_PAGE (donor_size donor) < 2 ^ 54"
    and "create_mr e donor env = (ret, mrid, e')"
  shows "mrs_ok ord (mrs e') \<and> used_slots (memregs (mrs e')) = used_slots (memregs (mrs e))
    \<and> (ret = 0 \<longrightarrow> (\<exists>i. mrid = Some i \<and> (i = 255 \<and> memregs (mrs e') = memregs (mrs e) \<or>
         i < MAX_MRID \<and> memregs (mrs e) ! i = None \<and> (\<exists>r. memregs (mrs e') ! i = Some r
           \<and> mr_size r = MB_TO_PAGE (donor_size donor) \<and> mr_id r = i))))
    \<and> (ret \<noteq> 0 \<longrightarrow> mrid = None \<and> holdings e' = holdings e
         \<and> memregs (mrs e') = memregs (mrs e) \<and> cfg e' = cfg e)"
  using create_mr_ok [OF assms] by blast

lemma ex_init_ok: "mrs_ok 1 ex_init"
  by (simp add: mrs_ok_def regions_res_def)

lemma create_mr_all_or_nothing_witness:
  "mrs_ok 1 (mrs ex_created) \<and> used_slots (memregs (mrs ex_created)) = used_slots (memregs ex_init)"
  using create_mr_all_or_nothing [OF _ _ _ _ ex_create, of 1] ex_init_ok
  by (simp add: ex_emm_def ex_cfg_def MB_TO_PAGE_def ex_donor_def)

text \<open>
  C18: With all ids in use, a donor is still reported as added, with the reserved id 255, although no
  entry of the table refers to the new region: the test for a negative id never fires, because the
  id was returned as an unsigned byte.
\<close>

theorem create_mr_without_id:
  assumes "mrs_ok ord (mrs e)" and "\<forall>i < MAX_MRID. memregs (mrs e) ! i \<noteq> None"
    and "dma_ops_known (dev_type donor) \<noteq> None" and "conn_ret env = 0" and "mr_alloc_ok env"
    and "bitmap_alloc_ok env" and "wr_cache_ok env"
  shows "\<exists>e'. create_mr e donor env = (0, Some 255, e') \<and> memregs (mrs e') = memregs (mrs e)
    \<and> memregs (mrs e') ! 255 = None \<and> live_mrs e' = live_mrs e + 1"
  by (rule create_mr_full [OF assms])

lemma create_mr_without_id_witness:
  "\<exists>e'. create_mr (ex_emm (ex_mrs 254)) ex_donor ex_env = (0, Some 255, e') \<and> live_mrs e' = 1"
proof -
  have m: "mrs (ex_emm (ex_mrs 254)) = ex_mrs 254" "live_mrs (ex_emm (ex_mrs 254)) = 0"
    by (simp_all add: ex_emm_def)
  have "mrs_ok 1 (mrs (ex_emm (ex_mrs 254)))" unfolding m by (rule ex_mrs_ok) (simp add: MAX_MRID_def)
  from create_mr_without_id [OF this, of ex_donor ex_env] show ?thesis
    by (simp add: m MAX_MRID_def ex_donor_def ex_env_def dma_ops_known_def) blast
qed

text \<open>
  C19: Taking an id from a consistent table picks the lowest free one, keeps the table consistent and
  changes nothing else; giving it back restores the table, the number of regions and its bound.
\<close>

theorem mrid_take_and_give_back:
  assumes "table_ok m" and "alloc_mrid m mr = (i, m')" and "i \<noteq> 255"
  shows "table_ok m' \<and> i < MAX_MRID \<and> memregs m ! i = None \<and> (\<forall>k<i. memregs m ! k \<noteq> None)
    \<and> memregs m' = (memregs m)[i := Some mr]
    \<and> fst (free_mrid m' i) = Some mr \<and> memregs (snd (free_mrid m' i)) = memregs m
    \<and> memregs_len (snd (free_mrid m' i)) = memregs_len m
    \<and> memregs_last (snd (free_mrid m' i)) = memregs_last m"
proof -
  note a = alloc_mrid_ok [OF assms]
  have len: "i < length (memregs m)" using a assms(1) by (simp add: table_ok_def MAX_MRID_def)
  have t: "memregs (snd (free_mrid m' i)) = memregs m" "fst (free_mrid m' i) = Some mr"
    using a len by (auto simp: free_mrid_def Let_def) (metis list_update_id)+
  have "table_ok (snd (free_mrid m' i))" using free_mrid_ok [of m' i] a by (simp add: MAX_MRID_def)
  with assms(1) t have "memregs_len (snd (free_mrid m' i)) = memregs_len m"
    "memregs_last (snd (free_mrid m' i)) = memregs_last m" by (simp_all add: table_ok_def)
  with a t show ?thesis by simp
qed

lemma mrid_take_and_give_back_witness:
  "fst (alloc_mrid (ex_mrs 2) (ex_region 9)) = 2
     \<and> memregs (snd (free_mrid (snd (alloc_mrid (ex_mrs 2) (ex_region 9))) 2)) = memregs (ex_mrs 2)"
proof -
  have "find_free_mrid (memregs (ex_mrs 2)) 0 = Some 2"
    by (simp add: find_free_mrid.simps MAX_MRID_def numeral_2_eq_2)
  then have a: "alloc_mrid (ex_mrs 2) (ex_region 9) = (2, snd (alloc_mrid (ex_mrs 2) (ex_region 9)))"
    by (simp add: alloc_mrid_def)
  from mrid_take_and_give_back [OF ex_table_ok a] show ?thesis
    using a by (simp add: MAX_MRID_def prod_eq_iff)
qed

text \<open>
  With no region in the table, an allocation that is due to change the region has no result: the
  code divides by the number of regions.
\<close>

theorem alloc_without_region_undefined:
  assumes "memregs_last m = 0" and "remote_policy_block c \<noteq> 0"
    and "memregs_num_alloc m mod remote_policy_block c = 0"
    and "\<not> list_all (has_page h) (for_each_gpas h head)"
  shows "alloc_remote_page c st m h head = None"
  by (rule alloc_remote_page_no_region [OF assms])

lemma alloc_without_region_undefined_witness:
  "alloc_remote_page (ex_cfg 1) ex_store (ex_mrs 0) ex_heap 0 = None"
  by (rule alloc_without_region_undefined)
     (simp_all add: ex_cfg_def for_each_gpas_def upt_rec is_remote_page_free_def)

text \<open>
  C20: With a single region, the diff-mr policy looks at its room once and then stays on it: a block
  with fewer free slots left than subblocks drives it past the end of the bitmap.
\<close>

theorem diff_mr_single_region_overrun:
  assumes "mrs_ok (sb_order (h head)) m" and "memregs_last m = 1"
    and "mr_has_room (memregs m ! 0) (2 ^ sb_order (h head))"
    and "\<forall>p \<in> block_gpas h head. \<not> has_page h p"
    and "\<not> slack (sb_order (h head)) m 0 (num_subblock_in_block (h head))"
  shows "remote_page_policy_diff_mr m h head 0 = None"
  by (rule diff_mr_overrun [OF assms])

definition ex_wide :: gpa_heap where "ex_wide p = ex_gpa\<lparr>block_order := 4, max_block_order := 4, desc_order := 3\<rparr>"

lemma diff_mr_single_region_overrun_witness:
  "remote_page_policy_diff_mr (ex_mrs 1) ex_wide 0 0 = None"
proof -
  have w: "sb_order (ex_wide 0) = 1" "num_subblock_in_block (ex_wide 0) = 8"
    "remote_page (ex_wide p) = FREE_REMOTE_PAGE_VAL" for p
    by (simp_all add: ex_wide_def ex_gpa_def num_subblock_in_block_def)
  have "mrs_ok (sb_order (ex_wide 0)) (ex_mrs 1)" unfolding w by (rule ex_mrs_ok) (simp add: MAX_MRID_def)
  then show ?thesis
    by (rule diff_mr_single_region_overrun)
       (simp_all add: w mr_has_room_def ex_region_def is_remote_page_free_def slack_def mr_slots_def
          zeros_def drop_bit_eq_div)
qed

text \<open>
  C21: The word built for region \<open>m\<close> and offset \<open>off\<close> reads back as that region and offset, is not
  tagged as shared, and for every id but the reserved one differs from the word of a missing page.
\<close>

theorem remote_word_roundtrip:
  assumes "m < 256" and "unat off < 2 ^ 54"
  shows "unat (get_remote_page_mrid st (make_remote_page_val (int m) off)) = m
    \<and> get_remote_page_offset st (make_remote_page_val (int m) off) = off
    \<and> \<not> is_remote_page_cow (make_remote_page_val (int m) off)
    \<and> (m \<noteq> 255 \<longrightarrow> \<not> is_remote_page_free (make_remote_page_val (int m) off))"
proof -
  have "unat (ucast (of_nat m :: u64) :: u8) = m"
    using assms(1) by (simp add: unsigned_ucast_eq unsigned_of_nat take_bit_nat_eq_self)
  moreover have "m \<noteq> 255 \<longrightarrow> make_remote_page_val (int m) off \<noteq> FREE_REMOTE_PAGE_VAL"
    using make_val_not_free [of m off] assms by auto
  ultimately show ?thesis
    using raw_mrid_make [OF assms] raw_offset_make [OF assms(2), of m]
    by (simp add: get_remote_page_mrid_def get_remote_page_offset_def get_rp_val_def
        is_remote_page_free_def)
qed

lemma remote_word_roundtrip_witness:
  "get_remote_page_offset ex_store (make_remote_page_val 254 12345) = 12345"
  using remote_word_roundtrip [of 254 12345 ex_store] by simp

text \<open>
  A word that is made to point to a shared record is recognised as such and gives the record's
  address back, and reading region or offset through it reads the record's word.
\<close>

theorem cow_pointer_roundtrip:
  assumes "cow AND REMOTE_PAGE_FLAG_MASK = 0"
  shows "is_remote_page_cow (set_remote_page_cow rp cow)
    \<and> get_remote_page_cow (set_remote_page_cow rp cow) = cow
    \<and> get_rp_val st (set_remote_page_cow rp cow) = crp_remote_page (st cow)"
  using cow_tag_roundtrip [OF assms, of rp] by (simp add: get_rp_val_def)

lemma cow_pointer_roundtrip_witness:
  "get_remote_page_cow (set_remote_page_cow 0 0xffff888000001000) = 0xffff888000001000"
  using cow_pointer_roundtrip [of "0xffff888000001000" 0 ex_store]
  by (simp add: REMOTE_PAGE_FLAG_MASK_def)

end
