(* ===== verification/Local_Page.thy ===== *)
theory Local_Page
  imports Gpa
begin

text \<open>
  \<^verbatim>\<open>struct local_page\<close> (\<^verbatim>\<open>src/module_gpl/local_page.h\<close>, \<^verbatim>\<open>local_page.c\<close>): the local backing of a
  subblock, its place on the page lists (a flag word and a cpu) and the set of its mappers.

  The mappers are a circular list through the embedded entry \<open>lp->pmds\<close>.  \<open>lp_next = None\<close> is the
  NULL of an empty list, \<open>Some rest\<close> the entries behind the embedded one in list order, up to the
  link back to it: \<open>Some []\<close> is the entry that points to itself.  An entry behind the embedded one is
  one object of the entry cache, so that inserting and removing it allocates and frees it.
\<close>

section \<open>Flags and cpu\<close>

definition LOCAL_PAGE_ON_MRU :: nat where "LOCAL_PAGE_ON_MRU = 0"
definition LOCAL_PAGE_ON_LRU :: nat where "LOCAL_PAGE_ON_LRU = 1"
definition LOCAL_PAGE_ON_GLOBAL :: nat where "LOCAL_PAGE_ON_GLOBAL = 2"
definition LOCAL_PAGE_ON_PIN :: nat where "LOCAL_PAGE_ON_PIN = 3"

definition LOCAL_PAGE_ON_LIST_MASK :: u32 where
  "LOCAL_PAGE_ON_LIST_MASK =
     push_bit LOCAL_PAGE_ON_MRU 1 OR push_bit LOCAL_PAGE_ON_LRU 1 OR push_bit LOCAL_PAGE_ON_GLOBAL 1"

definition EMP_UNKNOWN_CPU_ID :: int where "EMP_UNKNOWN_CPU_ID = - 32768"

record mapped_pmd =
  mp_vmr :: "nat option"
  mp_pmd :: "nat option"

record local_page =
  lp_gpa :: nat
  lp_page :: nat
  sptep :: "nat option"
  lp_flags :: u32
  gpa_index :: nat
  num_pmds :: int
  page_map_count :: int
  lp_pmds :: mapped_pmd
  lp_next :: "mapped_pmd list option"
  lp_cpu :: int
  demand_offset :: nat
  lp_w :: "nat option"

definition is_local_page_flags :: "local_page \<Rightarrow> nat \<Rightarrow> bool" where
  "is_local_page_flags lp i \<longleftrightarrow> lp_flags lp AND push_bit i 1 \<noteq> 0"

definition set_local_page_flags :: "local_page \<Rightarrow> nat \<Rightarrow> local_page" where
  "set_local_page_flags lp i = lp\<lparr>lp_flags := lp_flags lp OR push_bit i 1\<rparr>"

definition clear_local_page_flags :: "local_page \<Rightarrow> nat \<Rightarrow> local_page" where
  "clear_local_page_flags lp i = lp\<lparr>lp_flags := lp_flags lp AND NOT (push_bit i 1)\<rparr>"

definition set_local_page_list_flags :: "local_page \<Rightarrow> nat \<Rightarrow> local_page" where
  "set_local_page_list_flags lp i = lp\<lparr>lp_flags := lp_flags lp OR push_bit i 1\<rparr>"

definition is_local_page_on_list :: "local_page \<Rightarrow> bool" where
  "is_local_page_on_list lp \<longleftrightarrow> lp_flags lp AND LOCAL_PAGE_ON_LIST_MASK \<noteq> 0"

definition clear_local_page_list_flags :: "local_page \<Rightarrow> local_page" where
  "clear_local_page_list_flags lp = lp\<lparr>lp_flags := lp_flags lp AND NOT LOCAL_PAGE_ON_LIST_MASK\<rparr>"

definition set_local_page_cpu_list :: "local_page \<Rightarrow> int \<Rightarrow> nat \<Rightarrow> local_page" where
  "set_local_page_cpu_list lp cpu_id i = set_local_page_list_flags (lp\<lparr>lp_cpu := cpu_id\<rparr>) i"

definition set_local_page_cpu_only :: "local_page \<Rightarrow> int \<Rightarrow> local_page" where
  "set_local_page_cpu_only lp cpu_id = clear_local_page_list_flags (lp\<lparr>lp_cpu := cpu_id\<rparr>)"

definition set_local_page_cpu_pin :: "local_page \<Rightarrow> int \<Rightarrow> local_page" where
  "set_local_page_cpu_pin lp cpu_id =
     set_local_page_flags (lp\<lparr>lp_cpu := cpu_id\<rparr>) LOCAL_PAGE_ON_PIN"

definition set_local_page_cpu_flag_list :: "local_page list \<Rightarrow> int \<Rightarrow> nat \<Rightarrow> local_page list" where
  "set_local_page_cpu_flag_list ls cpu_id i = map (\<lambda>lp. set_local_page_cpu_list lp cpu_id i) ls"

definition set_local_page_flag_list :: "local_page list \<Rightarrow> nat \<Rightarrow> local_page list" where
  "set_local_page_flag_list ls i = map (\<lambda>lp. set_local_page_list_flags lp i) ls"

section \<open>Mappers\<close>

definition INIT_MAPPED_PMD :: "local_page \<Rightarrow> local_page" where
  "INIT_MAPPED_PMD lp = lp\<lparr>lp_next := None, lp_pmds := \<lparr>mp_vmr = None, mp_pmd = None\<rparr>\<rparr>"

definition EMP_LP_PMDS_EMPTY :: "local_page \<Rightarrow> bool" where
  "EMP_LP_PMDS_EMPTY lp \<longleftrightarrow> lp_next lp = None"

definition EMP_LP_PMDS_SINGLE :: "local_page \<Rightarrow> bool" where
  "EMP_LP_PMDS_SINGLE lp \<longleftrightarrow> lp_next lp = Some []"

definition emp_lp_owner :: "local_page \<Rightarrow> nat option" where
  "emp_lp_owner lp = mp_vmr (lp_pmds lp)"

definition emp_lp_set_owner :: "local_page \<Rightarrow> nat \<Rightarrow> local_page" where
  "emp_lp_set_owner lp vmr = lp\<lparr>lp_pmds := (lp_pmds lp)\<lparr>mp_vmr := Some vmr\<rparr>\<rparr>"

definition emp_lp_clear_owner :: "local_page \<Rightarrow> local_page" where
  "emp_lp_clear_owner lp = lp\<lparr>lp_pmds := (lp_pmds lp)\<lparr>mp_vmr := None\<rparr>\<rparr>"

text \<open>The entries a walk of the circle meets, the embedded one first.\<close>

definition lp_entries :: "local_page \<Rightarrow> mapped_pmd list" where
  "lp_entries lp = (case lp_next lp of None \<Rightarrow> [] | Some rest \<Rightarrow> lp_pmds lp # rest)"

fun promote_walk :: "mapped_pmd \<Rightarrow> nat \<Rightarrow> mapped_pmd list \<Rightarrow> (mapped_pmd \<times> mapped_pmd list) option" where
  "promote_walk e vmr [] = None"
| "promote_walk e vmr (p # ps) =
     (if mp_vmr p = Some vmr then Some (p, e # ps)
      else map_option (\<lambda>(e', ps'). (e', p # ps')) (promote_walk e vmr ps))"

text \<open>
  The walk starts behind the embedded entry; with the list empty, \<^verbatim>\<open>p->next\<close> is NULL and the C code
  would dereference it: \<open>None\<close>.
\<close>

definition emp_lp_promote_owner :: "local_page \<Rightarrow> nat \<Rightarrow> local_page option" where
  "emp_lp_promote_owner lp vmr =
     (if emp_lp_owner lp = Some vmr then Some lp
      else case lp_next lp of
        None \<Rightarrow> None
      | Some rest \<Rightarrow>
          (case promote_walk (lp_pmds lp) vmr rest of
             None \<Rightarrow> Some lp
           | Some (e, rest') \<Rightarrow> Some (lp\<lparr>lp_pmds := e, lp_next := Some rest'\<rparr>)))"

definition emp_lp_lookup_pmd :: "local_page option \<Rightarrow> nat \<Rightarrow> nat option" where
  "emp_lp_lookup_pmd l vmr =
     (case l of
        None \<Rightarrow> None
      | Some lp \<Rightarrow>
          if EMP_LP_PMDS_EMPTY lp then None
          else case find (\<lambda>p. mp_vmr p = Some vmr) (lp_entries lp) of
                 None \<Rightarrow> None | Some p \<Rightarrow> mp_pmd p)"

definition emp_lp_lookup_vmr :: "local_page option \<Rightarrow> nat \<Rightarrow> bool" where
  "emp_lp_lookup_vmr l vmr =
     (case l of
        None \<Rightarrow> False
      | Some lp \<Rightarrow>
          \<not> EMP_LP_PMDS_EMPTY lp \<and> find (\<lambda>p. mp_vmr p = Some vmr) (lp_entries lp) \<noteq> None)"

text \<open>The iterators hand out positions in \<open>lp_entries\<close>.\<close>

definition emp_lp_first_mapped_pmd :: "local_page \<Rightarrow> nat option" where
  "emp_lp_first_mapped_pmd lp = (if EMP_LP_PMDS_EMPTY lp then None else Some 0)"

definition emp_lp_next_mapped_pmd :: "local_page \<Rightarrow> nat \<Rightarrow> nat option" where
  "emp_lp_next_mapped_pmd lp i = (if Suc i = length (lp_entries lp) then None else Some (Suc i))"

definition emp_lp_insert_pmd :: "bool \<Rightarrow> local_page \<Rightarrow> nat \<Rightarrow> nat \<Rightarrow> bool \<times> local_page" where
  "emp_lp_insert_pmd alloc_ok lp vmr pmd =
     (case lp_next lp of
        None \<Rightarrow>
          (True, lp\<lparr>lp_pmds := \<lparr>mp_vmr = Some vmr, mp_pmd = Some pmd\<rparr>, lp_next := Some [],
                    num_pmds := num_pmds lp + 1\<rparr>)
      | Some rest \<Rightarrow>
          if find (\<lambda>p. mp_vmr p = Some vmr) (lp_pmds lp # rest) \<noteq> None then (True, lp)
          else if \<not> alloc_ok then (False, lp)
          else (True, lp\<lparr>lp_next := Some (\<lparr>mp_vmr = Some vmr, mp_pmd = Some pmd\<rparr> # rest),
                         num_pmds := num_pmds lp + 1\<rparr>))"

fun pop_walk :: "nat \<Rightarrow> mapped_pmd list \<Rightarrow> (nat option \<times> mapped_pmd list) option" where
  "pop_walk vmr [] = None"
| "pop_walk vmr (p # ps) =
     (if mp_vmr p = Some vmr then Some (mp_pmd p, ps)
      else map_option (\<lambda>(r, ps'). (r, p # ps')) (pop_walk vmr ps))"

definition emp_lp_pop_pmd :: "local_page \<Rightarrow> nat \<Rightarrow> nat option \<times> local_page" where
  "emp_lp_pop_pmd lp vmr =
     (case lp_next lp of
        None \<Rightarrow> (None, lp)
      | Some rest \<Rightarrow>
          if mp_vmr (lp_pmds lp) = Some vmr then
            (mp_pmd (lp_pmds lp),
             case rest of
               np # rest' \<Rightarrow>
                 lp\<lparr>lp_pmds := np, lp_next := Some rest', num_pmds := num_pmds lp - 1\<rparr>
             | [] \<Rightarrow>
                 lp\<lparr>lp_pmds := (lp_pmds lp)\<lparr>mp_pmd := None\<rparr>, lp_next := None,
                    num_pmds := num_pmds lp - 1\<rparr>)
          else
            (case pop_walk vmr rest of
               None \<Rightarrow> (None, lp)
             | Some (r, rest') \<Rightarrow>
                 (r, lp\<lparr>lp_next := Some rest', num_pmds := num_pmds lp - 1\<rparr>)))"

definition emp_lp_remove_pmd :: "local_page \<Rightarrow> nat \<Rightarrow> bool \<times> local_page" where
  "emp_lp_remove_pmd lp vmr = (let (r, lp') = emp_lp_pop_pmd lp vmr in (r \<noteq> None, lp'))"

definition emp_lp_count_pmd :: "local_page \<Rightarrow> int" where
  "emp_lp_count_pmd lp = num_pmds lp"

section \<open>Creation\<close>

record page_info =
  pg_mlocked :: bool
  pg_private :: nat

definition emp_init_local_page :: "local_page \<Rightarrow> nat \<Rightarrow> nat \<Rightarrow> nat \<Rightarrow> local_page" where
  "emp_init_local_page lp vmr gi page =
     (let lp = lp\<lparr>lp_page := page, sptep := None, lp_flags := 0, gpa_index := gi, num_pmds := 0\<rparr>;
          lp = INIT_MAPPED_PMD lp;
          lp = lp\<lparr>lp_pmds := (lp_pmds lp)\<lparr>mp_vmr := Some vmr\<rparr>\<rparr>;
          lp = set_local_page_cpu_only lp EMP_UNKNOWN_CPU_ID
      in lp\<lparr>demand_offset := 0, page_map_count := 0, lp_w := None\<rparr>)"

text \<open>\<open>raw\<close> is the object the cache returns, with arbitrary content, or \<open>None\<close> for NULL.\<close>

definition alloc_local_page :: "local_page option \<Rightarrow> (nat \<Rightarrow> page_info) \<Rightarrow> nat \<Rightarrow> nat \<Rightarrow> nat \<Rightarrow> nat
    \<Rightarrow> local_page option \<times> (nat \<Rightarrow> page_info)" where
  "alloc_local_page raw pages vmr page gpa_offset gpa =
     (case raw of
        None \<Rightarrow> (None, pages)
      | Some lp \<Rightarrow>
          (Some ((emp_init_local_page lp vmr gpa_offset page)\<lparr>lp_gpa := gpa\<rparr>),
           pages(page := \<lparr>pg_mlocked = True, pg_private = gpa\<rparr>)))"

section \<open>Legal states\<close>

definition entry_full :: "mapped_pmd \<Rightarrow> bool" where
  "entry_full p \<longleftrightarrow> mp_vmr p \<noteq> None \<and> mp_pmd p \<noteq> None"

text \<open>The three legal states of \<^verbatim>\<open>local_page.h\<close>, with mappers distinct and counted.\<close>

definition lp_ok :: "local_page \<Rightarrow> bool" where
  "lp_ok lp \<longleftrightarrow>
     (case lp_next lp of
        None \<Rightarrow> mp_pmd (lp_pmds lp) = None \<and> num_pmds lp = 0
      | Some rest \<Rightarrow> list_all entry_full (lp_pmds lp # rest)
          \<and> distinct (map mp_vmr (lp_pmds lp # rest)) \<and> num_pmds lp = int (length rest) + 1)"

definition entries_map :: "mapped_pmd list \<Rightarrow> nat \<Rightarrow> nat option" where
  "entries_map ps v = Option.bind (find (\<lambda>p. mp_vmr p = Some v) ps) mp_pmd"

definition lp_map :: "local_page \<Rightarrow> nat \<Rightarrow> nat option" where
  "lp_map lp = entries_map (lp_entries lp)"

section \<open>The interface of the mapper set\<close>

text \<open>A finite map from mappers to page tables, as the fault and unmap paths use it.\<close>

locale mapper_set =
  fixes ok :: "'l \<Rightarrow> bool"
    and alpha :: "'l \<Rightarrow> nat \<Rightarrow> nat option"
    and insert_m :: "bool \<Rightarrow> 'l \<Rightarrow> nat \<Rightarrow> nat \<Rightarrow> bool \<times> 'l"
    and pop_m :: "'l \<Rightarrow> nat \<Rightarrow> nat option \<times> 'l"
    and lookup_m :: "'l \<Rightarrow> nat \<Rightarrow> nat option"
    and count_m :: "'l \<Rightarrow> int"
  assumes insert_done: "ok l \<Longrightarrow> insert_m a l v p = (True, l') \<Longrightarrow>
      ok l' \<and> alpha l' = (if alpha l v = None then (alpha l)(v \<mapsto> p) else alpha l)"
    and insert_failed: "insert_m a l v p = (False, l') \<Longrightarrow> l' = l \<and> \<not> a"
    and pop_spec: "ok l \<Longrightarrow> pop_m l v = (r, l') \<Longrightarrow>
      ok l' \<and> r = alpha l v \<and> alpha l' = (alpha l)(v := None)"
    and lookup_spec: "ok l \<Longrightarrow> lookup_m l v = alpha l v"
    and count_spec: "ok l \<Longrightarrow> finite (dom (alpha l)) \<and> count_m l = int (card (dom (alpha l)))"
begin

lemma lookup_inserted:
  "ok l \<Longrightarrow> insert_m a l v p = (True, l') \<Longrightarrow>
     lookup_m l' w = (if w = v \<and> lookup_m l v = None then Some p else lookup_m l w)"
  using insert_done lookup_spec by (auto split: if_splits)

lemma lookup_popped:
  "ok l \<Longrightarrow> pop_m l v = (r, l') \<Longrightarrow> lookup_m l' w = (if w = v then None else lookup_m l w)"
  using pop_spec lookup_spec by auto

lemma insert_pop:
  assumes "ok l" and "lookup_m l v = None" and "insert_m a l v p = (True, l1)"
    and "pop_m l1 v = (r, l2)"
  shows "r = Some p \<and> alpha l2 = alpha l \<and> count_m l1 = count_m l + 1 \<and> count_m l2 = count_m l"
proof -
  have n: "alpha l v = None" using lookup_spec assms(1,2) by simp
  have l1: "ok l1" "alpha l1 = (alpha l)(v \<mapsto> p)" using insert_done [OF assms(1,3)] n by auto
  have l2: "ok l2" "r = Some p" "alpha l2 = alpha l"
    using pop_spec [OF l1(1) assms(4)] l1(2) n by auto
  have "card (dom (alpha l1)) = Suc (card (dom (alpha l)))"
    using count_spec [OF assms(1)] n l1(2) by (simp add: domIff)
  then show ?thesis using l1 l2 count_spec assms(1) by simp
qed

lemma pop_count:
  assumes "ok l" and "pop_m l v = (r, l')"
  shows "count_m l' = count_m l - (if r = None then 0 else 1)"
proof -
  note p = pop_spec [OF assms]
  have fin: "finite (dom (alpha l))" using count_spec assms(1) by blast
  show ?thesis
  proof (cases "alpha l v")
    case None
    with p count_spec assms(1) show ?thesis by (simp add: fun_upd_idem)
  next
    case (Some x)
    then have "Suc (card (dom (alpha l) - {v})) = card (dom (alpha l))"
      using fin by (intro card_Suc_Diff1) auto
    with Some p count_spec assms(1) show ?thesis by auto
  qed
qed

end

section \<open>The mapper list satisfies it\<close>

lemma entries_map_Cons [simp]:
  "entries_map (p # ps) = (if mp_vmr p = None then entries_map ps
     else (entries_map ps)(the (mp_vmr p) := mp_pmd p))"
  by (rule ext) (auto simp: entries_map_def)

lemma entries_map_Nil [simp]: "entries_map [] = Map.empty"
  by (rule ext) (simp add: entries_map_def)

lemma dom_entries: "list_all entry_full ps \<Longrightarrow> dom (entries_map ps) = {v. Some v \<in> mp_vmr ` set ps}"
  by (induction ps) (auto simp: entry_full_def split: if_splits)

lemma entries_None:
  "list_all entry_full ps \<Longrightarrow> entries_map ps v = None \<longleftrightarrow> Some v \<notin> mp_vmr ` set ps"
proof -
  assume "list_all entry_full ps"
  from dom_entries [OF this] have "v \<in> dom (entries_map ps) \<longleftrightarrow> Some v \<in> mp_vmr ` set ps" by simp
  then show ?thesis unfolding domIff by blast
qed

lemma entries_card:
  "list_all entry_full ps \<Longrightarrow> distinct (map mp_vmr ps) \<Longrightarrow>
     finite (dom (entries_map ps)) \<and> card (dom (entries_map ps)) = length ps"
proof (induction ps)
  case (Cons p ps)
  then obtain v w where p: "mp_vmr p = Some v" "mp_pmd p = Some w" by (auto simp: entry_full_def)
  have v: "v \<notin> dom (entries_map ps)" using Cons.prems p entries_None [of ps v] by auto
  have e: "entries_map (p # ps) = (entries_map ps)(v \<mapsto> w)" using p by simp
  have "finite (dom (entries_map ps)) \<and> card (dom (entries_map ps)) = length ps"
    using Cons by simp
  then have "finite (insert v (dom (entries_map ps)))
      \<and> card (insert v (dom (entries_map ps))) = length (p # ps)" using v by simp
  then show ?case unfolding e dom_fun_upd by simp
qed simp

lemma find_vmr_None: "find (\<lambda>p. mp_vmr p = Some v) ps = None \<longleftrightarrow> Some v \<notin> mp_vmr ` set ps"
  by (auto simp: find_None_iff image_iff)

lemma pop_walk_None: "pop_walk v ps = None \<longleftrightarrow> Some v \<notin> mp_vmr ` set ps"
  by (induction ps) auto

lemma pop_walk_Some:
  assumes "pop_walk v ps = Some (r, ps')" and "list_all entry_full ps"
    and "distinct (map mp_vmr ps)"
  shows "list_all entry_full ps' \<and> distinct (map mp_vmr ps') \<and> length ps = Suc (length ps')
    \<and> set ps' \<subseteq> set ps \<and> r = entries_map ps v \<and> entries_map ps' = (entries_map ps)(v := None)"
  using assms
proof (induction ps arbitrary: ps')
  case (Cons p ps)
  obtain u w where p: "mp_vmr p = Some u" "mp_pmd p = Some w"
    using Cons.prems(2) by (auto simp: entry_full_def)
  show ?case
  proof (cases "u = v")
    case True
    then have "entries_map ps v = None" using Cons.prems p entries_None [of ps v] by auto
    with Cons.prems p True show ?thesis by (auto simp: fun_upd_idem)
  next
    case False
    with Cons.prems(1) p obtain qs where q: "pop_walk v ps = Some (r, qs)" "ps' = p # qs" by auto
    with Cons.IH [OF q(1)] Cons.prems False p show ?thesis by (auto simp: fun_upd_twist)
  qed
qed simp

lemma lp_map_simps:
  "lp_next lp = None \<Longrightarrow> lp_map lp = Map.empty"
  "lp_next lp = Some rest \<Longrightarrow> lp_map lp = entries_map (lp_pmds lp # rest)"
  by (simp_all add: lp_map_def lp_entries_def del: entries_map_Cons)

lemma lp_lookup:
  assumes "lp_ok lp"
  shows "emp_lp_lookup_pmd (Some lp) v = lp_map lp v"
  by (cases "find (\<lambda>p. mp_vmr p = Some v) (lp_entries lp)")
     (auto simp: emp_lp_lookup_pmd_def EMP_LP_PMDS_EMPTY_def lp_map_def entries_map_def
       lp_entries_def split: option.splits)

lemma lp_insert_ok:
  assumes "lp_ok lp" and "emp_lp_insert_pmd a lp v p = (True, lp')"
  shows "lp_ok lp' \<and> lp_map lp' = (if lp_map lp v = None then (lp_map lp)(v \<mapsto> p) else lp_map lp)"
proof (cases "lp_next lp")
  case None
  with assms show ?thesis
    by (auto simp: emp_lp_insert_pmd_def lp_ok_def entry_full_def lp_map_def lp_entries_def)
next
  case (Some rest)
  let ?es = "lp_pmds lp # rest"
  have es: "list_all entry_full ?es" "distinct (map mp_vmr ?es)" "num_pmds lp = int (length rest) + 1"
    using assms(1) Some by (auto simp: lp_ok_def)
  show ?thesis
  proof (cases "find (\<lambda>p. mp_vmr p = Some v) ?es = None")
    case False
    then have "lp' = lp" using assms(2) Some by (auto simp: emp_lp_insert_pmd_def)
    moreover have "lp_map lp v \<noteq> None"
      using False entries_None [OF es(1), of v] lp_map_simps(2) [OF Some] find_vmr_None by metis
    ultimately show ?thesis using assms(1) by auto
  next
    case True
    then have new: "Some v \<notin> mp_vmr ` set ?es" using find_vmr_None by blast
    have lp': "lp' = lp\<lparr>lp_next := Some (\<lparr>mp_vmr = Some v, mp_pmd = Some p\<rparr> # rest),
        num_pmds := num_pmds lp + 1\<rparr>"
      using True assms(2) Some by (auto simp: emp_lp_insert_pmd_def simp del: find.simps split: if_splits)
    have "lp_map lp v = None"
      using new entries_None [OF es(1), of v] lp_map_simps(2) [OF Some] by metis
    moreover have "lp_map lp' = (lp_map lp)(v \<mapsto> p)"
    proof -
      have "lp_map lp' = entries_map (lp_pmds lp # \<lparr>mp_vmr = Some v, mp_pmd = Some p\<rparr> # rest)"
        by (simp add: lp' lp_map_def lp_entries_def del: entries_map_Cons)
      also have "\<dots> = (entries_map ?es)(v \<mapsto> p)"
        using new es(1) by (auto simp: entry_full_def fun_upd_twist)
      finally show ?thesis unfolding lp_map_simps(2) [OF Some] .
    qed
    moreover have "lp_ok lp'"
      using new es by (auto simp: lp_ok_def lp' entry_full_def)
    ultimately show ?thesis by simp
  qed
qed

lemma lp_pop_ok:
  assumes "lp_ok lp" and "emp_lp_pop_pmd lp v = (r, lp')"
  shows "lp_ok lp' \<and> r = lp_map lp v \<and> lp_map lp' = (lp_map lp)(v := None)"
proof (cases "lp_next lp")
  case None
  with assms show ?thesis by (simp add: emp_lp_pop_pmd_def lp_map_simps)
next
  case (Some rest)
  let ?e = "lp_pmds lp"
  have es: "entry_full ?e" "list_all entry_full rest" "distinct (map mp_vmr (?e # rest))"
    "num_pmds lp = int (length rest) + 1" using assms(1) Some by (auto simp: lp_ok_def)
  obtain u w where e: "mp_vmr ?e = Some u" "mp_pmd ?e = Some w" using es(1) by (auto simp: entry_full_def)
  note lm = lp_map_simps(2) [OF Some]
  show ?thesis
  proof (cases "u = v")
    case True
    have "entries_map rest v = None" using entries_None [OF es(2), of v] es(3) e True by auto
    then have m: "(lp_map lp)(v := None) = entries_map rest" using lm e True by (auto simp: fun_upd_idem)
    have r: "r = Some w" "lp_map lp v = Some w"
      using assms(2) Some e True lm by (auto simp: emp_lp_pop_pmd_def)
    show ?thesis
    proof (cases rest)
      case Nil
      with assms(2) Some e True es(4) m r show ?thesis
        by (auto simp: emp_lp_pop_pmd_def lp_ok_def lp_map_simps)
    next
      case (Cons np rest')
      with assms(2) Some e True
      have lp': "lp' = lp\<lparr>lp_pmds := np, lp_next := Some rest', num_pmds := num_pmds lp - 1\<rparr>"
        by (auto simp: emp_lp_pop_pmd_def)
      have "lp_ok lp'" using es Cons by (auto simp: lp_ok_def lp')
      moreover have "lp_map lp' = entries_map rest"
        by (simp add: lp' lp_map_def lp_entries_def Cons)
      ultimately show ?thesis using m r by simp
    qed
  next
    case False
    show ?thesis
    proof (cases "pop_walk v rest")
      case None
      then have "entries_map rest v = None" using pop_walk_None entries_None [OF es(2)] by metis
      with None False e assms Some lm show ?thesis
        by (auto simp: emp_lp_pop_pmd_def fun_upd_idem)
    next
      case (Some res)
      then obtain q qs where q: "pop_walk v rest = Some (q, qs)" by (cases res) auto
      note pw = pop_walk_Some [OF q es(2)]
      have lp': "lp' = lp\<lparr>lp_next := Some qs, num_pmds := num_pmds lp - 1\<rparr>" "r = q"
        using assms(2) \<open>lp_next lp = Some rest\<close> e False q by (auto simp: emp_lp_pop_pmd_def)
      have ok: "lp_ok lp'" using es pw by (auto simp: lp_ok_def lp')
      have "lp_map lp' = (entries_map qs)(u \<mapsto> w)" using e by (simp add: lp' lp_map_def lp_entries_def)
      also have "\<dots> = (lp_map lp)(v := None)" using pw es(3) False e lm by (auto simp: fun_upd_twist)
      finally show ?thesis using ok lp'(2) pw es(3) False e lm by auto
    qed
  qed
qed

lemma lp_count_ok:
  assumes "lp_ok lp"
  shows "finite (dom (lp_map lp)) \<and> emp_lp_count_pmd lp = int (card (dom (lp_map lp)))"
proof (cases "lp_next lp")
  case None
  with assms show ?thesis by (simp add: lp_map_simps lp_ok_def emp_lp_count_pmd_def)
next
  case (Some rest)
  then have es: "list_all entry_full (lp_pmds lp # rest)" "distinct (map mp_vmr (lp_pmds lp # rest))"
    "num_pmds lp = int (length rest) + 1" using assms by (auto simp: lp_ok_def)
  from entries_card [OF es(1,2)] es(3) show ?thesis
    unfolding lp_map_simps(2) [OF Some] by (simp add: emp_lp_count_pmd_def del: entries_map_Cons)
qed

interpretation lp: mapper_set lp_ok lp_map emp_lp_insert_pmd emp_lp_pop_pmd
    "\<lambda>lp. emp_lp_lookup_pmd (Some lp)" emp_lp_count_pmd
proof unfold_locales
  fix l l' :: local_page and a v p
  show "l' = l \<and> \<not> a" if "emp_lp_insert_pmd a l v p = (False, l')"
    using that by (auto simp: emp_lp_insert_pmd_def split: option.splits if_splits)
qed (rule lp_insert_ok lp_pop_ok lp_lookup lp_count_ok; assumption)+

section \<open>The representative\<close>

lemma entries_map_Some:
  "list_all entry_full ps \<Longrightarrow> distinct (map mp_vmr ps) \<Longrightarrow>
     entries_map ps v = Some w \<longleftrightarrow> (\<exists>p \<in> set ps. mp_vmr p = Some v \<and> mp_pmd p = Some w)"
proof (induction ps)
  case (Cons p ps)
  obtain u x where p: "mp_vmr p = Some u" "mp_pmd p = Some x"
    using Cons.prems by (auto simp: entry_full_def)
  show ?case
  proof (cases "u = v")
    case True
    then have "\<And>q. q \<in> set ps \<Longrightarrow> mp_vmr q \<noteq> Some v" using Cons.prems p by force
    with True p show ?thesis by auto
  next
    case False
    with Cons p show ?thesis by auto
  qed
qed simp

lemma entries_map_mset:
  assumes "mset ps = mset qs" and "list_all entry_full ps" and "distinct (map mp_vmr ps)"
  shows "entries_map qs = entries_map ps \<and> list_all entry_full qs \<and> distinct (map mp_vmr qs)"
proof -
  have "set ps = set qs" using assms(1) by (metis set_mset_mset)
  then have f: "list_all entry_full qs" using assms(2) by (simp add: list_all_iff)
  have "mset (map mp_vmr ps) = mset (map mp_vmr qs)" using assms(1) by simp
  then have d: "distinct (map mp_vmr qs)" using assms(3) mset_eq_imp_distinct_iff by blast
  have "entries_map qs v = entries_map ps v" for v
    using entries_map_Some [OF assms(2,3), of v] entries_map_Some [OF f d, of v] \<open>set ps = set qs\<close>
    by (metis not_None_eq)
  with f d show ?thesis by blast
qed

lemma promote_walk_spec:
  "promote_walk e v ps = Some (e', ps') \<Longrightarrow> mp_vmr e' = Some v \<and> mset (e' # ps') = mset (e # ps)"
  by (induction ps arbitrary: ps') (auto split: if_splits)

lemma promote_walk_None: "promote_walk e v ps = None \<longleftrightarrow> Some v \<notin> mp_vmr ` set ps"
  by (induction ps) auto

lemma emp_lp_promote_owner_ok:
  assumes "lp_ok lp" and "lp_map lp v \<noteq> None"
  shows "\<exists>lp'. emp_lp_promote_owner lp v = Some lp' \<and> emp_lp_owner lp' = Some v \<and> lp_ok lp'
    \<and> lp_map lp' = lp_map lp \<and> num_pmds lp' = num_pmds lp"
proof (cases "emp_lp_owner lp = Some v")
  case True
  with assms show ?thesis by (simp add: emp_lp_promote_owner_def)
next
  case False
  from assms obtain rest where n: "lp_next lp = Some rest"
    by (cases "lp_next lp") (auto simp: lp_map_simps)
  let ?es = "lp_pmds lp # rest"
  have es: "list_all entry_full ?es" "distinct (map mp_vmr ?es)" "num_pmds lp = int (length rest) + 1"
    using assms(1) n by (auto simp: lp_ok_def)
  have "Some v \<in> mp_vmr ` set ?es"
    using entries_None [OF es(1), of v] assms(2) lp_map_simps(2) [OF n] by metis
  then have "promote_walk (lp_pmds lp) v rest \<noteq> None"
    using False by (auto simp: promote_walk_None emp_lp_owner_def)
  then obtain e' ps' where pw: "promote_walk (lp_pmds lp) v rest = Some (e', ps')" by auto
  note sp = promote_walk_spec [OF pw]
  let ?lp' = "lp\<lparr>lp_pmds := e', lp_next := Some ps'\<rparr>"
  have len: "length ps' = length rest" using mset_eq_length [OF conjunct2 [OF sp]] by simp
  from entries_map_mset [of ?es "e' # ps'"] sp es(1,2)
  have m: "entries_map (e' # ps') = entries_map ?es" "list_all entry_full (e' # ps')"
    "distinct (map mp_vmr (e' # ps'))" by metis+
  have "lp_ok ?lp'" using m(2,3) es(3) len by (simp add: lp_ok_def)
  moreover have "lp_map ?lp' = lp_map lp"
    using m(1) lp_map_simps(2) [OF n] by (simp add: lp_map_def lp_entries_def del: entries_map_Cons)
  ultimately show ?thesis using False n pw sp by (simp add: emp_lp_promote_owner_def emp_lp_owner_def)
qed

lemma owner_is_mapper:
  assumes "lp_ok lp" and "lp_next lp \<noteq> None"
  shows "\<exists>v. emp_lp_owner lp = Some v \<and> lp_map lp v \<noteq> None"
proof -
  from assms obtain rest where n: "lp_next lp = Some rest" by auto
  with assms(1) obtain v w where "mp_vmr (lp_pmds lp) = Some v" "mp_pmd (lp_pmds lp) = Some w"
    by (auto simp: lp_ok_def entry_full_def)
  then show ?thesis by (simp add: emp_lp_owner_def lp_map_simps(2) [OF n])
qed

text \<open>
  After a mapping was removed the representative is a survivor, or, when none is left, the mapper
  that went last, retained without a mapping.
\<close>

lemma emp_lp_pop_owner:
  assumes "lp_ok lp" and "emp_lp_pop_pmd lp v = (Some p, lp')"
  shows "if EMP_LP_PMDS_EMPTY lp' then emp_lp_owner lp' = Some v \<and> lp_map lp' = Map.empty
    else \<exists>u. u \<noteq> v \<and> emp_lp_owner lp' = Some u \<and> lp_map lp' u \<noteq> None"
proof (cases "lp_next lp'")
  case None
  have "emp_lp_owner lp' = Some v"
    using assms(2) None
    by (auto simp: emp_lp_pop_pmd_def emp_lp_owner_def split: option.splits if_splits list.splits)
  with None show ?thesis by (simp add: EMP_LP_PMDS_EMPTY_def lp_map_simps)
next
  case (Some rest)
  note pop = lp_pop_ok [OF assms]
  from owner_is_mapper [of lp'] pop Some obtain u where "emp_lp_owner lp' = Some u" "lp_map lp' u \<noteq> None"
    by auto
  moreover from this(2) pop have "u \<noteq> v" by auto
  ultimately show ?thesis using Some by (auto simp: EMP_LP_PMDS_EMPTY_def)
qed

lemma emp_init_local_page_ok:
  "lp_ok (emp_init_local_page lp vmr gi page) \<and> emp_lp_owner (emp_init_local_page lp vmr gi page) = Some vmr
     \<and> lp_map (emp_init_local_page lp vmr gi page) = Map.empty
     \<and> \<not> is_local_page_on_list (emp_init_local_page lp vmr gi page)"
  by (simp add: emp_init_local_page_def INIT_MAPPED_PMD_def set_local_page_cpu_only_def
      clear_local_page_list_flags_def lp_ok_def emp_lp_owner_def lp_map_def lp_entries_def
      is_local_page_on_list_def Let_def)

text \<open>The pin flag is outside the list mask: clearing the list flags keeps it.\<close>

lemma bit_list_mask: "bit LOCAL_PAGE_ON_LIST_MASK n \<longleftrightarrow> n < 3"
  unfolding LOCAL_PAGE_ON_LIST_MASK_def LOCAL_PAGE_ON_MRU_def LOCAL_PAGE_ON_LRU_def
    LOCAL_PAGE_ON_GLOBAL_def
  by (simp only: bit_or_iff bit_push_bit_iff bit_1_iff possible_bit_word) auto

lemma bit_clear_list_flags:
  "bit (lp_flags (clear_local_page_list_flags lp)) n \<longleftrightarrow> bit (lp_flags lp) n \<and> 3 \<le> n"
  by (auto simp: clear_local_page_list_flags_def bit_and_iff bit_not_iff bit_list_mask
      dest: bit_imp_le_length)

lemma bit_set_cpu_only: "bit (lp_flags (set_local_page_cpu_only lp c)) n \<longleftrightarrow> bit (lp_flags lp) n \<and> 3 \<le> n"
  by (simp add: set_local_page_cpu_only_def bit_clear_list_flags)

lemma bit_set_cpu_list:
  "bit (lp_flags (set_local_page_cpu_list lp c i)) n \<longleftrightarrow> bit (lp_flags lp) n \<or> n = i \<and> n < 32"
proof -
  have "lp_flags (set_local_page_cpu_list lp c i) = lp_flags lp OR push_bit i 1"
    by (simp add: set_local_page_cpu_list_def set_local_page_list_flags_def)
  then show ?thesis
    by (simp only: bit_or_iff bit_push_bit_iff bit_1_iff possible_bit_word) auto
qed

lemma is_flag_bit: "i < 32 \<Longrightarrow> is_local_page_flags lp i \<longleftrightarrow> bit (lp_flags lp) i"
  by (simp add: is_local_page_flags_def bit_iff_and_push_bit_not_eq_0)

end
