(* ===== verification/Vmdesc_View.thy ===== *)
theory Vmdesc_View
  imports Donor_Mgmt
begin

text \<open>
  The views of a descriptor namespace (\<^verbatim>\<open>struct emp_vmdesc_view\<close> of \<^verbatim>\<open>src/module_gpl/vm.h\<close> and
  \<^verbatim>\<open>emp_vmdesc_view_*\<close> of \<^verbatim>\<open>gpa.c\<close>): which page intervals some mapping still looks through, each
  distinct interval once, with the number of mappings that have it.

  The first entry is embedded in the descriptor (\<open>vw_emb\<close>), the others are allocated nodes chained
  behind it (\<open>vw_ovf\<close>).  An operation that may need a node is told whether the caller has one and
  says whether it is left; the counts of allocated and freed nodes are results, so that nothing can
  leak unseen.
\<close>

section \<open>Intervals\<close>

datatype view_key = View_Key (vk_start: nat) (vk_end: nat)

instantiation view_key :: linorder
begin

definition less_eq_view_key :: "view_key \<Rightarrow> view_key \<Rightarrow> bool" where
  "less_eq_view_key a b \<longleftrightarrow>
     vk_start a < vk_start b \<or> vk_start a = vk_start b \<and> vk_end a \<le> vk_end b"

definition less_view_key :: "view_key \<Rightarrow> view_key \<Rightarrow> bool" where
  "less_view_key a b \<longleftrightarrow>
     vk_start a < vk_start b \<or> vk_start a = vk_start b \<and> vk_end a < vk_end b"

instance
  by standard (auto simp: less_eq_view_key_def less_view_key_def view_key.expand)

end

record emp_vmdesc_view =
  vw_start :: nat
  vw_end :: nat
  vw_count :: nat

record vmdesc_views =
  vw_emb :: emp_vmdesc_view
  vw_ovf :: "emp_vmdesc_view list"

section \<open>Operations\<close>

definition emp_vmdesc_view_init :: vmdesc_views where
  "emp_vmdesc_view_init = \<lparr>vw_emb = \<lparr>vw_start = 0, vw_end = 0, vw_count = 0\<rparr>, vw_ovf = []\<rparr>"

definition view_is :: "emp_vmdesc_view \<Rightarrow> nat \<Rightarrow> nat \<Rightarrow> bool" where
  "view_is v s e \<longleftrightarrow> vw_start v = s \<and> vw_end v = e"

definition view_after :: "emp_vmdesc_view \<Rightarrow> nat \<Rightarrow> nat \<Rightarrow> bool" where
  "view_after v s e \<longleftrightarrow> vw_start v > s \<or> vw_start v = s \<and> vw_end v > e"

fun ovf_add :: "emp_vmdesc_view list \<Rightarrow> nat \<Rightarrow> nat \<Rightarrow> bool \<Rightarrow> int \<times> bool \<times> emp_vmdesc_view list" where
  "ovf_add [] s e node =
     (if \<not> node then (- ENOMEM, node, [])
      else (0, False, [\<lparr>vw_start = s, vw_end = e, vw_count = 1\<rparr>]))"
| "ovf_add (v # vs) s e node =
     (if view_is v s e then (0, node, v\<lparr>vw_count := vw_count v + 1\<rparr> # vs)
      else if view_after v s e then
        (if \<not> node then (- ENOMEM, node, v # vs)
         else (0, False, \<lparr>vw_start = s, vw_end = e, vw_count = 1\<rparr> # v # vs))
      else let (r, n, vs') = ovf_add vs s e node in (r, n, v # vs'))"

text \<open>\<^verbatim>\<open>__emp_vmdesc_view_add()\<close>.\<close>

definition view_add_locked ::
    "vmdesc_views \<Rightarrow> nat \<Rightarrow> nat \<Rightarrow> bool \<Rightarrow> int \<times> bool \<times> vmdesc_views" where
  "view_add_locked d s e node =
     (let v = vw_emb d in
      if vw_count v = 0 then
        (0, node, d\<lparr>vw_emb := \<lparr>vw_start = s, vw_end = e, vw_count = 1\<rparr>\<rparr>)
      else if view_is v s e then (0, node, d\<lparr>vw_emb := v\<lparr>vw_count := vw_count v + 1\<rparr>\<rparr>)
      else if view_after v s e then
        (if \<not> node then (- ENOMEM, node, d)
         else (0, False, d\<lparr>vw_emb := \<lparr>vw_start = s, vw_end = e, vw_count = 1\<rparr>,
                           vw_ovf := v # vw_ovf d\<rparr>))
      else let (r, n, vs) = ovf_add (vw_ovf d) s e node in (r, n, d\<lparr>vw_ovf := vs\<rparr>))"

text \<open>Results: return value, views, nodes allocated, nodes freed.\<close>

definition emp_vmdesc_view_add :: "vmdesc_views \<Rightarrow> nat \<Rightarrow> nat \<Rightarrow> bool \<Rightarrow> bool
    \<Rightarrow> int \<times> vmdesc_views \<times> nat \<times> nat" where
  "emp_vmdesc_view_add d s e first_or_shared kzalloc_ok =
     (if \<not> first_or_shared \<and> \<not> kzalloc_ok then (- ENOMEM, d, 0, 0)
      else
        let node = \<not> first_or_shared; (r, n, d') = view_add_locked d s e node
        in (r, d', if node then 1 else 0, if n then 1 else 0))"

fun ovf_del :: "emp_vmdesc_view list \<Rightarrow> nat \<Rightarrow> nat \<Rightarrow> bool \<times> emp_vmdesc_view list" where
  "ovf_del [] s e = (False, [])"
| "ovf_del (v # vs) s e =
     (if vw_count v > 0 \<and> view_is v s e then
        (if vw_count v - 1 > 0 then (False, v\<lparr>vw_count := vw_count v - 1\<rparr> # vs) else (True, vs))
      else let (dead, vs') = ovf_del vs s e in (dead, v # vs'))"

text \<open>\<^verbatim>\<open>__emp_vmdesc_view_del()\<close>: the first result says whether a node comes back to be freed.\<close>

definition view_del_locked :: "vmdesc_views \<Rightarrow> nat \<Rightarrow> nat \<Rightarrow> bool \<times> vmdesc_views" where
  "view_del_locked d s e =
     (let v = vw_emb d in
      if vw_count v > 0 \<and> view_is v s e then
        let v' = v\<lparr>vw_count := vw_count v - 1\<rparr>
        in if vw_count v' > 0 then (False, d\<lparr>vw_emb := v'\<rparr>)
           else (case vw_ovf d of
                   dead # vs \<Rightarrow> (True, d\<lparr>vw_emb := dead, vw_ovf := vs\<rparr>)
                 | [] \<Rightarrow> (False, d\<lparr>vw_emb := v'\<rparr>))
      else let (dead, vs) = ovf_del (vw_ovf d) s e in (dead, d\<lparr>vw_ovf := vs\<rparr>))"

definition emp_vmdesc_view_del :: "vmdesc_views \<Rightarrow> nat \<Rightarrow> nat \<Rightarrow> vmdesc_views \<times> nat" where
  "emp_vmdesc_view_del d s e =
     (let (dead, d') = view_del_locked d s e in (d', if dead then 1 else 0))"

definition emp_vmdesc_view_split :: "vmdesc_views \<Rightarrow> nat \<Rightarrow> nat \<Rightarrow> nat \<Rightarrow> bool \<Rightarrow> bool
    \<Rightarrow> int \<times> vmdesc_views \<times> nat \<times> nat" where
  "emp_vmdesc_view_split d s e mid n1 n2 =
     (let allocated = (if n1 then 1 else 0) + (if n2 then 1 else 0)
      in if \<not> n1 \<or> \<not> n2 then (- ENOMEM, d, allocated, allocated)
         else
           let (dead, d1) = view_del_locked d s e;
               (n1, n2, dead) = (if dead then (dead, n1, n2) else (n1, n2, dead));
               (r, n1, d2) = view_add_locked d1 s mid n1;
               (r, n2, d3) = (if r = 0 then view_add_locked d2 mid e n2 else (r, n2, d2))
           in (r, d3, allocated,
               (if dead then 1 else 0) + (if n1 then 1 else 0) + (if n2 then 1 else 0)))"

text \<open>
  The walk of \<^verbatim>\<open>emp_vmdesc_view_find_uncovered()\<close>; \<open>s0\<close>, \<open>e0\<close> are the caller's variables, which
  the not-fine exit leaves alone.
\<close>

fun uncovered_walk :: "emp_vmdesc_view list \<Rightarrow> nat \<Rightarrow> nat \<Rightarrow> nat \<Rightarrow> nat \<Rightarrow> bool \<times> nat \<times> nat" where
  "uncovered_walk [] s0 e0 s e = (True, s, e)"
| "uncovered_walk (v # vs) s0 e0 s e =
     (if vw_count v = 0 then uncovered_walk vs s0 e0 s e
      else if vw_end v \<le> s then uncovered_walk vs s0 e0 s e
      else if vw_start v \<ge> e then (True, s, e)
      else if vw_start v \<le> s \<and> vw_end v \<ge> e then (True, 0, 0)
      else if s < vw_start v \<and> vw_end v < e then (False, s0, e0)
      else if vw_start v \<le> s then uncovered_walk vs s0 e0 (vw_end v) e
      else (True, s, vw_start v))"

definition emp_vmdesc_view_find_uncovered :: "vmdesc_views \<Rightarrow> nat \<Rightarrow> nat \<Rightarrow> bool \<times> nat \<times> nat" where
  "emp_vmdesc_view_find_uncovered d s e = uncovered_walk (vw_emb d # vw_ovf d) s e s e"

fun covered_walk :: "emp_vmdesc_view list \<Rightarrow> nat \<Rightarrow> nat \<Rightarrow> bool" where
  "covered_walk [] s e = False"
| "covered_walk (v # vs) s e =
     (if vw_count v = 0 then covered_walk vs s e
      else if vw_start v \<ge> e then False
      else if vw_end v > s then True
      else covered_walk vs s e)"

definition emp_vmdesc_view_is_covered :: "vmdesc_views \<Rightarrow> nat \<Rightarrow> nat \<Rightarrow> bool" where
  "emp_vmdesc_view_is_covered d s e = covered_walk (vw_emb d # vw_ovf d) s e"

definition emp_vmdesc_view_exit :: "vmdesc_views \<Rightarrow> vmdesc_views \<times> nat" where
  "emp_vmdesc_view_exit d = (d\<lparr>vw_ovf := []\<rparr>, length (vw_ovf d))"

section \<open>The multiset of views\<close>

definition view_key_of :: "emp_vmdesc_view \<Rightarrow> view_key" where
  "view_key_of v = View_Key (vw_start v) (vw_end v)"

fun chain_abs :: "emp_vmdesc_view list \<Rightarrow> view_key multiset" where
  "chain_abs [] = {#}"
| "chain_abs (v # vs) = replicate_mset (vw_count v) (view_key_of v) + chain_abs vs"

definition views_abs :: "vmdesc_views \<Rightarrow> view_key multiset" where
  "views_abs d = chain_abs (vw_emb d # vw_ovf d)"

definition chain_ok :: "emp_vmdesc_view list \<Rightarrow> bool" where
  "chain_ok vs \<longleftrightarrow> sorted_wrt (<) (map view_key_of vs)
     \<and> (\<forall>v \<in> set vs. 0 < vw_count v \<and> vw_start v < vw_end v)"

text \<open>The embedded entry is empty only while the whole list is.\<close>

definition views_ok :: "vmdesc_views \<Rightarrow> bool" where
  "views_ok d \<longleftrightarrow> (if vw_count (vw_emb d) = 0 then vw_ovf d = [] else chain_ok (vw_emb d # vw_ovf d))"

definition covers :: "view_key multiset \<Rightarrow> nat \<Rightarrow> bool" where
  "covers V x \<longleftrightarrow> (\<exists>k \<in># V. vk_start k \<le> x \<and> x < vk_end k)"

section \<open>The overflow chain\<close>

lemma view_cmp:
  "view_is v s e \<longleftrightarrow> view_key_of v = View_Key s e"
  "view_after v s e \<longleftrightarrow> View_Key s e < view_key_of v"
  by (auto simp: view_is_def view_after_def view_key_of_def less_view_key_def)

lemma chain_ok_simps [simp]:
  "chain_ok []"
  "chain_ok (v # vs) \<longleftrightarrow> 0 < vw_count v \<and> vw_start v < vw_end v
     \<and> (\<forall>w \<in> set vs. view_key_of v < view_key_of w) \<and> chain_ok vs"
  by (auto simp: chain_ok_def)

lemma view_key_simps [simp]:
  "view_key_of (v\<lparr>vw_count := n\<rparr>) = view_key_of v"
  "view_key_of \<lparr>vw_start = s, vw_end = e, vw_count = n\<rparr> = View_Key s e"
  by (simp_all add: view_key_of_def)

lemma chain_abs_keys: "chain_ok vs \<Longrightarrow> set_mset (chain_abs vs) = view_key_of ` set vs"
  by (induction vs) (auto simp: in_replicate_mset)

definition ovf_add_post where
  "ovf_add_post vs k node r n vs' \<longleftrightarrow>
     (if r = 0 then chain_ok vs' \<and> chain_abs vs' = add_mset k (chain_abs vs)
        \<and> length vs' + of_bool n = length vs + of_bool node \<and> (n \<longrightarrow> node)
        \<and> view_key_of ` set vs' = insert k (view_key_of ` set vs)
      else r = - ENOMEM \<and> vs' = vs \<and> \<not> n \<and> \<not> node \<and> k \<notin> view_key_of ` set vs)"

lemma ovf_add_spec:
  assumes "chain_ok vs" and "s < e" and "ovf_add vs s e node = (r, n, vs')"
  shows "ovf_add_post vs (View_Key s e) node r n vs'"
  using assms
proof (induction vs arbitrary: r n vs')
  case Nil
  then show ?case by (auto simp: ovf_add_post_def ENOMEM_def split: if_splits)
next
  case (Cons v vs)
  let ?k = "View_Key s e"
  consider "view_key_of v = ?k" | "?k < view_key_of v" | "view_key_of v < ?k" by (metis neqE)
  then show ?case
  proof cases
    case 1
    with Cons.prems have "r = 0" "n = node" "vs' = v\<lparr>vw_count := vw_count v + 1\<rparr> # vs"
      by (simp_all add: view_cmp)
    with 1 Cons.prems(1) show ?thesis by (simp add: ovf_add_post_def)
  next
    case 2
    then have lt: "\<forall>w \<in> set (v # vs). ?k < view_key_of w" using Cons.prems(1) by auto
    then have "?k \<notin> view_key_of ` set (v # vs)" by auto
    with 2 lt Cons.prems show ?thesis
      by (auto simp: ovf_add_post_def view_cmp ENOMEM_def split: if_splits)
  next
    case 3
    then obtain ws where w: "ovf_add vs s e node = (r, n, ws)" "vs' = v # ws"
      using Cons.prems(3) by (auto simp: view_cmp split: prod.splits if_splits)
    have ok: "chain_ok vs" using Cons.prems(1) by simp
    note ih = Cons.IH [OF ok Cons.prems(2) w(1), unfolded ovf_add_post_def]
    show ?thesis
    proof (cases "r = 0")
      case True
      with ih have ws: "chain_ok ws" "chain_abs ws = add_mset ?k (chain_abs vs)"
        "length ws + of_bool n = length vs + of_bool node" "n \<longrightarrow> node"
        "view_key_of ` set ws = insert ?k (view_key_of ` set vs)" by simp_all
      have "view_key_of v < view_key_of x" if "x \<in> set ws" for x
      proof -
        have "view_key_of x \<in> insert ?k (view_key_of ` set vs)" using that ws(5) by blast
        then show ?thesis using 3 Cons.prems(1) by auto
      qed
      with ws True Cons.prems(1) w(2) show ?thesis by (auto simp: ovf_add_post_def)
    next
      case False
      with ih 3 w(2) show ?thesis by (auto simp: ovf_add_post_def)
    qed
  qed
qed

definition ovf_del_post where
  "ovf_del_post vs k dead vs' \<longleftrightarrow> chain_ok vs' \<and> chain_abs vs' = chain_abs vs - {#k#}
     \<and> length vs' + of_bool dead = length vs \<and> view_key_of ` set vs' \<subseteq> view_key_of ` set vs"

lemma diff_single_other: "k \<noteq> x \<Longrightarrow> (replicate_mset n x + M) - {#k#} = replicate_mset n x + (M - {#k#})"
  by (auto simp: multiset_eq_iff)

lemma ovf_del_spec:
  assumes "chain_ok vs" and "ovf_del vs s e = (dead, vs')"
  shows "ovf_del_post vs (View_Key s e) dead vs'"
  using assms
proof (induction vs arbitrary: dead vs')
  case Nil
  then show ?case by (simp add: ovf_del_post_def)
next
  case (Cons v vs)
  let ?k = "View_Key s e"
  show ?case
  proof (cases "view_key_of v = ?k")
    case True
    then obtain c where c: "vw_count v = Suc c" using Cons.prems(1) by (cases "vw_count v") auto
    with True Cons.prems show ?thesis
      by (auto simp: ovf_del_post_def view_cmp split: if_splits)
  next
    case False
    then obtain ws where w: "ovf_del vs s e = (dead, ws)" "vs' = v # ws"
      using Cons.prems(2) by (auto simp: view_cmp split: prod.splits if_splits)
    have ok: "chain_ok vs" using Cons.prems(1) by simp
    note ih = Cons.IH [OF ok w(1), unfolded ovf_del_post_def]
    have "view_key_of v < view_key_of x" if "x \<in> set ws" for x
    proof -
      have "view_key_of x \<in> view_key_of ` set vs" using that ih by blast
      then show ?thesis using Cons.prems(1) by auto
    qed
    with ih w(2) Cons.prems(1) False show ?thesis
      by (auto simp: ovf_del_post_def diff_single_other)
  qed
qed

section \<open>The interface of the view list\<close>

text \<open>
  A bag of intervals whose updates may need or give back a node; \<open>nodes\<close> is how many it holds.
\<close>

locale interval_bag =
  fixes ok :: "'d \<Rightarrow> bool"
    and bag :: "'d \<Rightarrow> view_key multiset"
    and nodes :: "'d \<Rightarrow> nat"
    and add :: "'d \<Rightarrow> nat \<Rightarrow> nat \<Rightarrow> bool \<Rightarrow> int \<times> bool \<times> 'd"
    and del :: "'d \<Rightarrow> nat \<Rightarrow> nat \<Rightarrow> bool \<times> 'd"
  assumes add_done: "ok d \<Longrightarrow> s < e \<Longrightarrow> add d s e node = (0, n, d') \<Longrightarrow>
      ok d' \<and> bag d' = add_mset (View_Key s e) (bag d) \<and> nodes d' + of_bool n = nodes d + of_bool node
      \<and> (n \<longrightarrow> node)"
    and add_failed: "ok d \<Longrightarrow> s < e \<Longrightarrow> add d s e node = (r, n, d') \<Longrightarrow> r \<noteq> 0 \<Longrightarrow>
      r = - ENOMEM \<and> d' = d \<and> \<not> node \<and> \<not> n \<and> bag d \<noteq> {#} \<and> View_Key s e \<notin># bag d"
    and del_spec: "ok d \<Longrightarrow> del d s e = (dead, d') \<Longrightarrow>
      ok d' \<and> bag d' = bag d - {#View_Key s e#} \<and> nodes d' + of_bool dead = nodes d"
begin

lemma add_with_node: "ok d \<Longrightarrow> s < e \<Longrightarrow> add d s e True = (r, n, d') \<Longrightarrow> r = 0"
  using add_failed by blast

lemma add_shared:
  "ok d \<Longrightarrow> s < e \<Longrightarrow> bag d = {#} \<or> View_Key s e \<in># bag d \<Longrightarrow> add d s e False = (r, n, d')
     \<Longrightarrow> r = 0 \<and> nodes d' = nodes d"
proof -
  assume a: "ok d" "s < e" "bag d = {#} \<or> View_Key s e \<in># bag d" "add d s e False = (r, n, d')"
  have r: "r = 0"
  proof (rule ccontr)
    assume "r \<noteq> 0"
    from add_failed [OF a(1,2,4) this] a(3) show False by blast
  qed
  from add_done [OF a(1,2) a(4) [unfolded r]] r show ?thesis by auto
qed

lemma add_del:
  assumes "ok d" and "s < e" and "add d s e node = (0, n, d1)" and "del d1 s e = (dead, d2)"
  shows "ok d2 \<and> bag d2 = bag d"
  using add_done [OF assms(1-3)] del_spec [OF _ assms(4)] by simp

lemma split_interval:
  assumes "ok d" and "View_Key s e \<in># bag d" and "s < m" and "m < e"
    and "del d s e = (dead, d1)" and "add d1 s m True = (r1, n1, d2)"
    and "add d2 m e True = (r2, n2, d3)"
  shows "r1 = 0 \<and> r2 = 0 \<and> ok d3
    \<and> bag d3 = bag d - {#View_Key s e#} + {#View_Key s m, View_Key m e#}
    \<and> nodes d3 + of_bool n1 + of_bool n2 + of_bool dead = nodes d + 2"
proof -
  note d1 = del_spec [OF assms(1,5)]
  have r1: "r1 = 0" using add_with_node [OF _ assms(3,6)] d1 by blast
  note d2 = add_done [OF _ assms(3) assms(6) [unfolded r1]]
  have r2: "r2 = 0" using add_with_node [OF _ assms(4,7)] d1 d2 by blast
  note d3 = add_done [OF _ assms(4) assms(7) [unfolded r2]]
  from d1 d2 d3 r1 r2 show ?thesis by auto
qed

text \<open>Splitting an interval moves no boundary of what is covered.\<close>

lemma split_covers:
  assumes "View_Key s e \<in># V" and "s < m" and "m < e"
  shows "covers (V - {#View_Key s e#} + {#View_Key s m, View_Key m e#}) x \<longleftrightarrow> covers V x"
proof -
  obtain W where W: "V = add_mset (View_Key s e) W" using assms(1) by (metis multi_member_split)
  have "(s \<le> x \<and> x < e) \<longleftrightarrow> (s \<le> x \<and> x < m) \<or> (m \<le> x \<and> x < e)" using assms(2,3) by auto
  then show ?thesis by (auto simp: W covers_def)
qed

end

lemma view_add_spec:
  assumes "views_ok d" and "s < e" and "view_add_locked d s e node = (r, n, d')"
  shows "if r = 0 then views_ok d' \<and> views_abs d' = add_mset (View_Key s e) (views_abs d)
      \<and> length (vw_ovf d') + of_bool n = length (vw_ovf d) + of_bool node \<and> (n \<longrightarrow> node)
    else r = - ENOMEM \<and> d' = d \<and> \<not> node \<and> \<not> n \<and> views_abs d \<noteq> {#}
      \<and> View_Key s e \<notin># views_abs d"
proof -
  let ?v = "vw_emb d" and ?k = "View_Key s e"
  consider "vw_count ?v = 0" | "0 < vw_count ?v" "view_key_of ?v = ?k"
    | "0 < vw_count ?v" "?k < view_key_of ?v" | "0 < vw_count ?v" "view_key_of ?v < ?k" by (metis neqE neq0_conv)
  then show ?thesis
  proof cases
    case 1
    with assms show ?thesis by (auto simp: view_add_locked_def views_ok_def views_abs_def Let_def)
  next
    case 2
    with assms show ?thesis by (auto simp: view_add_locked_def views_ok_def views_abs_def view_cmp Let_def)
  next
    case 3
    then have lt: "\<forall>w \<in> set (?v # vw_ovf d). ?k < view_key_of w"
      using assms(1) by (auto simp: views_ok_def)
    have "?k \<notin># views_abs d"
      using lt chain_abs_keys [of "?v # vw_ovf d"] assms(1) 3(1) by (auto simp: views_abs_def views_ok_def)
    with 3 lt assms show ?thesis
      by (auto simp: view_add_locked_def views_ok_def views_abs_def view_cmp ENOMEM_def Let_def
          simp del: chain_abs.simps split: if_splits) (auto simp: in_replicate_mset)
  next
    case 4
    obtain vs where o: "ovf_add (vw_ovf d) s e node = (r, n, vs)" "d' = d\<lparr>vw_ovf := vs\<rparr>"
      using 4 assms(3) by (auto simp: view_add_locked_def view_cmp Let_def split: prod.splits if_splits)
    have c: "chain_ok (?v # vw_ovf d)" using assms(1) 4 by (simp add: views_ok_def)
    then have "chain_ok (vw_ovf d)" by simp
    note post = ovf_add_spec [OF this assms(2) o(1), unfolded ovf_add_post_def]
    show ?thesis
    proof (cases "r = 0")
      case True
      with post have vs: "chain_ok vs" "chain_abs vs = add_mset ?k (chain_abs (vw_ovf d))"
        "length vs + of_bool n = length (vw_ovf d) + of_bool node" "n \<longrightarrow> node"
        "view_key_of ` set vs = insert ?k (view_key_of ` set (vw_ovf d))" by simp_all
      have "view_key_of ?v < view_key_of x" if "x \<in> set vs" for x
      proof -
        have "view_key_of x \<in> insert ?k (view_key_of ` set (vw_ovf d))" using that vs(5) by blast
        then show ?thesis using 4 c by auto
      qed
      with vs True 4 c o(2) show ?thesis by (auto simp: views_ok_def views_abs_def)
    next
      case False
      have "?k \<notin># views_abs d"
        using False post 4 c chain_abs_keys [of "vw_ovf d"] by (auto simp: views_abs_def in_replicate_mset)
      with False post 4 o(2) show ?thesis by (auto simp: views_abs_def)
    qed
  qed
qed

lemma view_del_spec:
  assumes "views_ok d" and "view_del_locked d s e = (dead, d')"
  shows "views_ok d' \<and> views_abs d' = views_abs d - {#View_Key s e#}
    \<and> length (vw_ovf d') + of_bool dead = length (vw_ovf d)"
proof -
  let ?v = "vw_emb d" and ?k = "View_Key s e"
  show ?thesis
  proof (cases "vw_count ?v > 0 \<and> view_key_of ?v = ?k")
    case True
    then obtain c where c: "vw_count ?v = Suc c" by (cases "vw_count ?v") auto
    with True assms show ?thesis
      by (auto simp: view_del_locked_def views_ok_def views_abs_def view_cmp Let_def
          split: if_splits list.splits)
  next
    case False
    obtain vs where o: "ovf_del (vw_ovf d) s e = (dead, vs)" "d' = d\<lparr>vw_ovf := vs\<rparr>"
      using False assms(2) by (auto simp: view_del_locked_def view_cmp Let_def split: prod.splits if_splits)
    show ?thesis
    proof (cases "vw_count ?v = 0")
      case True
      with assms(1) o show ?thesis by (auto simp: views_ok_def views_abs_def)
    next
      case pos: False
      then have c: "chain_ok (?v # vw_ovf d)" using assms(1) by (simp add: views_ok_def)
      then have "chain_ok (vw_ovf d)" by simp
      note post = ovf_del_spec [OF this o(1), unfolded ovf_del_post_def]
      have "view_key_of ?v < view_key_of x" if "x \<in> set vs" for x
      proof -
        have "view_key_of x \<in> view_key_of ` set (vw_ovf d)" using that post by blast
        then show ?thesis using c by auto
      qed
      with post pos c o(2) False show ?thesis
        by (auto simp: views_ok_def views_abs_def diff_single_other)
    qed
  qed
qed

interpretation views: interval_bag views_ok views_abs "\<lambda>d. length (vw_ovf d)" view_add_locked
    view_del_locked
proof unfold_locales
  fix d d' :: vmdesc_views and s e :: nat and node n dead :: bool and r :: int
  show "views_ok d' \<and> views_abs d' = add_mset (View_Key s e) (views_abs d)
      \<and> length (vw_ovf d') + of_bool n = length (vw_ovf d) + of_bool node \<and> (n \<longrightarrow> node)"
    if "views_ok d" "s < e" "view_add_locked d s e node = (0, n, d')"
    using view_add_spec [OF that] by simp
  show "r = - ENOMEM \<and> d' = d \<and> \<not> node \<and> \<not> n \<and> views_abs d \<noteq> {#} \<and> View_Key s e \<notin># views_abs d"
    if "views_ok d" "s < e" "view_add_locked d s e node = (r, n, d')" "r \<noteq> 0"
    using view_add_spec [OF that(1-3)] that(4) by simp
qed (rule view_del_spec)

section \<open>Add and split\<close>

lemma emp_vmdesc_view_add_ok:
  assumes "views_ok d" and "s < e" and "emp_vmdesc_view_add d s e shared kz = (r, d', a, f)"
  shows "views_ok d' \<and> length (vw_ovf d') + f = length (vw_ovf d) + a
    \<and> (if r = 0 then views_abs d' = add_mset (View_Key s e) (views_abs d)
       else r = - ENOMEM \<and> d' = d)
    \<and> ((if shared then views_abs d = {#} \<or> View_Key s e \<in># views_abs d else kz) \<longrightarrow> r = 0)"
proof (cases "\<not> shared \<and> \<not> kz")
  case True
  with assms show ?thesis by (auto simp: emp_vmdesc_view_add_def ENOMEM_def)
next
  case False
  then obtain n where add: "view_add_locked d s e (\<not> shared) = (r, n, d')"
    and af: "a = of_bool (\<not> shared)" "f = of_bool n"
    using assms(3) by (auto simp: emp_vmdesc_view_add_def Let_def split: prod.splits if_splits)
  show ?thesis
  proof (cases "r = 0")
    case True
    from views.add_done [OF assms(1,2) add [unfolded True]] True False af show ?thesis by auto
  next
    case no: False
    from views.add_failed [OF assms(1,2) add no] no False assms(1) af show ?thesis by auto
  qed
qed

lemma emp_vmdesc_view_split_ok:
  assumes "views_ok d" and "View_Key s e \<in># views_abs d" and "s < mid" and "mid < e"
    and "emp_vmdesc_view_split d s e mid n1 n2 = (r, d', a, f)"
  shows "views_ok d' \<and> length (vw_ovf d') + f = length (vw_ovf d) + a
    \<and> (\<forall>x. covers (views_abs d') x \<longleftrightarrow> covers (views_abs d) x)
    \<and> (if n1 \<and> n2 then r = 0 \<and> views_abs d' =
         views_abs d - {#View_Key s e#} + {#View_Key s mid, View_Key mid e#}
       else r = - ENOMEM \<and> d' = d)"
proof (cases "n1 \<and> n2")
  case False
  with assms show ?thesis by (auto simp: emp_vmdesc_view_split_def Let_def)
next
  case True
  obtain dead d1 where del: "view_del_locked d s e = (dead, d1)" by (cases "view_del_locked d s e")
  obtain r1 m1 d2 where add1: "view_add_locked d1 s mid True = (r1, m1, d2)"
    by (cases "view_add_locked d1 s mid True") auto
  obtain r2 m2 d3 where add2: "view_add_locked d2 mid e True = (r2, m2, d3)"
    by (cases "view_add_locked d2 mid e True") auto
  note sp = views.split_interval [OF assms(1-4) del add1 add2]
  have "(r, d', a, f) = (0, d3, 2, of_bool dead + of_bool m1 + of_bool m2)"
    using assms(5) True del add1 add2 sp
    by (cases dead) (auto simp: emp_vmdesc_view_split_def Let_def of_bool_def)
  with sp views.split_covers [OF assms(2-4)] True show ?thesis by auto
qed

section \<open>What is covered\<close>

lemma covers_simps [simp]:
  "\<not> covers {#} x"
  "covers (V + W) x \<longleftrightarrow> covers V x \<or> covers W x"
  "covers (replicate_mset n k) x \<longleftrightarrow> 0 < n \<and> vk_start k \<le> x \<and> x < vk_end k"
  by (auto simp: covers_def in_replicate_mset)

lemma vk_key_of [simp]: "vk_start (view_key_of v) = vw_start v" "vk_end (view_key_of v) = vw_end v"
  by (simp_all add: view_key_of_def)

lemma covers_chain:
  "chain_ok vs \<Longrightarrow> covers (chain_abs vs) x \<longleftrightarrow> (\<exists>v \<in> set vs. vw_start v \<le> x \<and> x < vw_end v)"
  by (induction vs) auto

lemma chain_starts: "chain_ok (v # vs) \<Longrightarrow> w \<in> set vs \<Longrightarrow> vw_start v \<le> vw_start w"
  by (auto simp: less_view_key_def)

definition uncovered :: "emp_vmdesc_view list \<Rightarrow> nat \<Rightarrow> nat \<Rightarrow> nat set" where
  "uncovered vs s e = {x. s \<le> x \<and> x < e \<and> \<not> (\<exists>v \<in> set vs. vw_start v \<le> x \<and> x < vw_end v)}"

lemma uncovered_walk_spec:
  assumes "chain_ok vs" and "s < e" and "uncovered_walk vs s0 e0 s e = (fine, s', e')"
  shows "if fine then uncovered vs s e = {s'..<e'}
    else s' = s0 \<and> e' = e0 \<and> uncovered vs s e \<noteq> {}"
  using assms
proof (induction vs arbitrary: s)
  case Nil
  then show ?case by (auto simp: uncovered_def)
next
  case (Cons v vs)
  have ok: "chain_ok vs" "0 < vw_count v" "vw_start v < vw_end v" using Cons.prems(1) by auto
  have later: "vw_start v \<le> vw_start w" if "w \<in> set vs" for w
    by (rule chain_starts [OF Cons.prems(1) that])
  have before: "\<not> (vw_start w \<le> x \<and> x < vw_end w)" if "w \<in> set (v # vs)" "x < vw_start v" for w x
    using that later by fastforce
  consider (left) "vw_end v \<le> s" | (right) "s < vw_end v" "vw_start v \<ge> e"
    | (full) "vw_start v \<le> s" "vw_end v \<ge> e"
    | (inner) "s < vw_start v" "vw_end v < e"
    | (cut_l) "s < vw_end v" "vw_start v \<le> s" "vw_end v < e"
    | (cut_r) "s < vw_start v" "vw_start v < e" "vw_end v \<ge> e" by linarith
  then show ?case
  proof cases
    case left
    then have "uncovered (v # vs) s e = uncovered vs s e" by (auto simp: uncovered_def)
    moreover have "uncovered_walk vs s0 e0 s e = (fine, s', e')" using Cons.prems(3) ok(2) left by simp
    ultimately show ?thesis using Cons.IH [OF ok(1) Cons.prems(2)] by simp
  next
    case right
    then have "uncovered (v # vs) s e = {s..<e}"
      using before less_le_trans by (fastforce simp: uncovered_def)
    with right Cons.prems(3) ok(2) show ?thesis by auto
  next
    case full
    with Cons.prems ok(2) show ?thesis by (auto simp: uncovered_def)
  next
    case inner
    then have "s \<in> uncovered (v # vs) s e" using before Cons.prems(2) by (auto simp: uncovered_def)
    with inner Cons.prems(3) ok(2,3) show ?thesis by auto
  next
    case cut_l
    then have "uncovered (v # vs) s e = uncovered vs (vw_end v) e" by (auto simp: uncovered_def)
    moreover have "uncovered_walk vs s0 e0 (vw_end v) e = (fine, s', e')"
      using Cons.prems(3) ok(2) cut_l by simp
    ultimately show ?thesis using Cons.IH [OF ok(1) cut_l(3)] by simp
  next
    case cut_r
    have "x \<in> uncovered (v # vs) s e \<longleftrightarrow> x \<in> {s..<vw_start v}" for x
    proof (cases "x < vw_start v")
      case True
      then have "\<not> (\<exists>w \<in> set (v # vs). vw_start w \<le> x \<and> x < vw_end w)" using before by blast
      with True cut_r(2) show ?thesis by (simp add: uncovered_def)
    next
      case False
      with cut_r show ?thesis by (auto simp: uncovered_def)
    qed
    then have "uncovered (v # vs) s e = {s..<vw_start v}" by blast
    with cut_r Cons.prems(2,3) ok(2,3) show ?thesis by auto
  qed
qed

lemma find_uncovered_ok:
  assumes "views_ok d" and "s < e" and "emp_vmdesc_view_find_uncovered d s e = (fine, s', e')"
  shows "if fine then \<forall>x. s \<le> x \<and> x < e \<and> \<not> covers (views_abs d) x \<longleftrightarrow> s' \<le> x \<and> x < e'
    else s' = s \<and> e' = e \<and> (\<exists>x. s \<le> x \<and> x < e \<and> \<not> covers (views_abs d) x)"
proof (cases "vw_count (vw_emb d) = 0")
  case True
  with assms show ?thesis by (auto simp: emp_vmdesc_view_find_uncovered_def views_ok_def views_abs_def)
next
  case False
  let ?vs = "vw_emb d # vw_ovf d"
  have ok: "chain_ok ?vs" using False assms(1) by (simp add: views_ok_def)
  have "s \<le> x \<and> x < e \<and> \<not> covers (views_abs d) x \<longleftrightarrow> x \<in> uncovered ?vs s e" for x
    unfolding views_abs_def covers_chain [OF ok] by (simp only: uncovered_def mem_Collect_eq)
  moreover have "uncovered_walk ?vs s e s e = (fine, s', e')"
    using assms(3) by (simp only: emp_vmdesc_view_find_uncovered_def)
  ultimately show ?thesis
    using uncovered_walk_spec [OF ok assms(2), of s e fine s' e'] by (auto split: if_splits)
qed

lemma covered_walk_spec:
  "chain_ok vs \<Longrightarrow> s < e \<Longrightarrow> covered_walk vs s e \<longleftrightarrow> (\<exists>x. s \<le> x \<and> x < e \<and> covers (chain_abs vs) x)"
proof (induction vs)
  case (Cons v vs)
  have ok: "chain_ok vs" "0 < vw_count v" "vw_start v < vw_end v" using Cons.prems(1) by auto
  note c = covers_chain [OF Cons.prems(1)]
  consider "vw_start v \<ge> e" | "vw_start v < e" "vw_end v > s" | "vw_start v < e" "vw_end v \<le> s" by linarith
  then show ?case
  proof cases
    case 1
    then have "\<forall>w \<in> set (v # vs). e \<le> vw_start w" using chain_starts [OF Cons.prems(1)] by fastforce
    with 1 ok(2) show ?thesis unfolding c by auto
  next
    case 2
    then have "\<exists>x. s \<le> x \<and> x < e \<and> (\<exists>w \<in> set (v # vs). vw_start w \<le> x \<and> x < vw_end w)"
      using ok(3) Cons.prems(2) by (intro exI [of _ "max s (vw_start v)"]) auto
    with 2 ok(2) show ?thesis unfolding c by simp
  next
    case 3
    with Cons ok show ?thesis by auto
  qed
qed simp

lemma is_covered_ok:
  assumes "views_ok d" and "s < e"
  shows "emp_vmdesc_view_is_covered d s e \<longleftrightarrow> (\<exists>x. s \<le> x \<and> x < e \<and> covers (views_abs d) x)"
proof (cases "vw_count (vw_emb d) = 0")
  case True
  with assms show ?thesis by (auto simp: emp_vmdesc_view_is_covered_def views_ok_def views_abs_def)
next
  case False
  then have "chain_ok (vw_emb d # vw_ovf d)" using assms(1) by (simp add: views_ok_def)
  from covered_walk_spec [OF this assms(2)] show ?thesis
    by (simp only: emp_vmdesc_view_is_covered_def views_abs_def)
qed

end
