(* ===== verification/Emp_List.thy ===== *)
theory Emp_List
  imports Emp_Prelude
begin

text \<open>
  The counted lists of \<^verbatim>\<open>src/module_gpl/lru.h\<close>.  A \<^verbatim>\<open>struct emp_list\<close> is a kernel list head with
  an atomic length and a spin lock, a \<^verbatim>\<open>struct temp_list\<close> the same without the lock.  The nodes
  reachable from the list head are the field \<open>el_head\<close> / \<open>tl_head\<close>, in order, and the counter is
  kept beside them as the code keeps it: that the two agree is a theorem, not a
  definition.  \<^verbatim>\<open>list_splice_tail\<close> does not reinitialise the head it empties; the models keep the
  moved nodes on that head and only the counter is reset, which is why such a list is not well
  formed any more and must not be used again before it is initialised.
\<close>

record 'a emp_list =
  el_len :: int
  el_head :: "'a list"

record 'a temp_list =
  tl_head :: "'a list"
  tl_len :: int

section \<open>Operations\<close>

fun list_num_entry :: "'a list \<Rightarrow> int" where
  "list_num_entry [] = 0"
| "list_num_entry (_ # xs) = list_num_entry xs + 1"

definition init_emp_list :: "'a emp_list" where
  "init_emp_list = \<lparr>el_len = 0, el_head = []\<rparr>"

definition emp_list_len :: "'a emp_list \<Rightarrow> int" where
  "emp_list_len l = el_len l"

definition emp_list_empty :: "'a emp_list \<Rightarrow> bool" where
  "emp_list_empty l \<longleftrightarrow> emp_list_len l = 0"

definition emp_list_pop_head :: "'a emp_list \<Rightarrow> 'a option \<times> 'a emp_list" where
  "emp_list_pop_head l =
     (case el_head l of
        [] \<Rightarrow> (None, l)
      | x # xs \<Rightarrow> (Some x, l\<lparr>el_head := xs, el_len := el_len l - 1\<rparr>))"

text \<open>\<^verbatim>\<open>list->head.next\<close>: the list head itself (no element) when the list is empty.\<close>

definition emp_list_get_head :: "'a emp_list \<Rightarrow> 'a option" where
  "emp_list_get_head l = (case el_head l of [] \<Rightarrow> None | x # _ \<Rightarrow> Some x)"

definition emp_list_add_tail :: "'a \<Rightarrow> 'a emp_list \<Rightarrow> 'a emp_list" where
  "emp_list_add_tail x l = l\<lparr>el_head := el_head l @ [x], el_len := el_len l + 1\<rparr>"

definition emp_list_del_init :: "'a \<Rightarrow> 'a emp_list \<Rightarrow> 'a emp_list" where
  "emp_list_del_init x l = l\<lparr>el_head := remove1 x (el_head l), el_len := el_len l - 1\<rparr>"

definition emp_list_splice_tail ::
    "'a temp_list \<Rightarrow> 'a emp_list \<Rightarrow> 'a temp_list \<times> 'a emp_list" where
  "emp_list_splice_tail add l =
     (add\<lparr>tl_len := 0\<rparr>,
      l\<lparr>el_head := el_head l @ tl_head add, el_len := el_len l + tl_len add\<rparr>)"

definition emp_list_splice_tail_emp_list ::
    "'a emp_list \<Rightarrow> 'a emp_list \<Rightarrow> 'a emp_list \<times> 'a emp_list" where
  "emp_list_splice_tail_emp_list add l =
     (let add_len = el_len add
      in (add\<lparr>el_len := 0\<rparr>,
          l\<lparr>el_head := el_head l @ el_head add, el_len := el_len l + add_len\<rparr>))"

definition emp_list_drain ::
    "'a emp_list \<Rightarrow> 'a temp_list \<Rightarrow> 'a emp_list \<times> 'a temp_list" where
  "emp_list_drain l drain =
     (l\<lparr>el_head := [], el_len := 0\<rparr>,
      drain\<lparr>tl_head := tl_head drain @ el_head l, tl_len := el_len l\<rparr>)"

text \<open>
  \<^verbatim>\<open>list_cut_position(&cut->head, &list->head, pos)\<close> moves the nodes up to and including the one
  at the cursor to \<open>cut\<close>, dropping what \<open>cut\<close> held; the cursor is the position \<open>i\<close> of the node.
\<close>

definition list_cut_at :: "nat \<Rightarrow> 'a list \<Rightarrow> 'a list \<times> 'a list" where
  "list_cut_at i xs = (take (Suc i) xs, drop (Suc i) xs)"

definition emp_list_cut_position ::
    "'a emp_list \<Rightarrow> nat \<Rightarrow> int \<Rightarrow> 'a temp_list \<Rightarrow> 'a emp_list \<times> 'a temp_list" where
  "emp_list_cut_position l i n ct =
     (let (front, rest) = list_cut_at i (el_head l)
      in (l\<lparr>el_head := rest, el_len := el_len l - n\<rparr>,
          ct\<lparr>tl_head := front, tl_len := tl_len ct + n\<rparr>))"

text \<open>The loop \<^verbatim>\<open>while (cnt < count) { pos = pos->next; cnt++; }\<close>, as the position of the cursor.\<close>

function cut_walk :: "int \<Rightarrow> int \<Rightarrow> nat \<Rightarrow> nat" where
  "cut_walk cnt n i = (if cnt < n then cut_walk (cnt + 1) n (Suc i) else i)"
  by pat_completeness auto
termination
  by (relation "measure (\<lambda>(cnt, n, i). nat (n - cnt))") auto

declare cut_walk.simps [simp del]

definition emp_list_cut_count ::
    "'a emp_list \<Rightarrow> int \<Rightarrow> 'a temp_list \<Rightarrow> 'a emp_list \<times> 'a temp_list" where
  "emp_list_cut_count l n ct =
     (if n \<le> 0 then (l, ct)
      else if n \<ge> emp_list_len l then emp_list_drain l ct
      else
        (let pos = cut_walk 1 n 0;
             (front, rest) = list_cut_at pos (el_head l)
         in (l\<lparr>el_head := rest, el_len := el_len l - n\<rparr>,
             ct\<lparr>tl_head := front, tl_len := tl_len ct + n\<rparr>)))"

definition init_temp_list :: "'a temp_list" where
  "init_temp_list = \<lparr>tl_head = [], tl_len = 0\<rparr>"

definition temp_list_len :: "'a temp_list \<Rightarrow> int" where
  "temp_list_len l = tl_len l"

definition temp_list_empty :: "'a temp_list \<Rightarrow> bool" where
  "temp_list_empty l \<longleftrightarrow> temp_list_len l = 0"

definition temp_list_add_tail :: "'a \<Rightarrow> 'a temp_list \<Rightarrow> 'a temp_list" where
  "temp_list_add_tail x l = l\<lparr>tl_head := tl_head l @ [x], tl_len := tl_len l + 1\<rparr>"

definition temp_list_del_init :: "'a \<Rightarrow> 'a temp_list \<Rightarrow> 'a temp_list" where
  "temp_list_del_init x l = l\<lparr>tl_head := remove1 x (tl_head l), tl_len := tl_len l - 1\<rparr>"

definition temp_list_pop_head :: "'a temp_list \<Rightarrow> 'a option \<times> 'a temp_list" where
  "temp_list_pop_head l =
     (case tl_head l of
        [] \<Rightarrow> (None, l)
      | x # xs \<Rightarrow> (Some x, l\<lparr>tl_head := xs, tl_len := tl_len l - 1\<rparr>))"

section \<open>Well-formedness\<close>

definition emp_list_ok :: "'a emp_list \<Rightarrow> bool" where
  "emp_list_ok l \<longleftrightarrow> el_len l = int (length (el_head l))"

definition temp_list_ok :: "'a temp_list \<Rightarrow> bool" where
  "temp_list_ok l \<longleftrightarrow> tl_len l = int (length (tl_head l))"

lemma list_num_entry_length: "list_num_entry xs = int (length xs)"
  by (induction xs) auto

lemma cut_walk_eq: "cut_walk cnt n i = i + nat (n - cnt)"
proof (induction cnt n i rule: cut_walk.induct)
  case (1 cnt n i)
  then show ?case by (auto simp: cut_walk.simps [of cnt n i])
qed

lemma emp_list_init_ok [simp]: "emp_list_ok init_emp_list"
  and temp_list_init_ok [simp]: "temp_list_ok init_temp_list"
  by (simp_all add: emp_list_ok_def init_emp_list_def temp_list_ok_def init_temp_list_def)

lemma init_emp_list_head [simp]: "el_head init_emp_list = []"
  and init_temp_list_head [simp]: "tl_head init_temp_list = []"
  and init_temp_list_len [simp]: "tl_len init_temp_list = 0"
  by (simp_all add: init_emp_list_def init_temp_list_def)

lemma emp_list_add_tail_ok: "emp_list_ok (emp_list_add_tail x l) \<longleftrightarrow> emp_list_ok l"
  by (simp add: emp_list_ok_def emp_list_add_tail_def)

lemma emp_list_add_tail_head [simp]: "el_head (emp_list_add_tail x l) = el_head l @ [x]"
  by (simp add: emp_list_add_tail_def)

lemma emp_list_pop_head_ok: "emp_list_ok l \<Longrightarrow> emp_list_ok (snd (emp_list_pop_head l))"
  by (auto simp: emp_list_ok_def emp_list_pop_head_def split: list.splits)

lemma emp_list_pop_head_conserves:
  "mset (el_head l) = (case fst (emp_list_pop_head l) of None \<Rightarrow> {#} | Some x \<Rightarrow> {#x#})
     + mset (el_head (snd (emp_list_pop_head l)))"
  by (auto simp: emp_list_pop_head_def split: list.splits)

lemma emp_list_pop_head_None: "fst (emp_list_pop_head l) = None \<longleftrightarrow> el_head l = []"
  by (auto simp: emp_list_pop_head_def split: list.splits)

lemma emp_list_del_init_ok:
  assumes "emp_list_ok l" and "x \<in> set (el_head l)"
  shows "emp_list_ok (emp_list_del_init x l)"
proof -
  have "Suc (length (remove1 x (el_head l))) = length (el_head l)"
    using assms(2) length_pos_if_in_set [OF assms(2)] by (simp add: length_remove1)
  with assms(1) show ?thesis by (simp add: emp_list_ok_def emp_list_del_init_def)
qed

lemma emp_list_splice_tail_ok:
  "emp_list_ok l \<Longrightarrow> temp_list_ok add \<Longrightarrow> emp_list_ok (snd (emp_list_splice_tail add l))"
  by (simp add: emp_list_ok_def temp_list_ok_def emp_list_splice_tail_def)

lemma emp_list_splice_tail_head [simp]:
  "el_head (snd (emp_list_splice_tail add l)) = el_head l @ tl_head add"
  by (simp add: emp_list_splice_tail_def)

lemma emp_list_splice_emp_list_ok:
  "emp_list_ok l \<Longrightarrow> emp_list_ok add \<Longrightarrow>
     emp_list_ok (snd (emp_list_splice_tail_emp_list add l))"
  by (simp add: emp_list_ok_def emp_list_splice_tail_emp_list_def)

lemma emp_list_splice_emp_list_head [simp]:
  "el_head (snd (emp_list_splice_tail_emp_list add l)) = el_head l @ el_head add"
  by (simp add: emp_list_splice_tail_emp_list_def)

text \<open>Cutting with an empty target is \<open>take\<close> and \<open>drop\<close>, whatever branch is taken.\<close>

lemma emp_list_cut_count_take:
  assumes "emp_list_ok l"
  shows "emp_list_cut_count l n init_temp_list =
    (l\<lparr>el_head := drop (nat n) (el_head l), el_len := int (length (el_head l) - nat n)\<rparr>,
     \<lparr>tl_head = take (nat n) (el_head l), tl_len = int (min (nat n) (length (el_head l)))\<rparr>)"
proof -
  consider "n \<le> 0" | "0 < n" "n \<ge> el_len l" | "0 < n" "n < el_len l" by linarith
  then show ?thesis
  proof cases
    case 1
    with assms show ?thesis
      by (simp add: emp_list_cut_count_def emp_list_ok_def init_temp_list_def)
  next
    case 2
    then have "length (el_head l) \<le> nat n" using assms by (simp add: emp_list_ok_def)
    with 2 assms show ?thesis
      by (simp add: emp_list_cut_count_def emp_list_len_def emp_list_drain_def init_temp_list_def
          emp_list_ok_def)
  next
    case 3
    then have "Suc (nat (n - 1)) = nat n" and "nat n < length (el_head l)"
      using assms by (simp_all add: emp_list_ok_def)
    with 3 assms show ?thesis
      by (simp add: emp_list_cut_count_def emp_list_len_def cut_walk_eq list_cut_at_def
          init_temp_list_def emp_list_ok_def)
  qed
qed

lemma emp_list_cut_count_ok:
  assumes "emp_list_ok l"
  shows "emp_list_ok (fst (emp_list_cut_count l n init_temp_list))"
    and "temp_list_ok (snd (emp_list_cut_count l n init_temp_list))"
  by (simp_all add: emp_list_cut_count_take [OF assms] emp_list_ok_def temp_list_ok_def)

lemma emp_list_cut_count_conserves:
  assumes "emp_list_ok l" and "emp_list_cut_count l n init_temp_list = (l', ct)"
  shows "mset (tl_head ct) + mset (el_head l') = mset (el_head l)"
  using assms by (auto simp: emp_list_cut_count_take)

lemma temp_list_pop_head_ok: "temp_list_ok l \<Longrightarrow> temp_list_ok (snd (temp_list_pop_head l))"
  by (auto simp: temp_list_ok_def temp_list_pop_head_def split: list.splits)

lemma temp_list_add_tail_ok [simp]: "temp_list_ok (temp_list_add_tail x l) \<longleftrightarrow> temp_list_ok l"
  by (simp add: temp_list_ok_def temp_list_add_tail_def)

section \<open>The interface of a counted list\<close>

text \<open>
  What the page allocator and the reclaimer rely on: a first-in first-out list with a reliable
  length, from which a prefix can be cut and to which it can be spliced.
\<close>

locale counted_list =
  fixes ok :: "'l \<Rightarrow> bool" and items :: "'l \<Rightarrow> 'a list" and len :: "'l \<Rightarrow> int"
    and tok :: "'t \<Rightarrow> bool" and titems :: "'t \<Rightarrow> 'a list" and tlen :: "'t \<Rightarrow> int"
    and push_l :: "'a \<Rightarrow> 'l \<Rightarrow> 'l" and pop_l :: "'l \<Rightarrow> 'a option \<times> 'l"
    and cut_l :: "'l \<Rightarrow> int \<Rightarrow> 'l \<times> 't" and splice_l :: "'t \<Rightarrow> 'l \<Rightarrow> 'l"
  assumes len_ok: "ok l \<Longrightarrow> len l = int (length (items l))"
    and tlen_ok: "tok t \<Longrightarrow> tlen t = int (length (titems t))"
    and push_spec: "ok l \<Longrightarrow> ok (push_l x l) \<and> items (push_l x l) = items l @ [x]"
    and pop_spec: "ok l \<Longrightarrow> pop_l l = (r, l') \<Longrightarrow>
      ok l' \<and> (case r of None \<Rightarrow> items l = [] \<and> l' = l | Some x \<Rightarrow> items l = x # items l')"
    and cut_spec: "ok l \<Longrightarrow> cut_l l n = (l', t) \<Longrightarrow>
      ok l' \<and> tok t \<and> titems t = take (nat n) (items l) \<and> items l' = drop (nat n) (items l)"
    and splice_spec: "ok l \<Longrightarrow> tok t \<Longrightarrow>
      ok (splice_l t l) \<and> items (splice_l t l) = items l @ titems t"
begin

lemma empty_iff: "ok l \<Longrightarrow> len l = 0 \<longleftrightarrow> items l = []"
  by (simp add: len_ok)

lemma cut_conserves:
  "ok l \<Longrightarrow> cut_l l n = (l', t) \<Longrightarrow> mset (titems t) + mset (items l') = mset (items l)"
  using cut_spec by fastforce

text \<open>Moving a prefix loses nothing, keeps the order and never makes a length negative.\<close>

lemma move_prefix:
  assumes "ok l" and "ok g" and "cut_l l n = (l', t)"
  shows "ok l' \<and> ok (splice_l t g) \<and> items (splice_l t g) = items g @ take (nat n) (items l)
    \<and> mset (items l') + mset (items (splice_l t g)) = mset (items l) + mset (items g)"
proof -
  note c = cut_spec [OF assms(1,3)]
  note sp = splice_spec [OF assms(2), of t]
  have "mset (items l) = mset (take (nat n) (items l)) + mset (drop (nat n) (items l))" by simp
  with c sp show ?thesis by (simp add: ac_simps)
qed

lemma move_back:
  assumes "ok l" and "cut_l l n = (l', t)"
  shows "ok (splice_l t l') \<and> mset (items (splice_l t l')) = mset (items l)
    \<and> len (splice_l t l') = len l"
proof -
  note c = cut_spec [OF assms]
  have sp: "ok (splice_l t l')" "items (splice_l t l') = drop (nat n) (items l) @ take (nat n) (items l)"
    using splice_spec [of l' t] c by auto
  have m: "mset (items (splice_l t l')) = mset (items l)" by (simp add: sp(2))
  then show ?thesis
    using sp(1) len_ok assms(1) mset_eq_length [OF m] by simp
qed

lemma cut_length: "ok l \<Longrightarrow> cut_l l n = (l', t) \<Longrightarrow> 0 \<le> n \<Longrightarrow> n \<le> len l \<Longrightarrow>
    tlen t = n \<and> len l' = len l - n"
  using cut_spec [of l n l' t] len_ok [of l] len_ok [of l'] tlen_ok [of t] by auto

end

interpretation el: counted_list emp_list_ok el_head emp_list_len temp_list_ok tl_head temp_list_len
    emp_list_add_tail emp_list_pop_head "\<lambda>l n. emp_list_cut_count l n init_temp_list"
    "\<lambda>t l. snd (emp_list_splice_tail t l)"
proof unfold_locales
  fix l l' :: "'a emp_list" and t :: "'a temp_list" and x :: 'a and r :: "'a option" and n :: int
  show "emp_list_len l = int (length (el_head l))" if "emp_list_ok l"
    using that by (simp add: emp_list_ok_def emp_list_len_def)
  show "temp_list_len t = int (length (tl_head t))" if "temp_list_ok t"
    using that by (simp add: temp_list_ok_def temp_list_len_def)
  show "emp_list_ok (emp_list_add_tail x l) \<and> el_head (emp_list_add_tail x l) = el_head l @ [x]"
    if "emp_list_ok l" using that by (simp add: emp_list_add_tail_ok)
  show "emp_list_ok l' \<and> (case r of None \<Rightarrow> el_head l = [] \<and> l' = l | Some x \<Rightarrow> el_head l = x # el_head l')"
    if "emp_list_ok l" "emp_list_pop_head l = (r, l')"
    using that emp_list_pop_head_ok [OF that(1)] by (auto simp: emp_list_pop_head_def split: list.splits)
  show "emp_list_ok l' \<and> temp_list_ok t \<and> tl_head t = take (nat n) (el_head l)
      \<and> el_head l' = drop (nat n) (el_head l)"
    if "emp_list_ok l" "emp_list_cut_count l n init_temp_list = (l', t)"
    using that emp_list_cut_count_ok [OF that(1), of n] by (auto simp: emp_list_cut_count_take)
  show "emp_list_ok (snd (emp_list_splice_tail t l))
      \<and> el_head (snd (emp_list_splice_tail t l)) = el_head l @ tl_head t"
    if "emp_list_ok l" "temp_list_ok t"
    using that by (simp add: emp_list_splice_tail_ok)
qed

end
