(* ===== verification/Vcpu_Ring.thy ===== *)
theory Vcpu_Ring
  imports Emp_Prelude
begin

text \<open>
  The ring of cpu ids (\<^verbatim>\<open>src/module_gpl/vcpu_var.h\<close>): I/O threads have the ids \<open>-P\<close> to \<open>-1\<close>, one per
  possible cpu, KVM threads \<open>1\<close> to \<open>V - 1\<close>; 0 does not exist.  \<open>P\<close> is \<^verbatim>\<open>emm->possible_cpus\<close> and \<open>V\<close>
  is \<^verbatim>\<open>EMP_KVM_VCPU_LEN(emm)\<close>.
\<close>

definition emp_get_next_cpu_id :: "nat \<Rightarrow> nat \<Rightarrow> int \<Rightarrow> int" where
  "emp_get_next_cpu_id P V i =
     (let next_id = i + 1;
          next_id = (if next_id = 0 then next_id + 1 else next_id)
      in if next_id \<ge> int V then - int P else next_id)"

text \<open>
  \<^verbatim>\<open>for_all_vcpus_from(vcpu, cpu_id, start_cpu, emm)\<close>: the start first, then the ring until the start
  comes up again.  The ids the body is run with, in order; the fuel is the size of the ring, which
  is enough (\<open>vcpu_ring_fuel\<close>).
\<close>

fun vcpu_walk :: "nat \<Rightarrow> nat \<Rightarrow> nat \<Rightarrow> int \<Rightarrow> int \<Rightarrow> int list" where
  "vcpu_walk 0 P V start cur = []"
| "vcpu_walk (Suc n) P V start cur =
     (if cur = start then [] else cur # vcpu_walk n P V start (emp_get_next_cpu_id P V cur))"

definition for_all_vcpus_from :: "nat \<Rightarrow> nat \<Rightarrow> int \<Rightarrow> int list" where
  "for_all_vcpus_from P V start =
     start # vcpu_walk (P + V) P V start (emp_get_next_cpu_id P V start)"

definition cpu_ids :: "nat \<Rightarrow> nat \<Rightarrow> int set" where
  "cpu_ids P V = {- int P ..< 0} \<union> {1 ..< int V}"

section \<open>The ring as positions\<close>

definition ring_len :: "nat \<Rightarrow> nat \<Rightarrow> nat" where
  "ring_len P V = P + (V - 1)"

definition ring_id :: "nat \<Rightarrow> nat \<Rightarrow> int" where
  "ring_id P k = (if k < P then int k - int P else int k - int P + 1)"

lemma ring_id_inj: "ring_id P j = ring_id P k \<longleftrightarrow> j = k"
  by (auto simp: ring_id_def split: if_splits)

lemma ring_ids: "cpu_ids P V = ring_id P ` {..<ring_len P V}"
proof (intro set_eqI iffI)
  fix i assume i: "i \<in> cpu_ids P V"
  show "i \<in> ring_id P ` {..<ring_len P V}"
  proof (cases "i < 0")
    case True
    with i have "i = ring_id P (nat (i + int P))" "nat (i + int P) < ring_len P V"
      by (auto simp: cpu_ids_def ring_id_def ring_len_def)
    then show ?thesis by blast
  next
    case False
    with i have "i = ring_id P (nat (i + int P - 1))" "nat (i + int P - 1) < ring_len P V"
      by (auto simp: cpu_ids_def ring_id_def ring_len_def)
    then show ?thesis by blast
  qed
next
  fix i assume "i \<in> ring_id P ` {..<ring_len P V}"
  then show "i \<in> cpu_ids P V"
    by (auto simp: cpu_ids_def ring_id_def ring_len_def split: if_splits)
qed

lemma next_ring_id:
  "0 < P \<Longrightarrow> k < ring_len P V \<Longrightarrow>
     emp_get_next_cpu_id P V (ring_id P k) = ring_id P (if Suc k = ring_len P V then 0 else Suc k)"
  by (auto simp: emp_get_next_cpu_id_def ring_id_def ring_len_def Let_def split: if_splits)

text \<open>Positions after \<open>s\<close>, cyclically.\<close>

definition ring_pos :: "nat \<Rightarrow> nat \<Rightarrow> nat \<Rightarrow> nat" where
  "ring_pos n s j = (s + j) mod n"

lemma ring_pos_step:
  assumes "0 < n" and "s < n"
  shows "(if Suc (ring_pos n s j) = n then 0 else Suc (ring_pos n s j)) = ring_pos n s (Suc j)"
  using mod_Suc [of "s + j" n] by (simp add: ring_pos_def)

lemma ring_pos_eq_start: "s < n \<Longrightarrow> j < n \<Longrightarrow> ring_pos n s j = s \<longleftrightarrow> j = 0"
proof
  assume a: "s < n" "j < n" "ring_pos n s j = s"
  have "s + j < n + n" using a by simp
  then have "(s + j) mod n = (if s + j < n then s + j else s + j - n)"
    by (simp add: mod_if)
  with a show "j = 0" by (auto simp: ring_pos_def split: if_splits)
qed (simp add: ring_pos_def)

lemma next_ring_pos:
  assumes "0 < P" and "s < ring_len P V"
  shows "emp_get_next_cpu_id P V (ring_id P (ring_pos (ring_len P V) s j)) =
    ring_id P (ring_pos (ring_len P V) s (Suc j))"
proof -
  have n: "0 < ring_len P V" using assms(2) by simp
  then have lt: "ring_pos (ring_len P V) s j < ring_len P V" by (simp add: ring_pos_def)
  show ?thesis
    unfolding next_ring_id [OF assms(1) lt] ring_pos_step [OF n assms(2)] ..
qed

lemma next_ring_start:
  assumes "0 < P" and "s < ring_len P V"
  shows "emp_get_next_cpu_id P V (ring_id P s) = ring_id P (ring_pos (ring_len P V) s 1)"
  using next_ring_pos [OF assms, of 0] assms(2) by (simp add: ring_pos_def)

lemma vcpu_walk_eq:
  assumes "0 < P" and "n = ring_len P V" and "s < n" and "1 \<le> j" and "j \<le> n" and "n - j \<le> fuel"
  shows "vcpu_walk fuel P V (ring_id P s) (ring_id P (ring_pos n s j)) =
    map (\<lambda>j. ring_id P (ring_pos n s j)) [j ..< n]"
  using assms(4-6)
proof (induction fuel arbitrary: j)
  case 0
  then show ?case by simp
next
  case (Suc fuel)
  show ?case
  proof (cases "j = n")
    case True
    then have "ring_pos n s j = s" using assms(3) by (simp add: ring_pos_def)
    with True show ?thesis by simp
  next
    case False
    then have j: "j < n" using Suc.prems by simp
    have nx: "emp_get_next_cpu_id P V (ring_id P (ring_pos n s j)) = ring_id P (ring_pos n s (Suc j))"
      using next_ring_pos [OF assms(1)] assms(2,3) by simp
    have "ring_id P (ring_pos n s j) \<noteq> ring_id P s"
      using ring_pos_eq_start [OF assms(3) j] Suc.prems(1) by (simp add: ring_id_inj)
    then show ?thesis using Suc.IH [of "Suc j"] Suc.prems j nx by (simp add: upt_rec [of j n])
  qed
qed

lemma for_all_vcpus_eq:
  assumes "0 < P" and "s < ring_len P V"
  shows "for_all_vcpus_from P V (ring_id P s) =
    map (\<lambda>j. ring_id P (ring_pos (ring_len P V) s j)) [0 ..< ring_len P V]"
proof -
  let ?n = "ring_len P V"
  have n: "0 < ?n" using assms(2) by simp
  note nx = next_ring_start [OF assms]
  have b: "1 \<le> ?n" "?n - 1 \<le> P + V" using n by (auto simp: ring_len_def)
  have "vcpu_walk (P + V) P V (ring_id P s) (ring_id P (ring_pos ?n s 1)) =
      map (\<lambda>j. ring_id P (ring_pos ?n s j)) [1 ..< ?n]"
    by (rule vcpu_walk_eq [OF assms(1) refl assms(2) order_refl b])
  then show ?thesis
    using nx n assms(2) by (simp add: for_all_vcpus_from_def upt_rec [of 0 ?n] ring_pos_def)
qed

lemma ring_pos_inj: "s < n \<Longrightarrow> inj_on (ring_pos n s) {..<n}"
proof (rule inj_onI)
  fix x y assume a: "s < n" "x \<in> {..<n}" "y \<in> {..<n}" "ring_pos n s x = ring_pos n s y"
  have m: "(s + z) mod n = (if s + z < n then s + z else s + z - n)" if "z < n" for z
    using a(1) that by (simp add: mod_if)
  show "x = y" using a m [of x] m [of y] by (auto simp: ring_pos_def split: if_splits)
qed

lemma for_all_vcpus_ok:
  assumes "0 < P" and "start \<in> cpu_ids P V"
  shows "distinct (for_all_vcpus_from P V start) \<and> set (for_all_vcpus_from P V start) = cpu_ids P V
    \<and> hd (for_all_vcpus_from P V start) = start"
proof -
  let ?n = "ring_len P V"
  from assms(2) obtain s where s: "s < ?n" "start = ring_id P s" by (auto simp: ring_ids)
  note e = for_all_vcpus_eq [OF assms(1) s(1), folded s(2)]
  have inj: "inj_on (\<lambda>j. ring_id P (ring_pos ?n s j)) {..<?n}"
    using ring_pos_inj [OF s(1)] by (auto simp: inj_on_def ring_id_inj)
  have "ring_pos ?n s ` {..<?n} = {..<?n}"
    using ring_pos_inj [OF s(1)] s(1) by (intro endo_inj_surj) (auto simp: ring_pos_def)
  then have "(\<lambda>j. ring_id P (ring_pos ?n s j)) ` {..<?n} = cpu_ids P V"
    unfolding ring_ids by (metis image_image)
  then have "distinct (for_all_vcpus_from P V start) \<and> set (for_all_vcpus_from P V start) = cpu_ids P V"
    using inj by (simp add: e distinct_map lessThan_atLeast0)
  then show ?thesis by (simp add: for_all_vcpus_from_def)
qed

text \<open>More fuel changes nothing: the walk has met its start.\<close>

lemma vcpu_ring_fuel:
  assumes "0 < P" and "start \<in> cpu_ids P V"
  shows "vcpu_walk (P + V + k) P V start (emp_get_next_cpu_id P V start) =
    vcpu_walk (P + V) P V start (emp_get_next_cpu_id P V start)"
proof -
  let ?n = "ring_len P V"
  from assms(2) obtain s where s: "s < ?n" "start = ring_id P s" by (auto simp: ring_ids)
  then have n: "0 < ?n" by simp
  have b: "1 \<le> ?n" "?n - 1 \<le> P + V" "?n - 1 \<le> P + V + k" using n by (auto simp: ring_len_def)
  show ?thesis
    unfolding s(2) next_ring_start [OF assms(1) s(1)]
      vcpu_walk_eq [OF assms(1) refl s(1) order_refl b(1,2)]
      vcpu_walk_eq [OF assms(1) refl s(1) order_refl b(1,3)] ..
qed

end
