(* ===== verification/Free_Pages.thy ===== *)
theory Free_Pages
  imports Emp_List Vcpu_Ring Donor_Mgmt
begin

text \<open>
  The allocator of local pages (\<^verbatim>\<open>src/module_gpl/alloc.c\<close>): a free list per cpu, a global one, and the
  host behind them.  \<open>alloc_pages_len\<close> counts the pages taken from the host; the part of it that is
  on no list is in use by blocks (\<open>used_pages\<close>).

  A cpu is its id, \<open>local_free_bufs\<close> gives its list.  What other cpus do between two atomic operations,
  whether a trylock succeeds and what the host, the write-back, the reclaimer and the sleep answer are
  parameters.  A page is locked while it is on a list; \<open>host_freed\<close> records the pages given back.
\<close>

record emp_ftm =
  local_cache_pages :: int
  local_cache_pages_headroom :: int
  alloc_pages_len :: int
  free_page_list :: "nat emp_list"
  local_free_bufs :: "int \<Rightarrow> nat emp_list"
  free_pages_reclaim :: int
  per_vcpu_free_lpages_len :: int
  pg_locked :: "nat set"
  pg_unevictable :: "nat set"
  pg_mapping :: "nat \<Rightarrow> (nat \<times> nat) option"
  host_freed :: "nat list"
  possible_cpus :: nat
  emp_vcpus_len :: nat
  ft_block_order :: nat
  ft_subblock_order :: nat

definition ENXIO :: int where "ENXIO = 6"
definition EINTR :: int where "EINTR = 4"

definition bvma_subblock_size :: "emp_ftm \<Rightarrow> int" where
  "bvma_subblock_size e = 2 ^ ft_subblock_order e"

definition bvma_sib_size :: "emp_ftm \<Rightarrow> int" where
  "bvma_sib_size e = 2 ^ (ft_block_order e - ft_subblock_order e)"

definition LOCAL_CACHE_MAX :: "emp_ftm \<Rightarrow> int" where
  "LOCAL_CACHE_MAX e = local_cache_pages e + local_cache_pages_headroom e"

abbreviation get_local_free_list :: "emp_ftm \<Rightarrow> int \<Rightarrow> nat emp_list" where
  "get_local_free_list \<equiv> local_free_bufs"

definition set_local :: "emp_ftm \<Rightarrow> int \<Rightarrow> nat emp_list \<Rightarrow> emp_ftm" where
  "set_local e c l = e\<lparr>local_free_bufs := (local_free_bufs e)(c := l)\<rparr>"

definition emp_clear_page_mapping_and_index :: "emp_ftm \<Rightarrow> nat \<Rightarrow> emp_ftm" where
  "emp_clear_page_mapping_and_index e p = e\<lparr>pg_mapping := (pg_mapping e)(p := None)\<rparr>"

definition emp_lock_page :: "emp_ftm \<Rightarrow> nat \<Rightarrow> emp_ftm" where
  "emp_lock_page e p = e\<lparr>pg_locked := insert p (pg_locked e)\<rparr>"

definition emp_unlock_page :: "emp_ftm \<Rightarrow> nat \<Rightarrow> emp_ftm" where
  "emp_unlock_page e p = e\<lparr>pg_locked := pg_locked e - {p}\<rparr>"

definition emp_free_pages :: "emp_ftm \<Rightarrow> nat \<Rightarrow> emp_ftm" where
  "emp_free_pages e p = e\<lparr>host_freed := host_freed e @ [p]\<rparr>"

section \<open>Giving a page back\<close>

definition is_local_free_pages_list_empty :: "emp_ftm \<Rightarrow> int \<Rightarrow> bool" where
  "is_local_free_pages_list_empty e cpu_id \<longleftrightarrow> emp_list_len (get_local_free_list e cpu_id) = 0"

text \<open>
  \<open>stolen\<close> is what other cpus take from \<open>free_pages_reclaim\<close> between its read and the subtraction,
  \<open>trylock\<close> whether the global list's lock was free.
\<close>

definition push_to_global :: "emp_ftm \<Rightarrow> nat temp_list \<Rightarrow> emp_ftm" where
  "push_to_global e to_global =
     e\<lparr>free_page_list := snd (emp_list_splice_tail to_global (free_page_list e))\<rparr>"

definition push_on_lists :: "emp_ftm \<Rightarrow> nat \<Rightarrow> int option \<Rightarrow> bool \<Rightarrow> emp_ftm" where
  "push_on_lists e page cpu trylock =
     (let free_lpages_len = per_vcpu_free_lpages_len e
      in case cpu of
           Some c \<Rightarrow>
             (let local_list = emp_list_add_tail page (get_local_free_list e c);
                  e = set_local e c local_list
              in if emp_list_len local_list \<le> free_lpages_len then e
                 else
                   let n = emp_list_len local_list - drop_bit 1 free_lpages_len;
                       (local_list, to_global) = emp_list_cut_count local_list n init_temp_list;
                       e = set_local e c local_list;
                       ct = temp_list_len to_global
                   in if ct = 0 then e
                      else if ct < free_lpages_len \<and> \<not> trylock
                      then set_local e c (snd (emp_list_splice_tail to_global local_list))
                      else push_to_global e to_global)
         | None \<Rightarrow> push_to_global e (temp_list_add_tail page init_temp_list))"

definition push_free_page_list :: "emp_ftm \<Rightarrow> nat \<Rightarrow> int option \<Rightarrow> int \<Rightarrow> bool \<Rightarrow> emp_ftm" where
  "push_free_page_list e page cpu stolen trylock =
     (let subblock_size = bvma_subblock_size e;
          e = emp_clear_page_mapping_and_index e page
      in if free_pages_reclaim e \<ge> subblock_size then
           let r = free_pages_reclaim e - stolen - subblock_size
           in if r \<ge> 0
              then (emp_free_pages (emp_unlock_page e page) page)
                     \<lparr>free_pages_reclaim := r, alloc_pages_len := alloc_pages_len e - subblock_size\<rparr>
              else push_on_lists (e\<lparr>free_pages_reclaim := r + subblock_size\<rparr>) page cpu trylock
         else push_on_lists e page cpu trylock)"

section \<open>Taking a page\<close>

definition get_next_free_page :: "nat emp_list \<Rightarrow> nat option \<times> nat emp_list" where
  "get_next_free_page l = emp_list_pop_head l"

definition pop_free_page_list_local :: "emp_ftm \<Rightarrow> int \<Rightarrow> nat option \<times> emp_ftm" where
  "pop_free_page_list_local e cpu =
     (let local_list = get_local_free_list e cpu
      in if emp_list_len local_list = 0 then (None, e)
         else let (p, l) = get_next_free_page local_list in (p, set_local e cpu l))"

text \<open>\<open>host\<close> is what \<^verbatim>\<open>emp_alloc_pages\<close> returns, \<open>poisoned\<close> \<^verbatim>\<open>PageHWPoison\<close> of it.\<close>

definition alloc_subblock :: "emp_ftm \<Rightarrow> nat option \<Rightarrow> bool \<Rightarrow> nat option \<times> emp_ftm" where
  "alloc_subblock e host poisoned =
     (case host of
        None \<Rightarrow> (None, e)
      | Some page \<Rightarrow>
          if poisoned then (None, emp_free_pages e page)
          else (Some page,
                (emp_lock_page e page)\<lparr>alloc_pages_len := alloc_pages_len e + bvma_subblock_size e\<rparr>))"

text \<open>The loop over the other cpus' lists.\<close>

fun pull_remote :: "emp_ftm \<Rightarrow> int \<Rightarrow> int \<Rightarrow> int list \<Rightarrow> nat temp_list \<times> emp_ftm" where
  "pull_remote e local_cpu num_pull [] = (init_temp_list, e)"
| "pull_remote e local_cpu num_pull (cpu # cpus) =
     (if cpu = local_cpu then pull_remote e local_cpu num_pull cpus
      else
        let remote_list = get_local_free_list e cpu
        in if emp_list_len remote_list = 0 then pull_remote e local_cpu num_pull cpus
           else
             let (l, pull) = emp_list_cut_count remote_list num_pull init_temp_list;
                 e' = set_local e cpu l
             in if temp_list_len pull > 0 then (pull, e')
                else pull_remote e' local_cpu num_pull cpus)"

definition pull_pages :: "emp_ftm \<Rightarrow> int \<Rightarrow> nat temp_list \<times> emp_ftm" where
  "pull_pages e local_cpu =
     (let num_pull = bvma_sib_size e;
          (pull, e1) =
            (if emp_list_len (free_page_list e) > 0
             then let (l, pull) = emp_list_cut_count (free_page_list e) num_pull init_temp_list
                  in (pull, e\<lparr>free_page_list := l\<rparr>)
             else (init_temp_list, e))
      in if temp_list_len pull = 0
         then pull_remote e1 local_cpu num_pull
                (for_all_vcpus_from (possible_cpus e1) (emp_vcpus_len e1) local_cpu)
         else (pull, e1))"

definition pop_free_page_list_global :: "emp_ftm \<Rightarrow> int \<Rightarrow> nat option \<times> emp_ftm" where
  "pop_free_page_list_global e local_cpu =
     (let local_list = get_local_free_list e local_cpu;
          (page, e1) =
            (if emp_list_len local_list > 0
             then let (p, l) = get_next_free_page local_list in (p, set_local e local_cpu l)
             else (None, e))
      in if page \<noteq> None then (page, e1)
         else
           let (pull, e2) = pull_pages e1 local_cpu
           in if temp_list_len pull = 0 then (None, e2)
              else
                let (page, pull') = temp_list_pop_head pull
                in (page,
                    if temp_list_len pull' > 0
                    then set_local e2 local_cpu
                           (snd (emp_list_splice_tail pull' (get_local_free_list e2 local_cpu)))
                    else e2))"

definition check_alloc_pages_available :: "emp_ftm \<Rightarrow> bool" where
  "check_alloc_pages_available e \<longleftrightarrow> alloc_pages_len e < LOCAL_CACHE_MAX e"

definition alloc_page_from_host :: "emp_ftm \<Rightarrow> nat option \<Rightarrow> bool \<Rightarrow> nat option \<times> emp_ftm" where
  "alloc_page_from_host e host poisoned =
     (if \<not> check_alloc_pages_available e then (None, e) else alloc_subblock e host poisoned)"

definition wait_pages_condition :: "emp_ftm \<Rightarrow> int \<Rightarrow> bool" where
  "wait_pages_condition e cpu \<longleftrightarrow> \<not> is_local_free_pages_list_empty e cpu
     \<or> emp_list_len (free_page_list e) \<noteq> 0 \<or> alloc_pages_len e < LOCAL_CACHE_MAX e"

definition flush_local_free_pages :: "emp_ftm \<Rightarrow> int \<Rightarrow> emp_ftm" where
  "flush_local_free_pages e cpu =
     (let (l, g) = emp_list_splice_tail_emp_list (get_local_free_list e cpu) (free_page_list e)
      in set_local (e\<lparr>free_page_list := g\<rparr>) cpu l)"

text \<open>The body of the loop of \<^verbatim>\<open>alloc_exit()\<close>, over the nodes met.\<close>

definition alloc_exit_page :: "nat \<Rightarrow> emp_ftm \<Rightarrow> emp_ftm" where
  "alloc_exit_page page e =
     (let e = e\<lparr>free_page_list := emp_list_del_init page (free_page_list e)\<rparr>;
          e = emp_unlock_page e page;
          e = e\<lparr>pg_unevictable := pg_unevictable e - {page}\<rparr>;
          e = emp_clear_page_mapping_and_index e page
      in emp_free_pages e page)"

definition alloc_exit :: "emp_ftm \<Rightarrow> emp_ftm" where
  "alloc_exit e =
     (let cur = el_head (free_page_list e); e' = fold alloc_exit_page cur e
      in e'\<lparr>alloc_pages_len := alloc_pages_len e' - int (length cur) * bvma_subblock_size e\<rparr>)"

section \<open>The allocation loop\<close>

text \<open>
  The answers of one round of \<^verbatim>\<open>_alloc_pages()\<close>: the host, \<^verbatim>\<open>wait_writeback_async\<close>,
  \<^verbatim>\<open>reclaim_emp_pages\<close>, what happens during the sleep and whether a fatal signal is pending.
\<close>

record alloc_round =
  rd_host :: "nat option"
  rd_poisoned :: bool
  rd_writeback :: "emp_ftm \<Rightarrow> bool \<times> emp_ftm"
  rd_reclaim :: "emp_ftm \<Rightarrow> int \<times> emp_ftm"
  rd_wait :: "emp_ftm \<Rightarrow> emp_ftm"
  rd_fatal :: bool

partial_function (option) alloc_pages_loop ::
    "(nat \<Rightarrow> alloc_round) \<Rightarrow> nat \<Rightarrow> emp_ftm \<Rightarrow> int \<Rightarrow> ((int + nat) \<times> emp_ftm) option" where
  "alloc_pages_loop env k e cpu =
     (case alloc_page_from_host e (rd_host (env k)) (rd_poisoned (env k)) of
        (Some page, e1) \<Rightarrow> Some (Inr page, emp_unlock_page e1 page)
      | (None, e1) \<Rightarrow>
     (case pop_free_page_list_global e1 cpu of
        (Some page, e2) \<Rightarrow> Some (Inr page, emp_unlock_page e2 page)
      | (None, e2) \<Rightarrow>
     (case rd_writeback (env k) e2 of
        (wb, e3) \<Rightarrow>
          if wb \<or> check_alloc_pages_available e3 then alloc_pages_loop env (Suc k) e3 cpu
          else
     (case rd_reclaim (env k) e3 of
        (res, e4) \<Rightarrow>
          if res > 0 then alloc_pages_loop env (Suc k) e4 cpu
          else if res < 0 then Some (Inl (- ENXIO), e4)
          else if check_alloc_pages_available e4 then alloc_pages_loop env (Suc k) e4 cpu
          else if rd_fatal (env k) then Some (Inl (- EINTR), rd_wait (env k) e4)
          else alloc_pages_loop env (Suc k) (rd_wait (env k) e4) cpu))))"

definition alloc_pages :: "(nat \<Rightarrow> alloc_round) \<Rightarrow> emp_ftm \<Rightarrow> int \<Rightarrow> ((int + nat) \<times> emp_ftm) option" where
  "alloc_pages env e cpu =
     map_option
       (\<lambda>(r, e'). case r of
          Inl err \<Rightarrow> (Inl err, e')
        | Inr page \<Rightarrow> (Inr page, e'\<lparr>pg_unevictable := insert page (pg_unevictable e')\<rparr>))
       (case pop_free_page_list_local e cpu of
          (Some page, e1) \<Rightarrow> Some (Inr page, emp_unlock_page e1 page)
        | (None, e1) \<Rightarrow> alloc_pages_loop env 0 e1 cpu)"

section \<open>Accounting\<close>

definition ftm_cpus :: "emp_ftm \<Rightarrow> int set" where
  "ftm_cpus e = cpu_ids (possible_cpus e) (emp_vcpus_len e)"

definition all_pages :: "emp_ftm \<Rightarrow> nat multiset" where
  "all_pages e = mset (el_head (free_page_list e))
     + (\<Sum>c \<in> ftm_cpus e. mset (el_head (local_free_bufs e c)))"

text \<open>Pages taken from the host and on no list.\<close>

definition used_pages :: "emp_ftm \<Rightarrow> int" where
  "used_pages e = alloc_pages_len e - int (size (all_pages e)) * bvma_subblock_size e"

definition lists_ok :: "emp_ftm \<Rightarrow> bool" where
  "lists_ok e \<longleftrightarrow> emp_list_ok (free_page_list e)
     \<and> (\<forall>c \<in> ftm_cpus e. emp_list_ok (local_free_bufs e c)) \<and> 0 < possible_cpus e"

lemma finite_ftm_cpus [simp]: "finite (ftm_cpus e)"
  by (simp add: ftm_cpus_def cpu_ids_def)

text \<open>What an operation on the lists leaves alone.\<close>

definition same_env :: "emp_ftm \<Rightarrow> emp_ftm \<Rightarrow> bool" where
  "same_env e e' \<longleftrightarrow> ftm_cpus e' = ftm_cpus e \<and> possible_cpus e' = possible_cpus e
     \<and> emp_vcpus_len e' = emp_vcpus_len e \<and> bvma_subblock_size e' = bvma_subblock_size e
     \<and> bvma_sib_size e' = bvma_sib_size e \<and> alloc_pages_len e' = alloc_pages_len e
     \<and> per_vcpu_free_lpages_len e' = per_vcpu_free_lpages_len e"

lemmas ftm_frame = ftm_cpus_def bvma_subblock_size_def bvma_sib_size_def

lemma same_env_refl [simp]: "same_env e e"
  by (simp add: same_env_def)

lemma same_env_trans: "same_env a b \<Longrightarrow> same_env b c \<Longrightarrow> same_env a c"
  by (simp add: same_env_def)

lemma same_env_simps [simp]:
  "same_env e (set_local e c l)"
  "same_env e (e\<lparr>free_page_list := g\<rparr>)"
  "same_env e (emp_clear_page_mapping_and_index e p)"
  "same_env e (e\<lparr>free_pages_reclaim := r\<rparr>)"
  "same_env e (push_to_global e t)"
  by (simp_all add: same_env_def ftm_frame set_local_def emp_clear_page_mapping_and_index_def
      push_to_global_def)

lemma set_local_simps [simp]:
  "free_page_list (set_local e c l) = free_page_list e"
  "local_free_bufs (set_local e c l) d = (if d = c then l else local_free_bufs e d)"
  "alloc_pages_len (set_local e c l) = alloc_pages_len e"
  "set_local (set_local e c l) c l' = set_local e c l'"
  by (simp_all add: set_local_def)

lemma all_pages_local:
  assumes "c \<in> ftm_cpus e"
  shows "all_pages (set_local e c l) + mset (el_head (local_free_bufs e c))
    = all_pages e + mset (el_head l)"
proof -
  let ?f = "\<lambda>e c. mset (el_head (local_free_bufs e c))"
  have r: "(\<Sum>d \<in> ftm_cpus e. ?f x d) = ?f x c + (\<Sum>d \<in> ftm_cpus e - {c}. ?f x d)" for x
    using assms by (simp add: sum.remove)
  have rest: "(\<Sum>d \<in> ftm_cpus e - {c}. ?f (set_local e c l) d) = (\<Sum>d \<in> ftm_cpus e - {c}. ?f e d)"
    by (intro sum.cong) auto
  have cpus: "ftm_cpus (set_local e c l) = ftm_cpus e" by (simp add: ftm_frame set_local_def)
  have "(\<Sum>d \<in> ftm_cpus e. ?f (set_local e c l) d) = mset (el_head l) + (\<Sum>d \<in> ftm_cpus e - {c}. ?f e d)"
    unfolding r [of "set_local e c l"] rest by simp
  then show ?thesis
    unfolding all_pages_def cpus r [of e] by (simp only: set_local_simps ac_simps)
qed

lemma all_pages_global:
  "all_pages (e\<lparr>free_page_list := g\<rparr>) + mset (el_head (free_page_list e)) = all_pages e + mset (el_head g)"
  by (simp add: all_pages_def ftm_frame)

lemma lists_ok_local:
  "lists_ok e \<Longrightarrow> emp_list_ok l \<Longrightarrow> lists_ok (set_local e c l)"
  by (simp add: lists_ok_def ftm_frame set_local_def)

lemma lists_ok_global: "lists_ok e \<Longrightarrow> emp_list_ok g \<Longrightarrow> lists_ok (e\<lparr>free_page_list := g\<rparr>)"
  by (simp add: lists_ok_def ftm_frame)

lemma mset_exchange:
  fixes A B C D E :: "'a multiset"
  assumes "A + B = add_mset x C" and "D + C = E + B"
  shows "D + A = add_mset x E"
proof -
  have "D + A + B = add_mset x (D + C)" using assms(1) by (simp add: add.assoc)
  then have "D + A + B = add_mset x E + B" using assms(2) by simp
  then show ?thesis by (metis add_right_cancel)
qed

lemma push_to_global_ok:
  assumes "lists_ok e" and "temp_list_ok t"
  shows "lists_ok (push_to_global e t) \<and> all_pages (push_to_global e t) = all_pages e + mset (tl_head t)"
proof -
  let ?g = "snd (emp_list_splice_tail t (free_page_list e))"
  have "emp_list_ok ?g" "el_head ?g = el_head (free_page_list e) @ tl_head t"
    using el.splice_spec [of "free_page_list e" t] assms by (auto simp: lists_ok_def)
  with lists_ok_global [OF assms(1)] show ?thesis by (simp add: push_to_global_def all_pages_def ftm_frame)
qed

lemma push_on_lists_ok:
  assumes "lists_ok e" and "\<And>c. cpu = Some c \<Longrightarrow> c \<in> ftm_cpus e"
  shows "lists_ok (push_on_lists e page cpu trylock) \<and> same_env e (push_on_lists e page cpu trylock)
    \<and> all_pages (push_on_lists e page cpu trylock) = add_mset page (all_pages e)"
proof (cases cpu)
  case None
  have "temp_list_ok (temp_list_add_tail page init_temp_list)" by simp
  from push_to_global_ok [OF assms(1) this] None show ?thesis
    by (simp add: push_on_lists_def temp_list_add_tail_def)
next
  case (Some c)
  have c: "c \<in> ftm_cpus e" using assms(2) Some .
  let ?l1 = "emp_list_add_tail page (local_free_bufs e c)"
  have l1: "emp_list_ok ?l1" "el_head ?l1 = el_head (local_free_bufs e c) @ [page]"
    using el.push_spec [of "local_free_bufs e c" page] assms(1) c by (auto simp: lists_ok_def)
  let ?n = "emp_list_len ?l1 - drop_bit 1 (per_vcpu_free_lpages_len e)"
  obtain l2 t where cut: "emp_list_cut_count ?l1 ?n init_temp_list = (l2, t)"
    by (cases "emp_list_cut_count ?l1 ?n init_temp_list")
  note cs = el.cut_spec [OF l1(1) cut]
  have all1: "all_pages (set_local e c l) = add_mset page (all_pages e)" if "mset (el_head l) = mset (el_head ?l1)" for l
    using all_pages_local [OF c, of l] that l1(2) by simp
  have ok1: "lists_ok (set_local e c l)" if "emp_list_ok l" for l
    by (rule lists_ok_local [OF assms(1) that])
  consider (short) "emp_list_len ?l1 \<le> per_vcpu_free_lpages_len e"
    | (none) "\<not> emp_list_len ?l1 \<le> per_vcpu_free_lpages_len e" "temp_list_len t = 0"
    | (return) "\<not> emp_list_len ?l1 \<le> per_vcpu_free_lpages_len e" "temp_list_len t \<noteq> 0"
        "temp_list_len t < per_vcpu_free_lpages_len e \<and> \<not> trylock"
    | (glob) "\<not> emp_list_len ?l1 \<le> per_vcpu_free_lpages_len e" "temp_list_len t \<noteq> 0"
        "\<not> (temp_list_len t < per_vcpu_free_lpages_len e \<and> \<not> trylock)" by blast
  then show ?thesis
  proof cases
    case short
    then have "push_on_lists e page cpu trylock = set_local e c ?l1"
      using Some by (simp add: push_on_lists_def Let_def)
    with ok1 [OF l1(1)] all1 [OF refl] show ?thesis by simp
  next
    case none
    then have e: "push_on_lists e page cpu trylock = set_local e c l2"
      using Some cut by (simp add: push_on_lists_def Let_def)
    have "tl_head t = []" using none(2) cs el.tlen_ok [of t] by simp
    then have "mset (el_head l2) = mset (el_head ?l1)"
      using cs by (metis append_Nil append_take_drop_id)
    with e ok1 cs all1 show ?thesis by simp
  next
    case return
    let ?l3 = "snd (emp_list_splice_tail t l2)"
    have e: "push_on_lists e page cpu trylock = set_local e c ?l3"
      using Some cut return by (simp add: push_on_lists_def Let_def)
    from el.move_back [OF l1(1) cut] e ok1 all1 show ?thesis by simp
  next
    case glob
    let ?e = "set_local e c l2"
    have e: "push_on_lists e page cpu trylock = push_to_global ?e t"
      using Some cut glob by (auto simp: push_on_lists_def Let_def)
    have p: "lists_ok (push_to_global ?e t)" "all_pages (push_to_global ?e t) = all_pages ?e + mset (tl_head t)"
      using push_to_global_ok [of ?e t] ok1 cs by auto
    have "mset (tl_head t) + mset (el_head l2) = add_mset page (mset (el_head (local_free_bufs e c)))"
      using el.cut_conserves [OF l1(1) cut] l1(2) by simp
    moreover have "all_pages ?e + mset (el_head (local_free_bufs e c)) = all_pages e + mset (el_head l2)"
      by (rule all_pages_local [OF c])
    ultimately have "all_pages ?e + mset (tl_head t) = add_mset page (all_pages e)"
      by (rule mset_exchange)
    moreover have "same_env e (push_to_global ?e t)"
      using same_env_trans [of e ?e] by simp
    ultimately show ?thesis using e p by simp
  qed
qed

lemma used_pages_same_env:
  "same_env e e' \<Longrightarrow> used_pages e' = used_pages e
     + (int (size (all_pages e)) - int (size (all_pages e'))) * bvma_subblock_size e"
  by (simp add: used_pages_def same_env_def left_diff_distrib)

text \<open>Whatever branch is taken, one subblock leaves use: to the host or to a list.\<close>

lemma push_free_page_list_ok:
  fixes page :: nat and stolen :: int and trylock :: bool
  assumes "lists_ok e" and "\<And>c. cpu = Some c \<Longrightarrow> c \<in> ftm_cpus e"
  defines "e' \<equiv> push_free_page_list e page cpu stolen trylock"
  shows "lists_ok e' \<and> used_pages e' = used_pages e - bvma_subblock_size e
    \<and> (all_pages e' = add_mset page (all_pages e) \<and> host_freed e' = host_freed e
       \<or> all_pages e' = all_pages e \<and> host_freed e' = host_freed e @ [page] \<and> page \<notin> pg_locked e')"
proof -
  let ?e1 = "emp_clear_page_mapping_and_index e page" and ?sz = "bvma_subblock_size e"
  have hf: "host_freed (push_on_lists x page cpu trylock) = host_freed x" for x
    by (simp add: push_on_lists_def push_to_global_def set_local_def Let_def split: option.splits prod.splits)
  have on_lists: "lists_ok (push_on_lists (?e1\<lparr>free_pages_reclaim := r\<rparr>) page cpu trylock)
      \<and> same_env e (push_on_lists (?e1\<lparr>free_pages_reclaim := r\<rparr>) page cpu trylock)
      \<and> all_pages (push_on_lists (?e1\<lparr>free_pages_reclaim := r\<rparr>) page cpu trylock) = add_mset page (all_pages e)"
    for r
  proof -
    let ?x = "?e1\<lparr>free_pages_reclaim := r\<rparr>"
    have x: "lists_ok ?x" "all_pages ?x = all_pages e" "ftm_cpus ?x = ftm_cpus e" "same_env e ?x"
      using assms(1) by (simp_all add: lists_ok_def all_pages_def ftm_frame same_env_def
          emp_clear_page_mapping_and_index_def)
    from push_on_lists_ok [OF x(1), of cpu page trylock] assms(2) x same_env_trans [OF x(4)]
    show ?thesis by simp
  qed
  have lists: ?thesis if e': "e' = push_on_lists (?e1\<lparr>free_pages_reclaim := r\<rparr>) page cpu trylock" for r
    using on_lists [of r] used_pages_same_env [of e e'] hf [of "?e1\<lparr>free_pages_reclaim := r\<rparr>"]
    by (simp add: e' emp_clear_page_mapping_and_index_def left_diff_distrib)
  let ?r = "free_pages_reclaim e - stolen - ?sz"
  have fr: "free_pages_reclaim ?e1 = free_pages_reclaim e"
    by (simp add: emp_clear_page_mapping_and_index_def)
  consider "?sz \<le> free_pages_reclaim e" "0 \<le> ?r" | "?sz \<le> free_pages_reclaim e" "?r < 0"
    | "free_pages_reclaim e < ?sz" by linarith
  then show ?thesis
  proof cases
    case 1
    then have e': "e' = (emp_free_pages (emp_unlock_page ?e1 page) page)
        \<lparr>free_pages_reclaim := ?r, alloc_pages_len := alloc_pages_len ?e1 - ?sz\<rparr>"
      using fr by (simp add: e'_def push_free_page_list_def Let_def)
    have f: "free_page_list e' = free_page_list e" "local_free_bufs e' = local_free_bufs e"
      "ftm_cpus e' = ftm_cpus e" "bvma_subblock_size e' = ?sz" "possible_cpus e' = possible_cpus e"
      "alloc_pages_len e' = alloc_pages_len e - ?sz" "host_freed e' = host_freed e @ [page]"
      "page \<notin> pg_locked e'"
      by (simp_all add: e' emp_free_pages_def emp_unlock_page_def emp_clear_page_mapping_and_index_def
          ftm_frame)
    then have "all_pages e' = all_pages e" by (simp add: all_pages_def)
    with f assms(1) show ?thesis by (simp add: lists_ok_def used_pages_def)
  next
    case 2
    then have "e' = push_on_lists (?e1\<lparr>free_pages_reclaim := ?r + ?sz\<rparr>) page cpu trylock"
      using fr by (simp add: e'_def push_free_page_list_def Let_def)
    then show ?thesis by (rule lists)
  next
    case 3
    then have "e' = push_on_lists (?e1\<lparr>free_pages_reclaim := free_pages_reclaim e\<rparr>) page cpu trylock"
      using fr by (simp add: e'_def push_free_page_list_def emp_clear_page_mapping_and_index_def Let_def)
    then show ?thesis by (rule lists)
  qed
qed

section \<open>Taking pages\<close>

lemma pop_local_ok:
  assumes "lists_ok e" and "cpu \<in> ftm_cpus e"
    and "get_next_free_page (local_free_bufs e cpu) = (r, l)"
  shows "lists_ok (set_local e cpu l) \<and> (case r of
      None \<Rightarrow> el_head (local_free_bufs e cpu) = [] \<and> all_pages (set_local e cpu l) = all_pages e
    | Some p \<Rightarrow> all_pages e = add_mset p (all_pages (set_local e cpu l)))"
proof -
  have ok: "emp_list_ok (local_free_bufs e cpu)" using assms(1,2) by (simp add: lists_ok_def)
  note p = el.pop_spec [OF ok assms(3) [unfolded get_next_free_page_def]]
  note a = all_pages_local [OF assms(2), of l]
  have ls: "lists_ok (set_local e cpu l)" using lists_ok_local [OF assms(1)] p by blast
  show ?thesis
  proof (cases r)
    case None
    with p a ls show ?thesis by simp
  next
    case (Some x)
    then have "el_head (local_free_bufs e cpu) = x # el_head l" using p by simp
    with a Some ls show ?thesis by simp
  qed
qed

lemma pop_free_page_list_local_ok:
  assumes "lists_ok e" and "cpu \<in> ftm_cpus e" and "pop_free_page_list_local e cpu = (r, e')"
  shows "lists_ok e' \<and> same_env e e' \<and> (case r of
      None \<Rightarrow> el_head (local_free_bufs e cpu) = [] \<and> all_pages e' = all_pages e
    | Some p \<Rightarrow> all_pages e = add_mset p (all_pages e'))"
proof (cases "emp_list_len (local_free_bufs e cpu) = 0")
  case True
  then have "el_head (local_free_bufs e cpu) = []"
    using el.empty_iff assms(1,2) by (auto simp: lists_ok_def)
  with True assms show ?thesis by (simp add: pop_free_page_list_local_def)
next
  case False
  obtain l where g: "get_next_free_page (local_free_bufs e cpu) = (r, l)" "e' = set_local e cpu l"
    using False assms(3) by (auto simp: pop_free_page_list_local_def Let_def split: prod.splits)
  from pop_local_ok [OF assms(1,2) g(1)] g(2) show ?thesis by (auto split: option.splits)
qed

lemma cut_remote_ok:
  assumes "lists_ok e" and "cpu \<in> ftm_cpus e"
    and "emp_list_cut_count (local_free_bufs e cpu) n init_temp_list = (l, t)"
  shows "lists_ok (set_local e cpu l) \<and> temp_list_ok t
    \<and> all_pages e = all_pages (set_local e cpu l) + mset (tl_head t)
    \<and> (0 < n \<and> el_head (local_free_bufs e cpu) \<noteq> [] \<longrightarrow> tl_head t \<noteq> [])"
proof -
  have ok: "emp_list_ok (local_free_bufs e cpu)" using assms(1,2) by (simp add: lists_ok_def)
  note c = el.cut_spec [OF ok assms(3)]
  have "all_pages (set_local e cpu l) + mset (el_head (local_free_bufs e cpu)) = all_pages e + mset (el_head l)"
    by (rule all_pages_local [OF assms(2)])
  moreover have "mset (el_head (local_free_bufs e cpu)) = mset (tl_head t) + mset (el_head l)"
    using el.cut_conserves [OF ok assms(3)] by simp
  ultimately have "all_pages (set_local e cpu l) + mset (tl_head t) + mset (el_head l)
      = all_pages e + mset (el_head l)" by (simp add: ac_simps)
  then have "all_pages e = all_pages (set_local e cpu l) + mset (tl_head t)"
    by (metis add_right_cancel)
  with c lists_ok_local [OF assms(1)] show ?thesis by (auto simp: take_eq_Nil)
qed

lemma pull_remote_ok:
  assumes "lists_ok e" and "set cpus \<subseteq> ftm_cpus e" and "0 < n"
    and "pull_remote e me n cpus = (t, e')"
  shows "lists_ok e' \<and> same_env e e' \<and> temp_list_ok t \<and> all_pages e = all_pages e' + mset (tl_head t)
    \<and> local_free_bufs e' me = local_free_bufs e me \<and> free_page_list e' = free_page_list e
    \<and> (tl_head t = [] \<longrightarrow> (\<forall>c \<in> set cpus. c \<noteq> me \<longrightarrow> el_head (local_free_bufs e c) = []))"
  using assms
proof (induction cpus arbitrary: e)
  case Nil
  then show ?case by simp
next
  case (Cons c cs)
  show ?case
  proof (cases "c = me")
    case True
    with Cons show ?thesis by auto
  next
    case other: False
    have c: "c \<in> ftm_cpus e" "emp_list_ok (local_free_bufs e c)"
      using Cons.prems(1,2) by (auto simp: lists_ok_def)
    show ?thesis
    proof (cases "emp_list_len (local_free_bufs e c) = 0")
      case True
      then have "el_head (local_free_bufs e c) = []" using el.empty_iff c(2) by blast
      with True other Cons show ?thesis by auto
    next
      case False
      then have ne: "el_head (local_free_bufs e c) \<noteq> []" using el.empty_iff c(2) by blast
      obtain l u where cut: "emp_list_cut_count (local_free_bufs e c) n init_temp_list = (l, u)"
        by (cases "emp_list_cut_count (local_free_bufs e c) n init_temp_list")
      note cr = cut_remote_ok [OF Cons.prems(1) c(1) cut]
      then have u: "tl_head u \<noteq> []" using ne Cons.prems(3) by simp
      then have "temp_list_len u > 0" using cr el.tlen_ok [of u] by simp
      then have "t = u" "e' = set_local e c l"
        using Cons.prems(4) False other cut by (auto simp: Let_def)
      with cr u other show ?thesis by simp
    qed
  qed
qed

lemma ftm_ring:
  assumes "lists_ok e" and "me \<in> ftm_cpus e"
  shows "set (for_all_vcpus_from (possible_cpus e) (emp_vcpus_len e) me) = ftm_cpus e"
  using for_all_vcpus_ok assms by (simp add: lists_ok_def ftm_cpus_def)

lemma all_pages_empty:
  "all_pages e = {#} \<longleftrightarrow> el_head (free_page_list e) = [] \<and> (\<forall>c \<in> ftm_cpus e. el_head (local_free_bufs e c) = [])"
  by (simp add: all_pages_def sum_eq_empty_iff)

lemma pull_pages_ok:
  assumes "lists_ok e" and "me \<in> ftm_cpus e" and "pull_pages e me = (t, e')"
  shows "lists_ok e' \<and> same_env e e' \<and> temp_list_ok t \<and> all_pages e = all_pages e' + mset (tl_head t)
    \<and> local_free_bufs e' me = local_free_bufs e me
    \<and> (tl_head t = [] \<and> el_head (local_free_bufs e me) = [] \<longrightarrow> all_pages e = {#})"
proof -
  let ?n = "bvma_sib_size e" and ?g = "free_page_list e"
  have n: "0 < ?n" by (simp add: bvma_sib_size_def)
  have gok: "emp_list_ok ?g" using assms(1) by (simp add: lists_ok_def)
  obtain t1 e1 where s1: "(if emp_list_len ?g > 0
      then let (l, pull) = emp_list_cut_count ?g ?n init_temp_list in (pull, e\<lparr>free_page_list := l\<rparr>)
      else (init_temp_list, e)) = (t1, e1)" by (metis surj_pair)
  have g: "lists_ok e1 \<and> same_env e e1 \<and> temp_list_ok t1 \<and> all_pages e = all_pages e1 + mset (tl_head t1)
      \<and> local_free_bufs e1 = local_free_bufs e \<and> (tl_head t1 = [] \<longrightarrow> el_head ?g = [] \<and> e1 = e)"
  proof (cases "emp_list_len ?g > 0")
    case True
    obtain l u where cut: "emp_list_cut_count ?g ?n init_temp_list = (l, u)"
      by (cases "emp_list_cut_count ?g ?n init_temp_list")
    note c = el.cut_spec [OF gok cut]
    have e1: "t1 = u" "e1 = e\<lparr>free_page_list := l\<rparr>" using s1 True cut by auto
    have "mset (el_head ?g) = mset (tl_head u) + mset (el_head l)"
      using el.cut_conserves [OF gok cut] by simp
    with all_pages_global [where e = e and g = l] have "all_pages e1 + mset (tl_head u) + mset (el_head l) = all_pages e + mset (el_head l)"
      by (simp add: e1 ac_simps)
    then have "all_pages e = all_pages e1 + mset (tl_head u)" by (metis add_right_cancel)
    moreover have "tl_head u \<noteq> []" using c n True el.len_ok [OF gok] by auto
    ultimately show ?thesis using c e1 lists_ok_global [OF assms(1)] by simp
  next
    case False
    then have "t1 = init_temp_list" "e1 = e" using s1 by auto
    moreover have "el_head ?g = []" using False el.len_ok [OF gok] by simp
    ultimately show ?thesis using assms(1) by simp
  qed
  have pull: "(if temp_list_len t1 = 0 then pull_remote e1 me ?n
      (for_all_vcpus_from (possible_cpus e1) (emp_vcpus_len e1) me) else (t1, e1)) = (t, e')"
    using assms(3) s1 by (simp add: pull_pages_def Let_def)
  show ?thesis
  proof (cases "temp_list_len t1 = 0")
    case False
    then have "tl_head t1 \<noteq> []" using g el.tlen_ok [of t1] by simp
    with False pull g show ?thesis by simp
  next
    case True
    then have t1: "tl_head t1 = []" using g el.tlen_ok [of t1] by simp
    then have e1: "e1 = e" "el_head ?g = []" using g by auto
    have cpus: "set (for_all_vcpus_from (possible_cpus e) (emp_vcpus_len e) me) = ftm_cpus e"
      by (rule ftm_ring [OF assms(1,2)])
    have pr: "pull_remote e me ?n (for_all_vcpus_from (possible_cpus e) (emp_vcpus_len e) me) = (t, e')"
      using pull True e1 by simp
    note r = pull_remote_ok [OF assms(1) _ n pr]
    have "all_pages e = {#}" if "tl_head t = []" "el_head (local_free_bufs e me) = []"
      unfolding all_pages_empty using r cpus e1(2) that by auto
    with r cpus show ?thesis by simp
  qed
qed

text \<open>A page comes from wherever one is free; none is returned only when no list has any.\<close>

lemma pop_free_page_list_global_ok:
  assumes "lists_ok e" and "me \<in> ftm_cpus e" and "pop_free_page_list_global e me = (r, e')"
  shows "lists_ok e' \<and> same_env e e'
    \<and> (case r of None \<Rightarrow> all_pages e = {#} \<and> all_pages e' = {#}
       | Some p \<Rightarrow> all_pages e = add_mset p (all_pages e'))"
proof -
  let ?l = "local_free_bufs e me"
  have lok: "emp_list_ok ?l" using assms(1,2) by (simp add: lists_ok_def)
  show ?thesis
  proof (cases "emp_list_len ?l > 0")
    case True
    obtain p l where g: "get_next_free_page ?l = (p, l)" by (cases "get_next_free_page ?l")
    note pl = pop_local_ok [OF assms(1,2) g]
    have "el_head ?l \<noteq> []" using True el.len_ok [OF lok] by auto
    then obtain x where x: "p = Some x" using pl by (cases p) auto
    have "(r, e') = (p, set_local e me l)"
      using assms(3) True g x by (simp add: pop_free_page_list_global_def Let_def)
    with pl x show ?thesis by simp
  next
    case False
    then have empty: "el_head ?l = []" using el.len_ok [OF lok] by simp
    obtain pull e2 where pp: "pull_pages e me = (pull, e2)" by (cases "pull_pages e me")
    note p = pull_pages_ok [OF assms(1,2) pp]
    show ?thesis
    proof (cases "temp_list_len pull = 0")
      case True
      then have "(r, e') = (None, e2)"
        using assms(3) False pp by (simp add: pop_free_page_list_global_def Let_def)
      moreover have "tl_head pull = []" using True p el.tlen_ok [of pull] by simp
      ultimately show ?thesis using p empty by auto
    next
      case ne: False
      then obtain x xs where x: "tl_head pull = x # xs" using p el.tlen_ok [of pull] by (cases "tl_head pull") auto
      let ?rest = "pull\<lparr>tl_head := xs, tl_len := tl_len pull - 1\<rparr>"
      have pop: "temp_list_pop_head pull = (Some x, ?rest)" by (simp add: temp_list_pop_head_def x)
      have rok: "temp_list_ok ?rest" using p x by (simp add: temp_list_ok_def)
      let ?l2 = "local_free_bufs e2 me"
      have cpu2: "me \<in> ftm_cpus e2" using p assms(2) by (simp add: same_env_def)
      have l2: "emp_list_ok ?l2" using p lok by simp
      note sp = el.splice_spec [OF l2 rok]
      let ?l3 = "snd (emp_list_splice_tail ?rest ?l2)"
      have all: "all_pages e = add_mset x (all_pages e2 + mset xs)" using p x by simp
      show ?thesis
      proof (cases "temp_list_len ?rest > 0")
        case True
        then have re: "(r, e') = (Some x, set_local e2 me ?l3)"
          using assms(3) False pp ne pop by (simp add: pop_free_page_list_global_def Let_def)
        have "all_pages (set_local e2 me ?l3) + mset (el_head ?l2) = all_pages e2 + mset (el_head ?l3)"
          by (rule all_pages_local [OF cpu2])
        then have "all_pages (set_local e2 me ?l3) = all_pages e2 + mset xs"
          using sp by simp
        moreover have "lists_ok (set_local e2 me ?l3)" using lists_ok_local p sp by blast
        moreover have "same_env e (set_local e2 me ?l3)" using p same_env_trans [of e e2] by simp
        ultimately show ?thesis using re all by simp
      next
        case False
        then have "xs = []" using el.tlen_ok [OF rok] by simp
        moreover have "(r, e') = (Some x, e2)"
          using assms(3) \<open>\<not> emp_list_len ?l > 0\<close> pp ne pop False
          by (simp add: pop_free_page_list_global_def Let_def)
        ultimately show ?thesis using p all by simp
      qed
    qed
  qed
qed

lemma alloc_page_from_host_ok:
  assumes "lists_ok e" and "alloc_page_from_host e host poisoned = (r, e')"
  shows "lists_ok e' \<and> ftm_cpus e' = ftm_cpus e \<and> bvma_subblock_size e' = bvma_subblock_size e
    \<and> all_pages e' = all_pages e
    \<and> (case r of None \<Rightarrow> alloc_pages_len e' = alloc_pages_len e
       | Some p \<Rightarrow> host = Some p \<and> \<not> poisoned \<and> alloc_pages_len e < LOCAL_CACHE_MAX e
           \<and> alloc_pages_len e' = alloc_pages_len e + bvma_subblock_size e)"
  using assms
  by (auto simp: alloc_page_from_host_def alloc_subblock_def check_alloc_pages_available_def
      emp_free_pages_def emp_lock_page_def lists_ok_def all_pages_def ftm_frame
      split: if_splits option.splits)

section \<open>The allocation loop\<close>

text \<open>A page handed out was taken off its list, or newly from the host, and is unlocked.\<close>

definition taken_from :: "emp_ftm \<Rightarrow> nat \<Rightarrow> emp_ftm \<Rightarrow> bool" where
  "taken_from e page e' \<longleftrightarrow> lists_ok e' \<and> page \<notin> pg_locked e'
     \<and> (all_pages e = add_mset page (all_pages e')
        \<or> all_pages e' = all_pages e \<and> alloc_pages_len e < LOCAL_CACHE_MAX e)
     \<and> used_pages e' = used_pages e + bvma_subblock_size e"

lemma unlock_keeps [simp]:
  "lists_ok (emp_unlock_page e p) = lists_ok e" "all_pages (emp_unlock_page e p) = all_pages e"
  "used_pages (emp_unlock_page e p) = used_pages e" "p \<notin> pg_locked (emp_unlock_page e p)"
  "ftm_cpus (emp_unlock_page e p) = ftm_cpus e"
  "bvma_subblock_size (emp_unlock_page e p) = bvma_subblock_size e"
  "alloc_pages_len (emp_unlock_page e p) = alloc_pages_len e"
  by (simp_all add: emp_unlock_page_def lists_ok_def all_pages_def used_pages_def ftm_frame)

lemma pop_taken:
  "lists_ok e' \<Longrightarrow> same_env e e' \<Longrightarrow> all_pages e = add_mset p (all_pages e') \<Longrightarrow>
     taken_from e p (emp_unlock_page e' p)"
  using used_pages_same_env [of e e'] by (simp add: taken_from_def)

lemma host_taken:
  "lists_ok e \<Longrightarrow> alloc_page_from_host e host poisoned = (Some p, e') \<Longrightarrow>
     taken_from e p (emp_unlock_page e' p)"
  using alloc_page_from_host_ok [of e host poisoned "Some p" e'] by (auto simp: taken_from_def used_pages_def)

text \<open>
  One round returns a page exactly when the host may be asked and answers, or some list has a page.
\<close>

definition page_at_hand :: "alloc_round \<Rightarrow> emp_ftm \<Rightarrow> bool" where
  "page_at_hand rd e \<longleftrightarrow> check_alloc_pages_available e \<and> rd_host rd \<noteq> None \<and> \<not> rd_poisoned rd
     \<or> all_pages e \<noteq> {#}"

lemma alloc_pages_round:
  assumes "lists_ok e" and "cpu \<in> ftm_cpus e" and "page_at_hand (env k) e"
  shows "\<exists>p e'. alloc_pages_loop env k e cpu = Some (Inr p, e') \<and> taken_from e p e'"
proof -
  obtain r e1 where h: "alloc_page_from_host e (rd_host (env k)) (rd_poisoned (env k)) = (r, e1)"
    by (cases "alloc_page_from_host e (rd_host (env k)) (rd_poisoned (env k))")
  show ?thesis
  proof (cases r)
    case (Some p)
    with h host_taken [OF assms(1)] show ?thesis by (simp add: alloc_pages_loop.simps [of env k])
  next
    case None
    note hk = alloc_page_from_host_ok [OF assms(1) h]
    have "all_pages e \<noteq> {#}"
      using assms(3) h None
      by (auto simp: page_at_hand_def alloc_page_from_host_def alloc_subblock_def split: if_splits option.splits)
    then have a1: "all_pages e1 \<noteq> {#}" using hk by simp
    obtain q e2 where g: "pop_free_page_list_global e1 cpu = (q, e2)" by (cases "pop_free_page_list_global e1 cpu")
    have "lists_ok e1" "cpu \<in> ftm_cpus e1" using hk assms(2) by simp_all
    note pg = pop_free_page_list_global_ok [OF this g]
    then obtain p where q: "q = Some p" using a1 by (cases q) auto
    have t: "taken_from e1 p (emp_unlock_page e2 p)" using pop_taken pg q by simp
    then have "taken_from e p (emp_unlock_page e2 p)"
      using hk None pg q by (auto simp: taken_from_def used_pages_def)
    with h None g q show ?thesis by (simp add: alloc_pages_loop.simps [of env k])
  qed
qed

lemma ftm_cpus_alloc_len: "ftm_cpus (e\<lparr>alloc_pages_len := n\<rparr>) = ftm_cpus e"
  by (simp add: ftm_cpus_def)

lemma alloc_exit_fold:
  "el_head (free_page_list e) = cur \<Longrightarrow> emp_list_ok (free_page_list e) \<Longrightarrow>
     fold alloc_exit_page cur e = e' \<Longrightarrow>
     el_head (free_page_list e') = [] \<and> emp_list_ok (free_page_list e')
     \<and> host_freed e' = host_freed e @ cur \<and> local_free_bufs e' = local_free_bufs e
     \<and> alloc_pages_len e' = alloc_pages_len e \<and> ftm_cpus e' = ftm_cpus e
     \<and> bvma_subblock_size e' = bvma_subblock_size e \<and> possible_cpus e' = possible_cpus e
     \<and> pg_locked e' = pg_locked e - set cur"
proof (induction cur arbitrary: e)
  case Nil
  then show ?case by simp
next
  case (Cons x xs)
  let ?e = "alloc_exit_page x e"
  have f: "free_page_list ?e = emp_list_del_init x (free_page_list e)"
    "host_freed ?e = host_freed e @ [x]" "local_free_bufs ?e = local_free_bufs e"
    "alloc_pages_len ?e = alloc_pages_len e" "ftm_cpus ?e = ftm_cpus e"
    "bvma_subblock_size ?e = bvma_subblock_size e" "possible_cpus ?e = possible_cpus e"
    "pg_locked ?e = pg_locked e - {x}"
    by (simp_all add: alloc_exit_page_def emp_free_pages_def emp_unlock_page_def
        emp_clear_page_mapping_and_index_def ftm_frame Let_def)
  have "el_head (free_page_list ?e) = xs" using Cons.prems(1) by (simp add: f emp_list_del_init_def)
  moreover have "emp_list_ok (free_page_list ?e)"
    unfolding f using Cons.prems(1,2) by (intro emp_list_del_init_ok) auto
  ultimately show ?case using Cons.IH [of ?e] Cons.prems(3) f by auto
qed

lemma alloc_exit_ok:
  assumes "lists_ok e"
  shows "lists_ok (alloc_exit e) \<and> used_pages (alloc_exit e) = used_pages e
    \<and> el_head (free_page_list (alloc_exit e)) = []
    \<and> host_freed (alloc_exit e) = host_freed e @ el_head (free_page_list e)"
proof -
  let ?cur = "el_head (free_page_list e)"
  let ?e' = "fold alloc_exit_page ?cur e"
  note f = alloc_exit_fold [OF refl _ refl, of e]
  have gok: "emp_list_ok (free_page_list e)" using assms by (simp add: lists_ok_def)
  note f = f [OF this]
  have x: "alloc_exit e = ?e'\<lparr>alloc_pages_len := alloc_pages_len e - int (length ?cur) * bvma_subblock_size e\<rparr>"
    using f by (simp add: alloc_exit_def Let_def)
  have cpus: "ftm_cpus (alloc_exit e) = ftm_cpus e"
    unfolding x ftm_cpus_alloc_len using f by simp
  have all: "all_pages e = all_pages (alloc_exit e) + mset ?cur"
    unfolding all_pages_def cpus using f by (simp add: x)
  have "bvma_subblock_size (alloc_exit e) = bvma_subblock_size e" using f by (simp add: x ftm_frame)
  then have "used_pages (alloc_exit e) = used_pages e"
    using all by (simp add: used_pages_def x algebra_simps)
  moreover have "lists_ok (alloc_exit e)"
    using assms f unfolding lists_ok_def cpus by (simp add: x)
  ultimately show ?thesis using f by (simp add: x)
qed

end
