(* ===== verification/Page_Claims.thy ===== *)
theory Page_Claims
  imports Local_Page Vmdesc_View Free_Pages
begin

text \<open>
  The properties of the local side: the counted lists, the free pages of the mapped memory, the
  mappers of a local page and the views of a shared backing.  The \<open>ex_\<close> definitions are the concrete
  states at which the properties are applied.
\<close>

section \<open>Free pages\<close>

text \<open>Two physical cpus, one virtual cpu; two pages on the list of cpu -1, one on the global list.\<close>

definition ex_ftm :: emp_ftm where
  "ex_ftm = \<lparr>local_cache_pages = 64, local_cache_pages_headroom = 0, alloc_pages_len = 64,
     free_page_list = \<lparr>el_len = 1, el_head = [7]\<rparr>,
     local_free_bufs = (\<lambda>c. if c = - 1 then \<lparr>el_len = 2, el_head = [5, 6]\<rparr> else init_emp_list),
     free_pages_reclaim = 0, per_vcpu_free_lpages_len = 8, pg_locked = {5, 6, 7}, pg_unevictable = {},
     pg_mapping = Map.empty, host_freed = [], possible_cpus = 2, emp_vcpus_len = 2,
     ft_block_order = 3, ft_subblock_order = 1\<rparr>"

lemma ex_ftm_cpus: "ftm_cpus ex_ftm = {- 2, - 1, 1}"
  by (auto simp: ftm_cpus_def cpu_ids_def ex_ftm_def)

lemma ex_ftm_ok: "lists_ok ex_ftm"
proof -
  have "emp_list_ok (free_page_list ex_ftm)" "0 < possible_cpus ex_ftm"
    by (simp_all add: ex_ftm_def emp_list_ok_def)
  moreover have "emp_list_ok (local_free_bufs ex_ftm c)" for c
    by (simp add: ex_ftm_def emp_list_ok_def init_emp_list_def)
  ultimately show ?thesis by (simp add: lists_ok_def)
qed

lemma ex_ftm_pages: "all_pages ex_ftm = {#5, 6, 7#}"
  unfolding all_pages_def ex_ftm_cpus by (simp add: ex_ftm_def)

text \<open>
  C32: Freeing a subblock ends its use by exactly its size, on every path: either it goes back to the
  host, unlocked, or it is on exactly one more place of the free lists, whose counters stay right.
\<close>

theorem push_free_page_accounts:
  assumes "lists_ok e" and "\<forall>c. cpu = Some c \<longrightarrow> c \<in> ftm_cpus e"
    and "e' = push_free_page_list e page cpu stolen trylock"
  shows "lists_ok e' \<and> used_pages e' = used_pages e - bvma_subblock_size e
    \<and> (all_pages e' = add_mset page (all_pages e) \<and> host_freed e' = host_freed e
       \<or> all_pages e' = all_pages e \<and> host_freed e' = host_freed e @ [page] \<and> page \<notin> pg_locked e')"
  using push_free_page_list_ok [of e cpu page stolen trylock] assms by blast

lemma push_free_page_accounts_witness:
  "used_pages (push_free_page_list ex_ftm 9 (Some (- 1)) 0 True) = 56"
proof -
  have "\<forall>c. Some (- 1) = Some c \<longrightarrow> c \<in> ftm_cpus ex_ftm" by (simp add: ex_ftm_cpus)
  moreover have "used_pages ex_ftm = 58" "bvma_subblock_size ex_ftm = 2"
    unfolding used_pages_def ex_ftm_pages by (simp_all add: bvma_subblock_size_def ex_ftm_def)
  ultimately show ?thesis using push_free_page_accounts [OF ex_ftm_ok _ refl] by simp
qed

text \<open>
  The search over the local list, the global list and the lists of all other cpus fails only if
  no list has a page; a page it returns was on one of the lists and is now on none of them.
\<close>

theorem pop_global_complete:
  assumes "lists_ok e" and "me \<in> ftm_cpus e" and "pop_free_page_list_global e me = (r, e')"
  shows "lists_ok e' \<and> alloc_pages_len e' = alloc_pages_len e
    \<and> (case r of None \<Rightarrow> all_pages e = {#} \<and> all_pages e' = {#}
       | Some p \<Rightarrow> all_pages e = add_mset p (all_pages e'))"
  using pop_free_page_list_global_ok [OF assms] by (auto simp: same_env_def)

lemma pop_global_complete_witness:
  "\<exists>p. fst (pop_free_page_list_global ex_ftm 1) = Some p \<and> p \<in> {5, 6, 7}"
proof -
  obtain r e' where g: "pop_free_page_list_global ex_ftm 1 = (r, e')"
    by (cases "pop_free_page_list_global ex_ftm 1")
  have "1 \<in> ftm_cpus ex_ftm" by (simp add: ex_ftm_cpus)
  note h = pop_global_complete [OF ex_ftm_ok this g]
  show ?thesis
  proof (cases r)
    case None
    with h ex_ftm_pages show ?thesis by simp
  next
    case (Some p)
    with h have "p \<in># all_pages ex_ftm" by simp
    with Some g show ?thesis by (simp add: ex_ftm_pages)
  qed
qed

definition ex_round :: alloc_round where
  "ex_round = \<lparr>rd_host = None, rd_poisoned = False, rd_writeback = (\<lambda>e. (False, e)),
     rd_reclaim = (\<lambda>e. (- 1, e)), rd_wait = (\<lambda>e. e), rd_fatal = False\<rparr>"

text \<open>
  C33: When some list has a page, or the host may be asked and answers, an allocation returns a page
  at once, without write-back, reclaim or sleep, and the pages in use grow by one subblock.
\<close>

theorem alloc_pages_immediate:
  assumes "lists_ok e" and "cpu \<in> ftm_cpus e" and "page_at_hand (env 0) e"
  shows "\<exists>p e'. alloc_pages env e cpu = Some (Inr p, e') \<and> lists_ok e' \<and> p \<notin> pg_locked e'
    \<and> p \<in> pg_unevictable e' \<and> used_pages e' = used_pages e + bvma_subblock_size e"
proof -
  obtain q e1 where g: "pop_free_page_list_local e cpu = (q, e1)" by (cases "pop_free_page_list_local e cpu")
  note gk = pop_free_page_list_local_ok [OF assms(1,2) g]
  obtain p e2 where t: "(case q of Some page \<Rightarrow> Some (Inr page, emp_unlock_page e1 page)
      | None \<Rightarrow> alloc_pages_loop env 0 e1 cpu) = Some (Inr p, e2)" "taken_from e p e2"
  proof (cases q)
    case (Some page)
    with gk that [of page] show ?thesis by (auto intro: pop_taken)
  next
    case None
    with g have e1: "e1 = e"
      by (auto simp: pop_free_page_list_local_def get_next_free_page_def emp_list_pop_head_def
          set_local_def Let_def split: if_splits list.splits)
    with alloc_pages_round [of e cpu env 0, OF assms] None that show ?thesis by auto
  qed
  let ?e = "e2\<lparr>pg_unevictable := insert p (pg_unevictable e2)\<rparr>"
  have "alloc_pages env e cpu = Some (Inr p, ?e)"
    using t(1) g by (cases q) (auto simp: alloc_pages_def)
  moreover have "lists_ok ?e" "used_pages ?e = used_pages e2"
    using t(2) by (simp_all add: taken_from_def lists_ok_def used_pages_def all_pages_def ftm_frame)
  ultimately show ?thesis using t(2) by (auto simp: taken_from_def)
qed

lemma alloc_pages_immediate_witness:
  "\<exists>p e'. alloc_pages (\<lambda>_. ex_round) ex_ftm (- 2) = Some (Inr p, e') \<and> p \<in> pg_unevictable e'"
proof -
  have "- 2 \<in> ftm_cpus ex_ftm" by (simp add: ex_ftm_cpus)
  moreover have "page_at_hand ex_round ex_ftm" by (simp add: page_at_hand_def ex_ftm_pages)
  ultimately show ?thesis using alloc_pages_immediate [OF ex_ftm_ok, of "- 2" "\<lambda>_. ex_round"] by blast
qed

text \<open>
  At exit every page of the global list goes back to the host, in order, and the accounts still
  agree.
\<close>

theorem alloc_exit_frees:
  assumes "lists_ok e"
  shows "lists_ok (alloc_exit e) \<and> used_pages (alloc_exit e) = used_pages e
    \<and> el_head (free_page_list (alloc_exit e)) = []
    \<and> host_freed (alloc_exit e) = host_freed e @ el_head (free_page_list e)"
  by (rule alloc_exit_ok [OF assms])

lemma alloc_exit_frees_witness: "host_freed (alloc_exit ex_ftm) = [7]"
  using alloc_exit_frees [OF ex_ftm_ok] by (simp add: ex_ftm_def)

text \<open>
  C34: The walk over the cpus starts where it is told and visits every physical cpu (ids below 0) and
  every virtual one (ids from 1) exactly once.
\<close>

theorem cpu_walk_visits_each_once:
  assumes "0 < P" and "start \<in> cpu_ids P V"
  shows "distinct (for_all_vcpus_from P V start) \<and> set (for_all_vcpus_from P V start) = cpu_ids P V
    \<and> hd (for_all_vcpus_from P V start) = start"
  by (rule for_all_vcpus_ok [OF assms])

lemma cpu_walk_visits_each_once_witness: "set (for_all_vcpus_from 2 4 1) = {- 2, - 1, 1, 2, 3}"
proof -
  have c: "cpu_ids 2 4 = {- 2, - 1, 1, 2, 3}" by (auto simp: cpu_ids_def)
  from cpu_walk_visits_each_once [of 2 1 4] show ?thesis by (simp add: c)
qed

text \<open>
  Cutting \<open>n\<close> nodes off a well-formed list moves its first \<open>n\<close> nodes, or all of them, leaves the
  rest in order and both counters right.
\<close>

theorem cut_count_takes_prefix:
  assumes "emp_list_ok l"
  shows "emp_list_cut_count l n init_temp_list =
    (l\<lparr>el_head := drop (nat n) (el_head l), el_len := int (length (el_head l) - nat n)\<rparr>,
     \<lparr>tl_head = take (nat n) (el_head l), tl_len = int (min (nat n) (length (el_head l)))\<rparr>)"
  by (rule emp_list_cut_count_take [OF assms])

lemma cut_count_takes_prefix_witness:
  "tl_head (snd (emp_list_cut_count \<lparr>el_len = 3, el_head = [4, 5, 6::nat]\<rparr> 2 init_temp_list)) = [4, 5]"
  using cut_count_takes_prefix [of "\<lparr>el_len = 3, el_head = [4, 5, 6::nat]\<rparr>" 2]
  by (simp add: emp_list_ok_def numeral_2_eq_2)

section \<open>Mappers of a local page\<close>

text \<open>A local page with two mappers, 11 and 12.\<close>

definition ex_lp :: local_page where
  "ex_lp = \<lparr>lp_gpa = 0, lp_page = 0, sptep = None, lp_flags = 0, gpa_index = 0, num_pmds = 2,
     page_map_count = 0, lp_pmds = \<lparr>mp_vmr = Some 11, mp_pmd = Some 101\<rparr>,
     lp_next = Some [\<lparr>mp_vmr = Some 12, mp_pmd = Some 102\<rparr>], lp_cpu = 0, demand_offset = 0,
     lp_w = None\<rparr>"

lemma ex_lp_ok: "lp_ok ex_lp"
  by (simp add: lp_ok_def ex_lp_def entry_full_def)

lemma ex_lp_lookup: "emp_lp_lookup_pmd (Some ex_lp) v = (if v = 11 then Some 101 else if v = 12 then Some 102 else None)"
  by (simp add: emp_lp_lookup_pmd_def ex_lp_def EMP_LP_PMDS_EMPTY_def lp_entries_def)

text \<open>
  A new mapper that was inserted is found with its page table, no other mapper's lookup
  changes, and popping it returns that page table and restores every lookup and the count.
\<close>

theorem mapper_insert_pop_roundtrip:
  assumes "lp_ok lp" and "emp_lp_lookup_pmd (Some lp) v = None"
    and "emp_lp_insert_pmd a lp v p = (True, lp1)" and "emp_lp_pop_pmd lp1 v = (r, lp2)"
  shows "lp_ok lp1 \<and> lp_ok lp2 \<and> r = Some p
    \<and> (\<forall>w. emp_lp_lookup_pmd (Some lp1) w = (if w = v then Some p else emp_lp_lookup_pmd (Some lp) w))
    \<and> (\<forall>w. emp_lp_lookup_pmd (Some lp2) w = emp_lp_lookup_pmd (Some lp) w)
    \<and> emp_lp_count_pmd lp1 = emp_lp_count_pmd lp + 1 \<and> emp_lp_count_pmd lp2 = emp_lp_count_pmd lp"
proof -
  have ok1: "lp_ok lp1" using lp.insert_done [OF assms(1,3)] by simp
  have ok2: "lp_ok lp2" using lp.pop_spec [OF ok1 assms(4)] by simp
  have "emp_lp_lookup_pmd (Some lp2) w = emp_lp_lookup_pmd (Some lp) w" for w
    using lp.lookup_popped [OF ok1 assms(4)] lp.lookup_inserted [OF assms(1,3)] assms(2) by simp
  with ok1 ok2 lp.insert_pop [OF assms] lp.lookup_inserted [OF assms(1,3)] assms(2)
  show ?thesis by simp
qed

lemma mapper_insert_pop_roundtrip_witness:
  "fst (emp_lp_pop_pmd (snd (emp_lp_insert_pmd True ex_lp 13 103)) 13) = Some 103"
proof -
  have "emp_lp_insert_pmd True ex_lp 13 103 = (True, snd (emp_lp_insert_pmd True ex_lp 13 103))"
    by (simp add: emp_lp_insert_pmd_def ex_lp_def)
  from mapper_insert_pop_roundtrip [OF ex_lp_ok _ this surjective_pairing] show ?thesis
    by (simp add: ex_lp_lookup)
qed

text \<open>
  Removing a mapping leaves a representative: a remaining mapper takes over, and when the last
  one goes it stays recorded as the owner of a page without mappings.
\<close>

theorem pop_leaves_representative:
  assumes "lp_ok lp" and "emp_lp_pop_pmd lp v = (Some p, lp')"
  shows "if EMP_LP_PMDS_EMPTY lp' then emp_lp_owner lp' = Some v \<and> (\<forall>u. emp_lp_lookup_pmd (Some lp') u = None)
    else \<exists>u. u \<noteq> v \<and> emp_lp_owner lp' = Some u \<and> emp_lp_lookup_pmd (Some lp') u \<noteq> None"
proof -
  have l: "emp_lp_lookup_pmd (Some lp') u = lp_map lp' u" for u
    using lp.pop_spec [OF assms] by (intro lp.lookup_spec) simp
  show ?thesis unfolding l using emp_lp_pop_owner [OF assms] by (auto split: if_splits)
qed

lemma pop_leaves_representative_witness:
  "emp_lp_owner (snd (emp_lp_pop_pmd ex_lp 11)) \<noteq> Some 11"
proof -
  have p: "emp_lp_pop_pmd ex_lp 11 = (Some 101, snd (emp_lp_pop_pmd ex_lp 11))"
    by (simp add: emp_lp_pop_pmd_def ex_lp_def)
  have "\<not> EMP_LP_PMDS_EMPTY (snd (emp_lp_pop_pmd ex_lp 11))"
    by (simp add: emp_lp_pop_pmd_def ex_lp_def EMP_LP_PMDS_EMPTY_def)
  with pop_leaves_representative [OF ex_lp_ok p] show ?thesis by auto
qed

text \<open>
  C35: Promoting a mapper to owner makes it the representative and changes no mapping and no count.
\<close>

theorem promote_owner_keeps_mappers:
  assumes "lp_ok lp" and "emp_lp_lookup_pmd (Some lp) v \<noteq> None"
  shows "\<exists>lp'. emp_lp_promote_owner lp v = Some lp' \<and> emp_lp_owner lp' = Some v \<and> lp_ok lp'
    \<and> (\<forall>w. emp_lp_lookup_pmd (Some lp') w = emp_lp_lookup_pmd (Some lp) w)
    \<and> emp_lp_count_pmd lp' = emp_lp_count_pmd lp"
  using emp_lp_promote_owner_ok [OF assms(1), of v] assms lp.lookup_spec
  by (auto simp: emp_lp_count_pmd_def)

lemma promote_owner_keeps_mappers_witness:
  "\<exists>lp'. emp_lp_promote_owner ex_lp 12 = Some lp' \<and> emp_lp_owner lp' = Some 12"
  using promote_owner_keeps_mappers [OF ex_lp_ok, of 12] ex_lp_lookup by auto

section \<open>Views of a shared backing\<close>

definition ex_views :: vmdesc_views where
  "ex_views = \<lparr>vw_emb = \<lparr>vw_start = 0, vw_end = 8, vw_count = 2\<rparr>,
     vw_ovf = [\<lparr>vw_start = 4, vw_end = 12, vw_count = 1\<rparr>]\<rparr>"

lemma ex_views_ok: "views_ok ex_views"
  by (simp add: views_ok_def ex_views_def view_key_of_def less_view_key_def)

lemma ex_views_abs: "views_abs ex_views = {#View_Key 0 8, View_Key 0 8, View_Key 4 12#}"
  by (simp add: views_abs_def ex_views_def view_key_of_def numeral_2_eq_2)

text \<open>
  C36: Closing a view undoes opening it: the multiset of viewed intervals is as before, the list stays
  ordered and free of empty entries, and every node allocated is on the list or was freed.
\<close>

theorem view_add_del_roundtrip:
  assumes "views_ok d" and "s < e" and "emp_vmdesc_view_add d s e shared kz = (0, d1, a, f)"
    and "emp_vmdesc_view_del d1 s e = (d2, f2)"
  shows "views_ok d1 \<and> views_abs d1 = add_mset (View_Key s e) (views_abs d)
    \<and> views_ok d2 \<and> views_abs d2 = views_abs d
    \<and> length (vw_ovf d2) + f + f2 = length (vw_ovf d) + a"
proof -
  note ad = emp_vmdesc_view_add_ok [OF assms(1-3)]
  have d1: "views_ok d1" "views_abs d1 = add_mset (View_Key s e) (views_abs d)"
    using ad by simp_all
  obtain dead where del: "view_del_locked d1 s e = (dead, d2)" "f2 = of_bool dead"
    using assms(4) by (auto simp: emp_vmdesc_view_del_def split: prod.splits if_splits)
  from view_del_spec [OF d1(1) del(1)] del(2) d1 ad show ?thesis by auto
qed

lemma view_add_del_roundtrip_witness:
  "\<exists>d1 d2 a f f2. emp_vmdesc_view_add ex_views 2 6 False True = (0, d1, a, f)
     \<and> emp_vmdesc_view_del d1 2 6 = (d2, f2) \<and> views_abs d2 = views_abs ex_views"
proof -
  obtain d1 a f where a: "emp_vmdesc_view_add ex_views 2 6 False True = (0, d1, a, f)"
    by (simp add: emp_vmdesc_view_add_def view_add_locked_def ex_views_def Let_def view_is_def
        view_after_def)
  obtain d2 f2 where d: "emp_vmdesc_view_del d1 2 6 = (d2, f2)" by (cases "emp_vmdesc_view_del d1 2 6")
  from view_add_del_roundtrip [OF ex_views_ok _ a d] a d show ?thesis by auto
qed

text \<open>
  C37: Splitting the view of a mapping at a point inside it replaces its interval by the two halves,
  so that the covered pages stay the same; it fails only when one of its two nodes cannot be allocated,
  whether it would have needed it or not, and then changes nothing.  The comment above the function says
  otherwise, that after -ENOMEM the coverage of the missing half is lost: the code gives up before it
  takes the old interval away.  Every node allocated is on the list or was freed.
\<close>

theorem view_split_keeps_coverage:
  assumes "views_ok d" and "View_Key s e \<in># views_abs d" and "s < mid" and "mid < e"
    and "emp_vmdesc_view_split d s e mid n1 n2 = (r, d', a, f)"
  shows "views_ok d' \<and> length (vw_ovf d') + f = length (vw_ovf d) + a
    \<and> (\<forall>x. covers (views_abs d') x \<longleftrightarrow> covers (views_abs d) x)
    \<and> (if n1 \<and> n2 then r = 0 \<and> views_abs d' =
         views_abs d - {#View_Key s e#} + {#View_Key s mid, View_Key mid e#}
       else r = - ENOMEM \<and> d' = d)"
  by (rule emp_vmdesc_view_split_ok [OF assms])

lemma view_split_keeps_coverage_witness:
  "views_abs (fst (snd (emp_vmdesc_view_split ex_views 4 12 6 True True))) =
     {#View_Key 0 8, View_Key 0 8, View_Key 4 6, View_Key 6 12#}"
proof -
  obtain r d' a f where s: "emp_vmdesc_view_split ex_views 4 12 6 True True = (r, d', a, f)"
    by (cases "emp_vmdesc_view_split ex_views 4 12 6 True True") auto
  have "View_Key 4 12 \<in># views_abs ex_views" by (simp add: ex_views_abs)
  from view_split_keeps_coverage [OF ex_views_ok this _ _ s] s show ?thesis
    by (simp add: ex_views_abs ac_simps)
qed

text \<open>
  When the search for the uncovered part of a range says it is simple, the range it leaves is
  exactly the pages no view covers; otherwise it leaves the arguments alone, and some page is
  uncovered.
\<close>

theorem find_uncovered_exact:
  assumes "views_ok d" and "s < e" and "emp_vmdesc_view_find_uncovered d s e = (fine, s', e')"
  shows "if fine then \<forall>x. s \<le> x \<and> x < e \<and> \<not> covers (views_abs d) x \<longleftrightarrow> s' \<le> x \<and> x < e'
    else s' = s \<and> e' = e \<and> (\<exists>x. s \<le> x \<and> x < e \<and> \<not> covers (views_abs d) x)"
  by (rule find_uncovered_ok [OF assms])

lemma find_uncovered_exact_witness:
  "\<forall>x. 6 \<le> x \<and> x < 20 \<and> \<not> covers (views_abs ex_views) x \<longleftrightarrow> 12 \<le> x \<and> x < (20::nat)"
proof -
  have "emp_vmdesc_view_find_uncovered ex_views 6 20 = (True, 12, 20)"
    by (simp add: emp_vmdesc_view_find_uncovered_def ex_views_def)
  from find_uncovered_exact [OF ex_views_ok _ this] show ?thesis by simp
qed

text \<open>A range is reported as covered exactly when some view contains one of its pages.\<close>

theorem is_covered_exact:
  assumes "views_ok d" and "s < e"
  shows "emp_vmdesc_view_is_covered d s e \<longleftrightarrow> (\<exists>x. s \<le> x \<and> x < e \<and> covers (views_abs d) x)"
  by (rule is_covered_ok [OF assms])

lemma is_covered_exact_witness: "\<exists>x. 10 \<le> x \<and> x < 20 \<and> covers (views_abs ex_views) (x::nat)"
proof -
  have "emp_vmdesc_view_is_covered ex_views 10 20"
    by (simp add: emp_vmdesc_view_is_covered_def ex_views_def)
  with is_covered_exact [OF ex_views_ok, of 10 20] show ?thesis by simp
qed

end
