(* ===== verification/Gpa_Block.thy ===== *)
theory Gpa_Block
  imports Gpa
begin

text \<open>
  Blocks (\<^verbatim>\<open>src/module_gpl/block.h\<close>) and the descriptor table of a mapping
  (\<^verbatim>\<open>struct emp_vmdesc\<close> of \<^verbatim>\<open>src/module_gpl/vm.h\<close>).  The head of a block is computed twice, from
  a descriptor's address and from its index in \<open>gpa_dir\<close>; the directory is cut into regions, each
  with the order its descriptors are allocated at.

  \<open>gpa_dir\<close> is the list of the entries that were allocated from \<^verbatim>\<open>gpa_dir\<close> on, the pad after
  \<open>gpa_len\<close> included.  Reading an entry beyond it has no result, \<open>None\<close> (\<open>raw_get_gpadesc\<close>), and
  so has a scan that does.
\<close>

section \<open>The lock of a descriptor\<close>

definition emp_gpa_init_lock :: "emp_gpa \<Rightarrow> emp_gpa" where
  "emp_gpa_init_lock g = g\<lparr>gpa_lock := False\<rparr>"

definition emp_gpa_trylock :: "emp_gpa \<Rightarrow> bool \<times> emp_gpa" where
  "emp_gpa_trylock g = (if gpa_lock g then (False, g) else (True, g\<lparr>gpa_lock := True\<rparr>))"

definition emp_gpa_is_locked :: "emp_gpa \<Rightarrow> bool" where
  "emp_gpa_is_locked g = gpa_lock g"

definition emp_gpa_unlock :: "emp_gpa \<Rightarrow> emp_gpa" where
  "emp_gpa_unlock g = g\<lparr>gpa_lock := False\<rparr>"

text \<open>\<^verbatim>\<open>__emp_trylock_block()\<close> and \<^verbatim>\<open>__emp_unlock_block()\<close> on a pointer into the heap.\<close>

definition emp_trylock_head :: "gpa_heap \<Rightarrow> gpa_ptr \<Rightarrow> bool \<times> gpa_heap" where
  "emp_trylock_head h g =
     (case emp_gpa_trylock (h g) of (ok, d) \<Rightarrow> (ok, h(g := d)))"

definition emp_unlock_head :: "gpa_heap \<Rightarrow> gpa_ptr \<Rightarrow> gpa_heap" where
  "emp_unlock_head h g = h(g := emp_gpa_unlock (h g))"

section \<open>The descriptor table\<close>

record gpadesc_region =
  reg_start :: nat
  reg_end :: nat
  alloc_order :: nat
  lowmem_block :: bool
  partial_map :: bool

record emp_vmdesc =
  gpa_len :: nat
  gpa_dir :: "gpa_ptr option list"
  desc_sb_order :: nat
  vm_base :: nat
  block_aligned_start :: nat
  regions :: "gpadesc_region list"

definition GPADESC_MAX_REGION :: nat where "GPADESC_MAX_REGION = 6"

definition raw_get_gpadesc :: "emp_vmdesc \<Rightarrow> nat \<Rightarrow> gpa_ptr option option" where
  "raw_get_gpadesc d idx = (if idx < length (gpa_dir d) then Some (gpa_dir d ! idx) else None)"

section \<open>Heads\<close>

definition emp_get_block_offset :: "gpa_heap \<Rightarrow> gpa_ptr \<Rightarrow> gpa_ptr \<Rightarrow> nat \<Rightarrow> nat" where
  "emp_get_block_offset h head demand pgoff =
     (demand - head) * 2 ^ sb_order (h head) + pgoff mod gpa_subblock_size (h head)"

definition emp_get_block_head_index :: "emp_vmdesc \<Rightarrow> nat \<Rightarrow> nat \<Rightarrow> nat" where
  "emp_get_block_head_index d idx order =
     (let gpa_offset = (if block_aligned_start d \<le> idx then idx - block_aligned_start d else idx)
      in idx - gpa_offset mod 2 ^ order)"

definition emp_get_block_head_at :: "gpa_ptr \<Rightarrow> nat \<Rightarrow> gpa_ptr" where
  "emp_get_block_head_at g order = g - g mod 2 ^ order"

definition emp_get_block_head :: "gpa_heap \<Rightarrow> gpa_ptr \<Rightarrow> gpa_ptr" where
  "emp_get_block_head h g = emp_get_block_head_at g (desc_order (h g))"

section \<open>The region of an index\<close>

definition in_region :: "nat \<Rightarrow> gpadesc_region \<Rightarrow> bool" where
  "in_region idx r \<longleftrightarrow> reg_start r \<le> idx \<and> idx < reg_end r"

definition get_gpadesc_region_predict0 :: "emp_vmdesc \<Rightarrow> nat \<Rightarrow> gpadesc_region option" where
  "get_gpadesc_region_predict0 d idx = find (in_region idx) (regions d)"

definition get_gpadesc_region_predict ::
    "emp_vmdesc \<Rightarrow> nat \<Rightarrow> gpadesc_region \<Rightarrow> gpadesc_region option" where
  "get_gpadesc_region_predict d idx predict =
     (if idx \<ge> reg_start predict \<and> idx < reg_end predict then Some predict
      else get_gpadesc_region_predict0 d idx)"

definition get_gpadesc_region0 :: "emp_vmdesc \<Rightarrow> nat \<Rightarrow> gpadesc_region option" where
  "get_gpadesc_region0 d idx = find (in_region idx) (drop 1 (regions d))"

definition get_gpadesc_region :: "emp_vmdesc \<Rightarrow> nat \<Rightarrow> gpadesc_region option" where
  "get_gpadesc_region d idx =
     (let region = regions d ! 0
      in if idx \<ge> reg_start region \<and> idx < reg_end region then Some region
         else get_gpadesc_region0 d idx)"

section \<open>The next descriptor that exists\<close>

text \<open>
  Each scan returns the descriptor and the new \<open>*indexp\<close>; the outer \<open>None\<close> is a read outside the
  directory.  The head scan reads the entry before it looks whether the index is still in a region.
\<close>

function next_exist_scan :: "emp_vmdesc \<Rightarrow> nat \<Rightarrow> (gpa_ptr option \<times> nat) option" where
  "next_exist_scan d index =
     (let index = index + 1
      in if index \<ge> gpa_len d then Some (None, index)
         else case raw_get_gpadesc d index of
                None \<Rightarrow> None
              | Some (Some gpa) \<Rightarrow> Some (Some gpa, index)
              | Some None \<Rightarrow> next_exist_scan d index)"
  by auto
termination by (relation "measure (\<lambda>(d, index). gpa_len d - index)") auto

definition get_next_exist_gpadesc :: "emp_vmdesc \<Rightarrow> nat \<Rightarrow> (gpa_ptr option \<times> nat) option" where
  "get_next_exist_gpadesc d index =
     (case raw_get_gpadesc d index of
        None \<Rightarrow> None
      | Some (Some gpa) \<Rightarrow> Some (Some gpa, index)
      | Some None \<Rightarrow> next_exist_scan d index)"

text \<open>The \<^verbatim>\<open>while (!gpa)\<close> loop, entered with the entry at \<open>index\<close> still to be read.\<close>

function head_scan :: "emp_vmdesc \<Rightarrow> nat \<Rightarrow> gpadesc_region \<Rightarrow> (gpa_ptr option \<times> nat) option" where
  "head_scan d index region =
     (case raw_get_gpadesc d index of
        None \<Rightarrow> None
      | Some (Some gpa) \<Rightarrow> Some (Some gpa, index)
      | Some None \<Rightarrow>
          (case get_gpadesc_region_predict d index region of
             None \<Rightarrow> Some (None, index)
           | Some region' \<Rightarrow>
               head_scan d (index + 2 ^ (alloc_order region' - desc_sb_order d)) region'))"
  by auto
termination
  by (relation "measure (\<lambda>(d, index, region). length (gpa_dir d) - index)")
     (auto simp: raw_get_gpadesc_def diff_less_mono2 split: if_splits)

definition get_next_exist_head_gpadesc0 ::
    "emp_vmdesc \<Rightarrow> nat \<Rightarrow> (gpa_ptr option \<times> nat) option" where
  "get_next_exist_head_gpadesc0 d index =
     (case get_gpadesc_region d index of
        None \<Rightarrow> Some (None, index)
      | Some region \<Rightarrow>
          (let order = alloc_order region - desc_sb_order d
           in head_scan d (emp_get_block_head_index d index order + 2 ^ order) region))"

definition get_next_exist_head_gpadesc ::
    "gpa_heap \<Rightarrow> emp_vmdesc \<Rightarrow> nat \<Rightarrow> (gpa_ptr option \<times> nat) option" where
  "get_next_exist_head_gpadesc h d index =
     (case raw_get_gpadesc d index of
        None \<Rightarrow> None
      | Some None \<Rightarrow> get_next_exist_head_gpadesc0 d index
      | Some (Some gpa) \<Rightarrow>
          (let i = emp_get_block_head_index d index (desc_order (h gpa))
           in if i \<noteq> index then map_option (\<lambda>g. (g, i)) (raw_get_gpadesc d i)
              else Some (Some gpa, index)))"

section \<open>Well-formed regions and directories\<close>

definition desc_span :: "emp_vmdesc \<Rightarrow> gpadesc_region \<Rightarrow> nat" where
  "desc_span d r = alloc_order r - desc_sb_order d"

text \<open>A region is a row of whole groups of \<open>2 ^ desc_span\<close> descriptors, on the grid of the mapping.\<close>

definition region_ok :: "emp_vmdesc \<Rightarrow> gpadesc_region \<Rightarrow> bool" where
  "region_ok d r \<longleftrightarrow> reg_start r < reg_end r \<and> reg_end r \<le> gpa_len d
     \<and> (desc_span d r = 0 \<or>
        (block_aligned_start d \<le> reg_start r
         \<and> 2 ^ desc_span d r dvd reg_start r - block_aligned_start d
         \<and> 2 ^ desc_span d r dvd reg_end r - reg_start r))"

definition regions_ok :: "emp_vmdesc \<Rightarrow> bool" where
  "regions_ok d \<longleftrightarrow> regions d \<noteq> [] \<and> (\<forall>r \<in> set (regions d). region_ok d r)
     \<and> (\<forall>idx < gpa_len d. \<exists>r \<in> set (regions d). in_region idx r)
     \<and> (\<forall>r \<in> set (regions d). \<forall>r' \<in> set (regions d). \<forall>idx.
          in_region idx r \<longrightarrow> in_region idx r' \<longrightarrow> r = r')"

definition region_of :: "emp_vmdesc \<Rightarrow> nat \<Rightarrow> gpadesc_region" where
  "region_of d idx = the (find (in_region idx) (regions d))"

definition span_at :: "emp_vmdesc \<Rightarrow> nat \<Rightarrow> nat" where
  "span_at d idx = desc_span d (region_of d idx)"

definition group_head :: "emp_vmdesc \<Rightarrow> nat \<Rightarrow> nat" where
  "group_head d idx = emp_get_block_head_index d idx (span_at d idx)"

text \<open>The entries of one group are all absent, or the descriptors of one aligned object in order.\<close>

definition group_filled :: "emp_vmdesc \<Rightarrow> nat \<Rightarrow> gpa_ptr \<Rightarrow> bool" where
  "group_filled d b base \<longleftrightarrow> 2 ^ span_at d b dvd base
     \<and> (\<forall>j < 2 ^ span_at d b. gpa_dir d ! (b + j) = Some (base + j))"

definition dir_ok :: "emp_vmdesc \<Rightarrow> bool" where
  "dir_ok d \<longleftrightarrow> gpa_len d < length (gpa_dir d) \<and> gpa_dir d ! gpa_len d = None
     \<and> (\<forall>idx < gpa_len d. gpa_dir d ! idx \<noteq> None \<longrightarrow> (\<exists>base. group_filled d (group_head d idx) base))"

lemma find_in_region:
  "find P xs = Some x \<longleftrightarrow> x \<in> set xs \<and> P x" if "\<forall>a \<in> set xs. \<forall>b \<in> set xs. P a \<longrightarrow> P b \<longrightarrow> a = b"
  using that by (induction xs) auto

lemma get_gpadesc_region_eq:
  "regions d \<noteq> [] \<Longrightarrow> get_gpadesc_region d idx = find (in_region idx) (regions d)"
  by (cases "regions d") (simp_all add: get_gpadesc_region_def get_gpadesc_region0_def in_region_def)

lemma regions_ok_find:
  "regions_ok d \<Longrightarrow> find (in_region idx) (regions d) = Some r \<longleftrightarrow> r \<in> set (regions d) \<and> in_region idx r"
  unfolding regions_ok_def by (intro find_in_region) blast

lemma get_gpadesc_region_predict_eq:
  "regions_ok d \<Longrightarrow> p \<in> set (regions d) \<Longrightarrow>
     get_gpadesc_region_predict d idx p = find (in_region idx) (regions d)"
  using regions_ok_find [of d idx p]
  by (auto simp: get_gpadesc_region_predict_def get_gpadesc_region_predict0_def in_region_def)

lemma regions_ok_inside:
  assumes "regions_ok d" and "idx < gpa_len d"
  shows "find (in_region idx) (regions d) = Some (region_of d idx)"
    and "region_of d idx \<in> set (regions d)" and "in_region idx (region_of d idx)"
    and "region_ok d (region_of d idx)"
proof -
  from assms obtain r where r: "r \<in> set (regions d)" "in_region idx r"
    unfolding regions_ok_def by blast
  then have f: "find (in_region idx) (regions d) = Some r" using regions_ok_find [OF assms(1)] by simp
  then show "find (in_region idx) (regions d) = Some (region_of d idx)" by (simp add: region_of_def)
  show "region_of d idx \<in> set (regions d)" "in_region idx (region_of d idx)" using f r by (simp_all add: region_of_def)
  show "region_ok d (region_of d idx)" using f r assms(1) by (simp add: region_of_def regions_ok_def)
qed

lemma regions_ok_outside:
  assumes "regions_ok d" and "gpa_len d \<le> idx"
  shows "find (in_region idx) (regions d) = None"
  using assms by (auto simp: find_None_iff regions_ok_def region_ok_def in_region_def)

lemma region_of_eq:
  assumes "regions_ok d" and "r \<in> set (regions d)" and "in_region idx r"
  shows "region_of d idx = r"
  using regions_ok_find [OF assms(1), of idx r] assms by (simp add: region_of_def)

text \<open>Inside a region the grid of the mapping is the grid of the region.\<close>

lemma head_index_in_region:
  assumes "region_ok d r" and "in_region idx r"
  shows "emp_get_block_head_index d idx (desc_span d r)
    = reg_start r + align_down (desc_span d r) (idx - reg_start r)"
proof (cases "desc_span d r = 0")
  case True
  with assms show ?thesis by (simp add: emp_get_block_head_index_def align_down_def in_region_def)
next
  case False
  let ?k = "desc_span d r" and ?b = "block_aligned_start d"
  from False assms have r: "?b \<le> reg_start r" "2 ^ ?k dvd reg_start r - ?b" "reg_start r \<le> idx"
    by (simp_all add: region_ok_def in_region_def)
  have "idx - ?b = (idx - reg_start r) + (reg_start r - ?b)" using r by simp
  then have m: "(idx - ?b) mod 2 ^ ?k = (idx - reg_start r) mod 2 ^ ?k"
    using r(2) by (metis dvd_imp_mod_0 mod_add_right_eq add.right_neutral)
  have le: "(idx - reg_start r) mod 2 ^ ?k \<le> idx - reg_start r" by simp
  have "emp_get_block_head_index d idx ?k = idx - (idx - reg_start r) mod 2 ^ ?k"
    using r m by (simp add: emp_get_block_head_index_def)
  then show ?thesis unfolding align_down_def using r(3) le by linarith
qed

lemma group_head_facts:
  assumes "regions_ok d" and "idx < gpa_len d"
  defines "r \<equiv> region_of d idx" and "k \<equiv> span_at d idx"
  shows "group_head d idx = reg_start r + align_down k (idx - reg_start r)"
    and "group_head d idx \<le> idx" and "idx < group_head d idx + 2 ^ k"
    and "reg_start r \<le> group_head d idx" and "group_head d idx + 2 ^ k \<le> reg_end r"
proof -
  note r = regions_ok_inside [OF assms(1,2), folded r_def]
  have k: "k = desc_span d r" by (simp add: k_def span_at_def r_def)
  show h: "group_head d idx = reg_start r + align_down k (idx - reg_start r)"
    using head_index_in_region [OF r(4,3)] by (simp add: group_head_def k_def span_at_def r_def)
  have i: "reg_start r \<le> idx" "idx < reg_end r" using r(3) by (simp_all add: in_region_def)
  show "group_head d idx \<le> idx" using h i align_down_le [of k "idx - reg_start r"] by linarith
  show "idx < group_head d idx + 2 ^ k" using h i align_down_upper [of "idx - reg_start r" k] by linarith
  show "reg_start r \<le> group_head d idx" using h by simp
  have d1: "2 ^ k dvd reg_end r - reg_start r"
    using r(4) by (auto simp: region_ok_def k)
  have "align_down k (idx - reg_start r) < reg_end r - reg_start r"
    using align_down_le [of k "idx - reg_start r"] i by linarith
  then have "align_down k (idx - reg_start r) + 2 ^ k \<le> reg_end r - reg_start r"
    using d1 align_down_dvd [of k "idx - reg_start r"]
    by (metis add.commute dvd_diff_nat dvd_imp_le le_diff_conv2 less_imp_le_nat zero_less_diff)
  then show "group_head d idx + 2 ^ k \<le> reg_end r" using h i by linarith
qed

lemma group_same:
  assumes "regions_ok d" and "idx < gpa_len d"
    and "group_head d idx \<le> i" and "i < group_head d idx + 2 ^ span_at d idx"
  shows "i < gpa_len d \<and> region_of d i = region_of d idx \<and> group_head d i = group_head d idx
    \<and> span_at d i = span_at d idx"
proof -
  let ?r = "region_of d idx" and ?k = "span_at d idx"
  note r = regions_ok_inside [OF assms(1,2)] and f = group_head_facts [OF assms(1,2)]
  have i: "in_region i ?r" "i < gpa_len d" using f assms(3,4) r(4) by (auto simp: in_region_def region_ok_def)
  have e: "region_of d i = ?r" by (rule region_of_eq [OF assms(1) r(2) i(1)])
  have "align_down ?k (i - reg_start ?r) = align_down ?k (idx - reg_start ?r)"
    by (rule align_down_unique) (use f assms(3,4) in auto)
  then have "group_head d i = group_head d idx"
    using group_head_facts(1) [OF assms(1) i(2)] f(1) e by (simp add: span_at_def)
  with i e show ?thesis by (simp add: span_at_def)
qed

section \<open>A descriptor's head, by address and by index\<close>

lemma mod_pow_shift:
  assumes "2 ^ K dvd (b::nat)" and "k \<le> K"
  shows "(b + j) mod 2 ^ k = j mod 2 ^ k"
proof -
  have "2 ^ k dvd b" using assms le_imp_power_dvd dvd_trans by blast
  then show ?thesis by (metis dvd_imp_mod_0 mod_add_left_eq add_0)
qed

lemma dir_entry:
  assumes "regions_ok d" and "dir_ok d" and "idx < gpa_len d" and "gpa_dir d ! idx = Some g"
  obtains base where "group_filled d (group_head d idx) base" and "2 ^ span_at d idx dvd base"
    and "g = base + (idx - group_head d idx)"
    and "\<And>j. j < 2 ^ span_at d idx \<Longrightarrow> gpa_dir d ! (group_head d idx + j) = Some (base + j)"
proof -
  from assms(2-4) obtain base where b: "group_filled d (group_head d idx) base"
    unfolding dir_ok_def by blast
  note f = group_head_facts [OF assms(1,3)]
  have s: "span_at d (group_head d idx) = span_at d idx"
    using group_same [OF assms(1,3), of "group_head d idx"] f by simp
  have "idx - group_head d idx < 2 ^ span_at d idx" using f(2,3) by linarith
  moreover have "\<And>j. j < 2 ^ span_at d idx \<Longrightarrow> gpa_dir d ! (group_head d idx + j) = Some (base + j)"
    "2 ^ span_at d idx dvd base" using b s by (simp_all add: group_filled_def)
  ultimately show ?thesis using that [of base] b f(2) assms(4) by force
qed

lemma index_offset_in_group:
  assumes "regions_ok d" and "idx < gpa_len d" and "k \<le> span_at d idx"
  shows "emp_get_block_head_index d idx k = idx - (idx - group_head d idx) mod 2 ^ k"
proof (cases "span_at d idx = 0")
  case True
  then have "k = 0" using assms(3) by simp
  then show ?thesis by (simp add: emp_get_block_head_index_def)
next
  case False
  let ?r = "region_of d idx" and ?b = "block_aligned_start d" and ?K = "span_at d idx"
  note r = regions_ok_inside [OF assms(1,2)] and f = group_head_facts [OF assms(1,2)]
  have b: "?b \<le> reg_start ?r" "2 ^ ?K dvd reg_start ?r - ?b"
    using r(4) False by (simp_all add: region_ok_def span_at_def)
  have le: "?b \<le> idx" using b f by linarith
  let ?a = "align_down ?K (idx - reg_start ?r)"
  have "2 ^ ?K dvd (reg_start ?r - ?b) + ?a" using b(2) by (simp add: dvd_add)
  moreover have "idx - ?b = ((reg_start ?r - ?b) + ?a) + (idx - group_head d idx)"
    using f(1,2) b(1) le by linarith
  ultimately have "(idx - ?b) mod 2 ^ k = (idx - group_head d idx) mod 2 ^ k"
    using mod_pow_shift [OF _ assms(3)] by metis
  then show ?thesis using le by (simp add: emp_get_block_head_index_def)
qed

lemma head_ptr_index:
  assumes "regions_ok d" and "dir_ok d" and "idx < gpa_len d" and "gpa_dir d ! idx = Some g"
    and "k \<le> span_at d idx"
  shows "gpa_dir d ! emp_get_block_head_index d idx k = Some (emp_get_block_head_at g k)
    \<and> g - emp_get_block_head_at g k = idx - emp_get_block_head_index d idx k"
proof -
  obtain base where b: "2 ^ span_at d idx dvd base" "g = base + (idx - group_head d idx)"
    and fill: "\<And>j. j < 2 ^ span_at d idx \<Longrightarrow> gpa_dir d ! (group_head d idx + j) = Some (base + j)"
    using dir_entry [OF assms(1-4)] by blast
  define j where "j = idx - group_head d idx"
  note f = group_head_facts [OF assms(1,3)]
  have ij: "idx = group_head d idx + j" "j < 2 ^ span_at d idx" using f(2,3) by (simp_all add: j_def)
  have m: "g mod 2 ^ k = j mod 2 ^ k" using mod_pow_shift [OF b(1) assms(5)] b(2) by (simp add: j_def)
  have le: "j mod 2 ^ k \<le> j" by simp
  have p: "emp_get_block_head_at g k = base + (j - j mod 2 ^ k)"
    unfolding emp_get_block_head_at_def m using b(2) [folded j_def] le by linarith
  have i: "emp_get_block_head_index d idx k = group_head d idx + (j - j mod 2 ^ k)"
    using index_offset_in_group [OF assms(1,3,5)] ij(1) le unfolding j_def [symmetric] by linarith
  have "gpa_dir d ! (group_head d idx + (j - j mod 2 ^ k)) = Some (base + (j - j mod 2 ^ k))"
    using fill [of "j - j mod 2 ^ k"] ij(2) by linarith
  moreover have "g - (base + (j - j mod 2 ^ k)) = j mod 2 ^ k"
    "idx - (group_head d idx + (j - j mod 2 ^ k)) = j mod 2 ^ k"
    using b(2) ij(1) le unfolding j_def [symmetric] by linarith+
  ultimately show ?thesis unfolding p i by simp
qed

section \<open>The scans stay inside the directory\<close>

lemma raw_get_inside: "dir_ok d \<Longrightarrow> idx \<le> gpa_len d \<Longrightarrow> raw_get_gpadesc d idx = Some (gpa_dir d ! idx)"
  by (simp add: raw_get_gpadesc_def dir_ok_def)

text \<open>What a scan from \<open>index\<close> has to return: the first entry that is not empty.\<close>

definition first_existing :: "emp_vmdesc \<Rightarrow> nat \<Rightarrow> gpa_ptr option \<times> nat \<Rightarrow> bool" where
  "first_existing d index res \<longleftrightarrow>
     (case res of (g, i) \<Rightarrow> index \<le> i \<and> i \<le> gpa_len d
        \<and> (\<forall>j. index \<le> j \<longrightarrow> j < i \<longrightarrow> gpa_dir d ! j = None)
        \<and> (case g of None \<Rightarrow> i = gpa_len d
           | Some p \<Rightarrow> i < gpa_len d \<and> gpa_dir d ! i = Some p))"

lemma first_existing_skip:
  assumes "first_existing d (index + n) res" and "\<forall>j < n. gpa_dir d ! (index + j) = None"
  shows "first_existing d index res"
proof -
  have "gpa_dir d ! j = None" if "index \<le> j" "j < index + n" for j
    using assms(2) [rule_format, of "j - index"] that by simp
  then show ?thesis using assms(1) unfolding first_existing_def by (cases res) (auto, force)
qed

lemma next_exist_scan_spec:
  "dir_ok d \<Longrightarrow> index < gpa_len d \<Longrightarrow> gpa_dir d ! index = None \<Longrightarrow>
     \<exists>res. next_exist_scan d index = Some res \<and> first_existing d index res"
proof (induction d index rule: next_exist_scan.induct)
  case (1 d index)
  show ?case
  proof (cases "index + 1 \<ge> gpa_len d")
    case True
    then have "first_existing d index (None, index + 1)"
      using 1(3,4) by (auto simp: first_existing_def less_Suc_eq)
    with True show ?thesis by simp
  next
    case False
    then have raw: "raw_get_gpadesc d (index + 1) = Some (gpa_dir d ! (index + 1))"
      using raw_get_inside [OF 1(2)] by simp
    show ?thesis
    proof (cases "gpa_dir d ! (index + 1)")
      case None
      with 1(1) [OF refl False raw, OF _ 1(2)] False
      obtain res where "next_exist_scan d (index + 1) = Some res" "first_existing d (index + 1) res" by auto
      moreover from this(2) have "first_existing d index res"
        by (rule first_existing_skip) (simp add: 1(4))
      ultimately show ?thesis using False raw None by simp
    next
      case (Some g)
      then have "first_existing d index (Some g, index + 1)"
        using False 1(4) by (auto simp: first_existing_def less_Suc_eq)
      with Some False raw show ?thesis by simp
    qed
  qed
qed

lemma get_next_exist_gpadesc_ok:
  assumes "dir_ok d" and "index < gpa_len d"
  shows "\<exists>res. get_next_exist_gpadesc d index = Some res \<and> first_existing d index res"
proof (cases "gpa_dir d ! index")
  case None
  with next_exist_scan_spec [OF assms None] raw_get_inside [OF assms(1), of index] assms(2)
  show ?thesis by (simp add: get_next_exist_gpadesc_def)
next
  case (Some g)
  then have "first_existing d index (Some g, index)" using assms by (simp add: first_existing_def)
  with Some raw_get_inside [OF assms(1), of index] assms(2) show ?thesis
    by (simp add: get_next_exist_gpadesc_def)
qed

definition group_start :: "emp_vmdesc \<Rightarrow> nat \<Rightarrow> bool" where
  "group_start d i \<longleftrightarrow> i = gpa_len d \<or> i < gpa_len d \<and> group_head d i = i"

lemma group_start_next:
  assumes "regions_ok d" and "idx < gpa_len d"
  shows "group_start d (group_head d idx + 2 ^ span_at d idx)"
proof -
  let ?r = "region_of d idx" and ?k = "span_at d idx" and ?i = "group_head d idx + 2 ^ span_at d idx"
  note r = regions_ok_inside [OF assms] and f = group_head_facts [OF assms]
  have len: "reg_end ?r \<le> gpa_len d" using r(4) by (simp add: region_ok_def)
  show ?thesis
  proof (cases "?i < reg_end ?r")
    case True
    then have i: "in_region ?i ?r" "?i < gpa_len d" using f(4) len by (simp_all add: in_region_def)
    have e: "region_of d ?i = ?r" by (rule region_of_eq [OF assms(1) r(2) i(1)])
    have "align_down ?k (?i - reg_start ?r) = ?i - reg_start ?r"
      by (rule align_down_unique) (use f(1) in \<open>auto simp: dvd_add\<close>)
    then have "group_head d ?i = ?i"
      using group_head_facts(1) [OF assms(1) i(2)] e f(4) by (simp add: span_at_def)
    with i(2) show ?thesis by (simp add: group_start_def)
  next
    case False
    then have i: "?i = reg_end ?r" using f(5) by simp
    show ?thesis
    proof (cases "?i = gpa_len d")
      case True
      then show ?thesis by (simp add: group_start_def)
    next
      case False
      then have lt: "?i < gpa_len d" using i len by simp
      note r' = regions_ok_inside [OF assms(1) lt] and f' = group_head_facts [OF assms(1) lt]
      have "reg_start (region_of d ?i) = ?i"
      proof (rule ccontr)
        assume "reg_start (region_of d ?i) \<noteq> ?i"
        then have "in_region (?i - 1) (region_of d ?i)" using r'(3) by (auto simp: in_region_def)
        moreover have "in_region (?i - 1) ?r" using i r(4) by (auto simp: in_region_def region_ok_def)
        ultimately have "region_of d ?i = ?r"
          using region_of_eq [OF assms(1) r'(2)] region_of_eq [OF assms(1) r(2)] by metis
        with r'(3) i show False by (simp add: in_region_def)
      qed
      then have "group_head d ?i = ?i" using f'(2,4) by simp
      with lt show ?thesis by (simp add: group_start_def)
    qed
  qed
qed

lemma group_empty:
  assumes "regions_ok d" and "dir_ok d" and "idx < gpa_len d" and "gpa_dir d ! idx = None"
    and "j < 2 ^ span_at d idx"
  shows "gpa_dir d ! (group_head d idx + j) = None"
proof (rule ccontr)
  let ?i = "group_head d idx + j"
  assume ex: "gpa_dir d ! ?i \<noteq> None"
  have s: "?i < gpa_len d" "group_head d ?i = group_head d idx" "span_at d ?i = span_at d idx"
    using group_same [OF assms(1,3), of ?i] assms(5) by simp_all
  from ex obtain g where "gpa_dir d ! ?i = Some g" by auto
  then obtain base where fill: "\<And>j. j < 2 ^ span_at d idx \<Longrightarrow> gpa_dir d ! (group_head d idx + j) = Some (base + j)"
    using dir_entry [OF assms(1,2) s(1)] s by metis
  have "group_head d idx + (idx - group_head d idx) = idx" "idx - group_head d idx < 2 ^ span_at d idx"
    using group_head_facts(2,3) [OF assms(1,3)] by linarith+
  with fill assms(4) show False by (metis option.distinct(1))
qed

lemma head_scan_spec:
  "regions_ok d \<Longrightarrow> dir_ok d \<Longrightarrow> p \<in> set (regions d) \<Longrightarrow> group_start d index \<Longrightarrow>
     \<exists>g i. head_scan d index p = Some (g, i) \<and> first_existing d index (g, i) \<and> group_start d i"
proof (induction d index p rule: head_scan.induct)
  case (1 d index p)
  have le: "index \<le> gpa_len d" using 1(5) by (auto simp: group_start_def)
  note raw = raw_get_inside [OF 1(3) le]
  show ?case
  proof (cases "gpa_dir d ! index")
    case (Some g)
    then have "index \<noteq> gpa_len d" using 1(3) by (auto simp: dir_ok_def)
    then have "first_existing d index (Some g, index)" using le Some by (simp add: first_existing_def)
    with 1(5) Some raw show ?thesis by simp
  next
    case None
    note pr = get_gpadesc_region_predict_eq [OF 1(2,4), of index]
    show ?thesis
    proof (cases "index = gpa_len d")
      case True
      then have "get_gpadesc_region_predict d index p = None"
        using pr regions_ok_outside [OF 1(2), of index] by simp
      moreover have "first_existing d index (None, index)" using True by (simp add: first_existing_def)
      ultimately show ?thesis using raw None 1(5) by simp
    next
      case False
      then have lt: "index < gpa_len d" and gh: "group_head d index = index"
        using le 1(5) by (auto simp: group_start_def)
      let ?r = "region_of d index"
      note r = regions_ok_inside [OF 1(2) lt]
      have reg: "get_gpadesc_region_predict d index p = Some ?r" using pr r(1) by simp
      let ?n = "2 ^ (alloc_order ?r - desc_sb_order d) :: nat"
      have n: "?n = 2 ^ span_at d index" by (simp add: span_at_def desc_span_def)
      have "group_start d (index + ?n)" using group_start_next [OF 1(2) lt] gh n by simp
      from 1(1) [OF raw None reg 1(2,3) r(2) this] obtain g i where
        i: "head_scan d (index + ?n) ?r = Some (g, i)" "first_existing d (index + ?n) (g, i)" "group_start d i"
        by blast
      have "\<forall>j < ?n. gpa_dir d ! (index + j) = None"
        using group_empty [OF 1(2,3) lt None] gh n by simp
      from first_existing_skip [OF i(2) this] i raw None reg show ?thesis by simp
    qed
  qed
qed

lemma get_next_exist_head_gpadesc_ok:
  assumes "regions_ok d" and "dir_ok d" and "index < gpa_len d" and "gpa_dir d ! index = None"
  shows "\<exists>g i. get_next_exist_head_gpadesc h d index = Some (g, i)
    \<and> first_existing d index (g, i) \<and> group_start d i"
proof -
  let ?r = "region_of d index" and ?k = "span_at d index"
  note r = regions_ok_inside [OF assms(1,3)]
  have ne: "regions d \<noteq> []" using assms(1) by (simp add: regions_ok_def)
  have reg: "get_gpadesc_region d index = Some ?r" using get_gpadesc_region_eq [OF ne] r(1) by simp
  have k: "alloc_order ?r - desc_sb_order d = ?k" by (simp add: span_at_def desc_span_def)
  have hd: "emp_get_block_head_index d index ?k = group_head d index" by (simp add: group_head_def)
  from head_scan_spec [OF assms(1,2) r(2) group_start_next [OF assms(1,3)]]
  obtain g i where i: "head_scan d (group_head d index + 2 ^ ?k) ?r = Some (g, i)"
    "first_existing d (group_head d index + 2 ^ ?k) (g, i)" "group_start d i" by blast
  have eval: "get_next_exist_head_gpadesc h d index = Some (g, i)"
    using raw_get_inside [OF assms(2), of index] assms(3,4) reg i(1)
    by (simp add: get_next_exist_head_gpadesc_def get_next_exist_head_gpadesc0_def k hd Let_def
        del: head_scan.simps)
  define n where "n = group_head d index + 2 ^ ?k - index"
  note f = group_head_facts [OF assms(1,3)]
  have n: "group_head d index + 2 ^ ?k = index + n" using f(3) by (simp add: n_def)
  have "gpa_dir d ! (index + j) = None" if "j < n" for j
    using group_empty [OF assms, of "index + j - group_head d index"] that f(2) n by simp
  with first_existing_skip [of d index n "(g, i)"] i(2,3) eval n show ?thesis by simp
qed

end
