(* ===== verification/Gpa_Regions.thy ===== *)
theory Gpa_Regions
  imports Gpa_Block Donor_Mgmt
begin

text \<open>
  How a mapping gets its descriptors (\<^verbatim>\<open>src/module_gpl/gpa.c\<close>): \<open>allocate_gpas\<close> measures the
  mapping, sizes the directory and cuts it into regions (\<open>set_gpadesc_regions\<close>), \<open>new_gpadesc\<close> fills
  one group of the directory on its first use.

  Addresses are numbers of bytes.  A user address is below \<open>2 ^ 47\<close>, so none of the sums of
  \<open>allocate_gpas\<close> reaches \<open>2 ^ 64\<close>.
\<close>

section \<open>Sorting\<close>

text \<open>
  The two sorting routines are one selection sort with two tests: \<open>before x y\<close> says that the
  candidate \<open>x\<close> replaces the best value \<open>y\<close> seen so far.
\<close>

definition best_index :: "('a \<Rightarrow> 'a \<Rightarrow> bool) \<Rightarrow> 'a list \<Rightarrow> nat \<Rightarrow> nat" where
  "best_index before xs i =
     foldl (\<lambda>m j. if before (xs ! j) (xs ! m) then j else m) i [i + 1 ..< length xs]"

definition sort_step :: "('a \<Rightarrow> 'a \<Rightarrow> bool) \<Rightarrow> 'a list \<Rightarrow> nat \<Rightarrow> 'a list" where
  "sort_step before xs i =
     (let m = best_index before xs i
      in if m = i then xs else xs[m := xs ! i, i := xs ! m])"

definition selection_sort :: "('a \<Rightarrow> 'a \<Rightarrow> bool) \<Rightarrow> 'a list \<Rightarrow> 'a list" where
  "selection_sort before xs = foldl (sort_step before) xs [0 ..< length xs]"

definition sort_boundaries :: "nat list \<Rightarrow> nat list" where
  "sort_boundaries boundary = selection_sort (\<lambda>x min_val. min_val > x) boundary"

definition region_size :: "gpadesc_region \<Rightarrow> nat" where
  "region_size r = reg_end r - reg_start r"

definition sort_regions :: "gpadesc_region list \<Rightarrow> gpadesc_region list" where
  "sort_regions rs = selection_sort (\<lambda>x y. region_size y < region_size x) rs"

section \<open>The regions of a mapping\<close>

record emm_config =
  bvma_block_order :: nat
  bvma_subblock_order :: nat

definition PAGE_SHIFT :: nat where "PAGE_SHIFT = 12"
definition LOW_MEMORY_REGION_SIZE :: nat where "LOW_MEMORY_REGION_SIZE = 2 * 2 ^ 20"
definition LOW_MEMORY_MAX_ORDER :: nat where "LOW_MEMORY_MAX_ORDER = 9"

definition emm_sib_size :: "emm_config \<Rightarrow> nat" where
  "emm_sib_size c = 2 ^ (bvma_block_order c - bvma_subblock_order c)"

definition get_num_low_memory_pages :: "emm_config \<Rightarrow> nat" where
  "get_num_low_memory_pages c =
     (let low_memory_pages = LOW_MEMORY_REGION_SIZE div 2 ^ PAGE_SHIFT
      in if 2 ^ bvma_block_order c > low_memory_pages then 2 ^ bvma_block_order c
         else low_memory_pages)"

definition low_memory_end :: "emm_config \<Rightarrow> bool \<Rightarrow> nat" where
  "low_memory_end c lowmem_vmr =
     (if lowmem_vmr then get_num_low_memory_pages c div 2 ^ bvma_subblock_order c else 0)"

definition region_boundaries :: "nat \<Rightarrow> bool \<Rightarrow> bool \<Rightarrow> nat \<Rightarrow> nat \<Rightarrow> nat \<Rightarrow> nat list" where
  "region_boundaries low partial_at_head partial_at_tail len sb_at_head sb_at_tail =
     (let block_aligned_end = (if sb_at_tail < len then len - sb_at_tail else 0)
      in (if low > 0 then [low] else [])
       @ (if partial_at_head \<and> len > 0 then [1] else [])
       @ (if partial_at_tail \<and> len > 1 then [len - 1] else [])
       @ (if sb_at_head > 0 \<and> sb_at_head < len then [sb_at_head] else [])
       @ (if sb_at_tail > 0 \<and> sb_at_tail < len then [block_aligned_end] else [])
       @ [len])"

definition make_region ::
    "emm_config \<Rightarrow> nat \<Rightarrow> bool \<Rightarrow> bool \<Rightarrow> nat \<Rightarrow> nat \<Rightarrow> nat \<Rightarrow> nat \<Rightarrow> nat \<Rightarrow> gpadesc_region" where
  "make_region c low partial_at_head partial_at_tail len aligned_start aligned_end s e =
     (let sb = bvma_subblock_order c;
          order = bvma_block_order c;
          order = (if (e \<le> aligned_start \<or> s \<ge> aligned_end) \<and> order > sb then sb else order);
          order = (if e \<le> low \<and> order > LOW_MEMORY_MAX_ORDER then LOW_MEMORY_MAX_ORDER else order)
      in \<lparr>reg_start = s, reg_end = e, alloc_order = order, lowmem_block = (e \<le> low),
          partial_map = (if partial_at_head \<and> e \<le> 1 then True
                         else partial_at_tail \<and> s \<ge> len - 1)\<rparr>)"

fun region_loop ::
    "(nat \<Rightarrow> nat \<Rightarrow> gpadesc_region) \<Rightarrow> nat list \<Rightarrow> gpadesc_region list \<Rightarrow> gpadesc_region list" where
  "region_loop mk [] rs = rs"
| "region_loop mk (b # bs) rs =
     (if rs \<noteq> [] \<and> reg_end (last rs) = b then region_loop mk bs rs
      else region_loop mk bs (rs @ [mk (if rs \<noteq> [] then reg_end (last rs) else 0) b]))"

definition set_gpadesc_regions ::
    "emm_config \<Rightarrow> bool \<Rightarrow> bool \<Rightarrow> bool \<Rightarrow> nat \<Rightarrow> nat \<Rightarrow> emp_vmdesc \<Rightarrow> emp_vmdesc" where
  "set_gpadesc_regions c lowmem_vmr partial_at_head partial_at_tail sb_at_head sb_at_tail d =
     (let len = gpa_len d;
          low = low_memory_end c lowmem_vmr;
          aligned_end = (if sb_at_tail < len then len - sb_at_tail else 0);
          boundary = sort_boundaries
            (region_boundaries low partial_at_head partial_at_tail len sb_at_head sb_at_tail);
          mk = make_region c low partial_at_head partial_at_tail len sb_at_head aligned_end
      in d\<lparr>regions := sort_regions (region_loop mk boundary [])\<rparr>)"

section \<open>The directory of a mapping\<close>

definition VA_ROUND_DOWN_ORDER :: "nat \<Rightarrow> nat \<Rightarrow> nat" where
  "VA_ROUND_DOWN_ORDER v order = v - v mod 2 ^ order"

definition VA_ROUND_UP_ORDER :: "nat \<Rightarrow> nat \<Rightarrow> nat" where
  "VA_ROUND_UP_ORDER v order = VA_ROUND_DOWN_ORDER (v + 2 ^ order - 1) order"

definition PAGE_SIZE :: nat where "PAGE_SIZE = 2 ^ PAGE_SHIFT"

definition PAGE_ROUND_UP :: "nat \<Rightarrow> nat" where
  "PAGE_ROUND_UP s = (s + PAGE_SIZE - 1) - (s + PAGE_SIZE - 1) mod PAGE_SIZE"

text \<open>The pads of the directory in bytes, a pointer being 8 of them.\<close>

definition gpa_dir_pads :: "emm_config \<Rightarrow> nat \<Rightarrow> nat \<Rightarrow> nat \<times> nat" where
  "gpa_dir_pads c sb_at_head sb_at_tail =
     (let offset = (if sb_at_head \<noteq> 0
                    then (let x = (emm_sib_size c - sb_at_head) * 8
                          in if x > PAGE_SIZE then x - (x - x mod PAGE_SIZE) else x)
                    else 0)
      in (offset, if sb_at_tail \<noteq> 0 then 8 else emm_sib_size c * 8))"

definition sb_at_head :: "emm_config \<Rightarrow> nat \<Rightarrow> nat \<Rightarrow> nat" where
  "sb_at_head c vmr_start vm_start =
     (let n = vm_start div 2 ^ (bvma_subblock_order c + PAGE_SHIFT) mod emm_sib_size c;
          n = (if n > 0 then emm_sib_size c - n else 0)
      in if n = 0 \<and> vmr_start \<noteq> vm_start then emm_sib_size c else n)"

definition sb_at_tail :: "emm_config \<Rightarrow> nat \<Rightarrow> nat \<Rightarrow> nat" where
  "sb_at_tail c vmr_end vm_end =
     (let n = vm_end div 2 ^ (bvma_subblock_order c + PAGE_SHIFT) mod emm_sib_size c
      in if n = 0 \<and> vmr_end \<noteq> vm_end then emm_sib_size c else n)"

definition allocate_gpas ::
    "emm_config \<Rightarrow> bool \<Rightarrow> nat \<Rightarrow> nat \<Rightarrow> (nat \<Rightarrow> bool) \<Rightarrow> int + emp_vmdesc" where
  "allocate_gpas c lowmem_vmr vmr_start vmr_end vzalloc =
     (let va_sb_order = bvma_subblock_order c + PAGE_SHIFT;
          vm_start = VA_ROUND_DOWN_ORDER vmr_start va_sb_order;
          vm_end = VA_ROUND_UP_ORDER vmr_end va_sb_order;
          hd_sb = sb_at_head c vmr_start vm_start;
          tl_sb = sb_at_tail c vmr_end vm_end;
          len = (vm_end - vm_start) div 2 ^ va_sb_order;
          (offset, pad) = gpa_dir_pads c hd_sb tl_sb;
          alloc_size = PAGE_ROUND_UP (len * 8 + offset + pad)
      in if \<not> vzalloc alloc_size then Inl (- ENOMEM)
         else Inr (set_gpadesc_regions c lowmem_vmr (vmr_start \<noteq> vm_start) (vmr_end \<noteq> vm_end)
                     hd_sb tl_sb
                     \<lparr>gpa_len = len, gpa_dir = replicate ((alloc_size - offset) div 8) None,
                      desc_sb_order = bvma_subblock_order c, vm_base = vm_start,
                      block_aligned_start = hd_sb, regions = []\<rparr>))"

section \<open>Filling a group\<close>

definition set_gpadesc :: "emm_config \<Rightarrow> gpadesc_region \<Rightarrow> emp_gpa" where
  "set_gpadesc c region =
     (let g = emp_init_gpa (bvma_subblock_order c);
          g = update_gpa_order g (alloc_order region);
          g = (if lowmem_block region then snd (set_gpa_flags_if_unset g GPA_LOWMEM_BLOCK_MASK) else g)
      in if partial_map region then snd (set_gpa_flags_if_unset g GPA_PARTIAL_MAP_MASK) else g)"

text \<open>The compare and exchange of an empty entry; the descriptor counts its entries.\<close>

definition set_gpa_dir_new ::
    "gpa_heap \<Rightarrow> gpa_ptr option list \<Rightarrow> nat \<Rightarrow> gpa_ptr \<Rightarrow> gpa_ptr option \<times> gpa_heap \<times> gpa_ptr option list" where
  "set_gpa_dir_new h dir idx new =
     (case dir ! idx of
        None \<Rightarrow> (None, h(new := (h new)\<lparr>gpa_refcnt := gpa_refcnt (h new) + 1\<rparr>), dir[idx := Some new])
      | Some g \<Rightarrow> (Some g, h, dir))"

text \<open>
  \<open>new\<close> is what \<^verbatim>\<open>alloc_gpadesc()\<close> returned; \<open>before\<close> is the directory's change by other threads up to
  the compare and exchange, \<open>after\<close> the change of descriptors and directory by other threads until the
  loser gets the winner's lock, which is then free.  The loser's descriptors go back to their cache:
  they are unlocked, and nothing reads them any more.
\<close>

fun fill_group :: "gpa_heap \<Rightarrow> gpa_ptr option list \<Rightarrow> (nat \<times> gpa_ptr) list \<Rightarrow> gpa_heap \<times> gpa_ptr option list" where
  "fill_group h dir [] = (h, dir)"
| "fill_group h dir ((i, cur) # rest) =
     (case set_gpa_dir_new h dir i cur of (_, h', dir') \<Rightarrow> fill_group h' dir' rest)"

definition new_gpadesc ::
    "emm_config \<Rightarrow> gpa_heap \<Rightarrow> emp_vmdesc \<Rightarrow> nat \<Rightarrow> gpa_ptr option
     \<Rightarrow> (gpa_ptr option list \<Rightarrow> gpa_ptr option list)
     \<Rightarrow> (gpa_heap \<times> gpa_ptr option list \<Rightarrow> gpa_heap \<times> gpa_ptr option list)
     \<Rightarrow> gpa_ptr option \<times> gpa_heap \<times> emp_vmdesc" where
  "new_gpadesc c h d idx new before after =
     (if idx \<ge> gpa_len d then (None, h, d)
      else
        let region = the (get_gpadesc_region d idx);
            order = alloc_order region - bvma_subblock_order c;
            head_idx = emp_get_block_head_index d idx order;
            len = 2 ^ order
        in case new of
             None \<Rightarrow> (None, h, d)
           | Some new \<Rightarrow>
               (let h = (\<lambda>p. if new \<le> p \<and> p < new + len then set_gpadesc c region else h p);
                    h = snd (emp_trylock_head h new)
                in case set_gpa_dir_new h (before (gpa_dir d)) head_idx new of
                     (Some cur, h, dir) \<Rightarrow>
                        (let h = emp_unlock_head h new;
                             (h, dir) = after (h, dir);
                             h = snd (emp_trylock_head h cur);
                             h = emp_unlock_head h cur
                         in (dir ! idx, h, d\<lparr>gpa_dir := dir\<rparr>))
                   | (None, h, dir) \<Rightarrow>
                        (let (h, dir) = fill_group h dir
                               (map (\<lambda>j. (head_idx + j, new + j)) [1 ..< len]);
                             h = emp_unlock_head h new
                         in (dir ! idx, h, d\<lparr>gpa_dir := dir\<rparr>))))"

section \<open>The sort sorts\<close>

locale selection =
  fixes before :: "'a \<Rightarrow> 'a \<Rightarrow> bool" and key :: "'a \<Rightarrow> 'k::linorder"
  assumes before_key: "before x y \<longleftrightarrow> key x < key y"
begin

lemma best_index_fold:
  assumes "i \<le> m" and "m < length xs" and "\<forall>j \<in> set js. i \<le> j \<and> j < length xs"
  shows "let b = foldl (\<lambda>m j. if before (xs ! j) (xs ! m) then j else m) m js
    in i \<le> b \<and> b < length xs \<and> key (xs ! b) \<le> key (xs ! m) \<and> (\<forall>j \<in> set js. key (xs ! b) \<le> key (xs ! j))"
  using assms
proof (induction js arbitrary: m)
  case Nil
  then show ?case by simp
next
  case (Cons j js)
  let ?m = "if before (xs ! j) (xs ! m) then j else m"
  have m: "i \<le> ?m" "?m < length xs" "key (xs ! ?m) \<le> key (xs ! m)" "key (xs ! ?m) \<le> key (xs ! j)"
    using Cons.prems by (auto simp: before_key)
  show ?case using Cons.IH [of ?m] m Cons.prems(3) by (auto simp: Let_def intro: order_trans)
qed

lemma best_index_min:
  assumes "i < length xs"
  shows "i \<le> best_index before xs i" and "best_index before xs i < length xs"
    and "\<And>j. i \<le> j \<Longrightarrow> j < length xs \<Longrightarrow> key (xs ! best_index before xs i) \<le> key (xs ! j)"
proof -
  note b = best_index_fold [of i i xs "[i + 1 ..< length xs]", OF le_refl assms]
  show "i \<le> best_index before xs i" "best_index before xs i < length xs"
    using b by (simp_all add: Let_def best_index_def)
  show "key (xs ! best_index before xs i) \<le> key (xs ! j)" if "i \<le> j" "j < length xs" for j
    using b that by (cases "j = i") (auto simp: Let_def best_index_def)
qed

definition sorted_upto :: "nat \<Rightarrow> 'a list \<Rightarrow> bool" where
  "sorted_upto n xs \<longleftrightarrow> (\<forall>i j. i < n \<longrightarrow> i \<le> j \<longrightarrow> j < length xs \<longrightarrow> key (xs ! i) \<le> key (xs ! j))"

lemma sort_step_ok:
  assumes "sorted_upto i xs" and "i < length xs"
  shows "sorted_upto (Suc i) (sort_step before xs i) \<and> mset (sort_step before xs i) = mset xs
    \<and> length (sort_step before xs i) = length xs"
proof -
  let ?m = "best_index before xs i" and ?ys = "sort_step before xs i"
  note b = best_index_min [OF assms(2)]
  have len: "length ?ys = length xs" by (simp add: sort_step_def Let_def)
  have nth: "?ys ! k = (if k = i then xs ! ?m else if k = ?m then xs ! i else xs ! k)" if "k < length xs" for k
    using that b(2) by (auto simp: sort_step_def Let_def nth_list_update)
  have "mset ?ys = mset xs"
    using b(2) assms(2) by (auto simp: sort_step_def Let_def mset_swap list_update_swap)
  moreover have "sorted_upto (Suc i) ?ys"
    unfolding sorted_upto_def
  proof (intro allI impI)
    fix k j assume k: "k < Suc i" "k \<le> j" "j < length ?ys"
    show "key (?ys ! k) \<le> key (?ys ! j)"
    proof (cases "k = i")
      case True
      have "i \<le> j" using k True by simp
      then show ?thesis using True b k nth [of i] nth [of j] assms(2) len by auto
    next
      case False
      then have "k < i" using k(1) by simp
      moreover from this have "?ys ! k = xs ! k" using nth [of k] b(1) assms(2) by auto
      ultimately show ?thesis
        using assms k len nth [of j] b unfolding sorted_upto_def by (auto simp: less_imp_le)
    qed
  qed
  ultimately show ?thesis using len by simp
qed

lemma selection_sort_ok:
  "sorted (map key (selection_sort before xs)) \<and> mset (selection_sort before xs) = mset xs"
proof -
  have "n \<le> length xs \<Longrightarrow> sorted_upto n (foldl (sort_step before) xs [0 ..< n])
      \<and> mset (foldl (sort_step before) xs [0 ..< n]) = mset xs
      \<and> length (foldl (sort_step before) xs [0 ..< n]) = length xs" for n
  proof (induction n)
    case 0
    then show ?case by (simp add: sorted_upto_def)
  next
    case (Suc n)
    then show ?case using sort_step_ok [of n "foldl (sort_step before) xs [0 ..< n]"] by simp
  qed
  from this [OF le_refl] show ?thesis
    by (simp add: selection_sort_def sorted_upto_def sorted_iff_nth_mono)
qed

end

interpretation boundaries: selection "\<lambda>x min_val. min_val > x" "\<lambda>x::nat. x"
  by unfold_locales simp

interpretation by_size: selection "\<lambda>x y. region_size y < region_size x" "\<lambda>r. - int (region_size r)"
  by unfold_locales simp

lemma sort_boundaries_ok: "sorted (sort_boundaries b) \<and> mset (sort_boundaries b) = mset b"
  using boundaries.selection_sort_ok [of b] by (simp add: sort_boundaries_def)

lemma sort_regions_ok:
  "sorted (map (\<lambda>r. - int (region_size r)) (sort_regions rs)) \<and> mset (sort_regions rs) = mset rs"
  using by_size.selection_sort_ok [of rs] by (simp add: sort_regions_def)

section \<open>The cuts partition the mapping\<close>

fun cuts :: "nat \<Rightarrow> nat list \<Rightarrow> (nat \<times> nat) list" where
  "cuts e [] = []"
| "cuts e (b # bs) = (if e = b then cuts e bs else (e, b) # cuts b bs)"

lemma region_loop_cuts:
  assumes "\<And>s e. reg_end (mk s e) = e" and "rs = [] \<Longrightarrow> 0 \<notin> set bs"
  shows "region_loop mk bs rs
    = rs @ map (\<lambda>(s, e). mk s e) (cuts (if rs \<noteq> [] then reg_end (last rs) else 0) bs)"
  using assms(2)
proof (induction bs arbitrary: rs)
  case Nil
  then show ?case by simp
next
  case (Cons b bs)
  then show ?case using Cons.IH [of rs] Cons.IH [of "rs @ [mk (if rs \<noteq> [] then reg_end (last rs) else 0) b]"]
    by (auto simp: assms(1))
qed

lemma cuts_members:
  "sorted (e # bs) \<Longrightarrow> (s, t) \<in> set (cuts e bs) \<Longrightarrow>
     s < t \<and> t \<in> set bs \<and> (s = e \<or> s \<in> set bs) \<and> e \<le> s \<and> (\<forall>b \<in> set bs. b \<le> s \<or> t \<le> b)"
proof (induction e bs rule: cuts.induct)
  case (1 e)
  then show ?case by simp
next
  case (2 e b bs)
  show ?case
  proof (cases "e = b")
    case True
    have "sorted (e # bs)" "(s, t) \<in> set (cuts e bs)" using 2(3,4) True by auto
    from 2(1) [OF True this] True show ?thesis by auto
  next
    case False
    then have eb: "e < b" using 2(3) by simp
    from 2(4) False consider "s = e" "t = b" | "(s, t) \<in> set (cuts b bs)" by auto
    then show ?thesis
    proof cases
      case 1
      with 2(3) eb show ?thesis by auto
    next
      case 2
      have "sorted (b # bs)" using "2.prems"(1) by simp
      from "2.IH"(2) [OF False this 2] eb show ?thesis by auto
    qed
  qed
qed

lemma cuts_cover:
  "sorted (e # bs) \<Longrightarrow> e \<le> x \<Longrightarrow> x < b \<Longrightarrow> b \<in> set bs \<Longrightarrow> \<exists>(s, t) \<in> set (cuts e bs). s \<le> x \<and> x < t"
proof (induction e bs rule: cuts.induct)
  case (1 e)
  then show ?case by simp
next
  case (2 e c bs)
  show ?case
  proof (cases "e = c")
    case True
    then have "b \<in> set bs" using 2(4,5,6) by auto
    with 2(1) [OF True _ 2(4,5)] True 2(3) show ?thesis by simp
  next
    case False
    show ?thesis
    proof (cases "x < c")
      case True
      with False 2(4) show ?thesis by auto
    next
      case ge: False
      then have "b \<in> set bs" using 2(5,6) by auto
      with 2(2) [OF False] ge 2(3,5) have "\<exists>(s, t) \<in> set (cuts c bs). s \<le> x \<and> x < t" by auto
      with False show ?thesis by auto
    qed
  qed
qed

section \<open>The regions are well formed\<close>

lemma region_boundaries_mem:
  "x \<in> set (region_boundaries low ph pt len hd_sb tl_sb) \<longleftrightarrow>
     0 < low \<and> x = low \<or> ph \<and> 0 < len \<and> x = 1 \<or> pt \<and> 1 < len \<and> x = len - 1
     \<or> 0 < hd_sb \<and> hd_sb < len \<and> x = hd_sb \<or> 0 < tl_sb \<and> tl_sb < len \<and> x = len - tl_sb \<or> x = len"
  by (auto simp: region_boundaries_def)

lemma region_boundaries_length: "length (region_boundaries low ph pt len hd_sb tl_sb) \<le> GPADESC_MAX_REGION"
  by (simp add: region_boundaries_def GPADESC_MAX_REGION_def)

lemma cuts_length: "length (cuts e bs) \<le> length bs"
  by (induction e bs rule: cuts.induct) auto

lemma make_region_simps [simp]:
  "reg_start (make_region c low ph pt len a b s e) = s"
  "reg_end (make_region c low ph pt len a b s e) = e"
  by (simp_all add: make_region_def Let_def)

text \<open>What \<open>allocate_gpas\<close> measures: the aligned part between head and tail is whole blocks.\<close>

definition measured :: "emm_config \<Rightarrow> bool \<Rightarrow> bool \<Rightarrow> bool \<Rightarrow> nat \<Rightarrow> nat \<Rightarrow> nat \<Rightarrow> bool" where
  "measured c lowmem_vmr ph pt len hd_sb tl_sb \<longleftrightarrow>
     bvma_subblock_order c \<le> bvma_block_order c \<and> bvma_block_order c \<le> BLOCK_MAX_ORDER \<and> 0 < len
     \<and> (ph \<longrightarrow> 0 < hd_sb) \<and> (pt \<longrightarrow> 0 < tl_sb)
     \<and> (hd_sb + tl_sb < len \<longrightarrow> emm_sib_size c dvd len - tl_sb - hd_sb)
     \<and> (lowmem_vmr \<longrightarrow> emm_sib_size c dvd hd_sb \<and> low_memory_end c True \<le> len)"

lemma low_memory_end_dvd:
  assumes "bvma_subblock_order c \<le> bvma_block_order c" and "bvma_block_order c \<le> BLOCK_MAX_ORDER"
  shows "low_memory_end c True = 2 ^ (9 - bvma_subblock_order c)"
    and "emm_sib_size c dvd low_memory_end c True"
proof -
  have b: "bvma_block_order c \<le> 9" "bvma_subblock_order c \<le> 9" using assms by (simp_all add: BLOCK_MAX_ORDER_def)
  have "(2::nat) ^ bvma_block_order c \<le> 2 ^ 9" using b by (intro power_increasing) simp_all
  then have "get_num_low_memory_pages c = 2 ^ 9"
    by (simp add: get_num_low_memory_pages_def LOW_MEMORY_REGION_SIZE_def PAGE_SHIFT_def)
  then show e: "low_memory_end c True = 2 ^ (9 - bvma_subblock_order c)"
    using b(2) by (simp add: low_memory_end_def power_diff)
  show "emm_sib_size c dvd low_memory_end c True"
    unfolding e emm_sib_size_def using b by (intro le_imp_power_dvd) simp
qed

lemma measured_low:
  assumes "measured c lowmem ph pt len hd_sb tl_sb" and "low = low_memory_end c lowmem"
  shows "low \<le> len" and "0 < low \<Longrightarrow> emm_sib_size c dvd low \<and> emm_sib_size c dvd hd_sb"
proof -
  have c: "bvma_subblock_order c \<le> bvma_block_order c" "bvma_block_order c \<le> BLOCK_MAX_ORDER"
    using assms(1) by (simp_all add: measured_def)
  show "low \<le> len" using assms by (cases lowmem) (simp_all add: measured_def low_memory_end_def)
  show "0 < low \<Longrightarrow> emm_sib_size c dvd low \<and> emm_sib_size c dvd hd_sb"
    using assms low_memory_end_dvd(2) [OF c] by (cases lowmem) (simp_all add: measured_def low_memory_end_def)
qed

lemma make_region_ok:
  assumes m: "measured c lowmem ph pt len hd_sb tl_sb"
    and low: "low = low_memory_end c lowmem" and B: "B = region_boundaries low ph pt len hd_sb tl_sb"
    and ae: "ae = (if tl_sb < len then len - tl_sb else 0)"
    and st: "s < e" "e \<in> set B" "s = 0 \<or> s \<in> set B" "\<forall>b \<in> set B. b \<le> s \<or> e \<le> b"
    and d: "gpa_len d = len" "block_aligned_start d = hd_sb" "desc_sb_order d = bvma_subblock_order c"
  shows "region_ok d (make_region c low ph pt len hd_sb ae s e)"
proof -
  let ?r = "make_region c low ph pt len hd_sb ae s e" and ?D = "emm_sib_size c"
  note mlow = measured_low [OF m low]
  have mm: "ph \<Longrightarrow> 0 < hd_sb" "pt \<Longrightarrow> 0 < tl_sb"
    "hd_sb + tl_sb < len \<Longrightarrow> ?D dvd len - tl_sb - hd_sb" "bvma_block_order c \<le> 9"
    using m by (simp_all add: measured_def BLOCK_MAX_ORDER_def)
  note mem = region_boundaries_mem [of _ low ph pt len hd_sb tl_sb, folded B]
  have elen: "e \<le> len" using st(2) mlow mem [of e] by auto
  show ?thesis
  proof (cases "e \<le> hd_sb \<or> ae \<le> s \<or> bvma_block_order c \<le> bvma_subblock_order c")
    case True
    then have "desc_span d ?r = 0"
      using m by (auto simp: desc_span_def make_region_def Let_def d measured_def)
    then show ?thesis using st(1) elen d(1) by (simp add: region_ok_def)
  next
    case False
    then have big: "hd_sb < e" "s < ae" "desc_span d ?r = bvma_block_order c - bvma_subblock_order c"
      using mm(4) by (auto simp: desc_span_def make_region_def Let_def d LOW_MEMORY_MAX_ORDER_def)
    from big(2) have tl: "tl_sb < len" "ae = len - tl_sb" by (auto simp: ae split: if_splits)
    have e: "e \<le> ae"
    proof (cases "tl_sb = 0")
      case True
      then show ?thesis using tl elen by simp
    next
      case False
      then have "len - tl_sb \<in> set B" using tl mem [of "len - tl_sb"] by simp
      then show ?thesis using st(4) big(2) tl by auto
    qed
    have s: "hd_sb \<le> s"
    proof (cases "hd_sb = 0")
      case False
      then have "hd_sb \<in> set B" using big(1) elen mem [of hd_sb] by auto
      then show ?thesis using st(4) big(1) by auto
    qed simp
    have lowd: "?D dvd low - hd_sb" if "0 < low"
      using mlow(2) [OF that] by (simp add: dvd_diff_nat)
    have aed: "?D dvd ae - hd_sb" using mm(3) tl s big(2) by simp
    have "s = hd_sb \<or> 0 < low \<and> s = low"
      using st(3) s big(2) tl mm(1,2) mem [of s] by (cases "s = 0") auto
    then have ds: "?D dvd s - hd_sb" using lowd by auto
    have "e = ae \<or> 0 < low \<and> e = low"
      using st(2) e big(1) tl mm(1,2) mem [of e] by auto
    then have "?D dvd e - hd_sb" using lowd aed by auto
    then have "?D dvd (e - hd_sb) - (s - hd_sb)" using ds by (rule dvd_diff_nat)
    then have "?D dvd e - s" using s by simp
    then show ?thesis
      using st(1) elen d s ds big(3) by (simp add: region_ok_def emm_sib_size_def)
  qed
qed

lemma set_gpadesc_regions_ok:
  assumes m: "measured c lowmem ph pt (gpa_len d) hd_sb tl_sb"
    and d: "block_aligned_start d = hd_sb" "desc_sb_order d = bvma_subblock_order c"
  shows "regions_ok (set_gpadesc_regions c lowmem ph pt hd_sb tl_sb d)
    \<and> length (regions (set_gpadesc_regions c lowmem ph pt hd_sb tl_sb d)) \<le> GPADESC_MAX_REGION"
proof -
  let ?low = "low_memory_end c lowmem" and ?len = "gpa_len d"
  let ?ae = "if tl_sb < ?len then ?len - tl_sb else 0"
  let ?B = "region_boundaries ?low ph pt ?len hd_sb tl_sb"
  let ?mk = "make_region c ?low ph pt ?len hd_sb ?ae"
  let ?bs = "sort_boundaries ?B" and ?d' = "set_gpadesc_regions c lowmem ph pt hd_sb tl_sb d"
  have len: "0 < ?len" using m by (simp add: measured_def)
  have bs: "sorted ?bs" "set ?bs = set ?B" "length ?bs = length ?B"
    using sort_boundaries_ok [of ?B] by (auto dest: mset_eq_setD mset_eq_length)
  note mem = region_boundaries_mem [of _ ?low ph pt ?len hd_sb tl_sb]
  have pos: "0 \<notin> set ?bs" unfolding bs(2) mem using len by auto
  have loop: "region_loop ?mk ?bs [] = map (\<lambda>(s, e). ?mk s e) (cuts 0 ?bs)"
    using region_loop_cuts [of ?mk "[]" ?bs] pos by simp
  have regs: "regions ?d' = sort_regions (map (\<lambda>(s, e). ?mk s e) (cuts 0 ?bs))"
    unfolding set_gpadesc_regions_def Let_def loop by simp
  have ms: "mset (regions ?d') = mset (map (\<lambda>(s, e). ?mk s e) (cuts 0 ?bs))"
    unfolding regs using sort_regions_ok by blast
  have set: "set (regions ?d') = (\<lambda>(s, e). ?mk s e) ` set (cuts 0 ?bs)"
    using mset_eq_setD [OF ms] by simp
  have gl: "gpa_len ?d' = ?len" "block_aligned_start ?d' = hd_sb" "desc_sb_order ?d' = bvma_subblock_order c"
    using d by (simp_all add: set_gpadesc_regions_def Let_def)
  have srt: "sorted (0 # ?bs)" using bs(1) by simp
  note cm = cuts_members [OF srt, unfolded bs(2)]
  have "region_ok ?d' r" if "r \<in> set (regions ?d')" for r
  proof -
    from that obtain s e where se: "(s, e) \<in> set (cuts 0 ?bs)" "r = ?mk s e" unfolding set by auto
    from cm [OF se(1)] have "s < e" "e \<in> set ?B" "s = 0 \<or> s \<in> set ?B" "\<forall>b \<in> set ?B. b \<le> s \<or> e \<le> b"
      by blast+
    from make_region_ok [OF m refl refl refl this gl] show ?thesis by (simp add: se(2))
  qed
  moreover have "\<exists>r \<in> set (regions ?d'). in_region idx r" if "idx < ?len" for idx
  proof -
    have "?len \<in> set ?bs" unfolding bs(2) mem by simp
    from cuts_cover [OF srt _ that this] obtain s e where
      "(s, e) \<in> set (cuts 0 ?bs)" "s \<le> idx" "idx < e" by auto
    then show ?thesis unfolding set by (force simp: in_region_def)
  qed
  moreover have "r = r'" if "r \<in> set (regions ?d')" "r' \<in> set (regions ?d')" "in_region idx r" "in_region idx r'" for r r' idx
  proof -
    from that(1,2) obtain s e s' e' where se: "(s, e) \<in> set (cuts 0 ?bs)" "r = ?mk s e"
      "(s', e') \<in> set (cuts 0 ?bs)" "r' = ?mk s' e'" unfolding set by auto
    have i: "s \<le> idx" "idx < e" "s' \<le> idx" "idx < e'" using that(3,4) se by (simp_all add: in_region_def)
    have "e = e'" using cm [OF se(1)] cm [OF se(3)] i by (meson le_antisym le_trans not_le)
    moreover have "s = s'" using cm [OF se(1)] cm [OF se(3)] i
      by (metis le_antisym le_trans not_le zero_le)
    ultimately show ?thesis by (simp add: se)
  qed
  moreover have "regions ?d' \<noteq> []" using calculation(2) len by fastforce
  moreover have "length (regions ?d') \<le> GPADESC_MAX_REGION"
    using mset_eq_length [OF ms] cuts_length [of 0 ?bs] bs(3)
      region_boundaries_length [of ?low ph pt ?len hd_sb tl_sb] by simp
  ultimately show ?thesis unfolding regions_ok_def gl(1) by blast
qed

section \<open>Measuring a mapping\<close>

lemma VA_ROUND_DOWN_eq: "VA_ROUND_DOWN_ORDER v k = v div 2 ^ k * 2 ^ k"
  by (simp add: VA_ROUND_DOWN_ORDER_def minus_mod_eq_div_mult)

lemma VA_ROUND_UP_ge: "v \<le> VA_ROUND_UP_ORDER v k"
proof -
  have "v + 2 ^ k - 1 = (v + 2 ^ k - 1) div 2 ^ k * 2 ^ k + (v + 2 ^ k - 1) mod 2 ^ k"
    by (rule div_mult_mod_eq [symmetric])
  moreover have "(v + 2 ^ k - 1) mod 2 ^ k < 2 ^ k" by simp
  ultimately show ?thesis unfolding VA_ROUND_UP_ORDER_def VA_ROUND_DOWN_eq by linarith
qed

lemma VA_ROUND_UP_div: "2 ^ k dvd VA_ROUND_UP_ORDER v k"
  by (simp add: VA_ROUND_UP_ORDER_def VA_ROUND_DOWN_eq)

lemma sb_at_head_dvd:
  fixes c S defines "D \<equiv> emm_sib_size c"
  assumes "vm_start = S * 2 ^ (bvma_subblock_order c + PAGE_SHIFT)"
  shows "D dvd S + sb_at_head c vmr_start vm_start"
    and "vmr_start \<noteq> vm_start \<Longrightarrow> 0 < sb_at_head c vmr_start vm_start"
proof -
  have D: "0 < D" by (simp add: D_def emm_sib_size_def)
  have lt: "S mod D < D" using D by simp
  have h: "sb_at_head c vmr_start vm_start
    = (if 0 < S mod D then D - S mod D else if vmr_start \<noteq> vm_start then D else 0)"
    using D lt by (auto simp add: sb_at_head_def assms(2) Let_def simp flip: D_def)
  have S: "S = D * (S div D) + S mod D" by (rule mult_div_mod_eq [symmetric])
  show "0 < sb_at_head c vmr_start vm_start" if "vmr_start \<noteq> vm_start"
    using that lt D by (simp add: h)
  show "D dvd S + sb_at_head c vmr_start vm_start"
  proof (cases "0 < S mod D")
    case True
    then have "sb_at_head c vmr_start vm_start = D - S mod D" using h by simp
    then have "S + sb_at_head c vmr_start vm_start = D * (S div D) + D" using S lt by linarith
    then show ?thesis by (simp add: dvd_add)
  next
    case False
    then show ?thesis using h by (auto simp: dvd_eq_mod_eq_0)
  qed
qed

lemma sb_at_tail_dvd:
  fixes c T defines "D \<equiv> emm_sib_size c"
  assumes "vm_end = T * 2 ^ (bvma_subblock_order c + PAGE_SHIFT)"
  shows "D dvd T - sb_at_tail c vmr_end vm_end"
    and "vmr_end \<noteq> vm_end \<Longrightarrow> 0 < sb_at_tail c vmr_end vm_end"
proof -
  have D: "0 < D" by (simp add: D_def emm_sib_size_def)
  have h: "sb_at_tail c vmr_end vm_end
    = (if T mod D = 0 \<and> vmr_end \<noteq> vm_end then D else T mod D)"
    using D by (simp add: sb_at_tail_def assms(2) Let_def flip: D_def)
  show "0 < sb_at_tail c vmr_end vm_end" if "vmr_end \<noteq> vm_end" using that D h by simp
  show "D dvd T - sb_at_tail c vmr_end vm_end"
  proof (cases "T mod D = 0")
    case True
    then have "D dvd T" "D dvd sb_at_tail c vmr_end vm_end" using h by (auto simp: dvd_eq_mod_eq_0)
    then show ?thesis by (rule dvd_diff_nat)
  next
    case False
    then have "T - sb_at_tail c vmr_end vm_end = D * (T div D)" using h by (simp add: minus_mod_eq_mult_div)
    then show ?thesis by simp
  qed
qed

lemma dir_pads_room:
  assumes "gpa_dir_pads c hd_sb tl_sb = (offset, pad)"
  shows "n + 1 \<le> (PAGE_ROUND_UP (n * 8 + offset + pad) - offset) div 8"
proof -
  have "1 \<le> emm_sib_size c" by (simp add: emm_sib_size_def)
  then have pad: "8 \<le> pad" using assms by (auto simp: gpa_dir_pads_def Let_def split: if_splits)
  define t x where "t = n * 8 + offset + pad" and "x = PAGE_ROUND_UP t"
  have "t \<le> x"
    using VA_ROUND_UP_ge [of t PAGE_SHIFT]
    by (simp add: x_def PAGE_ROUND_UP_def VA_ROUND_UP_ORDER_def VA_ROUND_DOWN_ORDER_def PAGE_SIZE_def)
  with pad have "offset + (n + 1) * 8 \<le> x" unfolding t_def by simp
  then have "(n + 1) * 8 \<le> x - offset" by simp
  then show ?thesis unfolding t_def [symmetric] x_def [symmetric]
    by (simp add: less_eq_div_iff_mult_less_eq)
qed

lemma allocate_gpas_ok:
  assumes c: "bvma_subblock_order c \<le> bvma_block_order c" "bvma_block_order c \<le> BLOCK_MAX_ORDER"
    and vm: "vmr_start < vmr_end"
    and low: "lowmem \<Longrightarrow> 2 ^ (bvma_block_order c + PAGE_SHIFT) dvd vmr_start
      \<and> LOW_MEMORY_REGION_SIZE \<le> vmr_end - vmr_start"
    and res: "allocate_gpas c lowmem vmr_start vmr_end vzalloc = Inr d"
  shows "regions_ok d \<and> dir_ok d \<and> length (regions d) \<le> GPADESC_MAX_REGION
    \<and> (\<forall>idx < gpa_len d. gpa_dir d ! idx = None)
    \<and> vm_base d \<le> vmr_start \<and> vmr_start < vm_base d + 2 ^ (bvma_subblock_order c + PAGE_SHIFT)
    \<and> vmr_end \<le> vm_base d + gpa_len d * 2 ^ (bvma_subblock_order c + PAGE_SHIFT)"
proof -
  let ?k = "bvma_subblock_order c + PAGE_SHIFT" and ?D = "emm_sib_size c"
  let ?vs = "VA_ROUND_DOWN_ORDER vmr_start ?k" and ?ve = "VA_ROUND_UP_ORDER vmr_end ?k"
  define S T where "S = ?vs div 2 ^ ?k" and "T = ?ve div 2 ^ ?k"
  have vs: "?vs = S * 2 ^ ?k" by (simp add: S_def VA_ROUND_DOWN_eq)
  have ve: "?ve = T * 2 ^ ?k" using VA_ROUND_UP_div [of ?k vmr_end] by (simp add: T_def)
  have vsl: "?vs \<le> vmr_start" "vmr_start < ?vs + 2 ^ ?k"
    using align_down_le [of ?k vmr_start] align_down_upper [of vmr_start ?k]
    by (simp_all only: VA_ROUND_DOWN_eq align_down_eq)
  have vel: "vmr_end \<le> ?ve" by (rule VA_ROUND_UP_ge)
  have "S * 2 ^ ?k < T * 2 ^ ?k" using vs ve vsl vel vm by linarith
  then have ST: "S < T" by simp
  have len: "(?ve - ?vs) div 2 ^ ?k = T - S" by (simp add: vs ve flip: diff_mult_distrib)
  define hs ts where "hs = sb_at_head c vmr_start ?vs" and "ts = sb_at_tail c vmr_end ?ve"
  note hd = sb_at_head_dvd [OF vs, of vmr_start, folded hs_def]
    and tl = sb_at_tail_dvd [OF ve, of vmr_end, folded ts_def]
  obtain offset pad where pads: "gpa_dir_pads c hs ts = (offset, pad)" by fastforce
  let ?al = "PAGE_ROUND_UP ((T - S) * 8 + offset + pad)"
  define d0 where "d0 = \<lparr>gpa_len = T - S, gpa_dir = replicate ((?al - offset) div 8) None,
      desc_sb_order = bvma_subblock_order c, vm_base = ?vs, block_aligned_start = hs, regions = []\<rparr>"
  have dd: "d = set_gpadesc_regions c lowmem (vmr_start \<noteq> ?vs) (vmr_end \<noteq> ?ve) hs ts d0"
    using res unfolding allocate_gpas_def Let_def hs_def [symmetric] ts_def [symmetric] len pads d0_def
    by (simp split: if_splits)
  have mid: "?D dvd (T - S) - ts - hs" if "hs + ts < T - S"
  proof -
    have "?D dvd (T - ts) - (S + hs)" using hd(1) tl(1) by (rule dvd_diff_nat [rotated])
    moreover have "(T - ts) - (S + hs) = (T - S) - ts - hs" using that by linarith
    ultimately show ?thesis by simp
  qed
  have lowok: "?D dvd hs \<and> low_memory_end c True \<le> T - S" if "lowmem"
  proof
    have "bvma_block_order c + PAGE_SHIFT = (bvma_block_order c - bvma_subblock_order c) + ?k"
      using c by simp
    then have e: "?D * 2 ^ ?k = 2 ^ (bvma_block_order c + PAGE_SHIFT)"
      by (simp only: emm_sib_size_def power_add)
    from low [OF that] obtain q where q: "vmr_start = (q * ?D) * 2 ^ ?k"
      unfolding e [symmetric] by (auto simp: dvd_def ac_simps)
    then have "S = q * ?D" using VA_ROUND_DOWN_eq [of vmr_start ?k] by (simp add: S_def)
    then show "?D dvd hs" using hd(1) by (simp add: dvd_add_right_iff)
    have "2 ^ (9 - bvma_subblock_order c) * 2 ^ ?k = (2::nat) ^ 21"
      using c by (simp add: BLOCK_MAX_ORDER_def PAGE_SHIFT_def flip: power_add)
    moreover have "(T - S) * 2 ^ ?k \<ge> 2 ^ 21"
    proof -
      have "2 * 2 ^ 20 \<le> vmr_end - vmr_start" using low [OF that] by (simp add: LOW_MEMORY_REGION_SIZE_def)
      then have "2 ^ 21 \<le> ?ve - ?vs" using vsl vel by simp
      then show ?thesis by (simp only: diff_mult_distrib vs [symmetric] ve [symmetric])
    qed
    ultimately have "2 ^ (9 - bvma_subblock_order c) * 2 ^ ?k \<le> (T - S) * 2 ^ ?k" by simp
    then show "low_memory_end c True \<le> T - S" unfolding low_memory_end_dvd(1) [OF c] by simp
  qed
  have m: "measured c lowmem (vmr_start \<noteq> ?vs) (vmr_end \<noteq> ?ve) (gpa_len d0) hs ts"
    using c ST hd(2) tl(2) mid lowok by (simp add: measured_def d0_def)
  have rok: "regions_ok d" "length (regions d) \<le> GPADESC_MAX_REGION"
    using set_gpadesc_regions_ok [OF m] by (simp_all add: dd d0_def)
  have f: "gpa_len d = T - S" "gpa_dir d = replicate ((?al - offset) div 8) None" "vm_base d = ?vs"
    by (simp_all add: dd set_gpadesc_regions_def Let_def d0_def)
  have room: "gpa_len d < length (gpa_dir d)"
    using dir_pads_room [OF pads, of "T - S"] by (simp add: f)
  then have "dir_ok d" by (auto simp: dir_ok_def f)
  moreover have "\<forall>idx < gpa_len d. gpa_dir d ! idx = None" using room by (simp add: f)
  moreover have "vmr_end \<le> vm_base d + gpa_len d * 2 ^ ?k"
    using vel ve vs ST by (simp add: f diff_mult_distrib)
  ultimately show ?thesis using rok vsl by (simp add: f)
qed

section \<open>Filling a group of the directory\<close>

definition region_flags :: "gpadesc_region \<Rightarrow> u32" where
  "region_flags r = (if lowmem_block r then GPA_LOWMEM_BLOCK_MASK else 0)
     OR (if partial_map r then GPA_PARTIAL_MAP_MASK else 0)"

definition fresh_gpa :: "emm_config \<Rightarrow> gpadesc_region \<Rightarrow> emp_gpa \<Rightarrow> bool" where
  "fresh_gpa c r g \<longleftrightarrow> orders_ok g \<and> sb_order g = bvma_subblock_order c
     \<and> block_order g = alloc_order r \<and> max_block_order g = alloc_order r \<and> \<not> gpa_lock g
     \<and> gpa_flags g = region_flags r \<and> r_state g = GPA_INIT
     \<and> remote_page g = FREE_REMOTE_PAGE_VAL \<and> local_page g = None"

lemma set_gpadesc_fresh:
  assumes "bvma_subblock_order c \<le> alloc_order r" and "alloc_order r \<le> BLOCK_MAX_ORDER"
  shows "fresh_gpa c r (set_gpadesc c r) \<and> gpa_refcnt (set_gpadesc c r) = 0"
proof -
  let ?s = "bvma_subblock_order c" and ?k = "alloc_order r"
  have k: "?s mod 16 = ?s" "?k mod 16 = ?k" "(?k + 16 - ?s) mod 16 = ?k - ?s"
    using assms mod16_sub [of ?s ?k] by (simp_all add: BLOCK_MAX_ORDER_def)
  define g where "g = update_gpa_order (emp_init_gpa ?s) ?k"
  have g: "orders_ok g" "sb_order g = ?s" "block_order g = ?k" "max_block_order g = ?k"
    "\<not> gpa_lock g" "gpa_flags g = 0" "r_state g = GPA_INIT" "remote_page g = FREE_REMOTE_PAGE_VAL"
    "local_page g = None" "gpa_refcnt g = 0"
    using k assms
    by (simp_all add: g_def orders_ok_def emp_init_gpa_def emp_ops Let_def zero_gpa_def)
  have "set_gpadesc c r = g\<lparr>gpa_flags := region_flags r\<rparr>"
    using g(6) by (simp add: set_gpadesc_def Let_def set_if_unset_eq_set set_gpa_flags_def
        region_flags_def flip: g_def)
  with g show ?thesis by (simp add: fresh_gpa_def orders_ok_def)
qed

lemma fill_group_spec:
  assumes "\<And>j. a \<le> j \<Longrightarrow> j < n \<Longrightarrow> b + j < length dir \<and> dir ! (b + j) = None"
  shows "\<exists>h' dir'. fill_group h dir (map (\<lambda>j. (b + j, p + j)) [a ..< n]) = (h', dir')
    \<and> length dir' = length dir
    \<and> (\<forall>i < length dir. dir' ! i = (if b + a \<le> i \<and> i < b + n then Some (p + (i - b)) else dir ! i))
    \<and> (\<forall>q. h' q = (if p + a \<le> q \<and> q < p + n then (h q)\<lparr>gpa_refcnt := gpa_refcnt (h q) + 1\<rparr> else h q))"
  using assms
proof (induction "n - a" arbitrary: a h dir)
  case 0
  then show ?case by auto
next
  case (Suc m)
  then have an: "a < n" by simp
  then have l: "[a ..< n] = a # [Suc a ..< n]" by (rule upt_conv_Cons)
  let ?h = "h(p + a := (h (p + a))\<lparr>gpa_refcnt := gpa_refcnt (h (p + a)) + 1\<rparr>)"
  let ?dir = "dir[b + a := Some (p + a)]"
  have ba: "b + a < length dir" "dir ! (b + a) = None" using Suc.prems an by simp_all
  have "m = n - Suc a" using Suc.hyps(2) by simp
  from Suc.hyps(1) [OF this, of ?dir ?h] Suc.prems obtain h' dir' where r:
    "fill_group ?h ?dir (map (\<lambda>j. (b + j, p + j)) [Suc a ..< n]) = (h', dir')"
    "length dir' = length dir"
    "\<forall>i < length dir. dir' ! i = (if b + Suc a \<le> i \<and> i < b + n then Some (p + (i - b)) else ?dir ! i)"
    "\<forall>q. h' q = (if p + Suc a \<le> q \<and> q < p + n then (?h q)\<lparr>gpa_refcnt := gpa_refcnt (?h q) + 1\<rparr> else ?h q)"
    by auto
  have "fill_group h dir (map (\<lambda>j. (b + j, p + j)) [a ..< n]) = (h', dir')"
    using r(1) ba by (simp add: l set_gpa_dir_new_def)
  moreover have "\<forall>i < length dir. dir' ! i = (if b + a \<le> i \<and> i < b + n then Some (p + (i - b)) else dir ! i)"
    using r(3) an by (auto simp: nth_list_update)
  moreover have "\<forall>q. h' q = (if p + a \<le> q \<and> q < p + n then (h q)\<lparr>gpa_refcnt := gpa_refcnt (h q) + 1\<rparr> else h q)"
    using r(4) an by auto
  ultimately show ?case using r(2) by blast
qed

text \<open>Without a race the whole group is filled with new descriptors, and nothing else changes.\<close>

lemma new_gpadesc_ok:
  assumes d: "regions_ok d" "dir_ok d" "desc_sb_order d = bvma_subblock_order c"
    and i: "idx < gpa_len d" "gpa_dir d ! idx = None"
    and p: "2 ^ span_at d idx dvd p"
    and a: "bvma_subblock_order c \<le> alloc_order (region_of d idx)" "alloc_order (region_of d idx) \<le> BLOCK_MAX_ORDER"
    and res: "new_gpadesc c h d idx (Some p) id after = (g, h', d')"
  shows "g = Some (p + (idx - group_head d idx)) \<and> d' = d\<lparr>gpa_dir := gpa_dir d'\<rparr>
    \<and> regions_ok d' \<and> dir_ok d' \<and> group_filled d' (group_head d idx) p
    \<and> (\<forall>i < length (gpa_dir d). group_head d idx \<le> i \<and> i < group_head d idx + 2 ^ span_at d idx
          \<or> gpa_dir d' ! i = gpa_dir d ! i)
    \<and> (\<forall>q. if p \<le> q \<and> q < p + 2 ^ span_at d idx
           then fresh_gpa c (region_of d idx) (h' q) \<and> gpa_refcnt (h' q) = 1
           else h' q = h q)"
proof -
  let ?r = "region_of d idx" and ?b = "group_head d idx" and ?dir = "gpa_dir d"
  define n :: nat where "n = 2 ^ span_at d idx"
  have n0: "0 < n" by (simp add: n_def)
  note f = group_head_facts [OF d(1) i(1), folded n_def]
  have empty: "?dir ! (?b + j) = None" if "j < n" for j
    using group_empty [OF d(1,2) i] that by (simp add: n_def)
  have inr: "?b + j < gpa_len d" if "j < n" for j
    using group_same [OF d(1) i(1), of "?b + j", folded n_def] that by simp
  have len: "gpa_len d < length ?dir" using d(2) by (simp add: dir_ok_def)
  have ne: "regions d \<noteq> []" using d(1) by (simp add: regions_ok_def)
  have reg: "the (get_gpadesc_region d idx) = ?r"
    using get_gpadesc_region_eq [OF ne, of idx] regions_ok_inside(1) [OF d(1) i(1)] by simp
  have sp: "alloc_order ?r - bvma_subblock_order c = span_at d idx"
    by (simp add: span_at_def desc_span_def d(3))
  define h1 where "h1 = (\<lambda>q. if p \<le> q \<and> q < p + n then set_gpadesc c ?r else h q)"
  note fr = set_gpadesc_fresh [OF a]
  have unl: "\<not> gpa_lock (h1 p)" using fr n0 by (simp add: h1_def fresh_gpa_def)
  define h2 where "h2 = h1(p := (h1 p)\<lparr>gpa_lock := True, gpa_refcnt := gpa_refcnt (h1 p) + 1\<rparr>)"
  define dir1 where "dir1 = ?dir[?b := Some p]"
  have b0: "?b < length ?dir" "?dir ! ?b = None" using inr [of 0] empty [of 0] n0 len by simp_all
  have "?b + j < length dir1 \<and> dir1 ! (?b + j) = None" if "1 \<le> j" "j < n" for j
    using empty [of j] inr [of j] len that by (simp add: dir1_def)
  from fill_group_spec [of 1 n ?b dir1 h2 p, OF this] obtain h3 dir2 where fg:
    "fill_group h2 dir1 (map (\<lambda>j. (?b + j, p + j)) [1 ..< n]) = (h3, dir2)"
    "length dir2 = length dir1"
    "\<forall>i < length dir1. dir2 ! i = (if ?b + 1 \<le> i \<and> i < ?b + n then Some (p + (i - ?b)) else dir1 ! i)"
    "\<forall>q. h3 q = (if p + 1 \<le> q \<and> q < p + n then (h2 q)\<lparr>gpa_refcnt := gpa_refcnt (h2 q) + 1\<rparr> else h2 q)"
    by auto
  have try1: "snd (emp_trylock_head h1 p) = h1(p := (h1 p)\<lparr>gpa_lock := True\<rparr>)"
    using unl by (simp add: emp_trylock_head_def emp_gpa_trylock_def)
  have try2: "snd (emp_trylock_head (\<lambda>q. if p \<le> q \<and> q < p + n then set_gpadesc c ?r else h q) p)
    = h1(p := (h1 p)\<lparr>gpa_lock := True\<rparr>)"
    using try1 unfolding h1_def .
  have set1: "set_gpa_dir_new (h1(p := (h1 p)\<lparr>gpa_lock := True\<rparr>)) ?dir ?b p = (None, h2, dir1)"
    using b0 by (simp add: set_gpa_dir_new_def h2_def dir1_def)
  have ev: "g = dir2 ! idx \<and> h' = emp_unlock_head h3 p \<and> d' = d\<lparr>gpa_dir := dir2\<rparr>"
    using res i(1) unfolding new_gpadesc_def Let_def reg sp n_def [symmetric]
    by (auto simp: try2 set1 fg(1) [unfolded One_nat_def] group_head_def [symmetric])
  have dir2: "dir2 ! i = (if ?b \<le> i \<and> i < ?b + n then Some (p + (i - ?b)) else ?dir ! i)"
    if "i < length ?dir" for i
    using fg(3) that b0 n0 by (auto simp: dir1_def nth_list_update not_less_eq_eq)
  have l2: "length dir2 = length ?dir" using fg(2) by (simp add: dir1_def)
  have dd: "d' = d\<lparr>gpa_dir := dir2\<rparr>" using ev by simp
  have same: "region_of d' x = region_of d x" "span_at d' x = span_at d x" "group_head d' x = group_head d x" for x
    by (simp_all add: dd region_of_def span_at_def desc_span_def group_head_def emp_get_block_head_index_def)
  have rok: "regions_ok d'" using d(1) by (simp add: dd regions_ok_def region_ok_def desc_span_def)
  have hb: "group_head d ?b = ?b" "span_at d ?b = span_at d idx"
    using group_same [OF d(1) i(1), of ?b] f(2) by simp_all
  have filled: "group_filled d' ?b p"
    unfolding group_filled_def same hb(2) n_def [symmetric]
    using p dir2 inr len by (fastforce simp: dd n_def)
  have "gpa_dir d' ! gpa_len d = None"
    using dir2 [of "gpa_len d"] len inr [of "n - 1"] d(2) n0 by (auto simp: dd dir_ok_def)
  moreover have "\<exists>base. group_filled d' (group_head d x) base"
    if x: "x < gpa_len d" "gpa_dir d' ! x \<noteq> None" for x
  proof (cases "?b \<le> x \<and> x < ?b + n")
    case True
    then have "group_head d x = ?b" using group_same [OF d(1) i(1), of x, folded n_def] by simp
    with filled show ?thesis by auto
  next
    case False
    then have "?dir ! x \<noteq> None" using x dir2 [of x] len by (auto simp: dd)
    then obtain base where base: "group_filled d (group_head d x) base" using d(2) x(1) by (auto simp: dir_ok_def)
    have "dir2 ! (group_head d x + j) = ?dir ! (group_head d x + j)" if j: "j < 2 ^ span_at d x" for j
    proof -
      let ?y = "group_head d x + j"
      have y: "?y < gpa_len d" "group_head d ?y = group_head d x" using group_same [OF d(1) x(1), of ?y] j by simp_all
      have "\<not> (?b \<le> ?y \<and> ?y < ?b + n)"
      proof
        assume "?b \<le> ?y \<and> ?y < ?b + n"
        then have "group_head d x = ?b" "span_at d x = span_at d idx"
          using group_same [OF d(1) i(1), of ?y, folded n_def] y(2)
            group_same [OF d(1) x(1), of ?y] j by simp_all
        then show False using group_head_facts(2,3) [OF d(1) x(1)] False by (simp add: n_def)
      qed
      then show ?thesis using dir2 [of ?y] y(1) len by auto
    qed
    moreover have "span_at d (group_head d x) = span_at d x"
      using group_same [OF d(1) x(1), of "group_head d x"] by simp
    ultimately have "group_filled d' (group_head d x) base"
      using base unfolding group_filled_def same by (simp add: dd)
    then show ?thesis ..
  qed
  ultimately have dok: "dir_ok d'"
    using len unfolding dir_ok_def same by (simp add: dd l2)
  have gval: "g = Some (p + (idx - ?b))" using ev dir2 [of idx] i(1) len f(2,3) by simp
  have heap: "if p \<le> q \<and> q < p + n then fresh_gpa c ?r (h' q) \<and> gpa_refcnt (h' q) = 1 else h' q = h q" for q
    using ev fg(4) fr n0
    by (auto simp: emp_unlock_head_def emp_gpa_unlock_def h2_def h1_def fresh_gpa_def orders_ok_def)
  show ?thesis
    using gval rok dok filled dir2 heap dd by (auto simp: n_def)
qed

text \<open>
  Losing the race changes no descriptor of others, takes and releases the winner's lock, and returns
  the winner's entry.
\<close>

lemma new_gpadesc_race:
  assumes "regions_ok d" "desc_sb_order d = bvma_subblock_order c" and "idx < gpa_len d"
    and "before (gpa_dir d) ! group_head d idx = Some cur"
    and "new_gpadesc c h d idx (Some p) before after = (g, h', d')"
  shows "\<exists>h1. (\<forall>q. \<not> (p \<le> q \<and> q < p + 2 ^ span_at d idx) \<longrightarrow> h1 q = h q)
    \<and> g = snd (after (h1, before (gpa_dir d))) ! idx \<and> gpa_dir d' = snd (after (h1, before (gpa_dir d)))
    \<and> (\<not> gpa_lock (fst (after (h1, before (gpa_dir d))) cur) \<longrightarrow> h' = fst (after (h1, before (gpa_dir d))))"
proof -
  have ne: "regions d \<noteq> []" using assms(1) by (simp add: regions_ok_def)
  have reg: "the (get_gpadesc_region d idx) = region_of d idx"
    using get_gpadesc_region_eq [OF ne, of idx] regions_ok_inside(1) [OF assms(1,3)] by simp
  have sp: "alloc_order (region_of d idx) - bvma_subblock_order c = span_at d idx"
    by (simp add: span_at_def desc_span_def assms(2))
  define h0 where "h0 = (\<lambda>q. if p \<le> q \<and> q < p + 2 ^ span_at d idx then set_gpadesc c (region_of d idx) else h q)"
  define h1 where "h1 = emp_unlock_head (snd (emp_trylock_head h0 p)) p"
  obtain h2 dir2 where a: "after (h1, before (gpa_dir d)) = (h2, dir2)" by fastforce
  have s: "set_gpa_dir_new hh (before (gpa_dir d)) (group_head d idx) p = (Some cur, hh, before (gpa_dir d))" for hh
    using assms(4) by (simp add: set_gpa_dir_new_def)
  have r: "g = dir2 ! idx" "gpa_dir d' = dir2" "h' = emp_unlock_head (snd (emp_trylock_head h2 cur)) cur"
    using assms(3,5) unfolding new_gpadesc_def Let_def reg sp group_head_def [symmetric]
    by (auto simp: s a [unfolded h1_def h0_def])
  have "h1 q = h q" if "\<not> (p \<le> q \<and> q < p + 2 ^ span_at d idx)" for q
  proof -
    have "q \<noteq> p" using that by auto
    with that show ?thesis
      by (auto simp: h1_def h0_def emp_unlock_head_def emp_trylock_head_def emp_gpa_trylock_def)
  qed
  moreover have "h' = h2" if "\<not> gpa_lock (h2 cur)"
    using that by (simp add: r(3) emp_unlock_head_def emp_trylock_head_def emp_gpa_trylock_def emp_gpa_unlock_def fun_upd_idem)
  ultimately show ?thesis using r(1,2) a by (intro exI [of _ h1]) simp
qed

end
