(* ===== verification/Lru_Lists.thy ===== *)
theory Lru_Lists
  imports Gpa_Block Local_Page Emp_List Vcpu_Ring
begin

text \<open>
  The lists of resident blocks (\<^verbatim>\<open>struct slru\<close> of \<^verbatim>\<open>src/module_gpl/lru.h\<close>, the first half of
  \<^verbatim>\<open>reclaim.c\<close>): the proactive, the active and the inactive list, each with one MRU and one LRU
  buffer per cpu and a global list, and the pin lists, which count as part of the proactive list.
  Refilling, flushing, adding, promoting and pinning.

  A list holds local pages, by number; the descriptor of a local page and its block are found through
  \<open>lp_gpa\<close>.  A list operation runs under the lock of its list; no other thread's step comes between
  two operations of one call here, so that a trylock fails exactly when the block was locked at the
  start.  Whether the trylock of the global list succeeds in \<^verbatim>\<open>flush_active_mru()\<close> is a parameter.
\<close>

datatype lru_list_type = PROACTIVE_LIST | ACTIVE_LIST | INACTIVE_LIST
datatype slru_place = Slru_mru int | Slru_lru int | Slru_global

record els_stat =
  block_count :: "nat \<Rightarrow> int"
  block_stretch :: "nat \<Rightarrow> int"
  block_reduce :: "nat \<Rightarrow> int"
  block_reduce_complete :: "nat \<Rightarrow> int"

text \<open>
  The parts of \<^verbatim>\<open>struct emp_mm\<close> the lists and the elastic blocks use.  The array of pin lists has one
  entry per physical cpu.
\<close>

record emp_mm =
  mm_gpas :: gpa_heap
  mm_lps :: "nat \<Rightarrow> local_page"
  slru_lists :: "lru_list_type \<Rightarrow> slru_place \<Rightarrow> nat emp_list"
  slru_page_len :: "lru_list_type \<Rightarrow> int"
  pin_lists :: "nat \<Rightarrow> nat emp_list"
  cur_pin_pages :: int
  num_pin_blocks :: int
  num_evicted_pin_blocks :: int
  mm_possible_cpus :: nat
  mm_vcpus_len :: nat
  proactive_pages_len :: nat
  active_pages_len :: nat
  inactive_pages_len :: nat
  inactive_keep_pages_len :: nat
  inflight_writeback_page_len :: int
  els_disabled :: bool
  els_stats :: els_stat

definition MRU_QUEUE_DEPTH :: int where "MRU_QUEUE_DEPTH = 2 ^ 6"
definition LRU_QUEUE_DEPTH :: int where "LRU_QUEUE_DEPTH = 2 ^ 6"

definition MRU_BUF_FULL :: "int \<Rightarrow> int \<Rightarrow> bool" where
  "MRU_BUF_FULL depth n \<longleftrightarrow> n \<ge> depth"

definition PCPU_ID :: "emp_mm \<Rightarrow> int \<Rightarrow> int" where
  "PCPU_ID m cpu = int (mm_possible_cpus m) + cpu"

definition upd_gpa :: "(emp_gpa \<Rightarrow> emp_gpa) \<Rightarrow> gpa_ptr \<Rightarrow> gpa_heap \<Rightarrow> gpa_heap" where
  "upd_gpa f p h = h(p := f (h p))"

definition upd_lp :: "(local_page \<Rightarrow> local_page) \<Rightarrow> nat \<Rightarrow> emp_mm \<Rightarrow> emp_mm" where
  "upd_lp f l m = m\<lparr>mm_lps := (mm_lps m)(l := f (mm_lps m l))\<rparr>"

definition upd_head :: "(emp_gpa \<Rightarrow> emp_gpa) \<Rightarrow> gpa_ptr \<Rightarrow> emp_mm \<Rightarrow> emp_mm" where
  "upd_head f p m = m\<lparr>mm_gpas := upd_gpa f p (mm_gpas m)\<rparr>"

definition upd_slru :: "lru_list_type \<Rightarrow> slru_place \<Rightarrow> (nat emp_list \<Rightarrow> nat emp_list) \<Rightarrow> emp_mm \<Rightarrow> emp_mm" where
  "upd_slru k p f m = m\<lparr>slru_lists := (slru_lists m)(k := (slru_lists m k)(p := f (slru_lists m k p)))\<rparr>"

definition add_page_len :: "lru_list_type \<Rightarrow> int \<Rightarrow> emp_mm \<Rightarrow> emp_mm" where
  "add_page_len k n m = m\<lparr>slru_page_len := (slru_page_len m)(k := slru_page_len m k + n)\<rparr>"

text \<open>
  The entry of the array of pin lists.  The code does not test the index: \<open>None\<close> stands for the pointer
  outside the array it computes for a KVM thread, whose index lies behind the physical cpus.
\<close>

definition get_list_ptr_pin :: "emp_mm \<Rightarrow> int \<Rightarrow> nat option" where
  "get_list_ptr_pin m cpu =
     (let i = PCPU_ID m cpu in if 0 \<le> i \<and> i < int (mm_possible_cpus m) then Some (nat i) else None)"

section \<open>How full the lists are\<close>

definition is_proactive_list_full :: "emp_mm \<Rightarrow> bool" where
  "is_proactive_list_full m \<longleftrightarrow> unat (word_of_int (slru_page_len m PROACTIVE_LIST) :: u64) \<ge> proactive_pages_len m"

definition is_active_list_full :: "emp_mm \<Rightarrow> bool" where
  "is_active_list_full m \<longleftrightarrow> unat (word_of_int (slru_page_len m ACTIVE_LIST) :: u64) \<ge> active_pages_len m"

definition is_inactive_list_full :: "emp_mm \<Rightarrow> bool" where
  "is_inactive_list_full m \<longleftrightarrow> unat (word_of_int (slru_page_len m INACTIVE_LIST) :: u64) \<ge> inactive_pages_len m"

text \<open>\<^verbatim>\<open>size_t\<close> arithmetic; the results, stored to \<^verbatim>\<open>int\<close>s, are returned as hard and soft pressure.\<close>

definition get_pressure_of_inactive_list :: "emp_mm \<Rightarrow> 32 word \<Rightarrow> 32 word \<times> 32 word" where
  "get_pressure_of_inactive_list m hard_pressure =
     (let soft_target = of_nat (inactive_keep_pages_len m) :: u64;
          hard_target = of_nat (inactive_pages_len m) :: u64;
          wb_len = of_int (inflight_writeback_page_len m);
          inactive_len = of_int (slru_page_len m INACTIVE_LIST);
          soft_len = inactive_len - wb_len + scast hard_pressure;
          hard_len = inactive_len + scast hard_pressure
      in (if hard_len > hard_target then ucast (hard_len - hard_target) else 0,
          if soft_len > soft_target then ucast (soft_len - soft_target) else 0))"

section \<open>Blocks of local pages\<close>

definition lp_head :: "emp_mm \<Rightarrow> nat \<Rightarrow> gpa_ptr" where
  "lp_head m l = emp_get_block_head (mm_gpas m) (lp_gpa (mm_lps m l))"

text \<open>The head that was locked is derived again and is the same: its order did not change.\<close>

definition emp_trylock_local_page :: "emp_mm \<Rightarrow> nat \<Rightarrow> gpa_ptr option \<times> emp_mm" where
  "emp_trylock_local_page m l =
     (let head = lp_head m l
      in case emp_trylock_head (mm_gpas m) head of
           (True, h) \<Rightarrow> (Some head, m\<lparr>mm_gpas := h\<rparr>)
         | (False, h) \<Rightarrow> (None, m\<lparr>mm_gpas := h\<rparr>))"

definition emp_unlock_local_page :: "nat \<Rightarrow> emp_mm \<Rightarrow> emp_mm" where
  "emp_unlock_local_page l m = m\<lparr>mm_gpas := emp_unlock_head (mm_gpas m) (lp_head m l)\<rparr>"

text \<open>Taking a page off a list with the flag \<open>i\<close>, and putting one on a buffer of a cpu or on the global list.\<close>

definition take_page :: "lru_list_type \<Rightarrow> slru_place \<Rightarrow> nat \<Rightarrow> nat \<Rightarrow> emp_mm \<Rightarrow> emp_mm" where
  "take_page k p i l m = upd_lp (\<lambda>lp. clear_local_page_flags lp i) l (upd_slru k p (emp_list_del_init l) m)"

definition put_page_mru :: "lru_list_type \<Rightarrow> int \<Rightarrow> nat \<Rightarrow> emp_mm \<Rightarrow> emp_mm" where
  "put_page_mru k cpu l m = upd_slru k (Slru_mru cpu) (emp_list_add_tail l)
     (upd_lp (\<lambda>lp. set_local_page_cpu_list lp cpu LOCAL_PAGE_ON_MRU) l m)"

definition put_page_lru :: "lru_list_type \<Rightarrow> int \<Rightarrow> nat \<Rightarrow> emp_mm \<Rightarrow> emp_mm" where
  "put_page_lru k cpu l m = upd_slru k (Slru_lru cpu) (emp_list_add_tail l)
     (upd_lp (\<lambda>lp. set_local_page_cpu_list lp cpu LOCAL_PAGE_ON_LRU) l m)"

definition put_page_global :: "lru_list_type \<Rightarrow> nat \<Rightarrow> emp_mm \<Rightarrow> emp_mm" where
  "put_page_global k l m = upd_slru k Slru_global (emp_list_add_tail l)
     (upd_lp (\<lambda>lp. set_local_page_list_flags lp LOCAL_PAGE_ON_GLOBAL) l m)"

section \<open>Refilling an LRU buffer\<close>

text \<open>
  The walk over a list, with the numbers of popped and of failed pages and the pages collected.
\<close>

fun refill_scan :: "lru_list_type \<Rightarrow> slru_place \<Rightarrow> nat \<Rightarrow> int \<Rightarrow> nat list \<Rightarrow> int \<Rightarrow> int \<Rightarrow> nat temp_list
    \<Rightarrow> emp_mm \<Rightarrow> int \<times> nat temp_list \<times> emp_mm" where
  "refill_scan k p i lb_size [] num_pop num_fail to_lru m = (num_pop, to_lru, m)"
| "refill_scan k p i lb_size (l # ls) num_pop num_fail to_lru m =
     (case emp_trylock_local_page m l of
        (None, m) \<Rightarrow>
          if num_fail + 1 \<ge> lb_size then (num_pop, to_lru, m)
          else refill_scan k p i lb_size ls num_pop (num_fail + 1) to_lru m
      | (Some _, m) \<Rightarrow>
          (let m = take_page k p i l m; to_lru = temp_list_add_tail l to_lru
           in if num_pop + 1 \<ge> lb_size then (num_pop + 1, to_lru, m)
              else refill_scan k p i lb_size ls (num_pop + 1) num_fail to_lru m))"

definition refill_lru_buf :: "emp_mm \<Rightarrow> lru_list_type \<Rightarrow> int \<Rightarrow> int \<Rightarrow> int \<times> emp_mm" where
  "refill_lru_buf m k cpu_id lb_size =
     (case refill_scan k Slru_global LOCAL_PAGE_ON_GLOBAL lb_size
             (el_head (slru_lists m k Slru_global)) 0 0 init_temp_list m of
        (num_pop, to_lru, m) \<Rightarrow>
     (case (if num_pop = 0
            then refill_scan k (Slru_mru cpu_id) LOCAL_PAGE_ON_MRU lb_size
                   (el_head (slru_lists m k (Slru_mru cpu_id))) num_pop 0 to_lru m
            else (num_pop, to_lru, m)) of
        (num_pop, to_lru, m) \<Rightarrow>
          (num_pop, foldl (\<lambda>m l. emp_unlock_local_page l (put_page_lru k cpu_id l m)) m (tl_head to_lru))))"

section \<open>Flushing an MRU buffer\<close>

fun flush_scan :: "lru_list_type \<Rightarrow> slru_place \<Rightarrow> nat list \<Rightarrow> nat temp_list \<Rightarrow> emp_mm \<Rightarrow> nat temp_list \<times> emp_mm" where
  "flush_scan k p [] to_global m = (to_global, m)"
| "flush_scan k p (l # ls) to_global m =
     (case emp_trylock_local_page m l of
        (None, m) \<Rightarrow> flush_scan k p ls to_global m
      | (Some _, m) \<Rightarrow>
          flush_scan k p ls (temp_list_add_tail l to_global) (take_page k p LOCAL_PAGE_ON_MRU l m))"

text \<open>\<open>global_free\<close>: the trylock of the global list succeeds.\<close>

definition flush_active_mru :: "bool \<Rightarrow> emp_mm \<Rightarrow> lru_list_type \<Rightarrow> int \<Rightarrow> int \<Rightarrow> emp_mm" where
  "flush_active_mru global_free m k cpu_id mru_size =
     (case flush_scan k (Slru_mru cpu_id) (el_head (slru_lists m k (Slru_mru cpu_id))) init_temp_list m of
        (to_global, m) \<Rightarrow>
          if emp_list_len (slru_lists m k (Slru_mru cpu_id)) > mru_size * 2 \<or> global_free
          then foldl (\<lambda>m l. emp_unlock_local_page l (put_page_global k l m)) m (tl_head to_global)
          else foldl (\<lambda>m l. emp_unlock_local_page l (put_page_mru k cpu_id l m)) m (tl_head to_global))"

section \<open>Adding blocks\<close>

definition is_unmapped_active :: "emp_gpa \<Rightarrow> bool" where
  "is_unmapped_active g \<longleftrightarrow> r_state g = GPA_FETCHING"

text \<open>One turn of the loop: the two temporary lists and their pages, and the state.\<close>

definition add_gpa :: "lru_list_type \<Rightarrow> int \<Rightarrow> gpa_ptr
    \<Rightarrow> nat temp_list \<times> int \<times> nat temp_list \<times> int \<times> emp_mm
    \<Rightarrow> nat temp_list \<times> int \<times> nat temp_list \<times> int \<times> emp_mm" where
  "add_gpa ty cpu_id gpa = (\<lambda>(temp_mru, new_mru_len, temp_pin, new_pin_len, m).
     let head = emp_get_block_head (mm_gpas m) gpa;
         m = (if \<not> is_unmapped_active (mm_gpas m head)
              then upd_head (\<lambda>g. g\<lparr>r_state := GPA_ACTIVE\<rparr>) head m else m);
         l = the (local_page (mm_gpas m head));
         size = int (gpa_block_size (mm_gpas m head))
     in if is_gpa_flags_set (mm_gpas m head) GPA_PINNED_MASK then
          let m = upd_head (\<lambda>g. snd (set_gpa_flags_if_unset g GPA_PROACTIVE_MASK)) head m;
              m = upd_lp (\<lambda>lp. set_local_page_cpu_pin lp cpu_id) l m
          in (temp_mru, new_mru_len, temp_list_add_tail l temp_pin, new_pin_len + size, m)
        else
          let m = (if ty = PROACTIVE_LIST
                   then upd_head (\<lambda>g. snd (set_gpa_flags_if_unset g GPA_PROACTIVE_MASK)) head m else m);
              m = upd_lp (\<lambda>lp. set_local_page_cpu_list lp cpu_id LOCAL_PAGE_ON_MRU) l m
          in (temp_list_add_tail l temp_mru, new_mru_len + size, temp_pin, new_pin_len, m))"

definition splice_mru :: "bool \<Rightarrow> lru_list_type \<Rightarrow> int \<Rightarrow> nat temp_list \<Rightarrow> int \<Rightarrow> emp_mm \<Rightarrow> emp_mm" where
  "splice_mru global_free ty cpu_id temp_mru new_mru_len m =
     (let m = upd_slru ty (Slru_mru cpu_id) (\<lambda>l. snd (emp_list_splice_tail temp_mru l)) m;
          m = (if MRU_BUF_FULL MRU_QUEUE_DEPTH (emp_list_len (slru_lists m ty (Slru_mru cpu_id)))
               then flush_active_mru global_free m ty cpu_id MRU_QUEUE_DEPTH else m)
      in add_page_len ty new_mru_len m)"

definition splice_pin :: "int \<Rightarrow> nat temp_list \<Rightarrow> int \<Rightarrow> emp_mm \<Rightarrow> emp_mm option" where
  "splice_pin cpu_id temp_pin new_pin_len m =
     map_option (\<lambda>i.
       let m = m\<lparr>pin_lists := (pin_lists m)(i := snd (emp_list_splice_tail temp_pin (pin_lists m i)))\<rparr>;
           m = add_page_len PROACTIVE_LIST new_pin_len m
       in m\<lparr>cur_pin_pages := cur_pin_pages m + new_pin_len\<rparr>) (get_list_ptr_pin m cpu_id)"

definition add_gpas_to_active_list ::
    "bool \<Rightarrow> lru_list_type \<Rightarrow> emp_mm \<Rightarrow> int \<Rightarrow> gpa_ptr list \<Rightarrow> (int \<times> emp_mm) option" where
  "add_gpas_to_active_list global_free ty m cpu_id gpas =
     (case fold (add_gpa ty cpu_id) gpas (init_temp_list, 0, init_temp_list, 0, m) of
        (temp_mru, new_mru_len, temp_pin, new_pin_len, m) \<Rightarrow>
     (let m = (if new_mru_len > 0 then splice_mru global_free ty cpu_id temp_mru new_mru_len m else m)
      in map_option (Pair (new_mru_len + new_pin_len))
           (if new_pin_len > 0 then splice_pin cpu_id temp_pin new_pin_len m else Some m)))"

section \<open>Promoting and pinning\<close>

definition promote_gpas :: "bool \<Rightarrow> emp_mm \<Rightarrow> int \<Rightarrow> nat temp_list \<Rightarrow> int \<Rightarrow> bool \<Rightarrow> emp_mm" where
  "promote_gpas global_free m cpu lp_list pages_len mapped =
     (let m = foldl (\<lambda>m l.
            let gpa = lp_gpa (mm_lps m l);
                m = put_page_mru PROACTIVE_LIST cpu l m;
                m = upd_head (\<lambda>g. (snd (set_gpa_flags_if_unset g GPA_PROACTIVE_MASK))
                      \<lparr>r_state := GPA_ACTIVE\<rparr>) gpa m;
                m = (if \<not> mapped then upd_head (\<lambda>g. snd (set_gpa_flags_if_unset g
                       (GPA_PREFETCHED_BLK_MASK OR GPA_PREFETCH_ONCE_MASK))) gpa m else m)
            in emp_unlock_local_page l m) m (tl_head lp_list);
          m = add_page_len PROACTIVE_LIST pages_len m
      in if emp_list_len (slru_lists m PROACTIVE_LIST (Slru_mru cpu)) \<ge> MRU_QUEUE_DEPTH
         then flush_active_mru global_free m PROACTIVE_LIST cpu MRU_QUEUE_DEPTH else m)"

definition pin_page :: "int \<Rightarrow> nat \<Rightarrow> bool \<Rightarrow> bool \<Rightarrow> nat \<Rightarrow> int \<times> int \<times> emp_mm \<Rightarrow> int \<times> int \<times> emp_mm" where
  "pin_page cpu i from_proactive mapped l = (\<lambda>(pages_len, total_pages_len, m).
     let gpa = lp_gpa (mm_lps m l);
         size = int (gpa_block_size (mm_gpas m gpa));
         m = upd_lp (\<lambda>lp. set_local_page_cpu_pin lp cpu) l m;
         m = m\<lparr>pin_lists := (pin_lists m)(i := emp_list_add_tail l (pin_lists m i))\<rparr>;
         m = (if \<not> from_proactive
              then upd_head (\<lambda>g. snd (set_gpa_flags_if_unset g GPA_PROACTIVE_MASK)) gpa m else m);
         m = (if \<not> mapped then upd_head (\<lambda>g. snd (set_gpa_flags_if_unset (g\<lparr>r_state := GPA_ACTIVE\<rparr>)
                (GPA_PREFETCHED_BLK_MASK OR GPA_PREFETCH_ONCE_MASK OR GPA_HPT_MASK))) gpa m else m)
     in (if \<not> from_proactive then pages_len + size else pages_len,
         if \<not> from_proactive then total_pages_len else total_pages_len + size,
         emp_unlock_local_page l m))"

definition move_to_pin_list :: "emp_mm \<Rightarrow> int \<Rightarrow> nat temp_list \<Rightarrow> bool \<Rightarrow> bool \<Rightarrow> emp_mm option" where
  "move_to_pin_list m cpu lp_list from_proactive mapped =
     map_option (\<lambda>i.
       case fold (pin_page cpu i from_proactive mapped) (tl_head lp_list) (0, 0, m) of
         (pages_len, total_pages_len, m) \<Rightarrow>
           (let m = (if \<not> from_proactive then add_page_len PROACTIVE_LIST pages_len m else m)
            in m\<lparr>cur_pin_pages := cur_pin_pages m + (total_pages_len + pages_len)\<rparr>))
       (get_list_ptr_pin m cpu)"

end
