(* ===== verification/Lru_Inv.thy ===== *)
theory Lru_Inv
  imports Lru_Lists
begin

text \<open>
  What the list operations of \<open>Lru_Lists\<close> keep.  The pages of a list are the multiset of the pages of
  its buffers and its global list; a page that an operation has taken off one list and not yet put on
  the next is in transit, locked by the operation.  Three things are followed separately: which
  pages are listed (\<open>members\<close>, \<open>pin_members\<close>), which blocks are locked (\<open>took\<close>, \<open>released\<close>), and
  whether every page is on one list only, the one its flags and its cpu name (\<open>placed\<close>).
\<close>

section \<open>The pages of a list\<close>

definition mm_cpus :: "emp_mm \<Rightarrow> int set" where
  "mm_cpus m = cpu_ids (mm_possible_cpus m) (mm_vcpus_len m)"

definition places :: "emp_mm \<Rightarrow> slru_place set" where
  "places m = insert Slru_global (Slru_mru ` mm_cpus m \<union> Slru_lru ` mm_cpus m)"

definition members :: "emp_mm \<Rightarrow> lru_list_type \<Rightarrow> nat multiset" where
  "members m k = (\<Sum>p\<in>places m. mset (el_head (slru_lists m k p)))"

definition pin_members :: "emp_mm \<Rightarrow> nat multiset" where
  "pin_members m = (\<Sum>i<mm_possible_cpus m. mset (el_head (pin_lists m i)))"

definition block_pages :: "emp_mm \<Rightarrow> nat \<Rightarrow> int" where
  "block_pages m l = int (gpa_block_size (mm_gpas m (lp_head m l)))"

definition weight :: "emp_mm \<Rightarrow> nat multiset \<Rightarrow> int" where
  "weight m M = (\<Sum>l\<in>#M. block_pages m l)"

text \<open>One group per list, and the pin lists.\<close>

definition group_members :: "emp_mm \<Rightarrow> lru_list_type option \<Rightarrow> nat multiset" where
  "group_members m g = (case g of None \<Rightarrow> pin_members m | Some k \<Rightarrow> members m k)"

lemma group_members_simps [simp]: "group_members m (Some k) = members m k" "group_members m None = pin_members m"
  by (simp_all add: group_members_def)

lemma weight_simps [simp]:
  "weight m {#} = 0" "weight m (add_mset l M) = block_pages m l + weight m M"
  "weight m (M + N) = weight m M + weight m N"
  by (simp_all add: weight_def)

lemma finite_places [simp]: "finite (places m)"
  by (simp add: places_def mm_cpus_def cpu_ids_def)

lemma in_places [simp]:
  "Slru_global \<in> places m" "Slru_mru c \<in> places m \<longleftrightarrow> c \<in> mm_cpus m" "Slru_lru c \<in> places m \<longleftrightarrow> c \<in> mm_cpus m"
  by (auto simp: places_def)

lemma sum_upd_mset:
  assumes "finite A" and "a \<in> A"
  shows "(\<Sum>x\<in>A. mset (if x = a then n else f x)) + mset (f a) = (\<Sum>x\<in>A. mset (f x)) + mset n"
proof -
  have "(\<Sum>x\<in>A - {a}. mset (if x = a then n else f x)) = (\<Sum>x\<in>A - {a}. mset (f x))"
    by (rule sum.cong) auto
  then show ?thesis using sum.remove [OF assms, of "\<lambda>x. mset (if x = a then n else f x)"]
    sum.remove [OF assms, of "\<lambda>x. mset (f x)"] by simp
qed

lemma in_members: "l \<in># members m k \<longleftrightarrow> (\<exists>p \<in> places m. l \<in> set (el_head (slru_lists m k p)))"
  by (simp add: members_def set_mset_sum)

lemma in_pin_members: "l \<in># pin_members m \<longleftrightarrow> (\<exists>i < mm_possible_cpus m. l \<in> set (el_head (pin_lists m i)))"
  by (auto simp: pin_members_def set_mset_sum)

section \<open>What no list operation changes\<close>

definition fixed_part :: "emp_gpa \<Rightarrow> nat \<times> nat \<times> nat \<times> nat \<times> nat option \<times> u64" where
  "fixed_part g = (sb_order g, block_order g, max_block_order g, desc_order g, local_page g, remote_page g)"

definition lru_frame :: "emp_mm \<Rightarrow> emp_mm \<Rightarrow> bool" where
  "lru_frame m m' \<longleftrightarrow> mm_possible_cpus m' = mm_possible_cpus m \<and> mm_vcpus_len m' = mm_vcpus_len m
     \<and> (\<forall>q. fixed_part (mm_gpas m' q) = fixed_part (mm_gpas m q))
     \<and> (\<forall>l. lp_gpa (mm_lps m' l) = lp_gpa (mm_lps m l))"

lemma lru_frame_refl [simp]: "lru_frame m m"
  by (simp add: lru_frame_def)

lemma lru_frame_trans: "lru_frame a b \<Longrightarrow> lru_frame b c \<Longrightarrow> lru_frame a c"
  by (simp add: lru_frame_def)

lemma lru_frame_eqs:
  assumes "lru_frame m m'"
  shows "lp_head m' l = lp_head m l" and "block_pages m' l = block_pages m l" and "weight m' M = weight m M"
    and "mm_cpus m' = mm_cpus m" and "places m' = places m"
proof -
  have g: "sb_order (mm_gpas m' q) = sb_order (mm_gpas m q)" "block_order (mm_gpas m' q) = block_order (mm_gpas m q)"
    "desc_order (mm_gpas m' q) = desc_order (mm_gpas m q)" for q
    using assms by (simp_all add: lru_frame_def fixed_part_def)
  have l: "lp_gpa (mm_lps m' l) = lp_gpa (mm_lps m l)" for l using assms by (simp add: lru_frame_def)
  show h: "lp_head m' l = lp_head m l" for l by (simp add: lp_head_def emp_get_block_head_def g l)
  show b: "block_pages m' l = block_pages m l" for l by (simp add: block_pages_def gpa_block_size_def h g)
  show "weight m' M = weight m M" by (simp add: weight_def b)
  show c: "mm_cpus m' = mm_cpus m" using assms by (simp add: mm_cpus_def lru_frame_def)
  show "places m' = places m" by (simp add: places_def c)
qed

text \<open>
  The pages of the lists and of the pin lists and the descriptors' locks, flags and states may change; the lengths, the
  quotas and the counters do not.
\<close>

definition quiet :: "emp_mm \<Rightarrow> emp_mm \<Rightarrow> bool" where
  "quiet m m' \<longleftrightarrow> lru_frame m m'
     \<and> m' = m\<lparr>mm_gpas := mm_gpas m', mm_lps := mm_lps m', slru_lists := slru_lists m', pin_lists := pin_lists m'\<rparr>"

lemma quiet_refl [simp]: "quiet m m"
  by (simp add: quiet_def)

lemma quiet_trans: "quiet a b \<Longrightarrow> quiet b c \<Longrightarrow> quiet a c"
proof -
  assume "quiet a b" "quiet b c"
  then have f: "lru_frame a c" and b: "b = a\<lparr>mm_gpas := mm_gpas b, mm_lps := mm_lps b, slru_lists := slru_lists b, pin_lists := pin_lists b\<rparr>"
    and c: "c = b\<lparr>mm_gpas := mm_gpas c, mm_lps := mm_lps c, slru_lists := slru_lists c, pin_lists := pin_lists c\<rparr>"
    unfolding quiet_def using lru_frame_trans by blast+
  have "c = a\<lparr>mm_gpas := mm_gpas c, mm_lps := mm_lps c, slru_lists := slru_lists c, pin_lists := pin_lists c\<rparr>"
    by (subst c, subst b) simp
  with f show ?thesis by (simp add: quiet_def)
qed

lemma quiet_frame: "quiet m m' \<Longrightarrow> lru_frame m m'"
  by (simp add: quiet_def)

lemma quiet_fields:
  assumes "quiet m m'"
  shows "slru_page_len m' = slru_page_len m" and "cur_pin_pages m' = cur_pin_pages m"
    and "num_pin_blocks m' = num_pin_blocks m" and "mm_possible_cpus m' = mm_possible_cpus m"
    and "num_evicted_pin_blocks m' = num_evicted_pin_blocks m" and "els_stats m' = els_stats m"
proof -
  have e: "m' = m\<lparr>mm_gpas := mm_gpas m', mm_lps := mm_lps m', slru_lists := slru_lists m', pin_lists := pin_lists m'\<rparr>"
    using assms by (simp add: quiet_def)
  show "slru_page_len m' = slru_page_len m" "cur_pin_pages m' = cur_pin_pages m"
    "num_pin_blocks m' = num_pin_blocks m" "mm_possible_cpus m' = mm_possible_cpus m"
    "num_evicted_pin_blocks m' = num_evicted_pin_blocks m" "els_stats m' = els_stats m"
    by (subst e, simp)+
qed

section \<open>Locks\<close>

definition locked_at :: "emp_mm \<Rightarrow> gpa_ptr \<Rightarrow> bool" where
  "locked_at m q \<longleftrightarrow> gpa_lock (mm_gpas m q)"

text \<open>The heads of the pages \<open>xs\<close> were free and are locked, each for one page.\<close>

definition took :: "emp_mm \<Rightarrow> nat list \<Rightarrow> emp_mm \<Rightarrow> bool" where
  "took m xs m' \<longleftrightarrow> distinct (map (lp_head m) xs) \<and> (\<forall>x \<in> set xs. \<not> locked_at m (lp_head m x))
     \<and> (\<forall>q. locked_at m' q \<longleftrightarrow> locked_at m q \<or> q \<in> lp_head m ` set xs)"

definition released :: "emp_mm \<Rightarrow> nat list \<Rightarrow> emp_mm \<Rightarrow> bool" where
  "released m xs m' \<longleftrightarrow> (\<forall>q. locked_at m' q \<longleftrightarrow> locked_at m q \<and> q \<notin> lp_head m ` set xs)"

lemma took_Nil [simp]: "took m [] m' \<longleftrightarrow> (\<forall>q. locked_at m' q = locked_at m q)"
  by (simp add: took_def)

lemma took_append:
  assumes "took m xs m1" and "took m1 ys m2" and "lru_frame m m1"
  shows "took m (xs @ ys) m2"
proof -
  have h: "lp_head m1 = lp_head m" using lru_frame_eqs(1) [OF assms(3)] by (rule ext)
  have x: "distinct (map (lp_head m) xs)" "\<forall>x \<in> set xs. \<not> locked_at m (lp_head m x)"
    "\<And>q. locked_at m1 q \<longleftrightarrow> locked_at m q \<or> q \<in> lp_head m ` set xs"
    using assms(1) by (simp_all add: took_def)
  have y: "distinct (map (lp_head m) ys)" "\<forall>x \<in> set ys. \<not> locked_at m1 (lp_head m x)"
    "\<And>q. locked_at m2 q \<longleftrightarrow> locked_at m1 q \<or> q \<in> lp_head m ` set ys"
    using assms(2) by (simp_all add: took_def h)
  have yy: "\<not> locked_at m (lp_head m y) \<and> lp_head m y \<notin> lp_head m ` set xs" if "y \<in> set ys" for y
    using bspec [OF y(2) that] unfolding x(3) by (simp only: de_Morgan_disj simp_thms)
  then have i: "lp_head m ` set xs \<inter> lp_head m ` set ys = {}"
    unfolding disjoint_iff by (metis (no_types) imageE)
  have "\<forall>x \<in> set (xs @ ys). \<not> locked_at m (lp_head m x)" using x(2) yy by (simp add: ball_Un)
  then have d: "distinct (map (lp_head m) (xs @ ys))" "\<forall>x \<in> set (xs @ ys). \<not> locked_at m (lp_head m x)"
    using i x(1) y(1) by simp_all
  show ?thesis unfolding took_def using d x(3) y(3) by auto
qed

lemma took_released:
  assumes "took m xs m1" and "released m1 ys m2" and "lru_frame m m1" and "set xs = set ys"
  shows "locked_at m2 q = locked_at m q"
proof -
  have h: "lp_head m1 = lp_head m" using lru_frame_eqs(1) [OF assms(3)] by (rule ext)
  show ?thesis using assms(1,2,4) by (auto simp: took_def released_def h)
qed

section \<open>One page\<close>

lemma fixed_part_ops [simp]:
  "fixed_part (snd (set_gpa_flags_if_unset g f)) = fixed_part g"
  "fixed_part (snd (clear_gpa_flags_if_set g f)) = fixed_part g"
  "fixed_part (g\<lparr>r_state := r\<rparr>) = fixed_part g" "fixed_part (g\<lparr>gpa_lock := b\<rparr>) = fixed_part g"
  "gpa_lock (snd (set_gpa_flags_if_unset g f)) = gpa_lock g"
  "gpa_lock (snd (clear_gpa_flags_if_set g f)) = gpa_lock g"
  by (simp_all add: fixed_part_def set_gpa_flags_if_unset_def clear_gpa_flags_if_set_def)

lemma lp_ops_gpa [simp]:
  "lp_gpa (clear_local_page_flags lp i) = lp_gpa lp" "lp_gpa (set_local_page_list_flags lp i) = lp_gpa lp"
  "lp_gpa (set_local_page_cpu_list lp c i) = lp_gpa lp" "lp_gpa (set_local_page_cpu_pin lp c) = lp_gpa lp"
  by (simp_all add: clear_local_page_flags_def set_local_page_list_flags_def set_local_page_cpu_list_def
      set_local_page_cpu_pin_def set_local_page_flags_def)

lemmas page_ops = take_page_def put_page_mru_def put_page_lru_def put_page_global_def upd_slru_def upd_lp_def

lemma members_upd:
  assumes "p \<in> places m" and "places m' = places m"
    and "slru_lists m' = (slru_lists m)(k := (slru_lists m k)(p := new))"
  shows "members m' k + mset (el_head (slru_lists m k p)) = members m k + mset (el_head new)"
    and "k' \<noteq> k \<Longrightarrow> members m' k' = members m k'"
proof -
  have "(\<Sum>q\<in>places m. mset (el_head (slru_lists m' k q))) =
      (\<Sum>q\<in>places m. mset (if q = p then el_head new else el_head (slru_lists m k q)))"
    by (rule sum.cong) (simp_all add: assms(3))
  then show "members m' k + mset (el_head (slru_lists m k p)) = members m k + mset (el_head new)"
    using sum_upd_mset [OF finite_places assms(1), of "el_head new" "\<lambda>q. el_head (slru_lists m k q)"]
    by (simp add: members_def assms(2))
  show "members m' k' = members m k'" if "k' \<noteq> k" using that by (simp add: members_def assms(2,3))
qed

definition put_page :: "lru_list_type \<Rightarrow> slru_place \<Rightarrow> nat \<Rightarrow> emp_mm \<Rightarrow> emp_mm" where
  "put_page k p l m = (case p of
     Slru_mru c \<Rightarrow> put_page_mru k c l m | Slru_lru c \<Rightarrow> put_page_lru k c l m | Slru_global \<Rightarrow> put_page_global k l m)"

lemma put_page_simps:
  "mm_gpas (put_page k p l m) = mm_gpas m"
  "slru_lists (put_page k p l m) = (slru_lists m)(k := (slru_lists m k)(p := emp_list_add_tail l (slru_lists m k p)))"
  "pin_lists (put_page k p l m) = pin_lists m" "mm_possible_cpus (put_page k p l m) = mm_possible_cpus m"
  "quiet m (put_page k p l m)"
  by (cases p; simp add: put_page_def page_ops quiet_def lru_frame_def)+

lemma take_page_simps:
  "mm_gpas (take_page k p i l m) = mm_gpas m"
  "slru_lists (take_page k p i l m) = (slru_lists m)(k := (slru_lists m k)(p := emp_list_del_init l (slru_lists m k p)))"
  "pin_lists (take_page k p i l m) = pin_lists m" "mm_possible_cpus (take_page k p i l m) = mm_possible_cpus m"
  "quiet m (take_page k p i l m)"
  by (simp_all add: page_ops quiet_def lru_frame_def)

lemma take_page_members:
  assumes "p \<in> places m" and "l \<in> set (el_head (slru_lists m k p))"
  shows "members m k = add_mset l (members (take_page k p i l m) k)"
    and "k' \<noteq> k \<Longrightarrow> members (take_page k p i l m) k' = members m k'"
proof -
  note u = members_upd [OF assms(1) lru_frame_eqs(5) [OF quiet_frame [OF take_page_simps(5) [of m k p i l]]] take_page_simps(2)]
  have "mset (el_head (slru_lists m k p)) = add_mset l (mset (el_head (emp_list_del_init l (slru_lists m k p))))"
    using assms(2) by (simp add: emp_list_del_init_def)
  with u(1) show "members m k = add_mset l (members (take_page k p i l m) k)" by simp
  show "k' \<noteq> k \<Longrightarrow> members (take_page k p i l m) k' = members m k'" by (rule u(2))
qed

lemma put_page_members:
  assumes "p \<in> places m"
  shows "members (put_page k p l m) k = add_mset l (members m k)"
    and "k' \<noteq> k \<Longrightarrow> members (put_page k p l m) k' = members m k'"
  using members_upd [OF assms lru_frame_eqs(5) [OF quiet_frame [OF put_page_simps(5) [of m k p l]]] put_page_simps(2)]
  by auto

lemma trylock_local_page:
  "emp_trylock_local_page m l =
     (if locked_at m (lp_head m l) then (None, m)
      else (Some (lp_head m l), upd_head (\<lambda>g. g\<lparr>gpa_lock := True\<rparr>) (lp_head m l) m))"
  by (simp add: emp_trylock_local_page_def emp_trylock_head_def emp_gpa_trylock_def locked_at_def Let_def
      upd_head_def upd_gpa_def fun_upd_idem)

lemma upd_head_simps:
  "slru_lists (upd_head f q m) = slru_lists m" "mm_lps (upd_head f q m) = mm_lps m"
  "pin_lists (upd_head f q m) = pin_lists m" "mm_possible_cpus (upd_head f q m) = mm_possible_cpus m"
  "(\<And>g. fixed_part (f g) = fixed_part g) \<Longrightarrow> quiet m (upd_head f q m)"
  by (simp_all add: upd_head_def upd_gpa_def quiet_def lru_frame_def)

lemma unlock_local_page:
  "emp_unlock_local_page l m = upd_head (\<lambda>g. g\<lparr>gpa_lock := False\<rparr>) (lp_head m l) m"
  by (simp add: emp_unlock_local_page_def emp_unlock_head_def emp_gpa_unlock_def upd_head_def upd_gpa_def)

lemma locked_upd_head:
  "locked_at (upd_head (\<lambda>g. g\<lparr>gpa_lock := b\<rparr>) h m) q = (if q = h then b else locked_at m q)"
  by (simp add: locked_at_def upd_head_def upd_gpa_def)

lemma members_cong: "places m' = places m \<Longrightarrow> slru_lists m' = slru_lists m \<Longrightarrow> members m' k = members m k"
  by (simp add: members_def)

section \<open>Every page on one list, the one its flags name\<close>

definition list_flags :: "local_page \<Rightarrow> nat set" where
  "list_flags lp = {n. n < 4 \<and> bit (lp_flags lp) n}"

definition lp_at :: "local_page \<Rightarrow> slru_place \<Rightarrow> bool" where
  "lp_at lp p \<longleftrightarrow> (case p of
     Slru_mru c \<Rightarrow> list_flags lp = {LOCAL_PAGE_ON_MRU} \<and> lp_cpu lp = c
   | Slru_lru c \<Rightarrow> list_flags lp = {LOCAL_PAGE_ON_LRU} \<and> lp_cpu lp = c
   | Slru_global \<Rightarrow> list_flags lp = {LOCAL_PAGE_ON_GLOBAL})"

definition lp_pinned_at :: "local_page \<Rightarrow> int \<Rightarrow> bool" where
  "lp_pinned_at lp c \<longleftrightarrow> list_flags lp = {LOCAL_PAGE_ON_PIN} \<and> lp_cpu lp = c"

definition place_flag :: "slru_place \<Rightarrow> nat" where
  "place_flag p = (case p of Slru_mru c \<Rightarrow> LOCAL_PAGE_ON_MRU | Slru_lru c \<Rightarrow> LOCAL_PAGE_ON_LRU
     | Slru_global \<Rightarrow> LOCAL_PAGE_ON_GLOBAL)"

text \<open>A page that stands for its block: the page of the block's head.\<close>

definition head_page :: "emp_mm \<Rightarrow> nat \<Rightarrow> bool" where
  "head_page m l \<longleftrightarrow> lp_head m l = lp_gpa (mm_lps m l) \<and> local_page (mm_gpas m (lp_gpa (mm_lps m l))) = Some l"

definition all_listed :: "emp_mm \<Rightarrow> nat multiset" where
  "all_listed m = members m PROACTIVE_LIST + members m ACTIVE_LIST + members m INACTIVE_LIST + pin_members m"

text \<open>
  The pages \<open>T\<close> are in transit and named by no list; the pages \<open>U\<close> are not yet listed, whatever their
  flags say.
\<close>

definition placed :: "nat multiset \<Rightarrow> nat multiset \<Rightarrow> emp_mm \<Rightarrow> bool" where
  "placed U T m \<longleftrightarrow> (\<forall>k p. emp_list_ok (slru_lists m k p)) \<and> (\<forall>i. emp_list_ok (pin_lists m i))
     \<and> (\<forall>l. count (all_listed m + T) l + count U l \<le> 1)
     \<and> (\<forall>l \<in># all_listed m + T. head_page m l)
     \<and> (\<forall>k. \<forall>p \<in> places m. \<forall>l \<in> set (el_head (slru_lists m k p)). lp_at (mm_lps m l) p)
     \<and> (\<forall>i < mm_possible_cpus m. \<forall>l \<in> set (el_head (pin_lists m i)).
          lp_pinned_at (mm_lps m l) (int i - int (mm_possible_cpus m)))
     \<and> (\<forall>l \<in># T. list_flags (mm_lps m l) = {}) \<and> (\<forall>l \<in># U. head_page m l)"

lemma placedI:
  assumes "\<And>k p. emp_list_ok (slru_lists m k p)" and "\<And>i. emp_list_ok (pin_lists m i)"
    and "\<And>l. count (all_listed m + T) l + count U l \<le> 1" and "\<And>l. l \<in># all_listed m + T \<Longrightarrow> head_page m l"
    and "\<And>k p l. p \<in> places m \<Longrightarrow> l \<in> set (el_head (slru_lists m k p)) \<Longrightarrow> lp_at (mm_lps m l) p"
    and "\<And>i l. i < mm_possible_cpus m \<Longrightarrow> l \<in> set (el_head (pin_lists m i)) \<Longrightarrow>
      lp_pinned_at (mm_lps m l) (int i - int (mm_possible_cpus m))"
    and "\<And>l. l \<in># T \<Longrightarrow> list_flags (mm_lps m l) = {}" and "\<And>l. l \<in># U \<Longrightarrow> head_page m l"
  shows "placed U T m"
  unfolding placed_def by (intro conjI allI ballI impI; rule assms)

lemma placedD:
  assumes "placed U T m"
  shows "emp_list_ok (slru_lists m k p)" and "emp_list_ok (pin_lists m i)" and "count (all_listed m + T) l + count U l \<le> 1"
    and "l \<in># all_listed m + T \<Longrightarrow> head_page m l"
    and "p \<in> places m \<Longrightarrow> l \<in> set (el_head (slru_lists m k p)) \<Longrightarrow> lp_at (mm_lps m l) p"
    and "i < mm_possible_cpus m \<Longrightarrow> l \<in> set (el_head (pin_lists m i)) \<Longrightarrow>
      lp_pinned_at (mm_lps m l) (int i - int (mm_possible_cpus m))"
    and "l \<in># T \<Longrightarrow> list_flags (mm_lps m l) = {}" and "l \<in># U \<Longrightarrow> head_page m l"
  using assms unfolding placed_def by blast+

lemma count_excl:
  assumes "count A l + count B l \<le> 1" and "l \<in># B"
  shows "l \<notin># A"
proof -
  have "0 < count B l" using assms(2) by (simp only: count_greater_zero_iff)
  then have "count A l = 0" using assms(1) by linarith
  then show ?thesis by (simp only: not_in_iff)
qed

lemma bit_one_flag: "i < 4 \<Longrightarrow> bit (push_bit i (1 :: u32)) n \<longleftrightarrow> n = i"
  by (simp only: bit_push_bit_iff bit_1_iff possible_bit_word) auto

lemma list_flags_ops [simp]:
  "i < 4 \<Longrightarrow> list_flags (clear_local_page_flags lp i) = list_flags lp - {i}"
  "i < 4 \<Longrightarrow> list_flags (set_local_page_list_flags lp i) = insert i (list_flags lp)"
  "i < 4 \<Longrightarrow> list_flags (set_local_page_cpu_list lp c i) = insert i (list_flags lp)"
  "list_flags (set_local_page_cpu_pin lp c) = insert LOCAL_PAGE_ON_PIN (list_flags lp)"
  "lp_cpu (set_local_page_cpu_list lp c i) = c" "lp_cpu (set_local_page_cpu_pin lp c) = c"
  by (auto simp: list_flags_def clear_local_page_flags_def set_local_page_list_flags_def
      set_local_page_cpu_list_def set_local_page_cpu_pin_def set_local_page_flags_def LOCAL_PAGE_ON_PIN_def
      bit_and_iff bit_or_iff bit_not_iff bit_one_flag simp del: push_bit_of_1 dest: bit_imp_le_length)

lemma place_flag_less [simp]: "place_flag p < 4"
  by (cases p) (simp_all add: place_flag_def LOCAL_PAGE_ON_MRU_def LOCAL_PAGE_ON_LRU_def LOCAL_PAGE_ON_GLOBAL_def)

lemma lp_at_flags: "lp_at lp p \<Longrightarrow> list_flags lp = {place_flag p}"
  by (cases p) (simp_all add: lp_at_def place_flag_def)

lemma head_page_frame: "lru_frame m m' \<Longrightarrow> head_page m' l \<longleftrightarrow> head_page m l"
  using lru_frame_eqs(1) [of m m' l] by (auto simp: head_page_def lru_frame_def fixed_part_def)

lemma in_all_listed:
  "l \<in># all_listed m \<longleftrightarrow> (\<exists>k. \<exists>p \<in> places m. l \<in> set (el_head (slru_lists m k p)))
     \<or> (\<exists>i < mm_possible_cpus m. l \<in> set (el_head (pin_lists m i)))"
proof -
  have "(\<exists>k. l \<in># members m k) \<longleftrightarrow> l \<in># members m PROACTIVE_LIST + members m ACTIVE_LIST + members m INACTIVE_LIST"
    by (auto intro: exI [of _ PROACTIVE_LIST] exI [of _ ACTIVE_LIST] exI [of _ INACTIVE_LIST])
      (metis lru_list_type.exhaust)
  then show ?thesis by (auto simp: all_listed_def in_members in_pin_members)
qed

text \<open>Only the lists, the page flags and what \<open>lru_frame\<close> fixes matter.\<close>

lemma placed_cong:
  assumes "placed U T m" and "lru_frame m m'" and "slru_lists m' = slru_lists m" and "pin_lists m' = pin_lists m"
    and "mm_lps m' = mm_lps m"
  shows "placed U T m'"
proof -
  have p: "places m' = places m" "mm_possible_cpus m' = mm_possible_cpus m"
    using lru_frame_eqs [OF assms(2)] assms(2) by (simp_all add: lru_frame_def)
  have a: "all_listed m' = all_listed m"
    by (simp add: all_listed_def members_def pin_members_def assms(3,4) p)
  show ?thesis using assms(1) by (simp add: placed_def a p assms(3-5) head_page_frame [OF assms(2)])
qed

text \<open>A page leaves a list and is in transit; a page in transit goes to a list that its flags now name.\<close>

lemma placed_take:
  assumes pl: "placed U T m" and fr: "lru_frame m m'" and al: "all_listed m' + add_mset l T = all_listed m + T"
    and lps: "\<And>l'. l' \<noteq> l \<Longrightarrow> mm_lps m' l' = mm_lps m l'" and off: "list_flags (mm_lps m' l) = {}"
    and lists: "\<And>k p. slru_lists m' k p = slru_lists m k p
      \<or> l \<in> set (el_head (slru_lists m k p)) \<and> slru_lists m' k p = emp_list_del_init l (slru_lists m k p)"
    and pins: "\<And>i. pin_lists m' i = pin_lists m i
      \<or> l \<in> set (el_head (pin_lists m i)) \<and> pin_lists m' i = emp_list_del_init l (pin_lists m i)"
  shows "placed U (add_mset l T) m'"
proof (rule placedI)
  have P: "mm_possible_cpus m' = mm_possible_cpus m" "places m' = places m"
    using fr lru_frame_eqs(5) [OF fr] by (simp_all add: lru_frame_def)
  have one: "l \<notin># all_listed m'"
  proof
    assume "l \<in># all_listed m'"
    then have "2 \<le> count (all_listed m' + add_mset l T) l" by (simp add: Suc_le_eq)
    with placedD(3) [OF pl, of l] show False unfolding al by simp
  qed
  have sub: "set (el_head (emp_list_del_init l x)) \<subseteq> set (el_head x)" for x
    using set_remove1_subset by (simp add: emp_list_del_init_def)
  show "emp_list_ok (slru_lists m' k p)" for k p
    using lists [of k p] placedD(1) [OF pl, of k p] emp_list_del_init_ok [of "slru_lists m k p" l] by (elim disjE conjE) simp_all
  show "emp_list_ok (pin_lists m' i)" for i
    using pins [of i] placedD(2) [OF pl, of i] emp_list_del_init_ok [of "pin_lists m i" l] by (elim disjE conjE) simp_all
  show "head_page m' l'" if "l' \<in># U" for l' using placedD(8) [OF pl] that unfolding head_page_frame [OF fr] by blast
  show "count (all_listed m' + add_mset l T) l' + count U l' \<le> 1" for l' unfolding al by (rule placedD(3) [OF pl])
  show "head_page m' l'" if "l' \<in># all_listed m' + add_mset l T" for l'
    using placedD(4) [OF pl] that unfolding al head_page_frame [OF fr] by blast
  show "lp_at (mm_lps m' l') p" if "p \<in> places m'" "l' \<in> set (el_head (slru_lists m' k p))" for k p l'
  proof -
    have "l' \<in># all_listed m'" using that in_all_listed by auto
    then have "l' \<noteq> l" using one by auto
    moreover have "l' \<in> set (el_head (slru_lists m k p))" using lists [of k p] subsetD [OF sub [of "slru_lists m k p"]] that(2) by auto
    ultimately show ?thesis using placedD(5) [OF pl] that(1) by (simp add: lps P)
  qed
  show "lp_pinned_at (mm_lps m' l') (int i - int (mm_possible_cpus m'))"
    if "i < mm_possible_cpus m'" "l' \<in> set (el_head (pin_lists m' i))" for i l'
  proof -
    have "l' \<in># all_listed m'" using that in_all_listed by auto
    then have "l' \<noteq> l" using one by auto
    moreover have "l' \<in> set (el_head (pin_lists m i))" using pins [of i] subsetD [OF sub [of "pin_lists m i"]] that(2) by auto
    ultimately show ?thesis using placedD(6) [OF pl] that(1) by (simp add: lps P)
  qed
  show "list_flags (mm_lps m' l') = {}" if "l' \<in># add_mset l T" for l'
    using that placedD(7) [OF pl, of l'] off lps [of l'] by (cases "l' = l") auto
qed

lemma placed_put:
  assumes pl: "placed U (add_mset l T) m" and fr: "lru_frame m m'" and al: "all_listed m' + T = all_listed m + add_mset l T"
    and lps: "\<And>l'. l' \<noteq> l \<Longrightarrow> mm_lps m' l' = mm_lps m l'"
    and lists: "\<And>k p. slru_lists m' k p = slru_lists m k p
      \<or> slru_lists m' k p = emp_list_add_tail l (slru_lists m k p) \<and> (p \<in> places m \<longrightarrow> lp_at (mm_lps m' l) p)"
    and pins: "\<And>i. pin_lists m' i = pin_lists m i
      \<or> pin_lists m' i = emp_list_add_tail l (pin_lists m i)
        \<and> (i < mm_possible_cpus m \<longrightarrow> lp_pinned_at (mm_lps m' l) (int i - int (mm_possible_cpus m)))"
  shows "placed U T m'"
proof (rule placedI)
  have P: "mm_possible_cpus m' = mm_possible_cpus m" "places m' = places m"
    using fr lru_frame_eqs(5) [OF fr] by (simp_all add: lru_frame_def)
  have one: "l \<notin># all_listed m + T"
  proof
    assume "l \<in># all_listed m + T"
    then have "2 \<le> count (all_listed m + add_mset l T) l" by (simp add: Suc_le_eq)
    with placedD(3) [OF pl, of l] show False by simp
  qed
  show "emp_list_ok (slru_lists m' k p)" for k p
    using lists [of k p] placedD(1) [OF pl] by (auto simp: emp_list_add_tail_ok)
  show "emp_list_ok (pin_lists m' i)" for i
    using pins [of i] placedD(2) [OF pl] by (auto simp: emp_list_add_tail_ok)
  show "head_page m' l'" if "l' \<in># U" for l' using placedD(8) [OF pl] that unfolding head_page_frame [OF fr] by blast
  show "count (all_listed m' + T) l' + count U l' \<le> 1" for l' unfolding al by (rule placedD(3) [OF pl])
  show "head_page m' l'" if "l' \<in># all_listed m' + T" for l'
    using placedD(4) [OF pl] that unfolding al head_page_frame [OF fr] by blast
  show "lp_at (mm_lps m' l') p" if p: "p \<in> places m'" and l': "l' \<in> set (el_head (slru_lists m' k p))" for k p l'
  proof (cases "l' \<in> set (el_head (slru_lists m k p))")
    case True
    then have "l' \<in># all_listed m" using p P in_all_listed by auto
    then have "l' \<noteq> l" using one by auto
    then show ?thesis using placedD(5) [OF pl _ True] p by (simp add: lps P)
  next
    case False
    then show ?thesis using lists [of k p] l' p P by auto
  qed
  show "lp_pinned_at (mm_lps m' l') (int i - int (mm_possible_cpus m'))"
    if i: "i < mm_possible_cpus m'" and l': "l' \<in> set (el_head (pin_lists m' i))" for i l'
  proof (cases "l' \<in> set (el_head (pin_lists m i))")
    case True
    then have "l' \<in># all_listed m" using i P in_all_listed by auto
    then have "l' \<noteq> l" using one by auto
    then show ?thesis using placedD(6) [OF pl _ True] i by (simp add: lps P)
  next
    case False
    then show ?thesis using pins [of i] l' i P by auto
  qed
  show "list_flags (mm_lps m' l') = {}" if "l' \<in># T" for l'
  proof -
    have "l' \<noteq> l" using that one by auto
    then show ?thesis using placedD(7) [OF pl, of l'] that by (simp add: lps)
  qed
qed

lemma take_page_placed:
  assumes pl: "placed U T m" and p: "p \<in> places m" and l: "l \<in> set (el_head (slru_lists m k p))"
  shows "placed U (add_mset l T) (take_page k p (place_flag p) l m)"
proof (rule placed_take [OF pl])
  let ?m = "take_page k p (place_flag p) l m"
  show "lru_frame m ?m" using take_page_simps(5) by (simp add: quiet_def)
  have "members m k = add_mset l (members ?m k)" "\<And>k'. k' \<noteq> k \<Longrightarrow> members ?m k' = members m k'"
    "pin_members ?m = pin_members m"
    using take_page_members [OF p l] by (simp_all add: pin_members_def take_page_simps)
  then show "all_listed ?m + add_mset l T = all_listed m + T" by (cases k) (simp_all add: all_listed_def)
  show "list_flags (mm_lps ?m l) = {}" using lp_at_flags [OF placedD(5) [OF pl p l]] by (simp add: page_ops)
qed (auto simp: take_page_simps page_ops l)

lemma put_page_placed:
  assumes pl: "placed U (add_mset l T) m" and p: "p \<in> places m"
  shows "placed U T (put_page k p l m)"
proof (rule placed_put [OF pl])
  let ?m = "put_page k p l m"
  show "lru_frame m ?m" using put_page_simps(5) by (simp add: quiet_def)
  have "members ?m k = add_mset l (members m k)" "\<And>k'. k' \<noteq> k \<Longrightarrow> members ?m k' = members m k'"
    "pin_members ?m = pin_members m"
    using put_page_members [OF p] by (simp_all add: pin_members_def put_page_simps)
  then show "all_listed ?m + T = all_listed m + add_mset l T" by (cases k) (simp_all add: all_listed_def)
  show "mm_lps ?m l' = mm_lps m l'" if "l' \<noteq> l" for l' using that by (cases p) (simp_all add: put_page_def page_ops)
  have "list_flags (mm_lps m l) = {}" using placedD(7) [OF pl] by simp
  then have "lp_at (mm_lps ?m l) p"
    by (cases p) (simp_all add: put_page_def page_ops lp_at_def LOCAL_PAGE_ON_MRU_def
        LOCAL_PAGE_ON_LRU_def LOCAL_PAGE_ON_GLOBAL_def)
  then show "slru_lists ?m k' p' = slru_lists m k' p'
      \<or> slru_lists ?m k' p' = emp_list_add_tail l (slru_lists m k' p') \<and> (p' \<in> places m \<longrightarrow> lp_at (mm_lps ?m l) p')"
    for k' p' by (simp add: put_page_simps)
qed (simp add: put_page_simps)

section \<open>Taking and putting back\<close>

text \<open>One page is locked and taken off the list \<open>k\<close>, and later put on it and unlocked.\<close>

definition takes :: "lru_list_type option \<Rightarrow> emp_mm \<Rightarrow> nat list \<Rightarrow> emp_mm \<Rightarrow> bool" where
  "takes g m xs m' \<longleftrightarrow> quiet m m' \<and> took m xs m' \<and> group_members m g = group_members m' g + mset xs
     \<and> (\<forall>g'. g' \<noteq> g \<longrightarrow> group_members m' g' = group_members m g')
     \<and> (\<forall>U T. placed U T m \<longrightarrow> placed U (T + mset xs) m')"

definition puts :: "lru_list_type option \<Rightarrow> emp_mm \<Rightarrow> nat list \<Rightarrow> emp_mm \<Rightarrow> bool" where
  "puts g m xs m' \<longleftrightarrow> quiet m m' \<and> released m xs m' \<and> group_members m' g = group_members m g + mset xs
     \<and> (\<forall>g'. g' \<noteq> g \<longrightarrow> group_members m' g' = group_members m g')
     \<and> (\<forall>U T. placed U (T + mset xs) m \<longrightarrow> placed U T m')"

lemma takes_Nil [simp]: "takes g m [] m"
  by (simp add: takes_def)

lemma takes_append:
  assumes "takes g m xs m1" and "takes g m1 ys m2"
  shows "takes g m (xs @ ys) m2"
proof -
  have q: "quiet m m1" "quiet m1 m2" using assms by (simp_all add: takes_def)
  then have "quiet m m2" by (rule quiet_trans)
  moreover have "took m (xs @ ys) m2"
    using took_append quiet_frame [OF q(1)] assms by (auto simp: takes_def)
  moreover have "placed U (T + mset (xs @ ys)) m2" if "placed U T m" for U T
  proof -
    have "placed U (T + mset xs) m1" using that assms(1) by (simp add: takes_def)
    then have "placed U ((T + mset xs) + mset ys) m2" using assms(2) by (simp only: takes_def)
    then show ?thesis by (simp add: ac_simps)
  qed
  ultimately show ?thesis using assms by (simp add: takes_def ac_simps)
qed

lemma puts_Nil [simp]: "puts g m [] m"
  by (simp add: puts_def released_def)

lemma puts_append:
  assumes "puts g m xs m1" and "puts g m1 ys m2"
  shows "puts g m (xs @ ys) m2"
proof -
  have q: "quiet m m1" "quiet m1 m2" using assms by (simp_all add: puts_def)
  have h: "lp_head m1 = lp_head m" using lru_frame_eqs(1) [OF quiet_frame [OF q(1)]] by (rule ext)
  have "quiet m m2" using q by (rule quiet_trans)
  moreover have "released m (xs @ ys) m2" using assms by (auto simp: puts_def released_def h)
  moreover have "placed U T m2" if "placed U (T + mset (xs @ ys)) m" for U T
  proof -
    have "placed U ((T + mset ys) + mset xs) m" using that by (simp add: ac_simps)
    then have "placed U (T + mset ys) m1" using assms(1) by (simp only: puts_def)
    then show ?thesis using assms(2) by (simp add: puts_def)
  qed
  ultimately show ?thesis using assms by (simp add: puts_def ac_simps)
qed

lemma lock_and_take:
  assumes "emp_trylock_local_page m l = (Some h, m1)" and "p \<in> places m" and "l \<in> set (el_head (slru_lists m k p))"
  shows "takes (Some k) m [l] (take_page k p (place_flag p) l m1)"
    and "el_head (slru_lists (take_page k p (place_flag p) l m1) k p) = remove1 l (el_head (slru_lists m k p))"
    and "places (take_page k p (place_flag p) l m1) = places m"
proof -
  have e: "\<not> locked_at m (lp_head m l)" "m1 = upd_head (\<lambda>g. g\<lparr>gpa_lock := True\<rparr>) (lp_head m l) m"
    using assms(1) by (auto simp: trylock_local_page split: if_splits)
  have s: "slru_lists m1 = slru_lists m" by (simp add: e(2) upd_head_simps)
  have q: "quiet m m1" unfolding e(2) by (rule upd_head_simps(5)) simp
  have p1: "places m1 = places m" using lru_frame_eqs(5) [OF quiet_frame [OF q]] .
  note mem = members_cong [OF p1 s]
  note t = take_page_members [of p m1 l k, unfolded p1 s mem, OF assms(2,3)]
  have qq: "quiet m (take_page k p (place_flag p) l m1)" using q take_page_simps(5) by (rule quiet_trans)
  have "took m [l] (take_page k p (place_flag p) l m1)"
    using e(1) locked_upd_head [of True "lp_head m l" m] by (simp add: took_def e(2) locked_at_def take_page_simps(1))
  moreover have "placed U (T + mset [l]) (take_page k p (place_flag p) l m1)" if "placed U T m" for U T
  proof -
    have pins: "pin_lists m1 = pin_lists m" "mm_lps m1 = mm_lps m"
      by (simp_all add: e(2) upd_head_def upd_gpa_def)
    have "placed U T m1" by (rule placed_cong [OF that quiet_frame [OF q] s pins])
    then have "placed U (add_mset l T) (take_page k p (place_flag p) l m1)"
      by (rule take_page_placed) (use assms(2,3) p1 s in simp_all)
    then show ?thesis by simp
  qed
  moreover have "group_members (take_page k p (place_flag p) l m1) g' = group_members m g'" if "g' \<noteq> Some k" for g'
    using that t(2) by (cases g') (simp_all add: pin_members_def take_page_simps e(2) upd_head_simps)
  ultimately show "takes (Some k) m [l] (take_page k p (place_flag p) l m1)" using qq t(1) by (simp add: takes_def)
  show "el_head (slru_lists (take_page k p (place_flag p) l m1) k p) = remove1 l (el_head (slru_lists m k p))"
    by (simp add: take_page_simps(2) s emp_list_del_init_def)
  show "places (take_page k p (place_flag p) l m1) = places m" using lru_frame_eqs(5) [OF quiet_frame [OF qq]] .
qed

lemma put_and_unlock:
  assumes "p \<in> places m"
  shows "puts (Some k) m [l] (emp_unlock_local_page l (put_page k p l m))"
proof -
  let ?m1 = "put_page k p l m"
  let ?m2 = "emp_unlock_local_page l ?m1"
  have q1: "quiet m ?m1" by (rule put_page_simps(5))
  have h: "lp_head ?m1 l = lp_head m l" using lru_frame_eqs(1) [OF quiet_frame [OF q1]] .
  have m2: "?m2 = upd_head (\<lambda>g. g\<lparr>gpa_lock := False\<rparr>) (lp_head m l) ?m1" by (simp add: unlock_local_page h)
  have q2: "quiet ?m1 ?m2" unfolding m2 by (rule upd_head_simps(5)) simp
  have p2: "places ?m2 = places ?m1" using lru_frame_eqs(5) [OF quiet_frame [OF q2]] .
  have mem: "members ?m2 k' = members ?m1 k'" for k' by (rule members_cong [OF p2]) (simp add: m2 upd_head_simps)
  have "released m [l] ?m2" unfolding m2 by (simp add: released_def locked_upd_head) (simp add: locked_at_def put_page_simps)
  moreover have "placed U T ?m2" if "placed U (T + mset [l]) m" for U T
  proof -
    have "placed U T ?m1" using put_page_placed [OF _ assms] that by simp
    then show ?thesis by (rule placed_cong [OF _ quiet_frame [OF q2]]) (simp_all add: m2 upd_head_def)
  qed
  moreover have "group_members ?m2 g' = group_members m g'" if "g' \<noteq> Some k" for g'
    using that put_page_members(2) [OF assms]
    by (cases g') (simp_all add: mem, simp add: pin_members_def put_page_simps m2 upd_head_simps)
  ultimately show ?thesis using quiet_trans [OF q1 q2] put_page_members(1) [OF assms] by (simp add: puts_def mem)
qed

lemma put_all:
  assumes "p \<in> places m"
  shows "puts (Some k) m xs (foldl (\<lambda>m l. emp_unlock_local_page l (put_page k p l m)) m xs)"
  using assms
proof (induction xs rule: rev_induct)
  case (snoc l xs)
  let ?m = "foldl (\<lambda>m l. emp_unlock_local_page l (put_page k p l m)) m xs"
  have ih: "puts (Some k) m xs ?m" using snoc by simp
  then have "places ?m = places m" using lru_frame_eqs(5) quiet_frame by (auto simp: puts_def)
  then have "puts (Some k) ?m [l] (emp_unlock_local_page l (put_page k p l ?m))"
    using put_and_unlock snoc.prems by simp
  with ih show ?case using puts_append by simp
qed simp

text \<open>Taking pages and putting all of them back changes no member, no length and no lock.\<close>

definition settled :: "emp_mm \<Rightarrow> emp_mm \<Rightarrow> bool" where
  "settled m m' \<longleftrightarrow> quiet m m' \<and> (\<forall>g. group_members m' g = group_members m g) \<and> (\<forall>q. locked_at m' q = locked_at m q)
     \<and> (\<forall>U T. placed U T m \<longrightarrow> placed U T m')"

lemma takes_puts_settled:
  assumes "takes g m xs m1" and "puts g m1 xs m2"
  shows "settled m m2"
proof -
  have q: "quiet m m1" "quiet m1 m2" using assms by (simp_all add: takes_def puts_def)
  have "locked_at m2 q = locked_at m q" for q
    using took_released [OF _ _ quiet_frame [OF q(1)]] assms by (auto simp: takes_def puts_def)
  moreover have "group_members m2 g' = group_members m g'" for g'
    using assms by (cases "g' = g") (simp_all add: takes_def puts_def)
  moreover have "placed U T m2" if "placed U T m" for U T
    using that assms by (simp add: takes_def puts_def)
  ultimately show ?thesis using quiet_trans [OF q] by (simp add: settled_def)
qed

lemma settled_trans: "settled a b \<Longrightarrow> settled b c \<Longrightarrow> settled a c"
  using quiet_trans by (auto simp: settled_def)

lemma settled_refl [simp]: "settled m m"
  by (simp add: settled_def)

section \<open>Refilling and flushing\<close>

lemma mset_tail_of_remove1:
  "mset (l # ls) \<subseteq># mset xs \<Longrightarrow> mset ls \<subseteq># mset (remove1 l xs) \<and> l \<in> set xs"
  by (auto simp: insert_subset_eq_iff)

lemma trylock_None: "emp_trylock_local_page m l = (None, m1) \<Longrightarrow> m1 = m"
  by (auto simp: trylock_local_page split: if_splits)

lemma refill_scan_ok:
  assumes "refill_scan k p i lb ls num_pop num_fail to_lru m = (n', to', m')"
    and "mset ls \<subseteq># mset (el_head (slru_lists m k p))" and "p \<in> places m" and "i = place_flag p"
  shows "\<exists>xs. takes (Some k) m xs m' \<and> tl_head to' = tl_head to_lru @ xs \<and> n' = num_pop + int (length xs)
    \<and> set xs \<subseteq> set ls"
  using assms
proof (induction k p i lb ls num_pop num_fail to_lru m arbitrary: n' to' m' rule: refill_scan.induct)
  case (1 k p i lb_size num_pop num_fail to_lru m)
  then show ?case by (intro exI [of _ "[]"]) simp
next
  case (2 k p i lb l ls num_pop num_fail to_lru m)
  note sub = mset_tail_of_remove1 [OF 2(4)]
  show ?case
  proof (cases "emp_trylock_local_page m l")
    case (Pair r m1)
    show ?thesis
    proof (cases r)
      case None
      with Pair have m1: "m1 = m" using trylock_None by blast
      have s: "mset ls \<subseteq># mset (el_head (slru_lists m k p))"
        using 2(4) by (metis mset.simps(2) mset_subset_eq_insertD subset_mset.less_imp_le)
      show ?thesis
      proof (cases "num_fail + 1 \<ge> lb")
        case True
        then have "n' = num_pop \<and> to' = to_lru \<and> m' = m" using 2(3) Pair None m1 by simp
        then show ?thesis by (intro exI [of _ "[]"]) simp
      next
        case False
        then have e: "refill_scan k p i lb ls num_pop (num_fail + 1) to_lru m = (n', to', m')"
          using 2(3) Pair None m1 by simp
        from 2(1) [OF Pair [symmetric] None False, unfolded m1, OF e s 2(5,6)] show ?thesis by auto
      qed
    next
      case (Some h)
      let ?m = "take_page k p i l m1"
      note t = lock_and_take [OF Pair [unfolded Some] 2(5) conjunct2 [OF sub], folded 2(6)]
      show ?thesis
      proof (cases "num_pop + 1 \<ge> lb")
        case True
        then have "n' = num_pop + 1 \<and> to' = temp_list_add_tail l to_lru \<and> m' = ?m"
          using 2(3) Pair Some by (simp add: Let_def)
        then show ?thesis using t(1) by (intro exI [of _ "[l]"]) (simp add: temp_list_add_tail_def)
      next
        case False
        then have e: "refill_scan k p i lb ls (num_pop + 1) num_fail (temp_list_add_tail l to_lru) ?m = (n', to', m')"
          using 2(3) Pair Some by (simp add: Let_def)
        have s: "mset ls \<subseteq># mset (el_head (slru_lists ?m k p))" "p \<in> places ?m"
          using sub 2(5) t(2,3) by simp_all
        obtain xs where "takes (Some k) ?m xs m'" "tl_head to' = tl_head (temp_list_add_tail l to_lru) @ xs"
          "n' = num_pop + 1 + int (length xs)" "set xs \<subseteq> set ls"
          using 2(2) [OF Pair [symmetric] Some refl refl False e s 2(6)] by blast
        then show ?thesis using takes_append [OF t(1)]
          by (intro exI [of _ "l # xs"]) (auto simp: temp_list_add_tail_def)
      qed
    qed
  qed
qed

lemma put_page_lru_eq: "put_page_lru k c = put_page k (Slru_lru c)"
  and put_page_mru_eq: "put_page_mru k c = put_page k (Slru_mru c)"
  and put_page_global_eq: "put_page_global k = put_page k Slru_global"
  by (simp_all add: put_page_def fun_eq_iff)

lemma places_quiet: "quiet m m' \<Longrightarrow> places m' = places m"
  using lru_frame_eqs(5) quiet_frame by blast

lemma takes_quiet: "takes (Some k) m xs m' \<Longrightarrow> quiet m m'"
  by (simp add: takes_def)

lemma refill_lru_buf_moves:
  assumes "c \<in> mm_cpus m" and "refill_lru_buf m k c lb = (n, m')"
  shows "\<exists>xs m1. takes (Some k) m xs m1 \<and> n = int (length xs)
    \<and> m' = foldl (\<lambda>m l. emp_unlock_local_page l (put_page_lru k c l m)) m1 xs"
proof -
  obtain n1 t1 m1 where s1: "refill_scan k Slru_global LOCAL_PAGE_ON_GLOBAL lb
      (el_head (slru_lists m k Slru_global)) 0 0 init_temp_list m = (n1, t1, m1)" by (metis prod_cases3)
  obtain xs where xs: "takes (Some k) m xs m1" "tl_head t1 = xs" "n1 = int (length xs)"
    using refill_scan_ok [OF s1] by (auto simp: place_flag_def)
  show ?thesis
  proof (cases "n1 = 0")
    case False
    then show ?thesis using s1 xs assms(2) by (auto simp: refill_lru_buf_def)
  next
    case True
    obtain n2 t2 m2 where s2: "refill_scan k (Slru_mru c) LOCAL_PAGE_ON_MRU lb
        (el_head (slru_lists m1 k (Slru_mru c))) n1 0 t1 m1 = (n2, t2, m2)" by (metis prod_cases3)
    have "Slru_mru c \<in> places m1" using places_quiet [OF takes_quiet [OF xs(1)]] assms(1) by simp
    then obtain ys where ys: "takes (Some k) m1 ys m2" "tl_head t2 = xs @ ys" "n2 = n1 + int (length ys)"
      using refill_scan_ok [OF s2] xs(2) by (auto simp: place_flag_def)
    have "takes (Some k) m (xs @ ys) m2" using takes_append xs(1) ys(1) by blast
    then show ?thesis using True s1 s2 ys xs(3) assms(2) by (intro exI [of _ "xs @ ys"]) (auto simp: refill_lru_buf_def)
  qed
qed

lemma refill_lru_buf_settled:
  assumes "c \<in> mm_cpus m" and "refill_lru_buf m k c lb = (n, m')"
  shows "settled m m'"
proof -
  from refill_lru_buf_moves [OF assms] obtain xs m1 where t: "takes (Some k) m xs m1"
    and m': "m' = foldl (\<lambda>m l. emp_unlock_local_page l (put_page_lru k c l m)) m1 xs" by blast
  have "Slru_lru c \<in> places m1" using places_quiet [OF takes_quiet [OF t]] assms(1) by simp
  then have "puts (Some k) m1 xs m'" unfolding m' put_page_lru_eq by (rule put_all)
  with t show ?thesis by (rule takes_puts_settled)
qed

lemma flush_scan_ok:
  assumes "flush_scan k p ls to_global m = (to', m')"
    and "mset ls \<subseteq># mset (el_head (slru_lists m k p))" and "p \<in> places m"
    and "LOCAL_PAGE_ON_MRU = place_flag p"
  shows "\<exists>xs. takes (Some k) m xs m' \<and> tl_head to' = tl_head to_global @ xs \<and> set xs \<subseteq> set ls"
  using assms
proof (induction k p ls to_global m arbitrary: to' m' rule: flush_scan.induct)
  case (1 k p to_global m)
  then show ?case by (intro exI [of _ "[]"]) simp
next
  case (2 k p l ls to_global m)
  note sub = mset_tail_of_remove1 [OF 2(4)]
  show ?case
  proof (cases "emp_trylock_local_page m l")
    case (Pair r m1)
    show ?thesis
    proof (cases r)
      case None
      with Pair have m1: "m1 = m" using trylock_None by blast
      have s: "mset ls \<subseteq># mset (el_head (slru_lists m k p))"
        using 2(4) by (metis mset.simps(2) mset_subset_eq_insertD subset_mset.less_imp_le)
      have e: "flush_scan k p ls to_global m = (to', m')" using 2(3) Pair None m1 by simp
      from 2(1) [OF Pair [symmetric] None, unfolded m1, OF e s 2(5,6)] show ?thesis by auto
    next
      case (Some h)
      let ?m = "take_page k p LOCAL_PAGE_ON_MRU l m1"
      note t = lock_and_take [OF Pair [unfolded Some] 2(5) conjunct2 [OF sub], folded 2(6)]
      have e: "flush_scan k p ls (temp_list_add_tail l to_global) ?m = (to', m')" using 2(3) Pair Some by simp
      have s: "mset ls \<subseteq># mset (el_head (slru_lists ?m k p))" "p \<in> places ?m"
        using sub 2(5) t(2,3) by simp_all
      obtain xs where "takes (Some k) ?m xs m'" "tl_head to' = tl_head (temp_list_add_tail l to_global) @ xs" "set xs \<subseteq> set ls"
        using 2(2) [OF Pair [symmetric] Some e s 2(6)] by blast
      then show ?thesis using takes_append [OF t(1)]
        by (intro exI [of _ "l # xs"]) (auto simp: temp_list_add_tail_def)
    qed
  qed
qed

lemma flush_active_mru_moves:
  assumes "c \<in> mm_cpus m"
  shows "\<exists>xs m1 p. takes (Some k) m xs m1 \<and> p \<in> {Slru_global, Slru_mru c}
    \<and> flush_active_mru gf m k c n = foldl (\<lambda>m l. emp_unlock_local_page l (put_page k p l m)) m1 xs"
proof -
  obtain t1 m1 where s1: "flush_scan k (Slru_mru c) (el_head (slru_lists m k (Slru_mru c))) init_temp_list m = (t1, m1)"
    by (metis surj_pair)
  have "Slru_mru c \<in> places m" using assms by simp
  then have t: "takes (Some k) m (tl_head t1) m1" using flush_scan_ok [OF s1] by (auto simp: place_flag_def)
  define p where "p = (if emp_list_len (slru_lists m1 k (Slru_mru c)) > n * 2 \<or> gf then Slru_global else Slru_mru c)"
  have "flush_active_mru gf m k c n = foldl (\<lambda>m l. emp_unlock_local_page l (put_page k p l m)) m1 (tl_head t1)"
    by (simp add: flush_active_mru_def s1 put_page_mru_eq put_page_global_eq p_def)
  moreover have "p \<in> {Slru_global, Slru_mru c}" by (simp add: p_def)
  ultimately show ?thesis by (intro exI conjI) (rule t)
qed

lemma flush_active_mru_settled:
  assumes "c \<in> mm_cpus m"
  shows "settled m (flush_active_mru gf m k c n)"
  using flush_active_mru_moves [OF assms, of k gf n]
proof (elim exE conjE)
  fix xs m1 p
  assume t: "takes (Some k) m xs m1" and p: "p \<in> {Slru_global, Slru_mru c}"
    and e: "flush_active_mru gf m k c n = foldl (\<lambda>m l. emp_unlock_local_page l (put_page k p l m)) m1 xs"
  have "p \<in> places m1" using p assms by (auto simp: places_quiet [OF takes_quiet [OF t]])
  from takes_puts_settled [OF t put_all [OF this]] show ?thesis unfolding e .
qed

section \<open>Refilling and flushing change no flag and no state\<close>

definition descs_same :: "emp_mm \<Rightarrow> emp_mm \<Rightarrow> bool" where
  "descs_same m m' \<longleftrightarrow> (\<forall>q. (mm_gpas m' q)\<lparr>gpa_lock := False\<rparr> = (mm_gpas m q)\<lparr>gpa_lock := False\<rparr>)"

lemma descs_same_refl [simp]: "descs_same m m"
  by (simp add: descs_same_def)

lemma descs_same_trans: "descs_same a b \<Longrightarrow> descs_same b c \<Longrightarrow> descs_same a c"
  by (simp add: descs_same_def)

lemma descs_same_locked:
  assumes "descs_same m m'" and "\<And>q. locked_at m' q = locked_at m q"
  shows "mm_gpas m' = mm_gpas m"
proof
  fix q
  have "(mm_gpas m' q)\<lparr>gpa_lock := False\<rparr> = (mm_gpas m q)\<lparr>gpa_lock := False\<rparr>" "gpa_lock (mm_gpas m' q) = gpa_lock (mm_gpas m q)"
    using assms by (simp_all add: descs_same_def locked_at_def)
  then show "mm_gpas m' q = mm_gpas m q"
    by (cases "mm_gpas m' q"; cases "mm_gpas m q") simp
qed

lemma trylock_same: "emp_trylock_local_page m l = (r, m1) \<Longrightarrow> descs_same m (take_page k p i l' m1) \<and> descs_same m m1"
  by (auto simp: trylock_local_page descs_same_def take_page_simps upd_head_def upd_gpa_def split: if_splits)

lemma refill_scan_same:
  "descs_same m (snd (snd (refill_scan k p i lb ls num_pop num_fail to_lru m)))"
proof (induction k p i lb ls num_pop num_fail to_lru m rule: refill_scan.induct)
  case (2 k p i lb l ls num_pop num_fail to_lru m)
  obtain r m1 where t: "emp_trylock_local_page m l = (r, m1)" by (metis surj_pair)
  note s = trylock_same [OF t, of k p i l]
  show ?case
    using 2(1) [OF t [symmetric]] 2(2) [OF t [symmetric] _ refl refl] descs_same_trans [OF conjunct1 [OF s]]
      descs_same_trans [OF conjunct2 [OF s]] s
    by (auto simp: t Let_def split: option.split)
qed simp

lemma flush_scan_same: "descs_same m (snd (flush_scan k p ls to_global m))"
proof (induction k p ls to_global m rule: flush_scan.induct)
  case (2 k p l ls to_global m)
  obtain r m1 where t: "emp_trylock_local_page m l = (r, m1)" by (metis surj_pair)
  note s = trylock_same [OF t, of k p LOCAL_PAGE_ON_MRU l]
  show ?case
    using 2(1) [OF t [symmetric]] 2(2) [OF t [symmetric]] descs_same_trans [OF conjunct1 [OF s]]
      descs_same_trans [OF conjunct2 [OF s]]
    by (auto simp: t split: option.split)
qed simp

lemma put_all_same: "descs_same m (foldl (\<lambda>m l. emp_unlock_local_page l (put_page k p l m)) m xs)"
proof (induction xs rule: rev_induct)
  case (snoc l xs)
  then show ?case
    by (auto intro!: descs_same_trans [OF snoc])
      (simp add: descs_same_def unlock_local_page upd_head_def upd_gpa_def put_page_simps)
qed simp

lemma refill_lru_buf_same:
  assumes "c \<in> mm_cpus m" and "refill_lru_buf m k c lb = (n, m')"
  shows "mm_gpas m' = mm_gpas m"
proof (rule descs_same_locked)
  show "locked_at m' q = locked_at m q" for q using refill_lru_buf_settled [OF assms] by (simp add: settled_def)
  obtain n1 t1 m1 where s1: "refill_scan k Slru_global LOCAL_PAGE_ON_GLOBAL lb
      (el_head (slru_lists m k Slru_global)) 0 0 init_temp_list m = (n1, t1, m1)" by (metis prod_cases3)
  obtain n2 t2 m2 where s2: "(if n1 = 0 then refill_scan k (Slru_mru c) LOCAL_PAGE_ON_MRU lb
        (el_head (slru_lists m1 k (Slru_mru c))) n1 0 t1 m1 else (n1, t1, m1)) = (n2, t2, m2)" by (metis prod_cases3)
  have "descs_same m m1" using refill_scan_same [of m k Slru_global] by (metis s1 snd_conv)
  moreover have "descs_same m1 m2"
    using s2 refill_scan_same [of m1 k "Slru_mru c" LOCAL_PAGE_ON_MRU lb "el_head (slru_lists m1 k (Slru_mru c))" n1 0 t1]
    by (cases "n1 = 0") simp_all
  moreover have "descs_same m2 m'"
    using assms(2) put_all_same [of m2 k "Slru_lru c" "tl_head t2"] by (simp add: refill_lru_buf_def s1 s2 put_page_lru_eq)
  ultimately show "descs_same m m'" by (meson descs_same_trans)
qed

lemma flush_active_mru_same:
  assumes "c \<in> mm_cpus m"
  shows "mm_gpas (flush_active_mru gf m k c n) = mm_gpas m"
proof (rule descs_same_locked)
  show "locked_at (flush_active_mru gf m k c n) q = locked_at m q" for q
    using flush_active_mru_settled [OF assms] by (simp add: settled_def)
  obtain t1 m1 where s1: "flush_scan k (Slru_mru c) (el_head (slru_lists m k (Slru_mru c))) init_temp_list m = (t1, m1)"
    by (metis surj_pair)
  have "descs_same m m1"
    using flush_scan_same [of m k "Slru_mru c" "el_head (slru_lists m k (Slru_mru c))" init_temp_list] by (simp add: s1)
  moreover have "descs_same m1 (flush_active_mru gf m k c n)"
    using put_all_same [of m1 k Slru_global] put_all_same [of m1 k "Slru_mru c"]
    by (simp add: flush_active_mru_def s1 put_page_mru_eq put_page_global_eq)
  ultimately show "descs_same m (flush_active_mru gf m k c n)" by (rule descs_same_trans)
qed

section \<open>Pin lists\<close>

definition put_pin :: "int \<Rightarrow> nat \<Rightarrow> nat \<Rightarrow> emp_mm \<Rightarrow> emp_mm" where
  "put_pin c i l m = (upd_lp (\<lambda>lp. set_local_page_cpu_pin lp c) l m)
     \<lparr>pin_lists := (pin_lists m)(i := emp_list_add_tail l (pin_lists m i))\<rparr>"

lemma put_pin_simps:
  "mm_gpas (put_pin c i l m) = mm_gpas m" "slru_lists (put_pin c i l m) = slru_lists m"
  "pin_lists (put_pin c i l m) = (pin_lists m)(i := emp_list_add_tail l (pin_lists m i))"
  "mm_lps (put_pin c i l m) = (mm_lps m)(l := set_local_page_cpu_pin (mm_lps m l) c)"
  "mm_possible_cpus (put_pin c i l m) = mm_possible_cpus m" "quiet m (put_pin c i l m)"
  by (simp_all add: put_pin_def upd_lp_def quiet_def lru_frame_def)

lemma put_pin_members:
  assumes "i < mm_possible_cpus m"
  shows "pin_members (put_pin c i l m) = add_mset l (pin_members m)" and "members (put_pin c i l m) k = members m k"
proof -
  have "(\<Sum>j<mm_possible_cpus m. mset (el_head (pin_lists (put_pin c i l m) j))) =
      (\<Sum>j<mm_possible_cpus m. mset (if j = i then el_head (emp_list_add_tail l (pin_lists m i)) else el_head (pin_lists m j)))"
    by (rule sum.cong) (simp_all add: put_pin_simps)
  then show "pin_members (put_pin c i l m) = add_mset l (pin_members m)"
    using sum_upd_mset [of "{..<mm_possible_cpus m}" i "el_head (emp_list_add_tail l (pin_lists m i))" "\<lambda>j. el_head (pin_lists m j)"] assms
    by (simp add: pin_members_def put_pin_simps(5))
  show "members (put_pin c i l m) k = members m k"
    by (rule members_cong [OF places_quiet [OF put_pin_simps(6)]]) (rule put_pin_simps)
qed

lemma put_pin_placed:
  assumes pl: "placed U (add_mset l T) m" and i: "get_list_ptr_pin m c = Some i"
  shows "placed U T (put_pin c i l m)"
proof (rule placed_put [OF pl])
  let ?m = "put_pin c i l m"
  have ii: "i < mm_possible_cpus m" "c = int i - int (mm_possible_cpus m)"
    using i by (auto simp: get_list_ptr_pin_def PCPU_ID_def Let_def split: if_splits)
  show "lru_frame m ?m" using put_pin_simps(6) by (simp add: quiet_def)
  show "all_listed ?m + T = all_listed m + add_mset l T"
    using put_pin_members [OF ii(1)] by (simp add: all_listed_def)
  have "list_flags (mm_lps m l) = {}" using placedD(7) [OF pl] by simp
  then show "pin_lists ?m j = pin_lists m j \<or> pin_lists ?m j = emp_list_add_tail l (pin_lists m j)
      \<and> (j < mm_possible_cpus m \<longrightarrow> lp_pinned_at (mm_lps ?m l) (int j - int (mm_possible_cpus m)))" for j
    by (simp add: put_pin_simps lp_pinned_at_def ii(2))
qed (simp_all add: put_pin_simps)

lemma placed_quiet_same:
  "placed U T m \<Longrightarrow> quiet m m' \<Longrightarrow> slru_lists m' = slru_lists m \<Longrightarrow> pin_lists m' = pin_lists m \<Longrightarrow>
     mm_lps m' = mm_lps m \<Longrightarrow> placed U T m'"
  using placed_cong quiet_frame by blast

text \<open>The descriptor of a page in transit may change before it is unlocked.\<close>

lemma puts_update:
  assumes one: "quiet m m1" "group_members m1 g = add_mset l (group_members m g)"
    "\<And>g'. g' \<noteq> g \<Longrightarrow> group_members m1 g' = group_members m g'" "\<And>U T. placed U (add_mset l T) m \<Longrightarrow> placed U T m1"
    and same: "\<And>q. locked_at m1 q = locked_at m q"
  shows "puts g m [l] (emp_unlock_local_page l m1)"
proof -
  let ?m2 = "emp_unlock_local_page l m1"
  have h: "lp_head m1 l = lp_head m l" using lru_frame_eqs(1) [OF quiet_frame [OF one(1)]] .
  have m2: "?m2 = upd_head (\<lambda>g. g\<lparr>gpa_lock := False\<rparr>) (lp_head m l) m1" by (simp add: unlock_local_page h)
  have q2: "quiet m1 ?m2" unfolding m2 by (rule upd_head_simps(5)) simp
  note p2 = places_quiet [OF q2]
  have eqs: "slru_lists ?m2 = slru_lists m1" "pin_lists ?m2 = pin_lists m1" "mm_lps ?m2 = mm_lps m1"
    "mm_possible_cpus ?m2 = mm_possible_cpus m1" unfolding m2 by (simp_all add: upd_head_simps)
  have mem: "group_members ?m2 g' = group_members m1 g'" for g'
    by (cases g') (simp_all add: members_def pin_members_def p2 eqs)
  have "released m [l] ?m2" unfolding m2 by (auto simp: released_def locked_upd_head same)
  moreover have "placed U T ?m2" if "placed U (T + mset [l]) m" for U T
    using placed_quiet_same [OF one(4) q2 eqs(1-3)] that by simp
  ultimately show ?thesis using quiet_trans [OF one(1) q2] one(2,3) by (simp add: puts_def mem)
qed

lemma upd_head_keeps:
  assumes "\<And>d. fixed_part (f d) = fixed_part d" and "\<And>d. gpa_lock (f d) = gpa_lock d"
  shows "quiet m (upd_head f q m)" and "group_members (upd_head f q m) g = group_members m g"
    and "placed U T (upd_head f q m) \<longleftrightarrow> placed U T m" and "locked_at (upd_head f q m) p = locked_at m p"
    and "lp_head (upd_head f q m) = lp_head m"
proof -
  show q: "quiet m (upd_head f q m)" by (rule upd_head_simps(5)) (rule assms)
  note s = upd_head_simps(1-4) [of f q m]
  show "group_members (upd_head f q m) g = group_members m g"
    by (cases g) (simp_all add: members_def pin_members_def places_quiet [OF q] s)
  have "quiet (upd_head f q m) m" by (simp add: quiet_def lru_frame_def upd_head_def upd_gpa_def assms)
  then show "placed U T (upd_head f q m) \<longleftrightarrow> placed U T m"
    using placed_quiet_same [OF _ q s(1,3,2)] placed_quiet_same [of U T "upd_head f q m" m] s by auto
  show "locked_at (upd_head f q m) p = locked_at m p" by (simp add: locked_at_def upd_head_def upd_gpa_def assms)
  show "lp_head (upd_head f q m) = lp_head m" by (intro ext lru_frame_eqs(1) quiet_frame q)
qed

lemmas set_flags_keeps = upd_head_keeps [of "\<lambda>g. snd (set_gpa_flags_if_unset g f)" for f, OF fixed_part_ops(1,5)]
lemmas clear_flags_keeps = upd_head_keeps [of "\<lambda>g. snd (clear_gpa_flags_if_set g f)" for f, OF fixed_part_ops(2,6)]

lemma get_list_ptr_pin_frame: "lru_frame m m' \<Longrightarrow> get_list_ptr_pin m' c = get_list_ptr_pin m c"
  by (simp add: get_list_ptr_pin_def PCPU_ID_def lru_frame_def)

lemma block_pages_head: "head_page m l \<Longrightarrow> int (gpa_block_size (mm_gpas m (lp_gpa (mm_lps m l)))) = block_pages m l"
  by (simp add: block_pages_def head_page_def)

lemma pin_page_eq:
  "pin_page c i fp mapped l (a, b, m) =
     (let gpa = lp_gpa (mm_lps m l); n = int (gpa_block_size (mm_gpas m gpa));
          m1 = put_pin c i l m;
          m2 = (if \<not> fp then upd_head (\<lambda>g. snd (set_gpa_flags_if_unset g GPA_PROACTIVE_MASK)) gpa m1 else m1);
          m3 = (if \<not> mapped then upd_head (\<lambda>g. snd (set_gpa_flags_if_unset (g\<lparr>r_state := GPA_ACTIVE\<rparr>)
                 (GPA_PREFETCHED_BLK_MASK OR GPA_PREFETCH_ONCE_MASK OR GPA_HPT_MASK))) gpa m2 else m2)
      in (if \<not> fp then a + n else a, if \<not> fp then b else b + n, emp_unlock_local_page l m3))"
  by (simp add: pin_page_def put_pin_def upd_lp_def Let_def)

lemma pin_page_ok:
  assumes "get_list_ptr_pin m c = Some i" and "head_page m l"
  shows "\<exists>m'. pin_page c i fp mapped l (a, b, m) =
      (if fp then a else a + block_pages m l, if fp then b + block_pages m l else b, m') \<and> puts None m [l] m'"
proof -
  let ?gpa = "lp_gpa (mm_lps m l)"
  define f where "f = (if fp then id else (\<lambda>g. snd (set_gpa_flags_if_unset g GPA_PROACTIVE_MASK)))"
  define f' where "f' = (if mapped then id else (\<lambda>g. snd (set_gpa_flags_if_unset (g\<lparr>r_state := GPA_ACTIVE\<rparr>)
    (GPA_PREFETCHED_BLK_MASK OR GPA_PREFETCH_ONCE_MASK OR GPA_HPT_MASK))))"
  have id: "upd_head id q x = x" for q x by (simp add: upd_head_def upd_gpa_def)
  let ?m3 = "upd_head f' ?gpa (upd_head f ?gpa (put_pin c i l m))"
  have k: "fixed_part (f d) = fixed_part d" "gpa_lock (f d) = gpa_lock d"
    "fixed_part (f' d) = fixed_part d" "gpa_lock (f' d) = gpa_lock d" for d by (simp_all add: f_def f'_def)
  note u1 = upd_head_keeps [OF k(1,2)] and u2 = upd_head_keeps [OF k(3,4)]
  have i: "i < mm_possible_cpus m" using assms(1) by (auto simp: get_list_ptr_pin_def Let_def split: if_splits)
  have "puts None m [l] (emp_unlock_local_page l ?m3)"
  proof (rule puts_update)
    show "quiet m ?m3" by (rule quiet_trans [OF put_pin_simps(6) quiet_trans [OF u1(1) u2(1)]])
    show "group_members ?m3 None = add_mset l (group_members m None)"
      by (simp only: u1(2) u2(2)) (simp add: put_pin_members [OF i])
    show "group_members ?m3 g' = group_members m g'" if "g' \<noteq> None" for g'
      using that by (cases g') (simp_all only: u1(2) u2(2), simp_all add: put_pin_members [OF i])
    show "placed U T ?m3" if "placed U (add_mset l T) m" for U T
      by (simp only: u1(3) u2(3)) (rule put_pin_placed [OF that assms(1)])
    show "locked_at ?m3 q = locked_at m q" for q
      by (simp only: u1(4) u2(4)) (simp add: locked_at_def put_pin_simps)
  qed
  moreover have "pin_page c i fp mapped l (a, b, m) =
      (if fp then a else a + block_pages m l, if fp then b + block_pages m l else b, emp_unlock_local_page l ?m3)"
    unfolding pin_page_eq by (simp add: Let_def f_def f'_def id block_pages_head [OF assms(2)])
  ultimately show ?thesis by blast
qed

lemma weight_frame: "lru_frame m m' \<Longrightarrow> weight m' M = weight m M"
  by (rule lru_frame_eqs)

lemma pin_pages_ok:
  assumes "get_list_ptr_pin m c = Some i" and "\<And>l. l \<in> set xs \<Longrightarrow> head_page m l"
  shows "\<exists>m'. fold (pin_page c i fp mapped) xs (a, b, m) =
      (if fp then a else a + weight m (mset xs), if fp then b + weight m (mset xs) else b, m') \<and> puts None m xs m'"
  using assms
proof (induction xs arbitrary: a b m)
  case (Cons l xs)
  obtain m1 where p: "pin_page c i fp mapped l (a, b, m) =
      (if fp then a else a + block_pages m l, if fp then b + block_pages m l else b, m1)" "puts None m [l] m1"
    using pin_page_ok [OF Cons.prems(1), of l fp mapped a b] Cons.prems(2) [of l] by auto
  have fr: "lru_frame m m1" using p(2) by (simp add: puts_def quiet_def)
  have "\<And>l. l \<in> set xs \<Longrightarrow> head_page m1 l" using Cons.prems(2) by (simp add: head_page_frame [OF fr])
  from Cons.IH [OF _ this, of "if fp then a else a + block_pages m l" "if fp then b + block_pages m l else b"]
  obtain m2 where q: "fold (pin_page c i fp mapped) xs
      (if fp then a else a + block_pages m l, if fp then b + block_pages m l else b, m1) =
      (if fp then a else a + weight m (mset (l # xs)), if fp then b + weight m (mset (l # xs)) else b, m2)"
    "puts None m1 xs m2"
    using Cons.prems(1) by (auto simp: get_list_ptr_pin_frame [OF fr] weight_frame [OF fr] algebra_simps)
  have "puts None m (l # xs) m2" using puts_append [OF p(2) q(2)] by simp
  with p(1) q(1) show ?case by auto
qed auto

text \<open>
  The result of moving pages to the pin list: they are its new members and counted, in the length of the
  proactive list only when they come from another.
\<close>

definition counted :: "emp_mm \<Rightarrow> emp_mm \<Rightarrow> int \<Rightarrow> int \<Rightarrow> int \<Rightarrow> bool" where
  "counted m m' pro act pins \<longleftrightarrow>
     slru_page_len m' PROACTIVE_LIST = slru_page_len m PROACTIVE_LIST + pro
     \<and> slru_page_len m' ACTIVE_LIST = slru_page_len m ACTIVE_LIST + act
     \<and> slru_page_len m' INACTIVE_LIST = slru_page_len m INACTIVE_LIST
     \<and> cur_pin_pages m' = cur_pin_pages m + pins"

definition regroups :: "lru_list_type option \<Rightarrow> emp_mm \<Rightarrow> nat list \<Rightarrow> emp_mm \<Rightarrow> bool" where
  "regroups g m xs m' \<longleftrightarrow> lru_frame m m' \<and> released m xs m' \<and> group_members m' g = group_members m g + mset xs
     \<and> (\<forall>g'. g' \<noteq> g \<longrightarrow> group_members m' g' = group_members m g')
     \<and> (\<forall>U T. placed U (T + mset xs) m \<longrightarrow> placed U T m')"

lemma regroups_puts: "puts g m xs m' \<Longrightarrow> regroups g m xs m'"
  by (simp add: puts_def regroups_def quiet_def)

lemma lengths_only:
  fixes m m' :: emp_mm
  assumes "mm_gpas m' = mm_gpas m" and "mm_lps m' = mm_lps m" and "slru_lists m' = slru_lists m"
    and "pin_lists m' = pin_lists m" and "mm_possible_cpus m' = mm_possible_cpus m" and "mm_vcpus_len m' = mm_vcpus_len m"
  shows "lru_frame m m'" and "placed U T m' = placed U T m" and "group_members m' g = group_members m g"
    and "locked_at m' q = locked_at m q" and "lp_head m' = lp_head m"
proof -
  show f: "lru_frame m m'" "locked_at m' q = locked_at m q" using assms by (simp_all add: lru_frame_def locked_at_def)
  have f': "lru_frame m' m" using assms by (simp add: lru_frame_def)
  show "placed U T m' = placed U T m" using placed_cong [OF _ f(1)] placed_cong [OF _ f'] assms by metis
  show "group_members m' g = group_members m g"
    by (cases g) (simp_all add: members_def pin_members_def lru_frame_eqs(5) [OF f(1)] assms)
  show "lp_head m' = lp_head m" by (intro ext lru_frame_eqs(1) f)
qed

lemma move_to_pin_list_ok:
  assumes "get_list_ptr_pin m c = Some i" and "\<And>l. l \<in> set (tl_head t) \<Longrightarrow> head_page m l"
  shows "\<exists>m'. move_to_pin_list m c t fp mapped = Some m' \<and> regroups None m (tl_head t) m'
    \<and> counted m m' (if fp then 0 else weight m (mset (tl_head t))) 0 (weight m (mset (tl_head t)))"
proof -
  let ?W = "weight m (mset (tl_head t))"
  obtain m1 where p: "fold (pin_page c i fp mapped) (tl_head t) (0, 0, m) =
      (if fp then 0 else ?W, if fp then ?W else 0, m1)" "puts None m (tl_head t) m1"
    using pin_pages_ok [OF assms(1), of "tl_head t" fp mapped 0 0] assms(2) by auto
  define m2 where "m2 = (if fp then m1 else add_page_len PROACTIVE_LIST ?W m1)\<lparr>cur_pin_pages := cur_pin_pages m1 + ?W\<rparr>"
  have e: "move_to_pin_list m c t fp mapped = Some m2"
    by (simp add: move_to_pin_list_def assms(1) p(1) m2_def add_page_len_def Let_def)
  have eqs: "mm_gpas m2 = mm_gpas m1" "mm_lps m2 = mm_lps m1" "slru_lists m2 = slru_lists m1"
    "pin_lists m2 = pin_lists m1" "mm_possible_cpus m2 = mm_possible_cpus m1" "mm_vcpus_len m2 = mm_vcpus_len m1"
    by (simp_all add: m2_def add_page_len_def)
  note l = lengths_only [OF eqs]
  have q: "quiet m m1" using p(2) by (simp add: puts_def)
  have "counted m m2 (if fp then 0 else ?W) 0 ?W"
    by (simp add: counted_def m2_def add_page_len_def quiet_fields [OF q])
  moreover have "regroups None m (tl_head t) m2"
    using p(2) lru_frame_trans [OF quiet_frame [OF q] l(1)] by (simp add: puts_def regroups_def released_def l l(3) [of None, simplified])
  ultimately show ?thesis using e by blast
qed

section \<open>Promoting\<close>

lemma put_page_puts:
  assumes p: "p \<in> places m" and f: "\<And>d. fixed_part (f d) = fixed_part d" "\<And>d. gpa_lock (f d) = gpa_lock d"
  shows "puts (Some k) m [l] (emp_unlock_local_page l (upd_head f q (put_page k p l m)))"
proof (rule puts_update)
  note u = upd_head_keeps [OF f]
  show "quiet m (upd_head f q (put_page k p l m))" by (rule quiet_trans [OF put_page_simps(5) u(1)])
  show "group_members (upd_head f q (put_page k p l m)) (Some k) = add_mset l (group_members m (Some k))"
    by (simp only: u(2)) (simp add: put_page_members [OF p])
  show "group_members (upd_head f q (put_page k p l m)) g' = group_members m g'" if "g' \<noteq> Some k" for g'
    using that by (cases g') (simp_all only: u(2), simp_all add: put_page_members [OF p] pin_members_def put_page_simps)
  show "placed U T (upd_head f q (put_page k p l m))" if "placed U (add_mset l T) m" for U T
    by (simp only: u(3)) (rule put_page_placed [OF that p])
  show "locked_at (upd_head f q (put_page k p l m)) x = locked_at m x" for x
    by (simp only: u(4)) (simp add: locked_at_def put_page_simps)
qed

lemma upd_head_comp: "upd_head f q (upd_head f' q m) = upd_head (\<lambda>d. f (f' d)) q m"
  by (simp add: upd_head_def upd_gpa_def)

definition promote_page :: "int \<Rightarrow> bool \<Rightarrow> emp_mm \<Rightarrow> nat \<Rightarrow> emp_mm" where
  "promote_page cpu mapped m l = emp_unlock_local_page l (upd_head (\<lambda>g.
     let g = (snd (set_gpa_flags_if_unset g GPA_PROACTIVE_MASK))\<lparr>r_state := GPA_ACTIVE\<rparr>
     in if \<not> mapped then snd (set_gpa_flags_if_unset g (GPA_PREFETCHED_BLK_MASK OR GPA_PREFETCH_ONCE_MASK)) else g)
     (lp_gpa (mm_lps m l)) (put_page PROACTIVE_LIST (Slru_mru cpu) l m))"

lemma promote_gpas_eq:
  "promote_gpas gf m cpu t n mapped =
     (let m = add_page_len PROACTIVE_LIST n (foldl (promote_page cpu mapped) m (tl_head t))
      in if emp_list_len (slru_lists m PROACTIVE_LIST (Slru_mru cpu)) \<ge> MRU_QUEUE_DEPTH
         then flush_active_mru gf m PROACTIVE_LIST cpu MRU_QUEUE_DEPTH else m)"
proof -
  have "(\<lambda>m l. let gpa = lp_gpa (mm_lps m l);
                m = put_page_mru PROACTIVE_LIST cpu l m;
                m = upd_head (\<lambda>g. (snd (set_gpa_flags_if_unset g GPA_PROACTIVE_MASK))\<lparr>r_state := GPA_ACTIVE\<rparr>) gpa m;
                m = (if \<not> mapped then upd_head (\<lambda>g. snd (set_gpa_flags_if_unset g
                       (GPA_PREFETCHED_BLK_MASK OR GPA_PREFETCH_ONCE_MASK))) gpa m else m)
            in emp_unlock_local_page l m) = promote_page cpu mapped"
    by (cases mapped) (simp_all add: fun_eq_iff promote_page_def Let_def put_page_mru_eq upd_head_comp)
  then show ?thesis unfolding promote_gpas_def by simp
qed

lemma promote_pages_puts:
  assumes "cpu \<in> mm_cpus m"
  shows "puts (Some PROACTIVE_LIST) m xs (foldl (promote_page cpu mapped) m xs)"
  using assms
proof (induction xs rule: rev_induct)
  case (snoc l xs)
  let ?m = "foldl (promote_page cpu mapped) m xs"
  have ih: "puts (Some PROACTIVE_LIST) m xs ?m" using snoc by simp
  then have "places ?m = places m" using places_quiet by (auto simp: puts_def)
  then have p: "Slru_mru cpu \<in> places ?m" using snoc.prems by simp
  have "puts (Some PROACTIVE_LIST) ?m [l] (promote_page cpu mapped ?m l)"
    unfolding promote_page_def [of cpu mapped ?m] by (rule put_page_puts [OF p]) (simp_all add: Let_def)
  with ih show ?case using puts_append by simp
qed simp

lemma regroups_settled:
  assumes "regroups g m xs m1" and "settled m1 m2"
  shows "regroups g m xs m2"
proof -
  have "lru_frame m m2" using assms lru_frame_trans quiet_frame by (auto simp: regroups_def settled_def)
  with assms show ?thesis by (simp add: regroups_def settled_def released_def)
qed

lemma counted_settled: "counted m m1 a b c \<Longrightarrow> settled m1 m2 \<Longrightarrow> counted m m2 a b c"
  using quiet_fields(1,2) by (auto simp: counted_def settled_def)

lemma counted_trans: "counted a b x y z \<Longrightarrow> counted b c x' y' z' \<Longrightarrow> counted a c (x + x') (y + y') (z + z')"
  by (simp add: counted_def)

lemma add_page_len_only:
  "lru_frame m (add_page_len k n m)" "placed U T (add_page_len k n m) = placed U T m"
  "group_members (add_page_len k n m) g = group_members m g"
  "members (add_page_len k n m) k' = members m k'" "pin_members (add_page_len k n m) = pin_members m"
  "locked_at (add_page_len k n m) q = locked_at m q" "lp_head (add_page_len k n m) = lp_head m"
  "mm_cpus (add_page_len k n m) = mm_cpus m"
  using lengths_only [of "add_page_len k n m" m] lengths_only(3) [of "add_page_len k n m" m "Some k'"]
    lengths_only(3) [of "add_page_len k n m" m None]
  by (simp_all add: add_page_len_def mm_cpus_def)

lemma promote_gpas_ok:
  assumes c: "cpu \<in> mm_cpus m"
  shows "regroups (Some PROACTIVE_LIST) m (tl_head t) (promote_gpas gf m cpu t n mapped)
    \<and> counted m (promote_gpas gf m cpu t n mapped) n 0 0"
proof -
  let ?m1 = "foldl (promote_page cpu mapped) m (tl_head t)"
  let ?m2 = "add_page_len PROACTIVE_LIST n ?m1"
  have p: "puts (Some PROACTIVE_LIST) m (tl_head t) ?m1" by (rule promote_pages_puts [OF c])
  have q: "quiet m ?m1" using p by (simp add: puts_def)
  have r: "regroups (Some PROACTIVE_LIST) m (tl_head t) ?m2"
    using p lru_frame_trans [OF quiet_frame [OF q] add_page_len_only(1)]
    by (simp add: puts_def regroups_def released_def add_page_len_only)
  have k: "counted m ?m2 n 0 0" by (simp add: counted_def add_page_len_def quiet_fields [OF q])
  have c2: "cpu \<in> mm_cpus ?m2" using c by (simp add: add_page_len_only lru_frame_eqs(4) [OF quiet_frame [OF q]])
  have "settled ?m2 (promote_gpas gf m cpu t n mapped)"
    unfolding promote_gpas_eq using flush_active_mru_settled [OF c2] by (simp add: Let_def)
  then show ?thesis using regroups_settled [OF r] counted_settled [OF k] by simp
qed

section \<open>Flushing touches only listed pages\<close>

lemma flush_scan_lps: "l' \<notin> set ls \<Longrightarrow> mm_lps (snd (flush_scan k p ls to_global m)) l' = mm_lps m l'"
proof (induction k p ls to_global m rule: flush_scan.induct)
  case (2 k p l ls to_global m)
  obtain r m1 where t: "emp_trylock_local_page m l = (r, m1)" by (metis surj_pair)
  have "mm_lps m1 = mm_lps m" using t by (auto simp: trylock_local_page upd_head_def split: if_splits)
  then show ?case
    using 2(1) [OF t [symmetric]] 2(2) [OF t [symmetric]] 2(3)
    by (auto simp: t page_ops split: option.split)
qed simp

lemma put_all_lps:
  "l' \<notin> set xs \<Longrightarrow> mm_lps (foldl (\<lambda>m l. emp_unlock_local_page l (put_page k p l m)) m xs) l' = mm_lps m l'"
proof (induction xs rule: rev_induct)
  case (snoc l xs)
  then show ?case
    by (cases p) (simp_all add: unlock_local_page upd_head_def put_page_def page_ops)
qed simp

lemma flush_active_mru_lps:
  assumes "c \<in> mm_cpus m" and "l \<notin> set (el_head (slru_lists m k (Slru_mru c)))"
  shows "mm_lps (flush_active_mru gf m k c n) l = mm_lps m l"
proof -
  let ?ls = "el_head (slru_lists m k (Slru_mru c))"
  obtain t1 m1 where s1: "flush_scan k (Slru_mru c) ?ls init_temp_list m = (t1, m1)"
    by (metis surj_pair)
  have "Slru_mru c \<in> places m" using assms(1) by simp
  then have sub: "set (tl_head t1) \<subseteq> set ?ls" using flush_scan_ok [OF s1] by (auto simp: place_flag_def)
  then have n: "l \<notin> set (tl_head t1)" using assms(2) by auto
  have "mm_lps m1 l = mm_lps m l" using flush_scan_lps [OF assms(2), of k "Slru_mru c" init_temp_list m] by (simp add: s1)
  then show ?thesis
    using put_all_lps [OF n, of k Slru_global m1] put_all_lps [OF n, of k "Slru_mru c" m1]
    by (simp add: flush_active_mru_def s1 put_page_mru_eq put_page_global_eq)
qed

section \<open>Adding\<close>

definition gpa_page :: "emp_mm \<Rightarrow> gpa_ptr \<Rightarrow> nat" where
  "gpa_page m g = the (local_page (mm_gpas m (emp_get_block_head (mm_gpas m) g)))"

definition pinned_page :: "emp_mm \<Rightarrow> nat \<Rightarrow> bool" where
  "pinned_page m l \<longleftrightarrow> is_gpa_flags_set (mm_gpas m (lp_gpa (mm_lps m l))) GPA_PINNED_MASK"

text \<open>The head of each block to add has a page, and no page comes twice.\<close>

definition adds_ok :: "emp_mm \<Rightarrow> gpa_ptr list \<Rightarrow> bool" where
  "adds_ok m gs \<longleftrightarrow> distinct (map (gpa_page m) gs)
     \<and> (\<forall>g \<in> set gs. lp_gpa (mm_lps m (gpa_page m g)) = emp_get_block_head (mm_gpas m) g)"

lemma bit_is_flags: "is_gpa_flags_set g (push_bit n 1) \<longleftrightarrow> bit (gpa_flags g) n"
  by (simp add: is_gpa_flags_set_def bit_iff_and_push_bit_not_eq_0)

lemma set_proactive_pinned:
  "is_gpa_flags_set (snd (set_gpa_flags_if_unset g GPA_PROACTIVE_MASK)) GPA_PINNED_MASK = is_gpa_flags_set g GPA_PINNED_MASK"
proof -
  have "bit (gpa_flags (snd (set_gpa_flags_if_unset g GPA_PROACTIVE_MASK))) 21 = bit (gpa_flags g) 21"
    by (auto simp: set_gpa_flags_if_unset_def GPA_PROACTIVE_MASK_def bit_or_iff bit_push_bit_iff bit_1_iff)
  then show ?thesis unfolding GPA_PINNED_MASK_def bit_is_flags .
qed

definition added_lp :: "emp_mm \<Rightarrow> int \<Rightarrow> nat \<Rightarrow> local_page" where
  "added_lp m c l = (if pinned_page m l then set_local_page_cpu_pin (mm_lps m l) c
     else set_local_page_cpu_list (mm_lps m l) c LOCAL_PAGE_ON_MRU)"

lemma add_gpa_step:
  assumes "lp_gpa (mm_lps m (gpa_page m g)) = emp_get_block_head (mm_gpas m) g" and "head_page m (gpa_page m g)"
    and "add_gpa ty c g (tm, nm, tp, np, m) = (tm', nm', tp', np', m')"
  defines "l \<equiv> gpa_page m g"
  shows "quiet m m'" and "slru_lists m' = slru_lists m" and "pin_lists m' = pin_lists m"
    and "mm_lps m' = (mm_lps m)(l := added_lp m c l)" and "locked_at m' q = locked_at m q"
    and "is_gpa_flags_set (mm_gpas m' q) GPA_PINNED_MASK = is_gpa_flags_set (mm_gpas m q) GPA_PINNED_MASK"
    and "if pinned_page m l then tm' = tm \<and> nm' = nm \<and> tp' = temp_list_add_tail l tp \<and> np' = np + block_pages m l
         else tp' = tp \<and> np' = np \<and> tm' = temp_list_add_tail l tm \<and> nm' = nm + block_pages m l"
proof -
  let ?h = "emp_get_block_head (mm_gpas m) g"
  define f1 :: "emp_gpa \<Rightarrow> emp_gpa" where "f1 = (if \<not> is_unmapped_active (mm_gpas m ?h) then (\<lambda>d. d\<lparr>r_state := GPA_ACTIVE\<rparr>) else id)"
  define f2 :: "emp_gpa \<Rightarrow> emp_gpa" where "f2 = (if is_gpa_flags_set (mm_gpas m ?h) GPA_PINNED_MASK \<or> ty = PROACTIVE_LIST
    then (\<lambda>d. snd (set_gpa_flags_if_unset d GPA_PROACTIVE_MASK)) else id)"
  have id: "upd_head id q x = x" for q x by (simp add: upd_head_def upd_gpa_def)
  have fl: "gpa_flags (f1 d) = gpa_flags d" "fixed_part (f1 d) = fixed_part d" "gpa_lock (f1 d) = gpa_lock d"
    "fixed_part (f2 d) = fixed_part d" "gpa_lock (f2 d) = gpa_lock d" "local_page (f1 d) = local_page d"
    "block_order (f1 d) = block_order d" for d
    by (simp_all add: f1_def f2_def)
  have bo: "gpa_block_size (f1 d) = gpa_block_size d" "gpa_block_size (f2 (f1 d)) = gpa_block_size d" for d
    using fl(4) [of "f1 d"] fl(7) by (simp_all add: gpa_block_size_def fixed_part_def)
  have fp: "is_gpa_flags_set (f1 d) F = is_gpa_flags_set d F"
    "is_gpa_flags_set (f2 d) GPA_PINNED_MASK = is_gpa_flags_set d GPA_PINNED_MASK" for d F
    by (simp add: is_gpa_flags_set_def fl) (simp add: f2_def set_proactive_pinned)
  have pp: "pinned_page m l \<longleftrightarrow> is_gpa_flags_set (mm_gpas m ?h) GPA_PINNED_MASK"
    using assms(1) by (simp add: pinned_page_def l_def)
  have bp: "block_pages m l = int (gpa_block_size (mm_gpas m ?h))"
    using block_pages_head [OF assms(2)] assms(1) by (simp add: l_def)
  define m2 where "m2 = upd_head f2 ?h (upd_head f1 ?h m)"
  have m1: "(if \<not> is_unmapped_active (mm_gpas m ?h) then upd_head (\<lambda>d. d\<lparr>r_state := GPA_ACTIVE\<rparr>) ?h m else m) = upd_head f1 ?h m"
    by (simp add: f1_def id)
  have at: "mm_gpas (upd_head f1 ?h m) ?h = f1 (mm_gpas m ?h)" by (simp add: upd_head_def upd_gpa_def)
  have lps2: "mm_lps m2 = mm_lps m" by (simp add: m2_def upd_head_def)
  have l: "l = the (local_page (mm_gpas m ?h))" by (simp add: l_def gpa_page_def)
  have r: "m' = upd_lp (\<lambda>lp. if pinned_page m l then set_local_page_cpu_pin lp c
      else set_local_page_cpu_list lp c LOCAL_PAGE_ON_MRU) l m2
    \<and> (if pinned_page m l then tm' = tm \<and> nm' = nm \<and> tp' = temp_list_add_tail l tp \<and> np' = np + block_pages m l
         else tp' = tp \<and> np' = np \<and> tm' = temp_list_add_tail l tm \<and> nm' = nm + block_pages m l)"
    using assms(3) unfolding add_gpa_def prod.case Let_def m1 at pp bp
    by (auto simp: m2_def fp fl l bo f2_def id split: if_splits)
  note r' = conjunct1 [OF r]
  show "if pinned_page m l then tm' = tm \<and> nm' = nm \<and> tp' = temp_list_add_tail l tp \<and> np' = np + block_pages m l
         else tp' = tp \<and> np' = np \<and> tm' = temp_list_add_tail l tm \<and> nm' = nm + block_pages m l" by (rule conjunct2 [OF r])
  have q2: "quiet m m2" unfolding m2_def
    by (rule quiet_trans [OF upd_head_simps(5) upd_head_simps(5)]) (simp_all add: fl)
  show "slru_lists m' = slru_lists m" "pin_lists m' = pin_lists m" by (simp_all add: r' upd_lp_def m2_def upd_head_simps)
  show "mm_lps m' = (mm_lps m)(l := added_lp m c l)" by (simp add: r' upd_lp_def lps2 added_lp_def)
  have "quiet m2 m'" by (simp add: r' quiet_def upd_lp_def lru_frame_def)
  with q2 show "quiet m m'" by (rule quiet_trans)
  show "locked_at m' q = locked_at m q" by (simp add: locked_at_def r' upd_lp_def m2_def upd_head_def upd_gpa_def fl)
  show "is_gpa_flags_set (mm_gpas m' q) GPA_PINNED_MASK = is_gpa_flags_set (mm_gpas m q) GPA_PINNED_MASK"
    by (simp add: r' upd_lp_def m2_def upd_head_def upd_gpa_def fp)
qed

lemma emp_get_block_head_frame: "lru_frame m m' \<Longrightarrow> emp_get_block_head (mm_gpas m') g = emp_get_block_head (mm_gpas m) g"
  by (simp add: emp_get_block_head_def lru_frame_def fixed_part_def)

lemma gpa_page_frame: "lru_frame m m' \<Longrightarrow> gpa_page m' g = gpa_page m g"
  by (simp add: gpa_page_def emp_get_block_head_frame) (simp add: lru_frame_def fixed_part_def)

lemma adds_ok_frame: "lru_frame m m' \<Longrightarrow> adds_ok m' gs = adds_ok m gs"
proof -
  assume f: "lru_frame m m'"
  then have "lp_gpa (mm_lps m' l) = lp_gpa (mm_lps m l)" for l by (simp add: lru_frame_def)
  moreover have "gpa_page m' = gpa_page m" by (rule ext) (rule gpa_page_frame [OF f])
  ultimately show "adds_ok m' gs = adds_ok m gs" by (simp add: adds_ok_def emp_get_block_head_frame [OF f])
qed

definition added :: "int \<Rightarrow> nat list \<Rightarrow> emp_mm \<Rightarrow> emp_mm \<Rightarrow> bool" where
  "added c xs m m' \<longleftrightarrow> quiet m m' \<and> slru_lists m' = slru_lists m \<and> pin_lists m' = pin_lists m
     \<and> (\<forall>l. mm_lps m' l = (if l \<in> set xs then added_lp m c l else mm_lps m l))
     \<and> (\<forall>q. locked_at m' q = locked_at m q)
     \<and> (\<forall>q. is_gpa_flags_set (mm_gpas m' q) GPA_PINNED_MASK = is_gpa_flags_set (mm_gpas m q) GPA_PINNED_MASK)"

lemma add_gpas_fold:
  assumes "adds_ok m gs" and "\<And>g. g \<in> set gs \<Longrightarrow> head_page m (gpa_page m g)"
    and "fold (add_gpa ty c) gs (tm, nm, tp, np, m) = (tm', nm', tp', np', m')"
  shows "added c (map (gpa_page m) gs) m m'
    \<and> tl_head tm' = tl_head tm @ filter (\<lambda>l. \<not> pinned_page m l) (map (gpa_page m) gs)
    \<and> tl_head tp' = tl_head tp @ filter (pinned_page m) (map (gpa_page m) gs)
    \<and> (temp_list_ok tm \<longrightarrow> temp_list_ok tm') \<and> (temp_list_ok tp \<longrightarrow> temp_list_ok tp')
    \<and> nm' = nm + weight m (mset (filter (\<lambda>l. \<not> pinned_page m l) (map (gpa_page m) gs)))
    \<and> np' = np + weight m (mset (filter (pinned_page m) (map (gpa_page m) gs)))"
  using assms
proof (induction gs arbitrary: m tm nm tp np)
  case Nil
  then show ?case by (simp add: added_def)
next
  case (Cons g gs)
  let ?l = "gpa_page m g"
  obtain tm1 nm1 tp1 np1 m1 where s: "add_gpa ty c g (tm, nm, tp, np, m) = (tm1, nm1, tp1, np1, m1)"
    by (metis prod_cases5)
  have g: "lp_gpa (mm_lps m ?l) = emp_get_block_head (mm_gpas m) g" "adds_ok m gs" "?l \<notin> gpa_page m ` set gs"
    using Cons.prems(1) by (simp_all add: adds_ok_def)
  have hp: "head_page m ?l" using Cons.prems(2) by simp
  note st = add_gpa_step [OF g(1) hp s]
  have f: "lru_frame m m1" using st(1) by (simp add: quiet_def)
  have gp: "gpa_page m1 = gpa_page m" by (rule ext) (rule gpa_page_frame [OF f])
  have pg: "pinned_page m1 l = pinned_page m l" for l
    using f by (simp add: pinned_page_def st(6) lru_frame_def)
  have pgf: "pinned_page m1 = pinned_page m" by (rule ext) (rule pg)
  have t: "fold (add_gpa ty c) gs (tm1, nm1, tp1, np1, m1) = (tm', nm', tp', np', m')"
    using Cons.prems(3) by (simp add: s)
  have hps: "head_page m (gpa_page m g)" if "g \<in> set gs" for g using Cons.prems(2) that by simp
  note ih = Cons.IH [of m1 tm1 nm1 tp1 np1, unfolded adds_ok_frame [OF f] head_page_frame [OF f] gp pgf weight_frame [OF f],
      OF g(2) hps t]
  have ad: "added c (map (gpa_page m) gs) m1 m'" using ih by blast
  have al: "added_lp m1 c l = added_lp m c l" if "l \<noteq> ?l" for l using that by (simp add: added_lp_def pg st(4))
  have lp: "mm_lps m' l = (if l \<in> set (map (gpa_page m) (g # gs)) then added_lp m c l else mm_lps m l)" for l
    using ad g(3) st(4) al [of l] by (cases "l = ?l") (simp_all add: added_def)
  have "quiet m m'" using quiet_trans [OF st(1)] ad by (simp add: added_def)
  then have "added c (map (gpa_page m) (g # gs)) m m'"
    using ad lp st(2,3,5,6) by (simp add: added_def)
  with ih st(7) show ?case
    by (cases "pinned_page m ?l") (simp_all, simp_all add: temp_list_add_tail_def temp_list_ok_def)
qed

lemma added_all_listed: "added c xs m m' \<Longrightarrow> all_listed m' = all_listed m \<and> group_members m' g = group_members m g"
  using places_quiet [of m m'] quiet_fields(4) [of m m']
  by (cases g) (simp_all add: added_def all_listed_def members_def pin_members_def)

lemma placed_added:
  assumes pl: "placed U (T + mset xs) m" and ad: "added c xs m m'"
  shows "placed (U + mset xs) T m'"
proof (rule placedI)
  have f: "lru_frame m m'" "slru_lists m' = slru_lists m" "pin_lists m' = pin_lists m"
    using ad by (simp_all add: added_def quiet_def)
  have al: "all_listed m' = all_listed m" using added_all_listed [OF ad] by simp
  have P: "mm_possible_cpus m' = mm_possible_cpus m" "places m' = places m"
    using f(1) lru_frame_eqs(5) [OF f(1)] by (simp_all add: lru_frame_def)
  have out: "mm_lps m' l = mm_lps m l" if "l \<in># all_listed m + T" for l
  proof -
    have "count (mset xs) l + count (all_listed m + T) l \<le> 1" using placedD(3) [OF pl, of l] by simp
    from count_excl [OF this that] have "l \<notin> set xs" by simp
    then show ?thesis using ad by (simp add: added_def)
  qed
  show "emp_list_ok (slru_lists m' k p)" "emp_list_ok (pin_lists m' i)" for k p i
    using placedD(1,2) [OF pl] by (simp_all add: f)
  show "count (all_listed m' + T) l + count (U + mset xs) l \<le> 1" for l
    using placedD(3) [OF pl, of l] by (simp add: al)
  show "head_page m' l" if "l \<in># all_listed m' + T" for l
    using placedD(4) [OF pl, of l] that by (auto simp: head_page_frame [OF f(1)] al)
  show "head_page m' l" if "l \<in># U + mset xs" for l
    using placedD(4,8) [OF pl, of l] that by (auto simp: head_page_frame [OF f(1)])
  show "lp_at (mm_lps m' l) p" if "p \<in> places m'" "l \<in> set (el_head (slru_lists m' k p))" for k p l
  proof -
    have "l \<in># all_listed m + T" using that in_all_listed [of l m] by (auto simp: f P)
    then show ?thesis using placedD(5) [OF pl] that by (simp add: out f P)
  qed
  show "lp_pinned_at (mm_lps m' l) (int i - int (mm_possible_cpus m'))"
    if "i < mm_possible_cpus m'" "l \<in> set (el_head (pin_lists m' i))" for i l
  proof -
    have "l \<in># all_listed m + T" using that in_all_listed [of l m] by (auto simp: f P)
    then show ?thesis using placedD(6) [OF pl] that by (simp add: out f P)
  qed
  show "list_flags (mm_lps m' l) = {}" if "l \<in># T" for l
    using placedD(7) [OF pl, of l] that out [of l] by simp
qed

lemma placed_join:
  assumes pl: "placed (U + mset ys) T m" and fr: "lru_frame m m'" and al: "all_listed m' = all_listed m + mset ys"
    and lps: "mm_lps m' = mm_lps m"
    and lists: "\<And>k p. slru_lists m' k p = slru_lists m k p \<or> emp_list_ok (slru_lists m' k p)
      \<and> set (el_head (slru_lists m' k p)) = set (el_head (slru_lists m k p)) \<union> set ys \<and> (\<forall>y \<in> set ys. lp_at (mm_lps m y) p)"
    and pins: "\<And>i. pin_lists m' i = pin_lists m i \<or> emp_list_ok (pin_lists m' i)
      \<and> set (el_head (pin_lists m' i)) = set (el_head (pin_lists m i)) \<union> set ys
      \<and> (\<forall>y \<in> set ys. lp_pinned_at (mm_lps m y) (int i - int (mm_possible_cpus m)))"
  shows "placed U T m'"
proof (rule placedI)
  have P: "mm_possible_cpus m' = mm_possible_cpus m" "places m' = places m"
    using fr lru_frame_eqs(5) [OF fr] by (simp_all add: lru_frame_def)
  show "emp_list_ok (slru_lists m' k p)" for k p using lists [of k p] placedD(1) [OF pl, of k p] by auto
  show "emp_list_ok (pin_lists m' i)" for i using pins [of i] placedD(2) [OF pl, of i] by auto
  show "count (all_listed m' + T) l + count U l \<le> 1" for l
    using placedD(3) [OF pl, of l] by (simp add: al)
  show "head_page m' l" if "l \<in># all_listed m' + T" for l
    using placedD(4,8) [OF pl, of l] that by (auto simp: head_page_frame [OF fr] al)
  show "head_page m' l" if "l \<in># U" for l
    using placedD(8) [OF pl, of l] that by (simp add: head_page_frame [OF fr])
  show "lp_at (mm_lps m' l) p" if "p \<in> places m'" "l \<in> set (el_head (slru_lists m' k p))" for k p l
    using placedD(5) [OF pl, of p l k] that lists [of k p] by (auto simp: P lps)
  show "lp_pinned_at (mm_lps m' l) (int i - int (mm_possible_cpus m'))"
    if "i < mm_possible_cpus m'" "l \<in> set (el_head (pin_lists m' i))" for i l
    using placedD(6) [OF pl, of i l] that pins [of i] by (auto simp: P lps)
  show "list_flags (mm_lps m' l) = {}" if "l \<in># T" for l
    using placedD(7) [OF pl, of l] that by (simp add: lps)
qed

lemma splice_list_ok:
  assumes "emp_list_ok x" and "temp_list_ok t"
  shows "emp_list_ok (snd (emp_list_splice_tail t x))" and "el_head (snd (emp_list_splice_tail t x)) = el_head x @ tl_head t"
  using emp_list_splice_tail_ok [OF assms] by simp_all

text \<open>A list of pages not yet listed joins the MRU buffer that their flags name.\<close>

definition joins :: "lru_list_type option \<Rightarrow> emp_mm \<Rightarrow> nat list \<Rightarrow> emp_mm \<Rightarrow> bool" where
  "joins g m ys m' \<longleftrightarrow> lru_frame m m' \<and> (\<forall>q. locked_at m' q = locked_at m q)
     \<and> group_members m' g = group_members m g + mset ys
     \<and> (\<forall>g'. g' \<noteq> g \<longrightarrow> group_members m' g' = group_members m g')"

lemma joins_Some:
  assumes "joins (Some k) m ys m'"
  shows "members m' k' = members m k' + (if k' = k then mset ys else {#})" and "pin_members m' = pin_members m"
  using assms unfolding joins_def by (auto dest: spec [of _ "Some k'"] spec [of _ None])

lemma joins_None:
  assumes "joins None m ys m'"
  shows "members m' k = members m k" and "pin_members m' = pin_members m + mset ys"
  using assms unfolding joins_def by (auto dest: spec [of _ "Some k"])

lemma splice_mru_ok:
  assumes pl: "placed (U + mset (tl_head t)) T m" and c: "c \<in> mm_cpus m" and t: "temp_list_ok t"
    and at: "\<And>y. y \<in> set (tl_head t) \<Longrightarrow> lp_at (mm_lps m y) (Slru_mru c)"
  shows "joins (Some k) m (tl_head t) (splice_mru gf k c t n m)" and "placed U T (splice_mru gf k c t n m)"
    and "slru_page_len (splice_mru gf k c t n m) = (slru_page_len m)(k := slru_page_len m k + n)"
    and "cur_pin_pages (splice_mru gf k c t n m) = cur_pin_pages m"
    and "mm_gpas (splice_mru gf k c t n m) = mm_gpas m"
    and "\<And>l. l \<in># U \<Longrightarrow> mm_lps (splice_mru gf k c t n m) l = mm_lps m l"
proof -
  let ?p = "Slru_mru c"
  define m1 where "m1 = upd_slru k ?p (\<lambda>l. snd (emp_list_splice_tail t l)) m"
  define m2 where "m2 = (if MRU_BUF_FULL MRU_QUEUE_DEPTH (emp_list_len (slru_lists m1 k ?p))
    then flush_active_mru gf m1 k c MRU_QUEUE_DEPTH else m1)"
  have e: "splice_mru gf k c t n m = add_page_len k n m2" by (simp add: splice_mru_def m1_def m2_def Let_def)
  have q1: "quiet m m1" by (simp add: m1_def quiet_def upd_slru_def lru_frame_def)
  have f1: "lru_frame m m1" using q1 by (simp add: quiet_def)
  have l1: "slru_lists m1 = (slru_lists m)(k := (slru_lists m k)(?p := snd (emp_list_splice_tail t (slru_lists m k ?p))))"
    "pin_lists m1 = pin_lists m" "mm_lps m1 = mm_lps m" "mm_gpas m1 = mm_gpas m" "mm_possible_cpus m1 = mm_possible_cpus m"
    by (simp_all add: m1_def upd_slru_def)
  have pc: "?p \<in> places m" using c by simp
  note mu = members_upd [OF pc lru_frame_eqs(5) [OF f1] l1(1)]
  have mem: "members m1 k = members m k + mset (tl_head t)" "\<And>k'. k' \<noteq> k \<Longrightarrow> members m1 k' = members m k'"
    "pin_members m1 = pin_members m"
    using mu by (simp_all add: pin_members_def l1)
  have j1: "joins (Some k) m (tl_head t) m1"
    unfolding joins_def
  proof (intro conjI allI impI)
    show "group_members m1 g' = group_members m g'" if "g' \<noteq> Some k" for g'
      using that mem by (cases g') simp_all
  qed (simp_all add: f1 mem locked_at_def l1)
  have "all_listed m1 = all_listed m + mset (tl_head t)"
    using mem by (cases k) (simp_all add: all_listed_def)
  then have p1: "placed U T m1"
    by (rule placed_join [OF pl f1]) (use splice_list_ok [OF placedD(1) [OF pl] t] at in \<open>simp_all add: l1\<close>)
  have c1: "c \<in> mm_cpus m1" using c lru_frame_eqs(4) [OF f1] by simp
  have s2: "settled m1 m2" using flush_active_mru_settled [OF c1] by (simp add: m2_def)
  have q2: "quiet m1 m2" using s2 by (simp add: settled_def)
  have g2: "mm_gpas m2 = mm_gpas m1" using flush_active_mru_same [OF c1] by (simp add: m2_def)
  have f2: "lru_frame m (add_page_len k n m2)"
    using lru_frame_trans [OF f1 lru_frame_trans [OF quiet_frame [OF q2] add_page_len_only(1)]] .
  show "joins (Some k) m (tl_head t) (splice_mru gf k c t n m)"
    using j1 s2 f2 spec [OF conjunct1 [OF conjunct2 [OF s2 [unfolded settled_def]]], of "Some k"]
    by (simp add: joins_def settled_def e add_page_len_only)
  show "placed U T (splice_mru gf k c t n m)"
    using p1 s2 by (simp add: e add_page_len_only settled_def)
  show "slru_page_len (splice_mru gf k c t n m) = (slru_page_len m)(k := slru_page_len m k + n)"
    "cur_pin_pages (splice_mru gf k c t n m) = cur_pin_pages m"
    by (simp_all add: e add_page_len_def quiet_fields [OF q2] quiet_fields [OF q1])
  show "mm_gpas (splice_mru gf k c t n m) = mm_gpas m" by (simp add: e add_page_len_def g2 l1)
  show "mm_lps (splice_mru gf k c t n m) l = mm_lps m l" if u: "l \<in># U" for l
  proof -
    have "l \<notin># all_listed m1 + T" by (rule count_excl [OF placedD(3) [OF p1] u])
    then have "l \<notin> set (el_head (slru_lists m1 k (Slru_mru c)))" using in_all_listed [of l m1] c1 by auto
    from flush_active_mru_lps [OF c1 this] show ?thesis by (simp add: e add_page_len_def m2_def l1)
  qed
qed

lemma splice_pin_ok:
  assumes pl: "placed (U + mset (tl_head t)) T m" and c: "get_list_ptr_pin m c = Some i" and t: "temp_list_ok t"
    and at: "\<And>y. y \<in> set (tl_head t) \<Longrightarrow> lp_pinned_at (mm_lps m y) c"
  shows "\<exists>m'. splice_pin c t n m = Some m' \<and> joins None m (tl_head t) m' \<and> placed U T m'
    \<and> counted m m' n 0 n \<and> mm_gpas m' = mm_gpas m"
proof -
  define m1 where "m1 = m\<lparr>pin_lists := (pin_lists m)(i := snd (emp_list_splice_tail t (pin_lists m i)))\<rparr>"
  define m2 where "m2 = (add_page_len PROACTIVE_LIST n m1)\<lparr>cur_pin_pages := cur_pin_pages m1 + n\<rparr>"
  have e: "splice_pin c t n m = Some m2"
    by (simp add: splice_pin_def c m1_def m2_def Let_def add_page_len_def)
  have ii: "i < mm_possible_cpus m" "c = int i - int (mm_possible_cpus m)"
    using c by (auto simp: get_list_ptr_pin_def PCPU_ID_def Let_def split: if_splits)
  have f1: "lru_frame m m1" by (simp add: m1_def lru_frame_def)
  have "(\<Sum>j<mm_possible_cpus m. mset (el_head (pin_lists m1 j))) =
      (\<Sum>j<mm_possible_cpus m. mset (if j = i then el_head (pin_lists m i) @ tl_head t else el_head (pin_lists m j)))"
    by (rule sum.cong) (simp_all add: m1_def splice_list_ok [OF placedD(2) [OF pl] t])
  then have pm: "pin_members m1 = pin_members m + mset (tl_head t)"
    using sum_upd_mset [of "{..<mm_possible_cpus m}" i "el_head (pin_lists m i) @ tl_head t" "\<lambda>j. el_head (pin_lists m j)"] ii(1)
    by (simp add: pin_members_def m1_def)
  have mm: "members m1 k = members m k" for k
    by (rule members_cong [OF lru_frame_eqs(5) [OF f1]]) (simp add: m1_def)
  have "all_listed m1 = all_listed m + mset (tl_head t)" by (simp add: all_listed_def pm mm)
  then have p1: "placed U T m1"
    by (rule placed_join [OF pl f1])
      (use splice_list_ok [OF placedD(2) [OF pl] t] at ii(2) in \<open>simp_all add: m1_def\<close>)
  have eqs: "mm_gpas m2 = mm_gpas m1" "mm_lps m2 = mm_lps m1" "slru_lists m2 = slru_lists m1"
    "pin_lists m2 = pin_lists m1" "mm_possible_cpus m2 = mm_possible_cpus m1" "mm_vcpus_len m2 = mm_vcpus_len m1"
    by (simp_all add: m2_def add_page_len_def)
  note l = lengths_only [OF eqs]
  have "joins None m (tl_head t) m2"
    unfolding joins_def
  proof (intro conjI allI impI)
    show "lru_frame m m2" by (rule lru_frame_trans [OF f1 l(1)])
    show "locked_at m2 q = locked_at m q" for q by (simp add: l(4)) (simp add: locked_at_def m1_def)
    show "group_members m2 g' = group_members m g'" if "g' \<noteq> None" for g'
      using that mm by (cases g') (simp_all only: l(3), simp_all)
    show "group_members m2 None = group_members m None + mset (tl_head t)" by (simp only: l(3)) (simp add: pm)
  qed
  moreover have "counted m m2 n 0 n" by (simp add: counted_def m2_def m1_def add_page_len_def)
  moreover have "mm_gpas m2 = mm_gpas m" by (simp add: eqs m1_def)
  ultimately show ?thesis using e p1 l(2) by blast
qed

lemma weight_pos: "weight m (mset xs) > 0 \<longleftrightarrow> xs \<noteq> []" and weight_nonneg: "0 \<le> weight m (mset xs)"
proof -
  have b: "block_pages m l > 0" for l by (simp add: block_pages_def gpa_block_size_def)
  show n: "0 \<le> weight m (mset xs)"
  proof (induction xs)
    case (Cons l xs)
    then show ?case using b [of l] by simp
  qed simp
  show "weight m (mset xs) > 0 \<longleftrightarrow> xs \<noteq> []"
  proof (cases xs)
    case (Cons l ys)
    have "0 \<le> weight m (mset ys)"
    proof (induction ys)
      case (Cons l xs)
      then show ?case using b [of l] by simp
    qed simp
    then show ?thesis using b [of l] Cons by simp
  qed simp
qed

lemma added_lp_at:
  "list_flags (mm_lps m l) = {} \<Longrightarrow> pinned_page m l \<Longrightarrow> lp_pinned_at (added_lp m c l) c"
  "list_flags (mm_lps m l) = {} \<Longrightarrow> \<not> pinned_page m l \<Longrightarrow> lp_at (added_lp m c l) (Slru_mru c)"
  by (simp_all add: added_lp_def lp_pinned_at_def lp_at_def LOCAL_PAGE_ON_MRU_def)

text \<open>
  Where a new block goes: to the pin list when it is pinned, else to the list asked for; the pin list is
  there for the cpus that are not KVM threads.
\<close>

definition new_pins :: "emp_mm \<Rightarrow> gpa_ptr list \<Rightarrow> nat list" where
  "new_pins m gs = filter (pinned_page m) (map (gpa_page m) gs)"

definition new_mrus :: "emp_mm \<Rightarrow> gpa_ptr list \<Rightarrow> nat list" where
  "new_mrus m gs = filter (\<lambda>l. \<not> pinned_page m l) (map (gpa_page m) gs)"

lemma new_pages_mset: "mset (new_pins m gs) + mset (new_mrus m gs) = mset (map (gpa_page m) gs)"
  by (simp add: new_pins_def new_mrus_def mset_filter)

lemma add_gpas_to_active_list_ok:
  assumes pl: "placed U (T + mset (map (gpa_page m) gs)) m" and ok: "adds_ok m gs" and c: "c \<in> mm_cpus m"
    and pin: "new_pins m gs = [] \<or> get_list_ptr_pin m c \<noteq> None"
  shows "\<exists>m'. add_gpas_to_active_list gf ty m c gs = Some (weight m (mset (map (gpa_page m) gs)), m')
    \<and> lru_frame m m' \<and> (\<forall>q. locked_at m' q = locked_at m q) \<and> placed U T m'
    \<and> members m' ty = members m ty + mset (new_mrus m gs)
    \<and> (\<forall>k. k \<noteq> ty \<longrightarrow> members m' k = members m k)
    \<and> pin_members m' = pin_members m + mset (new_pins m gs)
    \<and> slru_page_len m' = (let len = (slru_page_len m)(ty := slru_page_len m ty + weight m (mset (new_mrus m gs)))
        in len(PROACTIVE_LIST := len PROACTIVE_LIST + weight m (mset (new_pins m gs))))
    \<and> cur_pin_pages m' = cur_pin_pages m + weight m (mset (new_pins m gs))"
proof -
  let ?xs = "map (gpa_page m) gs" and ?pins = "new_pins m gs" and ?mrus = "new_mrus m gs"
  obtain tm nm tp np m1 where f: "fold (add_gpa ty c) gs (init_temp_list, 0, init_temp_list, 0, m) = (tm, nm, tp, np, m1)"
    by (metis prod_cases5)
  have hp: "head_page m (gpa_page m g)" if "g \<in> set gs" for g using placedD(4) [OF pl] that by simp
  note fo = add_gpas_fold [OF ok hp f]
  have a: "added c ?xs m m1" "tl_head tm = ?mrus" "tl_head tp = ?pins" "temp_list_ok tm" "temp_list_ok tp"
    "nm = weight m (mset ?mrus)" "np = weight m (mset ?pins)"
    using fo by (simp_all add: new_pins_def new_mrus_def)
  have q1: "quiet m m1" using a(1) by (simp add: added_def)
  note f1 = quiet_frame [OF q1]
  have g1: "group_members m1 g = group_members m g" for g using added_all_listed [OF a(1)] by simp
  have p1: "placed ((U + mset ?pins) + mset ?mrus) T m1"
    using placed_added [OF pl a(1)] new_pages_mset [of m gs] by (simp add: ac_simps)
  have flags: "list_flags (mm_lps m y) = {}" if "y \<in> set ?xs" for y using placedD(7) [OF pl] that by simp
  have lps1: "mm_lps m1 y = added_lp m c y" if "y \<in> set ?xs" for y using a(1) that by (simp add: added_def)
  have at: "lp_at (mm_lps m1 y) (Slru_mru c)" if "y \<in> set ?mrus" for y
    using that flags [of y] lps1 [of y] added_lp_at(2) [of m y c] by (simp add: new_mrus_def)
  have pat: "lp_pinned_at (mm_lps m1 y) c" if "y \<in> set ?pins" for y
    using that flags [of y] lps1 [of y] added_lp_at(1) [of m y c] by (simp add: new_pins_def)
  have c1: "c \<in> mm_cpus m1" using c lru_frame_eqs(4) [OF f1] by simp
  define m2 where "m2 = (if nm > 0 then splice_mru gf ty c tm nm m1 else m1)"
  note sp = splice_mru_ok [OF p1 [folded a(2)] c1 a(4) at [folded a(2)], where k = ty and gf = gf and n = nm]
  have m2: "joins (Some ty) m1 ?mrus m2 \<and> placed (U + mset ?pins) T m2
    \<and> slru_page_len m2 = (slru_page_len m1)(ty := slru_page_len m1 ty + nm) \<and> cur_pin_pages m2 = cur_pin_pages m1
    \<and> (\<forall>l \<in># U + mset ?pins. mm_lps m2 l = mm_lps m1 l)"
  proof (cases "?mrus = []")
    case True
    then have "m2 = m1" "nm = 0" using a(6) by (simp_all add: m2_def)
    then show ?thesis using p1 True by (simp add: joins_def)
  next
    case False
    then have m2e: "m2 = splice_mru gf ty c tm nm m1" using a(6) weight_pos [of m "?mrus"] by (simp add: m2_def)
    show ?thesis unfolding m2e using sp by (simp add: a(2) flip: set_mset_mset)
  qed
  have f2: "lru_frame m m2" using m2 lru_frame_trans [OF f1] by (simp add: joins_def)
  have ev: "add_gpas_to_active_list gf ty m c gs =
      map_option (Pair (nm + np)) (if np > 0 then splice_pin c tp np m2 else Some m2)"
    by (simp add: add_gpas_to_active_list_def f m2_def)
  have W: "nm + np = weight m (mset ?xs)"
    using arg_cong [OF new_pages_mset [of m gs], of "weight m"] by (simp add: a(6,7) add.commute)
  have pat2: "lp_pinned_at (mm_lps m2 y) c" if "y \<in> set ?pins" for y using m2 pat that by simp
  have "\<exists>m'. (if np > 0 then splice_pin c tp np m2 else Some m2) = Some m' \<and> joins None m2 ?pins m' \<and> placed U T m'
      \<and> counted m2 m' np 0 np"
  proof (cases "?pins = []")
    case True
    then have "np = 0" using a(7) by simp
    then show ?thesis using m2 True by (simp add: joins_def counted_def)
  next
    case False
    then have n: "np > 0" using a(7) weight_pos [of m "?pins"] by simp
    from pin False obtain i where "get_list_ptr_pin m c = Some i" by auto
    then have i: "get_list_ptr_pin m2 c = Some i" by (simp add: get_list_ptr_pin_frame [OF f2])
    have p2: "placed (U + mset (tl_head tp)) T m2" using m2 a(3) by simp
    from splice_pin_ok [OF p2 i a(5), unfolded a(3), OF pat2, of np] n show ?thesis by auto
  qed
  then obtain m' where m': "(if np > 0 then splice_pin c tp np m2 else Some m2) = Some m'" "joins None m2 ?pins m'"
    "placed U T m'" "counted m2 m' np 0 np" by blast
  have "lru_frame m m'" using m'(2) lru_frame_trans [OF f2] by (simp add: joins_def)
  moreover have "locked_at m' q = locked_at m q" for q using m'(2) m2 a(1) by (simp add: joins_def added_def)
  moreover have mem: "members m' k = members m k + (if k = ty then mset ?mrus else {#})"
    "pin_members m' = pin_members m + mset ?pins" for k
    using joins_None [OF m'(2)] joins_Some [of ty m1 ?mrus m2] m2 g1 [of "Some k"] g1 [of None] by simp_all
  moreover have "slru_page_len m' k = (let len = (slru_page_len m)(ty := slru_page_len m ty + weight m (mset ?mrus))
        in len(PROACTIVE_LIST := len PROACTIVE_LIST + weight m (mset ?pins))) k" for k
    using m'(4) m2 quiet_fields(1) [OF q1] by (cases k) (auto simp: counted_def a(6,7) Let_def)
  moreover have "cur_pin_pages m' = cur_pin_pages m + weight m (mset ?pins)"
    using m'(4) m2 quiet_fields(2) [OF q1] by (simp add: counted_def a(7))
  ultimately show ?thesis using m'(3)
    by (intro exI [of _ m']) (simp add: ev m'(1) W fun_eq_iff mem)
qed

end
