(* ===== verification/Els_Block.thy ===== *)
theory Els_Block
  imports Lru_Inv
begin

text \<open>
  Elastic blocks (\<^verbatim>\<open>src/module_gpl/els_block.c\<close>): two buddy blocks of one order are stretched to a
  block of the next order, a block is reduced to its two halves or to its subblocks.  The orders
  and flags live in the descriptors; the LRU lists (\<^verbatim>\<open>struct slru\<close> of \<^verbatim>\<open>lru.h\<close>) hold local pages.

  Stretching dereferences local pages without a test; where one is missing the result is \<open>None\<close>.  What
  other threads do to the descriptors before a trylock is the parameter \<open>others\<close>.  \<^verbatim>\<open>els_reduce()\<close> and
  \<^verbatim>\<open>els_tryreduce_complete()\<close> write the \<^verbatim>\<open>sptep\<close> of local pages only, and what is stated of them is about the
  descriptors: their local pages are read as \<open>the (local_page g)\<close>.
\<close>

definition BLOCK_NO_FETCH :: u32 where "BLOCK_NO_FETCH = push_bit 0 1"
definition BLOCK_FETCH_IN_PROGRESS :: u32 where "BLOCK_FETCH_IN_PROGRESS = push_bit 1 1"
definition BLOCK_READ_ONLY :: u32 where "BLOCK_READ_ONLY = push_bit 2 1"
definition BLOCK_HVA_FAULT :: u32 where "BLOCK_HVA_FAULT = push_bit 3 1"
definition BLOCK_GPA_FAULT :: u32 where "BLOCK_GPA_FAULT = push_bit 4 1"

text \<open>The loops \<^verbatim>\<open>for (i = 0; i < n; i++)\<close> over the descriptors from \<open>s\<close> on.\<close>

definition for_gpas :: "(emp_gpa \<Rightarrow> emp_gpa) \<Rightarrow> gpa_ptr \<Rightarrow> nat \<Rightarrow> gpa_heap \<Rightarrow> gpa_heap" where
  "for_gpas f s n h = foldl (\<lambda>h i. upd_gpa f (s + i) h) h [0 ..< n]"

definition add_count :: "nat \<Rightarrow> int \<Rightarrow> els_stat \<Rightarrow> els_stat" where
  "add_count order v s = s\<lparr>block_count := (block_count s)(order := block_count s order + v)\<rparr>"

section \<open>Stretching\<close>

definition els_get_super_head :: "gpa_heap \<Rightarrow> gpa_ptr \<Rightarrow> gpa_ptr option" where
  "els_get_super_head h gpa =
     (if block_order (h gpa) \<ge> max_block_order (h gpa) then None
      else Some (emp_get_block_head_at gpa (desc_order (h gpa) + 1)))"

text \<open>One member's turn: its page leaves the list it is on.\<close>

definition list_place :: "local_page \<Rightarrow> slru_place" where
  "list_place lp =
     (if is_local_page_flags lp LOCAL_PAGE_ON_MRU then Slru_mru (lp_cpu lp)
      else if is_local_page_flags lp LOCAL_PAGE_ON_LRU then Slru_lru (lp_cpu lp)
      else Slru_global)"

definition remove_member :: "gpa_ptr \<Rightarrow> emp_mm \<Rightarrow> emp_mm" where
  "remove_member gpa m =
     (let l = the (local_page (mm_gpas m gpa)); lp = mm_lps m l
      in if \<not> is_local_page_on_list lp then m
         else
           let (proactive, g) = clear_gpa_flags_if_set (mm_gpas m gpa) GPA_PROACTIVE_MASK;
               kind = (if proactive then PROACTIVE_LIST else ACTIVE_LIST);
               place = list_place lp;
               lists = (slru_lists m)(kind := (slru_lists m kind)
                 (place := emp_list_del_init l (slru_lists m kind place)))
           in upd_lp clear_local_page_list_flags l
                (m\<lparr>mm_gpas := (mm_gpas m)(gpa := g), slru_lists := lists\<rparr>))"

text \<open>No turn changes a local page, so a member without one, whose turn dereferences NULL, is seen at once.\<close>

definition remove_from_list_except_for_head :: "emp_mm \<Rightarrow> gpa_ptr \<Rightarrow> emp_mm option" where
  "remove_from_list_except_for_head m head =
     (let ms = [1 ..< num_subblock_in_block (mm_gpas m head)]
      in if list_ex (\<lambda>i. local_page (mm_gpas m (head + i)) = None) ms then None
         else Some (foldl (\<lambda>m i. remove_member (head + i) m) m ms))"

definition els_update_gpa_flags :: "emp_mm \<Rightarrow> gpa_ptr \<Rightarrow> gpa_ptr \<Rightarrow> emp_mm option" where
  "els_update_gpa_flags m s p =
     (let h = mm_gpas m
      in if s \<noteq> p then
           let h = upd_gpa (\<lambda>g. g\<lparr>r_state := GPA_INIT\<rparr>) p h;
               flags = gpa_flags (h p) AND NOT (GPA_PROACTIVE_MASK OR GPA_PROMOTE_MASK);
               h = upd_gpa (\<lambda>g. snd (set_gpa_flags_if_unset g flags)) s h;
               h = upd_gpa (\<lambda>g. snd (clear_gpa_flags_if_set g
                     (GPA_nPT_MASK OR GPA_PROMOTE_MASK OR GPA_REFERENCED_MASK OR GPA_DIRTY_MASK))) p h
           in Some (m\<lparr>mm_gpas := h\<rparr>)
         else
           let member = s + 2 ^ (desc_order (h s) - 1);
               h = upd_gpa (\<lambda>g. g\<lparr>r_state := r_state (h member)\<rparr>) s h;
               h = upd_gpa (\<lambda>g. g\<lparr>r_state := GPA_INIT\<rparr>) member h
           in map_option (\<lambda>l.
                let m = upd_lp (\<lambda>lp. lp\<lparr>sptep := None\<rparr>) l m;
                    (dirty, g) = clear_gpa_flags_if_set (h member) GPA_DIRTY_MASK;
                    h = h(member := g);
                    h = (if dirty then upd_gpa (\<lambda>g. snd (set_gpa_flags_if_unset g GPA_DIRTY_MASK)) s h else h)
                in m\<lparr>mm_gpas := h\<rparr>) (local_page (h member)))"

definition els_stretch :: "emp_mm \<Rightarrow> gpa_ptr \<Rightarrow> gpa_ptr \<Rightarrow> emp_mm option" where
  "els_stretch m s p =
     (let sb = sb_order (mm_gpas m s);
          curr_order = block_order (mm_gpas m s);
          next_order = curr_order + 1;
          m = m\<lparr>mm_gpas := for_gpas inc_gpa_block_order s (2 ^ (next_order - sb)) (mm_gpas m)\<rparr>
      in map_option (\<lambda>m.
           let st = add_count next_order 1 (add_count curr_order (- 2) (els_stats m))
           in m\<lparr>els_stats := st\<lparr>block_stretch := (block_stretch st)(curr_order := block_stretch st curr_order + 1)\<rparr>\<rparr>)
         (els_update_gpa_flags m s p))"

text \<open>Both tests of the buddy, before and after its lock is taken.\<close>

definition els_is_stretchable0 ::
    "(gpa_heap \<Rightarrow> gpa_heap) \<Rightarrow> gpa_heap \<Rightarrow> gpa_ptr \<Rightarrow> gpa_ptr \<Rightarrow> gpa_state \<Rightarrow> u32 \<Rightarrow> gpa_ptr option \<times> gpa_heap" where
  "els_is_stretchable0 others h shead chead state flag =
     (let max_order = (if max_block_order (h shead) > max_block_order (h chead)
                       then max_block_order (h chead) else max_block_order (h shead))
      in if block_order (h shead) \<ge> max_order \<or> block_order (h chead) \<ge> max_order then (None, h)
      else
        let read_only_mapping = (flag AND BLOCK_READ_ONLY \<noteq> 0);
            fault_type = (if flag AND BLOCK_HVA_FAULT \<noteq> 0 then GPA_HPT_MASK else GPA_EPT_MASK);
            buddy = (if shead = chead then shead + num_subblock_in_block (h shead) else shead)
        in if block_order (h buddy) \<ge> max_block_order (h buddy) then (None, h)
        else if is_gpa_flags_set (h buddy) (GPA_PREFETCHED_MASK OR GPA_PINNED_MASK) then (None, h)
        else if r_state (h buddy) \<noteq> state \<or> block_order (h chead) \<noteq> block_order (h buddy) then (None, h)
        else
          let h = others h; (locked, h) = emp_trylock_head h buddy
          in if \<not> locked then (None, h)
          else if r_state (h buddy) \<noteq> state
               \<or> block_order (h chead) \<noteq> block_order (h buddy)
               \<or> read_only_mapping = is_gpa_flags_set (h buddy) GPA_DIRTY_MASK
               \<or> fault_type \<noteq> gpa_flags (h buddy) AND GPA_nPT_MASK
               \<or> (gpa_flags (h chead) XOR gpa_flags (h buddy)) AND GPA_WPROTECT_MASK \<noteq> 0
               \<or> is_gpa_flags_set (h buddy) (GPA_STRETCHED_MASK OR GPA_PREFETCHED_MASK OR GPA_PINNED_MASK)
          then (None, emp_unlock_head h buddy)
          else (Some buddy, h))"

definition els_is_stretchable ::
    "(gpa_heap \<Rightarrow> gpa_heap) \<Rightarrow> gpa_heap \<Rightarrow> gpa_ptr \<Rightarrow> gpa_ptr \<Rightarrow> u32 \<Rightarrow> gpa_ptr option \<times> gpa_heap" where
  "els_is_stretchable others h shead chead flag = els_is_stretchable0 others h shead chead GPA_ACTIVE flag"

definition target_list :: "emp_gpa \<Rightarrow> lru_list_type" where
  "target_list g = (if is_gpa_flags_set g GPA_PROACTIVE_MASK then PROACTIVE_LIST else ACTIVE_LIST)"

text \<open>\<open>new_secondary\<close>, the later of the two heads, is unlocked.\<close>

definition unlock_secondary :: "gpa_ptr \<Rightarrow> gpa_ptr \<Rightarrow> emp_mm \<Rightarrow> emp_mm" where
  "unlock_secondary new_primary prev_linked m =
     m\<lparr>mm_gpas := emp_unlock_head (mm_gpas m)
         (if new_primary < prev_linked then prev_linked else new_primary)\<rparr>"

text \<open>
  The loop returns the head it ends at; \<open>None\<close> is a loop that never ends or a null local page.  The
  aggressiveness is the number of levels, 0 for no limit.
\<close>

partial_function (option) stretch_loop ::
    "(nat \<Rightarrow> gpa_heap \<Rightarrow> gpa_heap) \<Rightarrow> u32 \<Rightarrow> nat \<Rightarrow> nat \<Rightarrow> emp_mm \<Rightarrow> gpa_ptr \<Rightarrow> gpa_ptr
     \<Rightarrow> (gpa_ptr \<times> emp_mm) option" where
  "stretch_loop others flag aggr level m next_linked new_primary =
     (case els_is_stretchable (others level) (mm_gpas m) next_linked new_primary flag of
        (None, h) \<Rightarrow> Some (new_primary, m\<lparr>mm_gpas := h\<rparr>)
      | (Some prev_linked, h) \<Rightarrow>
          (let m = m\<lparr>mm_gpas := h\<rparr>;
               m = add_page_len (target_list (h prev_linked)) (- int (gpa_block_size (h prev_linked))) m
           in case els_stretch m next_linked prev_linked of
                None \<Rightarrow> None
              | Some m \<Rightarrow>
                  (let m = unlock_secondary new_primary prev_linked m
                   in if aggr \<noteq> 0 \<and> level + 1 \<ge> aggr then Some (next_linked, m)
                      else case els_get_super_head (mm_gpas m) next_linked of
                             None \<Rightarrow> Some (next_linked, m)
                           | Some next \<Rightarrow> stretch_loop others flag aggr (level + 1) m next next_linked)))"

text \<open>\<open>None\<close> is a loop that never ends, a null local page or an access outside the array of pin lists.\<close>

definition IO_THREAD_ID :: int where "IO_THREAD_ID = 0"

definition IS_IOTHREAD_VCPU :: "int \<Rightarrow> bool" where
  "IS_IOTHREAD_VCPU c \<longleftrightarrow> c < IO_THREAD_ID"

definition els_stretch_rep ::
    "(nat \<Rightarrow> gpa_heap \<Rightarrow> gpa_heap) \<Rightarrow> bool \<Rightarrow> emp_mm \<Rightarrow> int
     \<Rightarrow> gpa_ptr \<Rightarrow> u32 \<Rightarrow> nat \<Rightarrow> (bool \<times> emp_mm) option" where
  "els_stretch_rep others global_free m cpu_id chead flag aggressiveness =
     (if els_disabled m then Some (False, m)
      else if flag AND BLOCK_NO_FETCH \<noteq> 0 \<or> \<not> (flag AND BLOCK_FETCH_IN_PROGRESS \<noteq> 0)
      then Some (False, m)
      else if local_page (mm_gpas m chead) = None then None
      else if emp_lp_owner (mm_lps m (the (local_page (mm_gpas m chead)))) = None
      then Some (False, m)
      else case els_get_super_head (mm_gpas m) chead of
        None \<Rightarrow> Some (False, m)
      | Some next_linked \<Rightarrow>
          (let orig_order = block_order (mm_gpas m chead);
               flag = flag OR (if IS_IOTHREAD_VCPU cpu_id then BLOCK_HVA_FAULT else BLOCK_GPA_FAULT)
           in case stretch_loop others flag aggressiveness 0 m next_linked chead of
                None \<Rightarrow> None
              | Some (new_primary, m) \<Rightarrow>
                  if orig_order = block_order (mm_gpas m new_primary) then Some (False, m)
                  else
                    let m = m\<lparr>mm_gpas := upd_gpa (\<lambda>g. snd (set_gpa_flags_if_unset
                              (snd (set_gpa_flags_if_unset g GPA_STRETCHED_MASK)) GPA_PREFETCH_ONCE_MASK))
                              new_primary (mm_gpas m)\<rparr>;
                        kind = target_list (mm_gpas m new_primary);
                        lp = mm_lps m (the (local_page (mm_gpas m new_primary)));
                        added = (if local_page (mm_gpas m new_primary) = None then None
                                 else if \<not> is_local_page_on_list lp
                                 then map_option snd (add_gpas_to_active_list global_free kind m cpu_id [new_primary])
                                 else Some (add_page_len kind (int (gpa_block_size (mm_gpas m new_primary))) m))
                    in Option.bind added (\<lambda>m. map_option (Pair True) (remove_from_list_except_for_head m new_primary))))"

section \<open>Reducing\<close>

text \<open>Pointer arithmetic on a page table entry; NULL counts as 0.\<close>

definition pte_add :: "nat option \<Rightarrow> nat \<Rightarrow> nat option" where
  "pte_add pte n = (let q = (case pte of None \<Rightarrow> 0 | Some q \<Rightarrow> q) + n in if q = 0 then None else Some q)"

definition els_reduce :: "emp_mm \<Rightarrow> gpa_ptr \<Rightarrow> gpa_ptr list option \<times> emp_mm" where
  "els_reduce m s =
     (let h = mm_gpas m;
          sb = sb_order (h s);
          num_sb = num_subblock_in_block (h s);
          curr_order = block_order (h s);
          next_order = curr_order - 1;
          buddy = s + 2 ^ (next_order - sb);
          (locked, h) = emp_trylock_head h buddy
      in if \<not> locked then (None, m\<lparr>mm_gpas := h\<rparr>)
         else
           let flag = gpa_flags (h s);
               h = for_gpas (\<lambda>g. set_gpa_block_order g next_order) s num_sb h;
               h = upd_gpa (\<lambda>g. (set_gpa_flags g flag)\<lparr>r_state := r_state (h s)\<rparr>) buddy h;
               pte = sptep (mm_lps m (the (local_page (h s))));
               m = upd_lp (\<lambda>lp. lp\<lparr>sptep := pte_add pte ((buddy - s) * 2 ^ sb)\<rparr>)
                     (the (local_page (h buddy))) m;
               st = add_count next_order 2 (add_count curr_order (- 1) (els_stats m))
           in (Some [s, buddy], m\<lparr>mm_gpas := h,
                 els_stats := st\<lparr>block_reduce := (block_reduce st)(curr_order := block_reduce st curr_order + 1)\<rparr>\<rparr>))"

text \<open>Locks the members in turn; on a failure it returns the member that was locked.\<close>

fun trylock_members :: "gpa_ptr list \<Rightarrow> gpa_heap \<Rightarrow> gpa_ptr option \<times> gpa_heap" where
  "trylock_members [] h = (None, h)"
| "trylock_members (g # gs) h =
     (case emp_trylock_head h g of
        (True, h) \<Rightarrow> trylock_members gs h
      | (False, h) \<Rightarrow> (Some g, h))"

definition reduce_member :: "gpa_ptr \<Rightarrow> u32 \<Rightarrow> nat \<Rightarrow> emp_mm \<Rightarrow> gpa_ptr \<Rightarrow> emp_mm" where
  "reduce_member s flag next_order m g =
     (let m = m\<lparr>mm_gpas := upd_gpa (\<lambda>d. set_gpa_block_order d next_order) g (mm_gpas m)\<rparr>
      in case local_page (mm_gpas m g) of
           None \<Rightarrow> m
         | Some l \<Rightarrow>
             if g = s then m
             else
               let h = mm_gpas m;
                   pte = sptep (mm_lps m (the (local_page (h s))));
                   m = m\<lparr>mm_gpas := upd_gpa (\<lambda>d. (set_gpa_flags d flag)\<lparr>r_state := r_state (h s)\<rparr>) g h\<rparr>
               in upd_lp (\<lambda>lp. lp\<lparr>sptep := pte_add pte ((g - s) * 2 ^ sb_order (h s))\<rparr>) l m)"

definition els_tryreduce_complete :: "emp_mm \<Rightarrow> gpa_ptr \<Rightarrow> gpa_ptr list option \<times> emp_mm" where
  "els_tryreduce_complete m s =
     (let h = mm_gpas m;
          next_order = sb_order (h s);
          curr_order = block_order (h s);
          num_sb = num_subblock_in_block (h s)
      in case trylock_members [s + 1 ..< s + num_sb] h of
           (Some e, h) \<Rightarrow> (None, m\<lparr>mm_gpas := foldl emp_unlock_head h [s + 1 ..< e]\<rparr>)
         | (None, h) \<Rightarrow>
             (let flag = gpa_flags (h s);
                  m = foldl (reduce_member s flag next_order) (m\<lparr>mm_gpas := h\<rparr>) [s ..< s + num_sb];
                  st = add_count next_order (int num_sb) (add_count curr_order (- 1) (els_stats m))
              in (Some [s ..< s + num_sb], m\<lparr>els_stats := st
                    \<lparr>block_reduce_complete := (block_reduce_complete st)
                       (curr_order := block_reduce_complete st curr_order + 1)\<rparr>\<rparr>)))"

definition els_init :: "emp_mm \<Rightarrow> bool \<Rightarrow> emp_mm" where
  "els_init m initial_els_disabled = m\<lparr>els_disabled := initial_els_disabled\<rparr>"

section \<open>Aligned groups\<close>

text \<open>Two pointers lie in the same aligned group of \<open>2 ^ k\<close> descriptors.\<close>

definition same_group :: "nat \<Rightarrow> gpa_ptr \<Rightarrow> gpa_ptr \<Rightarrow> bool" where
  "same_group k p q \<longleftrightarrow> p div 2 ^ k = q div 2 ^ k"

lemma same_group_refl [simp]: "same_group k p p"
  by (simp add: same_group_def)

lemma same_group_sym: "same_group k p q \<Longrightarrow> same_group k q p"
  by (simp add: same_group_def)

lemma same_group_trans: "same_group k p q \<Longrightarrow> same_group k q r \<Longrightarrow> same_group k p r"
  by (simp add: same_group_def)

lemma same_group_mono: "same_group k p q \<Longrightarrow> k \<le> l \<Longrightarrow> same_group l p q"
proof -
  assume a: "same_group k p q" "k \<le> l"
  then have "(2::nat) ^ l = 2 ^ k * 2 ^ (l - k)" by (simp flip: power_add)
  with a show ?thesis by (simp add: same_group_def div_mult2_eq)
qed

lemma head_at_align: "emp_get_block_head_at g k = align_down k g"
  by (simp add: emp_get_block_head_at_def align_down_def)

lemma same_group_range:
  "same_group k c q \<longleftrightarrow> align_down k c \<le> q \<and> q < align_down k c + 2 ^ k"
proof
  assume "same_group k c q"
  then have "align_down k c = align_down k q" by (simp add: same_group_def align_down_eq)
  then show "align_down k c \<le> q \<and> q < align_down k c + 2 ^ k" using align_down_upper [of q k] by simp
next
  assume r: "align_down k c \<le> q \<and> q < align_down k c + 2 ^ k"
  then have "align_down k q = align_down k c" by (intro align_down_unique) auto
  then show "same_group k c q" by (simp add: same_group_def align_down_eq)
qed

text \<open>A group of the next order is the group of \<open>c\<close> and the group of its buddy.\<close>

lemma same_group_Suc:
  assumes "2 ^ k dvd c" and "s = align_down (Suc k) c"
  shows "same_group (Suc k) c q \<longleftrightarrow> same_group k s q \<or> same_group k (s + 2 ^ k) q"
    and "c = s \<or> c = s + 2 ^ k"
proof -
  have "align_down k c = c" using assms(1) by (intro align_down_unique) auto
  then show "c = s \<or> c = s + 2 ^ k" using align_down_Suc [of k c] assms(2) by auto
  have "2 ^ Suc k dvd s" unfolding assms(2) by (rule align_down_dvd)
  then have d: "2 ^ k dvd s" by (metis dvd_mult_left power_Suc2)
  then have a: "align_down k s = s" "align_down k (s + 2 ^ k) = s + 2 ^ k"
    by (auto intro!: align_down_unique simp: dvd_add)
  show "same_group (Suc k) c q \<longleftrightarrow> same_group k s q \<or> same_group k (s + 2 ^ k) q"
    unfolding same_group_range a by (auto simp: assms(2))
qed

section \<open>Well-formed blocks\<close>

text \<open>
  The members of a block agree on its order, and no block grows beyond the group in which all
  descriptors share one ceiling.
\<close>

definition els_ok :: "gpa_heap \<Rightarrow> bool" where
  "els_ok h \<longleftrightarrow> (\<forall>p. orders_ok (h p)
     \<and> (\<forall>q. same_group (max_block_order (h p) - sb_order (h p)) p q \<longrightarrow>
          max_block_order (h q) = max_block_order (h p) \<and> sb_order (h q) = sb_order (h p))
     \<and> (\<forall>q. same_group (desc_order (h p)) p q \<longrightarrow> desc_order (h q) = desc_order (h p)))"

definition orders_of :: "emp_gpa \<Rightarrow> nat \<times> nat \<times> nat \<times> nat" where
  "orders_of g = (sb_order g, block_order g, max_block_order g, desc_order g)"

lemma els_ok_orders: "els_ok h \<Longrightarrow> orders_ok (h p)"
  by (simp add: els_ok_def)

lemma orders_ok_sum: "orders_ok g \<Longrightarrow> block_order g = sb_order g + desc_order g"
  by (simp add: orders_ok_def)

lemma els_ok_ceiling:
  "els_ok h \<Longrightarrow> k \<le> max_block_order (h p) - sb_order (h p) \<Longrightarrow> same_group k p q \<Longrightarrow>
     max_block_order (h q) = max_block_order (h p) \<and> sb_order (h q) = sb_order (h p)"
  unfolding els_ok_def using same_group_mono by blast

lemma els_ok_block:
  "els_ok h \<Longrightarrow> same_group (desc_order (h p)) p q \<Longrightarrow> desc_order (h q) = desc_order (h p)"
  by (simp add: els_ok_def)

lemma els_ok_desc_le: "els_ok h \<Longrightarrow> desc_order (h p) \<le> max_block_order (h p) - sb_order (h p)"
  using els_ok_orders [of h p] by (simp add: orders_ok_def diff_le_mono)

lemma orders_ok_cong: "orders_of g = orders_of g' \<Longrightarrow> orders_ok g = orders_ok g'"
  by (simp add: orders_of_def orders_ok_def)

lemma els_ok_cong:
  assumes "\<And>p. orders_of (h' p) = orders_of (h p)"
  shows "els_ok h' \<longleftrightarrow> els_ok h"
proof -
  have "sb_order (h' p) = sb_order (h p)" "max_block_order (h' p) = max_block_order (h p)"
    "desc_order (h' p) = desc_order (h p)" "orders_ok (h' p) = orders_ok (h p)" for p
    using assms [of p] orders_ok_cong [OF assms] by (simp_all add: orders_of_def)
  then show ?thesis by (simp add: els_ok_def)
qed

text \<open>Giving a whole group one order keeps the blocks well formed, up and down.\<close>

lemma els_ok_reorder:
  assumes "els_ok h" and "k \<le> e" and "\<And>q. same_group e c q \<Longrightarrow> desc_order (h q) \<le> e"
    and inside: "\<And>q. same_group e c q \<Longrightarrow> orders_ok (h' q) \<and> desc_order (h' q) = k
        \<and> sb_order (h' q) = sb_order (h q) \<and> max_block_order (h' q) = max_block_order (h q)"
    and outside: "\<And>q. \<not> same_group e c q \<Longrightarrow> orders_of (h' q) = orders_of (h q)"
  shows "els_ok h'"
  unfolding els_ok_def
proof (intro allI conjI impI)
  have same: "sb_order (h' q) = sb_order (h q)" "max_block_order (h' q) = max_block_order (h q)" for q
    using inside [of q] outside [of q] by (auto simp: orders_of_def)
  fix p
  show "orders_ok (h' p)"
    using inside [of p] outside [of p] els_ok_orders [OF assms(1)] orders_ok_cong by blast
  fix q
  show "max_block_order (h' q) = max_block_order (h' p)" "sb_order (h' q) = sb_order (h' p)"
    if "same_group (max_block_order (h' p) - sb_order (h' p)) p q"
    using els_ok_ceiling [OF assms(1) le_refl, of p q] that by (simp_all add: same)
  show "desc_order (h' q) = desc_order (h' p)" if s: "same_group (desc_order (h' p)) p q"
  proof (cases "same_group e c p")
    case True
    then have "same_group e p q" using s inside [OF True] same_group_mono [OF _ assms(2)] by simp
    then have "same_group e c q" using True same_group_trans by blast
    then show ?thesis using inside True by simp
  next
    case False
    then have d: "desc_order (h' p) = desc_order (h p)" using outside by (simp add: orders_of_def)
    then have dq: "desc_order (h q) = desc_order (h p)" using els_ok_block [OF assms(1)] s by simp
    have "\<not> same_group e c q"
    proof
      assume c: "same_group e c q"
      then have "desc_order (h p) \<le> e" using assms(3) dq by metis
      then have "same_group e p q" using s d same_group_mono by metis
      then show False using c False same_group_sym same_group_trans by blast
    qed
    then show ?thesis using outside [of q] dq d by (simp add: orders_of_def)
  qed
qed

lemma for_gpas_apply:
  "for_gpas f s n h p = (if s \<le> p \<and> p < s + n then f (h p) else h p)"
  by (induction n arbitrary: p) (auto simp: for_gpas_def upd_gpa_def)

section \<open>What stretching does\<close>

lemma flag_ops_fields [simp]:
  "orders_of (snd (set_gpa_flags_if_unset g m)) = orders_of g"
  "orders_of (snd (clear_gpa_flags_if_set g m)) = orders_of g"
  "orders_of (set_gpa_flags g m) = orders_of g"
  "r_state (snd (set_gpa_flags_if_unset g m)) = r_state g"
  "r_state (snd (clear_gpa_flags_if_set g m)) = r_state g"
  "r_state (set_gpa_flags g m) = r_state g"
  "local_page (snd (set_gpa_flags_if_unset g m)) = local_page g"
  "local_page (snd (clear_gpa_flags_if_set g m)) = local_page g"
  "local_page (set_gpa_flags g m) = local_page g"
  "gpa_lock (snd (set_gpa_flags_if_unset g m)) = gpa_lock g"
  "gpa_lock (snd (clear_gpa_flags_if_set g m)) = gpa_lock g"
  "gpa_lock (set_gpa_flags g m) = gpa_lock g"
  by (simp_all add: set_gpa_flags_if_unset_def clear_gpa_flags_if_set_def set_gpa_flags_def orders_of_def)

lemma fst_clear: "fst (clear_gpa_flags_if_set g m) \<longleftrightarrow> gpa_flags g AND m \<noteq> 0"
  by (simp add: clear_gpa_flags_if_set_def is_gpa_flags_same_def)

lemma dirty_bit: "gpa_flags g AND GPA_DIRTY_MASK \<noteq> 0 \<longleftrightarrow> bit (gpa_flags g) 1"
  by (simp add: GPA_DIRTY_MASK_def bit_iff_and_push_bit_not_eq_0)

definition same_but_flags :: "emp_gpa \<Rightarrow> emp_gpa \<Rightarrow> bool" where
  "same_but_flags g g' \<longleftrightarrow> orders_of g = orders_of g' \<and> gpa_lock g = gpa_lock g'
     \<and> local_page g = local_page g' \<and> remote_page g = remote_page g'"

lemma same_but_flags_refl [simp]: "same_but_flags g g"
  by (simp add: same_but_flags_def)

lemma flag_ops_same [simp]:
  "same_but_flags (snd (set_gpa_flags_if_unset g m)) g' = same_but_flags g g'"
  "same_but_flags (snd (clear_gpa_flags_if_set g m)) g' = same_but_flags g g'"
  "same_but_flags (set_gpa_flags g m) g' = same_but_flags g g'"
  "same_but_flags (g\<lparr>r_state := r\<rparr>) g' = same_but_flags g g'"
  by (simp_all add: same_but_flags_def set_gpa_flags_if_unset_def clear_gpa_flags_if_set_def
      set_gpa_flags_def orders_of_def)

text \<open>
  The head \<open>s\<close> of the merged block speaks for both halves: it is dirty if one of them was and has
  the state of the half that was faulted on; the other half is reset.
\<close>

lemma els_update_gpa_flags_ok:
  fixes m s p
  assumes r: "els_update_gpa_flags m s p = Some m'"
  defines "sec \<equiv> if s \<noteq> p then p else s + 2 ^ (desc_order (mm_gpas m s) - 1)"
    and "h \<equiv> mm_gpas m" and "h' \<equiv> mm_gpas m'"
  shows "same_but_flags (h' q) (h q)"
    and "q \<noteq> s \<Longrightarrow> q \<noteq> sec \<Longrightarrow> h' q = h q"
    and "r_state (h' s) = (if s \<noteq> p then r_state (h s) else r_state (h sec))"
    and "r_state (h' sec) = GPA_INIT"
    and "bit (gpa_flags (h' s)) 1 \<longleftrightarrow> bit (gpa_flags (h s)) 1 \<or> bit (gpa_flags (h sec)) 1"
    and "\<not> bit (gpa_flags (h' sec)) 1"
proof -
  let ?fl = "gpa_flags (h p) AND NOT (GPA_PROACTIVE_MASK OR GPA_PROMOTE_MASK)"
  let ?cl = "GPA_nPT_MASK OR GPA_PROMOTE_MASK OR GPA_REFERENCED_MASK OR GPA_DIRTY_MASK"
  have b: "bit ?fl 1 = bit (gpa_flags (h p)) 1" "bit ?cl 1" "bit GPA_DIRTY_MASK 1"
    by (auto simp: gpa_flag_masks bit_and_iff bit_or_iff bit_not_iff bit_push_bit_iff bit_1_iff
        dest: bit_imp_le_length)
  have ne: "s + 2 ^ k \<noteq> s" for k :: nat by simp
  have "same_but_flags (h' q) (h q) \<and> (q \<noteq> s \<longrightarrow> q \<noteq> sec \<longrightarrow> h' q = h q)
      \<and> r_state (h' s) = (if s \<noteq> p then r_state (h s) else r_state (h sec))
      \<and> r_state (h' sec) = GPA_INIT
      \<and> (bit (gpa_flags (h' s)) 1 \<longleftrightarrow> bit (gpa_flags (h s)) 1 \<or> bit (gpa_flags (h sec)) 1)
      \<and> \<not> bit (gpa_flags (h' sec)) 1"
  proof (cases "s = p")
    case False
    then show ?thesis
      using b r by (auto simp: h'_def h_def sec_def els_update_gpa_flags_def Let_def upd_gpa_def
          bit_flag_ops fun_upd_def)
  next
    case True
    let ?mem = "s + 2 ^ (desc_order (h s) - 1)"
    have mem: "sec = ?mem" "?mem \<noteq> s" using True ne by (simp_all add: sec_def h_def)
    obtain dirty g where cl: "clear_gpa_flags_if_set ((h ?mem)\<lparr>r_state := GPA_INIT\<rparr>) GPA_DIRTY_MASK = (dirty, g)"
      by fastforce
    have g: "g = snd (clear_gpa_flags_if_set ((h ?mem)\<lparr>r_state := GPA_INIT\<rparr>) GPA_DIRTY_MASK)"
      "dirty \<longleftrightarrow> bit (gpa_flags (h ?mem)) 1"
      using cl fst_clear [of "(h ?mem)\<lparr>r_state := GPA_INIT\<rparr>" GPA_DIRTY_MASK]
        dirty_bit [of "h ?mem"] by simp_all
    have "h' = (let h1 = (h(s := (h s)\<lparr>r_state := r_state (h ?mem)\<rparr>))(?mem := g)
        in if dirty then upd_gpa (\<lambda>g. snd (set_gpa_flags_if_unset g GPA_DIRTY_MASK)) s h1 else h1)"
      using True cl mem(2) r
      by (auto simp: h'_def h_def els_update_gpa_flags_def Let_def upd_gpa_def upd_lp_def fun_upd_def)
    then show ?thesis
      using mem b(3) True unfolding g
      by (auto simp: Let_def upd_gpa_def bit_flag_ops fun_upd_def split: if_splits)
  qed
  then show "same_but_flags (h' q) (h q)" "q \<noteq> s \<Longrightarrow> q \<noteq> sec \<Longrightarrow> h' q = h q"
    "r_state (h' s) = (if s \<noteq> p then r_state (h s) else r_state (h sec))"
    "r_state (h' sec) = GPA_INIT"
    "bit (gpa_flags (h' s)) 1 \<longleftrightarrow> bit (gpa_flags (h s)) 1 \<or> bit (gpa_flags (h sec)) 1"
    "\<not> bit (gpa_flags (h' sec)) 1" by blast+
qed

text \<open>The pages of all blocks, by the statistics of the block orders.\<close>

definition counted_pages :: "els_stat \<Rightarrow> int" where
  "counted_pages st = (\<Sum>k < 16. block_count st k * 2 ^ k)"

lemma counted_pages_add:
  "k < 16 \<Longrightarrow> counted_pages (add_count k v st) = counted_pages st + v * 2 ^ k"
proof -
  assume k: "k < 16"
  have "counted_pages (add_count k v st) = (\<Sum>i < 16. block_count st i * 2 ^ i + (if i = k then v * 2 ^ k else 0))"
    unfolding counted_pages_def add_count_def by (intro sum.cong) (auto simp: distrib_right)
  also have "\<dots> = counted_pages st + v * 2 ^ k"
    unfolding sum.distrib counted_pages_def using k by simp
  finally show ?thesis .
qed

lemma counted_pages_cong: "block_count a = block_count b \<Longrightarrow> counted_pages a = counted_pages b"
  by (simp add: counted_pages_def)

text \<open>A head and its buddy, both of the same order, and the head of the block they make.\<close>

definition buddies :: "gpa_heap \<Rightarrow> gpa_ptr \<Rightarrow> gpa_ptr \<Rightarrow> gpa_ptr \<Rightarrow> bool" where
  "buddies h c s b \<longleftrightarrow> emp_get_block_head h c = c \<and> els_get_super_head h c = Some s
     \<and> b = (if s = c then s + num_subblock_in_block (h s) else s) \<and> block_order (h b) = block_order (h c)"

lemma head_dvd: "emp_get_block_head h c = c \<Longrightarrow> 2 ^ desc_order (h c) dvd c"
  by (metis emp_get_block_head_def head_at_align align_down_dvd)

lemma buddies_facts:
  assumes ok: "els_ok h" and b: "buddies h c s b"
  shows "s = align_down (Suc (desc_order (h c))) c" and "2 ^ desc_order (h c) dvd c"
    and "c = s \<and> b = s + 2 ^ desc_order (h c) \<or> c = s + 2 ^ desc_order (h c) \<and> b = s"
    and "\<And>q. same_group (Suc (desc_order (h c))) c q \<Longrightarrow> desc_order (h q) = desc_order (h c)
      \<and> sb_order (h q) = sb_order (h c) \<and> max_block_order (h q) = max_block_order (h c)
      \<and> block_order (h q) = block_order (h c) \<and> block_order (h q) < max_block_order (h q)"
    and "Suc (desc_order (h c)) \<le> max_block_order (h c) - sb_order (h c)"
proof -
  let ?d = "desc_order (h c)"
  have lt: "block_order (h c) < max_block_order (h c)"
    using b by (auto simp: buddies_def els_get_super_head_def split: if_splits)
  have s: "s = align_down (Suc ?d) c"
    using b lt by (simp add: buddies_def els_get_super_head_def head_at_align)
  then show "s = align_down (Suc ?d) c" .
  show dv: "2 ^ ?d dvd c" using b head_dvd by (simp add: buddies_def)
  note sg = same_group_Suc [OF dv s]
  have oc: "orders_ok (h c)" using els_ok_orders [OF ok] .
  show room: "Suc ?d \<le> max_block_order (h c) - sb_order (h c)"
    using oc lt by (simp add: orders_ok_def diff_less_mono Suc_le_eq)
  have n: "num_subblock_in_block (h c) = 2 ^ ?d" using oc by (simp add: num_subblock_in_block_def orders_ok_def)
  show cb: "c = s \<and> b = s + 2 ^ ?d \<or> c = s + 2 ^ ?d \<and> b = s"
    using sg(2) b n by (auto simp: buddies_def)
  have ceil: "same_group (Suc ?d) c q \<Longrightarrow> max_block_order (h q) = max_block_order (h c)
      \<and> sb_order (h q) = sb_order (h c)" for q
    using els_ok_ceiling [OF ok room] by blast
  have "same_group (Suc ?d) c b" using sg(1) [of b] cb by auto
  then have "sb_order (h b) = sb_order (h c)" using ceil by blast
  then have db: "desc_order (h b) = ?d"
  proof -
    have "block_order (h b) = block_order (h c)" using b unfolding buddies_def by blast
    then show ?thesis using els_ok_orders [OF ok, of b] oc \<open>sb_order (h b) = sb_order (h c)\<close>
      unfolding orders_ok_def by simp
  qed
  show "desc_order (h q) = ?d \<and> sb_order (h q) = sb_order (h c)
      \<and> max_block_order (h q) = max_block_order (h c)
      \<and> block_order (h q) = block_order (h c) \<and> block_order (h q) < max_block_order (h q)"
    if q: "same_group (Suc ?d) c q" for q
  proof -
    have "same_group ?d c q \<or> same_group ?d b q" using sg(1) [of q] q cb by auto
    then have dq: "desc_order (h q) = ?d"
      using els_ok_block [OF ok, of c q] els_ok_block [OF ok, of b q] db by auto
    moreover have "block_order (h q) = block_order (h c)"
      using orders_ok_sum [OF els_ok_orders [OF ok, of q]] orders_ok_sum [OF oc] dq ceil [OF q] by simp
    ultimately show ?thesis using ceil [OF q] lt by simp
  qed
qed

lemma inc_facts:
  "orders_ok g \<Longrightarrow> block_order g < max_block_order g \<Longrightarrow>
     desc_order (inc_gpa_block_order g) = Suc (desc_order g)
     \<and> block_order (inc_gpa_block_order g) = Suc (block_order g)"
proof -
  assume a: "orders_ok g" "block_order g < max_block_order g"
  then have k: "Suc (block_order g) < 16" "sb_order g \<le> Suc (block_order g)"
    by (simp_all add: orders_ok_def BLOCK_MAX_ORDER_def)
  then have "(Suc (block_order g) + 16 - sb_order g) mod 16 = Suc (block_order g) - sb_order g"
    by (intro mod16_sub)
  with a k show ?thesis by (simp add: orders_ok_def emp_ops Suc_diff_le)
qed

lemma inc_frame [simp]:
  "sb_order (inc_gpa_block_order g) = sb_order g" "max_block_order (inc_gpa_block_order g) = max_block_order g"
  "gpa_lock (inc_gpa_block_order g) = gpa_lock g" "local_page (inc_gpa_block_order g) = local_page g"
  "r_state (inc_gpa_block_order g) = r_state g" "gpa_flags (inc_gpa_block_order g) = gpa_flags g"
  by (simp_all add: emp_ops)

lemma els_stretch_ok:
  assumes ok: "els_ok (mm_gpas m)" and b: "buddies (mm_gpas m) c s b" and r: "els_stretch m s b = Some m'"
  defines "h \<equiv> mm_gpas m" and "h' \<equiv> mm_gpas m'" and "d \<equiv> desc_order (mm_gpas m c)"
  shows "els_ok h'"
    and "\<And>q. desc_order (h' q) = (if same_group (Suc d) c q then Suc d else desc_order (h q))"
    and "\<And>q. sb_order (h' q) = sb_order (h q) \<and> max_block_order (h' q) = max_block_order (h q)"
    and "\<And>q. gpa_lock (h' q) = gpa_lock (h q) \<and> local_page (h' q) = local_page (h q)"
    and "r_state (h' s) = r_state (h c)" and "r_state (h' (if c = s then b else c)) = GPA_INIT"
    and "bit (gpa_flags (h' s)) 1 \<longleftrightarrow> bit (gpa_flags (h c)) 1 \<or> bit (gpa_flags (h b)) 1"
    and "\<not> bit (gpa_flags (h' (if c = s then b else c))) 1"
    and "counted_pages (els_stats m') = counted_pages (els_stats m)"
    and "\<And>q. \<not> same_group (Suc d) c q \<Longrightarrow> h' q = h q"
proof -
  note f = buddies_facts [OF ok b, folded h_def d_def]
  have "same_group (Suc d) c s" using same_group_range f(1) by simp
  note sc = f(4) [OF this]
  have oc: "orders_ok (h s)" "orders_ok (h c)" using els_ok_orders [OF ok] by (simp_all add: h_def)
  let ?n = "2 ^ (block_order (h s) + 1 - sb_order (h s)) :: nat"
  have n: "?n = 2 ^ Suc d"
  proof -
    have "block_order (h s) = sb_order (h s) + d" using orders_ok_sum [OF oc(1)] sc by (simp only: d_def h_def)
    then show ?thesis by simp
  qed
  define h1 where "h1 = for_gpas inc_gpa_block_order s ?n h"
  have h1: "h1 q = (if same_group (Suc d) c q then inc_gpa_block_order (h q) else h q)" for q
    unfolding h1_def for_gpas_apply same_group_range n by (simp add: f(1))
  define m1 where "m1 = m\<lparr>mm_gpas := h1\<rparr>"
  obtain m2 where m2: "els_update_gpa_flags m1 s b = Some m2"
    "m' = m2\<lparr>els_stats := (let st = add_count (block_order (h s) + 1) 1 (add_count (block_order (h s)) (- 2) (els_stats m2))
      in st\<lparr>block_stretch := (block_stretch st)(block_order (h s) := block_stretch st (block_order (h s)) + 1)\<rparr>)\<rparr>"
    using r by (auto simp: els_stretch_def Let_def m1_def h1_def h_def)
  then have h': "h' = mm_gpas m2" by (simp add: h'_def)
  have sec: "(if s \<noteq> b then b else s + 2 ^ (desc_order (mm_gpas m1 s) - 1)) = (if c = s then b else c)"
  proof -
    have "desc_order (h1 s) = Suc d"
      using h1 [of s] \<open>same_group (Suc d) c s\<close> inc_facts [OF oc(1)] sc by simp
    then show ?thesis using f(3) by (auto simp: m1_def)
  qed
  note u = els_update_gpa_flags_ok [OF m2(1), folded h', unfolded sec]
  have m1: "mm_gpas m1 = h1" by (simp add: m1_def)
  have frame: "same_but_flags (h' q) (h1 q)" for q using u(1) [of q] by (simp add: m1)
  have ord: "orders_of (h' q) = orders_of (h1 q)" for q using frame by (simp add: same_but_flags_def)
  have inc: "same_group (Suc d) c q \<Longrightarrow> orders_ok (h1 q) \<and> desc_order (h1 q) = Suc d
      \<and> sb_order (h1 q) = sb_order (h q) \<and> max_block_order (h1 q) = max_block_order (h q)" for q
  proof -
    assume q: "same_group (Suc d) c q"
    have oq: "orders_ok (h q)" using els_ok_orders [OF ok, folded h_def] .
    have lt: "block_order (h q) < max_block_order (h q)" and dq: "desc_order (h q) = d" using f(4) [OF q] by blast+
    have e: "h1 q = inc_gpa_block_order (h q)" using h1 [of q] q by simp
    show ?thesis
      unfolding e using inc_gpa_block_order_ok [OF oq lt] inc_facts [OF oq lt] dq by simp
  qed
  have "els_ok h1"
  proof (rule els_ok_reorder [OF ok [folded h_def], of "Suc d" "Suc d" c])
    show "desc_order (h q) \<le> Suc d" if "same_group (Suc d) c q" for q
      using f(4) [OF that] by linarith
    show "orders_ok (h1 q) \<and> desc_order (h1 q) = Suc d \<and> sb_order (h1 q) = sb_order (h q)
        \<and> max_block_order (h1 q) = max_block_order (h q)" if "same_group (Suc d) c q" for q
      using inc [OF that] .
    show "orders_of (h1 q) = orders_of (h q)" if "\<not> same_group (Suc d) c q" for q
      using h1 [of q] that by simp
  qed simp
  then show "els_ok h'" using els_ok_cong [of h' h1] ord by simp
  have o1: "desc_order (h' q) = desc_order (h1 q) \<and> sb_order (h' q) = sb_order (h1 q)
      \<and> max_block_order (h' q) = max_block_order (h1 q)" for q
    using ord [of q] by (simp add: orders_of_def)
  show "desc_order (h' q) = (if same_group (Suc d) c q then Suc d else desc_order (h q))" for q
    using o1 [of q] inc [of q] h1 [of q] by simp
  show "sb_order (h' q) = sb_order (h q) \<and> max_block_order (h' q) = max_block_order (h q)" for q
    using o1 [of q] h1 [of q] by simp
  show "gpa_lock (h' q) = gpa_lock (h q) \<and> local_page (h' q) = local_page (h q)" for q
    using frame [of q] h1 [of q] by (simp add: same_but_flags_def)
  have fl: "r_state (h1 q) = r_state (h q)" "gpa_flags (h1 q) = gpa_flags (h q)" for q using h1 [of q] by simp_all
  show "r_state (h' s) = r_state (h c)" using u(3) f(3) by (auto simp: m1 fl)
  show "r_state (h' (if c = s then b else c)) = GPA_INIT" using u(4) .
  show "bit (gpa_flags (h' s)) 1 \<longleftrightarrow> bit (gpa_flags (h c)) 1 \<or> bit (gpa_flags (h b)) 1"
    using u(5) f(3) by (auto simp: m1 fl)
  show "\<not> bit (gpa_flags (h' (if c = s then b else c))) 1" using u(6) .
  have k: "Suc (block_order (h s)) < 16" using sc els_ok_orders [OF ok, of s] by (simp add: orders_ok_def h_def BLOCK_MAX_ORDER_def)
  have "els_stats m2 = els_stats m1" using m2(1)
    by (auto simp: els_update_gpa_flags_def Let_def upd_lp_def clear_gpa_flags_if_set_def split: if_splits)
  then have st: "els_stats m2 = els_stats m" by (simp add: m1_def)
  have "counted_pages (els_stats m')
    = counted_pages (add_count (Suc (block_order (h s))) 1 (add_count (block_order (h s)) (- 2) (els_stats m)))"
    by (rule counted_pages_cong) (simp add: m2(2) Let_def st)
  then show "counted_pages (els_stats m') = counted_pages (els_stats m)"
    using k by (simp add: counted_pages_add)
  show "h' q = h q" if "\<not> same_group (Suc d) c q" for q
  proof -
    have "same_group (Suc d) c b" using same_group_Suc(1) [OF f(2,1), of b] f(3) by auto
    then have "q \<noteq> s" "q \<noteq> (if c = s then b else c)" using that \<open>same_group (Suc d) c s\<close> by auto
    then show ?thesis using u(2) [of q] h1 [of q] that by (simp add: m1)
  qed
qed

lemma els_stretch_defined:
  assumes ok: "els_ok (mm_gpas m)" and b: "buddies (mm_gpas m) c s b" and "local_page (mm_gpas m c) \<noteq> None"
  shows "els_stretch m s b \<noteq> None"
proof (cases "s = b")
  case True
  note f = buddies_facts [OF ok b]
  let ?h = "mm_gpas m"
  let ?h1 = "for_gpas inc_gpa_block_order s (2 ^ (block_order (?h s) + 1 - sb_order (?h s))) ?h"
  have c: "c = s + 2 ^ desc_order (?h c)" using f(3) True by auto
  have "same_group (Suc (desc_order (?h c))) c s" by (simp add: same_group_range f(1))
  note sc = f(4) [OF this]
  have "orders_ok (?h s)" by (rule els_ok_orders [OF ok])
  then have "desc_order (?h1 s) = Suc (desc_order (?h c))" using inc_facts sc by (simp add: for_gpas_apply)
  moreover have "local_page (?h1 q) = local_page (?h q)" for q by (simp add: for_gpas_apply)
  ultimately show ?thesis
    using True assms(3) c by (auto simp: els_stretch_def els_update_gpa_flags_def Let_def upd_gpa_def)
qed (simp add: els_stretch_def els_update_gpa_flags_def Let_def)

section \<open>Choosing a buddy\<close>

lemma unlock_after_trylock:
  "emp_trylock_head h b = (True, h') \<Longrightarrow> emp_unlock_head h' b = h \<and> h' = h(b := (h b)\<lparr>gpa_lock := True\<rparr>)
     \<and> \<not> gpa_lock (h b)"
proof -
  assume t: "emp_trylock_head h b = (True, h')"
  then have n: "\<not> gpa_lock (h b)" and h': "h' = h(b := (h b)\<lparr>gpa_lock := True\<rparr>)"
    by (auto simp: emp_trylock_head_def emp_gpa_trylock_def split: if_splits)
  have "(h b)\<lparr>gpa_lock := False\<rparr> = h b" using n by simp
  then have "h(b := (h b)\<lparr>gpa_lock := False\<rparr>) = h" by (metis fun_upd_triv)
  then show ?thesis using n h' by (simp add: emp_unlock_head_def emp_gpa_unlock_def)
qed

lemma failed_trylock: "emp_trylock_head h b = (False, h') \<Longrightarrow> h' = h \<and> gpa_lock (h b)"
  by (auto simp: emp_trylock_head_def emp_gpa_trylock_def fun_eq_iff split: if_splits)

lemma els_is_stretchable_None:
  assumes "els_is_stretchable others h shead chead flag = (None, h')"
  shows "h' = h \<or> h' = others h"
proof -
  define b' where "b' = (if shead = chead then shead + num_subblock_in_block (h shead) else shead)"
  obtain locked h1 where t: "emp_trylock_head (others h) b' = (locked, h1)" by fastforce
  have "emp_unlock_head h1 b' = others h" if "locked"
  proof -
    have "emp_trylock_head (others h) b' = (True, h1)" using t that by simp
    from unlock_after_trylock [OF this] show ?thesis by blast
  qed
  moreover have "h1 = others h" if "\<not> locked"
    using failed_trylock [of "others h" b' h1] t that by simp
  ultimately show ?thesis
    using assms t unfolding els_is_stretchable_def els_is_stretchable0_def Let_def b'_def [symmetric]
    by (auto split: if_splits)
qed

text \<open>A buddy that is returned has been locked, and with the lock held it passed every test.\<close>

lemma els_is_stretchable_Some:
  assumes "els_is_stretchable others h shead chead flag = (Some b, h')"
  shows "b = (if shead = chead then shead + num_subblock_in_block (h shead) else shead)"
    and "\<not> gpa_lock (others h b)" and "h' = (others h)(b := (others h b)\<lparr>gpa_lock := True\<rparr>)"
    and "r_state (h' b) = GPA_ACTIVE" and "block_order (h' b) = block_order (h' chead)"
    and "is_gpa_flags_set (h' b) GPA_DIRTY_MASK \<longleftrightarrow> \<not> flag AND BLOCK_READ_ONLY \<noteq> 0"
    and "\<not> is_gpa_flags_set (h' b) (GPA_STRETCHED_MASK OR GPA_PREFETCHED_MASK OR GPA_PINNED_MASK)"
    and "(gpa_flags (h' chead) XOR gpa_flags (h' b)) AND GPA_WPROTECT_MASK = 0"
    and "block_order (h chead) < max_block_order (h chead)"
proof -
  define b' where "b' = (if shead = chead then shead + num_subblock_in_block (h shead) else shead)"
  obtain locked h1 where t: "emp_trylock_head (others h) b' = (locked, h1)" by fastforce
  have r: "locked \<and> b = b' \<and> h' = h1 \<and> r_state (h1 b) = GPA_ACTIVE \<and> block_order (h1 b) = block_order (h1 chead)
    \<and> (is_gpa_flags_set (h1 b) GPA_DIRTY_MASK \<longleftrightarrow> \<not> flag AND BLOCK_READ_ONLY \<noteq> 0)
    \<and> \<not> is_gpa_flags_set (h1 b) (GPA_STRETCHED_MASK OR GPA_PREFETCHED_MASK OR GPA_PINNED_MASK)
    \<and> (gpa_flags (h1 chead) XOR gpa_flags (h1 b)) AND GPA_WPROTECT_MASK = 0
    \<and> block_order (h chead) < max_block_order (h chead)"
    using assms t unfolding els_is_stretchable_def els_is_stretchable0_def Let_def b'_def [symmetric]
    by (auto split: if_splits)
  have "emp_trylock_head (others h) b = (True, h')" using r t by simp
  from unlock_after_trylock [OF this] show "\<not> gpa_lock (others h b)"
    "h' = (others h)(b := (others h b)\<lparr>gpa_lock := True\<rparr>)" by blast+
  show "b = (if shead = chead then shead + num_subblock_in_block (h shead) else shead)"
    using r by (simp add: b'_def)
  show "r_state (h' b) = GPA_ACTIVE" "block_order (h' b) = block_order (h' chead)"
    "is_gpa_flags_set (h' b) GPA_DIRTY_MASK \<longleftrightarrow> \<not> flag AND BLOCK_READ_ONLY \<noteq> 0"
    "\<not> is_gpa_flags_set (h' b) (GPA_STRETCHED_MASK OR GPA_PREFETCHED_MASK OR GPA_PINNED_MASK)"
    "(gpa_flags (h' chead) XOR gpa_flags (h' b)) AND GPA_WPROTECT_MASK = 0"
    "block_order (h chead) < max_block_order (h chead)" using r by blast+
qed

section \<open>What reducing does\<close>

lemma set_order_facts:
  assumes "orders_ok g" and "sb_order g \<le> k" and "k \<le> max_block_order g"
  shows "desc_order (set_gpa_block_order g k) = k - sb_order g"
    and "orders_ok (set_gpa_block_order g k)"
proof -
  have k: "k < 16" using assms by (simp add: orders_ok_def BLOCK_MAX_ORDER_def)
  then have "(k + 16 - sb_order g) mod 16 = k - sb_order g" using assms(2) by (intro mod16_sub)
  then show "desc_order (set_gpa_block_order g k) = k - sb_order g" using k by (simp add: emp_ops)
  show "orders_ok (set_gpa_block_order g k)" by (rule set_gpa_block_order_ok [OF assms])
qed

lemma set_order_frame [simp]:
  "sb_order (set_gpa_block_order g k) = sb_order g" "max_block_order (set_gpa_block_order g k) = max_block_order g"
  "gpa_lock (set_gpa_block_order g k) = gpa_lock g" "local_page (set_gpa_block_order g k) = local_page g"
  "r_state (set_gpa_block_order g k) = r_state g" "gpa_flags (set_gpa_block_order g k) = gpa_flags g"
  by (simp_all add: emp_ops)

text \<open>Setting all members of the block of \<open>s\<close> to a smaller order, whatever else but the orders changes.\<close>

lemma block_members:
  assumes ok: "els_ok h" and "emp_get_block_head h s = s" and "same_group (desc_order (h s)) s q"
  shows "orders_ok (h q) \<and> sb_order (h q) = sb_order (h s) \<and> desc_order (h q) = desc_order (h s)
    \<and> block_order (h q) = block_order (h s) \<and> max_block_order (h q) = max_block_order (h s)"
  using els_ok_orders [OF ok] els_ok_ceiling [OF ok els_ok_desc_le [OF ok] assms(3)]
    els_ok_block [OF ok assms(3)] orders_ok_sum [OF els_ok_orders [OF ok, of q]]
    orders_ok_sum [OF els_ok_orders [OF ok, of s]] by simp

lemma els_ok_lower:
  assumes ok: "els_ok h" and hd: "emp_get_block_head h s = s"
    and k: "sb_order (h s) \<le> k" "k \<le> block_order (h s)"
    and h': "\<And>q. orders_of (h' q) = orders_of (if same_group (desc_order (h s)) s q
                then set_gpa_block_order (h q) k else h q)"
  shows "els_ok h'"
    and "\<And>q. desc_order (h' q) = (if same_group (desc_order (h s)) s q then k - sb_order (h s) else desc_order (h q))"
proof -
  let ?d = "desc_order (h s)"
  note mem = block_members [OF ok hd]
  have in1: "orders_ok (h' q) \<and> desc_order (h' q) = k - sb_order (h s)
      \<and> sb_order (h' q) = sb_order (h q) \<and> max_block_order (h' q) = max_block_order (h q)"
    if q: "same_group ?d s q" for q
  proof -
    have o: "orders_of (h' q) = orders_of (set_gpa_block_order (h q) k)" using h' [of q] q by simp
    have le: "sb_order (h q) \<le> k" "k \<le> max_block_order (h q)" and oq: "orders_ok (h q)"
      using mem [OF q] k by (simp_all add: orders_ok_def)
    show ?thesis
      using set_order_facts [OF oq le] o orders_ok_cong [OF o] mem [OF q]
      by (simp add: orders_of_def)
  qed
  have out: "orders_of (h' q) = orders_of (h q)" if "\<not> same_group ?d s q" for q using h' [of q] that by simp
  have "k - sb_order (h s) \<le> ?d" using k els_ok_orders [OF ok, of s] by (simp add: orders_ok_def diff_le_mono)
  then show "els_ok h'"
  proof (rule els_ok_reorder [OF ok, of _ _ s])
    show "desc_order (h q) \<le> ?d" if "same_group ?d s q" for q using mem [OF that] by simp
    show "orders_ok (h' q) \<and> desc_order (h' q) = k - sb_order (h s)
      \<and> sb_order (h' q) = sb_order (h q) \<and> max_block_order (h' q) = max_block_order (h q)"
      if "same_group ?d s q" for q using in1 [OF that] .
    show "orders_of (h' q) = orders_of (h q)" if "\<not> same_group ?d s q" for q using out [OF that] .
  qed
  show "desc_order (h' q) = (if same_group ?d s q then k - sb_order (h s) else desc_order (h q))" for q
    using in1 [of q] out [of q] by (auto simp: orders_of_def)
qed

lemma els_reduce_fail:
  assumes "els_reduce m s = (None, m')"
  shows "m' = m"
proof -
  let ?b = "s + 2 ^ (block_order (mm_gpas m s) - 1 - sb_order (mm_gpas m s))"
  obtain locked h1 where t: "emp_trylock_head (mm_gpas m) ?b = (locked, h1)" by fastforce
  with assms have "\<not> locked \<and> m' = m\<lparr>mm_gpas := h1\<rparr>"
    by (auto simp: els_reduce_def Let_def split: if_splits)
  with failed_trylock [of "mm_gpas m" ?b h1] t show ?thesis by simp
qed

lemma halves:
  assumes "2 ^ Suc k dvd (s::nat)"
  shows "align_down (Suc k) s = s" and "emp_get_block_head_at s k = s"
    and "emp_get_block_head_at (s + 2 ^ k) k = s + 2 ^ k"
proof -
  have d: "2 ^ k dvd s" using assms by (metis dvd_mult_left power_Suc2)
  show "align_down (Suc k) s = s" using assms by (intro align_down_unique) auto
  show "emp_get_block_head_at s k = s" "emp_get_block_head_at (s + 2 ^ k) k = s + 2 ^ k"
    unfolding head_at_align using d by (auto intro!: align_down_unique simp: dvd_add)
qed

lemma els_reduce_ok:
  assumes ok: "els_ok (mm_gpas m)" and hd: "emp_get_block_head (mm_gpas m) s = s"
    and d: "desc_order (mm_gpas m s) = Suc k" and res: "els_reduce m s = (Some hs, m')"
  defines "h \<equiv> mm_gpas m" and "h' \<equiv> mm_gpas m'" and "b \<equiv> s + 2 ^ k"
  shows "hs = [s, b]" and "els_ok h'"
    and "\<And>q. desc_order (h' q) = (if same_group (Suc k) s q then k else desc_order (h q))"
    and "emp_get_block_head h' s = s" and "emp_get_block_head h' b = b"
    and "\<not> gpa_lock (h b)" and "\<And>q. gpa_lock (h' q) \<longleftrightarrow> q = b \<or> gpa_lock (h q)"
    and "gpa_flags (h' b) = gpa_flags (h b) OR gpa_flags (h s)" and "r_state (h' b) = r_state (h s)"
    and "\<And>q. q \<noteq> b \<Longrightarrow> gpa_flags (h' q) = gpa_flags (h q) \<and> r_state (h' q) = r_state (h q)"
    and "counted_pages (els_stats m') = counted_pages (els_stats m)"
proof -
  have os: "orders_ok (h s)" using els_ok_orders [OF ok] by (simp add: h_def)
  have bo: "block_order (h s) = sb_order (h s) + Suc k" using orders_ok_sum [OF os] d by (simp add: h_def)
  have dv: "2 ^ Suc k dvd s" using head_dvd [OF hd] d by simp
  obtain locked h1 where t: "emp_trylock_head h b = (locked, h1)" by fastforce
  have bud: "s + 2 ^ (block_order (h s) - 1 - sb_order (h s)) = b" using bo by (simp add: b_def)
  have num: "num_subblock_in_block (h s) = 2 ^ Suc k" using bo by (simp add: num_subblock_in_block_def)
  have lk: "locked" using res t bud by (auto simp: els_reduce_def Let_def h_def split: if_splits)
  from unlock_after_trylock [of h b h1] t lk have
    h1: "h1 = h(b := (h b)\<lparr>gpa_lock := True\<rparr>)" and nl: "\<not> gpa_lock (h b)" by simp_all
  define h2 where "h2 = for_gpas (\<lambda>g. set_gpa_block_order g (block_order (h s) - 1)) s (2 ^ Suc k) h1"
  have h2: "h2 q = (if same_group (Suc k) s q then set_gpa_block_order (h1 q) (block_order (h s) - 1) else h1 q)" for q
    unfolding h2_def for_gpas_apply same_group_range halves(1) [OF dv] ..
  have bs: "b \<noteq> s" by (simp add: b_def)
  have m': "hs = [s, b] \<and> h' = upd_gpa (\<lambda>g. (set_gpa_flags g (gpa_flags (h1 s)))\<lparr>r_state := r_state (h2 s)\<rparr>) b h2
    \<and> block_count (els_stats m') = block_count (add_count (block_order (h s) - 1) 2 (add_count (block_order (h s)) (- 1) (els_stats m)))"
    using res t lk bud num
    by (auto simp: els_reduce_def Let_def h_def h'_def h2_def upd_lp_def h1)
  then show "hs = [s, b]" by blast
  have h': "h' q = (if q = b then (set_gpa_flags (h2 b) (gpa_flags (h s)))\<lparr>r_state := r_state (h s)\<rparr> else h2 q)" for q
    using m' h2 [of s] bs h1 by (simp add: upd_gpa_def)
  have "orders_of (h' q) = orders_of (h2 q)" for q
    unfolding h' by (simp add: orders_of_def set_gpa_flags_def)
  moreover have "orders_of (h2 q) = orders_of (if same_group (desc_order (h s)) s q
      then set_gpa_block_order (h q) (sb_order (h s) + k) else h q)" for q
    using h2 [of q] d bo by (simp add: orders_of_def emp_ops h1 h_def)
  ultimately have ord: "orders_of (h' q) = orders_of (if same_group (desc_order (h s)) s q
      then set_gpa_block_order (h q) (sb_order (h s) + k) else h q)" for q by simp
  have le: "sb_order (h s) \<le> sb_order (h s) + k" "sb_order (h s) + k \<le> block_order (h s)" using bo by simp_all
  note low = els_ok_lower [OF ok [folded h_def] hd [folded h_def] le ord]
  show "els_ok h'" by (rule low(1))
  show desc: "desc_order (h' q) = (if same_group (Suc k) s q then k else desc_order (h q))" for q
    using low(2) [of q] d by (simp add: h_def)
  have "same_group (Suc k) s s" "same_group (Suc k) s b"
    unfolding same_group_range halves(1) [OF dv] by (simp_all add: b_def)
  then show "emp_get_block_head h' s = s" "emp_get_block_head h' b = b"
    using desc [of s] desc [of b] halves [OF dv] by (simp_all add: emp_get_block_head_def b_def)
  show "\<not> gpa_lock (h b)" by (rule nl)
  have lock2: "gpa_lock (h2 q) = gpa_lock (h1 q)" "gpa_flags (h2 q) = gpa_flags (h1 q)" "r_state (h2 q) = r_state (h1 q)" for q
    using h2 [of q] by simp_all
  show "gpa_lock (h' q) \<longleftrightarrow> q = b \<or> gpa_lock (h q)" for q
    by (simp add: h' lock2 h1)
  show "gpa_flags (h' b) = gpa_flags (h b) OR gpa_flags (h s)" "r_state (h' b) = r_state (h s)"
    by (simp_all add: h' lock2 h1 set_gpa_flags_def)
  show "gpa_flags (h' q) = gpa_flags (h q) \<and> r_state (h' q) = r_state (h q)" if "q \<noteq> b" for q
    using that by (simp add: h' lock2 h1)
  have "block_order (h s) < 16" using os by (simp add: orders_ok_def BLOCK_MAX_ORDER_def)
  moreover have "counted_pages (els_stats m') = counted_pages (add_count (block_order (h s) - 1) 2
      (add_count (block_order (h s)) (- 1) (els_stats m)))"
    by (rule counted_pages_cong) (use m' in blast)
  ultimately show "counted_pages (els_stats m') = counted_pages (els_stats m)"
    using bo by (simp add: counted_pages_add)
qed

text \<open>Members are locked one by one; a failure leaves exactly those before the failing one locked.\<close>

definition lock_all :: "gpa_ptr set \<Rightarrow> gpa_heap \<Rightarrow> gpa_heap" where
  "lock_all P h = (\<lambda>q. if q \<in> P then (h q)\<lparr>gpa_lock := True\<rparr> else h q)"

lemma trylock_members_spec:
  "distinct gs \<Longrightarrow> trylock_members gs h = (r, h') \<Longrightarrow>
     (case r of
        None \<Rightarrow> h' = lock_all (set gs) h \<and> (\<forall>g \<in> set gs. \<not> gpa_lock (h g))
      | Some e \<Rightarrow> \<exists>pre post. gs = pre @ e # post \<and> h' = lock_all (set pre) h
          \<and> gpa_lock (h e) \<and> (\<forall>g \<in> set pre. \<not> gpa_lock (h g)))"
proof (induction gs arbitrary: h)
  case Nil
  then show ?case by (auto simp: lock_all_def)
next
  case (Cons g gs)
  obtain locked h1 where t: "emp_trylock_head h g = (locked, h1)" by fastforce
  show ?case
  proof (cases locked)
    case False
    have "emp_trylock_head h g = (False, h1)" using t False by simp
    from failed_trylock [OF this] have f: "h1 = h" "gpa_lock (h g)" by blast+
    then have r: "r = Some g" "h' = h" using Cons.prems(2) t False by auto
    show ?thesis
      unfolding r(1) option.case
      by (rule exI [of _ "[]"], rule exI [of _ gs]) (simp add: r f lock_all_def)
  next
    case True
    have "emp_trylock_head h g = (True, h1)" using t True by simp
    from unlock_after_trylock [OF this] have
      h1: "h1 = h(g := (h g)\<lparr>gpa_lock := True\<rparr>)" "\<not> gpa_lock (h g)" by blast+
    have r: "trylock_members gs h1 = (r, h')" using Cons.prems(2) t True by simp
    have g: "g \<notin> set gs" "distinct gs" using Cons.prems(1) by simp_all
    have la: "lock_all (set pre) h1 = lock_all (set (g # pre)) h" for pre
      by (auto simp: lock_all_def h1(1) fun_eq_iff)
    have same: "g' \<in> set gs \<Longrightarrow> h1 g' = h g'" for g' using g(1) by (auto simp: h1(1))
    note ih = Cons.IH [OF g(2) r]
    show ?thesis
    proof (cases r)
      case None
      with ih la [of gs] same h1(2) show ?thesis by simp
    next
      case (Some e)
      with ih obtain pre post where p: "gs = pre @ e # post" "h' = lock_all (set pre) h1"
        "gpa_lock (h1 e)" "\<forall>g \<in> set pre. \<not> gpa_lock (h1 g)" by auto
      have "g # gs = (g # pre) @ e # post \<and> h' = lock_all (set (g # pre)) h
          \<and> gpa_lock (h e) \<and> (\<forall>g' \<in> set (g # pre). \<not> gpa_lock (h g'))"
        using p la [of pre] same h1(2) by simp
      then show ?thesis unfolding Some option.case by blast
    qed
  qed
qed

lemma unlock_fold:
  "foldl emp_unlock_head h gs q = (if q \<in> set gs then (h q)\<lparr>gpa_lock := False\<rparr> else h q)"
  by (induction gs arbitrary: h) (auto simp: emp_unlock_head_def emp_gpa_unlock_def)

lemma unlock_lock_all:
  assumes "\<forall>g \<in> set gs. \<not> gpa_lock (h g)"
  shows "foldl emp_unlock_head (lock_all (set gs) h) gs = h"
proof
  fix q
  have "q \<in> set gs \<Longrightarrow> (h q)\<lparr>gpa_lock := False\<rparr> = h q" using assms by simp
  then show "foldl emp_unlock_head (lock_all (set gs) h) gs q = h q"
    by (simp add: unlock_fold lock_all_def)
qed

lemma els_tryreduce_complete_fail:
  assumes "els_tryreduce_complete m s = (None, m')"
  shows "m' = m"
proof -
  let ?gs = "[s + 1 ..< s + num_subblock_in_block (mm_gpas m s)]"
  obtain r h1 where t: "trylock_members ?gs (mm_gpas m) = (r, h1)" by fastforce
  with assms obtain e where r: "r = Some e"
    and m': "m' = m\<lparr>mm_gpas := foldl emp_unlock_head h1 [s + 1 ..< e]\<rparr>"
    by (cases r) (auto simp: els_tryreduce_complete_def Let_def)
  from trylock_members_spec [OF distinct_upt t] r obtain pre post where
    p: "?gs = pre @ e # post" "h1 = lock_all (set pre) (mm_gpas m)" "\<forall>g \<in> set pre. \<not> gpa_lock (mm_gpas m g)"
    by auto
  let ?l = "length pre"
  have len: "?l < length ?gs" using p(1) by (metis length_append length_Cons less_add_same_cancel1 zero_less_Suc)
  have "pre = take ?l ?gs" using p(1) by simp
  also have "\<dots> = [s + 1 ..< s + 1 + ?l]" using len by (intro take_upt) simp
  finally have pre: "pre = [s + 1 ..< s + 1 + ?l]" .
  have "e = ?gs ! ?l" using p(1) by (metis nth_append_length)
  also have "\<dots> = s + 1 + ?l" using len by (intro nth_upt) simp
  finally have pre: "pre = [s + 1 ..< e]" using pre by simp
  have "foldl emp_unlock_head h1 pre = mm_gpas m" using p(2,3) unlock_lock_all by simp
  with m' pre show ?thesis by simp
qed

definition reduced_cell :: "gpa_ptr \<Rightarrow> u32 \<Rightarrow> nat \<Rightarrow> gpa_state \<Rightarrow> gpa_ptr \<Rightarrow> emp_gpa \<Rightarrow> emp_gpa" where
  "reduced_cell s flag k rs q g =
     (let g = set_gpa_block_order g k
      in if q = s \<or> local_page g = None then g else (set_gpa_flags g flag)\<lparr>r_state := rs\<rparr>)"

lemma reduce_member_gpas:
  "mm_gpas (reduce_member s flag k m g)
    = (mm_gpas m)(g := reduced_cell s flag k (r_state (mm_gpas m s)) g (mm_gpas m g))"
  by (auto simp: reduce_member_def reduced_cell_def Let_def upd_gpa_def upd_lp_def fun_eq_iff
      split: option.splits)

lemma reduce_member_stats: "els_stats (reduce_member s flag k m g) = els_stats m"
  by (auto simp: reduce_member_def Let_def upd_lp_def split: option.splits)

lemma reduce_members_stats: "els_stats (foldl (reduce_member s flag k) m gs) = els_stats m"
  by (induction gs arbitrary: m) (simp_all add: reduce_member_stats)

lemma reduced_cell_head [simp]: "r_state (reduced_cell s flag k rs s g) = r_state g"
  by (simp add: reduced_cell_def Let_def)

lemma reduce_members_gpas:
  "mm_gpas (foldl (reduce_member s flag k) m [s ..< s + n]) q
    = (if s \<le> q \<and> q < s + n then reduced_cell s flag k (r_state (mm_gpas m s)) q (mm_gpas m q)
       else mm_gpas m q)"
proof (induction n arbitrary: q)
  case 0
  then show ?case by auto
next
  case (Suc n)
  let ?m = "foldl (reduce_member s flag k) m [s ..< s + n]"
  have rs: "r_state (mm_gpas ?m s) = r_state (mm_gpas m s)" using Suc [of s] by simp
  have "mm_gpas (foldl (reduce_member s flag k) m [s ..< s + Suc n])
    = (mm_gpas ?m)(s + n := reduced_cell s flag k (r_state (mm_gpas m s)) (s + n) (mm_gpas ?m (s + n)))"
    by (simp add: reduce_member_gpas rs)
  then show ?case using Suc [of q] Suc [of "s + n"] by auto
qed

lemma els_tryreduce_complete_ok:
  assumes ok: "els_ok (mm_gpas m)" and hd: "emp_get_block_head (mm_gpas m) s = s"
    and lk: "gpa_lock (mm_gpas m s)"
    and res: "els_tryreduce_complete m s = (Some hs, m')"
  defines "h \<equiv> mm_gpas m" and "h' \<equiv> mm_gpas m'" and "d \<equiv> desc_order (mm_gpas m s)"
  shows "hs = [s ..< s + 2 ^ d]" and "els_ok h'"
    and "\<And>q. desc_order (h' q) = (if same_group d s q then 0 else desc_order (h q))"
    and "\<And>q. gpa_lock (h' q) \<longleftrightarrow> same_group d s q \<or> gpa_lock (h q)"
    and "\<And>q. same_group d s q \<Longrightarrow> q \<noteq> s \<Longrightarrow> \<not> gpa_lock (h q)"
    and "\<And>q. same_group d s q \<Longrightarrow> q \<noteq> s \<Longrightarrow> local_page (h q) \<noteq> None \<Longrightarrow>
          gpa_flags (h' q) = gpa_flags (h q) OR gpa_flags (h s) \<and> r_state (h' q) = r_state (h s)"
    and "counted_pages (els_stats m') = counted_pages (els_stats m)"
proof -
  have os: "orders_ok (h s)" using els_ok_orders [OF ok] by (simp add: h_def)
  have bo: "block_order (h s) = sb_order (h s) + d" using orders_ok_sum [OF os] by (simp add: h_def d_def)
  have num: "num_subblock_in_block (h s) = 2 ^ d" using bo by (simp add: num_subblock_in_block_def)
  have dv: "2 ^ d dvd s" using head_dvd [OF hd] by (simp add: d_def)
  then have al: "align_down d s = s" by (intro align_down_unique) auto
  note sg = same_group_range [of d s, unfolded al]
  let ?gs = "[s + 1 ..< s + 2 ^ d]"
  obtain r h1 where t: "trylock_members ?gs h = (r, h1)" by fastforce
  have ev: "r = None \<and> hs = [s ..< s + 2 ^ d]
      \<and> h' = mm_gpas (foldl (reduce_member s (gpa_flags (h1 s)) (sb_order (h s))) (m\<lparr>mm_gpas := h1\<rparr>) [s ..< s + 2 ^ d])
      \<and> block_count (els_stats m') = block_count (add_count (sb_order (h s)) (int (2 ^ d)) (add_count (block_order (h s)) (- 1) (els_stats m)))"
    using res t num
    by (cases r) (auto simp: els_tryreduce_complete_def Let_def h_def h'_def reduce_members_stats)
  then show "hs = [s ..< s + 2 ^ d]" by blast
  have h1: "h1 = lock_all (set ?gs) h" and nl: "\<forall>g \<in> set ?gs. \<not> gpa_lock (h g)"
    using trylock_members_spec [OF distinct_upt t] ev by simp_all
  have h1s: "h1 s = h s" by (simp add: h1 lock_all_def)
  have h1q: "orders_of (h1 q) = orders_of (h q)" "gpa_flags (h1 q) = gpa_flags (h q)"
    "r_state (h1 q) = r_state (h q)" "local_page (h1 q) = local_page (h q)"
    "gpa_lock (h1 q) \<longleftrightarrow> q \<in> set ?gs \<or> gpa_lock (h q)" for q
    by (auto simp add: h1 lock_all_def orders_of_def)
  have h': "h' q = (if same_group d s q
      then reduced_cell s (gpa_flags (h s)) (sb_order (h s)) (r_state (h s)) q (h1 q) else h1 q)" for q
    using ev by (simp add: reduce_members_gpas sg h1s)
  have ord: "orders_of (h' q) = orders_of (if same_group (desc_order (h s)) s q
      then set_gpa_block_order (h q) (sb_order (h s)) else h q)" for q
    using h' [of q] h1q(1) [of q]
    by (simp add: d_def h_def reduced_cell_def Let_def orders_of_def emp_ops set_gpa_flags_def)
  note low = els_ok_lower [OF ok [folded h_def] hd [folded h_def] le_refl _ ord]
  have le: "sb_order (h s) \<le> block_order (h s)" using bo by simp
  show "els_ok h'" by (rule low(1) [OF le])
  show "desc_order (h' q) = (if same_group d s q then 0 else desc_order (h q))" for q
    using low(2) [OF le, of q] by (simp add: d_def h_def)
  show "gpa_lock (h' q) \<longleftrightarrow> same_group d s q \<or> gpa_lock (h q)" for q
  proof -
    have c: "gpa_lock (reduced_cell s f k rs q g) = gpa_lock g" for f k rs g
      by (simp add: reduced_cell_def Let_def)
    have "gpa_lock (h' q) \<longleftrightarrow> gpa_lock (h1 q)" using h' [of q] by (simp add: c)
    then show ?thesis using h1q(5) [of q] lk sg [of q] unfolding h_def by (cases "q = s") auto
  qed
  show "\<not> gpa_lock (h q)" if "same_group d s q" "q \<noteq> s" for q
    using nl that sg by auto
  show "gpa_flags (h' q) = gpa_flags (h q) OR gpa_flags (h s) \<and> r_state (h' q) = r_state (h s)"
    if "same_group d s q" "q \<noteq> s" "local_page (h q) \<noteq> None" for q
    using h' [of q] that h1q [of q] by (simp add: reduced_cell_def Let_def set_gpa_flags_def)
  have b16: "block_order (h s) < 16" using os by (simp add: orders_ok_def BLOCK_MAX_ORDER_def)
  have "counted_pages (els_stats m') = counted_pages (add_count (sb_order (h s)) (int (2 ^ d))
      (add_count (block_order (h s)) (- 1) (els_stats m)))"
    by (rule counted_pages_cong) (use ev in blast)
  then show "counted_pages (els_stats m') = counted_pages (els_stats m)"
    using b16 bo by (simp add: counted_pages_add power_add)
qed

section \<open>The stretching loop\<close>

text \<open>
  What the loop relies on: other threads keep the descriptors well formed and do not touch a block
  whose head is locked.
\<close>

definition polite :: "(nat \<Rightarrow> gpa_heap \<Rightarrow> gpa_heap) \<Rightarrow> bool" where
  "polite others \<longleftrightarrow> (\<forall>k h. els_ok h \<longrightarrow> els_ok (others k h)
     \<and> (\<forall>c q. emp_get_block_head h c = c \<longrightarrow> gpa_lock (h c) \<longrightarrow>
          same_group (desc_order (h c)) c q \<longrightarrow> others k h q = h q))"

definition held_head :: "gpa_heap \<Rightarrow> gpa_ptr \<Rightarrow> bool" where
  "held_head h c \<longleftrightarrow> els_ok h \<and> emp_get_block_head h c = c \<and> gpa_lock (h c)"

text \<open>
  Local pages: the members of a block that is ACTIVE and not locked have one, and other threads keep
  it so.
\<close>

definition pages_held :: "gpa_heap \<Rightarrow> gpa_ptr \<Rightarrow> bool" where
  "pages_held h c \<longleftrightarrow> (\<forall>q. same_group (desc_order (h c)) c q \<longrightarrow> local_page (h q) \<noteq> None)"

definition residents :: "gpa_heap \<Rightarrow> bool" where
  "residents h \<longleftrightarrow> (\<forall>b. emp_get_block_head h b = b \<longrightarrow> \<not> gpa_lock (h b) \<longrightarrow> r_state (h b) = GPA_ACTIVE \<longrightarrow> pages_held h b)"

definition keeps_pages :: "(nat \<Rightarrow> gpa_heap \<Rightarrow> gpa_heap) \<Rightarrow> bool" where
  "keeps_pages others \<longleftrightarrow> (\<forall>k h. els_ok h \<longrightarrow> residents h \<longrightarrow> residents (others k h))"

definition resident_head :: "gpa_heap \<Rightarrow> gpa_ptr \<Rightarrow> bool" where
  "resident_head h c \<longleftrightarrow> held_head h c \<and> pages_held h c \<and> residents h"

lemma polite_keeps:
  "polite others \<Longrightarrow> held_head h c \<Longrightarrow> held_head (others k h) c \<and> others k h c = h c"
  unfolding polite_def held_head_def emp_get_block_head_def using same_group_refl by metis

lemma polite_keeps_resident:
  assumes "polite others" and "keeps_pages others" and "resident_head h c"
  shows "resident_head (others k h) c" and "same_group (desc_order (h c)) c q \<Longrightarrow> others k h q = h q"
proof -
  have held: "held_head h c" using assms(3) by (simp add: resident_head_def)
  note k = polite_keeps [OF assms(1) held, of k]
  have same: "others k h q = h q" if "same_group (desc_order (h c)) c q" for q
    using assms(1) held that by (auto simp: polite_def held_head_def)
  then show "same_group (desc_order (h c)) c q \<Longrightarrow> others k h q = h q" .
  have "pages_held (others k h) c" using same k assms(3) by (simp add: pages_held_def resident_head_def)
  with k assms(2,3) show "resident_head (others k h) c"
    by (simp add: resident_head_def keeps_pages_def held_head_def)
qed

lemma super_head_other:
  "els_get_super_head h c = Some s \<Longrightarrow> emp_get_block_head h c = c \<Longrightarrow>
     c = s \<or> c = s + 2 ^ desc_order (h c)"
  using same_group_Suc(2) [OF head_dvd [of h c], of s]
  by (auto simp: els_get_super_head_def head_at_align split: if_splits)

lemma stretchable_buddies:
  assumes pol: "polite others" and held: "held_head h c" and s: "els_get_super_head h c = Some s"
    and r: "els_is_stretchable (others k) h s c flag = (Some b, h')"
  shows "held_head h' c" and "buddies h' c s b" and "gpa_lock (h' b)" and "h' c = h c"
proof -
  note f = els_is_stretchable_Some [OF r]
  note p = polite_keeps [OF pol held, of k]
  have n: "num_subblock_in_block (h c) = 2 ^ desc_order (h c)"
    using held els_ok_orders [of h c] by (simp add: held_head_def num_subblock_in_block_def orders_ok_def)
  have bc: "b \<noteq> c" using f(1) super_head_other [OF s] held n by (auto simp: held_head_def)
  have h'c: "h' c = h c" using f(3) p bc by simp
  then show "h' c = h c" .
  have "orders_of (h' q) = orders_of (others k h q)" for q using f(3) by (simp add: orders_of_def)
  then have "els_ok h'" using els_ok_cong [of h' "others k h"] p by (simp add: held_head_def)
  then show "held_head h' c" using held h'c by (simp add: held_head_def emp_get_block_head_def)
  show "buddies h' c s b"
    using held s f(1,5) h'c by (auto simp: buddies_def held_head_def emp_get_block_head_def els_get_super_head_def)
  show "gpa_lock (h' b)" using f(3) by simp
qed

lemma buddy_head:
  assumes "els_ok h" and "buddies h c s b"
  shows "emp_get_block_head h b = b" and "desc_order (h b) = desc_order (h c)"
    and "same_group (Suc (desc_order (h c))) c b"
    and "same_group (Suc (desc_order (h c))) c q \<longleftrightarrow>
      same_group (desc_order (h c)) c q \<or> same_group (desc_order (h c)) b q"
proof -
  let ?d = "desc_order (h c)"
  note f = buddies_facts [OF assms]
  note g = same_group_Suc [OF f(2,1)]
  have s: "2 ^ ?d dvd s"
  proof -
    have "2 ^ Suc ?d dvd s" unfolding f(1) by (rule align_down_dvd)
    then show ?thesis by (metis dvd_mult_left power_Suc2)
  qed
  then have "2 ^ ?d dvd b" using f(3) by (auto simp: dvd_add)
  then have a: "align_down ?d b = b" by (intro align_down_unique) auto
  show two: "same_group (Suc ?d) c q \<longleftrightarrow> same_group ?d c q \<or> same_group ?d b q" for q
    using g(1) [of q] f(3) by auto
  show cb: "same_group (Suc ?d) c b" using two [of b] by simp
  show "desc_order (h b) = ?d" using f(4) [OF cb] by simp
  with a show "emp_get_block_head h b = b" by (simp add: emp_get_block_head_def head_at_align)
qed

lemma stretchable_pages:
  assumes "polite others" and "keeps_pages others" and res: "resident_head h c"
    and s: "els_get_super_head h c = Some s"
    and r: "els_is_stretchable (others k) h s c flag = (Some b, h')"
  shows "resident_head h' c" and "pages_held h' b"
proof -
  have held: "held_head h c" using res by (simp add: resident_head_def)
  note f = els_is_stretchable_Some [OF r] and sb = stretchable_buddies [OF assms(1) held s r]
  note o = polite_keeps_resident(1) [OF assms(1,2) res, of k]
  have ok: "els_ok h'" using sb(1) by (simp add: held_head_def)
  note bh = buddy_head [OF ok sb(2)]
  have same: "orders_of (h' q) = orders_of (others k h q)" "local_page (h' q) = local_page (others k h q)"
    "r_state (h' q) = r_state (others k h q)" for q
    using f(3) by (simp_all add: orders_of_def)
  then have d: "desc_order (h' q) = desc_order (others k h q)" for q by (simp add: orders_of_def)
  have hd: "emp_get_block_head h' q = q \<longleftrightarrow> emp_get_block_head (others k h) q = q" for q
    by (simp add: emp_get_block_head_def d)
  have ph: "pages_held h' q \<longleftrightarrow> pages_held (others k h) q" for q
    by (simp add: pages_held_def d same(2))
  have "pages_held (others k h) b"
    using o bh(1) f(2,4) hd [of b] same(3) [of b] by (auto simp: resident_head_def residents_def)
  then show "pages_held h' b" by (simp add: ph)
  have "residents h'"
    using o f(3) unfolding resident_head_def residents_def ph hd same(3) by auto
  then show "resident_head h' c" using o sb(1) by (simp add: resident_head_def ph)
qed

text \<open>One round: the merged block's head is held, the other half's lock is released.\<close>

lemma stretch_round:
  assumes held: "held_head (mm_gpas m) c" and b: "buddies (mm_gpas m) c s b" and lb: "gpa_lock (mm_gpas m b)"
    and r: "els_stretch m s b = Some m1"
  defines "h \<equiv> mm_gpas m" and "m' \<equiv> unlock_secondary c b m1"
  shows "held_head (mm_gpas m') s" and "desc_order (mm_gpas m' s) = Suc (desc_order (h c))"
    and "block_order (mm_gpas m' s) = Suc (block_order (h c))"
    and "same_group (Suc (desc_order (h c))) s c"
    and "\<not> gpa_lock (mm_gpas m' (if c = s then b else c))"
    and "counted_pages (els_stats m') = counted_pages (els_stats m)"
    and "pages_held h c \<Longrightarrow> pages_held h b \<Longrightarrow> residents h \<Longrightarrow> resident_head (mm_gpas m') s"
proof -
  let ?d = "desc_order (h c)" and ?sec = "if c < b then b else c"
  have ok: "els_ok (mm_gpas m)" using held by (simp add: held_head_def)
  note f = buddies_facts [OF ok b, folded h_def] and st = els_stretch_ok [OF ok b r, folded h_def]
  let ?g = "mm_gpas m1"
  have g': "mm_gpas m' q = (if q = ?sec then (?g q)\<lparr>gpa_lock := False\<rparr> else ?g q)" for q
    by (simp add: m'_def unlock_secondary_def emp_unlock_head_def emp_gpa_unlock_def)
  have sec: "?sec = (if c = s then b else c)" and ne: "?sec \<noteq> s" using f(3) by auto
  have ord: "orders_of (mm_gpas m' q) = orders_of (?g q)" for q by (simp add: g' orders_of_def)
  then have ok': "els_ok (mm_gpas m')" using els_ok_cong [of "mm_gpas m'" ?g] st(1) by simp
  show sg: "same_group (Suc ?d) s c"
    by (rule same_group_sym) (simp add: same_group_range f(1))
  have ds: "desc_order (mm_gpas m' s) = Suc ?d"
    using ord [of s] st(2) [of s] same_group_sym [OF sg] by (simp add: orders_of_def)
  then show "desc_order (mm_gpas m' s) = Suc ?d" .
  have "sb_order (mm_gpas m' s) = sb_order (h s)" using ord [of s] st(3) [of s] by (simp add: orders_of_def)
  then have "block_order (mm_gpas m' s) = sb_order (h s) + Suc ?d"
    using orders_ok_sum [OF els_ok_orders [OF ok'], of s] ds by simp
  moreover have "block_order (h c) = sb_order (h s) + ?d"
    using f(4) [OF same_group_sym [OF sg]] orders_ok_sum [OF els_ok_orders [OF ok, of c]] by (simp add: h_def)
  ultimately show "block_order (mm_gpas m' s) = Suc (block_order (h c))" by simp
  have hd: "emp_get_block_head (mm_gpas m') s = s"
  proof -
    have "align_down (Suc ?d) s = s" by (simp add: f(1))
    then show ?thesis unfolding emp_get_block_head_def ds head_at_align .
  qed
  have "gpa_lock (h s)" using held lb f(3) by (auto simp: held_head_def h_def)
  then have "gpa_lock (mm_gpas m' s)" using g' [of s] ne st(4) [of s] by simp
  with ok' hd show held': "held_head (mm_gpas m') s" by (simp add: held_head_def)
  show "\<not> gpa_lock (mm_gpas m' (if c = s then b else c))" using g' [of ?sec] sec by simp
  show "counted_pages (els_stats m') = counted_pages (els_stats m)"
    using st(9) by (simp add: m'_def unlock_secondary_def)
  note bh = buddy_head [OF ok b, folded h_def]
  have lp: "local_page (mm_gpas m' q) = local_page (h q)" for q using g' [of q] st(4) [of q] by auto
  have sec_in: "same_group (Suc ?d) c ?sec" using bh(3) by simp
  show "resident_head (mm_gpas m') s" if pc: "pages_held h c" and pb: "pages_held h b" and res: "residents h"
  proof -
    have "local_page (h q) \<noteq> None" if "same_group (Suc ?d) c q" for q
      using that bh(4) [of q] pc pb bh(2) by (auto simp: pages_held_def)
    then have "pages_held (mm_gpas m') s"
      using same_group_trans [OF same_group_sym [OF sg]] by (simp add: pages_held_def ds lp)
    moreover have "residents (mm_gpas m')"
      unfolding residents_def
    proof (intro allI impI)
      fix x
      assume x: "emp_get_block_head (mm_gpas m') x = x" "\<not> gpa_lock (mm_gpas m' x)" "r_state (mm_gpas m' x) = GPA_ACTIVE"
      have "\<not> same_group (Suc ?d) c x"
      proof
        assume c: "same_group (Suc ?d) c x"
        then have "desc_order (mm_gpas m' x) = Suc ?d"
          using ord [of x] st(2) [of x] by (simp add: orders_of_def)
        then have "x = align_down (Suc ?d) x" using x(1) by (simp add: emp_get_block_head_def head_at_align)
        also have "\<dots> = s" using c by (simp add: f(1) same_group_def align_down_eq)
        finally show False using x(2) \<open>gpa_lock (mm_gpas m' s)\<close> by simp
      qed
      then have "mm_gpas m' x = h x" using g' [of x] st(10) [of x] sec_in by auto
      then show "pages_held (mm_gpas m') x"
        using x res by (simp add: residents_def pages_held_def lp emp_get_block_head_def)
    qed
    ultimately show ?thesis using held' by (simp add: resident_head_def)
  qed
qed

definition same_cpus :: "emp_mm \<Rightarrow> emp_mm \<Rightarrow> bool" where
  "same_cpus m m' \<longleftrightarrow> mm_possible_cpus m' = mm_possible_cpus m \<and> mm_vcpus_len m' = mm_vcpus_len m"

lemma same_cpus_round: "els_stretch m s b = Some m1 \<Longrightarrow> same_cpus m (unlock_secondary c b m1)"
  by (auto simp: same_cpus_def unlock_secondary_def els_stretch_def els_update_gpa_flags_def upd_lp_def Let_def
      clear_gpa_flags_if_set_def split: if_splits)

lemma stretch_loop_ok:
  assumes pol: "polite others" and kp: "keeps_pages others"
  shows "resident_head (mm_gpas m) c \<Longrightarrow> els_get_super_head (mm_gpas m) c = Some s \<Longrightarrow>
    \<exists>p m'. stretch_loop others flag aggr level m s c = Some (p, m') \<and> resident_head (mm_gpas m') p
      \<and> same_group (desc_order (mm_gpas m' p)) p c
      \<and> desc_order (mm_gpas m c) \<le> desc_order (mm_gpas m' p)
      \<and> (p = c \<and> mm_gpas m' c = mm_gpas m c \<or> block_order (mm_gpas m c) < block_order (mm_gpas m' p))
      \<and> counted_pages (els_stats m') = counted_pages (els_stats m) \<and> same_cpus m m'"
proof (induction "16 - block_order (mm_gpas m c)" arbitrary: m c s level rule: less_induct)
  case less
  let ?h = "mm_gpas m"
  obtain r h' where t: "els_is_stretchable (others level) ?h s c flag = (r, h')" by fastforce
  note res = less.prems(1)
  have held: "held_head ?h c" using res by (simp add: resident_head_def)
  show ?case
  proof (cases r)
    case None
    with t have ev: "stretch_loop others flag aggr level m s c = Some (c, m\<lparr>mm_gpas := h'\<rparr>)"
      by (subst stretch_loop.simps) simp
    have "h' = ?h \<or> h' = others level ?h" using els_is_stretchable_None t None by simp
    then have "resident_head h' c \<and> h' c = ?h c"
      using res polite_keeps_resident [OF pol kp res] by auto
    with ev show ?thesis by (simp add: same_cpus_def)
  next
    case (Some b)
    with t have t': "els_is_stretchable (others level) ?h s c flag = (Some b, h')" by simp
    note sb = stretchable_buddies [OF pol held less.prems(2) t']
      and pg = stretchable_pages [OF pol kp res less.prems(2) t']
    define m1 where "m1 = add_page_len (target_list (h' b)) (- int (gpa_block_size (h' b))) (m\<lparr>mm_gpas := h'\<rparr>)"
    have g1: "mm_gpas m1 = h'" "els_stats m1 = els_stats m" by (simp_all add: m1_def add_page_len_def)
    have "els_ok h'" "local_page (h' c) \<noteq> None" using pg(1) by (simp_all add: resident_head_def held_head_def pages_held_def)
    then obtain mr where mr: "els_stretch m1 s b = Some mr"
      using els_stretch_defined [of m1 c s b] sb(2) g1(1) by auto
    define m2 where "m2 = unlock_secondary c b mr"
    note rd = stretch_round [of m1 c s b, unfolded g1, OF sb(1,2,3) mr, folded m2_def]
    have res2: "resident_head (mm_gpas m2) s" using rd(7) pg by (simp add: resident_head_def)
    have ev: "stretch_loop others flag aggr level m s c =
        (if aggr \<noteq> 0 \<and> level + 1 \<ge> aggr then Some (s, m2)
         else case els_get_super_head (mm_gpas m2) s of
                None \<Rightarrow> Some (s, m2)
              | Some nxt \<Rightarrow> stretch_loop others flag aggr (level + 1) m2 nxt s)"
      by (subst stretch_loop.simps) (simp only: t' prod.case option.case Let_def m1_def [symmetric] mr m2_def [symmetric])
    have cp: "same_cpus m m2" using same_cpus_round [OF mr, of c] by (simp add: m2_def m1_def same_cpus_def add_page_len_def)
    have bo: "block_order (mm_gpas m2 s) = Suc (block_order (?h c))"
      and do: "desc_order (mm_gpas m2 s) = Suc (desc_order (?h c))" using rd(2,3) sb(4) by simp_all
    show ?thesis
    proof (cases "(aggr \<noteq> 0 \<and> level + 1 \<ge> aggr) \<or> els_get_super_head (mm_gpas m2) s = None")
      case True
      then have "stretch_loop others flag aggr level m s c = Some (s, m2)" using ev by auto
      with res2 rd(1,2,4,6) bo do cp show ?thesis by auto
    next
      case False
      then obtain nxt where nxt: "els_get_super_head (mm_gpas m2) s = Some nxt" by auto
      have lt: "16 - block_order (mm_gpas m2 s) < 16 - block_order (?h c)"
      proof -
        have "block_order (mm_gpas m2 s) \<le> 9"
          using rd(1) els_ok_orders [of "mm_gpas m2" s] by (simp add: held_head_def orders_ok_def BLOCK_MAX_ORDER_def)
        with bo show ?thesis by simp
      qed
      from less.hyps [OF lt res2 nxt, of "level + 1"] obtain p m' where
        i: "stretch_loop others flag aggr (level + 1) m2 nxt s = Some (p, m')" "resident_head (mm_gpas m') p"
        "same_group (desc_order (mm_gpas m' p)) p s" "desc_order (mm_gpas m2 s) \<le> desc_order (mm_gpas m' p)"
        "p = s \<and> mm_gpas m' s = mm_gpas m2 s \<or> block_order (mm_gpas m2 s) < block_order (mm_gpas m' p)"
        "counted_pages (els_stats m') = counted_pages (els_stats m2)" "same_cpus m2 m'" by blast
      have "stretch_loop others flag aggr level m s c = Some (p, m')" using ev False nxt i(1) by auto
      moreover have "same_group (desc_order (mm_gpas m' p)) s c"
        using same_group_mono [OF rd(4)] i(4) rd(2) by simp
      moreover have "same_group (desc_order (mm_gpas m' p)) p c"
        using same_group_trans [OF i(3) calculation(2)] .
      moreover have "block_order (?h c) < block_order (mm_gpas m' p)" using i(5) bo by auto
      moreover have "desc_order (?h c) \<le> desc_order (mm_gpas m' p)" using i(4) do by simp
      ultimately show ?thesis using i(2,6,7) rd(6) cp by (auto simp: same_cpus_def)
    qed
  qed
qed

section \<open>Leaving the lists\<close>

definition member_page :: "emp_mm \<Rightarrow> gpa_ptr \<Rightarrow> nat" where
  "member_page m g = the (local_page (mm_gpas m g))"

definition on_list :: "emp_mm \<Rightarrow> nat \<Rightarrow> bool" where
  "on_list m l \<longleftrightarrow> is_local_page_on_list (mm_lps m l)"

text \<open>
  The pages of the descriptors \<open>G\<close> are on the list that their flags name, and on no other.
\<close>

definition slru_ok :: "emp_mm \<Rightarrow> gpa_ptr set \<Rightarrow> bool" where
  "slru_ok m G \<longleftrightarrow>
     (\<forall>k p. emp_list_ok (slru_lists m k p) \<and> distinct (el_head (slru_lists m k p)))
     \<and> inj_on (member_page m) G
     \<and> (\<forall>g \<in> G. \<forall>k p. member_page m g \<in> set (el_head (slru_lists m k p)) \<longleftrightarrow>
          on_list m (member_page m g) \<and> k = target_list (mm_gpas m g)
          \<and> p = list_place (mm_lps m (member_page m g)))"

definition left_lists :: "emp_mm \<Rightarrow> nat set \<Rightarrow> emp_mm \<Rightarrow> bool" where
  "left_lists m P m' \<longleftrightarrow>
     (\<forall>l. on_list m' l \<longleftrightarrow> on_list m l \<and> l \<notin> P)
     \<and> (\<forall>k p l. l \<in> set (el_head (slru_lists m' k p)) \<longleftrightarrow> l \<in> set (el_head (slru_lists m k p)) \<and> l \<notin> P)"

lemma left_lists_trans: "left_lists a P b \<Longrightarrow> left_lists b Q c \<Longrightarrow> left_lists a (P \<union> Q) c"
  unfolding left_lists_def by blast

lemma clear_list_flags: "\<not> is_local_page_on_list (clear_local_page_list_flags lp)"
proof -
  have "(f AND NOT k) AND k = 0" for f k :: u32 by (simp add: bit_eq_iff bit_simps)
  then show ?thesis by (simp add: is_local_page_on_list_def clear_local_page_list_flags_def)
qed

lemma del_init_head: "el_head (emp_list_del_init l x) = remove1 l (el_head x)"
  by (simp add: emp_list_del_init_def)

lemma target_list_eq:
  "target_list g = (if fst (clear_gpa_flags_if_set g GPA_PROACTIVE_MASK) then PROACTIVE_LIST else ACTIVE_LIST)"
  by (simp add: target_list_def fst_clear is_gpa_flags_set_def)

lemma remove_member_on:
  assumes "on_list m (member_page m g)"
  defines "l \<equiv> member_page m g" and "k \<equiv> target_list (mm_gpas m g)"
    and "p \<equiv> list_place (mm_lps m (member_page m g))" and "m' \<equiv> remove_member g m"
  shows "mm_lps m' = (mm_lps m)(l := clear_local_page_list_flags (mm_lps m l))"
    and "mm_gpas m' = (mm_gpas m)(g := snd (clear_gpa_flags_if_set (mm_gpas m g) GPA_PROACTIVE_MASK))"
    and "slru_lists m' k' p' = (if k' = k \<and> p' = p then emp_list_del_init l (slru_lists m k p)
           else slru_lists m k' p')"
  using assms(1)
  by (auto simp: m'_def l_def k_def p_def remove_member_def member_page_def on_list_def Let_def upd_lp_def
      target_list_eq split: prod.split)

lemma remove_member_off: "\<not> on_list m (member_page m g) \<Longrightarrow> remove_member g m = m"
  by (simp add: remove_member_def on_list_def member_page_def Let_def)

lemma remove_member_pages:
  "member_page (remove_member g m) q = member_page m q"
proof (cases "on_list m (member_page m g)")
  case True
  show ?thesis unfolding member_page_def [of "remove_member g m"] remove_member_on(2) [OF True]
    by (simp add: member_page_def)
qed (simp add: remove_member_off)

lemma remove_member_ok:
  assumes ok: "slru_ok m G" and g: "g \<in> G"
  shows "slru_ok (remove_member g m) G \<and> left_lists m {member_page m g} (remove_member g m)"
proof (cases "on_list m (member_page m g)")
  case False
  have "l \<noteq> member_page m g" if "l \<in> set (el_head (slru_lists m k p))" for l k p
    using ok g False that unfolding slru_ok_def by blast
  with False ok show ?thesis by (auto simp: remove_member_off left_lists_def)
next
  case True
  let ?l = "member_page m g" and ?m = "remove_member g m"
  let ?k = "target_list (mm_gpas m g)" and ?p = "list_place (mm_lps m ?l)"
  note r = remove_member_on [OF True]
  have lists: "emp_list_ok (slru_lists m k p)" "distinct (el_head (slru_lists m k p))" for k p
    using ok by (simp_all add: slru_ok_def)
  have mem: "q \<in> G \<Longrightarrow> member_page m q \<in> set (el_head (slru_lists m k p)) \<longleftrightarrow>
      on_list m (member_page m q) \<and> k = target_list (mm_gpas m q) \<and> p = list_place (mm_lps m (member_page m q))"
    for q k p using ok by (simp add: slru_ok_def)
  have inj: "inj_on (member_page m) G" using ok by (simp add: slru_ok_def)
  have here: "?l \<in> set (el_head (slru_lists m ?k ?p))" using mem [OF g] True by simp
  have on: "on_list ?m l \<longleftrightarrow> on_list m l \<and> l \<noteq> ?l" for l
    using clear_list_flags by (simp add: on_list_def r(1))
  have set: "set (el_head (slru_lists ?m k p)) = set (el_head (slru_lists m k p)) - {?l}" for k p
    using lists(2) mem [OF g, of k p] True unfolding r(3) by (auto simp: del_init_head set_remove1_eq)
  then have left: "left_lists m {?l} ?m" using on by (auto simp: left_lists_def)
  have "emp_list_ok (slru_lists ?m k p) \<and> distinct (el_head (slru_lists ?m k p))" for k p
    unfolding r(3) using lists here emp_list_del_init_ok [of "slru_lists m ?k ?p" ?l]
    by (simp add: del_init_head distinct_remove1)
  moreover have "inj_on (member_page ?m) G" using inj by (simp add: inj_on_def remove_member_pages)
  moreover have "member_page ?m q \<in> set (el_head (slru_lists ?m k p)) \<longleftrightarrow>
      on_list ?m (member_page ?m q) \<and> k = target_list (mm_gpas ?m q)
      \<and> p = list_place (mm_lps ?m (member_page ?m q))" if q: "q \<in> G" for q k p
  proof (cases "q = g")
    case True
    then show ?thesis by (simp add: remove_member_pages set on)
  next
    case False
    then have ne: "member_page m q \<noteq> ?l" using inj q g by (auto simp: inj_on_def)
    then show ?thesis using mem [OF q, of k p] False
      by (simp add: remove_member_pages set on r(1,2))
  qed
  ultimately show ?thesis using left by (simp add: slru_ok_def)
qed

lemma remove_members_ok:
  "slru_ok m (G :: gpa_ptr set) \<Longrightarrow> set gs \<subseteq> G \<Longrightarrow>
     slru_ok (foldl (\<lambda>m g. remove_member g m) m gs) G
     \<and> left_lists m (member_page m ` set gs) (foldl (\<lambda>m g. remove_member g m) m gs)"
proof (induction gs arbitrary: m)
  case Nil
  then show ?case by (simp add: left_lists_def)
next
  case (Cons g gs)
  let ?m = "remove_member g m"
  have g: "g \<in> G" "set gs \<subseteq> G" using Cons.prems(2) by simp_all
  note s = remove_member_ok [OF Cons.prems(1) g(1)]
  have img: "member_page ?m ` set gs = member_page m ` set gs" by (simp add: remove_member_pages)
  note ih = Cons.IH [OF conjunct1 [OF s] g(2), unfolded img]
  have "left_lists m ({member_page m g} \<union> member_page m ` set gs) (foldl (\<lambda>m g. remove_member g m) ?m gs)"
    by (rule left_lists_trans [OF conjunct2 [OF s] conjunct2 [OF ih]])
  with conjunct1 [OF ih] show ?case by simp
qed

lemma remove_from_list_except_for_head_ok:
  assumes "slru_ok m {head ..< head + num_subblock_in_block (mm_gpas m head)}"
    and "remove_from_list_except_for_head m head = Some m'"
  shows "left_lists m (member_page m ` {head + 1 ..< head + num_subblock_in_block (mm_gpas m head)}) m'"
    and "slru_ok m' {head ..< head + num_subblock_in_block (mm_gpas m head)}"
proof -
  let ?n = "num_subblock_in_block (mm_gpas m head)"
  have m: "map (\<lambda>i. head + i) [1 ..< ?n] = [head + 1 ..< head + ?n]"
    by (rule nth_equalityI) simp_all
  have e: "m' = foldl (\<lambda>m g. remove_member g m) m [head + 1 ..< head + ?n]"
    using assms(2) unfolding remove_from_list_except_for_head_def m [symmetric] foldl_map Let_def
    by (simp only: option.simps split: if_splits)
  show "left_lists m (member_page m ` {head + 1 ..< head + ?n}) m'"
    "slru_ok m' {head ..< head + ?n}"
    using remove_members_ok [OF assms(1), of "[head + 1 ..< head + ?n]"] unfolding e by auto
qed

lemma remove_from_list_defined:
  assumes "held_head (mm_gpas m) p" and "pages_held (mm_gpas m) p"
  shows "\<exists>m'. remove_from_list_except_for_head m p = Some m'"
proof -
  let ?d = "desc_order (mm_gpas m p)"
  have n: "num_subblock_in_block (mm_gpas m p) = 2 ^ ?d"
    using assms(1) els_ok_orders [of "mm_gpas m" p] by (simp add: held_head_def num_subblock_in_block_def orders_ok_def)
  have "align_down ?d p = p" using assms(1) by (simp add: held_head_def emp_get_block_head_def head_at_align)
  then have "same_group ?d p (p + i)" if "i < 2 ^ ?d" for i using that by (simp add: same_group_range)
  then have "\<not> list_ex (\<lambda>i. local_page (mm_gpas m (p + i)) = None) [1 ..< 2 ^ ?d]"
    using assms(2) by (auto simp: list_ex_iff pages_held_def)
  then show ?thesis unfolding remove_from_list_except_for_head_def n Let_def by simp
qed

section \<open>The whole operation\<close>

definition keeps_blocks :: "emp_mm \<Rightarrow> emp_mm \<Rightarrow> bool" where
  "keeps_blocks m m' \<longleftrightarrow> (\<forall>q. same_but_flags (mm_gpas m' q) (mm_gpas m q)
     \<and> (\<forall>n. n \<noteq> 18 \<longrightarrow> bit (gpa_flags (mm_gpas m q)) n \<longrightarrow> bit (gpa_flags (mm_gpas m' q)) n))
     \<and> els_stats m' = els_stats m"

lemma keeps_blocks_refl [simp]: "keeps_blocks m m"
  by (simp add: keeps_blocks_def)

lemma keeps_blocks_trans: "keeps_blocks a b \<Longrightarrow> keeps_blocks b c \<Longrightarrow> keeps_blocks a c"
  by (simp add: keeps_blocks_def same_but_flags_def)

lemma proactive_bit: "bit GPA_PROACTIVE_MASK n \<longleftrightarrow> n = 18"
  unfolding GPA_PROACTIVE_MASK_def
  by (simp only: bit_push_bit_iff bit_1_iff possible_bit_word) auto

lemma remove_member_keeps: "keeps_blocks m (remove_member g m)"
proof (cases "on_list m (member_page m g)")
  case False
  then show ?thesis by (simp add: remove_member_off)
next
  case True
  have "els_stats (remove_member g m) = els_stats m"
    by (simp add: remove_member_def Let_def upd_lp_def split: prod.split)
  then show ?thesis
    unfolding keeps_blocks_def remove_member_on(2) [OF True] by (simp add: bit_flag_ops proactive_bit)
qed

lemma remove_from_list_keeps:
  assumes "remove_from_list_except_for_head m head = Some m'"
  shows "keeps_blocks m m'"
proof -
  have "keeps_blocks m (foldl (\<lambda>m i. remove_member (head + i) m) m is)" for "is"
    by (induction "is" rule: rev_induct) (auto intro: keeps_blocks_trans remove_member_keeps)
  then show ?thesis using assms by (auto simp: remove_from_list_except_for_head_def Let_def split: if_splits)
qed

lemma keeps_blocks_held:
  "keeps_blocks m m' \<Longrightarrow> held_head (mm_gpas m') p \<longleftrightarrow> held_head (mm_gpas m) p"
  using els_ok_cong [of "mm_gpas m'" "mm_gpas m"]
  by (simp add: keeps_blocks_def held_head_def same_but_flags_def emp_get_block_head_def orders_of_def)

lemma keeps_blocks_orders:
  "keeps_blocks m m' \<Longrightarrow> block_order (mm_gpas m' p) = block_order (mm_gpas m p)
     \<and> desc_order (mm_gpas m' p) = desc_order (mm_gpas m p)"
  by (simp add: keeps_blocks_def same_but_flags_def orders_of_def)

lemma keeps_blocks_pages:
  "keeps_blocks m m' \<Longrightarrow> pages_held (mm_gpas m') p \<longleftrightarrow> pages_held (mm_gpas m) p"
  by (simp add: keeps_blocks_def same_but_flags_def pages_held_def orders_of_def)

lemma held_head_of:
  assumes "held_head h p" and "same_group (desc_order (h p)) p c"
  shows "emp_get_block_head h c = p"
proof -
  have "desc_order (h c) = desc_order (h p)" "align_down (desc_order (h p)) c = align_down (desc_order (h p)) p"
    using assms els_ok_block [of h p c] by (auto simp: held_head_def same_group_def align_down_eq)
  then show ?thesis using assms(1) by (simp add: held_head_def emp_get_block_head_def head_at_align)
qed

definition rep_result :: "emp_mm \<Rightarrow> gpa_ptr \<Rightarrow> bool \<Rightarrow> emp_mm \<Rightarrow> bool" where
  "rep_result m c r m' \<longleftrightarrow>
     counted_pages (els_stats m') = counted_pages (els_stats m)
     \<and> (let h = mm_gpas m'; p = emp_get_block_head h c
        in held_head h p
           \<and> (if r then block_order (mm_gpas m c) < block_order (h p)
                \<and> bit (gpa_flags (h p)) 20 \<and> bit (gpa_flags (h p)) 9
              else p = c \<and> block_order (h c) = block_order (mm_gpas m c)))"

lemma flag_set_keeps:
  "bit (gpa_flags g) n \<Longrightarrow> bit (gpa_flags (snd (set_gpa_flags_if_unset g f))) n"
  by (simp add: set_gpa_flags_if_unset_def bit_or_iff)

lemma add_gpa_keeps:
  "keeps_blocks m (snd (snd (snd (snd (add_gpa ty c g (tm, nm, tp, np, m))))))
   \<and> mm_cpus (snd (snd (snd (snd (add_gpa ty c g (tm, nm, tp, np, m)))))) = mm_cpus m"
  by (auto simp: add_gpa_def Let_def keeps_blocks_def upd_head_def upd_gpa_def upd_lp_def mm_cpus_def flag_set_keeps)

lemma flush_keeps:
  assumes "c \<in> mm_cpus m"
  shows "keeps_blocks m (flush_active_mru gf m k c n)"
proof -
  have "settled m (flush_active_mru gf m k c n)" by (rule flush_active_mru_settled [OF assms])
  then have "els_stats (flush_active_mru gf m k c n) = els_stats m"
    using quiet_fields by (simp add: settled_def)
  then show ?thesis by (simp add: keeps_blocks_def flush_active_mru_same [OF assms])
qed

lemma splice_mru_keeps:
  assumes "c \<in> mm_cpus m"
  shows "keeps_blocks m (splice_mru gf ty c t n m)"
proof -
  define m1 where "m1 = upd_slru ty (Slru_mru c) (\<lambda>l. snd (emp_list_splice_tail t l)) m"
  have "c \<in> mm_cpus m1" using assms by (simp add: m1_def upd_slru_def mm_cpus_def)
  note fl = flush_keeps [OF this, of gf ty MRU_QUEUE_DEPTH]
  have "keeps_blocks m m1" by (simp add: m1_def upd_slru_def keeps_blocks_def)
  then have "keeps_blocks m (if b then flush_active_mru gf m1 ty c MRU_QUEUE_DEPTH else m1)" for b
    using keeps_blocks_trans [OF _ fl] by simp
  then show ?thesis by (simp add: splice_mru_def m1_def [symmetric] Let_def keeps_blocks_def add_page_len_def)
qed

lemma add_gpas_keeps:
  assumes "c \<in> mm_cpus m" and "add_gpas_to_active_list gf ty m c [g] = Some (n, m')"
  shows "keeps_blocks m m'"
proof -
  obtain tm nm tp np m1 where a: "add_gpa ty c g (init_temp_list, 0, init_temp_list, 0, m) = (tm, nm, tp, np, m1)"
    by (metis prod_cases5)
  have k1: "keeps_blocks m m1" "c \<in> mm_cpus m1"
    using add_gpa_keeps [of m ty c g init_temp_list 0 init_temp_list 0] assms(1) by (simp_all add: a)
  define m2 where "m2 = (if nm > 0 then splice_mru gf ty c tm nm m1 else m1)"
  have k2: "keeps_blocks m m2" using keeps_blocks_trans [OF k1(1) splice_mru_keeps [OF k1(2)]] k1(1) by (simp add: m2_def)
  have "(if np > 0 then splice_pin c tp np m2 else Some m2) = Some m'"
    using assms(2) by (auto simp: add_gpas_to_active_list_def a m2_def)
  then have "m' = m2 \<or> splice_pin c tp np m2 = Some m'" by (simp split: if_splits)
  then have "keeps_blocks m2 m'"
    by (auto simp: splice_pin_def Let_def add_page_len_def keeps_blocks_def)
  with k2 show ?thesis by (rule keeps_blocks_trans)
qed

lemma add_gpas_defined:
  assumes "get_list_ptr_pin m c \<noteq> None" and "c \<in> mm_cpus m"
  shows "add_gpas_to_active_list gf ty m c [g] \<noteq> None"
proof -
  obtain tm nm tp np m1 where a: "add_gpa ty c g (init_temp_list, 0, init_temp_list, 0, m) = (tm, nm, tp, np, m1)"
    by (metis prod_cases5)
  have p: "mm_possible_cpus m1 = mm_possible_cpus m" "mm_vcpus_len m1 = mm_vcpus_len m"
    using a by (auto simp: add_gpa_def Let_def upd_head_def upd_lp_def split: if_splits)
  have "get_list_ptr_pin (splice_mru gf ty c tm nm m1) c = get_list_ptr_pin m c"
  proof -
    let ?m = "upd_slru ty (Slru_mru c) (\<lambda>l. snd (emp_list_splice_tail tm l)) m1"
    have "c \<in> mm_cpus ?m" using assms(2) p by (simp add: upd_slru_def mm_cpus_def)
    then have "mm_possible_cpus (flush_active_mru gf ?m ty c MRU_QUEUE_DEPTH) = mm_possible_cpus ?m"
      using flush_active_mru_settled quiet_frame by (auto simp: settled_def lru_frame_def)
    then show ?thesis
      by (simp add: splice_mru_def Let_def get_list_ptr_pin_def PCPU_ID_def add_page_len_def p) (simp add: upd_slru_def p)
  qed
  moreover have "get_list_ptr_pin m1 c = get_list_ptr_pin m c" by (simp add: get_list_ptr_pin_def PCPU_ID_def p)
  ultimately show ?thesis using assms(1) by (auto simp: add_gpas_to_active_list_def a splice_pin_def Let_def)
qed

text \<open>With local pages held, the one way to have no result is a cpu without a pin list.\<close>

lemma els_stretch_rep_ok:
  assumes pol: "polite others" and kp: "keeps_pages others" and res: "resident_head (mm_gpas m) c" and cpu: "cpu_id \<in> mm_cpus m"
  shows "case els_stretch_rep others global_free m cpu_id c flag aggr of
    None \<Rightarrow> get_list_ptr_pin m cpu_id = None | Some (r, m') \<Rightarrow> rep_result m c r m'"
proof -
  have held: "held_head (mm_gpas m) c" and lpc: "local_page (mm_gpas m c) \<noteq> None"
    using res by (simp_all add: resident_head_def pages_held_def)
  have nope: "rep_result m c False m" using held by (simp add: rep_result_def held_head_def Let_def)
  show ?thesis
  proof (cases "els_disabled m \<or> flag AND BLOCK_NO_FETCH \<noteq> 0 \<or> \<not> (flag AND BLOCK_FETCH_IN_PROGRESS \<noteq> 0)
      \<or> emp_lp_owner (mm_lps m (the (local_page (mm_gpas m c)))) = None
      \<or> els_get_super_head (mm_gpas m) c = None")
    case True
    then have "els_stretch_rep others global_free m cpu_id c flag aggr = Some (False, m)"
      using lpc by (auto simp: els_stretch_rep_def)
    with nope show ?thesis by simp
  next
    case False
    then obtain s where s: "els_get_super_head (mm_gpas m) c = Some s" by auto
    let ?flag = "flag OR (if IS_IOTHREAD_VCPU cpu_id then BLOCK_HVA_FAULT else BLOCK_GPA_FAULT)"
    from stretch_loop_ok [OF pol kp res s] obtain p m1 where
      l: "stretch_loop others ?flag aggr 0 m s c = Some (p, m1)" "resident_head (mm_gpas m1) p"
      "same_group (desc_order (mm_gpas m1 p)) p c"
      "p = c \<and> mm_gpas m1 c = mm_gpas m c \<or> block_order (mm_gpas m c) < block_order (mm_gpas m1 p)"
      "counted_pages (els_stats m1) = counted_pages (els_stats m)" "same_cpus m m1" by blast
    have held1: "held_head (mm_gpas m1) p" and pages1: "pages_held (mm_gpas m1) p"
      using l(2) by (simp_all add: resident_head_def)
    note pc = held_head_of [OF held1 l(3)]
    show ?thesis
    proof (cases "block_order (mm_gpas m c) = block_order (mm_gpas m1 p)")
      case True
      then have "els_stretch_rep others global_free m cpu_id c flag aggr = Some (False, m1)"
        using False s l(1) lpc by (auto simp: els_stretch_rep_def Let_def)
      moreover have "rep_result m c False m1" using True l held1 pc by (auto simp: rep_result_def Let_def)
      ultimately show ?thesis by simp
    next
      case ne: False
      define m2 where "m2 = m1\<lparr>mm_gpas := upd_gpa (\<lambda>g. snd (set_gpa_flags_if_unset
          (snd (set_gpa_flags_if_unset g GPA_STRETCHED_MASK)) GPA_PREFETCH_ONCE_MASK)) p (mm_gpas m1)\<rparr>"
      define a where "a = (if \<not> is_local_page_on_list (mm_lps m2 (the (local_page (mm_gpas m2 p))))
          then map_option snd (add_gpas_to_active_list global_free (target_list (mm_gpas m2 p)) m2 cpu_id [p])
          else Some (add_page_len (target_list (mm_gpas m2 p)) (int (gpa_block_size (mm_gpas m2 p))) m2))"
      have ev: "els_stretch_rep others global_free m cpu_id c flag aggr =
          Option.bind a (\<lambda>m. map_option (Pair True) (remove_from_list_except_for_head m p))"
      proof -
        have "local_page (mm_gpas m2 p) \<noteq> None" using pages1 by (simp add: m2_def pages_held_def upd_gpa_def)
        then show ?thesis using False s l(1) ne lpc by (auto simp: els_stretch_rep_def Let_def m2_def a_def)
      qed
      have cp: "cpu_id \<in> mm_cpus m2" "get_list_ptr_pin m2 cpu_id = get_list_ptr_pin m cpu_id"
        using cpu l(6) by (simp_all add: m2_def mm_cpus_def same_cpus_def get_list_ptr_pin_def PCPU_ID_def)
      show ?thesis
      proof (cases a)
        case None
        then have "add_gpas_to_active_list global_free (target_list (mm_gpas m2 p)) m2 cpu_id [p] = None"
          by (simp add: a_def split: if_splits)
        then have "get_list_ptr_pin m cpu_id = None" using add_gpas_defined [OF _ cp(1)] cp(2) by metis
        then show ?thesis by (simp add: ev None)
      next
        case (Some m3)
        have k2: "keeps_blocks m1 m2"
          by (simp add: keeps_blocks_def m2_def upd_gpa_def bit_flag_ops)
        have k3: "keeps_blocks m2 m3" using Some add_gpas_keeps [OF cp(1)]
          by (auto simp: a_def keeps_blocks_def add_page_len_def split: if_splits)
        note k13 = keeps_blocks_trans [OF k2 k3]
        obtain m4 where m4: "remove_from_list_except_for_head m3 p = Some m4"
          using remove_from_list_defined [of m3 p] keeps_blocks_held [OF k13] keeps_blocks_pages [OF k13] held1 pages1
          by auto
        have k4: "keeps_blocks m3 m4" by (rule remove_from_list_keeps [OF m4])
        have k24: "keeps_blocks m2 m4" using keeps_blocks_trans [OF k3 k4] .
        have k: "keeps_blocks m1 m4" using keeps_blocks_trans [OF k2 k24] .
        have "bit (gpa_flags (mm_gpas m2 p)) 20" "bit (gpa_flags (mm_gpas m2 p)) 9"
          by (simp_all add: m2_def upd_gpa_def bit_flag_ops GPA_STRETCHED_MASK_def GPA_PREFETCH_ONCE_MASK_def
              bit_push_bit_iff)
        then have bits: "bit (gpa_flags (mm_gpas m4 p)) 20" "bit (gpa_flags (mm_gpas m4 p)) 9"
          using k24 by (simp_all add: keeps_blocks_def)
        have h4: "held_head (mm_gpas m4) p" using keeps_blocks_held [OF k] held1 by simp
        have "emp_get_block_head (mm_gpas m4) c = p"
          using held_head_of [OF h4, of c] keeps_blocks_orders [OF k] l(3) by simp
        moreover have "block_order (mm_gpas m c) < block_order (mm_gpas m4 p)"
          using l(4) ne keeps_blocks_orders [OF k] by auto
        moreover have "els_stats m4 = els_stats m1" using k by (simp add: keeps_blocks_def)
        ultimately have "rep_result m c True m4" using h4 bits l(5) by (simp add: rep_result_def Let_def)
        then show ?thesis by (simp add: ev Some m4)
      qed
    qed
  qed
qed

end
