(* ===== verification/Block_Claims.thy ===== *)
theory Block_Claims
  imports Gpa_Regions Els_Block
begin

text \<open>
  The properties of descriptors and blocks: the layout of a mapping's descriptors, the lookups and
  scans in its directory, the filling of a group, and the merging and splitting of elastic blocks.
  The \<open>ex_\<close> definitions are the concrete states at which the properties are applied.
\<close>

section \<open>The descriptors of a mapping\<close>

text \<open>A mapping of 16 pages: 8 descriptors of 2 pages in 2 groups of 4.\<close>

definition ex_order :: emm_config where "ex_order = \<lparr>bvma_block_order = 3, bvma_subblock_order = 1\<rparr>"

definition ex_all :: gpadesc_region where
  "ex_all = \<lparr>reg_start = 0, reg_end = 8, alloc_order = 3, lowmem_block = False, partial_map = False\<rparr>"

definition ex_desc :: emp_vmdesc where
  "ex_desc = \<lparr>gpa_len = 8, gpa_dir = replicate 512 None, desc_sb_order = 1, vm_base = 0,
     block_aligned_start = 0, regions = [ex_all]\<rparr>"

lemma ex_sib: "emm_sib_size ex_order = 4"
  by (simp add: emm_sib_size_def ex_order_def)

lemma ex_measures:
  "VA_ROUND_DOWN_ORDER 0 13 = 0" "VA_ROUND_UP_ORDER 0x10000 13 = 0x10000" "PAGE_ROUND_UP 96 = 4096"
  "sb_at_head ex_order 0 0 = 0" "gpa_dir_pads ex_order 0 0 = (0, 32)"
  by (simp_all add: VA_ROUND_DOWN_ORDER_def VA_ROUND_UP_ORDER_def sb_at_head_def gpa_dir_pads_def
      PAGE_ROUND_UP_def PAGE_SIZE_def PAGE_SHIFT_def ex_sib)

lemma ex_tail: "sb_at_tail ex_order 0x10000 0x10000 = 0"
  by (simp add: sb_at_tail_def ex_sib) (simp add: ex_order_def PAGE_SHIFT_def)

lemma ex_set_regions:
  "gpa_len d = 8 \<Longrightarrow> set_gpadesc_regions ex_order False False False 0 0 d = d\<lparr>regions := [ex_all]\<rparr>"
  by (simp add: set_gpadesc_regions_def low_memory_end_def region_boundaries_def sort_boundaries_def
      selection_sort_def sort_step_def best_index_def make_region_def sort_regions_def ex_all_def
      ex_order_def)

lemma ex_allocated: "allocate_gpas ex_order False 0 0x10000 (\<lambda>_. True) = Inr ex_desc"
proof -
  have k: "bvma_subblock_order ex_order + PAGE_SHIFT = 13" "bvma_subblock_order ex_order = 1"
    by (simp_all add: ex_order_def PAGE_SHIFT_def)
  show ?thesis
    unfolding allocate_gpas_def Let_def k(1) ex_measures ex_tail
    by (simp add: ex_measures(3) ex_set_regions k(2) ex_desc_def)
qed

lemma ex_desc_ok: "regions_ok ex_desc" "dir_ok ex_desc"
  using allocate_gpas_ok [OF _ _ _ _ ex_allocated] by (simp_all add: ex_order_def BLOCK_MAX_ORDER_def)

lemma ex_span [simp]: "idx < 8 \<Longrightarrow> region_of ex_desc idx = ex_all" "idx < 8 \<Longrightarrow> span_at ex_desc idx = 2"
  by (simp_all add: region_of_def span_at_def desc_span_def in_region_def ex_desc_def ex_all_def)

text \<open>
  C38: The layout made for a new mapping is well formed: at most six regions, which partition the
  descriptors into whole groups on the grid of the mapping; an empty directory long enough for the
  scans to stop in; and descriptors that cover the mapping.  The mapping is not empty, the block order is
  between the subblock order and the limit, and the mapping that holds a guest's low memory starts on a
  block boundary and has at least the two megabytes of the low memory region; a shorter one gets a
  region behind its descriptors.
\<close>

theorem allocate_gpas_layout:
  assumes "bvma_subblock_order c \<le> bvma_block_order c" and "bvma_block_order c \<le> BLOCK_MAX_ORDER"
    and "vmr_start < vmr_end"
    and "lowmem \<longrightarrow> 2 ^ (bvma_block_order c + PAGE_SHIFT) dvd vmr_start
      \<and> LOW_MEMORY_REGION_SIZE \<le> vmr_end - vmr_start"
    and "allocate_gpas c lowmem vmr_start vmr_end vzalloc = Inr d"
  shows "regions_ok d \<and> dir_ok d \<and> length (regions d) \<le> GPADESC_MAX_REGION
    \<and> (\<forall>idx < gpa_len d. gpa_dir d ! idx = None)
    \<and> vm_base d \<le> vmr_start \<and> vmr_start < vm_base d + 2 ^ (bvma_subblock_order c + PAGE_SHIFT)
    \<and> vmr_end \<le> vm_base d + gpa_len d * 2 ^ (bvma_subblock_order c + PAGE_SHIFT)"
  using allocate_gpas_ok [OF assms(1-3) _ assms(5)] assms(4) by blast

lemma allocate_gpas_layout_witness: "regions_ok ex_desc \<and> length (regions ex_desc) \<le> GPADESC_MAX_REGION"
  using allocate_gpas_layout [OF _ _ _ _ ex_allocated] by (simp add: ex_order_def BLOCK_MAX_ORDER_def)

text \<open>
  C39: Looking a region up, with or without a guess, finds the one region that contains the index,
  and nothing for an index past the end.
\<close>

theorem region_lookup_exact:
  assumes "regions_ok d" and "p \<in> set (regions d)"
  shows "get_gpadesc_region_predict d idx p = get_gpadesc_region d idx
    \<and> (if idx < gpa_len d
       then \<exists>r \<in> set (regions d). get_gpadesc_region d idx = Some r \<and> in_region idx r
         \<and> (\<forall>r' \<in> set (regions d). in_region idx r' \<longrightarrow> r' = r)
       else get_gpadesc_region d idx = None)"
proof -
  have ne: "regions d \<noteq> []" using assms(1) by (simp add: regions_ok_def)
  note e = get_gpadesc_region_predict_eq [OF assms] get_gpadesc_region_eq [OF ne]
  show ?thesis
  proof (cases "idx < gpa_len d")
    case True
    from regions_ok_inside [OF assms(1) True] assms(1) True show ?thesis
      unfolding e regions_ok_def by auto
  next
    case False
    with regions_ok_outside [OF assms(1), of idx] show ?thesis unfolding e by simp
  qed
qed

lemma region_lookup_exact_witness: "\<exists>r. get_gpadesc_region ex_desc 5 = Some r \<and> in_region 5 r"
  using region_lookup_exact [OF ex_desc_ok(1), of ex_all 5] by (auto simp: ex_desc_def)

text \<open>
  C40: Filling the group of an absent index puts one row of fresh, unlocked descriptors of the region's
  order into the whole group, returns the index's own, and changes no other entry or descriptor.
\<close>

theorem new_gpadesc_fills_group:
  assumes "regions_ok d" and "dir_ok d" and "desc_sb_order d = bvma_subblock_order c"
    and "idx < gpa_len d" and "gpa_dir d ! idx = None" and "2 ^ span_at d idx dvd p"
    and "bvma_subblock_order c \<le> alloc_order (region_of d idx)"
    and "alloc_order (region_of d idx) \<le> BLOCK_MAX_ORDER"
    and "new_gpadesc c h d idx (Some p) id after = (g, h', d')"
  shows "g = Some (p + (idx - group_head d idx)) \<and> regions_ok d' \<and> dir_ok d'
    \<and> group_filled d' (group_head d idx) p
    \<and> (\<forall>i < length (gpa_dir d). group_head d idx \<le> i \<and> i < group_head d idx + 2 ^ span_at d idx
          \<or> gpa_dir d' ! i = gpa_dir d ! i)
    \<and> (\<forall>q. if p \<le> q \<and> q < p + 2 ^ span_at d idx
           then fresh_gpa c (region_of d idx) (h' q) \<and> gpa_refcnt (h' q) = 1
           else h' q = h q)"
  using new_gpadesc_ok [OF assms] by blast

definition ex_heap0 :: gpa_heap where "ex_heap0 p = zero_gpa"

lemma ex_group [simp]: "group_head ex_desc 5 = 4"
  by (simp add: group_head_def emp_get_block_head_index_def ex_desc_def [unfolded ex_all_def] span_at_def
      desc_span_def region_of_def in_region_def)

lemma ex_filled:
  obtains h' d' where "new_gpadesc ex_order ex_heap0 ex_desc 5 (Some 8) id id = (Some 9, h', d')"
    and "regions_ok d'" and "dir_ok d'" and "group_filled d' 4 8" and "gpa_len d' = 8"
    and "regions d' = [ex_all]" and "desc_sb_order d' = 1"
proof -
  obtain g h' d' where n: "new_gpadesc ex_order ex_heap0 ex_desc 5 (Some 8) id id = (g, h', d')"
    by (cases "new_gpadesc ex_order ex_heap0 ex_desc 5 (Some 8) id id") auto
  from new_gpadesc_ok [OF ex_desc_ok _ _ _ _ _ _ this]
  have "g = Some 9 \<and> d' = ex_desc\<lparr>gpa_dir := gpa_dir d'\<rparr> \<and> regions_ok d' \<and> dir_ok d' \<and> group_filled d' 4 8"
    by (simp add: ex_desc_def [THEN arg_cong, of gpa_len] ex_desc_def [THEN arg_cong, of gpa_dir]
        ex_desc_def [THEN arg_cong, of desc_sb_order] ex_order_def ex_all_def BLOCK_MAX_ORDER_def)
  moreover from this have "gpa_len d' = 8" "regions d' = [ex_all]" "desc_sb_order d' = 1"
    by (metis emp_vmdesc.simps(1,3,6) emp_vmdesc.update_convs(2) emp_vmdesc.select_convs ex_desc_def)+
  ultimately show thesis using that n by simp
qed

lemma new_gpadesc_fills_group_witness:
  "\<exists>h' d'. new_gpadesc ex_order ex_heap0 ex_desc 5 (Some 8) id id = (Some 9, h', d') \<and> gpa_refcnt (h' 9) = 1"
proof -
  obtain h' d' where n: "new_gpadesc ex_order ex_heap0 ex_desc 5 (Some 8) id id = (Some 9, h', d')"
    by (rule ex_filled)
  from new_gpadesc_fills_group [OF ex_desc_ok _ _ _ _ _ _ this]
  have "\<forall>q. 8 \<le> q \<and> q < (12::nat) \<longrightarrow> gpa_refcnt (h' q) = 1"
    by (simp add: ex_desc_def [THEN arg_cong, of gpa_len] ex_desc_def [THEN arg_cong, of gpa_dir]
        ex_desc_def [THEN arg_cong, of desc_sb_order] ex_order_def ex_all_def BLOCK_MAX_ORDER_def)
  from spec [OF this, of 9] n show ?thesis by simp
qed

text \<open>
  The two ways to find the head of a block agree: rounding the index on the grid of the mapping,
  and rounding the descriptor's address, for every block order up to that of the group.
\<close>

theorem block_head_by_index_or_address:
  assumes "regions_ok d" and "dir_ok d" and "idx < gpa_len d" and "gpa_dir d ! idx = Some g"
    and "k \<le> span_at d idx"
  shows "gpa_dir d ! emp_get_block_head_index d idx k = Some (emp_get_block_head_at g k)
    \<and> g - emp_get_block_head_at g k = idx - emp_get_block_head_index d idx k"
  by (rule head_ptr_index [OF assms])

lemma block_head_by_index_or_address_witness:
  "\<exists>d::emp_vmdesc. gpa_dir d ! 5 = Some 9 \<and> gpa_dir d ! 4 = Some (emp_get_block_head_at 9 1)"
proof -
  obtain h' d' where d: "regions_ok d'" "dir_ok d'" "group_filled d' 4 8" "gpa_len d' = 8"
    "regions d' = [ex_all]" "desc_sb_order d' = 1" by (rule ex_filled)
  then have sp: "span_at d' 4 = 2" "span_at d' 5 = 2"
    by (simp_all add: span_at_def desc_span_def region_of_def in_region_def ex_all_def)
  have e: "gpa_dir d' ! 5 = Some 9" "gpa_dir d' ! 4 = Some 8"
  proof -
    from d(3) sp(1) have f: "\<forall>j < 4. gpa_dir d' ! (4 + j) = Some (8 + j)" by (simp add: group_filled_def)
    show "gpa_dir d' ! 5 = Some 9" "gpa_dir d' ! 4 = Some 8" using spec [OF f, of 1] spec [OF f, of 0] by simp_all
  qed
  have "5 < gpa_len d'" "1 \<le> span_at d' 5" using d(4) sp by simp_all
  from block_head_by_index_or_address [OF d(1,2) this(1) e(1) this(2)] e show ?thesis
    by (auto simp: emp_get_block_head_at_def)
qed

text \<open>
  The scan for the next existing block from an absent index never reads outside the directory:
  it ends at the first entry that exists, which starts a group, or at the end of the descriptors.
\<close>

theorem next_head_scan_in_bounds:
  assumes "regions_ok d" and "dir_ok d" and "index < gpa_len d" and "gpa_dir d ! index = None"
  shows "\<exists>g i. get_next_exist_head_gpadesc h d index = Some (g, i)
    \<and> first_existing d index (g, i) \<and> group_start d i"
  by (rule get_next_exist_head_gpadesc_ok [OF assms])

lemma next_head_scan_in_bounds_witness:
  "\<exists>g i. get_next_exist_head_gpadesc ex_heap0 ex_desc 1 = Some (g, i) \<and> first_existing ex_desc 1 (g, i)"
  using next_head_scan_in_bounds [OF ex_desc_ok, of 1 ex_heap0] by (simp add: ex_desc_def) blast

end
