(* ===== verification/Victims.thy ===== *)
theory Victims
  imports Lru_Inv
begin

text \<open>
  The selection of victims (second part of \<^verbatim>\<open>src/module_gpl/reclaim.c\<close>, 364 to 913): taking blocks off the
  LRU buffers of the proactive and the active list, and unpinning blocks of the pin lists.  Victims
  leave the lists locked, in a state of transition.

  The reference count of a page is the parameter \<open>page_count\<close>.  \<open>None\<close> is an access outside the array
  of pin lists.  The array of victims has room for the number asked for.
\<close>

definition NUM_VICTIM_CLUSTER :: int where "NUM_VICTIM_CLUSTER = 8"

definition lp_of :: "emp_mm \<Rightarrow> gpa_ptr \<Rightarrow> local_page" where
  "lp_of m g = mm_lps m (the (local_page (mm_gpas m g)))"

definition gpa_acquire :: "(nat \<Rightarrow> int) \<Rightarrow> emp_mm \<Rightarrow> gpa_ptr \<Rightarrow> bool" where
  "gpa_acquire page_count m head =
     (if is_gpa_flags_set (mm_gpas m head) GPA_LOWMEM_BLOCK_MASK then False
      else if \<not> is_gpa_flags_set (mm_gpas m head) GPA_HPT_MASK then True
      else
        let (count_def, pf_sb) =
              (if is_gpa_flags_set (mm_gpas m head) GPA_PREFETCHED_MASK
               then (2, if is_gpa_flags_set (mm_gpas m head) GPA_PREFETCHED_CSF_MASK
                        then Some (head + demand_offset (lp_of m head) div 2 ^ sb_order (mm_gpas m head))
                        else None)
               else (1, None))
        in list_all (\<lambda>g.
             let count_max = count_def + page_map_count (lp_of m g);
                 count_max = (if Some g = pf_sb then count_max - 1 else count_max)
             in \<not> page_count (lp_page (lp_of m g)) > count_max)
           (for_each_gpas (mm_gpas m) head))"

section \<open>The proactive list\<close>

text \<open>\<open>vs\<close> are the victims so far, \<open>vp\<close> their pages.\<close>

fun pl_scan :: "slru_place \<Rightarrow> int \<Rightarrow> nat list \<Rightarrow> gpa_ptr list \<Rightarrow> int \<Rightarrow> nat temp_list \<Rightarrow> emp_mm
    \<Rightarrow> gpa_ptr list \<times> int \<times> nat temp_list \<times> emp_mm" where
  "pl_scan p vs_len [] vs vp to_pin m = (vs, vp, to_pin, m)"
| "pl_scan p vs_len (l # ls) vs vp to_pin m =
     (case emp_trylock_local_page m l of
        (None, m) \<Rightarrow> pl_scan p vs_len ls vs vp to_pin m
      | (Some v, m) \<Rightarrow>
          (let m = take_page PROACTIVE_LIST p LOCAL_PAGE_ON_LRU l m
           in if is_gpa_flags_set (mm_gpas m v) GPA_PINNED_MASK
              then pl_scan p vs_len ls vs vp (temp_list_add_tail l to_pin) m
              else
                let m = upd_head (\<lambda>g. snd (clear_gpa_flags_if_set (g\<lparr>r_state := GPA_TRANS_PL\<rparr>) GPA_PROACTIVE_MASK)) v m;
                    vs = vs @ [v];
                    vp = vp + int (gpa_block_size (mm_gpas m v))
                in if int (length vs) \<ge> vs_len then (vs, vp, to_pin, m)
                   else pl_scan p vs_len ls vs vp to_pin m))"

text \<open>From \<^verbatim>\<open>retry_start\<close> to the refill; the result holds what the refill returned.\<close>

definition pl_round :: "emp_mm \<Rightarrow> int \<Rightarrow> int \<Rightarrow> nat temp_list \<Rightarrow> gpa_ptr list \<times> int \<times> nat temp_list \<times> emp_mm" where
  "pl_round m cpu_id vs_len to_pin =
     (let p = Slru_lru cpu_id
      in case pl_scan p vs_len (el_head (slru_lists m PROACTIVE_LIST p)) [] 0 to_pin m of
           (vs, vp, to_pin, m) \<Rightarrow>
             if vs \<noteq> [] then (vs, 0, to_pin, add_page_len PROACTIVE_LIST (- vp) m)
             else if emp_list_len (slru_lists m PROACTIVE_LIST p) < LRU_QUEUE_DEPTH
             then (case refill_lru_buf m PROACTIVE_LIST cpu_id LRU_QUEUE_DEPTH of
                     (refill, m) \<Rightarrow> ([], refill, to_pin, m))
             else ([], 0, to_pin, m))"

definition select_victims_proactive_list :: "emp_mm \<Rightarrow> int \<Rightarrow> int \<Rightarrow> (gpa_ptr list \<times> emp_mm) option" where
  "select_victims_proactive_list m cpu_id vs_len =
     (case pl_round m cpu_id vs_len init_temp_list of (vs, refill, to_pin, m) \<Rightarrow>
      case (if refill \<noteq> 0 then pl_round m cpu_id vs_len to_pin else (vs, refill, to_pin, m)) of
        (vs, refill, to_pin, m) \<Rightarrow>
          if temp_list_len to_pin > 0
          then map_option (Pair vs) (move_to_pin_list m cpu_id to_pin True True)
          else Some (vs, m))"

section \<open>The pin lists\<close>

definition take_pin :: "nat \<Rightarrow> nat \<Rightarrow> emp_mm \<Rightarrow> emp_mm" where
  "take_pin i l m = upd_lp (\<lambda>lp. clear_local_page_flags lp LOCAL_PAGE_ON_PIN) l
     (m\<lparr>pin_lists := (pin_lists m)(i := emp_list_del_init l (pin_lists m i))\<rparr>)"

fun pin_scan :: "nat \<Rightarrow> int \<Rightarrow> nat list \<Rightarrow> nat temp_list \<Rightarrow> int \<Rightarrow> int \<Rightarrow> emp_mm
    \<Rightarrow> nat temp_list \<times> int \<times> int \<times> emp_mm" where
  "pin_scan i vs_len [] temp n_vs pages_len m = (temp, n_vs, pages_len, m)"
| "pin_scan i vs_len (l # ls) temp n_vs pages_len m =
     (case emp_trylock_local_page m l of
        (None, m) \<Rightarrow> pin_scan i vs_len ls temp n_vs pages_len m
      | (Some v, m) \<Rightarrow>
          (let m = take_pin i l m;
               temp = temp_list_add_tail l temp;
               pages_len = pages_len + int (gpa_block_size (mm_gpas m v));
               m = upd_head (\<lambda>g. snd (clear_gpa_flags_if_set g GPA_PINNED_MASK)) v m
           in if n_vs + 1 \<ge> vs_len then (temp, n_vs + 1, pages_len, m)
              else pin_scan i vs_len ls temp (n_vs + 1) pages_len m))"

definition select_victims_pin_list :: "emp_mm \<Rightarrow> int \<Rightarrow> int \<Rightarrow> (int \<times> emp_mm) option" where
  "select_victims_pin_list m cpu_id vs_len =
     (case get_list_ptr_pin m cpu_id of
        None \<Rightarrow> None
      | Some i \<Rightarrow>
          if el_len (pin_lists m i) = 0 then Some (0, m)
          else case pin_scan i vs_len (el_head (pin_lists m i)) init_temp_list 0 0 m of
            (temp, n_vs, pages_len, m) \<Rightarrow>
              if n_vs = 0 then Some (0, m)
              else
                let m = m\<lparr>cur_pin_pages := cur_pin_pages m - pages_len,
                           num_pin_blocks := num_pin_blocks m - n_vs,
                           num_evicted_pin_blocks := num_evicted_pin_blocks m + n_vs\<rparr>;
                    m = foldl (\<lambda>m l. emp_unlock_local_page l (put_page_mru PROACTIVE_LIST cpu_id l m)) m (tl_head temp)
                in Some (n_vs, m))"

text \<open>The two loops over the cpus.\<close>

fun update_loop :: "int \<Rightarrow> int list \<Rightarrow> gpa_ptr list \<Rightarrow> emp_mm \<Rightarrow> (gpa_ptr list \<times> emp_mm) option" where
  "update_loop vs_len [] vs m = Some (vs, m)"
| "update_loop vs_len (cpu # cpus) vs m =
     (case select_victims_proactive_list m cpu (vs_len - int (length vs)) of
        None \<Rightarrow> None
      | Some (new, m) \<Rightarrow>
          (let vs = vs @ new
           in if int (length vs) \<ge> vs_len then Some (vs, m) else update_loop vs_len cpus vs m))"

fun update_pin_loop :: "int \<Rightarrow> int list \<Rightarrow> gpa_ptr list \<Rightarrow> emp_mm \<Rightarrow> (gpa_ptr list \<times> emp_mm) option" where
  "update_pin_loop vs_len [] vs m = Some (vs, m)"
| "update_pin_loop vs_len (cpu # cpus) vs m =
     (case select_victims_pin_list m cpu (vs_len - int (length vs)) of
        None \<Rightarrow> None
      | Some (n, m) \<Rightarrow>
          if n = 0 then update_pin_loop vs_len cpus vs m
          else case select_victims_proactive_list m cpu (vs_len - int (length vs)) of
            None \<Rightarrow> None
          | Some (new, m) \<Rightarrow>
              (let vs = vs @ new
               in if int (length vs) \<ge> vs_len then Some (vs, m) else update_pin_loop vs_len cpus vs m))"

definition update_proactive_list :: "emp_mm \<Rightarrow> int \<Rightarrow> int \<Rightarrow> (gpa_ptr list \<times> emp_mm) option" where
  "update_proactive_list m local_cpu vs_len =
     (let cpus = for_all_vcpus_from (mm_possible_cpus m) (mm_vcpus_len m) local_cpu
      in case update_loop vs_len cpus [] m of
           None \<Rightarrow> None
         | Some (vs, m) \<Rightarrow>
             if vs \<noteq> [] then Some (vs, m)
             else if cur_pin_pages m = 0 then Some (vs, m)
             else update_pin_loop vs_len cpus vs m)"

section \<open>The active list\<close>

record al_state =
  al_vs :: "gpa_ptr list"
  al_pages :: int
  al_pin :: "nat temp_list"
  al_pin_pages :: int
  al_promote :: "nat temp_list"
  al_promote_pages :: int

definition init_al_state :: al_state where
  "init_al_state = \<lparr>al_vs = [], al_pages = 0, al_pin = init_temp_list, al_pin_pages = 0,
     al_promote = init_temp_list, al_promote_pages = 0\<rparr>"

fun al_scan :: "(nat \<Rightarrow> int) \<Rightarrow> slru_place \<Rightarrow> int \<Rightarrow> nat list \<Rightarrow> al_state \<Rightarrow> emp_mm \<Rightarrow> al_state \<times> emp_mm" where
  "al_scan page_count p vs_len [] s m = (s, m)"
| "al_scan page_count p vs_len (l # ls) s m =
     (case emp_trylock_local_page m l of
        (None, m) \<Rightarrow> al_scan page_count p vs_len ls s m
      | (Some v, m) \<Rightarrow>
          (let pages = int (gpa_block_size (mm_gpas m v))
           in if is_gpa_flags_set (mm_gpas m v) GPA_PINNED_MASK then
                al_scan page_count p vs_len ls
                  (s\<lparr>al_pin := temp_list_add_tail l (al_pin s), al_pin_pages := al_pin_pages s + pages\<rparr>)
                  (take_page ACTIVE_LIST p LOCAL_PAGE_ON_LRU l m)
              else if fst (clear_gpa_flags_if_set (mm_gpas m v) GPA_PROMOTE_MASK) then
                al_scan page_count p vs_len ls
                  (s\<lparr>al_promote := temp_list_add_tail l (al_promote s), al_promote_pages := al_promote_pages s + pages\<rparr>)
                  (take_page ACTIVE_LIST p LOCAL_PAGE_ON_LRU l
                     (upd_head (\<lambda>g. snd (clear_gpa_flags_if_set g GPA_PROMOTE_MASK)) v m))
              else if \<not> is_unmapped_active (mm_gpas m v) \<and> gpa_acquire page_count m v then
                (let m = upd_head (\<lambda>g. g\<lparr>r_state := GPA_TRANS_AL\<rparr>) v (take_page ACTIVE_LIST p LOCAL_PAGE_ON_LRU l m);
                     s = s\<lparr>al_vs := al_vs s @ [v], al_pages := al_pages s + pages\<rparr>
                 in if int (length (al_vs s)) \<ge> vs_len \<or> int (length (al_vs s)) \<ge> NUM_VICTIM_CLUSTER
                    then (s, m) else al_scan page_count p vs_len ls s m)
              else al_scan page_count p vs_len ls s (upd_head emp_gpa_unlock v m)))"

definition al_round :: "(nat \<Rightarrow> int) \<Rightarrow> emp_mm \<Rightarrow> int \<Rightarrow> int \<Rightarrow> al_state \<Rightarrow> int \<times> al_state \<times> emp_mm" where
  "al_round page_count m cpu_id vs_len s =
     (let p = Slru_lru cpu_id
      in case al_scan page_count p vs_len (el_head (slru_lists m ACTIVE_LIST p)) s m of
           (s, m) \<Rightarrow>
             if al_vs s \<noteq> [] then (0, s, add_page_len ACTIVE_LIST (- al_pages s) m)
             else if emp_list_len (slru_lists m ACTIVE_LIST p) < LRU_QUEUE_DEPTH
             then (case refill_lru_buf m ACTIVE_LIST cpu_id LRU_QUEUE_DEPTH of (refill, m) \<Rightarrow> (refill, s, m))
             else (0, s, m))"

definition select_victims_active_list ::
    "bool \<Rightarrow> (nat \<Rightarrow> int) \<Rightarrow> emp_mm \<Rightarrow> int \<Rightarrow> int \<Rightarrow> (gpa_ptr list \<times> emp_mm) option" where
  "select_victims_active_list global_free page_count m cpu_id vs_len =
     (case al_round page_count m cpu_id vs_len init_al_state of (refill, s, m) \<Rightarrow>
      case (if refill \<noteq> 0 then al_round page_count m cpu_id vs_len s else (refill, s, m)) of
        (refill, s, m) \<Rightarrow>
      case (if al_pin_pages s \<noteq> 0
            then move_to_pin_list (add_page_len ACTIVE_LIST (- al_pin_pages s) m) cpu_id (al_pin s) False True
            else Some m) of
        None \<Rightarrow> None
      | Some m \<Rightarrow>
          Some (al_vs s,
            if al_promote_pages s \<noteq> 0
            then promote_gpas global_free (add_page_len ACTIVE_LIST (- al_promote_pages s) m) cpu_id
                   (al_promote s) (al_promote_pages s) True
            else m))"

section \<open>What a scan does\<close>

text \<open>The descriptor without its lock.\<close>

definition desc :: "emp_mm \<Rightarrow> gpa_ptr \<Rightarrow> emp_gpa" where
  "desc m q = (mm_gpas m q)\<lparr>gpa_lock := False\<rparr>"

definition changed :: "(emp_gpa \<Rightarrow> emp_gpa) \<Rightarrow> gpa_ptr set \<Rightarrow> emp_mm \<Rightarrow> emp_mm \<Rightarrow> bool" where
  "changed f A m m' \<longleftrightarrow> (\<forall>q. desc m' q = (if q \<in> A then f (desc m q) else desc m q))"

lemma changed_trans:
  "changed f A m m1 \<Longrightarrow> changed f B m1 m2 \<Longrightarrow> A \<inter> B = {} \<Longrightarrow> changed f (A \<union> B) m m2"
  by (auto simp: changed_def)

lemma changed_none: "changed f {} m m' \<longleftrightarrow> descs_same m m'"
  by (simp add: changed_def descs_same_def desc_def)

lemma changed_same: "changed f A m m1 \<Longrightarrow> descs_same m1 m2 \<Longrightarrow> changed f A m m2"
  by (simp add: changed_def descs_same_def desc_def)

lemma same_changed: "descs_same m m1 \<Longrightarrow> changed f A m1 m2 \<Longrightarrow> changed f A m m2"
  by (simp add: changed_def descs_same_def desc_def)

lemma descs_same_eq: "mm_gpas m' = mm_gpas m \<Longrightarrow> descs_same m m'"
  by (simp add: descs_same_def)

lemma takes_perm: "takes g m xs m' \<Longrightarrow> mset xs = mset ys \<Longrightarrow> takes g m ys m'"
proof -
  assume t: "takes g m xs m'" and e: "mset xs = mset ys"
  have "mset (map (lp_head m) xs) = mset (map (lp_head m) ys)" using e by simp
  then have "distinct (map (lp_head m) xs) \<longleftrightarrow> distinct (map (lp_head m) ys)" by (metis mset_eq_imp_distinct_iff)
  moreover have "set xs = set ys" using e by (rule mset_eq_setD)
  ultimately show "takes g m ys m'" using t by (simp add: takes_def took_def e)
qed

lemma takes_upd:
  assumes t: "takes g m xs m1" and f: "\<And>d. fixed_part (f d) = fixed_part d" "\<And>d. gpa_lock (f d) = gpa_lock d"
  shows "takes g m xs (upd_head f q m1)"
proof -
  note u = upd_head_keeps [OF f]
  have "quiet m (upd_head f q m1)" using t quiet_trans [OF _ u(1)] by (simp add: takes_def)
  then show ?thesis using t by (simp add: takes_def took_def u(2-4))
qed

lemma takes_heads_disjoint: "takes g m (xs @ ys) m' \<Longrightarrow> lp_head m ` set xs \<inter> lp_head m ` set ys = {}"
  by (auto simp: takes_def took_def)

lemma takes_lp_head: "takes g m xs m' \<Longrightarrow> lp_head m' = lp_head m"
  by (rule ext) (simp add: takes_def quiet_def lru_frame_eqs(1))

definition pl_victim :: "emp_gpa \<Rightarrow> emp_gpa" where
  "pl_victim d = snd (clear_gpa_flags_if_set (d\<lparr>r_state := GPA_TRANS_PL\<rparr>) GPA_PROACTIVE_MASK)"

lemma pl_victim_keeps [simp]: "fixed_part (pl_victim d) = fixed_part d" "gpa_lock (pl_victim d) = gpa_lock d"
  "(pl_victim d)\<lparr>gpa_lock := b\<rparr> = pl_victim (d\<lparr>gpa_lock := b\<rparr>)"
  by (simp_all add: pl_victim_def clear_gpa_flags_if_set_def is_gpa_flags_same_def fixed_part_def)

lemma changed_upd_head:
  assumes "\<And>d. (f d)\<lparr>gpa_lock := False\<rparr> = f (d\<lparr>gpa_lock := False\<rparr>)"
  shows "changed f {q} m (upd_head f q m)"
  by (simp add: changed_def desc_def upd_head_def upd_gpa_def assms)

lemma is_flag_desc: "is_gpa_flags_set (desc m q) F = is_gpa_flags_set (mm_gpas m q) F"
  by (simp add: desc_def is_gpa_flags_set_def)

lemma desc_pinned: "descs_same m m' \<Longrightarrow> is_gpa_flags_set (mm_gpas m' q) F = is_gpa_flags_set (mm_gpas m q) F"
  unfolding descs_same_def by (metis desc_def is_flag_desc)

lemma block_pages_locked: "quiet m m1 \<Longrightarrow> int (gpa_block_size (mm_gpas m1 (lp_head m l))) = block_pages m l"
  using quiet_frame [of m m1] by (simp add: block_pages_def gpa_block_size_def lru_frame_def fixed_part_def)

lemma tail_subset: "mset (l # ls) \<subseteq># M \<Longrightarrow> mset ls \<subseteq># M"
  by (metis mset.simps(2) mset_subset_eq_insertD subset_mset.less_imp_le)

lemma pl_victim_fun:
  "(\<lambda>g. snd (clear_gpa_flags_if_set (g\<lparr>r_state := GPA_TRANS_PL\<rparr>) GPA_PROACTIVE_MASK)) = pl_victim"
  by (simp add: fun_eq_iff pl_victim_def)

lemma changed_flags:
  "changed f A m m1 \<Longrightarrow> q \<notin> A \<Longrightarrow> is_gpa_flags_set (mm_gpas m1 q) F = is_gpa_flags_set (mm_gpas m q) F"
  unfolding changed_def by (metis is_flag_desc)

definition pinned_head :: "emp_mm \<Rightarrow> nat \<Rightarrow> bool" where
  "pinned_head m l \<longleftrightarrow> is_gpa_flags_set (mm_gpas m (lp_head m l)) GPA_PINNED_MASK"

text \<open>Descriptors outside \<open>A\<close> keep every field but the lock.\<close>

definition untouched :: "gpa_ptr set \<Rightarrow> emp_mm \<Rightarrow> emp_mm \<Rightarrow> bool" where
  "untouched A m m' \<longleftrightarrow> (\<forall>q. q \<notin> A \<longrightarrow> desc m' q = desc m q)"

definition page_gpas :: "emp_mm \<Rightarrow> nat list \<Rightarrow> gpa_ptr set" where
  "page_gpas m xs = (\<lambda>l. lp_gpa (mm_lps m l)) ` set xs"

lemma untouched_refl [simp]: "untouched A m m"
  by (simp add: untouched_def)

lemma untouched_trans: "untouched A a b \<Longrightarrow> untouched A b c \<Longrightarrow> untouched A a c"
  by (simp add: untouched_def)

lemma untouched_mono: "untouched A a b \<Longrightarrow> A \<subseteq> B \<Longrightarrow> untouched B a b"
  by (auto simp: untouched_def)

lemma untouched_same: "descs_same a b \<Longrightarrow> untouched A a b"
  by (simp add: untouched_def descs_same_def desc_def)

lemma untouched_unlock: "untouched A a b \<Longrightarrow> untouched A a (emp_unlock_local_page l b)"
  by (simp add: untouched_def desc_def unlock_local_page upd_head_def upd_gpa_def)

lemma untouched_upd_head: "untouched A a b \<Longrightarrow> q \<in> A \<Longrightarrow> untouched A a (upd_head f q b)"
  by (auto simp: untouched_def desc_def upd_head_def upd_gpa_def)

lemma untouched_gpas: "untouched A a b \<Longrightarrow> mm_gpas c = mm_gpas b \<Longrightarrow> untouched A a c"
  by (simp add: untouched_def desc_def)

lemma pin_page_untouched:
  assumes "pin_page c i fp mapped l (a, b, m) = (a', b', m')"
  shows "untouched {lp_gpa (mm_lps m l)} m m' \<and> (\<forall>x. lp_gpa (mm_lps m' x) = lp_gpa (mm_lps m x))"
proof -
  note f = untouched_gpas [OF untouched_refl put_pin_simps(1)]
  have "untouched {lp_gpa (mm_lps m l)} m m'"
    using assms unfolding pin_page_eq by (auto simp: Let_def intro!: untouched_unlock untouched_upd_head f)
  moreover have "lp_gpa (mm_lps (put_pin c i l m) x) = lp_gpa (mm_lps m x)" for x by (simp add: put_pin_simps(4))
  then have "lp_gpa (mm_lps m' x) = lp_gpa (mm_lps m x)" for x
    using assms unfolding pin_page_eq by (auto simp: Let_def unlock_local_page upd_head_simps)
  ultimately show ?thesis by blast
qed

lemma pin_pages_untouched: "untouched (page_gpas m xs) m (snd (snd (fold (pin_page c i fp mapped) xs (a, b, m))))"
proof (induction xs arbitrary: a b m)
  case (Cons l xs)
  obtain a' b' m1 where p: "pin_page c i fp mapped l (a, b, m) = (a', b', m1)" by (metis prod_cases3)
  note q = pin_page_untouched [OF p]
  have g: "page_gpas m1 xs = page_gpas m xs" using q by (simp add: page_gpas_def)
  have "untouched (page_gpas m (l # xs)) m m1" using untouched_mono [OF conjunct1 [OF q]] by (simp add: page_gpas_def)
  moreover have "untouched (page_gpas m (l # xs)) m1 (snd (snd (fold (pin_page c i fp mapped) xs (a', b', m1))))"
    by (rule untouched_mono [OF Cons.IH [of m1 a' b', unfolded g]]) (auto simp: page_gpas_def)
  ultimately show ?case using untouched_trans p by simp
qed simp

lemma move_to_pin_list_untouched:
  assumes "move_to_pin_list m c t fp mapped = Some m'"
  shows "untouched (page_gpas m (tl_head t)) m m'"
proof -
  obtain i where i: "get_list_ptr_pin m c = Some i" using assms by (auto simp: move_to_pin_list_def)
  obtain a b m1 where f: "fold (pin_page c i fp mapped) (tl_head t) (0, 0, m) = (a, b, m1)" by (metis prod_cases3)
  have "untouched (page_gpas m (tl_head t)) m m1" using pin_pages_untouched [of m "tl_head t" c i fp mapped 0 0] by (simp add: f)
  then show ?thesis
    using assms by (auto simp: move_to_pin_list_def i f Let_def add_page_len_def intro: untouched_gpas)
qed

lemma promote_page_untouched:
  "untouched {lp_gpa (mm_lps m l)} m (promote_page cpu mapped m l)
    \<and> (\<forall>x. lp_gpa (mm_lps (promote_page cpu mapped m l) x) = lp_gpa (mm_lps m x))"
proof -
  have "mm_gpas (put_page PROACTIVE_LIST (Slru_mru cpu) l m) = mm_gpas m"
    "lp_gpa (mm_lps (put_page PROACTIVE_LIST (Slru_mru cpu) l m) x) = lp_gpa (mm_lps m x)" for x
    by (simp_all add: put_page_simps) (simp add: put_page_def page_ops)
  note p = this
  have "untouched {lp_gpa (mm_lps m l)} m (promote_page cpu mapped m l)"
    unfolding promote_page_def by (intro untouched_unlock untouched_upd_head untouched_gpas [OF untouched_refl p(1)]) simp
  then show ?thesis by (simp add: promote_page_def unlock_local_page upd_head_simps p)
qed

lemma promote_pages_untouched:
  "untouched (page_gpas m xs) m (foldl (promote_page cpu mapped) m xs)"
proof (induction xs arbitrary: m)
  case (Cons l xs)
  let ?m1 = "promote_page cpu mapped m l"
  note q = promote_page_untouched [of m l cpu mapped]
  have g: "page_gpas ?m1 xs = page_gpas m xs" using q by (simp add: page_gpas_def)
  have "untouched (page_gpas m (l # xs)) m ?m1" using untouched_mono [OF conjunct1 [OF q]] by (simp add: page_gpas_def)
  moreover have "untouched (page_gpas m (l # xs)) ?m1 (foldl (promote_page cpu mapped) ?m1 xs)"
    by (rule untouched_mono [OF Cons.IH [of ?m1, unfolded g]]) (auto simp: page_gpas_def)
  ultimately show ?case using untouched_trans by simp
qed simp

lemma promote_gpas_untouched:
  assumes "cpu \<in> mm_cpus m"
  shows "untouched (page_gpas m (tl_head t)) m (promote_gpas gf m cpu t n mapped)"
proof -
  let ?m2 = "add_page_len PROACTIVE_LIST n (foldl (promote_page cpu mapped) m (tl_head t))"
  have u: "untouched (page_gpas m (tl_head t)) m ?m2"
    by (rule untouched_gpas [OF promote_pages_untouched]) (simp add: add_page_len_def)
  have "quiet m (foldl (promote_page cpu mapped) m (tl_head t))" using promote_pages_puts [OF assms] by (simp add: puts_def)
  then have "cpu \<in> mm_cpus ?m2" using assms by (simp add: add_page_len_only lru_frame_eqs(4) [OF quiet_frame])
  then show ?thesis
    using u untouched_gpas [OF u flush_active_mru_same] unfolding promote_gpas_eq by (simp add: Let_def)
qed

text \<open>The pages \<open>vl\<close> become victims and the pages \<open>pl\<close> are put aside to be pinned.\<close>

definition pl_picks :: "emp_mm \<Rightarrow> nat list \<Rightarrow> nat list \<Rightarrow> emp_mm \<Rightarrow> bool" where
  "pl_picks m vl pl m' \<longleftrightarrow> takes (Some PROACTIVE_LIST) m (vl @ pl) m' \<and> changed pl_victim (lp_head m ` set vl) m m'
     \<and> (\<forall>l \<in> set vl. \<not> pinned_head m l) \<and> (\<forall>l \<in> set pl. pinned_head m l)"

lemma pl_picks_trans:
  assumes a: "pl_picks m vl pl m1" and b: "pl_picks m1 vl' pl' m2"
  shows "pl_picks m (vl @ vl') (pl @ pl') m2"
proof -
  have t: "takes (Some PROACTIVE_LIST) m (vl @ pl) m1" "takes (Some PROACTIVE_LIST) m1 (vl' @ pl') m2"
    using assms by (simp_all add: pl_picks_def)
  have h: "lp_head m1 = lp_head m" by (rule takes_lp_head [OF t(1)])
  have tt: "takes (Some PROACTIVE_LIST) m ((vl @ pl) @ (vl' @ pl')) m2" by (rule takes_append [OF t])
  note dis = takes_heads_disjoint [OF tt]
  have t2: "takes (Some PROACTIVE_LIST) m ((vl @ vl') @ (pl @ pl')) m2" by (rule takes_perm [OF tt]) simp
  have "pinned_head m1 l = pinned_head m l" if "l \<in> set (vl' @ pl')" for l
  proof -
    have "lp_head m l \<notin> lp_head m ` set vl" using dis that by auto
    then show ?thesis using changed_flags [of pl_victim "lp_head m ` set vl" m m1] a by (simp add: pinned_head_def h pl_picks_def)
  qed
  moreover have "changed pl_victim (lp_head m ` set vl \<union> lp_head m ` set vl') m m2"
    using assms dis by (intro changed_trans [of _ _ _ m1]) (auto simp: pl_picks_def h)
  ultimately show ?thesis using a b t2 by (auto simp: pl_picks_def image_Un)
qed

lemma pl_scan_ok:
  assumes "pl_scan p n ls vs vp tp m = (vs', vp', tp', m')"
    and "mset ls \<subseteq># mset (el_head (slru_lists m PROACTIVE_LIST p))" and "p \<in> places m"
    and "place_flag p = LOCAL_PAGE_ON_LRU" and "int (length vs) < n"
  shows "\<exists>vl pl. pl_picks m vl pl m' \<and> vs' = vs @ map (lp_head m) vl \<and> vp' = vp + weight m (mset vl)
    \<and> tl_head tp' = tl_head tp @ pl \<and> (temp_list_ok tp \<longrightarrow> temp_list_ok tp') \<and> int (length vs') \<le> n"
  using assms
proof (induction ls arbitrary: vs vp tp m)
  case Nil
  then show ?case by (intro exI [of _ "[]"]) (simp add: pl_picks_def changed_none)
next
  case (Cons l ls)
  note sub = mset_tail_of_remove1 [OF Cons.prems(2)]
  obtain r m1 where t: "emp_trylock_local_page m l = (r, m1)" by (metis surj_pair)
  show ?case
  proof (cases r)
    case None
    with t have m1: "m1 = m" using trylock_None by blast
    have e: "pl_scan p n ls vs vp tp m = (vs', vp', tp', m')" using Cons.prems(1) t None m1 by simp
    show ?thesis by (rule Cons.IH [OF e tail_subset [OF Cons.prems(2)] Cons.prems(3-5)])
  next
    case (Some v)
    let ?m = "take_page PROACTIVE_LIST p LOCAL_PAGE_ON_LRU l m1"
    note tk = lock_and_take [OF t [unfolded Some] Cons.prems(3) conjunct2 [OF sub], unfolded Cons.prems(4)]
    have v: "v = lp_head m l" using t Some by (auto simp: trylock_local_page split: if_splits)
    have same: "descs_same m ?m" using trylock_same [OF t, of PROACTIVE_LIST p LOCAL_PAGE_ON_LRU l] by simp
    have q: "quiet m ?m" using tk(1) by (simp add: takes_def)
    have pin: "pinned_head m l = is_gpa_flags_set (mm_gpas ?m v) GPA_PINNED_MASK"
      using desc_pinned [OF same] by (simp add: pinned_head_def v)
    show ?thesis
    proof (cases "pinned_head m l")
      case True
      then have e: "pl_scan p n ls vs vp (temp_list_add_tail l tp) ?m = (vs', vp', tp', m')"
        using Cons.prems(1) t Some pin by simp
      have one: "pl_picks m [] [l] ?m" using tk(1) same True by (simp add: pl_picks_def changed_none)
      have s: "mset ls \<subseteq># mset (el_head (slru_lists ?m PROACTIVE_LIST p))" "p \<in> places ?m"
        using sub Cons.prems(3) tk(2,3) by simp_all
      from Cons.IH [OF e s Cons.prems(4,5), unfolded takes_lp_head [OF tk(1)] weight_frame [OF quiet_frame [OF q]]]
      obtain vl pl where ih: "pl_picks ?m vl pl m'"
        "vs' = vs @ map (lp_head m) vl" "vp' = vp + weight m (mset vl)" "tl_head tp' = tl_head tp @ l # pl"
        "temp_list_ok tp \<longrightarrow> temp_list_ok tp'" "int (length vs') \<le> n"
        by (auto simp: temp_list_add_tail_def temp_list_ok_def)
      then show ?thesis using pl_picks_trans [OF one ih(1)] by (intro exI [of _ vl] exI [of _ "l # pl"]) simp
    next
      case False
      let ?m2 = "upd_head pl_victim v ?m"
      have tk2: "takes (Some PROACTIVE_LIST) m [l] ?m2" by (rule takes_upd [OF tk(1)]) simp_all
      have "changed pl_victim (lp_head m ` {l}) m ?m2"
        using same_changed [OF same changed_upd_head [of pl_victim v]] by (simp add: v)
      then have one: "pl_picks m [l] [] ?m2" using tk2 False by (simp add: pl_picks_def)
      have q2: "quiet m ?m2" using tk2 by (simp add: takes_def)
      have bp: "int (gpa_block_size (mm_gpas ?m2 v)) = block_pages m l"
        using block_pages_locked [OF q2] by (simp add: v)
      have e: "(if int (length (vs @ [v])) \<ge> n then (vs @ [v], vp + block_pages m l, tp, ?m2)
          else pl_scan p n ls (vs @ [v]) (vp + block_pages m l) tp ?m2) = (vs', vp', tp', m')"
        using Cons.prems(1) by (simp only: pl_scan.simps t Some prod.case option.case Let_def pl_victim_fun bp
            pin [symmetric] False if_False)
      show ?thesis
      proof (cases "int (length (vs @ [v])) \<ge> n")
        case True
        then have "vs' = vs @ [v] \<and> vp' = vp + block_pages m l \<and> tp' = tp \<and> m' = ?m2" using e by simp
        then show ?thesis using one v Cons.prems(5) by (intro exI [of _ "[l]"] exI [of _ "[]"]) simp
      next
        case less: False
        then have e2: "pl_scan p n ls (vs @ [v]) (vp + block_pages m l) tp ?m2 = (vs', vp', tp', m')"
          using e by simp
        have s2: "mset ls \<subseteq># mset (el_head (slru_lists ?m2 PROACTIVE_LIST p))" "p \<in> places ?m2"
          using sub tk(2) places_quiet [OF q2] Cons.prems(3) by (simp_all add: upd_head_simps)
        have l2: "int (length (vs @ [v])) < n" using less by simp
        from Cons.IH [OF e2 s2 Cons.prems(4) l2, unfolded takes_lp_head [OF tk2] weight_frame [OF quiet_frame [OF q2]]]
        obtain vl pl where ih: "pl_picks ?m2 vl pl m'"
          "vs' = vs @ map (lp_head m) (l # vl)" "vp' = vp + weight m (mset (l # vl))" "tl_head tp' = tl_head tp @ pl"
          "temp_list_ok tp \<longrightarrow> temp_list_ok tp'" "int (length vs') \<le> n"
          by (auto simp: v [symmetric])
        then show ?thesis using pl_picks_trans [OF one ih(1)] by (intro exI [of _ "l # vl"] exI [of _ pl]) simp
      qed
    qed
  qed
qed

lemma takes_settled: "takes g m xs m1 \<Longrightarrow> settled m1 m2 \<Longrightarrow> takes g m xs m2"
  using quiet_trans by (auto simp: takes_def settled_def took_def)

lemma takes_Some:
  assumes "takes (Some k) m xs m'"
  shows "members m k' = members m' k' + (if k' = k then mset xs else {#})" and "pin_members m' = pin_members m"
  using assms unfolding takes_def by (auto dest: spec [of _ "Some k'"] spec [of _ None])

lemma pl_picks_settled:
  assumes "pl_picks m vl pl m1" and "settled m1 m2" and "mm_gpas m2 = mm_gpas m1"
  shows "pl_picks m vl pl m2"
  using assms takes_settled changed_same descs_same_eq by (auto simp: pl_picks_def)

lemma add_page_len_0 [simp]: "add_page_len k 0 m = m"
  by (simp add: add_page_len_def)

lemma place_flag_lru [simp]: "place_flag (Slru_lru c) = LOCAL_PAGE_ON_LRU"
  by (simp add: place_flag_def)

lemma pl_round_ok:
  assumes "pl_round m c n tp = (vs, refill, tp', m')" and c: "c \<in> mm_cpus m" and n: "0 < n"
  shows "\<exists>vl pl m1. pl_picks m vl pl m1 \<and> m' = add_page_len PROACTIVE_LIST (- weight m (mset vl)) m1
    \<and> vs = map (lp_head m) vl \<and> tl_head tp' = tl_head tp @ pl \<and> (temp_list_ok tp \<longrightarrow> temp_list_ok tp')
    \<and> int (length vs) \<le> n \<and> (refill \<noteq> 0 \<longrightarrow> vl = [])"
proof -
  let ?p = "Slru_lru c"
  obtain vs1 vp1 tp1 m1 where s: "pl_scan ?p n (el_head (slru_lists m PROACTIVE_LIST ?p)) [] 0 tp m = (vs1, vp1, tp1, m1)"
    by (metis prod_cases4)
  have "?p \<in> places m" using c by simp
  from pl_scan_ok [OF s _ this] n obtain vl pl where sc: "pl_picks m vl pl m1" "vs1 = map (lp_head m) vl"
    "vp1 = weight m (mset vl)" "tl_head tp1 = tl_head tp @ pl" "temp_list_ok tp \<longrightarrow> temp_list_ok tp1" "int (length vs1) \<le> n"
    by auto
  have q: "quiet m m1" using sc(1) by (simp add: pl_picks_def takes_def)
  have c1: "c \<in> mm_cpus m1" using c lru_frame_eqs(4) [OF quiet_frame [OF q]] by simp
  show ?thesis
  proof (cases "vl = [] \<and> emp_list_len (slru_lists m1 PROACTIVE_LIST ?p) < LRU_QUEUE_DEPTH")
    case True
    obtain r m2 where rf: "refill_lru_buf m1 PROACTIVE_LIST c LRU_QUEUE_DEPTH = (r, m2)" by (metis surj_pair)
    have "pl_picks m vl pl m2"
      by (rule pl_picks_settled [OF sc(1) refill_lru_buf_settled [OF c1 rf] refill_lru_buf_same [OF c1 rf]])
    moreover have "vs = [] \<and> refill = r \<and> tp' = tp1 \<and> m' = m2"
      using assms(1) True sc(2) by (simp add: pl_round_def s rf Let_def)
    ultimately show ?thesis using True sc n by (intro exI [of _ vl] exI [of _ pl] exI [of _ m2]) simp
  next
    case False
    then have "vs = vs1 \<and> refill = 0 \<and> tp' = tp1 \<and> m' = add_page_len PROACTIVE_LIST (- vp1) m1"
      using assms(1) sc(2,3) by (cases "vl = []") (simp_all add: pl_round_def s Let_def)
    then show ?thesis using sc by (intro exI [of _ vl] exI [of _ pl] exI [of _ m1]) simp
  qed
qed

text \<open>
  The result for one cpu: the victims are locked and off the lists, the pinned blocks among the pages
  met have gone to the pin list.
\<close>

definition pl_selected :: "emp_mm \<Rightarrow> nat list \<Rightarrow> nat list \<Rightarrow> emp_mm \<Rightarrow> bool" where
  "pl_selected m vl pl m' \<longleftrightarrow> lru_frame m m' \<and> took m vl m'
     \<and> members m PROACTIVE_LIST = members m' PROACTIVE_LIST + mset vl + mset pl
     \<and> members m' ACTIVE_LIST = members m ACTIVE_LIST \<and> members m' INACTIVE_LIST = members m INACTIVE_LIST
     \<and> pin_members m' = pin_members m + mset pl
     \<and> (\<forall>U T. placed U T m \<longrightarrow> placed U (T + mset vl) m')
     \<and> counted m m' (- weight m (mset vl)) 0 (weight m (mset pl))
     \<and> (\<forall>l \<in> set vl. \<not> pinned_head m l) \<and> (\<forall>l \<in> set pl. pinned_head m l)"

lemma took_part:
  assumes "took m (vl @ pl) m1" and "released m1 pl m2" and "lp_head m1 = lp_head m"
  shows "took m vl m2"
  using assms by (auto simp: took_def released_def)

lemma pl_picks_selected:
  assumes pk: "pl_picks m vl pl m1" and pl: "\<And>l. l \<in> set pl \<Longrightarrow> head_page m l"
    and c: "pl = [] \<or> get_list_ptr_pin m c \<noteq> None" and tp: "tl_head tp = pl" "temp_list_ok tp"
  shows "\<exists>m'. (if temp_list_len tp > 0
      then map_option (Pair vs) (move_to_pin_list (add_page_len PROACTIVE_LIST (- weight m (mset vl)) m1) c tp True True)
      else Some (vs, add_page_len PROACTIVE_LIST (- weight m (mset vl)) m1)) = Some (vs, m') \<and> pl_selected m vl pl m'"
proof -
  let ?m = "add_page_len PROACTIVE_LIST (- weight m (mset vl)) m1"
  have t: "takes (Some PROACTIVE_LIST) m (vl @ pl) m1" using pk by (simp add: pl_picks_def)
  have q: "quiet m m1" and f: "lru_frame m ?m"
    using t lru_frame_trans [OF _ add_page_len_only(1)] by (auto simp: takes_def quiet_def)
  have h: "lp_head m1 = lp_head m" by (rule takes_lp_head [OF t])
  have base: "took m (vl @ pl) ?m" "members m PROACTIVE_LIST = members ?m PROACTIVE_LIST + mset vl + mset pl"
    "members ?m ACTIVE_LIST = members m ACTIVE_LIST" "members ?m INACTIVE_LIST = members m INACTIVE_LIST"
    "pin_members ?m = pin_members m"
    "\<And>U T. placed U T m \<Longrightarrow> placed U ((T + mset vl) + mset pl) ?m"
    "counted m ?m (- weight m (mset vl)) 0 0"
    using t takes_Some [OF t]
    by (simp_all add: takes_def took_def add_page_len_only ac_simps)
      (simp add: counted_def add_page_len_def quiet_fields [OF q])
  have pins: "(\<forall>l \<in> set vl. \<not> pinned_head m l) \<and> (\<forall>l \<in> set pl. pinned_head m l)" using pk by (simp add: pl_picks_def)
  show ?thesis
  proof (cases "pl = []")
    case True
    then have "\<not> temp_list_len tp > 0" using tp by (simp add: temp_list_ok_def temp_list_len_def)
    then show ?thesis using True base f pins by (intro exI [of _ ?m]) (simp add: pl_selected_def)
  next
    case False
    then have len: "temp_list_len tp > 0" using tp by (simp add: temp_list_ok_def temp_list_len_def)
    from False c obtain i where "get_list_ptr_pin m c = Some i" by auto
    then have i: "get_list_ptr_pin ?m c = Some i" by (simp add: get_list_ptr_pin_frame [OF f])
    have hp: "head_page ?m l" if "l \<in> set (tl_head tp)" for l using pl that tp by (simp add: head_page_frame [OF f])
    from move_to_pin_list_ok [where t = tp and fp = True and mapped = True, OF i hp] obtain m' where m': "move_to_pin_list ?m c tp True True = Some m'"
      "regroups None ?m pl m'" "counted ?m m' 0 0 (weight m (mset pl))" by (auto simp: tp weight_frame [OF f])
    have g: "members m' k = members ?m k" for k
      using m'(2) unfolding regroups_def by (auto dest: spec [of _ "Some k"])
    have f': "lru_frame m m'" using m'(2) lru_frame_trans [OF f] by (simp add: regroups_def)
    have hm: "lp_head ?m = lp_head m" by (intro ext lru_frame_eqs(1) f)
    have "took m vl m'" by (rule took_part [OF base(1) _ hm]) (use m'(2) in \<open>simp add: regroups_def\<close>)
    moreover have "placed U (T + mset vl) m'" if "placed U T m" for U T
      using m'(2) base(6) [OF that] by (simp add: regroups_def)
    moreover have "counted m m' (- weight m (mset vl)) 0 (weight m (mset pl))"
      using counted_trans [OF base(7) m'(3)] by simp
    moreover have "pin_members m' = pin_members m + mset pl" using m'(2) base(5) by (simp add: regroups_def)
    ultimately have "pl_selected m vl pl m'" using base(2-4) f' pins by (simp add: pl_selected_def g)
    then show ?thesis using len m'(1) by auto
  qed
qed

text \<open>The pin list of the cpu exists, or no pinned block is on the proactive list.\<close>

definition pin_list_there :: "emp_mm \<Rightarrow> int \<Rightarrow> bool" where
  "pin_list_there m c \<longleftrightarrow> get_list_ptr_pin m c \<noteq> None \<or> (\<forall>l \<in># members m PROACTIVE_LIST. \<not> pinned_head m l)"

lemma placed_head_page: "placed U T m \<Longrightarrow> l \<in># members m k \<Longrightarrow> head_page m l"
  by (rule placedD(4)) (cases k; simp add: all_listed_def)+

lemma select_victims_proactive_list_ok:
  assumes c: "c \<in> mm_cpus m" and n: "0 < n" and pl: "placed U T m" and pin: "pin_list_there m c"
  shows "\<exists>vl pl m'. select_victims_proactive_list m c n = Some (map (lp_head m) vl, m')
    \<and> pl_selected m vl pl m' \<and> int (length vl) \<le> n"
proof -
  obtain vs1 r1 tp1 m1 where r1: "pl_round m c n init_temp_list = (vs1, r1, tp1, m1)" by (metis prod_cases4)
  from pl_round_ok [OF r1 c n, simplified] obtain vl1 pl1 n1 where a: "pl_picks m vl1 pl1 n1"
    "m1 = add_page_len PROACTIVE_LIST (- weight m (mset vl1)) n1" "vs1 = map (lp_head m) vl1"
    "tl_head tp1 = pl1" "temp_list_ok tp1" "int (length vs1) \<le> n" "r1 \<noteq> 0 \<longrightarrow> vl1 = []" by blast
  obtain vs2 r2 tp2 m2 where r2: "(if r1 \<noteq> 0 then pl_round m1 c n tp1 else (vs1, r1, tp1, m1)) = (vs2, r2, tp2, m2)"
    by (metis prod_cases4)
  have "\<exists>vl pl n2. pl_picks m vl pl n2 \<and> m2 = add_page_len PROACTIVE_LIST (- weight m (mset vl)) n2
    \<and> vs2 = map (lp_head m) vl \<and> tl_head tp2 = pl \<and> temp_list_ok tp2 \<and> int (length vs2) \<le> n"
  proof (cases "r1 = 0")
    case True
    with r2 have "vs2 = vs1 \<and> tp2 = tp1 \<and> m2 = m1" by simp
    with a show ?thesis by blast
  next
    case False
    with a have v: "vl1 = []" "m1 = n1" by simp_all
    then have q: "quiet m m1" using a(1) by (simp add: pl_picks_def takes_def)
    have t1: "takes (Some PROACTIVE_LIST) m (vl1 @ pl1) m1" using a(1) v by (simp add: pl_picks_def)
    have c1: "c \<in> mm_cpus m1" using c lru_frame_eqs(4) [OF quiet_frame [OF q]] by simp
    have e: "pl_round m1 c n tp1 = (vs2, r2, tp2, m2)" using r2 False by simp
    from pl_round_ok [OF e c1 n, unfolded takes_lp_head [OF t1] weight_frame [OF quiet_frame [OF q]]]
    obtain vl2 pl2 n2 where b: "pl_picks m1 vl2 pl2 n2"
      "m2 = add_page_len PROACTIVE_LIST (- weight m (mset vl2)) n2" "vs2 = map (lp_head m) vl2"
      "tl_head tp2 = tl_head tp1 @ pl2" "temp_list_ok tp1 \<longrightarrow> temp_list_ok tp2" "int (length vs2) \<le> n" by blast
    have "pl_picks m (vl1 @ vl2) (pl1 @ pl2) n2" by (rule pl_picks_trans [OF _ b(1)]) (use a(1) v in simp)
    then show ?thesis using a b v by (intro exI [of _ vl2] exI [of _ "pl1 @ pl2"] exI [of _ n2]) simp
  qed
  then obtain vl pl n2 where d: "pl_picks m vl pl n2" "m2 = add_page_len PROACTIVE_LIST (- weight m (mset vl)) n2"
    "vs2 = map (lp_head m) vl" "tl_head tp2 = pl" "temp_list_ok tp2" "int (length vs2) \<le> n" by blast
  have mem: "l \<in># members m PROACTIVE_LIST" if "l \<in> set pl" for l
    using d(1) that takes_Some(1) [of PROACTIVE_LIST m "vl @ pl" n2 PROACTIVE_LIST] by (simp add: pl_picks_def)
  have pg: "pl = [] \<or> get_list_ptr_pin m c \<noteq> None"
  proof (rule disjCI)
    assume n: "\<not> get_list_ptr_pin m c \<noteq> None"
    show "pl = []"
    proof (rule ccontr)
      assume "pl \<noteq> []"
      then have h: "hd pl \<in> set pl" by simp
      then have "pinned_head m (hd pl)" using d(1) by (simp add: pl_picks_def)
      then show False using pin n mem [OF h] by (simp add: pin_list_there_def)
    qed
  qed
  have hp: "head_page m l" if "l \<in> set pl" for l using placed_head_page [OF assms(3) mem [OF that]] .
  from pl_picks_selected [OF d(1) hp pg d(4,5), of vs2] obtain m' where
    "(if temp_list_len tp2 > 0 then map_option (Pair vs2) (move_to_pin_list m2 c tp2 True True) else Some (vs2, m2)) = Some (vs2, m')"
    "pl_selected m vl pl m'" unfolding d(2) by blast
  moreover have "select_victims_proactive_list m c n =
      (if temp_list_len tp2 > 0 then map_option (Pair vs2) (move_to_pin_list m2 c tp2 True True) else Some (vs2, m2))"
    by (simp add: select_victims_proactive_list_def r1 r2)
  ultimately show ?thesis using d(3,6) by auto
qed

section \<open>Unpinning\<close>

lemma take_pin_simps:
  "mm_gpas (take_pin i l m) = mm_gpas m" "slru_lists (take_pin i l m) = slru_lists m"
  "pin_lists (take_pin i l m) = (pin_lists m)(i := emp_list_del_init l (pin_lists m i))"
  "mm_lps (take_pin i l m) = (mm_lps m)(l := clear_local_page_flags (mm_lps m l) LOCAL_PAGE_ON_PIN)"
  "mm_possible_cpus (take_pin i l m) = mm_possible_cpus m" "quiet m (take_pin i l m)"
  by (simp_all add: take_pin_def upd_lp_def quiet_def lru_frame_def)

lemma take_pin_members:
  assumes "i < mm_possible_cpus m" and "l \<in> set (el_head (pin_lists m i))"
  shows "pin_members m = add_mset l (pin_members (take_pin i l m))" and "members (take_pin i l m) k = members m k"
proof -
  define rm where "rm = remove1 l (el_head (pin_lists m i))"
  have "(\<Sum>j<mm_possible_cpus m. mset (el_head (pin_lists (take_pin i l m) j))) =
      (\<Sum>j<mm_possible_cpus m. mset (if j = i then rm else el_head (pin_lists m j)))"
    by (rule sum.cong) (simp_all add: take_pin_simps emp_list_del_init_def rm_def)
  moreover have "mset (el_head (pin_lists m i)) = add_mset l (mset rm)"
    using assms(2) by (simp add: rm_def)
  ultimately show "pin_members m = add_mset l (pin_members (take_pin i l m))"
    using sum_upd_mset [of "{..<mm_possible_cpus m}" i rm "\<lambda>j. el_head (pin_lists m j)"] assms(1)
    by (simp add: pin_members_def take_pin_simps(5))
  show "members (take_pin i l m) k = members m k"
    by (rule members_cong [OF places_quiet [OF take_pin_simps(6)]]) (rule take_pin_simps)
qed

lemma take_pin_placed:
  assumes pl: "placed U T m" and i: "i < mm_possible_cpus m" and l: "l \<in> set (el_head (pin_lists m i))"
  shows "placed U (add_mset l T) (take_pin i l m)"
proof (rule placed_take [OF pl])
  let ?m = "take_pin i l m"
  show "lru_frame m ?m" using take_pin_simps(6) by (simp add: quiet_def)
  show "all_listed ?m + add_mset l T = all_listed m + T"
    using take_pin_members [OF i l] by (simp add: all_listed_def)
  have "list_flags (mm_lps m l) = {LOCAL_PAGE_ON_PIN}" using placedD(6) [OF pl i l] by (simp add: lp_pinned_at_def)
  then show "list_flags (mm_lps ?m l) = {}" by (simp add: take_pin_simps LOCAL_PAGE_ON_PIN_def)
qed (auto simp: take_pin_simps l)

lemma lock_and_take_pin:
  assumes t: "emp_trylock_local_page m l = (Some h, m1)" and i: "i < mm_possible_cpus m"
    and l: "l \<in> set (el_head (pin_lists m i))"
  shows "takes None m [l] (take_pin i l m1)"
    and "el_head (pin_lists (take_pin i l m1) i) = remove1 l (el_head (pin_lists m i))"
proof -
  have e: "\<not> locked_at m (lp_head m l)" "m1 = upd_head (\<lambda>g. g\<lparr>gpa_lock := True\<rparr>) (lp_head m l) m"
    using t by (auto simp: trylock_local_page split: if_splits)
  have s: "slru_lists m1 = slru_lists m" "pin_lists m1 = pin_lists m" "mm_lps m1 = mm_lps m"
    "mm_possible_cpus m1 = mm_possible_cpus m" by (simp_all add: e(2) upd_head_simps)
  have q: "quiet m m1" unfolding e(2) by (rule upd_head_simps(5)) simp
  have p1: "places m1 = places m" using places_quiet [OF q] .
  have i1: "i < mm_possible_cpus m1" and l1: "l \<in> set (el_head (pin_lists m1 i))" using i l s by simp_all
  have mem: "members m1 k = members m k" "pin_members m1 = pin_members m" for k
    by (simp_all add: members_def pin_members_def p1 s)
  have qq: "quiet m (take_pin i l m1)" using q take_pin_simps(6) by (rule quiet_trans)
  moreover have "took m [l] (take_pin i l m1)"
    using e(1) locked_upd_head [of True "lp_head m l" m] by (simp add: took_def e(2) locked_at_def take_pin_simps(1))
  moreover have "placed U (T + mset [l]) (take_pin i l m1)" if "placed U T m" for U T
    using take_pin_placed [OF placed_cong [OF that quiet_frame [OF q] s(1-3)] i1 l1] by simp
  moreover have "group_members (take_pin i l m1) g' = group_members m g'" if "g' \<noteq> None" for g'
    using that take_pin_members(2) [OF i1 l1] mem by (cases g') simp_all
  ultimately show "takes None m [l] (take_pin i l m1)"
    using take_pin_members(1) [OF i1 l1] mem by (simp add: takes_def)
  show "el_head (pin_lists (take_pin i l m1) i) = remove1 l (el_head (pin_lists m i))"
    by (simp add: take_pin_simps s emp_list_del_init_def)
qed

lemma clear_unlocked:
  "(snd (clear_gpa_flags_if_set d F))\<lparr>gpa_lock := b\<rparr> = snd (clear_gpa_flags_if_set (d\<lparr>gpa_lock := b\<rparr>) F)"
  by (simp add: clear_gpa_flags_if_set_def is_gpa_flags_same_def)

definition unpinned :: "emp_gpa \<Rightarrow> emp_gpa" where
  "unpinned d = snd (clear_gpa_flags_if_set d GPA_PINNED_MASK)"

lemma unpinned_flag: "\<not> is_gpa_flags_set (unpinned d) GPA_PINNED_MASK"
  by (simp add: unpinned_def is_gpa_flags_set_def clear_gpa_flags_if_set_def is_gpa_flags_same_def and.assoc)

lemma pin_scan_ok:
  assumes "pin_scan i n ls temp k w m = (temp', k', w', m')"
    and "mset ls \<subseteq># mset (el_head (pin_lists m i))" and "i < mm_possible_cpus m" and "k < n"
  shows "\<exists>xs. takes None m xs m' \<and> tl_head temp' = tl_head temp @ xs \<and> w' = w + weight m (mset xs)
    \<and> k' = k + int (length xs) \<and> k' \<le> n \<and> changed unpinned (lp_head m ` set xs) m m'"
  using assms
proof (induction ls arbitrary: temp k w m)
  case Nil
  then show ?case by (intro exI [of _ "[]"]) (simp add: changed_def)
next
  case (Cons l ls)
  note sub = mset_tail_of_remove1 [OF Cons.prems(2)]
  obtain r m1 where t: "emp_trylock_local_page m l = (r, m1)" by (metis surj_pair)
  show ?case
  proof (cases r)
    case None
    with t have m1: "m1 = m" using trylock_None by blast
    have e: "pin_scan i n ls temp k w m = (temp', k', w', m')" using Cons.prems(1) t None m1 by simp
    show ?thesis by (rule Cons.IH [OF e tail_subset [OF Cons.prems(2)] Cons.prems(3,4)])
  next
    case (Some v)
    let ?f = "\<lambda>g. snd (clear_gpa_flags_if_set g GPA_PINNED_MASK)"
    let ?m = "upd_head ?f v (take_pin i l m1)"
    note tk = lock_and_take_pin [OF t [unfolded Some] Cons.prems(3) conjunct2 [OF sub]]
    have fu: "?f = unpinned" by (simp add: fun_eq_iff unpinned_def)
    have v: "v = lp_head m l" using t Some by (auto simp: trylock_local_page split: if_splits)
    have "descs_same m (take_pin i l m1)"
      using t Some by (auto simp: trylock_local_page descs_same_def take_pin_simps upd_head_def upd_gpa_def split: if_splits)
    then have ch: "changed unpinned {lp_head m l} m ?m"
      unfolding fu v by (rule same_changed) (rule changed_upd_head, simp add: unpinned_def clear_unlocked)
    have q0: "quiet m (take_pin i l m1)" using tk(1) by (simp add: takes_def)
    have tk2: "takes None m [l] ?m" by (rule takes_upd [OF tk(1)]) simp_all
    then have q: "quiet m ?m" by (simp add: takes_def)
    have w: "w + int (gpa_block_size (mm_gpas (take_pin i l m1) v)) = w + block_pages m l"
      using block_pages_locked [OF q0] by (simp add: v)
    have e: "(if k + 1 \<ge> n then (temp_list_add_tail l temp, k + 1, w + block_pages m l, ?m)
        else pin_scan i n ls (temp_list_add_tail l temp) (k + 1) (w + block_pages m l) ?m) = (temp', k', w', m')"
      using Cons.prems(1) by (simp only: pin_scan.simps t Some prod.case option.case Let_def w)
    show ?thesis
    proof (cases "k + 1 \<ge> n")
      case True
      then show ?thesis using e tk2 ch Cons.prems(4) by (intro exI [of _ "[l]"]) (auto simp: temp_list_add_tail_def)
    next
      case False
      then have e2: "pin_scan i n ls (temp_list_add_tail l temp) (k + 1) (w + block_pages m l) ?m = (temp', k', w', m')"
        using e by simp
      have s2: "mset ls \<subseteq># mset (el_head (pin_lists ?m i))" "i < mm_possible_cpus ?m"
        using sub tk(2) Cons.prems(3) quiet_fields(4) [OF q] by (simp_all add: upd_head_simps)
      have k2: "k + 1 < n" using False by simp
      from Cons.IH [OF e2 s2 k2, unfolded weight_frame [OF quiet_frame [OF q]]] obtain xs where
        "takes None ?m xs m'" "tl_head temp' = tl_head (temp_list_add_tail l temp) @ xs"
        "w' = w + block_pages m l + weight m (mset xs)" "k' = k + 1 + int (length xs)" "k' \<le> n"
        "changed unpinned (lp_head ?m ` set xs) ?m m'" by blast
      moreover have "changed unpinned ({lp_head m l} \<union> lp_head m ` set xs) m m'"
        using calculation(6) takes_heads_disjoint [OF takes_append [OF tk2 calculation(1)]]
        by (intro changed_trans [OF ch]) (simp_all add: takes_lp_head [OF tk2])
      ultimately show ?thesis using takes_append [OF tk2] by (intro exI [of _ "l # xs"]) (simp add: temp_list_add_tail_def)
    qed
  qed
qed

section \<open>The invariant of the lists\<close>

text \<open>
  The pages \<open>T\<close> are held by an operation.  Every listed page is on one list, the one its flags name, and
  the lengths are the sizes of the blocks listed; the pinned blocks count for the proactive list.
\<close>

definition lru_inv :: "nat multiset \<Rightarrow> emp_mm \<Rightarrow> bool" where
  "lru_inv T m \<longleftrightarrow> placed {#} T m
     \<and> slru_page_len m PROACTIVE_LIST = weight m (members m PROACTIVE_LIST + pin_members m)
     \<and> slru_page_len m ACTIVE_LIST = weight m (members m ACTIVE_LIST)
     \<and> cur_pin_pages m = weight m (pin_members m)"

text \<open>The pages \<open>vl\<close> are taken off the lists; their blocks were free and are locked, no other lock changes.\<close>

definition selection :: "nat multiset \<Rightarrow> emp_mm \<Rightarrow> nat list \<Rightarrow> emp_mm \<Rightarrow> bool" where
  "selection T m vl m' \<longleftrightarrow> lru_frame m m' \<and> took m vl m' \<and> lru_inv (T + mset vl) m'"

lemma selection_none: "lru_inv T m \<Longrightarrow> selection T m [] m"
  by (simp add: selection_def)

lemma selection_trans:
  assumes "selection T m vl m1" and "selection (T + mset vl) m1 vl' m2"
  shows "selection T m (vl @ vl') m2"
  using assms took_append lru_frame_trans by (auto simp: selection_def ac_simps)

lemma pl_selected_selection:
  assumes "pl_selected m vl pl m'" and "lru_inv T m"
  shows "selection T m vl m'"
proof -
  have f: "lru_frame m m'" using assms(1) by (simp add: pl_selected_def)
  have w: "weight m (members m PROACTIVE_LIST) = weight m (members m' PROACTIVE_LIST) + weight m (mset vl) + weight m (mset pl)"
    "pin_members m' = pin_members m + mset pl" "members m' ACTIVE_LIST = members m ACTIVE_LIST"
    using assms(1) by (simp_all add: pl_selected_def)
  have "counted m m' (- weight m (mset vl)) 0 (weight m (mset pl))" using assms(1) by (simp add: pl_selected_def)
  with w have "slru_page_len m' PROACTIVE_LIST = weight m' (members m' PROACTIVE_LIST + pin_members m')
    \<and> slru_page_len m' ACTIVE_LIST = weight m' (members m' ACTIVE_LIST) \<and> cur_pin_pages m' = weight m' (pin_members m')"
    using assms(2) by (simp add: counted_def lru_inv_def weight_frame [OF f])
  then show ?thesis using assms by (simp add: selection_def pl_selected_def lru_inv_def)
qed

lemma takes_None:
  assumes "takes None m xs m'"
  shows "members m' k = members m k" and "pin_members m = pin_members m' + mset xs"
  using assms unfolding takes_def by (auto dest: spec [of _ "Some k"])

lemma lru_inv_pin_ok:
  assumes inv: "lru_inv T m" and c: "c \<in> mm_cpus m" and i: "get_list_ptr_pin m c = Some i" and n: "0 < n"
  shows "\<exists>k m'. select_victims_pin_list m c n = Some (k, m') \<and> 0 \<le> k \<and> k \<le> n \<and> selection T m [] m'
    \<and> num_pin_blocks m' = num_pin_blocks m - k \<and> num_evicted_pin_blocks m' = num_evicted_pin_blocks m + k
    \<and> (\<exists>xs. int (length xs) = k \<and> pin_members m = pin_members m' + mset xs
        \<and> members m' PROACTIVE_LIST = members m PROACTIVE_LIST + mset xs \<and> changed unpinned (lp_head m ` set xs) m m'
        \<and> (\<forall>k'. k' \<noteq> PROACTIVE_LIST \<longrightarrow> members m' k' = members m k'))"
proof -
  obtain tmp k w m1 where s: "pin_scan i n (el_head (pin_lists m i)) init_temp_list 0 0 m = (tmp, k, w, m1)"
    by (metis prod_cases4)
  have ii: "i < mm_possible_cpus m" using i by (auto simp: get_list_ptr_pin_def Let_def split: if_splits)
  from pin_scan_ok [OF s _ ii n] obtain xs where xs: "takes None m xs m1" "tl_head tmp = xs" "w = weight m (mset xs)"
    "k = int (length xs)" "k \<le> n" "changed unpinned (lp_head m ` set xs) m m1" by auto
  have q: "quiet m m1" using xs(1) by (simp add: takes_def)
  note f1 = quiet_frame [OF q]
  show ?thesis
  proof (cases "el_len (pin_lists m i) = 0 \<or> k = 0")
    case True
    show ?thesis
    proof (cases "el_len (pin_lists m i) = 0")
      case True
      then have "select_victims_pin_list m c n = Some (0, m)" by (simp add: select_victims_pin_list_def i)
      moreover have "changed unpinned (lp_head m ` set []) m m" by (simp add: changed_def)
      ultimately show ?thesis using selection_none [OF inv] n
        by (intro exI [of _ 0] exI [of _ m] conjI exI [of _ "[]"]) simp_all
    next
      case False
      with True have k0: "k = 0" by simp
      then have e: "select_victims_pin_list m c n = Some (0, m1)" using False by (simp add: select_victims_pin_list_def i s)
      have nil: "xs = []" using k0 xs(4) by simp
      have t: "takes None m [] m1" using xs(1) nil by simp
      have m: "members m1 k' = members m k'" and p: "pin_members m1 = pin_members m" for k'
        using takes_None [OF t] by simp_all
      have "lru_inv T m1" using inv t by (simp add: lru_inv_def takes_def m p weight_frame [OF f1] quiet_fields [OF q])
      then have "selection T m [] m1" using t f1 by (simp add: selection_def takes_def)
      then show ?thesis using e n quiet_fields [OF q] p m xs(6) nil
        by (intro exI [of _ 0] exI [of _ m1] conjI exI [of _ "[]"]) simp_all
    qed
  next
    case False
    let ?m2 = "m1\<lparr>cur_pin_pages := cur_pin_pages m1 - w, num_pin_blocks := num_pin_blocks m1 - k,
      num_evicted_pin_blocks := num_evicted_pin_blocks m1 + k\<rparr>"
    let ?m3 = "foldl (\<lambda>m l. emp_unlock_local_page l (put_page PROACTIVE_LIST (Slru_mru c) l m)) ?m2 xs"
    have e: "select_victims_pin_list m c n = Some (k, ?m3)"
      using False by (simp add: select_victims_pin_list_def i s Let_def put_page_mru_eq xs(2))
    have eqs: "mm_gpas ?m2 = mm_gpas m1" "mm_lps ?m2 = mm_lps m1" "slru_lists ?m2 = slru_lists m1"
      "pin_lists ?m2 = pin_lists m1" "mm_possible_cpus ?m2 = mm_possible_cpus m1" "mm_vcpus_len ?m2 = mm_vcpus_len m1"
      by simp_all
    note l = lengths_only [OF eqs]
    have f2: "lru_frame m ?m2" using lru_frame_trans [OF f1 l(1)] .
    have "Slru_mru c \<in> places ?m2" using c lru_frame_eqs(4) [OF f2] by simp
    then have p: "puts (Some PROACTIVE_LIST) ?m2 xs ?m3" by (rule put_all)
    then have q3: "quiet ?m2 ?m3" by (simp add: puts_def)
    have f3: "lru_frame m ?m3" using lru_frame_trans [OF f2 quiet_frame [OF q3]] .
    have mm: "members ?m2 k' = members m k'" "pin_members m = pin_members ?m2 + mset xs" for k'
      using takes_None [OF xs(1)] l(3) [of "Some k'"] l(3) [of None] by simp_all
    have m3: "members ?m3 k' = members m k' + (if k' = PROACTIVE_LIST then mset xs else {#})"
      "pin_members ?m3 = pin_members ?m2" for k'
      using p mm(1) [of k'] unfolding puts_def by (auto dest: spec [of _ "Some k'"] spec [of _ None])
    have lk: "locked_at ?m3 x = locked_at m x" for x
    proof (rule took_released)
      show "took m xs ?m2" using xs(1) unfolding takes_def took_def l(4) by blast
      show "released ?m2 xs ?m3" using p by (simp add: puts_def)
    qed (use f2 in simp_all)
    have "placed {#} (T + mset xs) ?m2" using xs(1) inv unfolding l(2) by (simp add: takes_def lru_inv_def)
    then have pl: "placed {#} T ?m3" using p by (simp add: puts_def)
    have len: "slru_page_len ?m3 = slru_page_len m" "cur_pin_pages ?m3 = cur_pin_pages m - w"
      "num_pin_blocks ?m3 = num_pin_blocks m - k" "num_evicted_pin_blocks ?m3 = num_evicted_pin_blocks m + k"
      using quiet_fields [OF q3] quiet_fields [OF q] by simp_all
    have wp: "weight m (pin_members m) = weight m (pin_members ?m2) + w"
      using arg_cong [OF mm(2), of "weight m"] by (simp add: xs(3))
    have "lru_inv T ?m3" using inv pl wp
      by (simp only: lru_inv_def weight_frame [OF f3] len m3) (simp add: xs(3))
    then have "selection T m [] ?m3" using f3 lk by (simp add: selection_def)
    moreover have "changed unpinned (lp_head m ` set xs) m ?m3"
    proof (rule changed_same [OF _ put_all_same])
      show "changed unpinned (lp_head m ` set xs) m ?m2" using xs(6) by (simp add: changed_def desc_def)
    qed
    moreover have "pin_members m = pin_members ?m3 + mset xs" unfolding m3(2) by (rule mm(2))
    moreover have "members ?m3 PROACTIVE_LIST = members m PROACTIVE_LIST + mset xs" using m3(1) by simp
    moreover have "\<forall>k'. k' \<noteq> PROACTIVE_LIST \<longrightarrow> members ?m3 k' = members m k'" using m3(1) by simp
    moreover have "0 \<le> k" "int (length xs) = k" using xs(4) by simp_all
    ultimately show ?thesis using e xs(5) len(3,4) by blast
  qed
qed

section \<open>All cpus\<close>

text \<open>No KVM thread has a page list: every cpu has a pin list.\<close>

lemma pin_list_of_cpu: "mm_vcpus_len m \<le> 1 \<Longrightarrow> c \<in> mm_cpus m \<Longrightarrow> \<exists>i. get_list_ptr_pin m c = Some i"
  by (auto simp: mm_cpus_def cpu_ids_def get_list_ptr_pin_def PCPU_ID_def Let_def)

lemma select_pl_selection:
  assumes "lru_inv T m" and "c \<in> mm_cpus m" and "0 < n" and "pin_list_there m c"
  shows "\<exists>vl m'. select_victims_proactive_list m c n = Some (map (lp_head m) vl, m')
    \<and> selection T m vl m' \<and> int (length vl) \<le> n"
proof -
  have "placed {#} T m" using assms(1) by (simp add: lru_inv_def)
  from select_victims_proactive_list_ok [OF assms(2,3) this assms(4)] pl_selected_selection [OF _ assms(1)]
  show ?thesis by blast
qed

lemma selection_lp_head: "selection T m vl m' \<Longrightarrow> lp_head m' = lp_head m"
  by (rule ext) (simp add: selection_def lru_frame_eqs(1))

lemma selection_same:
  "selection T m vl m' \<Longrightarrow> mm_vcpus_len m' = mm_vcpus_len m \<and> mm_possible_cpus m' = mm_possible_cpus m
     \<and> mm_cpus m' = mm_cpus m"
  by (simp add: selection_def lru_frame_def mm_cpus_def)

lemma update_loop_ok:
  assumes "lru_inv T m" and "mm_vcpus_len m \<le> 1" and "set cs \<subseteq> mm_cpus m" and "int (length vs) < n"
  shows "\<exists>vl m'. update_loop n cs vs m = Some (vs @ map (lp_head m) vl, m') \<and> selection T m vl m'
    \<and> int (length vs + length vl) \<le> n"
  using assms
proof (induction cs arbitrary: vs m T)
  case Nil
  then show ?case using selection_none by (intro exI [of _ "[]"]) auto
next
  case (Cons c cs)
  have c: "c \<in> mm_cpus m" using Cons.prems(3) by simp
  have pt: "pin_list_there m c" using pin_list_of_cpu [OF Cons.prems(2) c] by (auto simp: pin_list_there_def)
  have n: "0 < n - int (length vs)" using Cons.prems(4) by simp
  from select_pl_selection [OF Cons.prems(1) c n pt] obtain vl m1 where
    s: "select_victims_proactive_list m c (n - int (length vs)) = Some (map (lp_head m) vl, m1)"
    "selection T m vl m1" "int (length vl) \<le> n - int (length vs)" by blast
  note h = selection_lp_head [OF s(2)] and sm = selection_same [OF s(2)]
  show ?case
  proof (cases "int (length (vs @ map (lp_head m) vl)) \<ge> n")
    case True
    then show ?thesis using s by (intro exI [of _ vl] exI [of _ m1]) simp
  next
    case False
    have inv: "lru_inv (T + mset vl) m1" using s(2) by (simp add: selection_def)
    have p: "mm_vcpus_len m1 \<le> 1" "set cs \<subseteq> mm_cpus m1" "int (length (vs @ map (lp_head m) vl)) < n"
      using Cons.prems sm False by simp_all
    from Cons.IH [OF inv p] obtain vl' m2 where
      i: "update_loop n cs (vs @ map (lp_head m) vl) m1 = Some ((vs @ map (lp_head m) vl) @ map (lp_head m1) vl', m2)"
      "selection (T + mset vl) m1 vl' m2" "int (length (vs @ map (lp_head m) vl) + length vl') \<le> n" by blast
    then show ?thesis using s(1) False selection_trans [OF s(2) i(2)]
      by (intro exI [of _ "vl @ vl'"] exI [of _ m2]) (simp add: h)
  qed
qed

lemma update_pin_loop_ok:
  assumes "lru_inv T m" and "mm_vcpus_len m \<le> 1" and "set cs \<subseteq> mm_cpus m" and "int (length vs) < n"
  shows "\<exists>vl m'. update_pin_loop n cs vs m = Some (vs @ map (lp_head m) vl, m') \<and> selection T m vl m'
    \<and> int (length vs + length vl) \<le> n"
  using assms
proof (induction cs arbitrary: vs m T)
  case Nil
  then show ?case using selection_none by (intro exI [of _ "[]"]) auto
next
  case (Cons c cs)
  have c: "c \<in> mm_cpus m" using Cons.prems(3) by simp
  have n: "0 < n - int (length vs)" using Cons.prems(4) by simp
  obtain i where i: "get_list_ptr_pin m c = Some i" using pin_list_of_cpu [OF Cons.prems(2) c] by blast
  from lru_inv_pin_ok [OF Cons.prems(1) c i n] obtain k m0 where
    z: "select_victims_pin_list m c (n - int (length vs)) = Some (k, m0)" "selection T m [] m0" by blast
  note h0 = selection_lp_head [OF z(2)] and sm0 = selection_same [OF z(2)]
  have inv0: "lru_inv T m0" using z(2) by (simp add: selection_def)
  have p0: "mm_vcpus_len m0 \<le> 1" "set cs \<subseteq> mm_cpus m0" "c \<in> mm_cpus m0" using Cons.prems sm0 c by simp_all
  show ?case
  proof (cases "k = 0")
    case True
    from Cons.IH [OF inv0 p0(1,2) Cons.prems(4)] obtain vl m2 where
      "update_pin_loop n cs vs m0 = Some (vs @ map (lp_head m0) vl, m2)" "selection T m0 vl m2"
      "int (length vs + length vl) \<le> n" by blast
    then show ?thesis using z True selection_trans [of T m "[]" m0 vl m2]
      by (intro exI [of _ vl] exI [of _ m2]) (simp add: h0)
  next
    case False
    have pt: "pin_list_there m0 c" using pin_list_of_cpu [OF p0(1,3)] by (auto simp: pin_list_there_def)
    from select_pl_selection [OF inv0 p0(3) n pt] obtain vl m1 where
      s: "select_victims_proactive_list m0 c (n - int (length vs)) = Some (map (lp_head m) vl, m1)"
      "selection T m0 vl m1" "int (length vl) \<le> n - int (length vs)" by (auto simp: h0)
    note h = selection_lp_head [OF s(2)] and sm = selection_same [OF s(2)]
    have s2: "selection T m vl m1" using selection_trans [of T m "[]" m0 vl m1] z(2) s(2) by simp
    show ?thesis
    proof (cases "int (length (vs @ map (lp_head m) vl)) \<ge> n")
      case True
      then show ?thesis using s z False s2 by (intro exI [of _ vl] exI [of _ m1]) simp
    next
      case less: False
      have inv: "lru_inv (T + mset vl) m1" using s(2) by (simp add: selection_def)
      have p: "mm_vcpus_len m1 \<le> 1" "set cs \<subseteq> mm_cpus m1" "int (length (vs @ map (lp_head m) vl)) < n"
        using p0 sm less by simp_all
      from Cons.IH [OF inv p] obtain vl' m2 where
        j: "update_pin_loop n cs (vs @ map (lp_head m) vl) m1 = Some ((vs @ map (lp_head m) vl) @ map (lp_head m1) vl', m2)"
        "selection (T + mset vl) m1 vl' m2" "int (length (vs @ map (lp_head m) vl) + length vl') \<le> n" by blast
      then show ?thesis using s(1) z(1) False less selection_trans [OF s2 j(2)]
        by (intro exI [of _ "vl @ vl'"] exI [of _ m2]) (simp add: h h0)
    qed
  qed
qed

lemma update_proactive_list_ok:
  assumes inv: "lru_inv T m" and v: "mm_vcpus_len m \<le> 1" and c: "c \<in> mm_cpus m" and n: "0 < n"
  shows "\<exists>vl m'. update_proactive_list m c n = Some (map (lp_head m) vl, m') \<and> selection T m vl m'
    \<and> int (length vl) \<le> n"
proof -
  let ?cs = "for_all_vcpus_from (mm_possible_cpus m) (mm_vcpus_len m) c"
  have "0 < mm_possible_cpus m" using c v by (auto simp: mm_cpus_def cpu_ids_def)
  then have cs: "set ?cs = mm_cpus m" using for_all_vcpus_ok c by (simp add: mm_cpus_def)
  then have sub: "set ?cs \<subseteq> mm_cpus m" by simp
  have l: "int (length ([] :: gpa_ptr list)) < n" using n by simp
  from update_loop_ok [OF inv v sub l] obtain vl m1 where
    a: "update_loop n ?cs [] m = Some (map (lp_head m) vl, m1)" "selection T m vl m1" "int (length vl) \<le> n" by auto
  show ?thesis
  proof (cases "vl \<noteq> [] \<or> cur_pin_pages m1 = 0")
    case True
    then have "update_proactive_list m c n = Some (map (lp_head m) vl, m1)"
      using a(1) by (auto simp: update_proactive_list_def Let_def)
    then show ?thesis using a by blast
  next
    case False
    then have e: "update_proactive_list m c n = update_pin_loop n ?cs [] m1"
      using a(1) by (auto simp: update_proactive_list_def Let_def)
    have s1: "selection T m [] m1" using a(2) False by simp
    then have "lru_inv T m1" "mm_vcpus_len m1 \<le> 1" "set ?cs \<subseteq> mm_cpus m1"
      using selection_same [OF s1] v cs by (simp_all add: selection_def)
    from update_pin_loop_ok [OF this l] obtain vl' m2 where
      "update_pin_loop n ?cs [] m1 = Some (map (lp_head m1) vl', m2)" "selection T m1 vl' m2" "int (length vl') \<le> n" by auto
    then show ?thesis using e selection_trans [of T m "[]" m1 vl' m2] s1 selection_lp_head [OF s1] by auto
  qed
qed

section \<open>Victims of the active list\<close>

definition al_ok :: "al_state \<Rightarrow> bool" where
  "al_ok s \<longleftrightarrow> temp_list_ok (al_pin s) \<and> temp_list_ok (al_promote s)"

text \<open>The state of the scan after the pages \<open>vl\<close>, \<open>pl\<close> and \<open>rl\<close> became victims, were put aside to be pinned and to be promoted.\<close>

definition al_grown :: "emp_mm \<Rightarrow> al_state \<Rightarrow> nat list \<Rightarrow> nat list \<Rightarrow> nat list \<Rightarrow> al_state \<Rightarrow> bool" where
  "al_grown m s vl pl rl s' \<longleftrightarrow> al_vs s' = al_vs s @ map (lp_head m) vl \<and> al_pages s' = al_pages s + weight m (mset vl)
     \<and> tl_head (al_pin s') = tl_head (al_pin s) @ pl \<and> al_pin_pages s' = al_pin_pages s + weight m (mset pl)
     \<and> tl_head (al_promote s') = tl_head (al_promote s) @ rl
     \<and> al_promote_pages s' = al_promote_pages s + weight m (mset rl) \<and> (al_ok s \<longrightarrow> al_ok s')"

lemma al_grown_refl: "al_grown m s [] [] [] s"
  by (simp add: al_grown_def)

lemma al_grown_trans:
  "al_grown m s vl pl rl s1 \<Longrightarrow> al_grown m s1 vl' pl' rl' s2 \<Longrightarrow> al_grown m s (vl @ vl') (pl @ pl') (rl @ rl') s2"
  by (simp add: al_grown_def)

lemma unlock_after_lock:
  "\<not> locked_at m q \<Longrightarrow> upd_head emp_gpa_unlock q (upd_head (\<lambda>g. g\<lparr>gpa_lock := True\<rparr>) q m) = m"
proof -
  assume "\<not> locked_at m q"
  then have "(mm_gpas m q)\<lparr>gpa_lock := False\<rparr> = mm_gpas m q" by (simp add: locked_at_def)
  then show ?thesis by (simp add: upd_head_def upd_gpa_def emp_gpa_unlock_def)
qed

lemma take_page_upd_head: "take_page k p i l (upd_head f q m) = upd_head f q (take_page k p i l m)"
  by (simp add: page_ops upd_head_def upd_gpa_def)

definition promoted_head :: "emp_mm \<Rightarrow> nat \<Rightarrow> bool" where
  "promoted_head m l \<longleftrightarrow> is_gpa_flags_set (mm_gpas m (lp_head m l)) GPA_PROMOTE_MASK"

definition victim_state :: "lru_list_type \<Rightarrow> gpa_state" where
  "victim_state k = (if k = ACTIVE_LIST then GPA_TRANS_AL else GPA_TRANS_IL)"

text \<open>What the scan does to the descriptor \<open>q\<close> when the blocks with the heads \<open>V\<close> are victims and those of \<open>R\<close> are promoted.\<close>

definition al_change :: "lru_list_type \<Rightarrow> gpa_ptr set \<Rightarrow> gpa_ptr set \<Rightarrow> gpa_ptr \<Rightarrow> emp_gpa \<Rightarrow> emp_gpa" where
  "al_change k V R q d = (if q \<in> V then d\<lparr>r_state := victim_state k\<rparr>
     else if q \<in> R then snd (clear_gpa_flags_if_set d GPA_PROMOTE_MASK) else d)"

definition al_picks :: "lru_list_type \<Rightarrow> emp_mm \<Rightarrow> al_state \<Rightarrow> nat list \<Rightarrow> nat list \<Rightarrow> nat list \<Rightarrow> al_state \<Rightarrow> emp_mm \<Rightarrow> bool" where
  "al_picks k m s vl pl rl s' m' \<longleftrightarrow> takes (Some k) m (vl @ pl @ rl) m' \<and> al_grown m s vl pl rl s'
     \<and> (\<forall>q. desc m' q = al_change k (lp_head m ` set vl) (lp_head m ` set rl) q (desc m q))
     \<and> (\<forall>l \<in> set pl. pinned_head m l) \<and> (\<forall>l \<in> set rl. \<not> pinned_head m l \<and> promoted_head m l)
     \<and> (\<forall>l \<in> set vl. \<not> pinned_head m l \<and> \<not> promoted_head m l)"

lemma al_picks_refl: "al_picks k m s [] [] [] s m"
  by (simp add: al_picks_def al_grown_refl al_change_def)

lemma al_picks_trans:
  assumes a: "al_picks k m s vl pl rl s1 m1" and b: "al_picks k m1 s1 vl' pl' rl' s2 m2"
  shows "al_picks k m s (vl @ vl') (pl @ pl') (rl @ rl') s2 m2"
proof -
  have t: "takes (Some k) m (vl @ pl @ rl) m1" "takes (Some k) m1 (vl' @ pl' @ rl') m2"
    using assms by (simp_all add: al_picks_def)
  have h: "lp_head m1 = lp_head m" by (rule takes_lp_head [OF t(1)])
  have q: "quiet m m1" using t(1) by (simp add: takes_def)
  have tt: "takes (Some k) m ((vl @ pl @ rl) @ (vl' @ pl' @ rl')) m2" by (rule takes_append [OF t])
  note dis = takes_heads_disjoint [OF tt]
  have "takes (Some k) m ((vl @ vl') @ (pl @ pl') @ (rl @ rl')) m2"
    by (rule takes_perm [OF tt]) simp
  moreover have "al_grown m s1 vl' pl' rl' s2"
    using b by (simp add: al_picks_def al_grown_def h weight_frame [OF quiet_frame [OF q]])
  moreover have flag: "is_gpa_flags_set (mm_gpas m1 (lp_head m l)) F = is_gpa_flags_set (mm_gpas m (lp_head m l)) F"
    if "l \<in> set (vl' @ pl' @ rl')" for l F
  proof -
    have "lp_head m l \<notin> lp_head m ` set vl \<union> lp_head m ` set rl" using dis that by auto
    then have "desc m1 (lp_head m l) = desc m (lp_head m l)" using a by (simp add: al_picks_def al_change_def)
    then show ?thesis by (metis is_flag_desc)
  qed
  moreover have "desc m2 q = al_change k (lp_head m ` set (vl @ vl')) (lp_head m ` set (rl @ rl')) q (desc m q)" for q
  proof -
    have "desc m2 q = al_change k (lp_head m ` set vl') (lp_head m ` set rl') q (al_change k (lp_head m ` set vl) (lp_head m ` set rl) q (desc m q))"
      using a b by (simp add: al_picks_def h)
    moreover have "q \<in> lp_head m ` (set vl \<union> set rl) \<Longrightarrow> q \<notin> lp_head m ` (set vl' \<union> set rl')" using dis by auto
    ultimately show ?thesis by (auto simp: al_change_def)
  qed
  ultimately show ?thesis using a b al_grown_trans by (auto simp: al_picks_def pinned_head_def promoted_head_def h)
qed

text \<open>A step of the scan that keeps the page: \<open>f\<close> is what it does to the head.\<close>

lemma al_pick_one:
  assumes t: "emp_trylock_local_page m l = (Some v, m1)" and p: "p \<in> places m" "place_flag p = i"
    and l: "l \<in> set (el_head (slru_lists m k p))"
    and f: "\<And>d. fixed_part (f d) = fixed_part d" "\<And>d. gpa_lock (f d) = gpa_lock d"
      "\<And>d. (f d)\<lparr>gpa_lock := False\<rparr> = f (d\<lparr>gpa_lock := False\<rparr>)"
    and g: "al_grown m s vl pl rl s'" "vl @ pl @ rl = [l]" "\<forall>x \<in> set pl. pinned_head m x"
      "\<forall>x \<in> set rl. \<not> pinned_head m x \<and> promoted_head m x" "\<forall>x \<in> set vl. \<not> pinned_head m x \<and> \<not> promoted_head m x"
      "al_change k (lp_head m ` set vl) (lp_head m ` set rl) (lp_head m l) = f"
  defines "m2 \<equiv> upd_head f v (take_page k p i l m1)"
  shows "al_picks k m s vl pl rl s' m2" and "places m2 = places m"
    and "el_head (slru_lists m2 k p) = remove1 l (el_head (slru_lists m k p))"
proof -
  note tk = lock_and_take [OF t p(1) l, unfolded p(2)]
  have t2: "takes (Some k) m [l] m2" unfolding m2_def by (rule takes_upd [OF tk(1) f(1,2)])
  have v: "v = lp_head m l" using t by (auto simp: trylock_local_page split: if_splits)
  have "descs_same m (take_page k p i l m1)"
    using trylock_same [OF t] by blast
  then have "changed f {v} m m2" unfolding m2_def by (rule same_changed) (rule changed_upd_head, rule f(3))
  moreover have "set vl \<subseteq> {l}" "set rl \<subseteq> {l}" using arg_cong [OF g(2), of set] by auto
  ultimately have "desc m2 q = al_change k (lp_head m ` set vl) (lp_head m ` set rl) q (desc m q)" for q
    using g(6) by (auto simp: changed_def v al_change_def fun_eq_iff)
  then show "al_picks k m s vl pl rl s' m2" using t2 g by (simp add: al_picks_def)
  show "places m2 = places m" using places_quiet takes_quiet t2 by blast
  show "el_head (slru_lists m2 k p) = remove1 l (el_head (slru_lists m k p))"
    using tk(2) by (simp add: m2_def upd_head_simps)
qed

lemma trylock_flags:
  assumes "emp_trylock_local_page m l = (Some v, m1)"
  shows "is_gpa_flags_set (mm_gpas m1 v) GPA_PINNED_MASK = pinned_head m l"
    and "fst (clear_gpa_flags_if_set (mm_gpas m1 v) GPA_PROMOTE_MASK) = promoted_head m l"
proof -
  have v: "v = lp_head m l" "m1 = upd_head (\<lambda>g. g\<lparr>gpa_lock := True\<rparr>) v m"
    using assms by (auto simp: trylock_local_page split: if_splits)
  show "is_gpa_flags_set (mm_gpas m1 v) GPA_PINNED_MASK = pinned_head m l"
    "fst (clear_gpa_flags_if_set (mm_gpas m1 v) GPA_PROMOTE_MASK) = promoted_head m l"
    by (simp_all add: v(2) pinned_head_def promoted_head_def upd_head_def upd_gpa_def is_gpa_flags_set_def
        clear_gpa_flags_if_set_def is_gpa_flags_same_def v(1))
qed

lemma al_change_cases:
  "al_change k {} {} q = (\<lambda>d. d)" "al_change k {} {q} q = (\<lambda>d. snd (clear_gpa_flags_if_set d GPA_PROMOTE_MASK))"
  "al_change k {q} {} q = (\<lambda>d. d\<lparr>r_state := victim_state k\<rparr>)"
  by (simp_all add: al_change_def fun_eq_iff)

lemma upd_head_id: "upd_head (\<lambda>d. d) q m = m"
  by (simp add: upd_head_def upd_gpa_def)

lemma al_scan_ok:
  assumes "al_scan pc p n ls s m = (s', m')"
    and "mset ls \<subseteq># mset (el_head (slru_lists m ACTIVE_LIST p))" and "p \<in> places m"
    and "place_flag p = LOCAL_PAGE_ON_LRU" and "int (length (al_vs s)) < n"
  shows "\<exists>vl pl rl. al_picks ACTIVE_LIST m s vl pl rl s' m' \<and> int (length (al_vs s')) \<le> n"
  using assms
proof (induction ls arbitrary: s m)
  case Nil
  then show ?case using al_picks_refl by (intro exI [of _ "[]"]) auto
next
  case (Cons l ls)
  note sub = mset_tail_of_remove1 [OF Cons.prems(2)] and p = Cons.prems(3,4)
  note lin = conjunct2 [OF sub]
  obtain r m1 where t: "emp_trylock_local_page m l = (r, m1)" by (metis surj_pair)
  have go: ?case
    if one: "al_picks ACTIVE_LIST m s vl pl rl s2 m2" "places m2 = places m"
      "el_head (slru_lists m2 ACTIVE_LIST p) = remove1 l (el_head (slru_lists m ACTIVE_LIST p))"
      and e: "al_scan pc p n ls s2 m2 = (s', m')" and len: "int (length (al_vs s2)) < n" for vl pl rl s2 m2
  proof -
    have "mset ls \<subseteq># mset (el_head (slru_lists m2 ACTIVE_LIST p))" "p \<in> places m2" using sub one(2,3) p by simp_all
    from Cons.IH [OF e this p(2) len] obtain vl' pl' rl' where
      "al_picks ACTIVE_LIST m2 s2 vl' pl' rl' s' m'" "int (length (al_vs s')) \<le> n" by blast
    then show ?thesis using al_picks_trans [OF one(1)] by blast
  qed
  show ?case
  proof (cases r)
    case None
    with t have m1: "m1 = m" using trylock_None by blast
    have e: "al_scan pc p n ls s m = (s', m')" using Cons.prems(1) t None m1 by simp
    show ?thesis by (rule Cons.IH [OF e tail_subset [OF Cons.prems(2)] p Cons.prems(5)])
  next
    case (Some v)
    have v: "v = lp_head m l" "\<not> locked_at m v" "m1 = upd_head (\<lambda>g. g\<lparr>gpa_lock := True\<rparr>) v m"
      using t Some by (auto simp: trylock_local_page split: if_splits)
    have q1: "quiet m m1" unfolding v(3) by (rule upd_head_simps(5)) simp
    have bp: "int (gpa_block_size (mm_gpas m1 v)) = block_pages m l" using block_pages_locked [OF q1] by (simp add: v(1))
    note pin = trylock_flags [OF t [unfolded Some]]
    note eq = Cons.prems(1) [unfolded al_scan.simps t Some prod.case option.case Let_def bp pin]
    note pk = al_pick_one [OF t [unfolded Some] p lin]
    let ?m2 = "take_page ACTIVE_LIST p LOCAL_PAGE_ON_LRU l m1"
    consider (pin) "pinned_head m l"
      | (promote) "\<not> pinned_head m l" "promoted_head m l"
      | (victim) "\<not> pinned_head m l" "\<not> promoted_head m l"
          "\<not> is_unmapped_active (mm_gpas m1 v) \<and> gpa_acquire pc m1 v"
      | (keep) "\<not> pinned_head m l" "\<not> promoted_head m l"
          "\<not> (\<not> is_unmapped_active (mm_gpas m1 v) \<and> gpa_acquire pc m1 v)"
      by blast
    then show ?thesis
    proof cases
      case pin
      let ?s2 = "s\<lparr>al_pin := temp_list_add_tail l (al_pin s), al_pin_pages := al_pin_pages s + block_pages m l\<rparr>"
      have e: "al_scan pc p n ls ?s2 ?m2 = (s', m')" using eq pin by simp
      have g: "al_grown m s [] [l] [] ?s2" by (simp add: al_grown_def temp_list_add_tail_def al_ok_def temp_list_ok_def)
      note o = pk [OF _ _ _ g, of "\<lambda>d. d", unfolded upd_head_id, simplified, OF pin al_change_cases(1)]
      show ?thesis by (rule go [OF o e]) (use Cons.prems(5) in simp)
    next
      case promote
      let ?s2 = "s\<lparr>al_promote := temp_list_add_tail l (al_promote s), al_promote_pages := al_promote_pages s + block_pages m l\<rparr>"
      let ?f = "\<lambda>g. snd (clear_gpa_flags_if_set g GPA_PROMOTE_MASK)"
      have e: "al_scan pc p n ls ?s2 (upd_head ?f v ?m2) = (s', m')"
        using eq promote by (simp add: take_page_upd_head)
      have g: "al_grown m s [] [] [l] ?s2" by (simp add: al_grown_def temp_list_add_tail_def al_ok_def temp_list_ok_def)
      note o = pk [OF _ _ _ g, of ?f, simplified, OF clear_unlocked conjI [OF promote] al_change_cases(2)]
      show ?thesis by (rule go [OF o e]) (use Cons.prems(5) in simp)
    next
      case victim
      let ?s2 = "s\<lparr>al_vs := al_vs s @ [v], al_pages := al_pages s + block_pages m l\<rparr>"
      let ?f = "\<lambda>g. g\<lparr>r_state := GPA_TRANS_AL\<rparr>"
      have g: "al_grown m s [l] [] [] ?s2" by (simp add: al_grown_def al_ok_def v(1))
      have ch: "al_change ACTIVE_LIST {lp_head m l} {} (lp_head m l) = ?f" by (simp add: al_change_cases victim_state_def)
      note o = pk [OF _ _ _ g, of ?f, simplified, OF conjI [OF victim(1,2)] ch]
      let ?stop = "int (length (al_vs ?s2)) \<ge> n \<or> int (length (al_vs ?s2)) \<ge> NUM_VICTIM_CLUSTER"
      have e: "(if ?stop then (?s2, upd_head ?f v ?m2) else al_scan pc p n ls ?s2 (upd_head ?f v ?m2)) = (s', m')"
        using eq victim by simp
      show ?thesis
      proof (cases ?stop)
        case True
        then have "s' = ?s2 \<and> m' = upd_head ?f v ?m2" using e by simp
        then show ?thesis using o(1) Cons.prems(5) by (intro exI [of _ "[l]"] exI [of _ "[]"]) simp
      next
        case False
        then have "al_scan pc p n ls ?s2 (upd_head ?f v ?m2) = (s', m')" using e by simp
        then show ?thesis by (rule go [OF o]) (use False in simp)
      qed
    next
      case keep
      have e: "al_scan pc p n ls s (upd_head emp_gpa_unlock v m1) = (s', m')" using eq keep by auto
      then have "al_scan pc p n ls s m = (s', m')" unfolding v(3) unlock_after_lock [OF v(2)] .
      then show ?thesis by (rule Cons.IH [OF _ tail_subset [OF Cons.prems(2)] p Cons.prems(5)])
    qed
  qed
qed

lemma al_picks_settled:
  assumes "al_picks k m s vl pl rl s' m1" and "settled m1 m2" and "mm_gpas m2 = mm_gpas m1"
  shows "al_picks k m s vl pl rl s' m2"
  using assms takes_settled by (auto simp: al_picks_def desc_def)

lemma al_round_ok:
  assumes "al_round pc m c n s = (refill, s', m')" and c: "c \<in> mm_cpus m" and n: "0 < n"
    and s: "al_vs s = []" "al_pages s = 0"
  shows "\<exists>vl pl rl m1. al_picks ACTIVE_LIST m s vl pl rl s' m1 \<and> m' = add_page_len ACTIVE_LIST (- weight m (mset vl)) m1
    \<and> int (length (al_vs s')) \<le> n \<and> (refill \<noteq> 0 \<longrightarrow> vl = [])"
proof -
  let ?p = "Slru_lru c"
  obtain s1 m1 where sc: "al_scan pc ?p n (el_head (slru_lists m ACTIVE_LIST ?p)) s m = (s1, m1)" by (metis surj_pair)
  have "?p \<in> places m" using c by simp
  from al_scan_ok [OF sc _ this] n s obtain vl pl rl where a: "al_picks ACTIVE_LIST m s vl pl rl s1 m1" "int (length (al_vs s1)) \<le> n"
    by auto
  have vs: "al_vs s1 = map (lp_head m) vl" "al_pages s1 = weight m (mset vl)" using a(1) s by (simp_all add: al_picks_def al_grown_def)
  have q: "quiet m m1" using a(1) by (simp add: al_picks_def takes_def)
  have c1: "c \<in> mm_cpus m1" using c lru_frame_eqs(4) [OF quiet_frame [OF q]] by simp
  show ?thesis
  proof (cases "vl = [] \<and> emp_list_len (slru_lists m1 ACTIVE_LIST ?p) < LRU_QUEUE_DEPTH")
    case True
    obtain r m2 where rf: "refill_lru_buf m1 ACTIVE_LIST c LRU_QUEUE_DEPTH = (r, m2)" by (metis surj_pair)
    have "al_picks ACTIVE_LIST m s vl pl rl s1 m2"
      by (rule al_picks_settled [OF a(1) refill_lru_buf_settled [OF c1 rf] refill_lru_buf_same [OF c1 rf]])
    moreover have "refill = r \<and> s' = s1 \<and> m' = m2"
      using assms(1) True vs by (simp add: al_round_def sc rf Let_def)
    ultimately show ?thesis using True a(2)
      by (intro exI [of _ vl] exI [of _ pl] exI [of _ rl] exI [of _ m2]) simp
  next
    case False
    then have "refill = 0 \<and> s' = s1 \<and> m' = add_page_len ACTIVE_LIST (- weight m (mset vl)) m1"
      using assms(1) vs by (cases "vl = []") (simp_all add: al_round_def sc Let_def)
    then show ?thesis using a by (intro exI [of _ vl] exI [of _ pl] exI [of _ rl] exI [of _ m1]) simp
  qed
qed

lemma counted_add:
  "counted m (add_page_len ACTIVE_LIST x m) 0 x 0" "counted m (add_page_len PROACTIVE_LIST x m) x 0 0"
  by (simp_all add: counted_def add_page_len_def)

lemma regroups_eqs:
  assumes "regroups g m xs m'"
  shows "lru_frame m m'" and "members m' k = members m k + (if g = Some k then mset xs else {#})"
    and "pin_members m' = pin_members m + (if g = None then mset xs else {#})"
    and "placed U (T + mset xs) m \<Longrightarrow> placed U T m'"
    and "locked_at m' q \<longleftrightarrow> locked_at m q \<and> q \<notin> lp_head m ` set xs"
  using assms unfolding regroups_def released_def by (auto dest: spec [of _ "Some k"] spec [of _ None])

lemma regroups_add_page_len:
  assumes "regroups g (add_page_len k x m) xs m'"
  shows "regroups g m xs m'"
  using assms lru_frame_trans [OF add_page_len_only(1) [of m k x]]
  by (simp add: regroups_def released_def add_page_len_only)

lemma regroups_Nil: "regroups g m [] m"
  by (simp add: regroups_def released_def)

definition pin_list_for :: "lru_list_type \<Rightarrow> emp_mm \<Rightarrow> int \<Rightarrow> bool" where
  "pin_list_for k m c \<longleftrightarrow> get_list_ptr_pin m c \<noteq> None \<or> (\<forall>l \<in># members m k. \<not> pinned_head m l)"

text \<open>
  Where the blocks met on the list \<open>k\<close> went: \<open>vl\<close> are the victims, \<open>pl\<close> have gone to the pin list and \<open>rl\<close>
  to the proactive list; the rest of the list stays.
\<close>

definition sorted_out :: "lru_list_type \<Rightarrow> emp_mm \<Rightarrow> nat list \<Rightarrow> nat list \<Rightarrow> nat list \<Rightarrow> emp_mm \<Rightarrow> bool" where
  "sorted_out k m vl pl rl m' \<longleftrightarrow> members m k = members m' k + mset vl + mset pl + mset rl
     \<and> pin_members m' = pin_members m + mset pl \<and> members m' PROACTIVE_LIST = members m PROACTIVE_LIST + mset rl
     \<and> (\<forall>k'. k' \<noteq> k \<and> k' \<noteq> PROACTIVE_LIST \<longrightarrow> members m' k' = members m k')
     \<and> (\<forall>l \<in> set pl. pinned_head m l) \<and> (\<forall>l \<in> set rl. \<not> pinned_head m l \<and> promoted_head m l)
     \<and> (\<forall>l \<in> set vl. \<not> pinned_head m l \<and> \<not> promoted_head m l)
     \<and> (\<forall>q. q \<notin> lp_head m ` set (pl @ rl) \<longrightarrow>
          desc m' q = (if q \<in> lp_head m ` set vl then (desc m q)\<lparr>r_state := victim_state k\<rparr> else desc m q))"

lemma page_gpas_heads: "lru_frame m m' \<Longrightarrow> (\<And>l. l \<in> set xs \<Longrightarrow> head_page m l) \<Longrightarrow> page_gpas m' xs = lp_head m ` set xs"
  by (auto simp: page_gpas_def lru_frame_def head_page_def intro!: image_eqI)

lemma al_picks_desc:
  assumes "al_picks k m s vl pl rl s' m1" and "untouched (lp_head m ` set (pl @ rl)) m1 m'"
    and "q \<notin> lp_head m ` set (pl @ rl)"
  shows "desc m' q = (if q \<in> lp_head m ` set vl then (desc m q)\<lparr>r_state := victim_state k\<rparr> else desc m q)"
proof -
  have "desc m' q = desc m1 q" using assms(2,3) unfolding untouched_def by blast
  then show ?thesis using assms(1,3) by (auto simp: al_picks_def al_change_def)
qed

lemma select_victims_active_list_ok:
  assumes inv: "lru_inv T m" and c: "c \<in> mm_cpus m" and n: "0 < n" and pin: "pin_list_for ACTIVE_LIST m c"
  shows "\<exists>vl pl rl m'. select_victims_active_list gf pc m c n = Some (map (lp_head m) vl, m') \<and> selection T m vl m'
    \<and> int (length vl) \<le> n \<and> sorted_out ACTIVE_LIST m vl pl rl m'"
proof -
  obtain r1 s1 m1 where r1: "al_round pc m c n init_al_state = (r1, s1, m1)" by (metis prod_cases3)
  have i0: "al_vs init_al_state = []" "al_pages init_al_state = 0" by (simp_all add: init_al_state_def)
  from al_round_ok [OF r1 c n i0] obtain vl1 pl1 rl1 n1 where a: "al_picks ACTIVE_LIST m init_al_state vl1 pl1 rl1 s1 n1"
    "m1 = add_page_len ACTIVE_LIST (- weight m (mset vl1)) n1" "int (length (al_vs s1)) \<le> n" "r1 \<noteq> 0 \<longrightarrow> vl1 = []" by blast
  obtain r2 s2 m2 where r2: "(if r1 \<noteq> 0 then al_round pc m1 c n s1 else (r1, s1, m1)) = (r2, s2, m2)"
    by (metis prod_cases3)
  have "\<exists>vl pl rl n2. al_picks ACTIVE_LIST m init_al_state vl pl rl s2 n2 \<and> m2 = add_page_len ACTIVE_LIST (- weight m (mset vl)) n2
    \<and> int (length (al_vs s2)) \<le> n"
  proof (cases "r1 = 0")
    case True
    with r2 have "s2 = s1 \<and> m2 = m1" by simp
    with a show ?thesis by blast
  next
    case False
    with a have v: "vl1 = []" "m1 = n1" by simp_all
    have q: "quiet m m1" using a(1) v by (simp add: al_picks_def takes_def)
    have c1: "c \<in> mm_cpus m1" using c lru_frame_eqs(4) [OF quiet_frame [OF q]] by simp
    have e: "al_round pc m1 c n s1 = (r2, s2, m2)" using r2 False by simp
    have z: "al_vs s1 = []" "al_pages s1 = 0" using a(1) v i0 by (simp_all add: al_picks_def al_grown_def)
    from al_round_ok [OF e c1 n z, unfolded weight_frame [OF quiet_frame [OF q]]]
    obtain vl2 pl2 rl2 n2 where b: "al_picks ACTIVE_LIST m1 s1 vl2 pl2 rl2 s2 n2"
      "m2 = add_page_len ACTIVE_LIST (- weight m (mset vl2)) n2" "int (length (al_vs s2)) \<le> n" by blast
    have "al_picks ACTIVE_LIST m init_al_state (vl1 @ vl2) (pl1 @ pl2) (rl1 @ rl2) s2 n2"
      by (rule al_picks_trans [OF _ b(1)]) (use a(1) v in simp)
    then show ?thesis using b(2,3) v by (intro exI [of _ vl2] exI conjI) simp_all
  qed
  then obtain vl pl rl n2 where d: "al_picks ACTIVE_LIST m init_al_state vl pl rl s2 n2"
    "m2 = add_page_len ACTIVE_LIST (- weight m (mset vl)) n2" "int (length (al_vs s2)) \<le> n" by blast
  have t: "takes (Some ACTIVE_LIST) m (vl @ pl @ rl) n2" using d(1) by (simp add: al_picks_def)
  have st: "al_vs s2 = map (lp_head m) vl" "tl_head (al_pin s2) = pl" "al_pin_pages s2 = weight m (mset pl)"
    "tl_head (al_promote s2) = rl" "al_promote_pages s2 = weight m (mset rl)"
    using d(1) by (simp_all add: al_picks_def al_grown_def init_al_state_def)
  have q: "quiet m n2" using t by (simp add: takes_def)
  have f2: "lru_frame m m2" using lru_frame_trans [OF quiet_frame [OF q] add_page_len_only(1)] by (simp add: d(2))
  note tk = takes_Some [OF t]
  have k2: "counted m m2 0 (- weight m (mset vl)) 0" unfolding d(2)
    using quiet_fields(1,2) [OF q] by (simp add: counted_def add_page_len_def)
  have pl2: "placed {#} ((T + mset vl) + mset rl + mset pl) m2"
    using t inv by (simp add: d(2) add_page_len_only takes_def lru_inv_def ac_simps)
  have memA: "members m ACTIVE_LIST = members m2 ACTIVE_LIST + mset vl + mset pl + mset rl"
    "members m2 PROACTIVE_LIST = members m PROACTIVE_LIST" "members m2 INACTIVE_LIST = members m INACTIVE_LIST"
    "pin_members m2 = pin_members m"
    using tk(1) [of ACTIVE_LIST] tk(1) [of PROACTIVE_LIST] tk(1) [of INACTIVE_LIST] tk(2)
    by (simp_all add: d(2) add_page_len_only ac_simps)
  have hp: "head_page m2 l" if "l \<in> set pl" for l using placedD(4) [OF pl2, of l] that by simp
  have pg: "pl = [] \<or> get_list_ptr_pin m c \<noteq> None"
  proof (cases "pl = []")
    case False
    then have h: "hd pl \<in> set pl" by simp
    then have "pinned_head m (hd pl)" "hd pl \<in># members m ACTIVE_LIST" using d(1) memA(1) by (simp_all add: al_picks_def)
    then show ?thesis using pin by (auto simp: pin_list_for_def)
  qed simp
  have "\<exists>m3. (if al_pin_pages s2 \<noteq> 0
            then move_to_pin_list (add_page_len ACTIVE_LIST (- al_pin_pages s2) m2) c (al_pin s2) False True
            else Some m2) = Some m3 \<and> regroups None m2 pl m3
        \<and> counted m2 m3 (weight m (mset pl)) (- weight m (mset pl)) (weight m (mset pl))"
  proof (cases "pl = []")
    case True
    then show ?thesis by (simp add: st regroups_Nil counted_def)
  next
    case False
    then have w: "al_pin_pages s2 \<noteq> 0" using weight_pos [of m pl] st by simp
    let ?m = "add_page_len ACTIVE_LIST (- al_pin_pages s2) m2"
    have fm: "lru_frame m ?m" using lru_frame_trans [OF f2 add_page_len_only(1)] .
    from False pg obtain i where "get_list_ptr_pin m c = Some i" by auto
    then have i: "get_list_ptr_pin ?m c = Some i" by (simp add: get_list_ptr_pin_frame [OF fm])
    have hq: "head_page ?m l" if "l \<in> set (tl_head (al_pin s2))" for l
      using hp that by (simp add: st head_page_frame [OF add_page_len_only(1)])
    from move_to_pin_list_ok [where t = "al_pin s2" and fp = False and mapped = True, OF i hq,
        unfolded st(2) weight_frame [OF fm] if_False]
    obtain m3 where m3: "move_to_pin_list ?m c (al_pin s2) False True = Some m3" "regroups None ?m pl m3"
      "counted ?m m3 (weight m (mset pl)) 0 (weight m (mset pl))" by blast
    have "counted m2 m3 (0 + weight m (mset pl)) (- al_pin_pages s2 + 0) (0 + weight m (mset pl))"
      by (rule counted_trans [OF counted_add(1) m3(3)])
    then show ?thesis using w m3(1) regroups_add_page_len [OF m3(2)] by (simp add: st)
  qed
  then obtain m3 where m3: "(if al_pin_pages s2 \<noteq> 0
            then move_to_pin_list (add_page_len ACTIVE_LIST (- al_pin_pages s2) m2) c (al_pin s2) False True
            else Some m2) = Some m3" "regroups None m2 pl m3"
    "counted m2 m3 (weight m (mset pl)) (- weight m (mset pl)) (weight m (mset pl))" by blast
  have f3: "lru_frame m m3" using lru_frame_trans [OF f2 regroups_eqs(1) [OF m3(2)]] .
  define m4 where "m4 = (if al_promote_pages s2 \<noteq> 0
            then promote_gpas gf (add_page_len ACTIVE_LIST (- al_promote_pages s2) m3) c
                   (al_promote s2) (al_promote_pages s2) True
            else m3)"
  have "regroups (Some PROACTIVE_LIST) m3 rl m4 \<and> counted m3 m4 (weight m (mset rl)) (- weight m (mset rl)) 0"
  proof (cases "rl = []")
    case True
    then show ?thesis by (simp add: st m4_def regroups_Nil counted_def)
  next
    case False
    then have w: "al_promote_pages s2 \<noteq> 0" using weight_pos [of m rl] st by simp
    let ?m = "add_page_len ACTIVE_LIST (- al_promote_pages s2) m3"
    have "c \<in> mm_cpus ?m" using c lru_frame_eqs(4) [OF f3] by (simp add: add_page_len_only)
    from promote_gpas_ok [OF this, of "al_promote s2" gf "al_promote_pages s2" True]
    have p: "regroups (Some PROACTIVE_LIST) ?m rl m4" "counted ?m m4 (weight m (mset rl)) 0 0"
      using w by (simp_all add: m4_def st)
    have "counted m3 m4 (0 + weight m (mset rl)) (- al_promote_pages s2 + 0) (0 + 0)"
      by (rule counted_trans [OF counted_add(1) p(2)])
    then show ?thesis using regroups_add_page_len [OF p(1)] by (simp add: st)
  qed
  then have r4: "regroups (Some PROACTIVE_LIST) m3 rl m4" "counted m3 m4 (weight m (mset rl)) (- weight m (mset rl)) 0" by simp_all
  have e: "select_victims_active_list gf pc m c n = Some (map (lp_head m) vl, m4)"
    unfolding select_victims_active_list_def r1 prod.case r2 m3(1) option.case m4_def st(1) ..
  have f4: "lru_frame m m4" using lru_frame_trans [OF f3 regroups_eqs(1) [OF r4(1)]] .
  have "placed {#} (T + mset vl) m4" using regroups_eqs(4) [OF r4(1)] regroups_eqs(4) [OF m3(2)] pl2 by blast
  moreover have "counted m m4 (weight m (mset pl) + weight m (mset rl))
      (- weight m (mset vl) - weight m (mset pl) - weight m (mset rl)) (weight m (mset pl))"
    using counted_trans [OF counted_trans [OF k2 m3(3)] r4(2)] by simp
  moreover have "members m4 PROACTIVE_LIST = members m PROACTIVE_LIST + mset rl"
    "members m4 ACTIVE_LIST = members m2 ACTIVE_LIST" "pin_members m4 = pin_members m + mset pl"
    using regroups_eqs(2,3) [OF r4(1)] regroups_eqs(2,3) [OF m3(2)] memA by simp_all
  ultimately have inv4: "lru_inv (T + mset vl) m4"
    using inv arg_cong [OF memA(1), of "weight m"] by (simp add: lru_inv_def counted_def weight_frame [OF f4])
  have h2: "lp_head m2 = lp_head m" "lp_head m3 = lp_head m"
    by (intro ext lru_frame_eqs(1) f2 f3)+
  have "took m (vl @ pl @ rl) m2" using t by (simp add: d(2) takes_def took_def add_page_len_only)
  then have "took m vl m4"
    using regroups_eqs(5) [OF r4(1)] regroups_eqs(5) [OF m3(2)] by (auto simp: took_def h2)
  then have "selection T m vl m4" using f4 inv4 by (simp add: selection_def)
  moreover have "sorted_out ACTIVE_LIST m vl pl rl m4"
  proof -
    let ?A = "lp_head m ` set (pl @ rl)"
    have hr: "head_page m l" if "l \<in> set (pl @ rl)" for l
      using placedD(4) [OF pl2, of l] that head_page_frame [OF f2] by auto
    have "untouched ?A n2 m2" by (rule untouched_gpas [OF untouched_refl]) (simp add: d(2) add_page_len_def)
    moreover have "untouched ?A m2 m3"
    proof (cases "al_pin_pages s2 = 0")
      case False
      then have "move_to_pin_list (add_page_len ACTIVE_LIST (- al_pin_pages s2) m2) c (al_pin s2) False True = Some m3"
        using m3(1) by simp
      from move_to_pin_list_untouched [OF this] have u: "untouched (page_gpas m2 pl) (add_page_len ACTIVE_LIST (- al_pin_pages s2) m2) m3"
        by (simp add: st page_gpas_def add_page_len_def)
      then have "untouched (page_gpas m2 pl) m2 m3" by (simp add: untouched_def desc_def add_page_len_def)
      then show ?thesis by (rule untouched_mono) (use page_gpas_heads [OF f2, of pl] hr in auto)
    qed (use m3(1) in simp)
    moreover have "untouched ?A m3 m4"
    proof (cases "al_promote_pages s2 = 0")
      case False
      let ?m = "add_page_len ACTIVE_LIST (- al_promote_pages s2) m3"
      have "c \<in> mm_cpus ?m" using c lru_frame_eqs(4) [OF f3] by (simp add: add_page_len_only)
      from promote_gpas_untouched [OF this, of "al_promote s2" gf "al_promote_pages s2" True]
      have "untouched (page_gpas m3 rl) ?m m4" using False by (simp add: m4_def st page_gpas_def add_page_len_def)
      then have "untouched (page_gpas m3 rl) m3 m4" by (simp add: untouched_def desc_def add_page_len_def)
      then show ?thesis by (rule untouched_mono) (use page_gpas_heads [OF f3, of rl] hr in auto)
    qed (simp add: m4_def)
    ultimately have "untouched ?A n2 m4" using untouched_trans by blast
    note de = al_picks_desc [OF d(1) this]
    have mk: "members m4 k' = members m k'" if "k' \<noteq> ACTIVE_LIST" "k' \<noteq> PROACTIVE_LIST" for k'
      using that regroups_eqs(2) [OF r4(1)] regroups_eqs(2) [OF m3(2)] memA by (cases k') simp_all
    show ?thesis
      using de mk d(1) memA regroups_eqs(2,3) [OF r4(1)] regroups_eqs(2,3) [OF m3(2)]
      unfolding sorted_out_def al_picks_def by simp
  qed
  ultimately show ?thesis using e d(3) st(1)
    by (intro exI [of _ vl] exI [of _ pl] exI [of _ rl] exI [of _ m4]) simp
qed

end
