(* ===== verification/Lru_Claims.thy ===== *)
theory Lru_Claims
  imports Victims
begin

text \<open>
  The properties of the lists of resident blocks: refilling and flushing, adding, choosing victims and
  unpinning keep every block on the one list its page's flags name, and the lengths equal to the blocks
  listed.  The \<open>ex_\<close> definitions are the concrete states at which the properties are applied.
\<close>

section \<open>A concrete state\<close>

text \<open>
  Two cpus, blocks of four descriptors and eight pages at 0, 4, 8 and so on, the block at \<open>4 * i\<close> with
  local page \<open>i\<close>.  Page 0 is on the LRU buffer of cpu -2 in the proactive list, page 1 on the global
  list of the active list, page 2 on the pin list of cpu -2.
\<close>

definition ex_block :: "gpa_ptr \<Rightarrow> emp_gpa" where
  "ex_block p = \<lparr>gpa_lock = False,
     gpa_flags = (if p = 0 then GPA_PROACTIVE_MASK
       else if p = 8 then GPA_PINNED_MASK OR GPA_PROACTIVE_MASK else 0),
     gpa_refcnt = 0, sb_order = 1, block_order = 3, max_block_order = 3, desc_order = 2, last_mr_id = 0,
     r_state = GPA_ACTIVE, remote_page = FREE_REMOTE_PAGE_VAL, local_page = Some (p div 4)\<rparr>"

definition ex_lp :: "nat \<Rightarrow> local_page" where
  "ex_lp l = \<lparr>lp_gpa = 4 * l, lp_page = l, sptep = None,
     lp_flags = (if l = 0 then push_bit LOCAL_PAGE_ON_LRU 1
       else if l = 1 then push_bit LOCAL_PAGE_ON_GLOBAL 1
       else if l = 2 then push_bit LOCAL_PAGE_ON_PIN 1 else 0),
     gpa_index = 0, num_pmds = 0, page_map_count = 0, lp_pmds = \<lparr>mp_vmr = None, mp_pmd = None\<rparr>,
     lp_next = None, lp_cpu = - 2, demand_offset = 0, lp_w = None\<rparr>"

definition ex_list :: "lru_list_type \<Rightarrow> slru_place \<Rightarrow> nat emp_list" where
  "ex_list k p = (if k = PROACTIVE_LIST \<and> p = Slru_lru (- 2) then \<lparr>el_len = 1, el_head = [0]\<rparr>
     else if k = ACTIVE_LIST \<and> p = Slru_global then \<lparr>el_len = 1, el_head = [1]\<rparr> else init_emp_list)"

definition ex_stat :: els_stat where
  "ex_stat = \<lparr>block_count = (\<lambda>_. 0), block_stretch = (\<lambda>_. 0), block_reduce = (\<lambda>_. 0), block_reduce_complete = (\<lambda>_. 0)\<rparr>"

definition ex_mm :: emp_mm where
  "ex_mm = \<lparr>mm_gpas = ex_block, mm_lps = ex_lp, slru_lists = ex_list,
     slru_page_len = (\<lambda>k. case k of PROACTIVE_LIST \<Rightarrow> 16 | ACTIVE_LIST \<Rightarrow> 8 | INACTIVE_LIST \<Rightarrow> 0),
     pin_lists = (\<lambda>i. if i = 0 then \<lparr>el_len = 1, el_head = [2]\<rparr> else init_emp_list),
     cur_pin_pages = 8, num_pin_blocks = 1, num_evicted_pin_blocks = 0, mm_possible_cpus = 2, mm_vcpus_len = 0,
     proactive_pages_len = 0, active_pages_len = 0, inactive_pages_len = 0, inactive_keep_pages_len = 0,
     inflight_writeback_page_len = 0, els_disabled = False, els_stats = ex_stat\<rparr>"

lemma ex_mm_simps [simp]:
  "mm_gpas ex_mm = ex_block" "mm_lps ex_mm = ex_lp" "slru_lists ex_mm = ex_list" "cur_pin_pages ex_mm = 8"
  "mm_possible_cpus ex_mm = 2" "mm_vcpus_len ex_mm = 0" "block_order (ex_block p) = 3" "desc_order (ex_block p) = 2"
  "lp_gpa (ex_lp l) = 4 * l" "lp_cpu (ex_lp l) = - 2" "local_page (ex_block p) = Some (p div 4)"
  by (simp_all add: ex_mm_def ex_block_def ex_lp_def)

lemma ex_cpus [simp]: "mm_cpus ex_mm = {- 2, - 1}"
  by (auto simp: mm_cpus_def cpu_ids_def)

lemma ex_places: "places ex_mm = {Slru_global, Slru_mru (- 2), Slru_mru (- 1), Slru_lru (- 2), Slru_lru (- 1)}"
  by (auto simp: places_def)

lemma ex_members:
  "members ex_mm PROACTIVE_LIST = {#0#}" "members ex_mm ACTIVE_LIST = {#1#}" "members ex_mm INACTIVE_LIST = {#}"
  "pin_members ex_mm = {#2#}"
  unfolding members_def ex_places by (simp_all add: ex_list_def) (simp add: pin_members_def ex_mm_def lessThan_Suc numeral_2_eq_2)

lemma ex_lp_head [simp]: "lp_head ex_mm l = 4 * l"
  by (simp add: lp_head_def emp_get_block_head_def emp_get_block_head_at_def)

lemma ex_block_pages [simp]: "block_pages ex_mm l = 8"
  by (simp add: block_pages_def gpa_block_size_def)

lemma ex_list_flags: "list_flags (ex_lp l) =
    (if l = 0 then {LOCAL_PAGE_ON_LRU} else if l = 1 then {LOCAL_PAGE_ON_GLOBAL}
     else if l = 2 then {LOCAL_PAGE_ON_PIN} else {})"
proof -
  have "LOCAL_PAGE_ON_LRU < 4" "LOCAL_PAGE_ON_GLOBAL < 4" "LOCAL_PAGE_ON_PIN < 4"
    by (simp_all add: LOCAL_PAGE_ON_LRU_def LOCAL_PAGE_ON_GLOBAL_def LOCAL_PAGE_ON_PIN_def)
  then show ?thesis by (auto simp: list_flags_def ex_lp_def bit_one_flag simp del: push_bit_of_1)
qed

text \<open>Pages beyond 2 are held by an operation.\<close>

lemma ex_placed: "3 \<notin># T \<or> count T 3 = 1 \<Longrightarrow> set_mset T \<subseteq> {3} \<Longrightarrow> placed {#} T ex_mm"
proof (rule placedI)
  assume T: "3 \<notin># T \<or> count T 3 = 1" "set_mset T \<subseteq> {3}"
  show "emp_list_ok (slru_lists ex_mm k p)" "emp_list_ok (pin_lists ex_mm i)" for k p i
    by (simp_all add: ex_list_def emp_list_ok_def init_emp_list_def) (simp add: ex_mm_def init_emp_list_def)
  show "count (all_listed ex_mm + T) l + count {#} l \<le> 1" for l
  proof (cases "l = 3")
    case False
    then have "count T l = 0" using T(2) by (auto simp: count_eq_zero_iff)
    then show ?thesis by (auto simp: all_listed_def ex_members)
  next
    case True
    have "count T 3 = 0 \<or> count T 3 = 1" using T(1) by (auto simp: count_eq_zero_iff)
    then show ?thesis by (auto simp: True all_listed_def ex_members)
  qed
  show "head_page ex_mm l" for l by (simp add: head_page_def)
  then show "l \<in># {#} \<Longrightarrow> head_page ex_mm l" for l .
  show "lp_at (mm_lps ex_mm l) p" if "p \<in> places ex_mm" "l \<in> set (el_head (slru_lists ex_mm k p))" for k p l
    using that by (auto simp: ex_list_def ex_list_flags lp_at_def split: if_splits)
  show "lp_pinned_at (mm_lps ex_mm l) (int i - int (mm_possible_cpus ex_mm))"
    if "i < mm_possible_cpus ex_mm" "l \<in> set (el_head (pin_lists ex_mm i))" for i l
    using that by (auto simp: ex_mm_def lp_pinned_at_def ex_list_flags split: if_splits)
  show "list_flags (mm_lps ex_mm l) = {}" if "l \<in># T" for l using that T(2) by (auto simp: ex_list_flags)
qed

lemma ex_inv: "lru_inv {#} ex_mm" "lru_inv {#3#} ex_mm"
  by (simp_all add: lru_inv_def ex_placed ex_members) (simp_all add: ex_mm_def)

section \<open>Properties\<close>

lemma settled_inv:
  assumes "settled m m'" and "lru_inv T m"
  shows "lru_inv T m'"
proof -
  have q: "quiet m m'" using assms(1) by (simp add: settled_def)
  have "members m' k = members m k" "pin_members m' = pin_members m" for k
    using assms(1) unfolding settled_def by (auto dest: spec [of _ "Some k"] spec [of _ None])
  then show ?thesis
    using assms by (simp add: lru_inv_def settled_def weight_frame [OF quiet_frame [OF q]] quiet_fields [OF q])
qed

lemma settled_members: "settled m m' \<Longrightarrow> members m' k = members m k"
  unfolding settled_def by (auto dest: spec [of _ "Some k"])

text \<open>
  Refilling an LRU buffer and flushing an MRU buffer move pages inside one list only: no page is
  lost or listed twice, no descriptor changes, every lock taken is released, and the lengths still
  count the blocks listed.
\<close>

theorem refill_and_flush_settle:
  assumes "lru_inv T m" and "c \<in> mm_cpus m" and "refill_lru_buf m k c lb = (n, m')"
  shows "lru_inv T m' \<and> (\<forall>k'. members m' k' = members m k') \<and> mm_gpas m' = mm_gpas m
    \<and> lru_inv T (flush_active_mru gf m k c depth)
    \<and> (\<forall>k'. members (flush_active_mru gf m k c depth) k' = members m k')
    \<and> mm_gpas (flush_active_mru gf m k c depth) = mm_gpas m"
  using settled_inv [OF refill_lru_buf_settled [OF assms(2,3)] assms(1)]
    settled_members [OF refill_lru_buf_settled [OF assms(2,3)]] refill_lru_buf_same [OF assms(2,3)]
    settled_inv [OF flush_active_mru_settled [OF assms(2)] assms(1)]
    settled_members [OF flush_active_mru_settled [OF assms(2)]] flush_active_mru_same [OF assms(2)]
  by blast

lemma refill_and_flush_settle_witness:
  "\<exists>n m'. refill_lru_buf ex_mm ACTIVE_LIST (- 2) 64 = (n, m') \<and> lru_inv {#} m' \<and> members m' ACTIVE_LIST = {#1#}"
proof -
  obtain n m' where r: "refill_lru_buf ex_mm ACTIVE_LIST (- 2) 64 = (n, m')" by (metis surj_pair)
  from refill_and_flush_settle [OF ex_inv(1) _ r] r show ?thesis by (simp add: ex_members)
qed

text \<open>
  C27: Adding blocks whose pages are on no list: each goes to the list asked for, a pinned one to the
  pin list of the cpu; the function returns their size, the lengths grow by it, and no lock changes.
\<close>

theorem add_gpas_accounts:
  assumes inv: "lru_inv (T + mset (map (gpa_page m) gs)) m" and "adds_ok m gs" and "c \<in> mm_cpus m"
    and "ty = PROACTIVE_LIST \<or> ty = ACTIVE_LIST" and "new_pins m gs = [] \<or> get_list_ptr_pin m c \<noteq> None"
  shows "\<exists>m'. add_gpas_to_active_list gf ty m c gs = Some (weight m (mset (map (gpa_page m) gs)), m')
    \<and> lru_inv T m' \<and> (\<forall>q. locked_at m' q = locked_at m q)
    \<and> members m' ty = members m ty + mset (new_mrus m gs) \<and> pin_members m' = pin_members m + mset (new_pins m gs)
    \<and> slru_page_len m' PROACTIVE_LIST + slru_page_len m' ACTIVE_LIST =
        slru_page_len m PROACTIVE_LIST + slru_page_len m ACTIVE_LIST + weight m (mset (map (gpa_page m) gs))"
proof -
  have "placed {#} (T + mset (map (gpa_page m) gs)) m" using inv by (simp add: lru_inv_def)
  from add_gpas_to_active_list_ok [OF this assms(2,3,5), of gf ty] obtain m' where r:
    "add_gpas_to_active_list gf ty m c gs = Some (weight m (mset (map (gpa_page m) gs)), m')"
    "lru_frame m m'" "\<forall>q. locked_at m' q = locked_at m q" "placed {#} T m'"
    "members m' ty = members m ty + mset (new_mrus m gs)" "\<forall>k. k \<noteq> ty \<longrightarrow> members m' k = members m k"
    "pin_members m' = pin_members m + mset (new_pins m gs)"
    "slru_page_len m' = (let len = (slru_page_len m)(ty := slru_page_len m ty + weight m (mset (new_mrus m gs)))
        in len(PROACTIVE_LIST := len PROACTIVE_LIST + weight m (mset (new_pins m gs))))"
    "cur_pin_pages m' = cur_pin_pages m + weight m (mset (new_pins m gs))" by blast
  have w: "weight m (mset (map (gpa_page m) gs)) = weight m (mset (new_pins m gs)) + weight m (mset (new_mrus m gs))"
    using arg_cong [OF new_pages_mset [of m gs], of "weight m"] by simp
  have "lru_inv T m'"
    using inv r(4-9) assms(4) by (auto simp: lru_inv_def weight_frame [OF r(2)] Let_def)
  moreover have "slru_page_len m' PROACTIVE_LIST + slru_page_len m' ACTIVE_LIST =
        slru_page_len m PROACTIVE_LIST + slru_page_len m ACTIVE_LIST + weight m (mset (map (gpa_page m) gs))"
    using r(8) assms(4) w by (auto simp: Let_def)
  ultimately show ?thesis using r by blast
qed

lemma ex_adds: "adds_ok ex_mm [12]" "map (gpa_page ex_mm) [12] = [3]" "new_pins ex_mm [12] = []" "new_mrus ex_mm [12] = [3]"
  by (simp_all add: adds_ok_def gpa_page_def new_pins_def new_mrus_def pinned_page_def is_gpa_flags_set_def
      emp_get_block_head_def emp_get_block_head_at_def) (simp_all add: ex_block_def)

lemma add_gpas_accounts_witness:
  "\<exists>m'. add_gpas_to_active_list True ACTIVE_LIST ex_mm (- 1) [12] = Some (8, m')
    \<and> lru_inv {#} m' \<and> members m' ACTIVE_LIST = {#1, 3#}"
proof -
  have "lru_inv ({#} + mset (map (gpa_page ex_mm) [12])) ex_mm" unfolding ex_adds using ex_inv(2) by simp
  from add_gpas_accounts [OF this ex_adds(1), of "- 1" ACTIVE_LIST True] show ?thesis
    by (auto simp: ex_members ex_adds(3,4) simp del: list.map(2) simp add: ex_adds(2))
qed

text \<open>
  C26: In a system without KVM threads (\<^verbatim>\<open>mm_vcpus_len\<close> at most 1; their number would index the array of pin
  lists outside its bounds, see \<^verbatim>\<open>get_list_ptr_pin\<close>), choosing victims from the proactive lists of all cpus,
  unpinning blocks when there are none, yields at most the number asked for.  Each victim was unlocked, is locked now and has left the lists;
  no other lock has changed, and the lengths count what is still listed.
\<close>

theorem update_proactive_list_accounts:
  assumes "lru_inv T m" and "mm_vcpus_len m \<le> 1" and "c \<in> mm_cpus m" and "0 < n"
  shows "\<exists>vl m'. update_proactive_list m c n = Some (map (lp_head m) vl, m') \<and> selection T m vl m'
    \<and> int (length vl) \<le> n"
  using assms by (rule update_proactive_list_ok)

lemma update_proactive_list_accounts_witness:
  "\<exists>vl m'. update_proactive_list ex_mm (- 2) 4 = Some (map (lp_head ex_mm) vl, m')
    \<and> lru_inv (mset vl) m' \<and> length vl \<le> 4"
  using update_proactive_list_accounts [OF ex_inv(1), of "- 2" 4] by (auto simp: selection_def)

text \<open>
  C22: Choosing victims from the active list of a cpu, whatever the reference counts of the pages, for a
  cpu that has a pin list or a list without pinned blocks (\<^verbatim>\<open>pin_list_for\<close>).  At most the number asked for
  become victims; each was unlocked, is locked now, neither pinned nor marked for promotion, has left the
  list and is in state \<^verbatim>\<open>GPA_TRANS_AL\<close>.  The other blocks taken off the list are pinned ones, which are now on
  the pin list, and ones marked for promotion, which are now on the proactive list.  All other blocks keep
  their list and their descriptor, no lock but those of the victims has changed, and the lengths count
  what is listed.
\<close>

theorem select_victims_active_list_accounts:
  assumes "lru_inv T m" and "c \<in> mm_cpus m" and "0 < n" and "pin_list_for ACTIVE_LIST m c"
  shows "\<exists>vl pl rl m'. select_victims_active_list gf page_count m c n = Some (map (lp_head m) vl, m')
    \<and> int (length vl) \<le> n \<and> lru_frame m m' \<and> took m vl m' \<and> lru_inv (T + mset vl) m'
    \<and> members m ACTIVE_LIST = members m' ACTIVE_LIST + mset vl + mset pl + mset rl
    \<and> pin_members m' = pin_members m + mset pl \<and> members m' PROACTIVE_LIST = members m PROACTIVE_LIST + mset rl
    \<and> members m' INACTIVE_LIST = members m INACTIVE_LIST
    \<and> (\<forall>l \<in> set pl. pinned_head m l) \<and> (\<forall>l \<in> set rl. \<not> pinned_head m l \<and> promoted_head m l)
    \<and> (\<forall>l \<in> set vl. \<not> pinned_head m l \<and> \<not> promoted_head m l)
    \<and> (\<forall>q. q \<notin> lp_head m ` set (pl @ rl) \<longrightarrow>
          desc m' q = (if q \<in> lp_head m ` set vl then (desc m q)\<lparr>r_state := GPA_TRANS_AL\<rparr> else desc m q))"
proof -
  from select_victims_active_list_ok [OF assms, of gf page_count] obtain vl pl rl m' where
    r: "select_victims_active_list gf page_count m c n = Some (map (lp_head m) vl, m')" "int (length vl) \<le> n" "selection T m vl m'"
      "sorted_out ACTIVE_LIST m vl pl rl m'" by blast
  show ?thesis
    by (intro exI [of _ vl] exI [of _ pl] exI [of _ rl] exI [of _ m'])
      (use r in \<open>simp add: selection_def sorted_out_def victim_state_def\<close>)
qed

lemma select_victims_active_list_accounts_witness:
  "\<exists>vl m'. select_victims_active_list True (\<lambda>_. 0) ex_mm (- 2) 4 = Some (map (lp_head ex_mm) vl, m')
    \<and> lru_inv (mset vl) m'"
proof -
  have "pin_list_for ACTIVE_LIST ex_mm (- 2)" by (simp add: pin_list_for_def get_list_ptr_pin_def PCPU_ID_def)
  from select_victims_active_list_accounts [OF ex_inv(1) _ _ this, of 4 True "\<lambda>_. 0"] show ?thesis by fastforce
qed

text \<open>
  C28: Unpinning under pressure, for a cpu that has a pin list, takes at most the blocks asked for off the pin
  list, clears their pinned flag and puts exactly them on the proactive list; every other block keeps its
  list and its descriptor.  It returns how many they are, the two counters of pinned blocks move by that
  number, the lengths count what is listed, and no lock changes.
\<close>

theorem select_victims_pin_list_accounts:
  assumes "lru_inv T m" and "c \<in> mm_cpus m" and "get_list_ptr_pin m c = Some i" and "0 < n"
  shows "\<exists>xs m'. select_victims_pin_list m c n = Some (int (length xs), m') \<and> int (length xs) \<le> n
    \<and> lru_inv T m' \<and> (\<forall>q. locked_at m' q = locked_at m q)
    \<and> num_pin_blocks m' = num_pin_blocks m - int (length xs)
    \<and> num_evicted_pin_blocks m' = num_evicted_pin_blocks m + int (length xs)
    \<and> pin_members m = pin_members m' + mset xs \<and> members m' PROACTIVE_LIST = members m PROACTIVE_LIST + mset xs
    \<and> members m' ACTIVE_LIST = members m ACTIVE_LIST \<and> members m' INACTIVE_LIST = members m INACTIVE_LIST
    \<and> (\<forall>l \<in> set xs. \<not> pinned_head m' l)
    \<and> (\<forall>q. desc m' q = (if q \<in> lp_head m ` set xs then snd (clear_gpa_flags_if_set (desc m q) GPA_PINNED_MASK) else desc m q))"
proof -
  from lru_inv_pin_ok [OF assms] obtain k m' xs where
    r: "select_victims_pin_list m c n = Some (k, m')" "k \<le> n" "selection T m [] m'"
      "num_pin_blocks m' = num_pin_blocks m - k" "num_evicted_pin_blocks m' = num_evicted_pin_blocks m + k"
    and x: "int (length xs) = k" "pin_members m = pin_members m' + mset xs"
      "members m' PROACTIVE_LIST = members m PROACTIVE_LIST + mset xs" "changed unpinned (lp_head m ` set xs) m m'"
      "\<forall>k'. k' \<noteq> PROACTIVE_LIST \<longrightarrow> members m' k' = members m k'" by blast
  have "lp_head m' l = lp_head m l" for l using r(3) by (simp add: selection_lp_head)
  then have "\<not> pinned_head m' l" if "l \<in> set xs" for l
    using x(4) that unpinned_flag is_flag_desc [of m' "lp_head m l" GPA_PINNED_MASK] by (simp add: changed_def pinned_head_def)
  then show ?thesis
    using r x by (intro exI [of _ xs] exI [of _ m']) (simp add: selection_def changed_def unpinned_def)
qed

lemma select_victims_pin_list_accounts_witness:
  "\<exists>k m'. select_victims_pin_list ex_mm (- 2) 4 = Some (k, m') \<and> 0 \<le> k \<and> k \<le> 4 \<and> lru_inv {#} m'"
  using select_victims_pin_list_accounts [OF ex_inv(1), of "- 2" 0 4]
  by (auto simp: get_list_ptr_pin_def PCPU_ID_def intro: of_nat_0_le_iff)

lemma pressure_cell:
  assumes "a < 2 ^ 63" and "b < 2 ^ 63"
  shows "(if (word_of_nat a :: u64) > word_of_nat b then ucast (word_of_nat a - word_of_nat b :: u64) else 0)
    = (word_of_nat (a - b) :: u32)"
proof -
  have u: "unat (word_of_nat a :: u64) = a" "unat (word_of_nat b :: u64) = b"
    using assms by (simp_all add: unat_of_nat take_bit_nat_eq_self)
  have lt: "(word_of_nat b :: u64) < word_of_nat a \<longleftrightarrow> b < a" by (simp add: word_less_nat_alt u)
  show ?thesis
  proof (cases "b < a")
    case True
    then have d: "(word_of_nat a - word_of_nat b :: u64) = word_of_nat (a - b)" by (simp add: of_nat_diff)
    have "ucast (word_of_nat (a - b) :: u64) = (word_of_nat (a - b) :: u32)"
      using assms(1) by (simp add: unsigned_of_nat take_bit_nat_eq_self)
    then show ?thesis using True lt by (simp only: d if_True)
  qed (use lt in simp)
qed

text \<open>
  The pressure on the inactive list is what exceeds its two targets, and 0 below them, as long
  as the writebacks in flight are part of the list.
\<close>

theorem inactive_pressure_exact:
  assumes "0 \<le> inflight_writeback_page_len m"
    and "inflight_writeback_page_len m \<le> slru_page_len m INACTIVE_LIST" and "slru_page_len m INACTIVE_LIST < 2 ^ 30"
    and "h < 2 ^ 30" and "inactive_pages_len m < 2 ^ 62" and "inactive_keep_pages_len m < 2 ^ 62"
  shows "get_pressure_of_inactive_list m (word_of_nat h) =
    (word_of_nat (nat (slru_page_len m INACTIVE_LIST) + h - inactive_pages_len m),
     word_of_nat (nat (slru_page_len m INACTIVE_LIST - inflight_writeback_page_len m) + h - inactive_keep_pages_len m))"
proof -
  define L W where "L = nat (slru_page_len m INACTIVE_LIST)" and "W = nat (inflight_writeback_page_len m)"
  have l: "slru_page_len m INACTIVE_LIST = int L" "inflight_writeback_page_len m = int W" "W \<le> L" "L < 2 ^ 30"
    using assms(1-3) by (simp_all add: L_def W_def)
  have "signed_take_bit 31 (int h) = int h" using assms(4) by (intro signed_take_bit_int_eq_self) simp_all
  then have sc: "scast (word_of_nat h :: u32) = (word_of_nat h :: u64)" by (simp add: signed_of_nat)
  have e: "(of_int (int L) - of_int (int W) + word_of_nat h :: u64) = word_of_nat (L - W + h)"
    "(of_int (int L) + word_of_nat h :: u64) = word_of_nat (L + h)"
    using l(3) by (simp_all add: of_nat_diff)
  have b: "L + h < 2 ^ 63" "L - W + h < 2 ^ 63" "inactive_pages_len m < 2 ^ 63" "inactive_keep_pages_len m < 2 ^ 63"
    using l(4) assms(4-6) by simp_all
  have n: "nat (int L - int W) = L - W" by simp
  show ?thesis
    unfolding get_pressure_of_inactive_list_def Let_def sc l(1,2) e n nat_int
      pressure_cell [OF b(1,3)] pressure_cell [OF b(2,4)] ..
qed

lemma inactive_pressure_exact_witness: "get_pressure_of_inactive_list (ex_mm\<lparr>inactive_pages_len := 3\<rparr>) 8 = (5, 8)"
  using inactive_pressure_exact [of "ex_mm\<lparr>inactive_pages_len := 3\<rparr>" 8] by (simp add: ex_mm_def)

end
