(* ===== verification/Els_Claims.thy ===== *)
theory Els_Claims
  imports Lru_Claims Els_Block
begin

text \<open>
  The properties of elastic blocks: stretching, reducing to halves and to subblocks, and taking the
  members of a new block off the lists.
\<close>

section \<open>A concrete heap\<close>

text \<open>Blocks of \<open>2 ^ d\<close> descriptors that may grow to four; the block at 0 is held.\<close>

definition ex_els :: "nat \<Rightarrow> gpa_heap" where
  "ex_els d p = (ex_block p)\<lparr>gpa_lock := (p = 0), gpa_flags := 0, block_order := 1 + d, desc_order := d\<rparr>"

definition ex_els_mm :: "nat \<Rightarrow> emp_mm" where
  "ex_els_mm d = ex_mm\<lparr>mm_gpas := ex_els d\<rparr>"

lemma ex_els_ok: "d \<le> 2 \<Longrightarrow> els_ok (ex_els d)"
  by (simp add: els_ok_def orders_ok_def ex_els_def ex_block_def BLOCK_MAX_ORDER_def)

lemma ex_els_simps [simp]:
  "mm_gpas (ex_els_mm d) = ex_els d" "desc_order (ex_els d p) = d" "gpa_lock (ex_els d p) = (p = 0)"
  "emp_get_block_head (ex_els d) 0 = 0" "mm_cpus (ex_els_mm d) = {- 2, - 1}" "sb_order (ex_els d p) = 1"
  "block_order (ex_els d p) = 1 + d"
proof -
  have "mm_cpus (ex_els_mm d) = mm_cpus ex_mm" by (simp add: mm_cpus_def ex_els_mm_def)
  then show "mm_cpus (ex_els_mm d) = {- 2, - 1}" by simp
qed (simp_all add: ex_els_mm_def ex_els_def ex_block_def emp_get_block_head_def emp_get_block_head_at_def)

section \<open>Properties\<close>

text \<open>
  C29: Stretching a held block ends and gives a result, whatever the other threads do between its
  trylocks, as long as they keep the blocks well formed (\<open>els_ok\<close>), leave a block whose head is locked alone
  (\<open>polite\<close>), and the members of the held block and of every unlocked ACTIVE block have local pages
  (\<open>resident_head\<close>, which other threads keep, \<open>keeps_pages\<close>: \<^verbatim>\<open>els_update_gpa_flags()\<close> and the callers
  dereference them without a test).  The head of the result is held, its members agree on its order, it
  is larger and marked STRETCHED and PREFETCH_ONCE when the function says so and unchanged in size
  otherwise, and the pages counted stay the same.  Then the one way to have no result is a cpu without
  a pin list.
\<close>

theorem stretch_rep_result:
  assumes "polite others" and "keeps_pages others" and "resident_head (mm_gpas m) c" and "cpu_id \<in> mm_cpus m"
  shows "case els_stretch_rep others global_free m cpu_id c flag aggr of
    None \<Rightarrow> get_list_ptr_pin m cpu_id = None | Some (r, m') \<Rightarrow> rep_result m c r m'"
  using assms by (rule els_stretch_rep_ok)

text \<open>Two blocks of two descriptors, mapped and dirty, the first held; one stretch merges them.\<close>

definition ex_halves :: emp_mm where
  "ex_halves = (ex_els_mm 1)\<lparr>
     mm_gpas := (\<lambda>p. (ex_els 1 p)\<lparr>local_page := Some p, gpa_flags := GPA_HPT_MASK OR GPA_DIRTY_MASK\<rparr>),
     mm_lps := (\<lambda>l. (ex_lp 3)\<lparr>lp_pmds := \<lparr>mp_vmr = Some 1, mp_pmd = Some 2\<rparr>\<rparr>)\<rparr>"

lemma ex_halves_simps [simp]:
  "desc_order (mm_gpas ex_halves p) = 1" "block_order (mm_gpas ex_halves p) = 2"
  "max_block_order (mm_gpas ex_halves p) = 3" "sb_order (mm_gpas ex_halves p) = 1"
  "gpa_lock (mm_gpas ex_halves p) = (p = 0)" "local_page (mm_gpas ex_halves p) = Some p"
  "r_state (mm_gpas ex_halves p) = GPA_ACTIVE" "gpa_flags (mm_gpas ex_halves p) = GPA_HPT_MASK OR GPA_DIRTY_MASK"
  "mm_cpus ex_halves = {- 2, - 1}" "\<not> els_disabled ex_halves" "mm_possible_cpus ex_halves = 2"
  "mp_vmr (lp_pmds (mm_lps ex_halves l)) = Some 1"
proof -
  have "mm_cpus ex_halves = mm_cpus ex_mm" by (simp add: mm_cpus_def ex_halves_def ex_els_mm_def)
  then show "mm_cpus ex_halves = {- 2, - 1}" by simp
qed (simp_all add: ex_halves_def ex_els_def ex_block_def ex_els_mm_def ex_mm_def)

lemma ex_halves_resident: "resident_head (mm_gpas ex_halves) 0"
proof -
  have "els_ok (mm_gpas ex_halves)" by (simp add: els_ok_def orders_ok_def BLOCK_MAX_ORDER_def)
  then show ?thesis
    by (simp add: resident_head_def held_head_def pages_held_def residents_def emp_get_block_head_def
        emp_get_block_head_at_def)
qed

lemma ex_halves_stretchable:
  "els_is_stretchable (\<lambda>h. h) (mm_gpas ex_halves) 0 0 (BLOCK_FETCH_IN_PROGRESS OR BLOCK_HVA_FAULT)
    = (Some 2, (mm_gpas ex_halves)(2 := (mm_gpas ex_halves 2)\<lparr>gpa_lock := True\<rparr>))"
  by (simp add: els_is_stretchable_def els_is_stretchable0_def num_subblock_in_block_def emp_trylock_head_def
      emp_gpa_trylock_def is_gpa_flags_set_def gpa_flag_masks BLOCK_FETCH_IN_PROGRESS_def BLOCK_HVA_FAULT_def
      BLOCK_READ_ONLY_def Let_def numeral_2_eq_2)

lemma ex_halves_loop:
  "\<exists>m1. stretch_loop (\<lambda>_ h. h) (BLOCK_FETCH_IN_PROGRESS OR BLOCK_HVA_FAULT) 1 0 ex_halves 0 0 = Some (0, m1)
     \<and> block_order (mm_gpas m1 0) = 3"
proof -
  let ?b = "(mm_gpas ex_halves 2)\<lparr>gpa_lock := True\<rparr>"
  define m where "m = add_page_len (target_list ?b) (- int (gpa_block_size ?b))
    (ex_halves\<lparr>mm_gpas := (mm_gpas ex_halves)(2 := ?b)\<rparr>)"
  have g: "mm_gpas m = (mm_gpas ex_halves)(2 := (mm_gpas ex_halves 2)\<lparr>gpa_lock := True\<rparr>)"
    by (simp add: m_def add_page_len_def)
  obtain m1 where m1: "els_stretch m 0 2 = Some m1" by (auto simp: els_stretch_def els_update_gpa_flags_def Let_def)
  have "els_ok (mm_gpas m)" unfolding g by (simp add: els_ok_def orders_ok_def BLOCK_MAX_ORDER_def)
  moreover have b: "buddies (mm_gpas m) 0 0 2"
    unfolding g by (simp add: buddies_def emp_get_block_head_def emp_get_block_head_at_def els_get_super_head_def
        num_subblock_in_block_def)
  ultimately have ok: "els_ok (mm_gpas m1)" "desc_order (mm_gpas m1 0) = 2" "sb_order (mm_gpas m1 0) = 1"
    using els_stretch_ok(1-3) [OF _ b m1] by (simp_all add: g)
  then have "block_order (mm_gpas m1 0) = 3" using orders_ok_sum [OF els_ok_orders [OF ok(1)], of 0] by simp
  moreover have "stretch_loop (\<lambda>_ h. h) (BLOCK_FETCH_IN_PROGRESS OR BLOCK_HVA_FAULT) 1 0 ex_halves 0 0
      = Some (0, unlock_secondary 0 2 m1)"
    by (subst stretch_loop.simps)
      (simp add: ex_halves_stretchable Let_def m1 m_def [symmetric] fun_upd_same del: fun_upd_apply)
  ultimately show ?thesis by (simp add: unlock_secondary_def emp_unlock_head_def)
qed

lemma stretch_rep_result_witness:
  "\<exists>m'. els_stretch_rep (\<lambda>_ h. h) True ex_halves (- 2) 0 BLOCK_FETCH_IN_PROGRESS 1 = Some (True, m')
    \<and> rep_result ex_halves 0 True m'"
proof -
  let ?e = "els_stretch_rep (\<lambda>_ h. h) True ex_halves (- 2) 0 BLOCK_FETCH_IN_PROGRESS 1"
  have "polite (\<lambda>_ h. h)" "keeps_pages (\<lambda>_ h. h)" by (simp_all add: polite_def keeps_pages_def)
  from stretch_rep_result [OF this ex_halves_resident, of "- 2" True BLOCK_FETCH_IN_PROGRESS 1]
  have c: "case ?e of None \<Rightarrow> get_list_ptr_pin ex_halves (- 2) = None | Some (r, m') \<Rightarrow> rep_result ex_halves 0 r m'"
    by simp
  have "get_list_ptr_pin ex_halves (- 2) \<noteq> None" by (simp add: get_list_ptr_pin_def PCPU_ID_def)
  with c obtain r m' where r: "?e = Some (r, m')" "rep_result ex_halves 0 r m'" by (auto split: option.splits)
  obtain m1 where "stretch_loop (\<lambda>_ h. h) (BLOCK_FETCH_IN_PROGRESS OR BLOCK_HVA_FAULT) 1 0 ex_halves 0 0 = Some (0, m1)"
    "block_order (mm_gpas m1 0) = 3" using ex_halves_loop by blast
  moreover have "els_get_super_head (mm_gpas ex_halves) 0 = Some 0"
    by (simp add: els_get_super_head_def emp_get_block_head_at_def)
  moreover have "BLOCK_FETCH_IN_PROGRESS AND BLOCK_NO_FETCH = 0" "BLOCK_FETCH_IN_PROGRESS \<noteq> 0"
    by (simp_all add: BLOCK_FETCH_IN_PROGRESS_def BLOCK_NO_FETCH_def)
  ultimately have "r" using r(1)
    by (auto simp: els_stretch_rep_def Let_def emp_lp_owner_def IS_IOTHREAD_VCPU_def IO_THREAD_ID_def bind_eq_Some_conv
        split: if_splits)
  with r show ?thesis by auto
qed

text \<open>
  C31: Reducing a block to its halves either fails, when the second half's head is locked, and changes
  nothing, or gives the two halves: both are blocks of the next lower order, the second head has the
  flags and the state of the first and is locked, no other lock changes, and the pages counted
  stay the same.
\<close>

theorem reduce_to_halves:
  assumes "els_ok (mm_gpas m)" and "emp_get_block_head (mm_gpas m) s = s" and "desc_order (mm_gpas m s) = Suc k"
    and "els_reduce m s = (r, m')"
  shows "case r of None \<Rightarrow> m' = m
    | Some hs \<Rightarrow> hs = [s, s + 2 ^ k] \<and> els_ok (mm_gpas m')
        \<and> (\<forall>q. desc_order (mm_gpas m' q) = (if same_group (Suc k) s q then k else desc_order (mm_gpas m q)))
        \<and> (\<forall>q. gpa_lock (mm_gpas m' q) \<longleftrightarrow> q = s + 2 ^ k \<or> gpa_lock (mm_gpas m q))
        \<and> gpa_flags (mm_gpas m' (s + 2 ^ k)) = gpa_flags (mm_gpas m (s + 2 ^ k)) OR gpa_flags (mm_gpas m s)
        \<and> r_state (mm_gpas m' (s + 2 ^ k)) = r_state (mm_gpas m s)
        \<and> counted_pages (els_stats m') = counted_pages (els_stats m)"
proof (cases r)
  case None
  then show ?thesis using els_reduce_fail assms(4) by simp
next
  case (Some hs)
  note ok = els_reduce_ok [OF assms(1-3), of hs m', OF assms(4) [unfolded Some]]
  show ?thesis unfolding Some option.case
    using ok(1,2,3,7,8,9,11) by (intro conjI allI)
qed

lemma reduce_to_halves_witness:
  "\<exists>m'. els_reduce (ex_els_mm 2) 0 = (Some [0, 2], m') \<and> els_ok (mm_gpas m') \<and> gpa_lock (mm_gpas m' 2)"
proof -
  obtain r m' where e: "els_reduce (ex_els_mm 2) 0 = (r, m')" by (metis surj_pair)
  have "fst (els_reduce (ex_els_mm 2) 0) \<noteq> None"
    by (simp add: els_reduce_def emp_trylock_head_def emp_gpa_trylock_def Let_def)
  then have "r \<noteq> None" using e by simp
  then show ?thesis
    using reduce_to_halves [of "ex_els_mm 2" 0 1 r m'] e by (auto simp: ex_els_ok)
qed

text \<open>
  C30: Reducing a block to its subblocks either fails, when some member is locked, and leaves every lock
  and every descriptor as it was, or makes each member a block of its own that is locked, with the
  flags of the old head added where it has a page; the pages counted stay the same.
\<close>

theorem reduce_to_subblocks:
  assumes "els_ok (mm_gpas m)" and "emp_get_block_head (mm_gpas m) s = s" and "gpa_lock (mm_gpas m s)"
    and "els_tryreduce_complete m s = (r, m')"
  shows "case r of None \<Rightarrow> m' = m
    | Some hs \<Rightarrow> hs = [s ..< s + 2 ^ desc_order (mm_gpas m s)] \<and> els_ok (mm_gpas m')
        \<and> (\<forall>q. desc_order (mm_gpas m' q) =
            (if same_group (desc_order (mm_gpas m s)) s q then 0 else desc_order (mm_gpas m q)))
        \<and> (\<forall>q. gpa_lock (mm_gpas m' q) \<longleftrightarrow> same_group (desc_order (mm_gpas m s)) s q \<or> gpa_lock (mm_gpas m q))
        \<and> (\<forall>q. same_group (desc_order (mm_gpas m s)) s q \<longrightarrow> q \<noteq> s \<longrightarrow> local_page (mm_gpas m q) \<noteq> None \<longrightarrow>
            gpa_flags (mm_gpas m' q) = gpa_flags (mm_gpas m q) OR gpa_flags (mm_gpas m s)
            \<and> r_state (mm_gpas m' q) = r_state (mm_gpas m s))
        \<and> counted_pages (els_stats m') = counted_pages (els_stats m)"
proof (cases r)
  case None
  then show ?thesis using els_tryreduce_complete_fail assms(4) by simp
next
  case (Some hs)
  note ok = els_tryreduce_complete_ok [OF assms(1-3), of hs m', OF assms(4) [unfolded Some]]
  show ?thesis unfolding Some option.case
    using ok(1-4,6,7) by (intro conjI allI impI) blast+
qed

lemma reduce_to_subblocks_witness:
  "\<exists>m'. els_tryreduce_complete (ex_els_mm 2) 0 = (Some [0, 1, 2, 3], m') \<and> gpa_lock (mm_gpas m' 3)"
proof -
  obtain r m' where e: "els_tryreduce_complete (ex_els_mm 2) 0 = (r, m')" by (metis surj_pair)
  have "num_subblock_in_block (ex_els 2 0) = 4" by (simp add: num_subblock_in_block_def)
  then have "fst (els_tryreduce_complete (ex_els_mm 2) 0) \<noteq> None"
    by (simp add: els_tryreduce_complete_def emp_trylock_head_def emp_gpa_trylock_def Let_def upt_rec)
  then have n: "r \<noteq> None" using e by simp
  have u: "[0 ..< 4] = [0, 1, 2, 3::nat]" by (simp add: upt_rec)
  have "same_group 2 0 3" by (simp add: same_group_def)
  with n show ?thesis
    using reduce_to_subblocks [of "ex_els_mm 2" 0 r m'] e u by (auto simp: ex_els_ok)
qed

text \<open>
  After stretching, the pages of all members but the head leave the lists: each is removed
  from the one list it is on, nothing else leaves, and what the flags of the remaining pages say
  about their lists stays true.
\<close>

theorem stretched_members_leave_lists:
  assumes "slru_ok m {head ..< head + num_subblock_in_block (mm_gpas m head)}"
    and "remove_from_list_except_for_head m head = Some m'"
  shows "left_lists m (member_page m ` {head + 1 ..< head + num_subblock_in_block (mm_gpas m head)}) m'
    \<and> slru_ok m' {head ..< head + num_subblock_in_block (mm_gpas m head)}"
  using remove_from_list_except_for_head_ok [OF assms] by blast

text \<open>A block of two descriptors with a page each, the second's page on the active list.\<close>

definition ex_pair :: emp_mm where
  "ex_pair = (ex_els_mm 1)\<lparr>mm_gpas := (\<lambda>p. (ex_els 1 p)\<lparr>local_page := Some p\<rparr>),
     mm_lps := (\<lambda>l. if l = 1 then (ex_lp 1) else (ex_lp 3)),
     slru_lists := (\<lambda>k p. if k = ACTIVE_LIST \<and> p = Slru_global then \<lparr>el_len = 1, el_head = [1]\<rparr> else init_emp_list)\<rparr>"

lemma ex_pair_ok: "slru_ok ex_pair {0 ..< 2}"
proof -
  have f: "lp_flags (ex_lp 3) = 0" "lp_flags (ex_lp (Suc 0)) = 4" by (simp_all add: ex_lp_def LOCAL_PAGE_ON_GLOBAL_def)
  have m: "LOCAL_PAGE_ON_LIST_MASK = 7"
    by (simp add: LOCAL_PAGE_ON_LIST_MASK_def LOCAL_PAGE_ON_MRU_def LOCAL_PAGE_ON_LRU_def LOCAL_PAGE_ON_GLOBAL_def)
  have on: "on_list ex_pair l \<longleftrightarrow> l = 1" for l
    by (simp add: on_list_def is_local_page_on_list_def ex_pair_def f m)
  have pg: "member_page ex_pair p = p" for p by (simp add: member_page_def ex_pair_def)
  have pl: "list_place (mm_lps ex_pair (Suc 0)) = Slru_global"
    by (simp add: list_place_def ex_pair_def is_local_page_flags_def f LOCAL_PAGE_ON_MRU_def LOCAL_PAGE_ON_LRU_def)
  have tg: "target_list (mm_gpas ex_pair p) = ACTIVE_LIST" for p
    by (simp add: target_list_def ex_pair_def is_gpa_flags_set_def ex_els_def)
  have ls: "slru_lists ex_pair k p = (if k = ACTIVE_LIST \<and> p = Slru_global then \<lparr>el_len = 1, el_head = [1]\<rparr> else init_emp_list)"
    for k p by (simp add: ex_pair_def)
  show ?thesis by (auto simp: slru_ok_def ls pg on tg pl emp_list_ok_def init_emp_list_def inj_on_def)
qed

lemma stretched_members_leave_lists_witness:
  "on_list ex_pair 1 \<and> (\<exists>m'. remove_from_list_except_for_head ex_pair 0 = Some m' \<and> \<not> on_list m' 1)"
proof -
  have "remove_from_list_except_for_head ex_pair 0 \<noteq> None"
    by (simp add: remove_from_list_except_for_head_def ex_pair_def Let_def list_ex_iff)
  then obtain m' where m': "remove_from_list_except_for_head ex_pair 0 = Some m'" by blast
  have n: "num_subblock_in_block (mm_gpas ex_pair 0) = 2"
    by (simp add: num_subblock_in_block_def ex_pair_def ex_els_def ex_block_def)
  have r: "{0 + 1 ..< 0 + 2} = {1::nat}" by auto
  have pg: "member_page ex_pair 1 = 1" by (simp add: member_page_def ex_pair_def)
  have "lp_flags (ex_lp (Suc 0)) = 4" by (simp add: ex_lp_def LOCAL_PAGE_ON_GLOBAL_def)
  then have on: "on_list ex_pair 1"
    by (simp add: on_list_def is_local_page_on_list_def ex_pair_def LOCAL_PAGE_ON_LIST_MASK_def
        LOCAL_PAGE_ON_MRU_def LOCAL_PAGE_ON_LRU_def LOCAL_PAGE_ON_GLOBAL_def)
  have "slru_ok ex_pair {0 ..< 0 + num_subblock_in_block (mm_gpas ex_pair 0)}" unfolding n using ex_pair_ok by (simp add: numeral_2_eq_2)
  from stretched_members_leave_lists [OF this m'] on m' show ?thesis
    unfolding n r image_insert image_empty pg by (simp add: left_lists_def)
qed

end
