(* ===== verification/Cow_Remote.thy ===== *)
theory Cow_Remote
  imports Remote_Policy
begin

text \<open>
  Remote pages shared between a process and its fork (\<^verbatim>\<open>src/module_gpl/cow.c\<close>, \<^verbatim>\<open>cow.h\<close>,
  \<^verbatim>\<open>remote_page_release()\<close> of \<^verbatim>\<open>remote_page.c\<close> and \<^verbatim>\<open>__clear_fetching_work_request()\<close> of
  \<^verbatim>\<open>donor_mem_rw.c\<close>).  The word of a descriptor may point to a counted \<^verbatim>\<open>struct cow_remote_page\<close> that
  holds the real word.

  \<open>cm_live\<close> are the addresses of the records that are allocated.  The slab allocator is the parameter
  \<open>kmem\<close>: it gets the descriptor and the live addresses and answers with an address or fails.
\<close>

record cow_mem =
  cm_store :: cow_store
  cm_live :: "u64 set"
  cm_gpas :: gpa_heap

definition rp_of :: "cow_mem \<Rightarrow> gpa_ptr \<Rightarrow> u64" where
  "rp_of s p = remote_page (cm_gpas s p)"

definition set_rp_of :: "gpa_ptr \<Rightarrow> u64 \<Rightarrow> cow_mem \<Rightarrow> cow_mem" where
  "set_rp_of p v s = s\<lparr>cm_gpas := set_rp (cm_gpas s) p v\<rparr>"

definition upd_crp :: "u64 \<Rightarrow> (cow_remote_page \<Rightarrow> cow_remote_page) \<Rightarrow> cow_mem \<Rightarrow> cow_mem" where
  "upd_crp a f s = s\<lparr>cm_store := (cm_store s)(a := f (cm_store s a))\<rparr>"

section \<open>Taking a reference\<close>

definition get_cow_remote_page ::
    "(gpa_ptr \<Rightarrow> u64 set \<Rightarrow> u64 option) \<Rightarrow> cow_mem \<Rightarrow> gpa_ptr \<Rightarrow> gpa_ptr \<Rightarrow> int \<times> cow_mem" where
  "get_cow_remote_page kmem s old new =
     (case (if \<not> is_remote_page_cow (rp_of s old)
            then (let val = rp_of s old
                  in case kmem old (cm_live s) of
                       None \<Rightarrow> None
                     | Some crp \<Rightarrow>
                         let s = s\<lparr>cm_live := insert crp (cm_live s)\<rparr>;
                             s = upd_crp crp (\<lambda>_. \<lparr>crp_refcnt = 1, crp_remote_page = val\<rparr>) s
                         in Some (crp, set_rp_of old (set_remote_page_cow (rp_of s old) crp) s))
            else Some (get_remote_page_cow (rp_of s old), s)) of
        None \<Rightarrow> (- ENOMEM, s)
      | Some (crp, s) \<Rightarrow>
          (let s = upd_crp crp (\<lambda>c. c\<lparr>crp_refcnt := crp_refcnt c + 1\<rparr>) s
           in (0, set_rp_of new (set_remote_page_cow (rp_of s new) crp) s)))"

section \<open>Dropping a reference\<close>

text \<open>\<^verbatim>\<open>__put_cow_remote_page()\<close>; the result says whether the descriptor still has the remote page.\<close>

definition put_cow_remote_page2 :: "cow_mem \<Rightarrow> gpa_ptr \<Rightarrow> bool \<times> cow_mem" where
  "put_cow_remote_page2 s p =
     (let crp = get_remote_page_cow (rp_of s p);
          s = upd_crp crp (\<lambda>c. c\<lparr>crp_refcnt := crp_refcnt c - 1\<rparr>) s
      in if crp_refcnt (cm_store s crp) = 0
         then (let val = crp_remote_page (cm_store s crp);
                   s = set_rp_of p val s
               in (True, s\<lparr>cm_live := cm_live s - {crp}\<rparr>))
         else (False, set_rp_of p FREE_REMOTE_PAGE_VAL s))"

definition put_cow_remote_page :: "cow_mem \<Rightarrow> gpa_ptr \<Rightarrow> bool \<times> cow_mem" where
  "put_cow_remote_page s p =
     (if \<not> is_remote_page_cow (rp_of s p) then (True, s) else put_cow_remote_page2 s p)"

section \<open>Whole blocks\<close>

text \<open>The pairs of descriptors of an old and a new block with \<open>n\<close> subblocks.\<close>

definition old_new_gpas :: "nat \<Rightarrow> gpa_ptr \<Rightarrow> gpa_ptr \<Rightarrow> (gpa_ptr \<times> gpa_ptr) list" where
  "old_new_gpas n old_head new_head = map (\<lambda>i. (old_head + i, new_head + i)) [0 ..< n]"

definition error_get_cow_remote_page_block :: "cow_mem \<Rightarrow> (gpa_ptr \<times> gpa_ptr) list \<Rightarrow> nat \<Rightarrow> cow_mem" where
  "error_get_cow_remote_page_block s ps faulting_idx =
     foldl (\<lambda>s (old, new). snd (put_cow_remote_page2 (snd (put_cow_remote_page2 s new)) old)) s
       (take faulting_idx ps)"

fun get_cow_loop :: "(gpa_ptr \<Rightarrow> u64 set \<Rightarrow> u64 option) \<Rightarrow> (gpa_ptr \<times> gpa_ptr) list
    \<Rightarrow> (gpa_ptr \<times> gpa_ptr) list \<Rightarrow> nat \<Rightarrow> cow_mem \<Rightarrow> int \<times> cow_mem" where
  "get_cow_loop kmem ps [] idx s = (0, s)"
| "get_cow_loop kmem ps ((old, new) # rest) idx s =
     (case get_cow_remote_page kmem s old new of (ret, s) \<Rightarrow>
        if ret < 0 then (ret, error_get_cow_remote_page_block s ps idx)
        else get_cow_loop kmem ps rest (idx + 1) s)"

definition get_cow_remote_page_block ::
    "(gpa_ptr \<Rightarrow> u64 set \<Rightarrow> u64 option) \<Rightarrow> cow_mem \<Rightarrow> gpa_ptr \<Rightarrow> gpa_ptr \<Rightarrow> int \<times> cow_mem" where
  "get_cow_remote_page_block kmem s old_head new_head =
     (let ps = old_new_gpas (num_subblock_in_block (cm_gpas s old_head)) old_head new_head
      in get_cow_loop kmem ps ps 0 s)"

definition set_block_remote_flag :: "gpa_heap \<Rightarrow> gpa_ptr \<Rightarrow> gpa_heap" where
  "set_block_remote_flag h head =
     foldl (\<lambda>h p. h(p := snd (set_gpa_flags_if_unset (h p) GPA_REMOTE_MASK))) h (for_each_gpas h head)"

definition dup_cow_gpadesc_remote ::
    "(gpa_ptr \<Rightarrow> u64 set \<Rightarrow> u64 option) \<Rightarrow> cow_mem \<Rightarrow> gpa_ptr \<Rightarrow> gpa_ptr \<Rightarrow> int \<times> cow_mem" where
  "dup_cow_gpadesc_remote kmem s old_head new_head =
     (case get_cow_remote_page_block kmem s old_head new_head of (ret, s) \<Rightarrow>
        if ret < 0 then (ret, s)
        else (ret, s\<lparr>cm_gpas := set_block_remote_flag (cm_gpas s) new_head\<rparr>))"

section \<open>Giving remote pages back\<close>

fun remote_page_release_loop :: "emp_mrs \<Rightarrow> cow_mem \<Rightarrow> gpa_ptr list \<Rightarrow> (emp_mrs \<times> cow_mem) option" where
  "remote_page_release_loop m s [] = Some (m, s)"
| "remote_page_release_loop m s (g # gs) =
     (if is_remote_page_free (rp_of s g) then remote_page_release_loop m s gs
      else case put_cow_remote_page s g of (still, s) \<Rightarrow>
        if \<not> still then remote_page_release_loop m s gs
        else case free_remote_page4 (cm_store s) m (cm_gpas s) g of
               None \<Rightarrow> None
             | Some (m, h) \<Rightarrow> remote_page_release_loop m (s\<lparr>cm_gpas := h\<rparr>) gs)"

definition remote_page_release :: "emp_mrs \<Rightarrow> cow_mem \<Rightarrow> gpa_ptr \<Rightarrow> nat \<Rightarrow> (emp_mrs \<times> cow_mem) option" where
  "remote_page_release m s head num = remote_page_release_loop m s (map (\<lambda>i. head + i) [0 ..< num])"

text \<open>After a fetch: the work request itself is outside this part.\<close>

definition clear_fetching_remote :: "emp_config \<Rightarrow> emp_mrs \<Rightarrow> cow_mem \<Rightarrow> gpa_ptr \<Rightarrow> (emp_mrs \<times> cow_mem) option" where
  "clear_fetching_remote c m s p =
     (case put_cow_remote_page s p of (still, s) \<Rightarrow>
        if still
        then map_option (\<lambda>(_, m, h). (m, s\<lparr>cm_gpas := h\<rparr>))
               (free_remote_page c (cm_store s) m (cm_gpas s) p True)
        else Some (m, s))"

section \<open>Reference counts\<close>

definition holders :: "gpa_ptr set \<Rightarrow> cow_mem \<Rightarrow> u64 \<Rightarrow> gpa_ptr set" where
  "holders P s a = {p \<in> P. is_remote_page_cow (rp_of s p) \<and> get_remote_page_cow (rp_of s p) = a}"

text \<open>The count of a record is the number of descriptors that point to it, and it is never 0.\<close>

definition refs_ok :: "gpa_ptr set \<Rightarrow> cow_mem \<Rightarrow> bool" where
  "refs_ok P s \<longleftrightarrow> finite P
     \<and> (\<forall>a \<in> cm_live s. a AND REMOTE_PAGE_FLAG_MASK = 0 \<and> holders P s a \<noteq> {}
          \<and> crp_refcnt (cm_store s a) = int (card (holders P s a)))
     \<and> (\<forall>p \<in> P. is_remote_page_cow (rp_of s p) \<longrightarrow> get_remote_page_cow (rp_of s p) \<in> cm_live s)"

text \<open>
  The owners of remote words: a descriptor owns the word it holds itself, a record the word it holds
  for its descriptors.
\<close>

datatype owner = Desc gpa_ptr | Shared u64

fun owned :: "gpa_ptr set \<Rightarrow> cow_mem \<Rightarrow> owner \<Rightarrow> u64 option" where
  "owned P s (Desc p) =
     (if p \<in> P \<and> \<not> is_remote_page_cow (rp_of s p) \<and> \<not> is_remote_page_free (rp_of s p) then Some (rp_of s p) else None)"
| "owned P s (Shared a) = (if a \<in> cm_live s then Some (crp_remote_page (cm_store s a)) else None)"

definition slots_ok :: "nat \<Rightarrow> memreg option list \<Rightarrow> (owner \<Rightarrow> u64 option) \<Rightarrow> bool" where
  "slots_ok ord t own \<longleftrightarrow>
     (\<forall>x v. own x = Some v \<longrightarrow> (\<exists>k \<in> used_slots t. v = slot_word ord k))
     \<and> (\<forall>x y v. own x = Some v \<longrightarrow> own y = Some v \<longrightarrow> x = y)"

definition cow_inv :: "nat \<Rightarrow> gpa_ptr set \<Rightarrow> emp_mrs \<Rightarrow> cow_mem \<Rightarrow> bool" where
  "cow_inv ord P m s \<longleftrightarrow> mrs_ok ord m \<and> refs_ok P s \<and> slots_ok ord (memregs m) (owned P s)"

lemma cow_mem_simps [simp]:
  "cm_live (set_rp_of p v s) = cm_live s" "cm_store (set_rp_of p v s) = cm_store s"
  "cm_live (upd_crp a f s) = cm_live s" "cm_gpas (upd_crp a f s) = cm_gpas s"
  "cm_store (upd_crp a f s) b = (if b = a then f (cm_store s a) else cm_store s b)"
  "cm_gpas (set_rp_of p v s) = set_rp (cm_gpas s) p v"
  "rp_of (set_rp_of p v s) q = (if q = p then v else rp_of s q)" "rp_of (upd_crp a f s) q = rp_of s q"
  "rp_of (s\<lparr>cm_live := L\<rparr>) q = rp_of s q"
  by (simp_all add: set_rp_of_def upd_crp_def rp_of_def)

lemma holders_simps:
  "holders P (upd_crp a f s) = holders P s" "holders P (s\<lparr>cm_live := L\<rparr>) = holders P s"
  "p \<in> P \<Longrightarrow> holders P (set_rp_of p v s) b =
     (if is_remote_page_cow v \<and> get_remote_page_cow v = b then insert p (holders P s b) else holders P s b - {p})"
  by (auto simp: holders_def fun_eq_iff)

lemma holders_sub: "holders P s a \<subseteq> P"
  by (auto simp: holders_def)

lemma refs_finite: "refs_ok P s \<Longrightarrow> finite (holders P s a)"
  unfolding refs_ok_def by (metis holders_sub finite_subset)

lemma no_holders: "refs_ok P s \<Longrightarrow> a \<notin> cm_live s \<Longrightarrow> holders P s a = {}"
  by (auto simp: refs_ok_def holders_def)

lemma refsD: "refs_ok P s \<Longrightarrow> a \<in> cm_live s \<Longrightarrow>
    a AND REMOTE_PAGE_FLAG_MASK = 0 \<and> crp_refcnt (cm_store s a) = int (card (holders P s a))"
  by (simp add: refs_ok_def)

lemma not_holder: "\<not> is_remote_page_cow (rp_of s p) \<Longrightarrow> p \<notin> holders P s a"
  by (simp add: holders_def)

text \<open>The three changes the operations are made of: a page becomes shared, gains and loses a holder.\<close>

definition share :: "gpa_ptr \<Rightarrow> u64 \<Rightarrow> cow_mem \<Rightarrow> cow_mem" where
  "share p a s = set_rp_of p (set_remote_page_cow (rp_of s p) a)
     (upd_crp a (\<lambda>_. \<lparr>crp_refcnt = 1, crp_remote_page = rp_of s p\<rparr>) (s\<lparr>cm_live := insert a (cm_live s)\<rparr>))"

definition join :: "gpa_ptr \<Rightarrow> u64 \<Rightarrow> cow_mem \<Rightarrow> cow_mem" where
  "join p a s = set_rp_of p (set_remote_page_cow (rp_of s p) a) (upd_crp a (\<lambda>c. c\<lparr>crp_refcnt := crp_refcnt c + 1\<rparr>) s)"

lemma share_refs:
  assumes "refs_ok P s" and "p \<in> P" and "\<not> is_remote_page_cow (rp_of s p)"
    and "a \<notin> cm_live s" and "a AND REMOTE_PAGE_FLAG_MASK = 0"
  shows "refs_ok P (share p a s)"
proof -
  note t = cow_tag_roundtrip [OF assms(5)]
  have h: "holders P (share p a s) b = (if b = a then {p} else holders P s b)" for b
    using no_holders [OF assms(1,4)] not_holder [OF assms(3)] assms(2)
    by (auto simp: share_def holders_simps t)
  show ?thesis
    unfolding refs_ok_def h
    using assms(1,4,5) t by (auto simp: refs_ok_def share_def)
qed

lemma join_refs:
  assumes "refs_ok P s" and "p \<in> P" and "\<not> is_remote_page_cow (rp_of s p)" and "a \<in> cm_live s"
  shows "refs_ok P (join p a s)"
proof -
  have f: "a AND REMOTE_PAGE_FLAG_MASK = 0" using refsD [OF assms(1,4)] by simp
  note t = cow_tag_roundtrip [OF f]
  have h: "holders P (join p a s) b = (if b = a then insert p (holders P s a) else holders P s b)" for b
    using not_holder [OF assms(3)] assms(2) by (auto simp: join_def holders_simps t)
  show ?thesis
    unfolding refs_ok_def h
    using assms(1,2,4) t refs_finite [OF assms(1)] not_holder [OF assms(3)] by (auto simp: refs_ok_def join_def)
qed

lemma owned_share:
  assumes "p \<in> P" and "\<not> is_remote_page_cow (rp_of s p)" and "\<not> is_remote_page_free (rp_of s p)"
    and "a \<notin> cm_live s" and "a AND REMOTE_PAGE_FLAG_MASK = 0"
  shows "owned P (share p a s) = (owned P s)(Desc p := None, Shared a := owned P s (Desc p))"
proof
  fix x
  show "owned P (share p a s) x = ((owned P s)(Desc p := None, Shared a := owned P s (Desc p))) x"
    using assms cow_tag_roundtrip [OF assms(5)] by (cases x) (auto simp: share_def)
qed

lemma owned_join:
  assumes "is_remote_page_free (rp_of s p)" and "a AND REMOTE_PAGE_FLAG_MASK = 0"
  shows "owned P (join p a s) = owned P s"
proof
  fix x
  show "owned P (join p a s) x = owned P s x"
    using assms cow_tag_roundtrip [OF assms(2)] by (cases x) (auto simp: join_def)
qed

lemma slots_ok_move:
  "slots_ok ord t own \<Longrightarrow> own y = None \<Longrightarrow> slots_ok ord t (own(x := None, y := own x))"
  unfolding slots_ok_def by (intro conjI allI impI) (auto split: if_splits)

lemma free_not_cow2: "is_remote_page_free v \<Longrightarrow> \<not> is_remote_page_cow v"
  by (auto simp: is_remote_page_free_def)

section \<open>What each operation does\<close>

text \<open>The word a descriptor reads, through the record if it is shared.\<close>

definition val_of :: "cow_mem \<Rightarrow> gpa_ptr \<Rightarrow> u64" where
  "val_of s p = get_rp_val (cm_store s) (rp_of s p)"

definition kmem_ok :: "(gpa_ptr \<Rightarrow> u64 set \<Rightarrow> u64 option) \<Rightarrow> bool" where
  "kmem_ok kmem \<longleftrightarrow> (\<forall>p L a. kmem p L = Some a \<longrightarrow> a \<notin> L \<and> a AND REMOTE_PAGE_FLAG_MASK = 0)"

lemma slots_word: "cow_inv ord P m s \<Longrightarrow> owned P s x = Some v \<Longrightarrow>
    \<not> is_remote_page_cow v \<and> \<not> is_remote_page_free v \<and> word_slot ord v \<in> used_slots (memregs m)
    \<and> v = slot_word ord (word_slot ord v)"
  unfolding cow_inv_def slots_ok_def mrs_ok_def by (metis used_slot_facts)

lemma cow_live: "cow_inv ord P m s \<Longrightarrow> p \<in> P \<Longrightarrow> is_remote_page_cow (rp_of s p) \<Longrightarrow>
    get_remote_page_cow (rp_of s p) \<in> cm_live s"
  by (simp add: cow_inv_def refs_ok_def)

lemma holder_unique: "p \<in> holders P s a \<Longrightarrow> p \<in> holders P s b \<Longrightarrow> a = b"
  by (auto simp: holders_def)

lemma get_cow_cases:
  "get_cow_remote_page kmem s old new =
     (if is_remote_page_cow (rp_of s old) then (0, join new (get_remote_page_cow (rp_of s old)) s)
      else case kmem old (cm_live s) of None \<Rightarrow> (- ENOMEM, s)
           | Some a \<Rightarrow> (0, join new a (share old a s)))"
  by (simp add: get_cow_remote_page_def join_def share_def split: option.splits)

text \<open>\<open>dropped P s p s'\<close>: \<open>p\<close> no longer points to its record; \<open>still\<close> says whether it was the last.\<close>

definition dropped :: "gpa_ptr set \<Rightarrow> cow_mem \<Rightarrow> gpa_ptr \<Rightarrow> bool \<Rightarrow> cow_mem \<Rightarrow> bool" where
  "dropped P s p still s' \<longleftrightarrow>
     (let a = get_remote_page_cow (rp_of s p) in
      (still \<longleftrightarrow> holders P s a = {p})
      \<and> rp_of s' p = (if still then val_of s p else FREE_REMOTE_PAGE_VAL)
      \<and> cm_live s' = (if still then cm_live s - {a} else cm_live s)
      \<and> (\<forall>q. q \<noteq> p \<longrightarrow> rp_of s' q = rp_of s q)
      \<and> (\<forall>b. crp_remote_page (cm_store s' b) = crp_remote_page (cm_store s b))
      \<and> (\<forall>b. holders P s' b = holders P s b - {p}))"

lemma put_ok:
  assumes inv: "cow_inv ord P m s" and p: "p \<in> P" "is_remote_page_cow (rp_of s p)"
    and put: "put_cow_remote_page2 s p = (still, s')"
  shows "cow_inv ord P m s' \<and> dropped P s p still s'"
proof -
  let ?a = "get_remote_page_cow (rp_of s p)"
  let ?v = "crp_remote_page (cm_store s ?a)"
  have refs: "refs_ok P s" and slots: "slots_ok ord (memregs m) (owned P s)" and mrs: "mrs_ok ord m"
    using inv by (simp_all add: cow_inv_def)
  have a: "?a \<in> cm_live s" by (rule cow_live [OF inv p])
  have ph: "p \<in> holders P s ?a" using p by (simp add: holders_def)
  have cnt: "crp_refcnt (cm_store s ?a) = int (card (holders P s ?a))" using refsD [OF refs a] by simp
  have fin: "finite (holders P s b)" for b by (rule refs_finite [OF refs])
  have v: "\<not> is_remote_page_cow ?v" "\<not> is_remote_page_free ?v"
    using slots_word [OF inv, of "Shared ?a" ?v] a by simp_all
  have val: "val_of s p = ?v" using p by (simp add: val_of_def get_rp_val_def)
  have st: "still \<longleftrightarrow> holders P s ?a = {p}"
  proof -
    have "still \<longleftrightarrow> card (holders P s ?a) = 1"
      using put cnt by (auto simp: put_cow_remote_page2_def Let_def split: if_splits)
    with ph show ?thesis by (auto simp: card_1_singleton_iff)
  qed
  have s': "s' = (if still then (set_rp_of p ?v (upd_crp ?a (\<lambda>c. c\<lparr>crp_refcnt := crp_refcnt c - 1\<rparr>) s))
        \<lparr>cm_live := cm_live s - {?a}\<rparr>
      else set_rp_of p FREE_REMOTE_PAGE_VAL (upd_crp ?a (\<lambda>c. c\<lparr>crp_refcnt := crp_refcnt c - 1\<rparr>) s))"
    using put by (auto simp: put_cow_remote_page2_def Let_def split: if_splits)
  have h: "holders P s' b = holders P s b - {p}" for b
    unfolding s' using p v by (simp add: holders_simps)
  have d: "dropped P s p still s'"
    unfolding dropped_def Let_def val h by (simp add: s' st)
  have rps: "rp_of s' q = (if q = p then if still then ?v else FREE_REMOTE_PAGE_VAL else rp_of s q)" for q
    by (simp add: s')
  have live: "cm_live s' = (if still then cm_live s - {?a} else cm_live s)" by (simp add: s')
  have count: "crp_refcnt (cm_store s' b) = crp_refcnt (cm_store s b) - (if b = ?a then 1 else 0)" for b
    by (simp add: s')
  have pc: "\<not> is_remote_page_cow (rp_of s' p)" unfolding rps using v(1) by simp
  have other: "p \<notin> holders P s b" if "b \<noteq> ?a" for b using holder_unique [OF ph, of b] that by blast
  have refs': "refs_ok P s'"
    unfolding refs_ok_def
  proof (intro conjI ballI impI)
    show "finite P" using refs by (simp add: refs_ok_def)
    fix q assume q: "q \<in> P" "is_remote_page_cow (rp_of s' q)"
    with pc have "q \<noteq> p" by metis
    then have "rp_of s' q = rp_of s q" by (simp add: rps)
    note q = q [unfolded this]
    have "q \<in> holders P s (get_remote_page_cow (rp_of s q))" using q by (simp add: holders_def)
    moreover have "get_remote_page_cow (rp_of s q) \<in> cm_live s" by (rule cow_live [OF inv q])
    moreover have "get_remote_page_cow (rp_of s q) \<noteq> ?a" if still
      using that st \<open>q \<noteq> p\<close> \<open>q \<in> holders P s (get_remote_page_cow (rp_of s q))\<close> by (metis singletonD)
    ultimately show "get_remote_page_cow (rp_of s' q) \<in> cm_live s'"
      unfolding \<open>rp_of s' q = rp_of s q\<close> live by simp
  next
    fix b assume b: "b \<in> cm_live s'"
    then have bl: "b \<in> cm_live s" "still \<longrightarrow> b \<noteq> ?a" by (simp_all add: live split: if_splits)
    show "b AND REMOTE_PAGE_FLAG_MASK = 0" using refsD [OF refs bl(1)] by simp
    have ne: "holders P s b \<noteq> {}" using refs bl(1) by (simp add: refs_ok_def)
    show "holders P s' b \<noteq> {}"
    proof (cases "b = ?a")
      case True
      with bl(2) st have "holders P s b \<noteq> {p}" by blast
      with ne show ?thesis unfolding h by blast
    next
      case False
      with other ne show ?thesis unfolding h by simp
    qed
    have c: "crp_refcnt (cm_store s b) = int (card (holders P s b))" using refsD [OF refs bl(1)] by simp
    show "crp_refcnt (cm_store s' b) = int (card (holders P s' b))"
    proof (cases "b = ?a")
      case True
      have "card (holders P s ?a) = Suc (card (holders P s ?a - {p}))" using card.remove [OF fin ph] by simp
      with cnt True show ?thesis unfolding h count by simp
    next
      case False
      with other c show ?thesis unfolding h count by simp
    qed
  qed
  have "owned P s' = (if still then (owned P s)(Shared ?a := None, Desc p := owned P s (Shared ?a)) else owned P s)"
  proof
    fix x
    have "crp_remote_page (cm_store s' b) = crp_remote_page (cm_store s b)" for b by (simp add: s')
    then show "owned P s' x = (if still then (owned P s)(Shared ?a := None, Desc p := owned P s (Shared ?a)) else owned P s) x"
      using p a v by (cases x) (simp_all add: rps live is_remote_page_free_def)
  qed
  moreover have "owned P s (Desc p) = None" using p by simp
  ultimately have "slots_ok ord (memregs m) (owned P s')"
    using slots slots_ok_move [OF slots, of "Desc p"] by (simp del: owned.simps)
  with refs' mrs d show ?thesis by (simp add: cow_inv_def)
qed

text \<open>\<open>paired P s o n s'\<close>: \<open>n\<close> shares the remote page of \<open>o\<close> and nothing else is read differently.\<close>

definition paired :: "gpa_ptr set \<Rightarrow> cow_mem \<Rightarrow> gpa_ptr \<Rightarrow> gpa_ptr \<Rightarrow> cow_mem \<Rightarrow> bool" where
  "paired P s old new s' \<longleftrightarrow>
     is_remote_page_cow (rp_of s' old) \<and> is_remote_page_cow (rp_of s' new)
     \<and> get_remote_page_cow (rp_of s' new) = get_remote_page_cow (rp_of s' old)
     \<and> val_of s' new = val_of s old
     \<and> (\<forall>q. q \<noteq> old \<longrightarrow> q \<noteq> new \<longrightarrow> rp_of s' q = rp_of s q)
     \<and> (\<forall>q \<in> P. q \<noteq> new \<longrightarrow> val_of s' q = val_of s q)
     \<and> (if is_remote_page_cow (rp_of s old)
         then cm_live s' = cm_live s \<and> get_remote_page_cow (rp_of s' old) = get_remote_page_cow (rp_of s old)
         else get_remote_page_cow (rp_of s' old) \<notin> cm_live s
              \<and> cm_live s' = insert (get_remote_page_cow (rp_of s' old)) (cm_live s)
              \<and> holders P s' (get_remote_page_cow (rp_of s' old)) = {old, new})
     \<and> (\<forall>b \<in> cm_live s. crp_remote_page (cm_store s' b) = crp_remote_page (cm_store s b)
          \<and> (b \<noteq> get_remote_page_cow (rp_of s' old) \<longrightarrow> holders P s' b = holders P s b))"

lemma share_ok:
  assumes inv: "cow_inv ord P m s" and p: "p \<in> P" "\<not> is_remote_page_cow (rp_of s p)" "\<not> is_remote_page_free (rp_of s p)"
    and a: "a \<notin> cm_live s" "a AND REMOTE_PAGE_FLAG_MASK = 0"
  shows "cow_inv ord P m (share p a s)"
proof -
  have "slots_ok ord (memregs m) (owned P (share p a s))"
    unfolding owned_share [OF p a] using inv a(1) by (intro slots_ok_move) (simp_all add: cow_inv_def)
  then show ?thesis using inv share_refs [OF _ p(1,2) a] by (simp add: cow_inv_def)
qed

lemma join_ok:
  assumes inv: "cow_inv ord P m s" and p: "p \<in> P" "is_remote_page_free (rp_of s p)" and a: "a \<in> cm_live s"
  shows "cow_inv ord P m (join p a s)"
proof -
  have r: "refs_ok P s" using inv by (simp add: cow_inv_def)
  have "owned P (join p a s) = owned P s" using p(2) refsD [OF r a] by (intro owned_join) simp_all
  then show ?thesis using inv join_refs [OF r p(1) free_not_cow2 [OF p(2)] a] by (simp add: cow_inv_def)
qed

lemma join_facts:
  assumes "a AND REMOTE_PAGE_FLAG_MASK = 0" and "p \<in> P" and "\<not> is_remote_page_cow (rp_of s p)"
  shows "is_remote_page_cow (rp_of (join p a s) p)" and "get_remote_page_cow (rp_of (join p a s) p) = a"
    and "q \<noteq> p \<Longrightarrow> rp_of (join p a s) q = rp_of s q" and "cm_live (join p a s) = cm_live s"
    and "crp_remote_page (cm_store (join p a s) b) = crp_remote_page (cm_store s b)"
    and "holders P (join p a s) b = (if b = a then insert p (holders P s b) else holders P s b)"
    and "val_of (join p a s) q = (if q = p then crp_remote_page (cm_store s a) else val_of s q)"
  using cow_tag_roundtrip [OF assms(1)] assms(2) not_holder [OF assms(3)]
  by (auto simp: join_def holders_simps val_of_def get_rp_val_def)

lemma share_facts:
  assumes "a AND REMOTE_PAGE_FLAG_MASK = 0" and "p \<in> P" and "\<not> is_remote_page_cow (rp_of s p)"
    and "refs_ok P s" and "a \<notin> cm_live s"
  shows "is_remote_page_cow (rp_of (share p a s) p)" and "get_remote_page_cow (rp_of (share p a s) p) = a"
    and "q \<noteq> p \<Longrightarrow> rp_of (share p a s) q = rp_of s q" and "cm_live (share p a s) = insert a (cm_live s)"
    and "crp_remote_page (cm_store (share p a s) b) = (if b = a then rp_of s p else crp_remote_page (cm_store s b))"
    and "holders P (share p a s) b = (if b = a then {p} else holders P s b)"
    and "q \<in> P \<Longrightarrow> val_of (share p a s) q = val_of s q"
proof -
  note t = cow_tag_roundtrip [OF assms(1)]
  show "is_remote_page_cow (rp_of (share p a s) p)" "get_remote_page_cow (rp_of (share p a s) p) = a"
    "q \<noteq> p \<Longrightarrow> rp_of (share p a s) q = rp_of s q" "cm_live (share p a s) = insert a (cm_live s)"
    "crp_remote_page (cm_store (share p a s) b) = (if b = a then rp_of s p else crp_remote_page (cm_store s b))"
    using t by (auto simp: share_def)
  show "holders P (share p a s) b = (if b = a then {p} else holders P s b)"
    using t no_holders [OF assms(4,5)] not_holder [OF assms(3)] assms(2) by (auto simp: share_def holders_simps)
  assume q: "q \<in> P"
  show "val_of (share p a s) q = val_of s q"
  proof (cases "q = p")
    case True
    with t assms(3) show ?thesis by (simp add: val_of_def get_rp_val_def share_def)
  next
    case False
    have "is_remote_page_cow (rp_of s q) \<Longrightarrow> get_remote_page_cow (rp_of s q) \<noteq> a"
      using assms(4,5) q by (auto simp: refs_ok_def)
    with False show ?thesis by (auto simp: val_of_def get_rp_val_def share_def)
  qed
qed

lemma get_ok:
  assumes inv: "cow_inv ord P m s" and k: "kmem_ok kmem"
    and P: "old \<in> P" "new \<in> P" "old \<noteq> new"
    and w: "\<not> is_remote_page_free (rp_of s old)" "is_remote_page_free (rp_of s new)"
    and get: "get_cow_remote_page kmem s old new = (ret, s')"
  shows "ret < 0 \<and> s' = s \<and> \<not> is_remote_page_cow (rp_of s old) \<and> kmem old (cm_live s) = None
    \<or> ret = 0 \<and> cow_inv ord P m s' \<and> paired P s old new s'"
proof -
  have refs: "refs_ok P s" using inv by (simp add: cow_inv_def)
  note nc = free_not_cow2 [OF w(2)]
  consider (cow) "is_remote_page_cow (rp_of s old)"
    | (fail) "\<not> is_remote_page_cow (rp_of s old)" "kmem old (cm_live s) = None"
    | (fresh) a where "\<not> is_remote_page_cow (rp_of s old)" "kmem old (cm_live s) = Some a"
    by (cases "kmem old (cm_live s)") auto
  then show ?thesis
  proof cases
    case cow
    let ?a = "get_remote_page_cow (rp_of s old)"
    have a: "?a \<in> cm_live s" by (rule cow_live [OF inv P(1) cow])
    have f: "?a AND REMOTE_PAGE_FLAG_MASK = 0" using refsD [OF refs a] by simp
    have e: "ret = 0" "s' = join new ?a s" using get cow by (simp_all add: get_cow_cases)
    have "cow_inv ord P m s'" unfolding e by (rule join_ok [OF inv P(2) w(2) a])
    moreover note j = join_facts [OF f P(2) nc]
    have "val_of s old = crp_remote_page (cm_store s ?a)" using cow by (simp add: val_of_def get_rp_val_def)
    with P(3) cow j have "paired P s old new s'" unfolding paired_def e by (simp add: j)
    ultimately show ?thesis using e by simp
  next
    case fail
    with get show ?thesis by (simp add: get_cow_cases ENOMEM_def)
  next
    case fresh
    have a: "a \<notin> cm_live s" "a AND REMOTE_PAGE_FLAG_MASK = 0" using k fresh(2) unfolding kmem_ok_def by blast+
    let ?s = "share old a s"
    have e: "ret = 0" "s' = join new a ?s" using get fresh by (simp_all add: get_cow_cases)
    note sf = share_facts [OF a(2) P(1) fresh(1) refs a(1)]
    have i: "cow_inv ord P m ?s" by (rule share_ok [OF inv P(1) fresh(1) w(1) a])
    have n: "rp_of ?s new = rp_of s new" using sf(3) P(3) by simp
    have nc2: "\<not> is_remote_page_cow (rp_of ?s new)" unfolding n by (rule nc)
    have "cow_inv ord P m s'"
      unfolding e using i P(2) w(2) sf(4) n by (intro join_ok) simp_all
    moreover note j = join_facts [OF a(2) P(2) nc2]
    have "val_of s old = rp_of s old" using fresh(1) by (simp add: val_of_def get_rp_val_def)
    with P fresh(1) a(1) have "paired P s old new s'"
      unfolding paired_def e by (simp add: j sf insert_commute)
    ultimately show ?thesis using e by simp
  qed
qed

section \<open>What the operations on blocks do\<close>

definition rec_of :: "cow_mem \<Rightarrow> gpa_ptr \<Rightarrow> u64" where
  "rec_of s p = get_remote_page_cow (rp_of s p)"

definition is_cow :: "cow_mem \<Rightarrow> gpa_ptr \<Rightarrow> bool" where
  "is_cow s p \<longleftrightarrow> is_remote_page_cow (rp_of s p)"

definition pair_in :: "gpa_ptr set \<Rightarrow> cow_mem \<Rightarrow> cow_mem \<Rightarrow> gpa_ptr \<Rightarrow> gpa_ptr \<Rightarrow> bool" where
  "pair_in P s s' x y \<longleftrightarrow> is_cow s' x \<and> is_cow s' y \<and> rec_of s' y = rec_of s' x \<and> val_of s' y = val_of s x
     \<and> (if is_cow s x then rec_of s' x = rec_of s x
        else rec_of s' x \<notin> cm_live s \<and> holders P s' (rec_of s' x) = {x, y})"

definition all_paired :: "gpa_ptr set \<Rightarrow> cow_mem \<Rightarrow> (gpa_ptr \<times> gpa_ptr) list \<Rightarrow> cow_mem \<Rightarrow> bool" where
  "all_paired P s ps s' \<longleftrightarrow>
     (\<forall>(x, y) \<in> set ps. pair_in P s s' x y)
     \<and> (\<forall>q. q \<notin> fst ` set ps \<union> snd ` set ps \<longrightarrow> rp_of s' q = rp_of s q)
     \<and> (\<forall>q \<in> P. q \<notin> snd ` set ps \<longrightarrow> val_of s' q = val_of s q)
     \<and> cm_live s' = cm_live s \<union> rec_of s' ` {x \<in> fst ` set ps. \<not> is_cow s x}
     \<and> (\<forall>b \<in> cm_live s. b \<notin> rec_of s' ` fst ` set ps \<longrightarrow> holders P s' b = holders P s b)"

definition pairs_ok :: "gpa_ptr set \<Rightarrow> cow_mem \<Rightarrow> (gpa_ptr \<times> gpa_ptr) list \<Rightarrow> bool" where
  "pairs_ok P s ps \<longleftrightarrow> distinct (map fst ps @ map snd ps) \<and> fst ` set ps \<union> snd ` set ps \<subseteq> P
     \<and> (\<forall>(x, y) \<in> set ps. \<not> is_remote_page_free (rp_of s x) \<and> is_remote_page_free (rp_of s y))"

lemma all_pairedI:
  assumes "\<And>x y. (x, y) \<in> set ps \<Longrightarrow> pair_in P s s' x y"
    and "\<And>q. q \<notin> fst ` set ps \<union> snd ` set ps \<Longrightarrow> rp_of s' q = rp_of s q"
    and "\<And>q. q \<in> P \<Longrightarrow> q \<notin> snd ` set ps \<Longrightarrow> val_of s' q = val_of s q"
    and "cm_live s' = cm_live s \<union> rec_of s' ` {x \<in> fst ` set ps. \<not> is_cow s x}"
    and "\<And>b. b \<in> cm_live s \<Longrightarrow> b \<notin> rec_of s' ` fst ` set ps \<Longrightarrow> holders P s' b = holders P s b"
  shows "all_paired P s ps s'"
  unfolding all_paired_def
proof (intro conjI)
  show "\<forall>(x, y) \<in> set ps. pair_in P s s' x y" using assms(1) by auto
  show "\<forall>q. q \<notin> fst ` set ps \<union> snd ` set ps \<longrightarrow> rp_of s' q = rp_of s q" using assms(2) by simp
  show "\<forall>q \<in> P. q \<notin> snd ` set ps \<longrightarrow> val_of s' q = val_of s q" using assms(3) by simp
  show "\<forall>b \<in> cm_live s. b \<notin> rec_of s' ` fst ` set ps \<longrightarrow> holders P s' b = holders P s b" using assms(5) by simp
qed (rule assms(4))

lemma all_pairedD:
  assumes "all_paired P s ps s'"
  shows "(x, y) \<in> set ps \<Longrightarrow> pair_in P s s' x y"
    and "q \<notin> fst ` set ps \<Longrightarrow> q \<notin> snd ` set ps \<Longrightarrow> rp_of s' q = rp_of s q"
    and "q \<in> P \<Longrightarrow> q \<notin> snd ` set ps \<Longrightarrow> val_of s' q = val_of s q"
    and "cm_live s' = cm_live s \<union> rec_of s' ` {x \<in> fst ` set ps. \<not> is_cow s x}"
    and "b \<in> cm_live s \<Longrightarrow> b \<notin> rec_of s' ` fst ` set ps \<Longrightarrow> holders P s' b = holders P s b"
proof -
  note a = assms [unfolded all_paired_def]
  show "(x, y) \<in> set ps \<Longrightarrow> pair_in P s s' x y" using a [THEN conjunct1] by auto
  show "q \<notin> fst ` set ps \<Longrightarrow> q \<notin> snd ` set ps \<Longrightarrow> rp_of s' q = rp_of s q"
    using a [THEN conjunct2, THEN conjunct1] by simp
  show "q \<in> P \<Longrightarrow> q \<notin> snd ` set ps \<Longrightarrow> val_of s' q = val_of s q"
    using a [THEN conjunct2, THEN conjunct2, THEN conjunct1] by simp
  show "cm_live s' = cm_live s \<union> rec_of s' ` {x \<in> fst ` set ps. \<not> is_cow s x}"
    by (rule a [THEN conjunct2, THEN conjunct2, THEN conjunct2, THEN conjunct1])
  show "b \<in> cm_live s \<Longrightarrow> b \<notin> rec_of s' ` fst ` set ps \<Longrightarrow> holders P s' b = holders P s b"
    using a [THEN conjunct2, THEN conjunct2, THEN conjunct2, THEN conjunct2] by simp
qed

lemma all_paired_Nil: "all_paired P s [] s' \<longleftrightarrow> (\<forall>q. rp_of s' q = rp_of s q) \<and> (\<forall>q \<in> P. val_of s' q = val_of s q)
    \<and> cm_live s' = cm_live s \<and> (\<forall>b \<in> cm_live s. holders P s' b = holders P s b)"
  by (simp add: all_paired_def)

lemma all_paired_Cons:
  assumes one: "paired P s x y s1" and rest: "all_paired P s1 ps s'" and ok: "pairs_ok P s ((x, y) # ps)"
  shows "all_paired P s ((x, y) # ps) s'"
proof -
  have d: "x \<notin> fst ` set ps" "x \<notin> snd ` set ps" "y \<notin> fst ` set ps" "y \<notin> snd ` set ps" "x \<noteq> y" "x \<in> P" "y \<in> P"
    using ok by (auto simp: pairs_ok_def)
  have o: "is_cow s1 x" "is_cow s1 y" "rec_of s1 y = rec_of s1 x" "val_of s1 y = val_of s x"
    and oq: "\<And>q. q \<noteq> x \<Longrightarrow> q \<noteq> y \<Longrightarrow> rp_of s1 q = rp_of s q"
    and ov: "\<And>q. q \<in> P \<Longrightarrow> q \<noteq> y \<Longrightarrow> val_of s1 q = val_of s q"
    and oc: "is_cow s x \<Longrightarrow> cm_live s1 = cm_live s \<and> rec_of s1 x = rec_of s x"
    and on: "\<not> is_cow s x \<Longrightarrow> rec_of s1 x \<notin> cm_live s \<and> cm_live s1 = insert (rec_of s1 x) (cm_live s)
        \<and> holders P s1 (rec_of s1 x) = {x, y}"
    and oh: "\<And>b. b \<in> cm_live s \<Longrightarrow> b \<noteq> rec_of s1 x \<Longrightarrow> holders P s1 b = holders P s b"
    using one by (auto simp: paired_def is_cow_def rec_of_def split: if_splits)
  note r = all_pairedD [OF rest]
  have rx: "rp_of s' x = rp_of s1 x" "rp_of s' y = rp_of s1 y" using r(2) d by blast+
  have rec: "rec_of s' x = rec_of s1 x" "rec_of s' y = rec_of s1 y" by (simp_all add: rec_of_def rx)
  have same: "q \<in> fst ` set ps \<Longrightarrow> is_cow s1 q = is_cow s q \<and> rec_of s1 q = rec_of s q" for q
    using oq [of q] d by (simp add: is_cow_def rec_of_def) (metis)
  have sub: "cm_live s \<subseteq> cm_live s1" using oc on by (cases "is_cow s x") auto
  have live: "cm_live s1 = cm_live s \<union> (if is_cow s x then {} else {rec_of s1 x})" using oc on by auto
  show ?thesis
  proof (rule all_pairedI)
    fix a b assume ab: "(a, b) \<in> set ((x, y) # ps)"
    show "pair_in P s s' a b"
    proof (cases "(a, b) = (x, y)")
      case True
      have "holders P s' (rec_of s1 x) = {x, y}" if c: "\<not> is_cow s x"
      proof -
        have "rec_of s1 x \<notin> rec_of s' ` fst ` set ps"
        proof
          assume "rec_of s1 x \<in> rec_of s' ` fst ` set ps"
          then obtain a b where p: "(a, b) \<in> set ps" "rec_of s' a = rec_of s1 x" by force
          have l: "rec_of s1 x \<in> cm_live s1" using on [OF c] by simp
          show False
          proof (cases "is_cow s1 a")
            case True
            with r(1) [OF p(1)] p(2) have "rec_of s1 a = rec_of s1 x" by (simp add: pair_in_def)
            moreover have "a \<in> fst ` set ps" using p(1) by force
            then have a: "a \<in> P" "a \<noteq> x" "a \<noteq> y" using ok d by (auto simp: pairs_ok_def)
            ultimately have "a \<in> holders P s1 (rec_of s1 x)" using True by (simp add: holders_def is_cow_def rec_of_def)
            with on [OF c] a show False by simp
          next
            case False
            with r(1) [OF p(1)] p(2) l show False by (simp add: pair_in_def)
          qed
        qed
        with r(5) on [OF c] show ?thesis by simp
      qed
      moreover have "val_of s' y = val_of s1 y" using r(3) d by blast
      moreover have "is_cow s' x = is_cow s1 x" "is_cow s' y = is_cow s1 y" by (simp_all add: is_cow_def rx)
      ultimately show ?thesis using True o oc on rec by (simp add: pair_in_def)
    next
      case False
      with ab have p: "(a, b) \<in> set ps" by auto
      then have a: "a \<in> fst ` set ps" by force
      then have "a \<in> P" "a \<noteq> y" using ok d by (auto simp: pairs_ok_def)
      then have v: "val_of s1 a = val_of s a" using ov by blast
      show ?thesis
        using same [OF a] v r(1) [OF p] sub unfolding pair_in_def by (simp split: if_splits) blast
    qed
  next
    fix q assume "q \<notin> fst ` set ((x, y) # ps) \<union> snd ` set ((x, y) # ps)"
    then show "rp_of s' q = rp_of s q" using r(2) [of q] oq [of q] by simp
  next
    fix q assume "q \<in> P" "q \<notin> snd ` set ((x, y) # ps)"
    then show "val_of s' q = val_of s q" using r(3) [of q] ov [of q] by simp
  next
    have e: "{a \<in> fst ` set ps. \<not> is_cow s1 a} = {a \<in> fst ` set ps. \<not> is_cow s a}" using same by blast
    have i: "{a \<in> fst ` set ((x, y) # ps). \<not> is_cow s a} =
        (if is_cow s x then {} else {x}) \<union> {a \<in> fst ` set ps. \<not> is_cow s a}" by auto
    show "cm_live s' = cm_live s \<union> rec_of s' ` {a \<in> fst ` set ((x, y) # ps). \<not> is_cow s a}"
      unfolding i r(4) live e using rec by simp
  next
    fix b assume b: "b \<in> cm_live s" "b \<notin> rec_of s' ` fst ` set ((x, y) # ps)"
    then have "b \<noteq> rec_of s1 x" "b \<notin> rec_of s' ` fst ` set ps" using rec by auto
    then show "holders P s' b = holders P s b" using r(5) [of b] oh [of b] b(1) sub by auto
  qed
qed

lemma pairs_ok_Cons:
  assumes ok: "pairs_ok P s ((x, y) # ps)" and one: "\<forall>q. q \<noteq> x \<longrightarrow> q \<noteq> y \<longrightarrow> rp_of s1 q = rp_of s q"
  shows "pairs_ok P s1 ps"
  unfolding pairs_ok_def
proof (intro conjI ballI)
  show "distinct (map fst ps @ map snd ps)" using ok by (auto simp: pairs_ok_def)
  show "fst ` set ps \<union> snd ` set ps \<subseteq> P" using ok by (auto simp: pairs_ok_def)
  fix z assume z: "z \<in> set ps"
  obtain a b where ab: "z = (a, b)" by (cases z)
  have "a \<in> fst ` set ps" "b \<in> snd ` set ps" using z ab by force+
  then have "a \<noteq> x" "a \<noteq> y" "b \<noteq> x" "b \<noteq> y" using ok by (auto simp: pairs_ok_def)
  then have "rp_of s1 a = rp_of s a" "rp_of s1 b = rp_of s b" using one by auto
  with ok z ab show "case z of (x, y) \<Rightarrow> \<not> is_remote_page_free (rp_of s1 x) \<and> is_remote_page_free (rp_of s1 y)"
    by (auto simp: pairs_ok_def)
qed

lemma pairs_ok_take:
  assumes "pairs_ok P s ps"
  shows "pairs_ok P s (take k ps)"
proof -
  have sub: "set (take k ps) \<subseteq> set ps" by (rule set_take_subset)
  have d: "distinct (map fst ps)" "distinct (map snd ps)" "fst ` set ps \<inter> snd ` set ps = {}"
    using assms by (simp_all add: pairs_ok_def)
  have f: "fst ` set (take k ps) \<subseteq> fst ` set ps" "snd ` set (take k ps) \<subseteq> snd ` set ps"
    using sub by (simp_all add: image_mono)
  then have "fst ` set (take k ps) \<inter> snd ` set (take k ps) = {}" using d(3) by fast
  moreover have "distinct (map fst (take k ps))" "distinct (map snd (take k ps))"
    using d(1,2) by (simp_all add: take_map [symmetric])
  ultimately have "distinct (map fst (take k ps) @ map snd (take k ps))" by simp
  moreover have "fst ` set (take k ps) \<union> snd ` set (take k ps) \<subseteq> P"
    using assms f unfolding pairs_ok_def by (meson Un_least Un_upper1 Un_upper2 order_trans)
  moreover have "\<forall>(x, y) \<in> set (take k ps). \<not> is_remote_page_free (rp_of s x) \<and> is_remote_page_free (rp_of s y)"
    using assms sub unfolding pairs_ok_def by blast
  ultimately show ?thesis unfolding pairs_ok_def by simp
qed

lemma get_cow_loop_ok:
  assumes "cow_inv ord P m s" and "kmem_ok kmem" and "pairs_ok P s rest"
    and "get_cow_loop kmem ps rest idx s = (ret, s')"
  shows "ret = 0 \<and> cow_inv ord P m s' \<and> all_paired P s rest s'
    \<or> ret < 0 \<and> (\<exists>k s1. k < length rest \<and> cow_inv ord P m s1 \<and> all_paired P s (take k rest) s1
        \<and> \<not> is_cow s (fst (rest ! k)) \<and> kmem (fst (rest ! k)) (cm_live s1) = None
        \<and> s' = error_get_cow_remote_page_block s1 ps (idx + k))"
  using assms
proof (induction rest arbitrary: s idx)
  case Nil
  then show ?case by (simp add: all_paired_Nil)
next
  case (Cons z rest)
  obtain x y where z: "z = (x, y)" by (cases z)
  obtain r s1 where g: "get_cow_remote_page kmem s x y = (r, s1)" by (metis surj_pair)
  have w: "x \<in> P" "y \<in> P" "x \<noteq> y" "\<not> is_remote_page_free (rp_of s x)" "is_remote_page_free (rp_of s y)"
    using Cons.prems(3) unfolding z by (auto simp: pairs_ok_def)
  consider (fail) "r < 0" "s1 = s" "\<not> is_cow s x" "kmem x (cm_live s) = None" | (ok) "r = 0" "cow_inv ord P m s1" "paired P s x y s1"
    using get_ok [OF Cons.prems(1,2) w g] by (auto simp: is_cow_def)
  then show ?case
  proof cases
    case fail
    with Cons.prems(4) g have "ret = r" "s' = error_get_cow_remote_page_block s ps idx" by (simp_all add: z)
    then have "ret < 0 \<and> 0 < length (z # rest) \<and> cow_inv ord P m s \<and> all_paired P s (take 0 (z # rest)) s
        \<and> \<not> is_cow s (fst ((z # rest) ! 0)) \<and> kmem (fst ((z # rest) ! 0)) (cm_live s) = None \<and> s' = error_get_cow_remote_page_block s ps (idx + 0)"
      using fail Cons.prems(1) z by (simp add: all_paired_Nil)
    then show ?thesis by blast
  next
    case ok
    have one: "\<forall>q. q \<noteq> x \<longrightarrow> q \<noteq> y \<longrightarrow> rp_of s1 q = rp_of s q" using ok(3) by (simp add: paired_def)
    have rok: "pairs_ok P s1 rest" using pairs_ok_Cons [OF _ one] Cons.prems(3) z by blast
    have l: "get_cow_loop kmem ps rest (idx + 1) s1 = (ret, s')" using Cons.prems(4) g ok(1) by (simp add: z)
    from Cons.IH [OF ok(2) Cons.prems(2) rok l] show ?thesis
    proof (elim disjE conjE exE)
      assume "ret = 0" "cow_inv ord P m s'" "all_paired P s1 rest s'"
      with all_paired_Cons [OF ok(3)] Cons.prems(3) z show ?thesis by blast
    next
      fix k t assume k: "ret < 0" "k < length rest" "cow_inv ord P m t" "all_paired P s1 (take k rest) t"
        "\<not> is_cow s1 (fst (rest ! k))" "kmem (fst (rest ! k)) (cm_live t) = None" "s' = error_get_cow_remote_page_block t ps (idx + 1 + k)"
      have "pairs_ok P s ((x, y) # take k rest)"
        using pairs_ok_take [OF Cons.prems(3), of "Suc k"] z by simp
      from all_paired_Cons [OF ok(3) k(4) this] have "all_paired P s (take (Suc k) (z # rest)) t" by (simp add: z)
      moreover have "fst (rest ! k) \<in> fst ` set rest" using k(2) by simp
      then have "fst (rest ! k) \<noteq> x" "fst (rest ! k) \<noteq> y" using Cons.prems(3) z by (auto simp: pairs_ok_def)
      then have "is_cow s1 (fst (rest ! k)) = is_cow s (fst (rest ! k))" using one by (simp add: is_cow_def)
      ultimately have "ret < 0 \<and> Suc k < length (z # rest) \<and> cow_inv ord P m t
          \<and> all_paired P s (take (Suc k) (z # rest)) t \<and> \<not> is_cow s (fst ((z # rest) ! Suc k))
          \<and> kmem (fst ((z # rest) ! Suc k)) (cm_live t) = None
          \<and> s' = error_get_cow_remote_page_block t ps (idx + Suc k)"
        using k by simp
      then show ?thesis by blast
    qed
  qed
qed

lemma undo_pair:
  assumes inv: "cow_inv ord P m s1" and paired: "all_paired P s ((x, y) # ps) s1"
    and ok: "pairs_ok P s ((x, y) # ps)" and unshared: "\<not> is_cow s x"
  shows "cow_inv ord P m (snd (put_cow_remote_page2 (snd (put_cow_remote_page2 s1 y)) x))
    \<and> all_paired P s ps (snd (put_cow_remote_page2 (snd (put_cow_remote_page2 s1 y)) x))"
proof -
  have d: "x \<notin> fst ` set ps" "x \<notin> snd ` set ps" "y \<notin> fst ` set ps" "y \<notin> snd ` set ps" "x \<noteq> y" "x \<in> P" "y \<in> P"
    "is_remote_page_free (rp_of s y)"
    using ok by (auto simp: pairs_ok_def)
  note r = all_pairedD [OF paired]
  let ?a = "rec_of s1 x"
  have xy: "is_cow s1 x" "is_cow s1 y" "rec_of s1 y = ?a" "?a \<notin> cm_live s" "holders P s1 ?a = {x, y}"
    "val_of s1 x = val_of s x"
    using r(1) [of x y] r(3) [of x] unshared d by (simp_all add: pair_in_def)
  obtain b1 s2 where p1: "put_cow_remote_page2 s1 y = (b1, s2)" by (metis surj_pair)
  have i1: "cow_inv ord P m s2" and q1: "dropped P s1 y b1 s2"
    using put_ok [OF inv d(7) _ p1] xy(2) by (simp_all add: is_cow_def)
  have b1: "\<not> b1" using q1 xy(3,5) d(5) by (auto simp: dropped_def rec_of_def)
  have s2: "rp_of s2 q = (if q = y then FREE_REMOTE_PAGE_VAL else rp_of s1 q)" "cm_live s2 = cm_live s1"
    "crp_remote_page (cm_store s2 b) = crp_remote_page (cm_store s1 b)" "holders P s2 b = holders P s1 b - {y}" for q b
    using q1 b1 by (simp_all add: dropped_def Let_def)
  have x2: "rp_of s2 x = rp_of s1 x" using d(5) by (simp add: s2)
  obtain b2 s3 where p2: "put_cow_remote_page2 s2 x = (b2, s3)" by (metis surj_pair)
  have i2: "cow_inv ord P m s3" and q2: "dropped P s2 x b2 s3"
    using put_ok [OF i1 d(6) _ p2] xy(1) x2 by (simp_all add: is_cow_def)
  have r2: "rec_of s2 x = ?a" by (simp add: rec_of_def x2)
  have b2: "b2"
  proof -
    have "holders P s2 ?a = {x}" using xy(5) s2(4) [of ?a] d(5) by auto
    with q2 r2 show ?thesis by (simp add: dropped_def Let_def rec_of_def)
  qed
  have "val_of s2 x = val_of s1 x" by (simp add: val_of_def get_rp_val_def x2 s2(3))
  also have "\<dots> = val_of s x" by (rule xy(6))
  also have "\<dots> = rp_of s x" using unshared by (simp add: val_of_def get_rp_val_def is_cow_def)
  finally have v: "val_of s2 x = rp_of s x" .
  have s3: "rp_of s3 q = (if q = y then FREE_REMOTE_PAGE_VAL else if q = x then rp_of s x else rp_of s1 q)"
    "cm_live s3 = cm_live s1 - {?a}" "crp_remote_page (cm_store s3 b) = crp_remote_page (cm_store s1 b)"
    "holders P s3 b = holders P s1 b - {x, y}" for q b
    using q2 b2 r2 v s2 d(5) by (auto simp: dropped_def Let_def rec_of_def)
  have rest: "a \<noteq> x" "a \<noteq> y" "b \<noteq> x" "b \<noteq> y" if "(a, b) \<in> set ps" for a b
  proof -
    have "a \<in> fst ` set ps" "b \<in> snd ` set ps" using that by force+
    with d show "a \<noteq> x" "a \<noteq> y" "b \<noteq> x" "b \<noteq> y" by metis+
  qed
  have same: "is_cow s3 q = is_cow s1 q" "rec_of s3 q = rec_of s1 q" "val_of s3 q = val_of s1 q"
    if "q \<noteq> x" "q \<noteq> y" for q
    using that by (simp_all add: is_cow_def rec_of_def val_of_def get_rp_val_def s3)
  have fresh: "rec_of s1 a \<noteq> ?a" if "a \<in> fst ` set ps" "\<not> is_cow s a" for a
  proof -
    from that obtain b where "(a, b) \<in> set ps" by force
    with r(1) [of a b] that(2) have "holders P s1 (rec_of s1 a) = {a, b}" by (simp add: pair_in_def)
    with xy(5) rest(1,2) [OF \<open>(a, b) \<in> set ps\<close>] show ?thesis by auto
  qed
  have nh: "x \<notin> holders P s1 b" "y \<notin> holders P s1 b" if "b \<noteq> ?a" for b
    using that xy(3) by (auto simp: holders_def rec_of_def)
  have "all_paired P s ps s3"
  proof (rule all_pairedI)
    fix a b assume ab: "(a, b) \<in> set ps"
    have af: "a \<in> fst ` set ps" using ab by force
    have p: "pair_in P s s1 a b" using r(1) [of a b] ab by simp
    have "holders P s3 (rec_of s1 a) = {a, b}" if "\<not> is_cow s a"
      using p that rest [OF ab] unfolding s3(4) by (simp add: pair_in_def)
    with p show "pair_in P s s3 a b"
      using same [OF rest(1,2) [OF ab]] same [OF rest(3,4) [OF ab]] by (simp add: pair_in_def)
  next
    fix q assume "q \<notin> fst ` set ps \<union> snd ` set ps"
    then show "rp_of s3 q = rp_of s q"
      using r(2) [of q] d(8) by (simp add: s3 is_remote_page_free_def)
  next
    fix q assume q: "q \<in> P" "q \<notin> snd ` set ps"
    show "val_of s3 q = val_of s q"
    proof (cases "q = x \<or> q = y")
      case True
      then have "rp_of s3 q = rp_of s q" using d(8) by (auto simp: s3 is_remote_page_free_def)
      moreover have "\<not> is_cow s q" using True unshared d(8) free_not_cow2 by (auto simp: is_cow_def)
      ultimately show ?thesis by (simp add: val_of_def get_rp_val_def is_cow_def)
    next
      case False
      with same(3) [of q] r(3) [of q] q show ?thesis by simp
    qed
  next
    have "rec_of s1 ` {q \<in> fst ` set ((x, y) # ps). \<not> is_cow s q} = insert ?a (rec_of s1 ` {q \<in> fst ` set ps. \<not> is_cow s q})"
      using unshared by auto
    moreover have "rec_of s1 ` {q \<in> fst ` set ps. \<not> is_cow s q} = rec_of s3 ` {q \<in> fst ` set ps. \<not> is_cow s q}"
    proof (rule image_cong [OF refl])
      fix q assume "q \<in> {q \<in> fst ` set ps. \<not> is_cow s q}"
      then have "q \<in> fst ` set ps" by simp
      then have "q \<noteq> x" "q \<noteq> y" using d(1,3) by metis+
      then show "rec_of s1 q = rec_of s3 q" using same(2) by simp
    qed
    moreover have "?a \<notin> rec_of s1 ` {q \<in> fst ` set ps. \<not> is_cow s q}" using fresh by force
    ultimately show "cm_live s3 = cm_live s \<union> rec_of s3 ` {q \<in> fst ` set ps. \<not> is_cow s q}"
      unfolding s3(2) r(4) using xy(4) by simp
  next
    fix b assume b: "b \<in> cm_live s" "b \<notin> rec_of s3 ` fst ` set ps"
    have ne: "b \<noteq> ?a" using b(1) xy(4) by metis
    have "rec_of s3 ` fst ` set ps = rec_of s1 ` fst ` set ps"
    proof (rule image_cong [OF refl])
      fix q assume "q \<in> fst ` set ps"
      then have "q \<noteq> x" "q \<noteq> y" using d(1,3) by metis+
      then show "rec_of s3 q = rec_of s1 q" by (rule same(2))
    qed
    with b(2) ne have "b \<notin> rec_of s1 ` fst ` set ((x, y) # ps)" by simp
    with r(5) b(1) have "holders P s1 b = holders P s b" by blast
    with nh [OF ne] show "holders P s3 b = holders P s b" unfolding s3(4) by auto
  qed
  with i2 show ?thesis by (simp add: p1 p2)
qed

abbreviation put_pair :: "cow_mem \<Rightarrow> gpa_ptr \<times> gpa_ptr \<Rightarrow> cow_mem" where
  "put_pair \<equiv> \<lambda>s (old, new). snd (put_cow_remote_page2 (snd (put_cow_remote_page2 s new)) old)"

lemma rollback:
  assumes "cow_inv ord P m s1" and "all_paired P s ps s1" and "pairs_ok P s ps" and "\<forall>x \<in> fst ` set ps. \<not> is_cow s x"
  shows "cow_inv ord P m (foldl put_pair s1 ps) \<and> all_paired P s [] (foldl put_pair s1 ps)"
  using assms
proof (induction ps arbitrary: s1)
  case Nil
  then show ?case by simp
next
  case (Cons z ps)
  obtain x y where z: "z = (x, y)" by (cases z)
  have "\<not> is_cow s x" using Cons.prems(4) z by simp
  note u = undo_pair [OF Cons.prems(1) Cons.prems(2,3) [unfolded z] this]
  have "pairs_ok P s ps" using Cons.prems(3) z by (auto simp: pairs_ok_def)
  with Cons.IH [OF u [THEN conjunct1] u [THEN conjunct2]] Cons.prems(4) show ?case by (simp add: z)
qed

lemma old_new_gpas_simps [simp]:
  "length (old_new_gpas n x y) = n" "i < n \<Longrightarrow> old_new_gpas n x y ! i = (x + i, y + i)"
  "fst ` set (old_new_gpas n x y) = {x ..< x + n}" "snd ` set (old_new_gpas n x y) = {y ..< y + n}"
  "map fst (old_new_gpas n x y) = [x ..< x + n]" "map snd (old_new_gpas n x y) = [y ..< y + n]"
proof -
  have m: "map (\<lambda>i. a + i) [0 ..< n] = [a ..< a + n]" for a by (rule nth_equalityI) simp_all
  show f: "map fst (old_new_gpas n x y) = [x ..< x + n]" "map snd (old_new_gpas n x y) = [y ..< y + n]"
    by (simp_all add: old_new_gpas_def o_def m)
  show "fst ` set (old_new_gpas n x y) = {x ..< x + n}" "snd ` set (old_new_gpas n x y) = {y ..< y + n}"
    using arg_cong [OF f(1), of set] arg_cong [OF f(2), of set] by simp_all
qed (simp_all add: old_new_gpas_def)

text \<open>Two blocks of descriptors: every old one has a remote page, no new one has.\<close>

definition fork_pre :: "gpa_ptr set \<Rightarrow> cow_mem \<Rightarrow> gpa_ptr \<Rightarrow> gpa_ptr \<Rightarrow> bool" where
  "fork_pre P s old new \<longleftrightarrow>
     (let n = num_subblock_in_block (cm_gpas s old) in
      {old ..< old + n} \<inter> {new ..< new + n} = {} \<and> {old ..< old + n} \<union> {new ..< new + n} \<subseteq> P
      \<and> (\<forall>i < n. \<not> is_remote_page_free (rp_of s (old + i)) \<and> is_remote_page_free (rp_of s (new + i))))"

lemma fork_pairs:
  assumes "fork_pre P s old new"
  shows "pairs_ok P s (old_new_gpas (num_subblock_in_block (cm_gpas s old)) old new)"
proof -
  let ?n = "num_subblock_in_block (cm_gpas s old)"
  have p: "{old ..< old + ?n} \<inter> {new ..< new + ?n} = {}" "{old ..< old + ?n} \<union> {new ..< new + ?n} \<subseteq> P"
    "\<And>i. i < ?n \<Longrightarrow> \<not> is_remote_page_free (rp_of s (old + i)) \<and> is_remote_page_free (rp_of s (new + i))"
    using assms by (simp_all add: fork_pre_def Let_def)
  have "\<forall>(x, y) \<in> set (old_new_gpas ?n old new). \<not> is_remote_page_free (rp_of s x) \<and> is_remote_page_free (rp_of s y)"
    using p(3) by (auto simp: old_new_gpas_def)
  moreover have "distinct (map fst (old_new_gpas ?n old new) @ map snd (old_new_gpas ?n old new))"
    using p(1) by (simp only: old_new_gpas_simps distinct_append distinct_upt set_upt simp_thms)
  ultimately show ?thesis using p(2) unfolding pairs_ok_def by (simp only: old_new_gpas_simps simp_thms)
qed

lemma get_block_ok:
  fixes s
  defines "ps \<equiv> \<lambda>old new. old_new_gpas (num_subblock_in_block (cm_gpas s old)) old new"
  assumes "cow_inv ord P m s" and "kmem_ok kmem" and "fork_pre P s old new"
    and "get_cow_remote_page_block kmem s old new = (ret, s')"
  shows "ret = 0 \<and> cow_inv ord P m s' \<and> all_paired P s (ps old new) s'
    \<or> ret < 0 \<and> (\<exists>k s1. k < num_subblock_in_block (cm_gpas s old) \<and> cow_inv ord P m s1
        \<and> all_paired P s (take k (ps old new)) s1 \<and> \<not> is_cow s (old + k)
        \<and> kmem (old + k) (cm_live s1) = None \<and> s' = foldl put_pair s1 (take k (ps old new)))"
  using get_cow_loop_ok [OF assms(2,3) fork_pairs [OF assms(4)]] assms(5)
  by (fastforce simp: get_cow_remote_page_block_def ps_def error_get_cow_remote_page_block_def Let_def)

lemma get_block_unshared:
  assumes "cow_inv ord P m s" and "kmem_ok kmem" and "fork_pre P s old new"
    and "get_cow_remote_page_block kmem s old new = (ret, s')" and "ret < 0"
    and "\<forall>i < num_subblock_in_block (cm_gpas s old). \<not> is_cow s (old + i)"
  shows "cow_inv ord P m s' \<and> all_paired P s [] s'"
proof -
  let ?n = "num_subblock_in_block (cm_gpas s old)"
  from get_block_ok [OF assms(1-4)] assms(5) obtain k s1 where k: "k < ?n" "cow_inv ord P m s1"
    "all_paired P s (take k (old_new_gpas ?n old new)) s1" "s' = foldl put_pair s1 (take k (old_new_gpas ?n old new))"
    by auto
  have "\<forall>x \<in> fst ` set (old_new_gpas ?n old new). \<not> is_cow s x"
    using assms(6) by (auto simp: le_iff_add)
  then have "\<forall>x \<in> fst ` set (take k (old_new_gpas ?n old new)). \<not> is_cow s x"
    by (meson image_mono set_take_subset subsetD)
  with rollback [OF k(2,3) pairs_ok_take [OF fork_pairs [OF assms(3)]]] k(4) show ?thesis by simp
qed

text \<open>
  A failure after the first pair, when the first old page was shared already: the old descriptor is
  left without its remote page.
\<close>

lemma get_block_shared_loses:
  assumes inv: "cow_inv ord P m s" and k: "kmem_ok kmem" and pre: "fork_pre P s old new"
    and n: "num_subblock_in_block (cm_gpas s old) > 1" and z: "z \<in> P" "z \<noteq> old" "is_cow s z" "rec_of s z = rec_of s old"
    and shared: "is_cow s old" "\<not> is_cow s (old + 1)" and fail: "\<And>L. kmem (old + 1) L = None"
  shows "\<exists>s'. get_cow_remote_page_block kmem s old new = (- ENOMEM, s') \<and> rp_of s' old = FREE_REMOTE_PAGE_VAL
    \<and> cow_inv ord P m s'"
proof -
  let ?n = "num_subblock_in_block (cm_gpas s old)"
  let ?ps = "old_new_gpas ?n old new"
  have ps: "\<exists>rest. ?ps = (old, new) # (old + 1, new + 1) # rest"
  proof -
    have "[0 ..< ?n] = 0 # 1 # [2 ..< ?n]" using n by (simp add: upt_conv_Cons numeral_2_eq_2)
    then show ?thesis by (simp add: old_new_gpas_def)
  qed
  then obtain rest where ps: "?ps = (old, new) # (old + 1, new + 1) # rest" by blast
  have P: "pairs_ok P s ((old, new) # (old + 1, new + 1) # rest)" using fork_pairs [OF pre] ps by simp
  then have w: "old \<in> P" "new \<in> P" "old \<noteq> new" "old + 1 \<noteq> new" "\<not> is_remote_page_free (rp_of s old)" "is_remote_page_free (rp_of s new)"
    by (auto simp: pairs_ok_def)
  obtain r s1 where g: "get_cow_remote_page kmem s old new = (r, s1)" by (metis surj_pair)
  have ok: "r = 0" "cow_inv ord P m s1" "paired P s old new s1"
    using get_ok [OF inv k w(1-3,5,6) g] shared(1) by (auto simp: is_cow_def)
  have rp1: "rp_of s1 q = rp_of s q" if "q \<noteq> old" "q \<noteq> new" for q using ok(3) that by (simp add: paired_def)
  have nc: "\<not> is_remote_page_cow (rp_of s1 (old + 1))" using rp1 [of "old + 1"] w(4) shared(2) by (simp add: is_cow_def)
  have g2: "get_cow_remote_page kmem s1 (old + 1) (new + 1) = (- ENOMEM, s1)"
    using nc fail by (simp add: get_cow_cases)
  let ?s = "put_pair s1 (old, new)"
  have e: "get_cow_remote_page_block kmem s old new = (- ENOMEM, ?s)"
    unfolding get_cow_remote_page_block_def Let_def ps
    using g g2 ok(1) by (simp add: error_get_cow_remote_page_block_def ENOMEM_def)
  have zn: "z \<noteq> new" using z(3) free_not_cow2 [OF w(6)] by (auto simp: is_cow_def)
  have c1: "is_cow s1 old" "is_cow s1 new" "rec_of s1 new = rec_of s1 old" "rec_of s1 old = rec_of s old"
    using ok(3) shared(1) by (auto simp: paired_def is_cow_def rec_of_def)
  have h1: "{old, new, z} \<subseteq> holders P s1 (rec_of s1 old)"
    using w(1,2) z rp1 [OF z(2) zn] c1 by (auto simp: holders_def is_cow_def rec_of_def)
  obtain b1 s2 where p1: "put_cow_remote_page2 s1 new = (b1, s2)" by (metis surj_pair)
  have i2: "cow_inv ord P m s2" and q1: "dropped P s1 new b1 s2"
    using put_ok [OF ok(2) w(2) _ p1] c1(2) by (simp_all add: is_cow_def)
  have old2: "rp_of s2 old = rp_of s1 old" and h2: "holders P s2 b = holders P s1 b - {new}" for b
    using q1 w(3) by (simp_all add: dropped_def Let_def)
  obtain b2 s3 where p2: "put_cow_remote_page2 s2 old = (b2, s3)" by (metis surj_pair)
  have i3: "cow_inv ord P m s3" and q2: "dropped P s2 old b2 s3"
    using put_ok [OF i2 w(1) _ p2] c1(1) old2 by (simp_all add: is_cow_def)
  have "\<not> b2"
  proof
    assume b2
    with q2 have "holders P s2 (rec_of s1 old) = {old}" by (simp add: dropped_def Let_def rec_of_def old2)
    then have "holders P s1 (rec_of s1 old) - {new} = {old}" using h2 by simp
    with h1 zn z(2) show False by blast
  qed
  then have "rp_of s3 old = FREE_REMOTE_PAGE_VAL" using q2 by (simp add: dropped_def Let_def)
  with e i3 p1 p2 show ?thesis by simp
qed

section \<open>Giving pages back\<close>

lemma slots_ok_drop:
  assumes "slots_ok ord t own" and "own x = Some v" and "used_slots t' = used_slots t - {word_slot ord v}"
    and "v = slot_word ord (word_slot ord v)"
  shows "slots_ok ord t' (own(x := None))"
  unfolding slots_ok_def
proof (intro conjI allI impI)
  fix y w assume y: "(own(x := None)) y = Some w"
  then have yx: "y \<noteq> x" "own y = Some w" by (auto split: if_splits)
  with assms(1) obtain k where k: "k \<in> used_slots t" "w = slot_word ord k" unfolding slots_ok_def by blast
  have "k \<noteq> word_slot ord v"
  proof
    assume "k = word_slot ord v"
    with k(2) assms(4) have "own y = Some v" using yx(2) by simp
    with assms(1,2) yx(1) show False unfolding slots_ok_def by blast
  qed
  with k assms(3) show "\<exists>k \<in> used_slots t'. w = slot_word ord k" by auto
next
  fix y z w assume "(own(x := None)) y = Some w" "(own(x := None)) z = Some w"
  then have "own y = Some w" "own z = Some w" by (auto split: if_splits)
  with assms(1) show "y = z" unfolding slots_ok_def by blast
qed

lemma free_owned:
  assumes inv: "cow_inv ord P m s" and p: "p \<in> P" "\<not> is_remote_page_cow (rp_of s p)" "\<not> is_remote_page_free (rp_of s p)"
  shows "\<exists>m'. free_remote_page4 (cm_store s) m (cm_gpas s) p = Some (m', set_rp (cm_gpas s) p FREE_REMOTE_PAGE_VAL)
    \<and> cow_inv ord P m' (set_rp_of p FREE_REMOTE_PAGE_VAL s)
    \<and> used_slots (memregs m') = used_slots (memregs m) - {word_slot ord (rp_of s p)}"
proof -
  have own: "owned P s (Desc p) = Some (rp_of s p)" using p by simp
  note w = slots_word [OF inv own]
  have mrs: "mrs_ok ord m" and refs: "refs_ok P s" and slots: "slots_ok ord (memregs m) (owned P s)"
    using inv by (simp_all add: cow_inv_def)
  have pages: "pages_ok ord (memregs m) (cm_gpas s) {p}"
    using w by (auto simp: pages_ok_def rp_of_def inj_on_def)
  have pg: "has_page (cm_gpas s) p" using p(3) by (simp add: rp_of_def)
  from free_remote_page4_spec [OF mrs pages _ pg, of "cm_store s"] obtain m' where
    m': "free_remote_page4 (cm_store s) m (cm_gpas s) p = Some (m', set_rp (cm_gpas s) p FREE_REMOTE_PAGE_VAL)"
    "mrs_ok ord m'" "used_slots (memregs m') = used_slots (memregs m) - {word_slot ord (rp_of s p)}"
    by (auto simp: rp_of_def)
  have "refs_ok P (set_rp_of p FREE_REMOTE_PAGE_VAL s)"
    using refs p(1) not_holder [OF p(2)] by (auto simp: refs_ok_def holders_simps)
  moreover have "owned P (set_rp_of p FREE_REMOTE_PAGE_VAL s) = (owned P s)(Desc p := None)"
  proof
    fix x
    show "owned P (set_rp_of p FREE_REMOTE_PAGE_VAL s) x = ((owned P s)(Desc p := None)) x"
      by (cases x) (auto simp: is_remote_page_free_def)
  qed
  with slots_ok_drop [OF slots own m'(3)] w
  have "slots_ok ord (memregs m') (owned P (set_rp_of p FREE_REMOTE_PAGE_VAL s))" by simp
  ultimately show ?thesis using m' by (simp add: cow_inv_def)
qed

lemma put_any:
  assumes "cow_inv ord P m s" and "p \<in> P" and "put_cow_remote_page s p = (still, s')"
  shows "cow_inv ord P m s' \<and> \<not> is_cow s' p \<and> (\<forall>q. q \<noteq> p \<longrightarrow> rp_of s' q = rp_of s q)
    \<and> (if still then rp_of s' p = val_of s p else rp_of s' p = FREE_REMOTE_PAGE_VAL)
    \<and> (\<forall>b. crp_remote_page (cm_store s' b) = crp_remote_page (cm_store s b))"
proof (cases "is_remote_page_cow (rp_of s p)")
  case True
  with assms(3) have "put_cow_remote_page2 s p = (still, s')" by (simp add: put_cow_remote_page_def)
  from put_ok [OF assms(1,2) True this] have d: "cow_inv ord P m s'" "dropped P s p still s'" by auto
  have "get_remote_page_cow (rp_of s p) \<in> cm_live s" by (rule cow_live [OF assms(1,2) True])
  then have "\<not> is_remote_page_cow (val_of s p)"
    using slots_word [OF assms(1), of "Shared (get_remote_page_cow (rp_of s p))"] True
    by (simp add: val_of_def get_rp_val_def)
  with d show ?thesis by (auto simp: dropped_def Let_def is_cow_def)
next
  case False
  with assms show ?thesis by (simp add: put_cow_remote_page_def is_cow_def val_of_def get_rp_val_def)
qed

lemma val_not_free:
  assumes "cow_inv ord P m s" and "p \<in> P" and "\<not> is_remote_page_free (rp_of s p)"
  shows "\<not> is_remote_page_free (val_of s p)"
proof (cases "is_cow s p")
  case True
  then have "get_remote_page_cow (rp_of s p) \<in> cm_live s" using cow_live [OF assms(1,2)] by (simp add: is_cow_def)
  with True slots_word [OF assms(1), of "Shared (get_remote_page_cow (rp_of s p))"] show ?thesis
    by (simp add: val_of_def get_rp_val_def is_cow_def)
qed (use assms(3) in \<open>simp add: val_of_def get_rp_val_def is_cow_def\<close>)

text \<open>The slots that descriptors or records own; dropping a reference does not change them.\<close>

definition owned_slots :: "nat \<Rightarrow> gpa_ptr set \<Rightarrow> cow_mem \<Rightarrow> (nat \<times> nat) set" where
  "owned_slots ord P s = word_slot ord ` Map.ran (owned P s)"

lemma ran_owned: "Map.ran (owned P s) = rp_of s ` {p \<in> P. \<not> is_remote_page_cow (rp_of s p) \<and> \<not> is_remote_page_free (rp_of s p)}
    \<union> (\<lambda>a. crp_remote_page (cm_store s a)) ` cm_live s"
proof -
  have "(\<exists>x. owned P s x = Some v) \<longleftrightarrow> (\<exists>p. owned P s (Desc p) = Some v) \<or> (\<exists>a. owned P s (Shared a) = Some v)" for v
    by (metis owner.exhaust)
  then have "Map.ran (owned P s) = {v. \<exists>p. owned P s (Desc p) = Some v} \<union> {v. \<exists>a. owned P s (Shared a) = Some v}"
    unfolding Map.ran_def by (simp only: Un_def mem_Collect_eq)
  then show ?thesis by auto
qed

lemma dropped_owned:
  assumes "cow_inv ord P m s" and "p \<in> P" and "is_remote_page_cow (rp_of s p)" and "dropped P s p still s'"
  shows "owned_slots ord P s' = owned_slots ord P s"
proof -
  let ?a = "get_remote_page_cow (rp_of s p)"
  have a: "?a \<in> cm_live s" by (rule cow_live [OF assms(1-3)])
  have v: "\<not> is_remote_page_cow (val_of s p)" "\<not> is_remote_page_free (val_of s p)" "val_of s p = crp_remote_page (cm_store s ?a)"
    using slots_word [OF assms(1), of "Shared ?a"] a assms(3) by (simp_all add: val_of_def get_rp_val_def)
  let ?D = "\<lambda>t. {p \<in> P. \<not> is_remote_page_cow (rp_of t p) \<and> \<not> is_remote_page_free (rp_of t p)}"
  have r: "rp_of s' q = (if q = p then (if still then val_of s p else FREE_REMOTE_PAGE_VAL) else rp_of s q)"
    "cm_live s' = (if still then cm_live s - {?a} else cm_live s)"
    "crp_remote_page (cm_store s' b) = crp_remote_page (cm_store s b)" for q b
    using assms(4) by (simp_all add: dropped_def Let_def)
  have D: "?D s' = (if still then insert p (?D s) else ?D s)"
    using r(1) v(1,2) assms(2,3) by (auto simp: is_remote_page_free_def)
  have "rp_of s' ` ?D s = rp_of s ` ?D s" using assms(3) r(1) by (intro image_cong) auto
  then have "Map.ran (owned P s') = Map.ran (owned P s)"
    unfolding ran_owned D using r(1) [of p] r(2,3) a v(3) by (cases still) auto
  then show ?thesis by (simp add: owned_slots_def)
qed

lemma put_owned:
  assumes "cow_inv ord P m s" and "p \<in> P" and "put_cow_remote_page s p = (still, s')"
  shows "owned_slots ord P s' = owned_slots ord P s"
proof (cases "is_remote_page_cow (rp_of s p)")
  case True
  with assms(3) have "put_cow_remote_page2 s p = (still, s')" by (simp add: put_cow_remote_page_def)
  from put_ok [OF assms(1,2) True this] show ?thesis using dropped_owned [OF assms(1,2) True] by blast
qed (use assms(3) in \<open>simp add: put_cow_remote_page_def\<close>)

lemma free_owned_slots:
  assumes inv: "cow_inv ord P m s" and p: "p \<in> P" "\<not> is_remote_page_cow (rp_of s p)" "\<not> is_remote_page_free (rp_of s p)"
  shows "owned_slots ord P (set_rp_of p FREE_REMOTE_PAGE_VAL s) = owned_slots ord P s - {word_slot ord (rp_of s p)}"
proof -
  let ?s = "set_rp_of p FREE_REMOTE_PAGE_VAL s"
  have own: "owned P s (Desc p) = Some (rp_of s p)" using p by simp
  have e: "owned P ?s = (owned P s)(Desc p := None)"
  proof
    show "owned P ?s x = ((owned P s)(Desc p := None)) x" for x by (cases x) (auto simp: is_remote_page_free_def)
  qed
  have u: "x = Desc p" if "owned P s x = Some v" "word_slot ord v = word_slot ord (rp_of s p)" for x v
    using slots_word [OF inv that(1)] slots_word [OF inv own] that own inv unfolding cow_inv_def slots_ok_def by metis
  show ?thesis
  proof
    show "owned_slots ord P ?s \<subseteq> owned_slots ord P s - {word_slot ord (rp_of s p)}"
      using u unfolding owned_slots_def e Map.ran_def by (auto split: if_splits)
    show "owned_slots ord P s - {word_slot ord (rp_of s p)} \<subseteq> owned_slots ord P ?s"
    proof
      fix k assume k: "k \<in> owned_slots ord P s - {word_slot ord (rp_of s p)}"
      then obtain x v where x: "owned P s x = Some v" "k = word_slot ord v" "k \<noteq> word_slot ord (rp_of s p)"
        by (auto simp: owned_slots_def Map.ran_def)
      then have "x \<noteq> Desc p" using own by auto
      then have "owned P ?s x = Some v" using x(1) e by simp
      then show "k \<in> owned_slots ord P ?s" using x(2) by (auto simp: owned_slots_def Map.ran_def)
    qed
  qed
qed

lemma owned_used: "cow_inv ord P m s \<Longrightarrow> owned_slots ord P s \<subseteq> used_slots (memregs m)"
  using slots_word by (fastforce simp: owned_slots_def Map.ran_def)

lemma release_loop_ok:
  assumes "cow_inv ord P m s" and "set gs \<subseteq> P"
  shows "\<exists>m' s'. remote_page_release_loop m s gs = Some (m', s') \<and> cow_inv ord P m' s'
    \<and> (\<forall>q. rp_of s' q = (if q \<in> set gs then FREE_REMOTE_PAGE_VAL else rp_of s q))
    \<and> (\<forall>b. crp_remote_page (cm_store s' b) = crp_remote_page (cm_store s b))
    \<and> used_slots (memregs m') - owned_slots ord P s' = used_slots (memregs m) - owned_slots ord P s
    \<and> owned_slots ord P s' \<subseteq> owned_slots ord P s"
  using assms
proof (induction gs arbitrary: m s)
  case Nil
  then show ?case by simp
next
  case (Cons g gs)
  have g: "g \<in> P" "set gs \<subseteq> P" using Cons.prems(2) by auto
  show ?case
  proof (cases "is_remote_page_free (rp_of s g)")
    case True
    with Cons.IH [OF Cons.prems(1) g(2)] show ?thesis
      by (auto simp: is_remote_page_free_def split: if_splits)
  next
    case False
    obtain still s1 where p: "put_cow_remote_page s g = (still, s1)" by (metis surj_pair)
    note q = put_any [OF Cons.prems(1) g(1) p] and o = put_owned [OF Cons.prems(1) g(1) p]
    show ?thesis
    proof (cases still)
      case False
      obtain m' s' where r: "remote_page_release_loop m s1 gs = Some (m', s')" "cow_inv ord P m' s'"
        "\<forall>q. rp_of s' q = (if q \<in> set gs then FREE_REMOTE_PAGE_VAL else rp_of s1 q)"
        "\<forall>b. crp_remote_page (cm_store s' b) = crp_remote_page (cm_store s1 b)"
        "used_slots (memregs m') - owned_slots ord P s' = used_slots (memregs m) - owned_slots ord P s1"
        "owned_slots ord P s' \<subseteq> owned_slots ord P s1"
        using Cons.IH [OF q [THEN conjunct1] g(2)] by blast
      from r(1) p False \<open>\<not> is_remote_page_free (rp_of s g)\<close>
      have "remote_page_release_loop m s (g # gs) = Some (m', s')" by simp
      with r(2-6) q False o show ?thesis by auto
    next
      case True
      have w: "\<not> is_remote_page_cow (rp_of s1 g)" "\<not> is_remote_page_free (rp_of s1 g)"
        using q True val_not_free [OF Cons.prems(1) g(1) False] by (auto simp: is_cow_def)
      from free_owned [OF q [THEN conjunct1] g(1) w] obtain m1 where
        f: "free_remote_page4 (cm_store s1) m (cm_gpas s1) g = Some (m1, set_rp (cm_gpas s1) g FREE_REMOTE_PAGE_VAL)"
        "cow_inv ord P m1 (set_rp_of g FREE_REMOTE_PAGE_VAL s1)"
        "used_slots (memregs m1) = used_slots (memregs m) - {word_slot ord (rp_of s1 g)}" by blast
      note fo = free_owned_slots [OF q [THEN conjunct1] g(1) w]
      have in': "word_slot ord (rp_of s1 g) \<in> owned_slots ord P s1"
        using w g(1) by (auto simp: owned_slots_def ran_owned)
      obtain m' s' where r: "remote_page_release_loop m1 (set_rp_of g FREE_REMOTE_PAGE_VAL s1) gs = Some (m', s')"
        "cow_inv ord P m' s'"
        "\<forall>q. rp_of s' q = (if q \<in> set gs then FREE_REMOTE_PAGE_VAL else rp_of (set_rp_of g FREE_REMOTE_PAGE_VAL s1) q)"
        "\<forall>b. crp_remote_page (cm_store s' b) = crp_remote_page (cm_store (set_rp_of g FREE_REMOTE_PAGE_VAL s1) b)"
        "used_slots (memregs m') - owned_slots ord P s' = used_slots (memregs m1) - owned_slots ord P (set_rp_of g FREE_REMOTE_PAGE_VAL s1)"
        "owned_slots ord P s' \<subseteq> owned_slots ord P (set_rp_of g FREE_REMOTE_PAGE_VAL s1)"
        using Cons.IH [OF f(2) g(2)] by blast
      have "remote_page_release_loop m s (g # gs) = Some (m', s')"
        using r(1) f(1) p True False by (simp add: set_rp_of_def)
      moreover have "used_slots (memregs m') - owned_slots ord P s' = used_slots (memregs m) - owned_slots ord P s"
        "owned_slots ord P s' \<subseteq> owned_slots ord P s"
        using r(5,6) in' unfolding fo f(3) o by auto
      moreover have "\<forall>x. rp_of s' x = (if x \<in> set (g # gs) then FREE_REMOTE_PAGE_VAL else rp_of s x)" using r(3) q by auto
      moreover have "\<forall>b. crp_remote_page (cm_store s' b) = crp_remote_page (cm_store s b)" using r(4) q by auto
      ultimately show ?thesis using r(2) by blast
    qed
  qed
qed

lemma clear_fetching_ok:
  assumes inv: "cow_inv ord P m s" and p: "p \<in> P"
  shows "\<exists>m' s'. clear_fetching_remote c m s p = Some (m', s') \<and> cow_inv ord P m' s' \<and> \<not> is_cow s' p
    \<and> (\<forall>q. q \<noteq> p \<longrightarrow> rp_of s' q = rp_of s q)
    \<and> (rp_of s' p = FREE_REMOTE_PAGE_VAL \<or> remote_reuse c \<and> rp_of s' p = val_of s p)"
proof -
  obtain still s1 where t: "put_cow_remote_page s p = (still, s1)" by (metis surj_pair)
  note q = put_any [OF inv p t]
  show ?thesis
  proof (cases "still \<and> \<not> is_remote_page_free (rp_of s1 p) \<and> \<not> remote_reuse c")
    case True
    have "\<not> is_remote_page_cow (rp_of s1 p)" using q by (simp add: is_cow_def)
    from free_owned [OF q [THEN conjunct1] p this] True obtain m1 where
      f: "free_remote_page4 (cm_store s1) m (cm_gpas s1) p = Some (m1, set_rp (cm_gpas s1) p FREE_REMOTE_PAGE_VAL)"
      "cow_inv ord P m1 (set_rp_of p FREE_REMOTE_PAGE_VAL s1)" by blast
    have "clear_fetching_remote c m s p = Some (m1, set_rp_of p FREE_REMOTE_PAGE_VAL s1)"
      using t True f(1) q by (auto simp: clear_fetching_remote_def free_remote_page_def free_remote_page2_def
          set_rp_of_def is_cow_def rp_of_def)
    with f(2) q show ?thesis by (auto simp: is_cow_def)
  next
    case False
    then have "clear_fetching_remote c m s p = Some (m, s1)"
      using t q by (auto simp: clear_fetching_remote_def free_remote_page_def free_remote_page2_def is_cow_def rp_of_def)
    moreover have "rp_of s1 p = FREE_REMOTE_PAGE_VAL \<or> remote_reuse c \<and> rp_of s1 p = val_of s p"
      using False q by (cases still) (auto simp: is_remote_page_free_def)
    ultimately show ?thesis using q by blast
  qed
qed

text \<open>Every page that is read exists, shared or not.\<close>

lemma val_owned:
  assumes "cow_inv ord P m s" and "p \<in> P" and "\<not> is_remote_page_free (rp_of s p)"
  shows "owned P s (if is_cow s p then Shared (rec_of s p) else Desc p) = Some (val_of s p)"
proof (cases "is_cow s p")
  case True
  then have "rec_of s p \<in> cm_live s" using cow_live [OF assms(1,2)] by (simp add: is_cow_def rec_of_def)
  with True show ?thesis by (simp add: val_of_def get_rp_val_def is_cow_def rec_of_def)
next
  case False
  with assms(2,3) show ?thesis by (simp add: val_of_def get_rp_val_def is_cow_def)
qed

lemma val_slot:
  assumes "cow_inv ord P m s" and "p \<in> P" and "\<not> is_remote_page_free (rp_of s p)"
  shows "word_slot ord (val_of s p) \<in> used_slots (memregs m)"
  using slots_word [OF assms(1) val_owned [OF assms]] by blast

lemma shared_slot:
  assumes inv: "cow_inv ord P m s" and p: "p \<in> P" "\<not> is_remote_page_free (rp_of s p)"
    and q: "q \<in> P" "\<not> is_remote_page_free (rp_of s q)" and "p \<noteq> q"
    and same: "word_slot ord (val_of s p) = word_slot ord (val_of s q)"
  shows "is_cow s p \<and> is_cow s q \<and> rec_of s p = rec_of s q"
proof -
  note own = val_owned [OF inv]
  note op = own [OF p] and oq = own [OF q]
  have "val_of s p = val_of s q"
    using slots_word [OF inv op] slots_word [OF inv oq] same by metis
  with op oq have "(if is_cow s p then Shared (rec_of s p) else Desc p) = (if is_cow s q then Shared (rec_of s q) else Desc q)"
    using inv unfolding cow_inv_def slots_ok_def by metis
  with \<open>p \<noteq> q\<close> show ?thesis by (auto split: if_splits)
qed

text \<open>What is owned is read by some descriptor.\<close>

lemma owned_read:
  assumes "cow_inv ord P m s"
  shows "owned_slots ord P s = (\<lambda>p. word_slot ord (val_of s p)) ` {p \<in> P. \<not> is_remote_page_free (rp_of s p)}"
proof
  show "(\<lambda>p. word_slot ord (val_of s p)) ` {p \<in> P. \<not> is_remote_page_free (rp_of s p)} \<subseteq> owned_slots ord P s"
    using val_owned [OF assms] by (auto simp: owned_slots_def Map.ran_def simp del: owned.simps)
  show "owned_slots ord P s \<subseteq> (\<lambda>p. word_slot ord (val_of s p)) ` {p \<in> P. \<not> is_remote_page_free (rp_of s p)}"
  proof
    fix k assume "k \<in> owned_slots ord P s"
    then consider p where "p \<in> P" "\<not> is_remote_page_cow (rp_of s p)" "\<not> is_remote_page_free (rp_of s p)" "k = word_slot ord (rp_of s p)"
      | a where "a \<in> cm_live s" "k = word_slot ord (crp_remote_page (cm_store s a))"
      by (auto simp: owned_slots_def ran_owned)
    then show "k \<in> (\<lambda>p. word_slot ord (val_of s p)) ` {p \<in> P. \<not> is_remote_page_free (rp_of s p)}"
    proof cases
      case 1
      then show ?thesis by (auto simp: val_of_def get_rp_val_def)
    next
      case 2
      then obtain p where "p \<in> holders P s a" using assms unfolding cow_inv_def refs_ok_def by blast
      then have "p \<in> P" "\<not> is_remote_page_free (rp_of s p)" "val_of s p = crp_remote_page (cm_store s a)"
        using free_not_cow2 by (auto simp: holders_def val_of_def get_rp_val_def)
      then show ?thesis using 2(2) by (auto intro!: image_eqI [where x = p])
    qed
  qed
qed

text \<open>The slots that only descriptors of \<open>R\<close> read.\<close>

definition read_only_by :: "nat \<Rightarrow> gpa_ptr set \<Rightarrow> cow_mem \<Rightarrow> gpa_ptr set \<Rightarrow> (nat \<times> nat) set" where
  "read_only_by ord P s R = {word_slot ord (val_of s q) | q. q \<in> R \<and> \<not> is_remote_page_free (rp_of s q)
     \<and> (\<forall>p \<in> P - R. \<not> is_remote_page_free (rp_of s p) \<longrightarrow> val_of s p \<noteq> val_of s q)}"

lemma diff_used: "U' - O' = U - O1 \<Longrightarrow> O' \<subseteq> U' \<Longrightarrow> O1 \<subseteq> U \<Longrightarrow> O' \<subseteq> O1 \<Longrightarrow> U' = U - (O1 - O')"
  by blast

lemma released_slots:
  assumes inv: "cow_inv ord P m s" and "R \<subseteq> P" and inv': "cow_inv ord P m' s'"
    and rp: "\<And>q. rp_of s' q = (if q \<in> R then FREE_REMOTE_PAGE_VAL else rp_of s q)"
    and val: "\<And>q. q \<notin> R \<Longrightarrow> val_of s' q = val_of s q"
    and used: "used_slots (memregs m') - owned_slots ord P s' = used_slots (memregs m) - owned_slots ord P s"
    and sub: "owned_slots ord P s' \<subseteq> owned_slots ord P s"
  shows "used_slots (memregs m') = used_slots (memregs m) - read_only_by ord P s R"
proof -
  let ?S = "\<lambda>q. word_slot ord (val_of s q)" and ?A = "{p \<in> P. \<not> is_remote_page_free (rp_of s p)}"
  have "{p \<in> P. \<not> is_remote_page_free (rp_of s' p)} = ?A - R" by (auto simp: rp is_remote_page_free_def)
  then have o: "owned_slots ord P s = ?S ` ?A" "owned_slots ord P s' = ?S ` (?A - R)"
    using owned_read [OF inv] owned_read [OF inv'] val by (auto intro!: image_cong)
  have w: "val_of s p = slot_word ord (?S p)" if "p \<in> ?A" for p
    using slots_word [OF inv val_owned [OF inv]] that by blast
  have e: "?S ` ?A - ?S ` (?A - R) = read_only_by ord P s R"
  proof
    show "?S ` ?A - ?S ` (?A - R) \<subseteq> read_only_by ord P s R"
    proof
      fix k assume k: "k \<in> ?S ` ?A - ?S ` (?A - R)"
      then obtain q where q: "k = ?S q" "q \<in> ?A" "q \<in> R" by blast
      have "val_of s p \<noteq> val_of s q" if "p \<in> P - R" "\<not> is_remote_page_free (rp_of s p)" for p
      proof
        assume "val_of s p = val_of s q"
        then have "k = ?S p" using q(1) by simp
        then show False using k that by blast
      qed
      then show "k \<in> read_only_by ord P s R" using q by (auto simp: read_only_by_def)
    qed
    show "read_only_by ord P s R \<subseteq> ?S ` ?A - ?S ` (?A - R)"
    proof
      fix k assume "k \<in> read_only_by ord P s R"
      then obtain q where q: "k = ?S q" "q \<in> R" "q \<in> ?A" "\<forall>p \<in> ?A - R. val_of s p \<noteq> val_of s q"
        using assms(2) by (auto simp: read_only_by_def)
      have "k \<noteq> ?S p" if "p \<in> ?A - R" for p
      proof
        assume "k = ?S p"
        then have "slot_word ord (?S p) = slot_word ord (?S q)" using q(1) by simp
        moreover have "val_of s p = slot_word ord (?S p)" using w that by blast
        ultimately have "val_of s p = val_of s q" using w [OF q(3)] by simp
        then show False using q(4) that by blast
      qed
      then have "k \<notin> ?S ` (?A - R)" by blast
      then show "k \<in> ?S ` ?A - ?S ` (?A - R)" using q by blast
    qed
  qed
  have "used_slots (memregs m') = used_slots (memregs m) - (owned_slots ord P s - owned_slots ord P s')"
    by (rule diff_used [OF used owned_used [OF inv'] owned_used [OF inv] sub])
  then show ?thesis unfolding o e .
qed

lemma cow_inv_cong:
  assumes "\<And>p. rp_of s' p = rp_of s p" and "cm_live s' = cm_live s" and "cm_store s' = cm_store s"
  shows "cow_inv ord P m s' = cow_inv ord P m s" and "val_of s' p = val_of s p"
proof -
  have "holders P s' = holders P s" by (auto simp: holders_def assms(1) fun_eq_iff)
  then have "refs_ok P s' = refs_ok P s" by (simp add: refs_ok_def assms)
  moreover have "owned P s' = owned P s"
  proof
    fix x show "owned P s' x = owned P s x" by (cases x) (simp_all add: assms)
  qed
  ultimately show "cow_inv ord P m s' = cow_inv ord P m s" by (simp add: cow_inv_def)
  show "val_of s' p = val_of s p" by (simp add: val_of_def assms)
qed

lemma set_block_remote_flag_simps:
  "remote_page (set_block_remote_flag h head p) = remote_page (h p)"
  "p \<in> set (for_each_gpas h head) \<Longrightarrow> is_gpa_flags_set (set_block_remote_flag h head p) GPA_REMOTE_MASK"
proof -
  let ?f = "\<lambda>h p. h(p := snd (set_gpa_flags_if_unset (h p) GPA_REMOTE_MASK))"
  have set: "is_gpa_flags_set (snd (set_gpa_flags_if_unset g GPA_REMOTE_MASK)) GPA_REMOTE_MASK" for g
  proof -
    have "(x OR GPA_REMOTE_MASK) AND GPA_REMOTE_MASK = GPA_REMOTE_MASK" for x by (simp add: bit_eq_iff bit_simps)
    moreover have "GPA_REMOTE_MASK \<noteq> 0" by (simp add: GPA_REMOTE_MASK_def)
    ultimately show ?thesis by (simp add: set_gpa_flags_if_unset_def is_gpa_flags_set_def is_gpa_flags_same_def Let_def)
  qed
  have "remote_page (foldl ?f h ps p) = remote_page (h p)
      \<and> (p \<in> set ps \<or> is_gpa_flags_set (h p) GPA_REMOTE_MASK \<longrightarrow> is_gpa_flags_set (foldl ?f h ps p) GPA_REMOTE_MASK)" for ps
  proof (induction ps arbitrary: h)
    case Nil
    then show ?case by simp
  next
    case (Cons a ps)
    have "remote_page (?f h a p) = remote_page (h p)"
      by (simp add: set_gpa_flags_if_unset_def Let_def)
    with Cons.IH [of "?f h a"] set show ?case by auto
  qed
  then show "remote_page (set_block_remote_flag h head p) = remote_page (h p)"
    "p \<in> set (for_each_gpas h head) \<Longrightarrow> is_gpa_flags_set (set_block_remote_flag h head p) GPA_REMOTE_MASK"
    unfolding set_block_remote_flag_def by blast+
qed

text \<open>A consistent remote memory without sharing.\<close>

lemma cow_inv_init:
  assumes "mrs_ok ord m" and "pages_ok ord (memregs m) h P" and "finite P"
  shows "cow_inv ord P m \<lparr>cm_store = st, cm_live = {}, cm_gpas = h\<rparr>"
proof -
  let ?s = "\<lparr>cm_store = st, cm_live = {}, cm_gpas = h\<rparr> :: cow_mem"
  have res: "regions_res ord (memregs m) (\<lambda>_. 0)" using assms(1) by (simp add: mrs_ok_def)
  have nc: "\<not> is_remote_page_cow (rp_of ?s p)" if "p \<in> P" for p
  proof (cases "has_page h p")
    case True
    with assms(2) that obtain k where "k \<in> used_slots (memregs m)" "remote_page (h p) = slot_word ord k"
      by (auto simp: pages_ok_def)
    with used_slot_facts(3) [OF res] show ?thesis by (simp add: rp_of_def)
  next
    case False
    then show ?thesis by (simp add: rp_of_def free_not_cow2)
  qed
  have "\<exists>p \<in> P. x = Desc p \<and> has_page h p \<and> v = remote_page (h p)" if "owned P ?s x = Some v" for x v
    using that by (cases x) (auto simp: rp_of_def split: if_splits)
  note own = this
  have "slots_ok ord (memregs m) (owned P ?s)"
    unfolding slots_ok_def
  proof (intro conjI allI impI)
    fix x v assume "owned P ?s x = Some v"
    with own [of x v] assms(2) show "\<exists>k \<in> used_slots (memregs m). v = slot_word ord k"
      by (auto simp only: pages_ok_def)
  next
    fix x y v assume "owned P ?s x = Some v" "owned P ?s y = Some v"
    with own [of x v] own [of y v] obtain p q where "p \<in> P" "q \<in> P" "x = Desc p" "y = Desc q" "has_page h p" "has_page h q"
      "remote_page (h p) = remote_page (h q)" by metis
    with assms(2) show "x = y" unfolding pages_ok_def inj_on_def by simp
  qed
  then show ?thesis using nc assms(1,3) by (simp add: cow_inv_def refs_ok_def)
qed

section \<open>The transition system\<close>

lemma put_pairs_inv:
  assumes "cow_inv ord P m s" and "distinct (map fst ps @ map snd ps)" and "fst ` set ps \<union> snd ` set ps \<subseteq> P"
    and "\<forall>x \<in> fst ` set ps \<union> snd ` set ps. is_cow s x"
  shows "cow_inv ord P m (foldl put_pair s ps)"
  using assms
proof (induction ps arbitrary: s)
  case Nil
  then show ?case by simp
next
  case (Cons z ps)
  obtain x y where z: "z = (x, y)" by (cases z)
  have d: "x \<in> P" "y \<in> P" "x \<noteq> y" "is_cow s x" "is_cow s y" using Cons.prems(2-4) z by auto
  obtain b1 s1 where p1: "put_cow_remote_page2 s y = (b1, s1)" by (metis surj_pair)
  have i1: "cow_inv ord P m s1" "dropped P s y b1 s1"
    using put_ok [OF Cons.prems(1) d(2) _ p1] d(5) by (simp_all add: is_cow_def)
  have x1: "rp_of s1 x = rp_of s x" using i1(2) d(3) by (simp add: dropped_def Let_def)
  obtain b2 s2 where p2: "put_cow_remote_page2 s1 x = (b2, s2)" by (metis surj_pair)
  have i2: "cow_inv ord P m s2" "dropped P s1 x b2 s2"
    using put_ok [OF i1(1) d(1) _ p2] d(4) x1 by (simp_all add: is_cow_def)
  have same: "rp_of s2 q = rp_of s q" if "q \<noteq> x" "q \<noteq> y" for q
    using that i1(2) i2(2) by (simp add: dropped_def Let_def)
  have "is_cow s2 q" if q: "q \<in> fst ` set ps \<union> snd ` set ps" for q
  proof -
    have "q \<noteq> x" "q \<noteq> y" using q Cons.prems(2) z by auto
    with same Cons.prems(4) q z show ?thesis by (simp add: is_cow_def)
  qed
  moreover have "distinct (map fst ps @ map snd ps)" "fst ` set ps \<union> snd ` set ps \<subseteq> P"
    using Cons.prems(2,3) by auto
  ultimately show ?case using Cons.IH [OF i2(1)] z p1 p2 by simp
qed

lemma fork_inv:
  assumes "cow_inv ord P m s" and "kmem_ok kmem" and "fork_pre P s old new"
    and "dup_cow_gpadesc_remote kmem s old new = (ret, s')"
  shows "cow_inv ord P m s'"
proof -
  let ?ps = "old_new_gpas (num_subblock_in_block (cm_gpas s old)) old new"
  obtain r s1 where g: "get_cow_remote_page_block kmem s old new = (r, s1)" by (metis surj_pair)
  consider (ok) "r = 0" "cow_inv ord P m s1"
    | (fail) k t where "r < 0" "cow_inv ord P m t" "all_paired P s (take k ?ps) t" "s1 = foldl put_pair t (take k ?ps)"
    using get_block_ok [OF assms(1-3) g] by blast
  then show ?thesis
  proof cases
    case ok
    then have e: "s' = s1\<lparr>cm_gpas := set_block_remote_flag (cm_gpas s1) new\<rparr>"
      using assms(4) g by (simp add: dup_cow_gpadesc_remote_def)
    have "rp_of s' q = rp_of s1 q" for q by (simp add: e rp_of_def set_block_remote_flag_simps)
    with ok(2) show ?thesis by (subst cow_inv_cong(1) [of s' s1]) (simp_all add: e)
  next
    case fail
    then have e: "s' = s1" using assms(4) g by (simp add: dup_cow_gpadesc_remote_def)
    have p: "pairs_ok P s (take k ?ps)" by (rule pairs_ok_take [OF fork_pairs [OF assms(3)]])
    have "is_cow t x" if "x \<in> fst ` set (take k ?ps) \<union> snd ` set (take k ?ps)" for x
    proof -
      from that obtain a b where "(a, b) \<in> set (take k ?ps)" "x = a \<or> x = b" by force
      with all_pairedD(1) [OF fail(3)] show ?thesis by (auto simp: pair_in_def)
    qed
    with put_pairs_inv [OF fail(2)] p show ?thesis unfolding e fail(4) pairs_ok_def by blast
  qed
qed

text \<open>\<open>P\<close> is the set of descriptors; a fork may succeed or fail.\<close>

inductive cow_step :: "(gpa_ptr \<Rightarrow> u64 set \<Rightarrow> u64 option) \<Rightarrow> gpa_ptr set \<Rightarrow> emp_mrs \<times> cow_mem \<Rightarrow> emp_mrs \<times> cow_mem \<Rightarrow> bool"
  for kmem P where
  fork: "fork_pre P s old new \<Longrightarrow> dup_cow_gpadesc_remote kmem s old new = (ret, s') \<Longrightarrow> cow_step kmem P (m, s) (m, s')"
| fetched: "p \<in> P \<Longrightarrow> clear_fetching_remote c m s p = Some (m', s') \<Longrightarrow> cow_step kmem P (m, s) (m', s')"
| release: "{head ..< head + num} \<subseteq> P \<Longrightarrow> remote_page_release m s head num = Some (m', s') \<Longrightarrow>
    cow_step kmem P (m, s) (m', s')"

inductive_cases cow_stepE [consumes 1]: "cow_step kmem P (m, s) t"

lemma release_range: "set (map (\<lambda>i. head + i) [0 ..< num]) = {head ..< head + num :: nat}"
proof -
  have "(\<lambda>i. head + i) ` {0 ..< num} = {head ..< head + num}" by (simp add: add.commute)
  then show ?thesis by simp
qed

lemma cow_step_inv:
  assumes "cow_step kmem P x y" and "kmem_ok kmem" and "cow_inv ord P (fst x) (snd x)"
  shows "cow_inv ord P (fst y) (snd y)"
  using assms
proof (induction rule: cow_step.induct)
  case (fork s old new ret s' m)
  then show ?case using fork_inv by simp
next
  case (fetched p c m s m' s')
  then show ?case using clear_fetching_ok [of ord P m s p c] by auto
next
  case (release head num m s m' s')
  have r: "set (map (\<lambda>i. head + i) [0 ..< num]) \<subseteq> P" unfolding release_range by (rule release(1))
  have "cow_inv ord P m s" using release(4) by simp
  from release_loop_ok [OF this r] release(2) show ?case by (auto simp: remote_page_release_def)
qed

lemma cow_steps_inv:
  "(cow_step kmem P)\<^sup>*\<^sup>* x y \<Longrightarrow> kmem_ok kmem \<Longrightarrow> cow_inv ord P (fst x) (snd x) \<Longrightarrow> cow_inv ord P (fst y) (snd y)"
  by (induction rule: rtranclp_induct) (auto intro: cow_step_inv)

end
