(* ===== verification/Cow_Claims.thy ===== *)
theory Cow_Claims
  imports Remote_Claims Cow_Remote
begin

text \<open>
  The properties of remote pages shared by a fork: taking and dropping the references of a block, the
  error path of a fork, and giving pages back.  \<open>ex_fork\<close> is a process with a block of four remote
  pages and room for the descriptors of two forks.
\<close>

section \<open>A concrete fork\<close>

definition ex_kmem :: "nat option \<Rightarrow> gpa_ptr \<Rightarrow> u64 set \<Rightarrow> u64 option" where
  "ex_kmem bad p L = (if Some p = bad then None else List.find (\<lambda>a. a \<notin> L) [4, 8, 12, 16])"

lemma ex_kmem_ok: "kmem_ok (ex_kmem bad)"
proof -
  have "a \<in> {4, 8, 12, 16} \<and> a \<notin> L" if "List.find (\<lambda>a. a \<notin> L) [4, 8, 12, 16] = Some a" for a :: u64 and L
    using that by (auto split: if_splits)
  moreover have "\<forall>a \<in> {4, 8, 12, 16::u64}. a AND REMOTE_PAGE_FLAG_MASK = 0" by (simp add: REMOTE_PAGE_FLAG_MASK_def)
  ultimately show ?thesis unfolding kmem_ok_def ex_kmem_def by (metis option.distinct(1))
qed

lemma ex_kmem_succeeds: "finite L \<Longrightarrow> card L < 4 \<Longrightarrow> ex_kmem None p L \<noteq> None"
proof
  assume L: "finite L" "card L < 4" "ex_kmem None p L = None"
  then have "{4, 8, 12, 16} \<subseteq> L" by (auto simp: ex_kmem_def split: if_splits)
  then have "card {4, 8, 12, 16::u64} \<le> card L" using L(1) by (rule card_mono [rotated])
  with L(2) show False by simp
qed

lemma ex_fork_exists:
  obtains m s where "cow_inv 1 {0 ..< 12} m s" "num_subblock_in_block (cm_gpas s 0) = 4"
    "\<And>p. p < 4 \<Longrightarrow> \<not> is_remote_page_free (rp_of s p)" "\<And>p. 4 \<le> p \<Longrightarrow> is_remote_page_free (rp_of s p)"
    "\<And>p. p < 12 \<Longrightarrow> \<not> is_cow s p" "cm_live s = {}"
    "mrs_ok 1 m" "pages_ok 1 (memregs m) (cm_gpas s) {0 ..< 12}"
proof -
  have pre: "alloc_pre (ex_cfg 1) (ex_mrs 2) ex_heap 0" "mrs_ok 1 (ex_mrs 2)"
    by (rule ex_alloc_pre) (rule ex_mrs_ok, simp add: MAX_MRID_def)
  obtain m h where a: "alloc_remote_page (ex_cfg 1) ex_store (ex_mrs 2) ex_heap 0 = Some (True, m, h)"
    "num_subblock_in_block (h 0) = 4"
    by (simp add: alloc_eval ex_cfg_def ex_region_def)
  have b: "block_gpas ex_heap 0 = {0 ..< 4}" by (auto simp: block_gpas_def)
  from alloc_remote_page_ok [OF pre(2) ex_pages_ok _ ex_heap_simps(2) pre(1), of "{0 ..< 12}" ex_store] a(1) b
  have f: "mrs_ok 1 m" "pages_ok 1 (memregs m) h {0 ..< 12}" "\<forall>p \<in> {0 ..< 4}. has_page h p"
    "\<forall>p. p \<notin> {0 ..< 4} \<longrightarrow> h p = ex_heap p" by auto
  let ?s = "\<lparr>cm_store = ex_store, cm_live = {}, cm_gpas = h\<rparr> :: cow_mem"
  have inv: "cow_inv 1 {0 ..< 12} m ?s" by (rule cow_inv_init [OF f(1,2)]) simp
  moreover have "\<not> is_cow ?s p" if "p < 12" for p
    using cow_live [OF inv, of p] that by (auto simp: is_cow_def)
  ultimately show ?thesis
    using that [of m ?s] a(2) f by (simp add: rp_of_def is_remote_page_free_def)
qed

lemma ex_fork_succeeds:
  assumes e: "cow_inv 1 {0 ..< 12} m s" "num_subblock_in_block (cm_gpas s 0) = 4" "cm_live s = {}" "fork_pre {0 ..< 12} s 0 4"
    and d: "dup_cow_gpadesc_remote (ex_kmem None) s 0 4 = (ret, s')"
  shows "ret \<ge> 0"
proof -
  obtain r s1 where g: "get_cow_remote_page_block (ex_kmem None) s 0 4 = (r, s1)" by (metis surj_pair)
  have "\<not> r < 0"
  proof
    assume "r < 0"
    with get_block_ok [OF e(1) ex_kmem_ok e(4) g] e(2) obtain k t where k: "k < 4"
      "all_paired {0 ..< 12} s (take k (old_new_gpas 4 0 4)) t" "ex_kmem None (0 + k) (cm_live t) = None" by auto
    let ?F = "fst ` set (take k (old_new_gpas 4 0 4))"
    have f: "?F = {0 ..< k}" using k(1) by (simp add: take_map [symmetric] set_map [symmetric])
    have "cm_live t \<subseteq> rec_of t ` ?F" using all_pairedD(4) [OF k(2)] e(3) by auto
    then have "finite (cm_live t)" "card (cm_live t) \<le> card {0 ..< k}"
      unfolding f using finite_subset surj_card_le [of "{0 ..< k}"] by blast+
    with ex_kmem_succeeds [of "cm_live t" k] k(1,3) show False by simp
  qed
  then show ?thesis using d g by (auto simp: dup_cow_gpadesc_remote_def split: if_splits)
qed

section \<open>Properties\<close>



text \<open>
  C14: When a fork of a block fails although none of its pages was shared before, everything is undone:
  every descriptor has its old word again and no record stays allocated.
\<close>

theorem fork_error_rolls_back:
  assumes "cow_inv ord P m s" and "kmem_ok kmem" and "fork_pre P s old new"
    and "dup_cow_gpadesc_remote kmem s old new = (ret, s')" and "ret < 0"
    and "\<forall>i < num_subblock_in_block (cm_gpas s old). \<not> is_cow s (old + i)"
  shows "cow_inv ord P m s' \<and> cm_live s' = cm_live s \<and> (\<forall>q. rp_of s' q = rp_of s q)"
proof -
  have g: "get_cow_remote_page_block kmem s old new = (ret, s')"
    using assms(4,5) by (auto simp: dup_cow_gpadesc_remote_def split: prod.splits if_splits)
  from get_block_unshared [OF assms(1-3) g assms(5,6)] show ?thesis by (simp add: all_paired_Nil)
qed

lemma fork_error_rolls_back_witness:
  "\<exists>m s ret s'. dup_cow_gpadesc_remote (ex_kmem (Some 0)) s 0 4 = (ret, s') \<and> ret < 0 \<and> cow_inv 1 {0 ..< 12} m s'
    \<and> (\<forall>q. rp_of s' q = rp_of s q)"
proof -
  obtain m s where e: "cow_inv 1 {0 ..< 12} m s" "num_subblock_in_block (cm_gpas s 0) = 4"
    "\<And>p. p < 4 \<Longrightarrow> \<not> is_remote_page_free (rp_of s p)" "\<And>p. 4 \<le> p \<Longrightarrow> is_remote_page_free (rp_of s p)"
    "\<And>p. p < 12 \<Longrightarrow> \<not> is_cow s p" "cm_live s = {}" by (rule ex_fork_exists) blast
  have pre: "fork_pre {0 ..< 12} s 0 4" using e(2-4) by (auto simp: fork_pre_def)
  obtain ret s' where d: "dup_cow_gpadesc_remote (ex_kmem (Some 0)) s 0 4 = (ret, s')" by (metis surj_pair)
  have "[0 ..< 4] = 0 # [1 ..< 4::nat]" by (simp add: upt_rec)
  moreover have "\<not> is_remote_page_cow (rp_of s 0)" using e(5) [of 0] by (simp add: is_cow_def)
  ultimately have "ret < 0"
    using d e(2) by (simp add: dup_cow_gpadesc_remote_def get_cow_remote_page_block_def Let_def old_new_gpas_def
        get_cow_cases ex_kmem_def ENOMEM_def error_get_cow_remote_page_block_def split: if_splits)
  with fork_error_rolls_back [OF e(1) ex_kmem_ok pre d] e(2,5) have "cow_inv 1 {0 ..< 12} m s' \<and> (\<forall>q. rp_of s' q = rp_of s q)" by simp
  with d \<open>ret < 0\<close> show ?thesis by blast
qed

text \<open>
  C16: When the first page of the block was shared already with a third descriptor and the fork fails at
  the second page, the rollback drops one reference too many: the old descriptor is left without its
  remote page.
\<close>

theorem fork_error_loses_page:
  assumes "cow_inv ord P m s" and "kmem_ok kmem" and "fork_pre P s old new"
    and "num_subblock_in_block (cm_gpas s old) > 1"
    and "z \<in> P" and "z \<noteq> old" and "is_cow s z" and "rec_of s z = rec_of s old"
    and "is_cow s old" and "\<not> is_cow s (old + 1)" and "\<And>L. kmem (old + 1) L = None"
  shows "\<exists>s'. dup_cow_gpadesc_remote kmem s old new = (- ENOMEM, s') \<and> is_remote_page_free (rp_of s' old)
    \<and> \<not> is_remote_page_free (rp_of s old)"
proof -
  from get_block_shared_loses [OF assms(1-10)] assms(11) obtain s' where
    g: "get_cow_remote_page_block kmem s old new = (- ENOMEM, s')" "rp_of s' old = FREE_REMOTE_PAGE_VAL" by blast
  have "\<not> is_remote_page_free (rp_of s old)" using assms(9) free_not_cow2 by (auto simp: is_cow_def)
  with g show ?thesis by (simp add: dup_cow_gpadesc_remote_def ENOMEM_def is_remote_page_free_def)
qed

lemma fork_error_loses_page_witness:
  "\<exists>s s'. dup_cow_gpadesc_remote (ex_kmem (Some 1)) s 0 4 = (- ENOMEM, s') \<and> is_remote_page_free (rp_of s' 0)
    \<and> \<not> is_remote_page_free (rp_of s 0)"
proof -
  obtain m s where e: "cow_inv 1 {0 ..< 12} m s" "num_subblock_in_block (cm_gpas s 0) = 4"
    "\<And>p. p < 4 \<Longrightarrow> \<not> is_remote_page_free (rp_of s p)" "\<And>p. 4 \<le> p \<Longrightarrow> is_remote_page_free (rp_of s p)"
    "\<And>p. p < 12 \<Longrightarrow> \<not> is_cow s p" "cm_live s = {}" by (rule ex_fork_exists) blast
  text \<open>The first page alone is shared with descriptor 8.\<close>
  obtain r t where g: "get_cow_remote_page (ex_kmem None) s 0 8 = (r, t)" by (metis surj_pair)
  have f: "\<not> is_remote_page_free (rp_of s 0)" "is_remote_page_free (rp_of s 8)" using e(3) [of 0] e(4) [of 8] by simp_all
  have "ex_kmem None 0 (cm_live s) \<noteq> None" by (rule ex_kmem_succeeds) (simp_all add: e(6))
  with get_ok [OF e(1) ex_kmem_ok _ _ _ f g] have t: "cow_inv 1 {0 ..< 12} m t" "paired {0 ..< 12} s 0 8 t" by auto
  have rp: "rp_of t q = rp_of s q" if "q \<noteq> 0" "q \<noteq> 8" for q using t(2) that by (simp add: paired_def)
  have c: "is_cow t 0" "is_cow t 8" "rec_of t 8 = rec_of t 0" using t(2) by (simp_all add: paired_def is_cow_def rec_of_def)
  have n: "num_subblock_in_block (cm_gpas t 0) = 4"
    using g e(2) e(5) [of 0]
    by (auto simp: get_cow_cases is_cow_def join_def share_def num_subblock_in_block_def split: option.splits)
  have nf: "\<not> is_remote_page_free (rp_of t p)" if "p < 4" for p
    using c(1) e(3) [OF that] rp [of p] that free_not_cow2 by (cases "p = 0") (auto simp: is_cow_def)
  have fr: "is_remote_page_free (rp_of t p)" if "4 \<le> p" "p < 8" for p using e(4) [of p] rp [of p] that by simp
  have pre: "fork_pre {0 ..< 12} t 0 4" using n nf fr by (auto simp: fork_pre_def)
  have "\<not> is_cow t (0 + 1)" using e(5) [of 1] rp [of 1] by (simp add: is_cow_def)
  moreover have "ex_kmem (Some 1) (0 + 1) L = None" for L by (simp add: ex_kmem_def)
  ultimately show ?thesis
    using fork_error_loses_page [OF t(1) ex_kmem_ok [of "Some 1"] pre _ _ _ c(2,3,1)] n by auto
qed

text \<open>
  C13: In a consistent memory (every record counts its holders, every page read has a slot of its own)
  releasing the remote pages of a range of descriptors always works, keeps the memory consistent and leaves
  each of them without a page.  Every other descriptor reads what it read before and its slot stays
  taken.  The slots given back are exactly those that no descriptor outside the range reads.
\<close>

theorem release_keeps_shared_pages:
  assumes "cow_inv ord P m s" and "{head ..< head + num} \<subseteq> P"
  shows "\<exists>m' s'. remote_page_release m s head num = Some (m', s') \<and> cow_inv ord P m' s'
    \<and> (\<forall>q \<in> {head ..< head + num}. is_remote_page_free (rp_of s' q))
    \<and> (\<forall>q \<in> P - {head ..< head + num}. val_of s' q = val_of s q
        \<and> (\<not> is_remote_page_free (rp_of s q) \<longrightarrow> word_slot ord (val_of s q) \<in> used_slots (memregs m')))
    \<and> used_slots (memregs m') = used_slots (memregs m)
        - {word_slot ord (val_of s q) | q. q \<in> {head ..< head + num} \<and> \<not> is_remote_page_free (rp_of s q)
             \<and> (\<forall>p \<in> P - {head ..< head + num}. \<not> is_remote_page_free (rp_of s p) \<longrightarrow> val_of s p \<noteq> val_of s q)}"
proof -
  have P: "set (map (\<lambda>i. head + i) [0 ..< num]) \<subseteq> P" unfolding release_range by (rule assms(2))
  from release_loop_ok [OF assms(1) P] obtain m' s' where
    m': "remote_page_release m s head num = Some (m', s')" "cow_inv ord P m' s'"
    and rp: "\<And>q. rp_of s' q = (if q \<in> {head ..< head + num} then FREE_REMOTE_PAGE_VAL else rp_of s q)"
    and crp: "\<And>b. crp_remote_page (cm_store s' b) = crp_remote_page (cm_store s b)"
    and used: "used_slots (memregs m') - owned_slots ord P s' = used_slots (memregs m) - owned_slots ord P s"
      "owned_slots ord P s' \<subseteq> owned_slots ord P s"
    unfolding remote_page_release_def release_range by blast
  have val: "val_of s' q = val_of s q" if "q \<notin> {head ..< head + num}" for q
    using that rp [of q] crp by (simp add: val_of_def get_rp_val_def del: atLeastLessThan_iff)
  have slot: "word_slot ord (val_of s q) \<in> used_slots (memregs m')"
    if "q \<in> P - {head ..< head + num}" "\<not> is_remote_page_free (rp_of s q)" for q
    using that rp [of q] val [of q] val_slot [OF m'(2), of q] by (simp del: atLeastLessThan_iff)
  have free: "is_remote_page_free (rp_of s' q)" if "q \<in> {head ..< head + num}" for q
    using rp [of q] that by (simp add: is_remote_page_free_def del: atLeastLessThan_iff)
  note given = released_slots [OF assms(1,2) m'(2) rp val used, unfolded read_only_by_def]
  show ?thesis
    by (intro exI [of _ m'] exI [of _ s'] conjI ballI impI m' given) (rule free val slot, (blast | assumption)+)+
qed

lemma release_keeps_shared_pages_witness:
  "\<exists>m s m' s'. remote_page_release m s 0 4 = Some (m', s') \<and> cow_inv 1 {0 ..< 12} m' s' \<and> is_remote_page_free (rp_of s' 3)
    \<and> \<not> is_remote_page_free (rp_of s 3)"
proof -
  obtain m s where e: "cow_inv 1 {0 ..< 12} m s" "\<And>p. p < 4 \<Longrightarrow> \<not> is_remote_page_free (rp_of s p)"
    by (rule ex_fork_exists) blast
  have "{0 ..< 0 + 4} \<subseteq> {0 ..< 12::nat}" by auto
  from release_keeps_shared_pages [OF e(1) this] e(2) [of 3] show ?thesis by fastforce
qed

text \<open>
  C4: From a consistent memory without sharing, through any sequence of forks that succeed or fail,
  fetches and releases: two descriptors that read the same slot of a region share it through one
  counted record, and its count is the number of descriptors that share it.  The forks are of blocks
  each of whose subblocks has a remote page, into a block of other descriptors without remote pages
  (\<^verbatim>\<open>fork_pre\<close>).  The fork of a block with a zero subblock, which has no remote page, is not among the steps:
  there the code goes wrong, by \<^verbatim>\<open>fork_of_zero_block_breaks_release\<close>.
\<close>

theorem shared_pages_are_counted:
  assumes "mrs_ok ord m0" and "pages_ok ord (memregs m0) h P" and "finite P" and "kmem_ok kmem"
    and "(cow_step kmem P)\<^sup>*\<^sup>* (m0, \<lparr>cm_store = st, cm_live = {}, cm_gpas = h\<rparr>) (m, s)"
    and "p \<in> P" and "q \<in> P" and "p \<noteq> q"
    and "\<not> is_remote_page_free (rp_of s p)" and "\<not> is_remote_page_free (rp_of s q)"
    and "word_slot ord (val_of s p) = word_slot ord (val_of s q)"
  shows "is_cow s p \<and> is_cow s q \<and> rec_of s p = rec_of s q
    \<and> crp_refcnt (cm_store s (rec_of s p)) = int (card {x \<in> P. is_cow s x \<and> rec_of s x = rec_of s p})
    \<and> 2 \<le> crp_refcnt (cm_store s (rec_of s p))"
proof -
  have inv: "cow_inv ord P m s"
    using cow_steps_inv [OF assms(5,4)] cow_inv_init [OF assms(1-3)] by simp
  have c: "is_cow s p \<and> is_cow s q \<and> rec_of s p = rec_of s q"
    using shared_slot [OF inv assms(6,9) assms(7,10,8,11)] .
  have refs: "refs_ok P s" using inv by (simp add: cow_inv_def)
  have l: "rec_of s p \<in> cm_live s" using cow_live [OF inv assms(6)] c by (simp add: is_cow_def rec_of_def)
  have h: "holders P s (rec_of s p) = {x \<in> P. is_cow s x \<and> rec_of s x = rec_of s p}"
    by (simp add: holders_def is_cow_def rec_of_def)
  have n: "crp_refcnt (cm_store s (rec_of s p)) = int (card (holders P s (rec_of s p)))" using refsD [OF refs l] by simp
  have "{p, q} \<subseteq> holders P s (rec_of s p)" unfolding h using c assms(6,7) by simp
  then have "card {p, q} \<le> card (holders P s (rec_of s p))" by (rule card_mono [OF refs_finite [OF refs]])
  with c n assms(8) h show ?thesis by simp
qed

lemma shared_pages_are_counted_witness:
  "\<exists>s. is_cow s 0 \<and> is_cow s 4 \<and> 2 \<le> crp_refcnt (cm_store s (rec_of s 0))"
proof -
  obtain m s where e: "cow_inv 1 {0 ..< 12} m s" "num_subblock_in_block (cm_gpas s 0) = 4"
    "\<And>p. p < 4 \<Longrightarrow> \<not> is_remote_page_free (rp_of s p)" "\<And>p. 4 \<le> p \<Longrightarrow> is_remote_page_free (rp_of s p)"
    "cm_live s = {}" "mrs_ok 1 m" "pages_ok 1 (memregs m) (cm_gpas s) {0 ..< 12}" by (rule ex_fork_exists) blast
  have pre: "fork_pre {0 ..< 12} s 0 4" using e(2-4) by (auto simp: fork_pre_def)
  obtain ret s' where d: "dup_cow_gpadesc_remote (ex_kmem None) s 0 4 = (ret, s')" by (metis surj_pair)
  have "cow_step (ex_kmem None) {0 ..< 12} (m, s) (m, s')" by (rule cow_step.fork [OF pre d])
  moreover have s: "s = \<lparr>cm_store = cm_store s, cm_live = {}, cm_gpas = cm_gpas s\<rparr>" using e(5) by simp
  ultimately have step: "(cow_step (ex_kmem None) {0 ..< 12})\<^sup>*\<^sup>*
      (m, \<lparr>cm_store = cm_store s, cm_live = {}, cm_gpas = cm_gpas s\<rparr>) (m, s')" by auto
  obtain r s1 where g: "get_cow_remote_page_block (ex_kmem None) s 0 4 = (r, s1)" by (metis surj_pair)
  have r: "r \<ge> 0" using ex_fork_succeeds [OF e(1,2,5) pre d] d g by (auto simp: dup_cow_gpadesc_remote_def split: if_splits)
  with get_block_ok [OF e(1) ex_kmem_ok pre g] e(2) have
    b: "cow_inv 1 {0 ..< 12} m s1" "all_paired {0 ..< 12} s (old_new_gpas 4 0 4) s1" by auto
  have c: "rp_of s' q = rp_of s1 q" "cm_live s' = cm_live s1" "cm_store s' = cm_store s1" for q
    using d g r by (auto simp: dup_cow_gpadesc_remote_def rp_of_def set_block_remote_flag_simps)
  have "(0, 4) \<in> set (old_new_gpas 4 0 4)" by (simp add: old_new_gpas_def)
  from all_pairedD(1) [OF b(2) this] all_pairedD(3) [OF b(2), of 0]
  have p: "is_cow s' 0" "is_cow s' 4" "val_of s' 4 = val_of s' 0"
    by (simp_all add: pair_in_def is_cow_def c cow_inv_cong(2) [OF c])
  have "\<not> is_remote_page_free (rp_of s' 0)" "\<not> is_remote_page_free (rp_of s' 4)"
    using p(1,2) free_not_cow2 by (auto simp: is_cow_def)
  with shared_pages_are_counted [OF e(6,7) _ ex_kmem_ok step, of 0 4] p show ?thesis by auto
qed

text \<open>
  C15: The fork of a zero subblock, a descriptor without a remote page, goes through and puts the reserved
  word of no page into the shared record, so that both descriptors look as if they had one.  Releasing
  the first of them works; releasing the second, and with it the record, then looks up region 255,
  which does not exist.  Without the fork the release does nothing.
\<close>

theorem fork_of_zero_block_breaks_release:
  assumes "mrs_ok ord m" and "kmem_ok kmem" and "kmem old (cm_live s) = Some a" and "old \<noteq> new"
    and "num_subblock_in_block (cm_gpas s old) = 1" and "is_remote_page_free (rp_of s old)"
  shows "\<exists>s1 s2. dup_cow_gpadesc_remote kmem s old new = (0, s1)
    \<and> \<not> is_remote_page_free (rp_of s1 old) \<and> \<not> is_remote_page_free (rp_of s1 new)
    \<and> remote_page_release m s1 old 1 = Some (m, s2) \<and> remote_page_release m s2 new 1 = None
    \<and> remote_page_release m s old 1 = Some (m, s)"
proof -
  have a: "a AND REMOTE_PAGE_FLAG_MASK = 0" using assms(2,3) by (simp add: kmem_ok_def)
  note t = cow_tag_roundtrip [OF a]
  have c: "\<not> is_remote_page_cow (rp_of s old)" by (rule free_not_cow2 [OF assms(6)])
  define s1 where "s1 = join new a (share old a s)"
  define s2 where "s2 = s1\<lparr>cm_gpas := set_block_remote_flag (cm_gpas s1) new\<rparr>"
  define s3 where "s3 = set_rp_of old FREE_REMOTE_PAGE_VAL (upd_crp a (\<lambda>c. c\<lparr>crp_refcnt := crp_refcnt c - 1\<rparr>) s2)"
  have g: "get_cow_remote_page_block kmem s old new = (0, s1)"
    using c assms(3,5) by (simp add: get_cow_remote_page_block_def old_new_gpas_def get_cow_cases s1_def)
  have d: "dup_cow_gpadesc_remote kmem s old new = (0, s2)" by (simp add: dup_cow_gpadesc_remote_def g s2_def)
  have v: "rp_of s2 old = set_remote_page_cow (rp_of s old) a" "rp_of s2 new = set_remote_page_cow (rp_of s new) a"
    "cm_store s2 a = \<lparr>crp_refcnt = 2, crp_remote_page = FREE_REMOTE_PAGE_VAL\<rparr>"
    using assms(4,6) by (simp_all add: s2_def s1_def join_def share_def rp_of_def set_block_remote_flag_simps is_remote_page_free_def
        set_rp_of_def upd_crp_def)
  have nf: "\<not> is_remote_page_free (rp_of s2 old)" "\<not> is_remote_page_free (rp_of s2 new)"
    unfolding v using t free_not_cow2 by blast+
  have first: "remote_page_release m s2 old 1 = Some (m, s3)"
    using nf(1) t v by (simp add: remote_page_release_def put_cow_remote_page_def put_cow_remote_page2_def s3_def Let_def)
  have w: "rp_of s3 new = set_remote_page_cow (rp_of s new) a" "crp_refcnt (cm_store s3 a) = 1"
    "crp_remote_page (cm_store s3 a) = FREE_REMOTE_PAGE_VAL"
    using v assms(4) by (simp_all add: s3_def)
  have id255: "unat (get_remote_page_mrid st FREE_REMOTE_PAGE_VAL) = 255" for st
    using free_not_cow2 [of FREE_REMOTE_PAGE_VAL]
    by (simp add: get_remote_page_mrid_def get_rp_val_def is_remote_page_free_def raw_remote_page_mrid_def
        FREE_REMOTE_PAGE_VAL_def REMOTE_PAGE_MRID_MASK_def REMOTE_PAGE_MRID_SHIFT_def drop_bit_eq_div)
  have none: "memregs m ! 255 = None"
    using mrs_ok_region [OF assms(1), of 255] by (cases "memregs m ! 255") (auto simp: region_res_def)
  have r: "free_remote_page4 st m h p = None" if "remote_page (h p) = FREE_REMOTE_PAGE_VAL" for st h p
    using that none by (simp add: free_remote_page4_def release_remote_page_def id255 Let_def)
  have "\<not> is_remote_page_free (rp_of s3 new)" unfolding w using t free_not_cow2 by blast
  then have "remote_page_release m s3 new 1 = None"
    using t w by (simp add: remote_page_release_def put_cow_remote_page_def put_cow_remote_page2_def Let_def)
      (simp add: r set_rp_of_def set_rp_def)
  moreover have "remote_page_release m s old 1 = Some (m, s)" using assms(6) by (simp add: remote_page_release_def)
  ultimately show ?thesis using d nf first by blast
qed

lemma fork_of_zero_block_breaks_release_witness:
  "\<exists>s1 s2. dup_cow_gpadesc_remote (ex_kmem None) \<lparr>cm_store = ex_store, cm_live = {}, cm_gpas = (\<lambda>p. ex_gpa\<lparr>block_order := 1\<rparr>)\<rparr> 0 1 = (0, s1)
    \<and> remote_page_release (ex_mrs 2) s1 0 1 = Some (ex_mrs 2, s2) \<and> remote_page_release (ex_mrs 2) s2 1 1 = None"
proof -
  have m: "mrs_ok 1 (ex_mrs 2)" by (rule ex_mrs_ok) (simp add: MAX_MRID_def)
  let ?s = "\<lparr>cm_store = ex_store, cm_live = {}, cm_gpas = (\<lambda>p. ex_gpa\<lparr>block_order := 1\<rparr>)\<rparr> :: cow_mem"
  have "ex_kmem None 0 (cm_live ?s) = Some 4" "num_subblock_in_block (cm_gpas ?s 0) = 1" "is_remote_page_free (rp_of ?s 0)"
    by (simp_all add: ex_kmem_def num_subblock_in_block_def ex_gpa_def rp_of_def is_remote_page_free_def)
  from fork_of_zero_block_breaks_release [OF m ex_kmem_ok this(1) _ this(2,3), of 1] show ?thesis by auto
qed

end
