(* ===== verification/Block_Lock.thy ===== *)
theory Block_Lock
  imports Gpa_Block
begin

text \<open>
  Locking a block while other threads lock, resize and replace blocks (\<^verbatim>\<open>src/module_gpl/block.h\<close>:
  \<^verbatim>\<open>_emp_lock_block()\<close>, \<^verbatim>\<open>_emp_trylock_block()\<close>, \<^verbatim>\<open>_emp_trylock_local_page()\<close>).  The lock of a block is
  the lock of its head, and which descriptor is the head is read before the lock is held, so the
  functions check again afterwards and retry.

  A thread is a program counter; each step of \<open>lock_next\<close> reads or writes shared memory once.  The
  threads interleave in any order.  What a thread does with the blocks it holds is \<open>Inside\<close>: it may try
  more locks, unlock, change the orders of descriptors whose old and new heads it holds, and replace
  the descriptor of an index under the same condition (\<^verbatim>\<open>change_gpa_dir()\<close>).  \<open>lk_owner\<close> is a ghost field
  that says who took a lock.
\<close>

section \<open>The functions as program counters\<close>

datatype lock_kind = Lock_Block | Trylock_Block | Trylock_Local

datatype lock_pc =
    Idle
  | Relock lock_kind nat gpa_ptr
  | Trying lock_kind nat gpa_ptr gpa_ptr
  | Locked_Dir lock_kind nat gpa_ptr gpa_ptr
  | Locked_Head lock_kind nat gpa_ptr gpa_ptr
  | Unlocking lock_kind nat gpa_ptr gpa_ptr
  | Holding lock_kind nat gpa_ptr gpa_ptr
  | Refused
  | Fault
  | Inside

record lk_state =
  lk_heap :: gpa_heap
  lk_dir :: "nat \<Rightarrow> gpa_ptr option"
  lk_owner :: "gpa_ptr \<Rightarrow> nat option"

text \<open>
  The pending descriptor is the argument; \<^verbatim>\<open>_emp_trylock_local_page()\<close> has no index and skips the test of
  the directory.  \<open>Fault\<close> is a dereference of a NULL descriptor.
\<close>

fun lock_next :: "nat \<Rightarrow> lock_pc \<Rightarrow> lk_state \<Rightarrow> lock_pc \<times> lk_state" where
  "lock_next t (Relock k i gpa) s = (Trying k i gpa (emp_get_block_head (lk_heap s) gpa), s)"
| "lock_next t (Trying k i gpa head) s =
     (case emp_trylock_head (lk_heap s) head of
        (True, h) \<Rightarrow> (if k = Trylock_Local then Locked_Head k i gpa head else Locked_Dir k i gpa head,
                      s\<lparr>lk_heap := h, lk_owner := (lk_owner s)(head := Some t)\<rparr>)
      | (False, h) \<Rightarrow> (if k = Lock_Block then Trying k i gpa head else Refused, s\<lparr>lk_heap := h\<rparr>))"
| "lock_next t (Locked_Dir k i gpa head) s =
     (if lk_dir s i \<noteq> Some gpa
      then (case lk_dir s i of None \<Rightarrow> (Fault, s) | Some gpa' \<Rightarrow> (Unlocking k i gpa' head, s))
      else (Locked_Head k i gpa head, s))"
| "lock_next t (Locked_Head k i gpa head) s =
     (if head = emp_get_block_head (lk_heap s) gpa then (Holding k i gpa head, s) else (Unlocking k i gpa head, s))"
| "lock_next t (Unlocking k i gpa head) s =
     (Relock k i gpa, s\<lparr>lk_heap := emp_unlock_head (lk_heap s) head, lk_owner := (lk_owner s)(head := None)\<rparr>)"
| "lock_next t pc s = (pc, s)"

section \<open>Threads\<close>

text \<open>A change of orders: the head of a descriptor moves only between heads that the thread holds.\<close>

definition resized :: "nat \<Rightarrow> (gpa_ptr \<Rightarrow> nat option) \<Rightarrow> gpa_heap \<Rightarrow> gpa_heap \<Rightarrow> bool" where
  "resized t own h h' \<longleftrightarrow> (\<forall>p. gpa_lock (h' p) = gpa_lock (h p))
     \<and> (\<forall>p. emp_get_block_head h' p \<noteq> emp_get_block_head h p \<longrightarrow>
          own (emp_get_block_head h p) = Some t \<and> own (emp_get_block_head h' p) = Some t)"

inductive lock_step :: "(nat \<Rightarrow> lock_pc) \<times> lk_state \<Rightarrow> (nat \<Rightarrow> lock_pc) \<times> lk_state \<Rightarrow> bool" where
  call: "pcs t = Idle \<Longrightarrow> (k = Trylock_Local \<or> lk_dir s i \<noteq> None) \<Longrightarrow>
    lock_step (pcs, s) (pcs(t := Relock k i gpa), s)"
| code: "lock_next t (pcs t) s = (pc, s') \<Longrightarrow> lock_step (pcs, s) (pcs(t := pc), s')"
| refused: "pcs t = Refused \<Longrightarrow> lock_step (pcs, s) (pcs(t := Idle), s)"
| enter: "pcs t = Holding k i gpa head \<Longrightarrow> lock_step (pcs, s) (pcs(t := Inside), s)"
| try_more: "pcs t = Inside \<Longrightarrow> emp_trylock_head (lk_heap s) p = (True, h) \<Longrightarrow>
    lock_step (pcs, s) (pcs, s\<lparr>lk_heap := h, lk_owner := (lk_owner s)(p := Some t)\<rparr>)"
| unlock: "pcs t = Inside \<Longrightarrow> lk_owner s p = Some t \<Longrightarrow>
    lock_step (pcs, s) (pcs, s\<lparr>lk_heap := emp_unlock_head (lk_heap s) p, lk_owner := (lk_owner s)(p := None)\<rparr>)"
| resize: "pcs t = Inside \<Longrightarrow> resized t (lk_owner s) (lk_heap s) h \<Longrightarrow> lock_step (pcs, s) (pcs, s\<lparr>lk_heap := h\<rparr>)"
| change_dir: "pcs t = Inside \<Longrightarrow> lk_dir s i = Some old \<Longrightarrow>
    lk_owner s (emp_get_block_head (lk_heap s) old) = Some t \<Longrightarrow>
    lock_step (pcs, s) (pcs, s\<lparr>lk_dir := (lk_dir s)(i := Some new)\<rparr>)"
| leave: "pcs t = Inside \<Longrightarrow> (\<forall>p. lk_owner s p \<noteq> Some t) \<Longrightarrow> lock_step (pcs, s) (pcs(t := Idle), s)"

section \<open>The invariant\<close>

text \<open>What holds of a thread at a program counter: the locks it owns and what it knows of its block.\<close>

definition owned_by :: "lk_state \<Rightarrow> nat \<Rightarrow> gpa_ptr set" where
  "owned_by s t = {p. lk_owner s p = Some t}"

definition knows :: "lk_state \<Rightarrow> lock_kind \<Rightarrow> nat \<Rightarrow> gpa_ptr \<Rightarrow> gpa_ptr \<Rightarrow> bool" where
  "knows s k i gpa head \<longleftrightarrow> (emp_get_block_head (lk_heap s) gpa = head \<longrightarrow> k \<noteq> Trylock_Local \<longrightarrow> lk_dir s i = Some gpa)"

fun pc_ok :: "lk_state \<Rightarrow> nat \<Rightarrow> lock_pc \<Rightarrow> bool" where
  "pc_ok s t (Relock k i gpa) \<longleftrightarrow> owned_by s t = {} \<and> (k = Trylock_Local \<or> lk_dir s i \<noteq> None)"
| "pc_ok s t (Trying k i gpa head) \<longleftrightarrow> owned_by s t = {} \<and> (k = Trylock_Local \<or> lk_dir s i \<noteq> None)"
| "pc_ok s t (Locked_Dir k i gpa head) \<longleftrightarrow> owned_by s t = {head} \<and> k \<noteq> Trylock_Local \<and> lk_dir s i \<noteq> None"
| "pc_ok s t (Locked_Head k i gpa head) \<longleftrightarrow>
     owned_by s t = {head} \<and> (k = Trylock_Local \<or> lk_dir s i \<noteq> None) \<and> knows s k i gpa head"
| "pc_ok s t (Unlocking k i gpa head) \<longleftrightarrow> owned_by s t = {head} \<and> (k = Trylock_Local \<or> lk_dir s i \<noteq> None)"
| "pc_ok s t (Holding k i gpa head) \<longleftrightarrow>
     owned_by s t = {head} \<and> emp_get_block_head (lk_heap s) gpa = head \<and> knows s k i gpa head"
| "pc_ok s t Fault \<longleftrightarrow> False"
| "pc_ok s t Inside \<longleftrightarrow> True"
| "pc_ok s t _ \<longleftrightarrow> owned_by s t = {}"

definition lk_inv :: "(nat \<Rightarrow> lock_pc) \<times> lk_state \<Rightarrow> bool" where
  "lk_inv c \<longleftrightarrow> (\<forall>p. gpa_lock (lk_heap (snd c) p) \<longleftrightarrow> lk_owner (snd c) p \<noteq> None)
     \<and> (\<forall>t. pc_ok (snd c) t (fst c t))"

text \<open>
  A step of \<open>t\<close> is fair to the others: it changes the owner only of locks that are free or its own, and
  the heads and directory entries only of blocks it holds.
\<close>

definition fair :: "nat \<Rightarrow> lk_state \<Rightarrow> lk_state \<Rightarrow> bool" where
  "fair t s s' \<longleftrightarrow>
     (\<forall>p. lk_owner s' p \<noteq> lk_owner s p \<longrightarrow> lk_owner s p \<in> {None, Some t} \<and> lk_owner s' p \<in> {None, Some t})
     \<and> (\<forall>p. emp_get_block_head (lk_heap s') p \<noteq> emp_get_block_head (lk_heap s) p \<longrightarrow>
          lk_owner s (emp_get_block_head (lk_heap s) p) = Some t \<and> lk_owner s (emp_get_block_head (lk_heap s') p) = Some t)
     \<and> (\<forall>i. lk_dir s' i \<noteq> lk_dir s i \<longrightarrow> lk_dir s' i \<noteq> None
          \<and> (\<exists>old. lk_dir s i = Some old \<and> lk_owner s (emp_get_block_head (lk_heap s) old) = Some t))"

lemma head_trylock [simp]:
  "emp_get_block_head (snd (emp_trylock_head h q)) p = emp_get_block_head h p"
  "emp_get_block_head (emp_unlock_head h q) p = emp_get_block_head h p"
  by (simp_all add: emp_get_block_head_def emp_trylock_head_def emp_gpa_trylock_def emp_unlock_head_def
      emp_gpa_unlock_def)

lemma trylock_cases:
  "emp_trylock_head h p = (True, h') \<Longrightarrow> \<not> gpa_lock (h p) \<and> (\<forall>q. gpa_lock (h' q) \<longleftrightarrow> q = p \<or> gpa_lock (h q))
     \<and> (\<forall>q. emp_get_block_head h' q = emp_get_block_head h q)"
  "emp_trylock_head h p = (False, h') \<Longrightarrow> gpa_lock (h p) \<and> h' = h"
  by (auto simp: emp_trylock_head_def emp_gpa_trylock_def emp_get_block_head_def split: if_splits)

lemma unlock_lock: "gpa_lock (emp_unlock_head h p q) \<longleftrightarrow> q \<noteq> p \<and> gpa_lock (h q)"
  by (simp add: emp_unlock_head_def emp_gpa_unlock_def)

lemma fair_owned: "fair t s s' \<Longrightarrow> u \<noteq> t \<Longrightarrow> owned_by s' u = owned_by s u"
  unfolding fair_def owned_by_def by (intro Collect_cong) (metis empty_iff insert_iff option.distinct(1) option.inject)

lemma fair_pc:
  assumes "fair t s s'" and "u \<noteq> t" and "pc_ok s u pc"
  shows "pc_ok s' u pc"
proof -
  note o = fair_owned [OF assms(1,2)]
  have dir: "lk_dir s i \<noteq> None \<Longrightarrow> lk_dir s' i \<noteq> None" for i using assms(1) unfolding fair_def by metis
  have head: "emp_get_block_head (lk_heap s') p = emp_get_block_head (lk_heap s) p"
    if "lk_owner s (emp_get_block_head (lk_heap s) p) = Some u \<or> lk_owner s (emp_get_block_head (lk_heap s') p) = Some u" for p
    using assms(1,2) that unfolding fair_def by (metis option.inject)
  have dirs: "lk_dir s' i = Some p" if "lk_dir s i = Some p" "lk_owner s (emp_get_block_head (lk_heap s) p) = Some u" for i p
    using assms(1,2) that unfolding fair_def by (metis option.inject)
  have kn: "knows s' k i gpa hd" if k: "knows s k i gpa hd" and h: "owned_by s u = {hd}" for k i gpa hd
    unfolding knows_def
  proof (intro impI)
    assume a: "emp_get_block_head (lk_heap s') gpa = hd" "k \<noteq> Trylock_Local"
    have ow: "lk_owner s hd = Some u" using h by (auto simp: owned_by_def)
    then have "emp_get_block_head (lk_heap s) gpa = hd" using head [of gpa] a(1) by simp
    with k a(2) ow dirs show "lk_dir s' i = Some gpa" by (simp add: knows_def)
  qed
  have hold: "emp_get_block_head (lk_heap s') gpa = hd" if "emp_get_block_head (lk_heap s) gpa = hd" "owned_by s u = {hd}" for gpa hd
  proof -
    have "lk_owner s hd = Some u" using that(2) by (auto simp: owned_by_def)
    with head [of gpa] that(1) show ?thesis by simp
  qed
  show ?thesis using assms(3) dir kn hold by (cases pc) (auto simp: o)
qed

text \<open>One step of the code from a good state: it is fair, and the counter it reaches is good.\<close>

definition locks_owned :: "lk_state \<Rightarrow> bool" where
  "locks_owned s \<longleftrightarrow> (\<forall>p. gpa_lock (lk_heap s p) \<longleftrightarrow> lk_owner s p \<noteq> None)"

lemma owned_upd:
  "owned_by (s\<lparr>lk_heap := h, lk_owner := (lk_owner s)(p := Some t)\<rparr>) t = insert p (owned_by s t)"
  "owned_by (s\<lparr>lk_heap := h, lk_owner := (lk_owner s)(p := None)\<rparr>) t = owned_by s t - {p}"
  by (auto simp: owned_by_def)

lemma lock_next_ok:
  assumes l: "locks_owned s" and pc: "pc_ok s t pc" and n: "lock_next t pc s = (pc', s')"
  shows "fair t s s' \<and> locks_owned s' \<and> pc_ok s' t pc'"
proof (cases pc)
  case (Trying k i gpa head)
  obtain b h where tr: "emp_trylock_head (lk_heap s) head = (b, h)" by (metis surj_pair)
  have empty: "owned_by s t = {}" using pc Trying by simp
  show ?thesis
  proof (cases b)
    case True
    have "emp_trylock_head (lk_heap s) head = (True, h)" using tr True by simp
    note f = trylock_cases(1) [OF this]
    have no: "lk_owner s head = None" using f l by (metis locks_owned_def)
    have s': "s' = s\<lparr>lk_heap := h, lk_owner := (lk_owner s)(head := Some t)\<rparr>"
      and p: "pc' = (if k = Trylock_Local then Locked_Head k i gpa head else Locked_Dir k i gpa head)"
      using n Trying tr True by simp_all
    have "fair t s s'" using no f by (auto simp: fair_def s')
    moreover have "locks_owned s'" using l f by (auto simp: locks_owned_def s')
    moreover have "pc_ok s' t pc'" using pc Trying empty by (auto simp: p s' owned_upd knows_def)
    ultimately show ?thesis by simp
  next
    case False
    have "emp_trylock_head (lk_heap s) head = (False, h)" using tr False by simp
    then have "h = lk_heap s" using trylock_cases(2) by blast
    then have "s' = s" "pc' = (if k = Lock_Block then Trying k i gpa head else Refused)"
      using n Trying tr False by simp_all
    with l pc Trying show ?thesis by (auto simp: fair_def)
  qed
next
  case (Unlocking k i gpa head)
  have s': "s' = s\<lparr>lk_heap := emp_unlock_head (lk_heap s) head, lk_owner := (lk_owner s)(head := None)\<rparr>"
    and p: "pc' = Relock k i gpa" using n Unlocking by simp_all
  have "lk_owner s head = Some t" using pc Unlocking by (auto simp: owned_by_def)
  then have "fair t s s'" by (auto simp: fair_def s')
  moreover have "locks_owned s'" using l by (auto simp: locks_owned_def s' unlock_lock)
  moreover have "pc_ok s' t pc'" using pc Unlocking by (simp add: p s' owned_upd)
  ultimately show ?thesis by simp
qed (use assms in \<open>auto simp: fair_def knows_def split: if_splits option.splits\<close>)

lemma lock_step_ok:
  assumes "lock_step c c'" and "lk_inv c"
  shows "\<exists>t. (\<forall>u. u \<noteq> t \<longrightarrow> fst c' u = fst c u) \<and> fair t (snd c) (snd c') \<and> locks_owned (snd c')
    \<and> pc_ok (snd c') t (fst c' t)"
  using assms
proof (cases rule: lock_step.cases)
  case (code t pcs s pc s')
  with assms(2) lock_next_ok [of s t "pcs t" pc s'] show ?thesis by (auto simp: lk_inv_def locks_owned_def)
next
  case (try_more pcs t s p h)
  note f = trylock_cases(1) [OF try_more(4)]
  have "lk_owner s p = None" using f assms(2) try_more(1) by (auto simp: lk_inv_def)
  with f assms(2) try_more show ?thesis by (intro exI [of _ t]) (auto simp: fair_def lk_inv_def locks_owned_def)
next
  case (unlock pcs t s p)
  with assms(2) show ?thesis by (intro exI [of _ t]) (auto simp: fair_def lk_inv_def locks_owned_def unlock_lock)
next
  case (resize pcs t s h)
  with assms(2) show ?thesis by (intro exI [of _ t]) (auto simp: fair_def lk_inv_def locks_owned_def resized_def)
next
  case (change_dir pcs t s i old new)
  with assms(2) show ?thesis by (intro exI [of _ t]) (auto simp: fair_def lk_inv_def locks_owned_def)
next
  case (call pcs t k s i gpa)
  have "pc_ok s t (pcs t)" using assms(2) call(1) by (simp add: lk_inv_def)
  with assms(2) call show ?thesis by (intro exI [of _ t]) (auto simp: fair_def lk_inv_def locks_owned_def)
next
  case (refused pcs t s)
  have "pc_ok s t (pcs t)" using assms(2) refused(1) by (simp add: lk_inv_def)
  with assms(2) refused show ?thesis by (intro exI [of _ t]) (auto simp: fair_def lk_inv_def locks_owned_def)
next
  case (enter pcs t k i gpa head s)
  with assms(2) show ?thesis by (intro exI [of _ t]) (auto simp: fair_def lk_inv_def locks_owned_def)
next
  case (leave pcs t s)
  with assms(2) show ?thesis by (intro exI [of _ t]) (auto simp: fair_def lk_inv_def locks_owned_def owned_by_def)
qed

lemma lock_step_inv:
  assumes "lock_step c c'" and "lk_inv c"
  shows "lk_inv c'"
proof -
  from lock_step_ok [OF assms] obtain t where t: "\<forall>u. u \<noteq> t \<longrightarrow> fst c' u = fst c u" "fair t (snd c) (snd c')"
    "locks_owned (snd c')" "pc_ok (snd c') t (fst c' t)" by blast
  have "pc_ok (snd c') u (fst c' u)" for u
  proof (cases "u = t")
    case False
    have "pc_ok (snd c) u (fst c u)" using assms(2) by (simp add: lk_inv_def)
    with fair_pc [OF t(2) False] t(1) False show ?thesis by simp
  qed (simp add: t(4))
  with t(3) show ?thesis by (simp add: lk_inv_def locks_owned_def)
qed

lemma lock_steps_inv: "lock_step\<^sup>*\<^sup>* c c' \<Longrightarrow> lk_inv c \<Longrightarrow> lk_inv c'"
  by (induction rule: rtranclp_induct) (auto intro: lock_step_inv)

lemma lk_inv_init:
  assumes "\<forall>t. pcs t = Idle" and "\<forall>p. \<not> gpa_lock (lk_heap s p)" and "\<forall>p. lk_owner s p = None"
  shows "lk_inv (pcs, s)"
  using assms by (simp add: lk_inv_def owned_by_def)

section \<open>A lock nobody else wants\<close>

definition lock_run :: "nat \<Rightarrow> nat \<Rightarrow> lock_pc \<times> lk_state \<Rightarrow> lock_pc \<times> lk_state" where
  "lock_run n t c = ((\<lambda>(pc, s). lock_next t pc s) ^^ n) c"

lemma lock_run_step: "lock_run (Suc n) t (pc, s) = lock_run n t (lock_next t pc s)"
  by (simp add: lock_run_def funpow_swap1)

lemma lock_run_0 [simp]: "lock_run 0 t c = c"
  by (simp add: lock_run_def)

lemma trylock_free: "\<not> gpa_lock (h p) \<Longrightarrow> emp_trylock_head h p = (True, h(p := (h p)\<lparr>gpa_lock := True\<rparr>))"
  by (simp add: emp_trylock_head_def emp_gpa_trylock_def)

lemma lock_run_current:
  assumes "lk_dir s i = Some gpa" and "\<not> gpa_lock (lk_heap s (emp_get_block_head (lk_heap s) gpa))"
  shows "lock_run 4 t (Relock Lock_Block i gpa, s) =
    (Holding Lock_Block i gpa (emp_get_block_head (lk_heap s) gpa),
     s\<lparr>lk_heap := (lk_heap s)(emp_get_block_head (lk_heap s) gpa :=
          (lk_heap s (emp_get_block_head (lk_heap s) gpa))\<lparr>gpa_lock := True\<rparr>),
       lk_owner := (lk_owner s)(emp_get_block_head (lk_heap s) gpa := Some t)\<rparr>)"
proof -
  have n: "(4::nat) = Suc (Suc (Suc (Suc 0)))" by simp
  have hd: "emp_get_block_head ((lk_heap s)(p := (lk_heap s p)\<lparr>gpa_lock := b\<rparr>)) q = emp_get_block_head (lk_heap s) q" for p b q
    by (simp add: emp_get_block_head_def)
  show ?thesis
    unfolding n lock_run_step using assms trylock_free [where h = "lk_heap s", OF assms(2)]
    by (simp add: lock_run_step hd)
qed

lemma heap_lock_unlock:
  "\<not> gpa_lock (h p) \<Longrightarrow> emp_unlock_head (h(p := (h p)\<lparr>gpa_lock := True\<rparr>)) p = h"
  by (auto simp: emp_unlock_head_def emp_gpa_unlock_def fun_eq_iff)

lemma lock_run_stale:
  assumes "lk_dir s i = Some new" and "new \<noteq> gpa" and "\<not> gpa_lock (lk_heap s (emp_get_block_head (lk_heap s) gpa))"
    and "lk_owner s (emp_get_block_head (lk_heap s) gpa) = None"
  shows "lock_run 4 t (Relock Lock_Block i gpa, s) = (Relock Lock_Block i new, s)"
proof -
  have n: "(4::nat) = Suc (Suc (Suc (Suc 0)))" by simp
  have u: "s\<lparr>lk_owner := (lk_owner s)(emp_get_block_head (lk_heap s) gpa := None)\<rparr> = s"
    using assms(4) by (simp add: fun_upd_idem)
  show ?thesis
    unfolding n lock_run_step using assms trylock_free [where h = "lk_heap s", OF assms(3)]
    by (simp add: lock_run_step heap_lock_unlock [where h = "lk_heap s", OF assms(3)] u)
qed

lemma lock_run_add: "lock_run (a + b) t c = lock_run b t (lock_run a t c)"
  by (simp add: lock_run_def funpow_add add.commute [of a b])

end
