(* ===== verification/Els_Lock.thy ===== *)
theory Els_Lock
  imports Block_Lock Els_Block
begin

text \<open>
  The elastic blocks and the block locks together: what \<^verbatim>\<open>els_reduce()\<close>, \<^verbatim>\<open>els_tryreduce_complete()\<close>
  and \<^verbatim>\<open>__els_stretch()\<close> do to the descriptors is a sequence of steps of the lock protocol of
  \<open>Block_Lock\<close>, taken by the thread that holds the blocks.  So the protocol's invariant holds while
  blocks are resized, and a thread that returned from locking a block can rely on its head.
\<close>

lemma resizedI:
  assumes "\<And>p. gpa_lock (h' p) = gpa_lock (h p)"
    and "\<And>p. emp_get_block_head h' p \<noteq> emp_get_block_head h p \<Longrightarrow>
      own (emp_get_block_head h p) = Some t \<and> own (emp_get_block_head h' p) = Some t"
  shows "resized t own h h'"
  using assms by (simp add: resized_def)

lemma head_of_group:
  "2 ^ k dvd (s::nat) \<Longrightarrow> same_group k s q \<Longrightarrow> desc_order (h q) = k \<Longrightarrow> emp_get_block_head h q = s"
proof -
  assume a: "2 ^ k dvd s" "same_group k s q" "desc_order (h q) = k"
  have "align_down k q = align_down k s" using a(2) by (simp add: same_group_def align_down_def minus_mod_eq_mult_div)
  moreover have "align_down k s = s" using a(1) by (intro align_down_unique) auto
  ultimately show ?thesis using a(3) by (simp add: emp_get_block_head_def head_at_align)
qed

lemma els_stretch_resized:
  assumes ok: "els_ok (mm_gpas m)" and b: "buddies (mm_gpas m) c s b" and res: "els_stretch m s b = Some m'"
    and own: "own c = Some t" "own b = Some t"
  shows "resized t own (mm_gpas m) (mm_gpas m')"
proof (rule resizedI)
  note e = els_stretch_ok [OF ok b res]
  note f = buddies_facts [OF ok b]
  let ?d = "desc_order (mm_gpas m c)"
  fix p
  show "gpa_lock (mm_gpas m' p) = gpa_lock (mm_gpas m p)" using e(4) by simp
  assume ne: "emp_get_block_head (mm_gpas m') p \<noteq> emp_get_block_head (mm_gpas m) p"
  have g: "same_group (Suc ?d) c p" using ne e(2) [of p] by (auto simp: emp_get_block_head_def split: if_splits)
  have s: "s = c \<or> s = b" "s + 2 ^ ?d = c \<or> s + 2 ^ ?d = b" using f(3) by auto
  have ds: "2 ^ Suc ?d dvd s" unfolding f(1) by (rule align_down_dvd)
  then have dh: "2 ^ ?d dvd s" "2 ^ ?d dvd s + 2 ^ ?d" by (metis dvd_mult_left power_Suc2 dvd_add dvd_refl)+
  have before: "desc_order (mm_gpas m p) = ?d" using f(4) [OF g] by simp
  have "emp_get_block_head (mm_gpas m) p = s \<or> emp_get_block_head (mm_gpas m) p = s + 2 ^ ?d"
    using same_group_Suc(1) [OF f(2,1), of p] g 
      head_of_group [where h = "mm_gpas m", OF dh(1) _ before] head_of_group [where h = "mm_gpas m", OF dh(2) _ before] by blast
  moreover have "emp_get_block_head (mm_gpas m') p = s"
  proof (rule head_of_group [OF ds])
    show "same_group (Suc ?d) s p" using g f(1) same_group_range by (metis align_down_dvd align_down_idem)
    show "desc_order (mm_gpas m' p) = Suc ?d" using e(2) g by simp
  qed
  ultimately show "own (emp_get_block_head (mm_gpas m) p) = Some t
      \<and> own (emp_get_block_head (mm_gpas m') p) = Some t"
    using s own by metis
qed

lemma els_reduce_resized:
  assumes ok: "els_ok (mm_gpas m)" and hd: "emp_get_block_head (mm_gpas m) s = s"
    and d: "desc_order (mm_gpas m s) = Suc k" and res: "els_reduce m s = (Some hs, m')" and own: "own s = Some t"
  shows "emp_trylock_head (mm_gpas m) (s + 2 ^ k) = (True, (mm_gpas m)(s + 2 ^ k := (mm_gpas m (s + 2 ^ k))\<lparr>gpa_lock := True\<rparr>))"
    and "resized t (own(s + 2 ^ k := Some t)) ((mm_gpas m)(s + 2 ^ k := (mm_gpas m (s + 2 ^ k))\<lparr>gpa_lock := True\<rparr>)) (mm_gpas m')"
proof -
  note e = els_reduce_ok [OF ok hd d res]
  let ?b = "s + 2 ^ k"
  let ?h1 = "(mm_gpas m)(?b := (mm_gpas m ?b)\<lparr>gpa_lock := True\<rparr>)"
  show "emp_trylock_head (mm_gpas m) ?b = (True, ?h1)" by (rule trylock_free [where h = "mm_gpas m", OF e(6)])
  have dv: "2 ^ Suc k dvd s" using head_dvd [OF hd] d by simp
  have al: "align_down (Suc k) s = s" using halves(1) [OF dv] .
  have dh: "2 ^ k dvd s" "2 ^ k dvd s + 2 ^ k" using dv by (metis dvd_mult_left power_Suc2 dvd_add dvd_refl)+
  have h1: "desc_order (?h1 q) = desc_order (mm_gpas m q)" for q by simp
  show "resized t (own(?b := Some t)) ?h1 (mm_gpas m')"
  proof (rule resizedI)
    fix p
    show "gpa_lock (mm_gpas m' p) = gpa_lock (?h1 p)" using e(7) [of p] by simp
    assume "emp_get_block_head (mm_gpas m') p \<noteq> emp_get_block_head ?h1 p"
    then have g: "same_group (Suc k) s p"
      using e(3) [of p] h1 [of p] unfolding emp_get_block_head_def by (auto split: if_splits)
    have before: "desc_order (mm_gpas m p) = Suc k" using els_ok_block [OF ok, of s p] g d by simp
    have "desc_order (?h1 p) = Suc k" using before h1 by simp
    from head_of_group [where h = ?h1, OF dv g this] have b: "emp_get_block_head ?h1 p = s" .
    have after: "desc_order (mm_gpas m' p) = k" using e(3) [of p] g by simp
    have "same_group k s p \<or> same_group k ?b p" using same_group_Suc(1) [OF dh(1) al [symmetric]] g by blast
    then have "emp_get_block_head (mm_gpas m') p = s \<or> emp_get_block_head (mm_gpas m') p = ?b"
      using head_of_group [where h = "mm_gpas m'", OF dh(1) _ after]
        head_of_group [where h = "mm_gpas m'", OF dh(2) _ after] by blast
    with b own show "(own(?b := Some t)) (emp_get_block_head ?h1 p) = Some t
        \<and> (own(?b := Some t)) (emp_get_block_head (mm_gpas m') p) = Some t" by auto
  qed
qed

lemma els_tryreduce_complete_resized:
  assumes ok: "els_ok (mm_gpas m)" and hd: "emp_get_block_head (mm_gpas m) s = s" and lk: "gpa_lock (mm_gpas m s)"
    and res: "els_tryreduce_complete m s = (Some hs, m')" and own: "own s = Some t"
  defines "B \<equiv> {s + 1 ..< s + 2 ^ desc_order (mm_gpas m s)}"
  shows "\<forall>g \<in> B. \<not> gpa_lock (mm_gpas m g)"
    and "resized t (\<lambda>p. if p \<in> B then Some t else own p) (lock_all B (mm_gpas m)) (mm_gpas m')"
proof -
  let ?d = "desc_order (mm_gpas m s)"
  note e = els_tryreduce_complete_ok [OF ok hd lk res]
  have dv: "2 ^ ?d dvd s" by (rule head_dvd [OF hd])
  have al: "align_down ?d s = s" using dv by (intro align_down_unique) auto
  have sg: "same_group ?d s p \<longleftrightarrow> p \<in> insert s B" for p
    unfolding same_group_range al B_def by auto
  have sB: "s \<notin> B" by (simp add: B_def)
  show "\<forall>g \<in> B. \<not> gpa_lock (mm_gpas m g)" using e(5) sg sB by auto
  have la: "desc_order (lock_all B (mm_gpas m) q) = desc_order (mm_gpas m q)" for q by (simp add: lock_all_def)
  show "resized t (\<lambda>p. if p \<in> B then Some t else own p) (lock_all B (mm_gpas m)) (mm_gpas m')"
  proof (rule resizedI)
    fix p
    show "gpa_lock (mm_gpas m' p) = gpa_lock (lock_all B (mm_gpas m) p)"
      using e(4) [of p] sg [of p] lk by (auto simp: lock_all_def)
    assume "emp_get_block_head (mm_gpas m') p \<noteq> emp_get_block_head (lock_all B (mm_gpas m)) p"
    then have g: "same_group ?d s p"
      using e(3) [of p] la [of p] unfolding emp_get_block_head_def by (auto split: if_splits)
    have "desc_order (lock_all B (mm_gpas m) p) = ?d" using els_ok_block [OF ok, of s p] g la by simp
    from head_of_group [where h = "lock_all B (mm_gpas m)", OF dv g this]
    have "emp_get_block_head (lock_all B (mm_gpas m)) p = s" .
    moreover have "emp_get_block_head (mm_gpas m') p = p"
      using e(3) [of p] g by (simp add: emp_get_block_head_def emp_get_block_head_at_def)
    ultimately show "(if emp_get_block_head (lock_all B (mm_gpas m)) p \<in> B then Some t
          else own (emp_get_block_head (lock_all B (mm_gpas m)) p)) = Some t
        \<and> (if emp_get_block_head (mm_gpas m') p \<in> B then Some t else own (emp_get_block_head (mm_gpas m') p)) = Some t"
      using own sB g sg by auto
  qed
qed

text \<open>Taking several free locks in turn.\<close>

lemma try_many:
  assumes "pcs t = Inside" and "distinct gs" and "\<forall>g \<in> set gs. \<not> gpa_lock (lk_heap s g)"
  shows "lock_step\<^sup>*\<^sup>* (pcs, s) (pcs, s\<lparr>lk_heap := lock_all (set gs) (lk_heap s),
      lk_owner := (\<lambda>p. if p \<in> set gs then Some t else lk_owner s p)\<rparr>)"
  using assms(2,3)
proof (induction gs arbitrary: s)
  case Nil
  then show ?case by (simp add: lock_all_def)
next
  case (Cons g gs)
  let ?h = "(lk_heap s)(g := (lk_heap s g)\<lparr>gpa_lock := True\<rparr>)"
  let ?s = "s\<lparr>lk_heap := ?h, lk_owner := (lk_owner s)(g := Some t)\<rparr>"
  have "emp_trylock_head (lk_heap s) g = (True, ?h)" using Cons.prems(2) by (intro trylock_free) simp
  with assms(1) have one: "lock_step (pcs, s) (pcs, ?s)" by (rule lock_step.try_more)
  have "\<forall>x \<in> set gs. \<not> gpa_lock (lk_heap ?s x)" using Cons.prems by auto
  note r = Cons.IH [of ?s, OF _ this]
  have d: "distinct gs" using Cons.prems(1) by simp
  have e: "?s\<lparr>lk_heap := lock_all (set gs) (lk_heap ?s), lk_owner := (\<lambda>p. if p \<in> set gs then Some t else lk_owner ?s p)\<rparr>
      = s\<lparr>lk_heap := lock_all (set (g # gs)) (lk_heap s), lk_owner := (\<lambda>p. if p \<in> set (g # gs) then Some t else lk_owner s p)\<rparr>"
    by (simp add: lock_all_def fun_eq_iff)
  have "lock_step\<^sup>*\<^sup>* (pcs, ?s) (pcs, s\<lparr>lk_heap := lock_all (set (g # gs)) (lk_heap s),
      lk_owner := (\<lambda>p. if p \<in> set (g # gs) then Some t else lk_owner s p)\<rparr>)"
    using r [OF d] unfolding e .
  with one show ?case by (rule converse_rtranclp_into_rtranclp)
qed

end
