(* ===== verification/Lock_Claims.thy ===== *)
theory Lock_Claims
  imports Els_Lock
begin

text \<open>
  The properties of the block locks: mutual exclusion and stability for any number of threads, progress
  without contention, and resizing as steps of the protocol.
\<close>

section \<open>A concrete heap\<close>

text \<open>Blocks of two descriptors, nothing locked; index \<open>i\<close> names descriptor \<open>i\<close>.\<close>

definition ex_desc :: "nat \<Rightarrow> nat \<Rightarrow> emp_gpa" where
  "ex_desc d p = \<lparr>gpa_lock = False, gpa_flags = 0, gpa_refcnt = 1, sb_order = 1, block_order = 1 + d,
     max_block_order = 3, desc_order = d, last_mr_id = 0, r_state = GPA_ACTIVE,
     remote_page = FREE_REMOTE_PAGE_VAL, local_page = Some p\<rparr>"

definition ex_lk :: lk_state where
  "ex_lk = \<lparr>lk_heap = ex_desc 1, lk_dir = Some, lk_owner = (\<lambda>_. None)\<rparr>"

lemma ex_lk_heads [simp]:
  "emp_get_block_head (lk_heap ex_lk) p = p - p mod 2" "lk_dir ex_lk i = Some i" "lk_owner ex_lk p = None"
  "\<not> gpa_lock (lk_heap ex_lk p)"
  by (simp_all add: ex_lk_def ex_desc_def emp_get_block_head_def emp_get_block_head_at_def)

section \<open>Properties\<close>

text \<open>
  C6: However many threads lock, try, resize and replace blocks, in any interleaving from a state
  without locks: a thread that returns from locking holds the lock of the head that its descriptor has
  at that moment, the index still names the descriptor, no other thread has returned with the lock of
  the same block or holds it inside, and no function ever dereferences a missing descriptor.
\<close>

theorem block_lock_exclusive:
  assumes "\<forall>t. pcs0 t = Idle" and "\<forall>p. \<not> gpa_lock (lk_heap s0 p)" and "\<forall>p. lk_owner s0 p = None"
    and "lock_step\<^sup>*\<^sup>* (pcs0, s0) (pcs, s)" and "pcs t = Holding k i gpa head"
  shows "head = emp_get_block_head (lk_heap s) gpa \<and> gpa_lock (lk_heap s head)
    \<and> (k \<noteq> Trylock_Local \<longrightarrow> lk_dir s i = Some gpa)
    \<and> (\<forall>u k' i' gpa' head'. u \<noteq> t \<longrightarrow> pcs u = Holding k' i' gpa' head' \<longrightarrow>
        emp_get_block_head (lk_heap s) gpa' \<noteq> emp_get_block_head (lk_heap s) gpa)
    \<and> (\<forall>u. u \<noteq> t \<longrightarrow> lk_owner s head \<noteq> Some u) \<and> (\<forall>u. pcs u \<noteq> Fault)"
proof -
  have inv: "lk_inv (pcs, s)" using lock_steps_inv [OF assms(4) lk_inv_init [OF assms(1-3)]] .
  have pc: "pc_ok s u (pcs u)" for u using inv by (simp add: lk_inv_def)
  have t: "owned_by s t = {head}" "emp_get_block_head (lk_heap s) gpa = head" "knows s k i gpa head"
    using pc [of t] assms(5) by simp_all
  have own: "lk_owner s head = Some t" using t(1) by (auto simp: owned_by_def)
  have "head' \<noteq> head" if "u \<noteq> t" "pcs u = Holding k' i' gpa' head'" for u k' i' gpa' head'
  proof -
    have "owned_by s u = {head'}" using pc [of u] that(2) by simp
    then have "lk_owner s head' = Some u" by (auto simp: owned_by_def)
    with own that(1) show ?thesis by auto
  qed
  moreover have "emp_get_block_head (lk_heap s) gpa' = head'" if "pcs u = Holding k' i' gpa' head'" for u k' i' gpa' head'
    using pc [of u] that by simp
  moreover have "pcs u \<noteq> Fault" for u using pc [of u] by (cases "pcs u") auto
  moreover have "gpa_lock (lk_heap s head)" using inv own by (simp add: lk_inv_def)
  ultimately show ?thesis using t own unfolding knows_def by (metis option.inject)
qed

lemma block_lock_exclusive_witness:
  "\<exists>pcs s. lock_step\<^sup>*\<^sup>* (\<lambda>_. Idle, ex_lk) (pcs, s) \<and> pcs 0 = Holding Lock_Block 3 3 2 \<and> gpa_lock (lk_heap s 2)"
proof -
  let ?s = "ex_lk\<lparr>lk_heap := (lk_heap ex_lk)(2 := (lk_heap ex_lk 2)\<lparr>gpa_lock := True\<rparr>), lk_owner := (lk_owner ex_lk)(2 := Some 0)\<rparr>"
  let ?p = "\<lambda>pc. (\<lambda>_. Idle)(0 := pc)"
  have h: "emp_get_block_head (lk_heap ?s) 3 = 2" by (simp add: ex_lk_def ex_desc_def emp_get_block_head_def emp_get_block_head_at_def)
  have c: "lock_step (?p pc, a) (?p pc', b)" if "lock_next 0 pc a = (pc', b)" for pc pc' a b
    using lock_step.code [of 0 "?p pc" a pc' b] that by simp
  have s1: "lock_step (\<lambda>_. Idle, ex_lk) (?p (Relock Lock_Block 3 3), ex_lk)"
    using lock_step.call [of "\<lambda>_. Idle" 0 Lock_Block ex_lk 3 3] by simp
  have s2: "lock_step (?p (Relock Lock_Block 3 3), ex_lk) (?p (Trying Lock_Block 3 3 2), ex_lk)"
    by (rule c) simp
  have s3: "lock_step (?p (Trying Lock_Block 3 3 2), ex_lk) (?p (Locked_Dir Lock_Block 3 3 2), ?s)"
    by (rule c) (simp add: trylock_free [where h = "lk_heap ex_lk"])
  have s4: "lock_step (?p (Locked_Dir Lock_Block 3 3 2), ?s) (?p (Locked_Head Lock_Block 3 3 2), ?s)"
    by (rule c) simp
  have s5: "lock_step (?p (Locked_Head Lock_Block 3 3 2), ?s) (?p (Holding Lock_Block 3 3 2), ?s)"
    by (rule c) (simp only: lock_next.simps h refl if_True)
  from s5 have "lock_step\<^sup>*\<^sup>* (?p (Locked_Head Lock_Block 3 3 2), ?s) (?p (Holding Lock_Block 3 3 2), ?s)"
    by (rule r_into_rtranclp)
  with s4 have "lock_step\<^sup>*\<^sup>* (?p (Locked_Dir Lock_Block 3 3 2), ?s) (?p (Holding Lock_Block 3 3 2), ?s)"
    by (rule converse_rtranclp_into_rtranclp)
  with s3 have "lock_step\<^sup>*\<^sup>* (?p (Trying Lock_Block 3 3 2), ex_lk) (?p (Holding Lock_Block 3 3 2), ?s)"
    by (rule converse_rtranclp_into_rtranclp)
  with s2 have "lock_step\<^sup>*\<^sup>* (?p (Relock Lock_Block 3 3), ex_lk) (?p (Holding Lock_Block 3 3 2), ?s)"
    by (rule converse_rtranclp_into_rtranclp)
  with s1 have r: "lock_step\<^sup>*\<^sup>* (\<lambda>_. Idle, ex_lk) (?p (Holding Lock_Block 3 3 2), ?s)"
    by (rule converse_rtranclp_into_rtranclp)
  have "gpa_lock (lk_heap ?s 2)" using block_lock_exclusive [OF _ _ _ r, of 0 Lock_Block 3 3 2] by simp
  with r show ?thesis by (intro exI [of _ "?p (Holding Lock_Block 3 3 2)"] exI [of _ ?s]) simp
qed

text \<open>
  C7: A thread that starts from a descriptor of an index, current or stale, gets the lock of the block
  the index names in at most eight steps of its own when nobody interferes and the two blocks are free.
\<close>

theorem block_lock_uncontended:
  assumes "lk_dir s i = Some new" and "\<forall>g \<in> {gpa, new}. \<not> gpa_lock (lk_heap s (emp_get_block_head (lk_heap s) g))
      \<and> lk_owner s (emp_get_block_head (lk_heap s) g) = None"
  shows "\<exists>n \<le> 8. \<exists>s'. lock_run n t (Relock Lock_Block i gpa, s)
      = (Holding Lock_Block i new (emp_get_block_head (lk_heap s) new), s')
    \<and> (\<forall>p. gpa_lock (lk_heap s' p) \<longleftrightarrow> p = emp_get_block_head (lk_heap s) new \<or> gpa_lock (lk_heap s p))"
proof -
  let ?hd = "emp_get_block_head (lk_heap s) new"
  let ?s = "s\<lparr>lk_heap := (lk_heap s)(?hd := (lk_heap s ?hd)\<lparr>gpa_lock := True\<rparr>), lk_owner := (lk_owner s)(?hd := Some t)\<rparr>"
  have r: "lock_run 4 t (Relock Lock_Block i new, s) = (Holding Lock_Block i new ?hd, ?s)"
    using assms by (intro lock_run_current) simp_all
  have l: "\<forall>p. gpa_lock (lk_heap ?s p) \<longleftrightarrow> p = ?hd \<or> gpa_lock (lk_heap s p)" by simp
  show ?thesis
  proof (cases "gpa = new")
    case True
    with r l show ?thesis by (intro exI [of _ 4]) auto
  next
    case False
    have "lock_run 4 t (Relock Lock_Block i gpa, s) = (Relock Lock_Block i new, s)"
      using assms False by (intro lock_run_stale) auto
    then have "lock_run (4 + 4) t (Relock Lock_Block i gpa, s) = (Holding Lock_Block i new ?hd, ?s)"
      unfolding lock_run_add using r by simp
    with l show ?thesis by (intro exI [of _ 8]) auto
  qed
qed

lemma block_lock_uncontended_witness:
  "\<exists>n \<le> 8. \<exists>s'. lock_run n 0 (Relock Lock_Block 3 7, ex_lk) = (Holding Lock_Block 3 3 2, s') \<and> gpa_lock (lk_heap s' 2)"
  using block_lock_uncontended [of ex_lk 3 3 7 0] by (auto simp: mod2_eq_if)

text \<open>
  C8: What the elastic blocks do to the descriptors is a sequence of steps of the lock protocol: a
  thread that reduces a block it holds, to its halves or to its subblocks, takes the locks of the new
  heads and then moves heads only between blocks it holds.
\<close>

theorem reduce_follows_lock_protocol:
  assumes "els_ok (mm_gpas m)" and "emp_get_block_head (mm_gpas m) b = b" and "gpa_lock (mm_gpas m b)"
    and "pcs t = Inside" and "lk_heap s = mm_gpas m" and "lk_owner s b = Some t"
    and "desc_order (mm_gpas m b) = Suc k \<and> els_reduce m b = (Some hs, m') \<or> els_tryreduce_complete m b = (Some hs, m')"
  shows "\<exists>own. lock_step\<^sup>*\<^sup>* (pcs, s) (pcs, s\<lparr>lk_heap := mm_gpas m', lk_owner := own\<rparr>)
    \<and> (\<forall>g \<in> set hs. own g = Some t)"
  using assms(7)
proof (elim disjE conjE)
  assume d: "desc_order (mm_gpas m b) = Suc k" and r: "els_reduce m b = (Some hs, m')"
  note e = els_reduce_resized [OF assms(1,2) d r, of "lk_owner s" t, OF assms(6)]
  let ?h = "(mm_gpas m)(b + 2 ^ k := (mm_gpas m (b + 2 ^ k))\<lparr>gpa_lock := True\<rparr>)"
  let ?s = "s\<lparr>lk_heap := ?h, lk_owner := (lk_owner s)(b + 2 ^ k := Some t)\<rparr>"
  have one: "lock_step (pcs, s) (pcs, ?s)"
    by (rule lock_step.try_more [where t = t and p = "b + 2 ^ k" and h = ?h]) (use assms(4,5) e(1) in simp_all)
  have two: "lock_step (pcs, ?s) (pcs, ?s\<lparr>lk_heap := mm_gpas m'\<rparr>)"
    by (rule lock_step.resize [where t = t]) (use assms(4) e(2) in simp_all)
  have "lock_step\<^sup>*\<^sup>* (pcs, s) (pcs, ?s\<lparr>lk_heap := mm_gpas m'\<rparr>)"
    by (rule rtranclp.rtrancl_into_rtrancl [where b = "(pcs, ?s)"]) (use one two in \<open>simp_all only: r_into_rtranclp\<close>)
  moreover have "?s\<lparr>lk_heap := mm_gpas m'\<rparr> = s\<lparr>lk_heap := mm_gpas m', lk_owner := (lk_owner s)(b + 2 ^ k := Some t)\<rparr>" by simp
  ultimately have "lock_step\<^sup>*\<^sup>* (pcs, s) (pcs, s\<lparr>lk_heap := mm_gpas m', lk_owner := (lk_owner s)(b + 2 ^ k := Some t)\<rparr>)"
    by metis
  moreover have "hs = [b, b + 2 ^ k]" by (rule els_reduce_ok(1) [OF assms(1,2) d r])
  ultimately show ?thesis using assms(6) by (intro exI [of _ "(lk_owner s)(b + 2 ^ k := Some t)"]) simp
next
  assume r: "els_tryreduce_complete m b = (Some hs, m')"
  let ?B = "{b + 1 ..< b + 2 ^ desc_order (mm_gpas m b)}"
  note e = els_tryreduce_complete_resized [OF assms(1-3) r, of "lk_owner s" t, OF assms(6)]
  let ?own = "\<lambda>p. if p \<in> ?B then Some t else lk_owner s p"
  let ?s = "s\<lparr>lk_heap := lock_all ?B (lk_heap s), lk_owner := ?own\<rparr>"
  have one: "lock_step\<^sup>*\<^sup>* (pcs, s) (pcs, ?s)"
    using try_many [where pcs = pcs and t = t and gs = "[b + 1 ..< b + 2 ^ desc_order (mm_gpas m b)]" and s = s] e(1) assms(4,5) by simp
  have two: "lock_step (pcs, ?s) (pcs, ?s\<lparr>lk_heap := mm_gpas m'\<rparr>)"
    by (rule lock_step.resize [where t = t]) (use assms(4,5) e(2) in simp_all)
  have "lock_step\<^sup>*\<^sup>* (pcs, s) (pcs, ?s\<lparr>lk_heap := mm_gpas m'\<rparr>)"
    using one two by (rule rtranclp.rtrancl_into_rtrancl)
  moreover have "?s\<lparr>lk_heap := mm_gpas m'\<rparr> = s\<lparr>lk_heap := mm_gpas m', lk_owner := ?own\<rparr>" by simp
  ultimately have "lock_step\<^sup>*\<^sup>* (pcs, s) (pcs, s\<lparr>lk_heap := mm_gpas m', lk_owner := ?own\<rparr>)" by metis
  moreover have "?own g = Some t" if "g \<in> set hs" for g
    using that assms(6) els_tryreduce_complete_ok(1) [OF assms(1-3) r] by (cases "g = b") auto
  ultimately show ?thesis by (intro exI [of _ ?own]) blast
qed

text \<open>A thread holds the block of four descriptors at 0 and reduces it to its subblocks.\<close>

definition ex_reduce :: emp_mm where
  "ex_reduce = \<lparr>mm_gpas = (\<lambda>p. (ex_desc 2 p)\<lparr>gpa_lock := (p = 0)\<rparr>),
     mm_lps = (\<lambda>l. \<lparr>lp_gpa = l, lp_page = l, sptep = None, lp_flags = 0,
       gpa_index = 0, num_pmds = 0, page_map_count = 0, lp_pmds = \<lparr>mp_vmr = None, mp_pmd = None\<rparr>,
       lp_next = None, lp_cpu = - 2, demand_offset = 0, lp_w = None\<rparr>),
     slru_lists = (\<lambda>_ _. init_emp_list), slru_page_len = (\<lambda>_. 0),
     pin_lists = (\<lambda>_. init_emp_list), cur_pin_pages = 0, num_pin_blocks = 0, num_evicted_pin_blocks = 0,
     mm_possible_cpus = 2, mm_vcpus_len = 0, proactive_pages_len = 0, active_pages_len = 0, inactive_pages_len = 0,
     inactive_keep_pages_len = 0, inflight_writeback_page_len = 0, els_disabled = False,
     els_stats = \<lparr>block_count = (\<lambda>_. 0), block_stretch = (\<lambda>_. 0), block_reduce = (\<lambda>_. 0), block_reduce_complete = (\<lambda>_. 0)\<rparr>\<rparr>"

lemma reduce_follows_lock_protocol_witness:
  "\<exists>m' own. els_tryreduce_complete ex_reduce 0 = (Some [0, 1, 2, 3], m')
    \<and> lock_step\<^sup>*\<^sup>* (\<lambda>_. Inside, \<lparr>lk_heap = mm_gpas ex_reduce, lk_dir = Some, lk_owner = (\<lambda>_. None)(0 := Some 7)\<rparr>)
        (\<lambda>_. Inside, \<lparr>lk_heap = mm_gpas m', lk_dir = Some, lk_owner = own\<rparr>)
    \<and> own 3 = Some 7"
proof -
  let ?m = "ex_reduce"
  have ok: "els_ok (mm_gpas ?m)"
    by (simp add: els_ok_def orders_ok_def ex_reduce_def ex_desc_def BLOCK_MAX_ORDER_def)
  have h: "emp_get_block_head (mm_gpas ?m) 0 = 0" "gpa_lock (mm_gpas ?m 0)" "desc_order (mm_gpas ?m 0) = 2"
    by (simp_all add: ex_reduce_def ex_desc_def emp_get_block_head_def emp_get_block_head_at_def)
  obtain r m' where e: "els_tryreduce_complete ?m 0 = (r, m')" by (metis surj_pair)
  have "num_subblock_in_block (mm_gpas ?m 0) = 4" by (simp add: num_subblock_in_block_def ex_reduce_def ex_desc_def)
  then have "fst (els_tryreduce_complete ?m 0) \<noteq> None"
    by (simp add: els_tryreduce_complete_def emp_trylock_head_def emp_gpa_trylock_def Let_def upt_rec)
       (simp add: ex_reduce_def ex_desc_def)
  then obtain hs where hs: "r = Some hs" using e by auto
  then have l: "hs = [0, 1, 2, 3]"
    using els_tryreduce_complete_ok(1) [OF ok h(1,2) e [unfolded hs]] h(3) by (simp add: upt_rec)
  let ?s = "\<lparr>lk_heap = mm_gpas ?m, lk_dir = Some, lk_owner = (\<lambda>_. None)(0 := Some 7)\<rparr> :: lk_state"
  from reduce_follows_lock_protocol [OF ok h(1,2), of "\<lambda>_. Inside" 7 ?s 0 hs m'] e hs obtain own where
    "lock_step\<^sup>*\<^sup>* (\<lambda>_. Inside, ?s) (\<lambda>_. Inside, ?s\<lparr>lk_heap := mm_gpas m', lk_owner := own\<rparr>)" "\<forall>g \<in> set hs. own g = Some 7"
    by auto
  then show ?thesis using e hs l by auto
qed

end
