(* ===== verification/Inactive.thy ===== *)
theory Inactive
  imports Victims
begin

text \<open>
  The inactive list (third part of \<^verbatim>\<open>src/module_gpl/reclaim.c\<close>): blocks enter it unmapped and leave it to be
  written back, to be promoted again or to be pinned; and the removal of a block from whatever list it is
  on.  The buffers of a cpu hold the inactive blocks in \<open>Slru_mru\<close> and the blocks whose write-back is in
  flight in \<open>Slru_lru\<close>; both count for the length of the list.

  The pages' reference counts are the parameter \<open>page_count\<close>, as in \<open>Victims\<close>.  An eager write-back
  that is cleared is seen here by its effect on the descriptors and local pages; its work request is
  outside this part.  \<^verbatim>\<open>add_gpas_to_inactive()\<close> is split: its list part is here, its eager write-back (off by
  default) in \<open>Remote_IO\<close>, where the function is put together.
\<close>

definition sub_inactive_list_page_len :: "gpa_ptr \<Rightarrow> emp_mm \<Rightarrow> emp_mm" where
  "sub_inactive_list_page_len gpa m = add_page_len INACTIVE_LIST (- int (gpa_block_size (mm_gpas m gpa))) m"

section \<open>Entering the list\<close>

definition add_gpa_inactive :: "int \<Rightarrow> gpa_ptr \<Rightarrow> int \<times> emp_mm \<Rightarrow> int \<times> emp_mm" where
  "add_gpa_inactive cpu_id head = (\<lambda>(new_pages_len, m).
     let m = upd_head (\<lambda>g. g\<lparr>r_state := GPA_INACTIVE\<rparr>) head m;
         l = the (local_page (mm_gpas m head));
         m = upd_lp (\<lambda>lp. set_local_page_cpu_list lp cpu_id LOCAL_PAGE_ON_MRU) l m;
         m = upd_slru INACTIVE_LIST (Slru_mru cpu_id) (emp_list_add_tail l) m
     in (new_pages_len + int (gpa_block_size (mm_gpas m head)), m))"

definition insert_inactive :: "emp_mm \<Rightarrow> int \<Rightarrow> gpa_ptr list \<Rightarrow> int \<times> emp_mm" where
  "insert_inactive m cpu_id gpas =
     (case fold (add_gpa_inactive cpu_id) gpas (0, m) of (new_pages_len, m) \<Rightarrow>
        (new_pages_len, if new_pages_len \<noteq> 0 then add_page_len INACTIVE_LIST new_pages_len m else m))"

section \<open>Victims of the inactive list\<close>

definition check_block_free :: "(nat \<Rightarrow> int) \<Rightarrow> emp_mm \<Rightarrow> gpa_ptr \<Rightarrow> bool" where
  "check_block_free page_count m head =
     (let pc = (if is_gpa_flags_set (mm_gpas m head) GPA_EAGER_WBR_MASK then 2 else 1)
      in list_all (\<lambda>g. page_count (lp_page (lp_of m g)) = pc) (for_each_gpas (mm_gpas m) head))"

definition drop_block_w :: "gpa_ptr \<Rightarrow> emp_mm \<Rightarrow> emp_mm" where
  "drop_block_w head m =
     foldl (\<lambda>m g. upd_lp (\<lambda>lp. lp\<lparr>lp_w := None\<rparr>) (the (local_page (mm_gpas m g))) m) m
       (rev (for_each_gpas (mm_gpas m) head))"

definition check_eager_wbr :: "gpa_ptr \<Rightarrow> emp_mm \<Rightarrow> emp_mm" where
  "check_eager_wbr head m =
     (if \<not> fst (clear_gpa_flags_if_set (mm_gpas m head) GPA_EAGER_WBR_MASK) then m
      else
        let m = upd_head (\<lambda>g. snd (clear_gpa_flags_if_set g GPA_EAGER_WBR_MASK)) head m;
            m = drop_block_w head m;
            m = upd_lp (\<lambda>lp. lp\<lparr>lp_w := None\<rparr>) (the (local_page (mm_gpas m head))) m
        in upd_head (\<lambda>g. snd (clear_gpa_flags_if_set g GPA_DIRTY_MASK)) head m)"

text \<open>The scan collects in an \<open>al_state\<close>, like that of the active list; \<open>al_pages\<close> is the pressure relieved.\<close>

fun il_scan :: "(nat \<Rightarrow> int) \<Rightarrow> slru_place \<Rightarrow> int \<Rightarrow> nat list \<Rightarrow> al_state \<Rightarrow> emp_mm \<Rightarrow> al_state \<times> emp_mm" where
  "il_scan page_count p vs_len [] s m = (s, m)"
| "il_scan page_count p vs_len (l # ls) s m =
     (case emp_trylock_local_page m l of
        (None, m) \<Rightarrow> il_scan page_count p vs_len ls s m
      | (Some v, m) \<Rightarrow>
          (let pages = int (gpa_block_size (mm_gpas m v))
           in if is_gpa_flags_set (mm_gpas m v) GPA_PINNED_MASK then
                il_scan page_count p vs_len ls
                  (s\<lparr>al_pin := temp_list_add_tail l (al_pin s), al_pin_pages := al_pin_pages s + pages\<rparr>)
                  (take_page INACTIVE_LIST p LOCAL_PAGE_ON_MRU l m)
              else if fst (clear_gpa_flags_if_set (mm_gpas m v) GPA_PROMOTE_MASK) then
                il_scan page_count p vs_len ls
                  (s\<lparr>al_promote := temp_list_add_tail l (al_promote s), al_promote_pages := al_promote_pages s + pages\<rparr>)
                  (take_page INACTIVE_LIST p LOCAL_PAGE_ON_MRU l
                     (upd_head (\<lambda>g. snd (clear_gpa_flags_if_set g GPA_PROMOTE_MASK)) v m))
              else if check_block_free page_count m v then
                (let m = upd_head (\<lambda>g. g\<lparr>r_state := GPA_TRANS_IL\<rparr>) v (take_page INACTIVE_LIST p LOCAL_PAGE_ON_MRU l m);
                     s = s\<lparr>al_vs := al_vs s @ [v], al_pages := al_pages s + pages\<rparr>
                 in if int (length (al_vs s)) \<ge> vs_len then (s, m) else il_scan page_count p vs_len ls s m)
              else il_scan page_count p vs_len ls s (upd_head emp_gpa_unlock v m)))"

definition select_victims_inactive_list ::
    "bool \<Rightarrow> (nat \<Rightarrow> int) \<Rightarrow> emp_mm \<Rightarrow> int \<Rightarrow> int \<Rightarrow> int \<Rightarrow> (gpa_ptr list \<times> int \<times> emp_mm) option" where
  "select_victims_inactive_list global_free page_count m cpu_id vs_len pressure =
     (let p = Slru_mru cpu_id
      in case il_scan page_count p vs_len (el_head (slru_lists m INACTIVE_LIST p)) init_al_state m of (s, m) \<Rightarrow>
         case (if al_pin_pages s > 0
               then move_to_pin_list (add_page_len INACTIVE_LIST (- al_pin_pages s) m) cpu_id (al_pin s) False False
               else Some m) of
           None \<Rightarrow> None
         | Some m \<Rightarrow>
             Some (al_vs s, pressure - al_pages s,
               if al_promote_pages s \<noteq> 0
               then promote_gpas global_free
                      (foldl (\<lambda>m l. check_eager_wbr (lp_gpa (mm_lps m l)) m)
                         (add_page_len INACTIVE_LIST (- al_promote_pages s) m) (tl_head (al_promote s)))
                      cpu_id (al_promote s) (al_promote_pages s) False
               else m))"

section \<open>Removing a block from its list\<close>

definition listed_at :: "local_page \<Rightarrow> slru_place" where
  "listed_at lp = (if is_local_page_flags lp LOCAL_PAGE_ON_MRU then Slru_mru (lp_cpu lp)
     else if is_local_page_flags lp LOCAL_PAGE_ON_LRU then Slru_lru (lp_cpu lp) else Slru_global)"

definition remove_from_proactive :: "gpa_ptr \<Rightarrow> emp_mm \<Rightarrow> emp_mm option" where
  "remove_from_proactive gpa m =
     (let l = the (local_page (mm_gpas m gpa)); lp = mm_lps m l;
          size = int (gpa_block_size (mm_gpas m gpa))
      in if is_local_page_flags lp LOCAL_PAGE_ON_PIN
         then map_option (\<lambda>i.
                let m = m\<lparr>cur_pin_pages := cur_pin_pages m - size\<rparr>;
                    m = m\<lparr>pin_lists := (pin_lists m)(i := emp_list_del_init l (pin_lists m i))\<rparr>;
                    m = add_page_len PROACTIVE_LIST (- size) m
                in upd_lp (\<lambda>lp. clear_local_page_flags lp LOCAL_PAGE_ON_PIN) l m) (get_list_ptr_pin m (lp_cpu lp))
         else Some (upd_lp clear_local_page_list_flags l (add_page_len PROACTIVE_LIST (- size)
                (upd_slru PROACTIVE_LIST (listed_at lp) (emp_list_del_init l) m))))"

definition remove_from_active_list :: "gpa_ptr \<Rightarrow> emp_mm \<Rightarrow> emp_mm" where
  "remove_from_active_list gpa m =
     (let l = the (local_page (mm_gpas m gpa));
          m = upd_slru ACTIVE_LIST (listed_at (mm_lps m l)) (emp_list_del_init l) m;
          m = add_page_len ACTIVE_LIST (- int (gpa_block_size (mm_gpas m gpa))) m
      in upd_lp clear_local_page_list_flags l m)"

definition remove_from_inactive_list :: "gpa_ptr \<Rightarrow> emp_mm \<Rightarrow> emp_mm" where
  "remove_from_inactive_list gpa m =
     (let l = the (local_page (mm_gpas m gpa)); lp = mm_lps m l
      in if \<not> is_local_page_on_list lp then m
         else
           let m = upd_slru INACTIVE_LIST (Slru_mru (lp_cpu lp)) (emp_list_del_init l) m;
               m = sub_inactive_list_page_len gpa m
           in upd_lp clear_local_page_list_flags l m)"

definition remove_gpa_from_lru :: "gpa_ptr \<Rightarrow> emp_mm \<Rightarrow> emp_mm option" where
  "remove_gpa_from_lru head m =
     (if r_state (mm_gpas m head) = GPA_ACTIVE then
        (if fst (clear_gpa_flags_if_set (mm_gpas m head) GPA_PROACTIVE_MASK)
         then remove_from_proactive head (upd_head (\<lambda>g. snd (clear_gpa_flags_if_set g GPA_PROACTIVE_MASK)) head m)
         else Some (remove_from_active_list head m))
      else if r_state (mm_gpas m head) = GPA_INACTIVE then Some (remove_from_inactive_list head m)
      else Some m)"

section \<open>The quotas of the lists\<close>

definition reclaim_set :: "nat \<Rightarrow> emp_mm \<Rightarrow> emp_mm" where
  "reclaim_set pages m =
     (let m = m\<lparr>inactive_pages_len := drop_bit 3 pages\<rparr>;
          m = m\<lparr>inactive_keep_pages_len := inactive_pages_len m - drop_bit 2 (inactive_pages_len m)\<rparr>;
          m = m\<lparr>active_pages_len := drop_bit 1 pages\<rparr>
      in m\<lparr>proactive_pages_len := pages - (inactive_pages_len m + active_pages_len m)\<rparr>)"

section \<open>What an eager write-back that is cleared leaves alone\<close>

definition tidy :: "emp_mm \<Rightarrow> emp_mm \<Rightarrow> bool" where
  "tidy m m' \<longleftrightarrow> quiet m m' \<and> slru_lists m' = slru_lists m \<and> pin_lists m' = pin_lists m
     \<and> (\<forall>l. list_flags (mm_lps m' l) = list_flags (mm_lps m l) \<and> lp_cpu (mm_lps m' l) = lp_cpu (mm_lps m l))
     \<and> (\<forall>q. locked_at m' q = locked_at m q)"

lemma tidy_refl [simp]: "tidy m m"
  by (simp add: tidy_def)

lemma tidy_trans: "tidy a b \<Longrightarrow> tidy b c \<Longrightarrow> tidy a c"
  unfolding tidy_def using quiet_trans by metis

lemma tidy_settled:
  assumes "tidy m m'"
  shows "settled m m'"
proof -
  have t: "quiet m m'" "slru_lists m' = slru_lists m" "pin_lists m' = pin_lists m"
    "\<And>l. list_flags (mm_lps m' l) = list_flags (mm_lps m l)" "\<And>l. lp_cpu (mm_lps m' l) = lp_cpu (mm_lps m l)"
    "\<And>q. locked_at m' q = locked_at m q"
    using assms by (simp_all add: tidy_def)
  note f = quiet_frame [OF t(1)]
  have p: "places m' = places m" "mm_possible_cpus m' = mm_possible_cpus m"
    using lru_frame_eqs(5) [OF f] f by (simp_all add: lru_frame_def)
  have g: "group_members m' x = group_members m x" for x
    by (cases x) (simp_all add: members_def pin_members_def t(2,3) p)
  have a: "all_listed m' = all_listed m"
    using g [of "Some PROACTIVE_LIST"] g [of "Some ACTIVE_LIST"] g [of "Some INACTIVE_LIST"] g [of None]
    by (simp add: all_listed_def)
  have at: "lp_at (mm_lps m' l) x = lp_at (mm_lps m l) x" "lp_pinned_at (mm_lps m' l) c = lp_pinned_at (mm_lps m l) c" for l x c
    by (simp_all add: lp_at_def lp_pinned_at_def t(4,5) split: slru_place.split)
  have "placed U T m'" if "placed U T m" for U T
    using that by (simp add: placed_def a p t(2-4) at head_page_frame [OF f])
  then show ?thesis using t g by (simp add: settled_def)
qed

lemma tidy_upd_head:
  assumes "\<And>d. fixed_part (f d) = fixed_part d" and "\<And>d. gpa_lock (f d) = gpa_lock d"
  shows "tidy m (upd_head f q m)"
  using upd_head_simps(5) [OF assms(1)] assms(2)
  by (simp add: tidy_def upd_head_simps) (simp add: locked_at_def upd_head_def upd_gpa_def)

lemma tidy_upd_w: "tidy m (upd_lp (\<lambda>lp. lp\<lparr>lp_w := w\<rparr>) l m)"
  by (simp add: tidy_def upd_lp_def quiet_def lru_frame_def locked_at_def list_flags_def)

lemma tidy_drop_block_w: "tidy m (drop_block_w head m)"
proof -
  have "tidy m (foldl (\<lambda>m g. upd_lp (\<lambda>lp. lp\<lparr>lp_w := None\<rparr>) (the (local_page (mm_gpas m g))) m) m gs)" for gs
    by (induction gs rule: rev_induct) (auto intro: tidy_trans tidy_upd_w)
  then show ?thesis by (simp add: drop_block_w_def)
qed

lemma tidy_clear_flags: "tidy m (upd_head (\<lambda>g. snd (clear_gpa_flags_if_set g F)) q m)"
  by (rule tidy_upd_head) simp_all

lemma tidy_check_eager_wbr: "tidy m (check_eager_wbr head m)"
proof -
  have "tidy m (upd_head (\<lambda>g. snd (clear_gpa_flags_if_set g F)) q (upd_lp (\<lambda>lp. lp\<lparr>lp_w := w\<rparr>) l
      (drop_block_w head (upd_head (\<lambda>g. snd (clear_gpa_flags_if_set g F')) q m))))" for F F' q w l
    by (rule tidy_trans [OF tidy_clear_flags [of m F' q] tidy_trans [OF tidy_drop_block_w tidy_trans [OF tidy_upd_w tidy_clear_flags]]])
  then show ?thesis by (simp add: check_eager_wbr_def Let_def)
qed

lemma tidy_check_all: "tidy m (foldl (\<lambda>m l. check_eager_wbr (lp_gpa (mm_lps m l)) m) m ls)"
  by (induction ls rule: rev_induct) (auto intro: tidy_trans tidy_check_eager_wbr)

section \<open>Lengths\<close>

text \<open>\<open>W\<close> pages of blocks that are on no list count for the inactive list: they are on their way to be written back.\<close>

definition inactive_inv :: "int \<Rightarrow> nat multiset \<Rightarrow> emp_mm \<Rightarrow> bool" where
  "inactive_inv W T m \<longleftrightarrow> lru_inv T m \<and> slru_page_len m INACTIVE_LIST = weight m (members m INACTIVE_LIST) + W"

definition lens :: "emp_mm \<Rightarrow> emp_mm \<Rightarrow> (lru_list_type \<Rightarrow> int) \<Rightarrow> int \<Rightarrow> bool" where
  "lens m m' f pins \<longleftrightarrow> (\<forall>k. slru_page_len m' k = slru_page_len m k + f k) \<and> cur_pin_pages m' = cur_pin_pages m + pins"

lemma counted_lens:
  "counted m m' p a n \<Longrightarrow> lens m m' (\<lambda>k. case k of PROACTIVE_LIST \<Rightarrow> p | ACTIVE_LIST \<Rightarrow> a | INACTIVE_LIST \<Rightarrow> 0) n"
  by (auto simp: counted_def lens_def split: lru_list_type.split)

lemma lens_trans: "lens a b f x \<Longrightarrow> lens b c g y \<Longrightarrow> lens a c (\<lambda>k. f k + g k) (x + y)"
  by (simp add: lens_def)

lemma lens_add_page_len: "lens m (add_page_len k x m) (\<lambda>k'. if k' = k then x else 0) 0"
  by (simp add: lens_def add_page_len_def)

lemma lens_quiet: "quiet m m' \<Longrightarrow> lens m m' (\<lambda>_. 0) 0"
  by (simp add: lens_def quiet_fields)

lemma lens_settled: "lens m m1 f x \<Longrightarrow> settled m1 m2 \<Longrightarrow> lens m m2 f x"
  using lens_quiet by (auto simp: settled_def lens_def)

section \<open>Pinning and promoting what a scan put aside\<close>

lemma settled_regroups:
  assumes s: "settled m m1" and r: "regroups g m1 xs m'"
  shows "regroups g m xs m'"
proof -
  have q: "quiet m m1" using s by (simp add: settled_def)
  note f = quiet_frame [OF q]
  have h: "lp_head m1 = lp_head m" by (rule ext) (rule lru_frame_eqs(1) [OF f])
  have g: "group_members m1 x = group_members m x" "locked_at m1 y = locked_at m y" for x y
    using s by (simp_all add: settled_def)
  show ?thesis using r s lru_frame_trans [OF f] by (simp add: regroups_def released_def h g settled_def)
qed

lemma pin_step:
  assumes i: "pl = [] \<or> get_list_ptr_pin m c \<noteq> None" and hp: "\<And>l. l \<in> set pl \<Longrightarrow> head_page m l"
    and t: "tl_head t = pl" and w: "w = weight m (mset pl)"
  shows "\<exists>m'. (if w > 0 then move_to_pin_list (add_page_len k (- w) m) c t False mapped else Some m) = Some m'
    \<and> regroups None m pl m' \<and> lens m m' (\<lambda>k'. (if k' = k then - w else 0) + (if k' = PROACTIVE_LIST then w else 0)) w"
proof (cases "pl = []")
  case True
  then show ?thesis by (simp add: w regroups_Nil lens_def)
next
  case False
  then have wp: "w > 0" using weight_pos [of m pl] w by simp
  let ?m = "add_page_len k (- w) m"
  note fm = add_page_len_only(1) [of m k "- w"]
  from False i obtain j where "get_list_ptr_pin m c = Some j" by auto
  then have j: "get_list_ptr_pin ?m c = Some j" by (simp add: get_list_ptr_pin_frame [OF fm])
  have hq: "head_page ?m l" if "l \<in> set (tl_head t)" for l
    using hp that by (simp add: t head_page_frame [OF fm])
  from move_to_pin_list_ok [where t = t and fp = False and mapped = mapped, OF j hq, unfolded t weight_frame [OF fm] if_False]
  obtain m' where m': "move_to_pin_list ?m c t False mapped = Some m'" "regroups None ?m pl m'" "counted ?m m' w 0 w"
    unfolding w by blast
  have "lens m m' (\<lambda>k'. (if k' = k then - w else 0) + (if k' = PROACTIVE_LIST then w else 0)) w"
    using counted_lens [OF m'(3)] by (simp add: lens_def add_page_len_def split: lru_list_type.split_asm) (auto split: lru_list_type.split)
  then show ?thesis using wp m'(1) regroups_add_page_len [OF m'(2)] by simp
qed

lemma promote_step:
  assumes c: "c \<in> mm_cpus m" and t: "tl_head t = rl" and w: "w = weight m (mset rl)"
    and tidy: "tidy (add_page_len k (- w) m) m1"
  shows "regroups (Some PROACTIVE_LIST) m rl (if w \<noteq> 0 then promote_gpas gf m1 c t w mapped else m)
    \<and> lens m (if w \<noteq> 0 then promote_gpas gf m1 c t w mapped else m)
        (\<lambda>k'. (if k' = k then - w else 0) + (if k' = PROACTIVE_LIST then w else 0)) 0"
proof (cases "rl = []")
  case True
  then show ?thesis by (simp add: w regroups_Nil lens_def)
next
  case False
  then have wp: "w \<noteq> 0" using weight_pos [of m rl] w by simp
  let ?m = "add_page_len k (- w) m"
  note s = tidy_settled [OF tidy]
  have q: "quiet ?m m1" using tidy by (simp add: tidy_def)
  have f: "lru_frame m m1" by (rule lru_frame_trans [OF add_page_len_only(1) quiet_frame [OF q]])
  have "c \<in> mm_cpus m1" using c lru_frame_eqs(4) [OF f] by simp
  from promote_gpas_ok [OF this, of t gf w mapped]
  have p: "regroups (Some PROACTIVE_LIST) m1 rl (promote_gpas gf m1 c t w mapped)"
    "counted m1 (promote_gpas gf m1 c t w mapped) w 0 0" using t by simp_all
  have "regroups (Some PROACTIVE_LIST) m rl (promote_gpas gf m1 c t w mapped)"
    by (rule regroups_add_page_len [OF settled_regroups [OF s p(1)]])
  moreover have "lens m (promote_gpas gf m1 c t w mapped) (\<lambda>k'. (if k' = k then - w else 0) + (if k' = PROACTIVE_LIST then w else 0)) 0"
    using counted_lens [OF p(2)] quiet_fields [OF q] by (auto simp: lens_def add_page_len_def split: lru_list_type.split lru_list_type.split_asm)
  ultimately show ?thesis using wp by simp
qed

section \<open>Victims of the inactive list\<close>

lemma il_scan_ok:
  assumes "il_scan pc p n ls s m = (s', m')"
    and "mset ls \<subseteq># mset (el_head (slru_lists m INACTIVE_LIST p))" and "p \<in> places m"
    and "place_flag p = LOCAL_PAGE_ON_MRU" and "int (length (al_vs s)) < n"
  shows "\<exists>vl pl rl. al_picks INACTIVE_LIST m s vl pl rl s' m' \<and> int (length (al_vs s')) \<le> n"
  using assms
proof (induction ls arbitrary: s m)
  case Nil
  then show ?case using al_picks_refl by (intro exI [of _ "[]"]) auto
next
  case (Cons l ls)
  note sub = mset_tail_of_remove1 [OF Cons.prems(2)] and p = Cons.prems(3,4)
  note lin = conjunct2 [OF sub]
  obtain r m1 where t: "emp_trylock_local_page m l = (r, m1)" by (metis surj_pair)
  have go: ?case
    if one: "al_picks INACTIVE_LIST m s vl pl rl s2 m2" "places m2 = places m"
      "el_head (slru_lists m2 INACTIVE_LIST p) = remove1 l (el_head (slru_lists m INACTIVE_LIST p))"
      and e: "il_scan pc p n ls s2 m2 = (s', m')" and len: "int (length (al_vs s2)) < n" for vl pl rl s2 m2
  proof -
    have "mset ls \<subseteq># mset (el_head (slru_lists m2 INACTIVE_LIST p))" "p \<in> places m2" using sub one(2,3) p by simp_all
    from Cons.IH [OF e this p(2) len] obtain vl' pl' rl' where
      "al_picks INACTIVE_LIST m2 s2 vl' pl' rl' s' m'" "int (length (al_vs s')) \<le> n" by blast
    then show ?thesis using al_picks_trans [OF one(1)] by blast
  qed
  show ?case
  proof (cases r)
    case None
    with t have m1: "m1 = m" using trylock_None by blast
    have e: "il_scan pc p n ls s m = (s', m')" using Cons.prems(1) t None m1 by simp
    show ?thesis by (rule Cons.IH [OF e tail_subset [OF Cons.prems(2)] p Cons.prems(5)])
  next
    case (Some v)
    have v: "v = lp_head m l" "\<not> locked_at m v" "m1 = upd_head (\<lambda>g. g\<lparr>gpa_lock := True\<rparr>) v m"
      using t Some by (auto simp: trylock_local_page split: if_splits)
    have q1: "quiet m m1" unfolding v(3) by (rule upd_head_simps(5)) simp
    have bp: "int (gpa_block_size (mm_gpas m1 v)) = block_pages m l" using block_pages_locked [OF q1] by (simp add: v(1))
    note pin = trylock_flags [OF t [unfolded Some]]
    note eq = Cons.prems(1) [unfolded il_scan.simps t Some prod.case option.case Let_def bp pin]
    note pk = al_pick_one [OF t [unfolded Some] p lin]
    let ?m2 = "take_page INACTIVE_LIST p LOCAL_PAGE_ON_MRU l m1"
    consider (pin) "pinned_head m l"
      | (promote) "\<not> pinned_head m l" "promoted_head m l"
      | (victim) "\<not> pinned_head m l" "\<not> promoted_head m l"
          "check_block_free pc m1 v"
      | (keep) "\<not> pinned_head m l" "\<not> promoted_head m l"
          "\<not> check_block_free pc m1 v"
      by blast
    then show ?thesis
    proof cases
      case pin
      let ?s2 = "s\<lparr>al_pin := temp_list_add_tail l (al_pin s), al_pin_pages := al_pin_pages s + block_pages m l\<rparr>"
      have e: "il_scan pc p n ls ?s2 ?m2 = (s', m')" using eq pin by simp
      have g: "al_grown m s [] [l] [] ?s2" by (simp add: al_grown_def temp_list_add_tail_def al_ok_def temp_list_ok_def)
      note o = pk [OF _ _ _ g, of "\<lambda>d. d", unfolded upd_head_id, simplified, OF pin al_change_cases(1)]
      show ?thesis by (rule go [OF o e]) (use Cons.prems(5) in simp)
    next
      case promote
      let ?s2 = "s\<lparr>al_promote := temp_list_add_tail l (al_promote s), al_promote_pages := al_promote_pages s + block_pages m l\<rparr>"
      let ?f = "\<lambda>g. snd (clear_gpa_flags_if_set g GPA_PROMOTE_MASK)"
      have e: "il_scan pc p n ls ?s2 (upd_head ?f v ?m2) = (s', m')"
        using eq promote by (simp add: take_page_upd_head)
      have g: "al_grown m s [] [] [l] ?s2" by (simp add: al_grown_def temp_list_add_tail_def al_ok_def temp_list_ok_def)
      note o = pk [OF _ _ _ g, of ?f, simplified, OF clear_unlocked conjI [OF promote] al_change_cases(2)]
      show ?thesis by (rule go [OF o e]) (use Cons.prems(5) in simp)
    next
      case victim
      let ?s2 = "s\<lparr>al_vs := al_vs s @ [v], al_pages := al_pages s + block_pages m l\<rparr>"
      let ?f = "\<lambda>g. g\<lparr>r_state := GPA_TRANS_IL\<rparr>"
      have g: "al_grown m s [l] [] [] ?s2" by (simp add: al_grown_def al_ok_def v(1))
      have ch: "al_change INACTIVE_LIST {lp_head m l} {} (lp_head m l) = ?f" by (simp add: al_change_cases victim_state_def)
      note o = pk [OF _ _ _ g, of ?f, simplified, OF conjI [OF victim(1,2)] ch]
      let ?stop = "int (length (al_vs ?s2)) \<ge> n"
      have e: "(if ?stop then (?s2, upd_head ?f v ?m2) else il_scan pc p n ls ?s2 (upd_head ?f v ?m2)) = (s', m')"
        using eq victim by simp
      show ?thesis
      proof (cases ?stop)
        case True
        then have "s' = ?s2 \<and> m' = upd_head ?f v ?m2" using e by simp
        then show ?thesis using o(1) Cons.prems(5) by (intro exI [of _ "[l]"] exI [of _ "[]"]) simp
      next
        case False
        then have "il_scan pc p n ls ?s2 (upd_head ?f v ?m2) = (s', m')" using e by simp
        then show ?thesis by (rule go [OF o]) (use False in simp)
      qed
    next
      case keep
      have e: "il_scan pc p n ls s (upd_head emp_gpa_unlock v m1) = (s', m')" using eq keep by auto
      then have "il_scan pc p n ls s m = (s', m')" unfolding v(3) unlock_after_lock [OF v(2)] .
      then show ?thesis by (rule Cons.IH [OF _ tail_subset [OF Cons.prems(2)] p Cons.prems(5)])
    qed
  qed
qed

lemma check_eager_wbr_untouched:
  "q \<in> A \<Longrightarrow> untouched A m (check_eager_wbr q m) \<and> (\<forall>l. lp_gpa (mm_lps (check_eager_wbr q m) l) = lp_gpa (mm_lps m l))"
proof
  have d: "mm_gpas (foldl (\<lambda>m g. upd_lp (\<lambda>lp. lp\<lparr>lp_w := None\<rparr>) (the (local_page (mm_gpas m g))) m) x gs) = mm_gpas x" for x gs
    by (induction gs arbitrary: x) (simp_all add: upd_lp_def)
  assume q: "q \<in> A"
  have "mm_gpas (drop_block_w q x) = mm_gpas x" for x unfolding drop_block_w_def by (rule d)
  then have "mm_gpas (upd_lp f l (drop_block_w q x)) = mm_gpas x" for f l x by (simp add: upd_lp_def)
  note u = untouched_upd_head [OF untouched_gpas [OF untouched_upd_head [OF untouched_refl q] this] q]
  show "untouched A m (check_eager_wbr q m)" using u by (simp add: check_eager_wbr_def Let_def)
  show "\<forall>l. lp_gpa (mm_lps (check_eager_wbr q m) l) = lp_gpa (mm_lps m l)"
    using tidy_check_eager_wbr [of m q] by (simp add: tidy_def quiet_def lru_frame_def)
qed

lemma check_all_untouched:
  "untouched (page_gpas m ls) m (foldl (\<lambda>m l. check_eager_wbr (lp_gpa (mm_lps m l)) m) m ls)"
proof (induction ls arbitrary: m)
  case (Cons l ls)
  let ?m1 = "check_eager_wbr (lp_gpa (mm_lps m l)) m"
  have q: "untouched (page_gpas m (l # ls)) m ?m1" "\<forall>x. lp_gpa (mm_lps ?m1 x) = lp_gpa (mm_lps m x)"
    using check_eager_wbr_untouched [of "lp_gpa (mm_lps m l)" "page_gpas m (l # ls)" m] by (simp_all add: page_gpas_def)
  have g: "page_gpas ?m1 ls = page_gpas m ls" using q(2) by (simp add: page_gpas_def)
  have "untouched (page_gpas m (l # ls)) ?m1 (foldl (\<lambda>m l. check_eager_wbr (lp_gpa (mm_lps m l)) m) ?m1 ls)"
    by (rule untouched_mono [OF Cons.IH [of ?m1, unfolded g]]) (auto simp: page_gpas_def)
  then show ?case using untouched_trans [OF q(1)] by simp
qed simp

lemma select_victims_inactive_list_ok:
  assumes inv: "inactive_inv W T m" and c: "c \<in> mm_cpus m" and n: "0 < n" and pin: "pin_list_for INACTIVE_LIST m c"
  shows "\<exists>vl pl rl m'. select_victims_inactive_list gf pc m c n pressure
      = Some (map (lp_head m) vl, pressure - weight m (mset vl), m')
    \<and> selection T m vl m' \<and> inactive_inv (W + weight m (mset vl)) (T + mset vl) m' \<and> int (length vl) \<le> n
    \<and> sorted_out INACTIVE_LIST m vl pl rl m'"
proof -
  obtain s m1 where sc: "il_scan pc (Slru_mru c) n (el_head (slru_lists m INACTIVE_LIST (Slru_mru c))) init_al_state m = (s, m1)"
    by (metis surj_pair)
  have p: "Slru_mru c \<in> places m" "place_flag (Slru_mru c) = LOCAL_PAGE_ON_MRU" using c by (simp_all add: place_flag_def)
  from il_scan_ok [OF sc _ p] n obtain vl pl rl where a: "al_picks INACTIVE_LIST m init_al_state vl pl rl s m1"
    "int (length (al_vs s)) \<le> n" by (auto simp: init_al_state_def)
  have t: "takes (Some INACTIVE_LIST) m (vl @ pl @ rl) m1" using a(1) by (simp add: al_picks_def)
  have q: "quiet m m1" using t by (simp add: takes_def)
  note f1 = quiet_frame [OF q]
  have st: "al_vs s = map (lp_head m) vl" "al_pages s = weight m (mset vl)" "tl_head (al_pin s) = pl"
    "al_pin_pages s = weight m (mset pl)" "tl_head (al_promote s) = rl" "al_promote_pages s = weight m (mset rl)"
    using a(1) by (simp_all add: al_picks_def al_grown_def init_al_state_def)
  have inv0: "lru_inv T m" "slru_page_len m INACTIVE_LIST = weight m (members m INACTIVE_LIST) + W"
    using inv by (simp_all add: inactive_inv_def)
  have pl1: "placed {#} ((T + mset vl) + mset rl + mset pl) m1" using t inv0(1) by (simp add: takes_def lru_inv_def ac_simps)
  note tk = takes_Some [OF t]
  have mem: "members m INACTIVE_LIST = members m1 INACTIVE_LIST + mset vl + mset pl + mset rl"
    "members m1 PROACTIVE_LIST = members m PROACTIVE_LIST" "members m1 ACTIVE_LIST = members m ACTIVE_LIST"
    "pin_members m1 = pin_members m"
    using tk(1) [of INACTIVE_LIST] tk(1) [of PROACTIVE_LIST] tk(1) [of ACTIVE_LIST] tk(2) by (simp_all add: ac_simps)
  have hp: "head_page m1 l" if "l \<in> set pl" for l using placedD(4) [OF pl1, of l] that by simp
  have pg: "pl = [] \<or> get_list_ptr_pin m1 c \<noteq> None"
  proof (cases "pl = []")
    case False
    then have h: "hd pl \<in> set pl" by simp
    then have "pinned_head m (hd pl)" "hd pl \<in># members m INACTIVE_LIST" using a(1) mem(1) by (simp_all add: al_picks_def)
    then show ?thesis using pin by (auto simp: pin_list_for_def get_list_ptr_pin_frame [OF f1])
  qed simp
  have w1: "al_pin_pages s = weight m1 (mset pl)" using st(4) by (simp add: weight_frame [OF f1])
  from pin_step [where k = INACTIVE_LIST and mapped = False, OF pg hp st(3) w1] obtain m2 where
    m2: "(if al_pin_pages s > 0 then move_to_pin_list (add_page_len INACTIVE_LIST (- al_pin_pages s) m1) c (al_pin s) False False
          else Some m1) = Some m2" "regroups None m1 pl m2"
      "lens m1 m2 (\<lambda>k'. (if k' = INACTIVE_LIST then - al_pin_pages s else 0) + (if k' = PROACTIVE_LIST then al_pin_pages s else 0))
        (al_pin_pages s)" by blast
  have f2: "lru_frame m m2" using lru_frame_trans [OF f1 regroups_eqs(1) [OF m2(2)]] .
  have c2: "c \<in> mm_cpus m2" using c lru_frame_eqs(4) [OF f2] by simp
  have w2: "al_promote_pages s = weight m2 (mset rl)" using st(6) by (simp add: weight_frame [OF f2])
  define m4 where "m4 = (if al_promote_pages s \<noteq> 0
       then promote_gpas gf (foldl (\<lambda>m l. check_eager_wbr (lp_gpa (mm_lps m l)) m)
              (add_page_len INACTIVE_LIST (- al_promote_pages s) m2) (tl_head (al_promote s)))
              c (al_promote s) (al_promote_pages s) False else m2)"
  have m4: "regroups (Some PROACTIVE_LIST) m2 rl m4"
    "lens m2 m4 (\<lambda>k'. (if k' = INACTIVE_LIST then - al_promote_pages s else 0) + (if k' = PROACTIVE_LIST then al_promote_pages s else 0)) 0"
    using promote_step [where gf = gf and mapped = False, OF c2 st(5) w2 tidy_check_all] unfolding m4_def by simp_all
  have f4: "lru_frame m m4" using lru_frame_trans [OF f2 regroups_eqs(1) [OF m4(1)]] .
  have e: "select_victims_inactive_list gf pc m c n pressure = Some (map (lp_head m) vl, pressure - weight m (mset vl), m4)"
    unfolding select_victims_inactive_list_def Let_def sc prod.case m2(1) option.case m4_def st(1,2) ..
  have place: "placed {#} (T + mset vl) m4" using regroups_eqs(4) [OF m4(1)] regroups_eqs(4) [OF m2(2)] pl1 by blast
  have mem4: "members m4 PROACTIVE_LIST = members m PROACTIVE_LIST + mset rl"
    "members m4 ACTIVE_LIST = members m ACTIVE_LIST" "members m4 INACTIVE_LIST = members m1 INACTIVE_LIST"
    "pin_members m4 = pin_members m + mset pl"
    using regroups_eqs(2,3) [OF m4(1)] regroups_eqs(2,3) [OF m2(2)] mem by simp_all
  have len: "slru_page_len m4 PROACTIVE_LIST = slru_page_len m PROACTIVE_LIST + weight m (mset pl) + weight m (mset rl)"
    "slru_page_len m4 ACTIVE_LIST = slru_page_len m ACTIVE_LIST"
    "slru_page_len m4 INACTIVE_LIST = slru_page_len m INACTIVE_LIST - weight m (mset pl) - weight m (mset rl)"
    "cur_pin_pages m4 = cur_pin_pages m + weight m (mset pl)"
    using m2(3) m4(2) quiet_fields [OF q] st by (simp_all add: lens_def)
  have inv4: "inactive_inv (W + weight m (mset vl)) (T + mset vl) m4"
    using inv0 place mem4 len arg_cong [OF mem(1), of "weight m"]
    by (simp add: inactive_inv_def lru_inv_def weight_frame [OF f4])
  have h: "lp_head m1 = lp_head m" "lp_head m2 = lp_head m" by (intro ext lru_frame_eqs(1) f1 f2)+
  have "took m (vl @ pl @ rl) m1" using t by (simp add: takes_def)
  then have "took m vl m4"
    using regroups_eqs(5) [OF m4(1)] regroups_eqs(5) [OF m2(2)] by (auto simp: took_def h)
  with f4 inv4 have "selection T m vl m4" by (simp add: selection_def inactive_inv_def)
  moreover have "sorted_out INACTIVE_LIST m vl pl rl m4"
  proof -
    let ?A = "lp_head m ` set (pl @ rl)"
    have hr: "head_page m l" if "l \<in> set (pl @ rl)" for l
      using placedD(4) [OF pl1, of l] that head_page_frame [OF f1] by auto
    have "untouched ?A m1 m2"
    proof (cases "al_pin_pages s > 0")
      case True
      then have "move_to_pin_list (add_page_len INACTIVE_LIST (- al_pin_pages s) m1) c (al_pin s) False False = Some m2"
        using m2(1) by simp
      from move_to_pin_list_untouched [OF this] have "untouched (page_gpas m1 pl) m1 m2"
        by (simp add: st page_gpas_def add_page_len_def untouched_def desc_def)
      then show ?thesis by (rule untouched_mono) (use page_gpas_heads [OF f1, of pl] hr in auto)
    qed (use m2(1) in simp)
    moreover have "untouched ?A m2 m4"
    proof (cases "al_promote_pages s = 0")
      case False
      let ?m = "add_page_len INACTIVE_LIST (- al_promote_pages s) m2"
      let ?m' = "foldl (\<lambda>m l. check_eager_wbr (lp_gpa (mm_lps m l)) m) ?m (tl_head (al_promote s))"
      have q': "quiet ?m ?m'" using tidy_check_all by (simp add: tidy_def)
      have "c \<in> mm_cpus ?m'" using c2 lru_frame_eqs(4) [OF quiet_frame [OF q']] by (simp add: add_page_len_only)
      from promote_gpas_untouched [OF this, of "al_promote s" gf "al_promote_pages s" False]
      have "untouched (page_gpas ?m' rl) ?m' m4" using False by (simp add: m4_def st)
      moreover have "page_gpas ?m' rl = page_gpas m2 rl"
        using quiet_frame [OF q'] by (simp add: page_gpas_def lru_frame_def add_page_len_def)
      moreover have "untouched (page_gpas m2 rl) m2 ?m'"
        using check_all_untouched [of ?m "tl_head (al_promote s)"]
        by (simp add: st page_gpas_def add_page_len_def untouched_def desc_def)
      ultimately have "untouched (page_gpas m2 rl) m2 m4" using untouched_trans by simp
      then show ?thesis by (rule untouched_mono) (use page_gpas_heads [OF f2, of rl] hr in auto)
    qed (simp add: m4_def)
    ultimately have "untouched ?A m1 m4" using untouched_trans by blast
    note de = al_picks_desc [OF a(1) this]
    have mk: "members m4 k' = members m k'" if "k' \<noteq> INACTIVE_LIST" "k' \<noteq> PROACTIVE_LIST" for k'
      using that mem4 by (cases k') simp_all
    show ?thesis using de mk a(1) mem mem4 unfolding sorted_out_def al_picks_def by simp
  qed
  ultimately show ?thesis using e inv4 a(2) st(1)
    by (intro exI [of _ vl] exI [of _ pl] exI [of _ rl] exI [of _ m4]) simp
qed

section \<open>Entering the list\<close>

lemma inactive_put:
  assumes "placed U (add_mset l T) m" and c: "c \<in> mm_cpus m" and l: "l = the (local_page (mm_gpas m g))"
    and m': "m' = snd (add_gpa_inactive c g (n, m))"
  shows "quiet m m'" and "placed U T m'" and "members m' INACTIVE_LIST = add_mset l (members m INACTIVE_LIST)"
    and "k \<noteq> INACTIVE_LIST \<Longrightarrow> members m' k = members m k" and "pin_members m' = pin_members m"
    and "locked_at m' q = locked_at m q" and "mm_gpas m' q = (if q = g then (mm_gpas m q)\<lparr>r_state := GPA_INACTIVE\<rparr> else mm_gpas m q)"
    and "l' \<noteq> l \<Longrightarrow> mm_lps m' l' = mm_lps m l'"
    and "fst (add_gpa_inactive c g (n, m)) = n + int (gpa_block_size (mm_gpas m g))"
proof -
  let ?f = "\<lambda>d. d\<lparr>r_state := GPA_INACTIVE\<rparr>"
  let ?m1 = "upd_head ?f g m"
  note u = upd_head_keeps [of ?f, OF fixed_part_ops(3), simplified]
  have e: "m' = put_page INACTIVE_LIST (Slru_mru c) l ?m1"
    by (simp add: m' add_gpa_inactive_def Let_def l put_page_def put_page_mru_def upd_head_def upd_gpa_def)
  have p: "Slru_mru c \<in> places ?m1" using c places_quiet [OF u(1)] by simp
  show q: "quiet m m'" unfolding e by (rule quiet_trans [OF u(1) put_page_simps(5)])
  show "placed U T m'" unfolding e by (rule put_page_placed [OF _ p]) (simp add: u(3) assms(1))
  have g: "members ?m1 k = members m k" "pin_members ?m1 = pin_members m" for k
    using u(2) [of g m "Some k"] u(2) [of g m None] by simp_all
  show "members m' INACTIVE_LIST = add_mset l (members m INACTIVE_LIST)" "pin_members m' = pin_members m"
    "k \<noteq> INACTIVE_LIST \<Longrightarrow> members m' k = members m k"
    using put_page_members [OF p] g by (simp_all add: e) (simp add: pin_members_def put_page_simps upd_head_simps)
  show "locked_at m' q = locked_at m q" using u(4) by (simp add: e locked_at_def put_page_simps)
  show "mm_gpas m' q = (if q = g then (mm_gpas m q)\<lparr>r_state := GPA_INACTIVE\<rparr> else mm_gpas m q)"
    by (simp add: e put_page_simps upd_head_def upd_gpa_def)
  show "l' \<noteq> l \<Longrightarrow> mm_lps m' l' = mm_lps m l'" by (simp add: e put_page_def page_ops upd_head_def)
  show "fst (add_gpa_inactive c g (n, m)) = n + int (gpa_block_size (mm_gpas m g))"
    by (simp add: add_gpa_inactive_def Let_def upd_head_def upd_gpa_def upd_lp_def upd_slru_def gpa_block_size_def)
qed

text \<open>Blocks given by their heads, each with a page of its own that is in transit.\<close>

definition heads_ok :: "emp_mm \<Rightarrow> gpa_ptr list \<Rightarrow> bool" where
  "heads_ok m gs \<longleftrightarrow> (\<forall>g \<in> set gs. emp_get_block_head (mm_gpas m) g = g \<and> lp_gpa (mm_lps m (gpa_page m g)) = g)"

lemma heads_ok_frame: "lru_frame m m' \<Longrightarrow> heads_ok m' gs = heads_ok m gs"
proof -
  assume f: "lru_frame m m'"
  then have "lp_gpa (mm_lps m' l) = lp_gpa (mm_lps m l)" for l by (simp add: lru_frame_def)
  then show ?thesis by (simp add: heads_ok_def emp_get_block_head_frame [OF f] gpa_page_frame [OF f])
qed

lemma heads_block_pages:
  "heads_ok m (g # gs) \<Longrightarrow> block_pages m (gpa_page m g) = int (gpa_block_size (mm_gpas m g))"
  by (simp add: heads_ok_def block_pages_def lp_head_def)

lemma add_inactive_fold:
  assumes "placed U (T + mset (map (gpa_page m) gs)) m" and "heads_ok m gs" and "c \<in> mm_cpus m"
    and "fold (add_gpa_inactive c) gs (n, m) = (n', m')"
  shows "quiet m m' \<and> placed U T m' \<and> n' = n + weight m (mset (map (gpa_page m) gs))
    \<and> members m' INACTIVE_LIST = members m INACTIVE_LIST + mset (map (gpa_page m) gs)
    \<and> (\<forall>k. k \<noteq> INACTIVE_LIST \<longrightarrow> members m' k = members m k) \<and> pin_members m' = pin_members m
    \<and> (\<forall>q. locked_at m' q = locked_at m q)
    \<and> (\<forall>q. mm_gpas m' q = (if q \<in> set gs then (mm_gpas m q)\<lparr>r_state := GPA_INACTIVE\<rparr> else mm_gpas m q))
    \<and> (\<forall>l. l \<notin> gpa_page m ` set gs \<longrightarrow> mm_lps m' l = mm_lps m l)"
  using assms
proof (induction gs arbitrary: m n)
  case (Cons g gs)
  let ?l = "gpa_page m g"
  obtain n1 m1 where one: "add_gpa_inactive c g (n, m) = (n1, m1)" by (metis surj_pair)
  have hd: "emp_get_block_head (mm_gpas m) g = g" using Cons.prems(2) by (simp add: heads_ok_def)
  have l: "?l = the (local_page (mm_gpas m g))" by (simp add: gpa_page_def hd)
  have pl: "placed U (add_mset ?l (T + mset (map (gpa_page m) gs))) m" using Cons.prems(1) by simp
  note a = inactive_put [where n = n, OF pl Cons.prems(3) l, of m1, unfolded one fst_conv snd_conv, OF refl]
  note f = quiet_frame [OF a(1)]
  have gp: "gpa_page m1 = gpa_page m" by (rule ext) (rule gpa_page_frame [OF f])
  have "fold (add_gpa_inactive c) gs (n1, m1) = (n', m')" using Cons.prems(4) one by simp
  from Cons.IH [OF _ _ _ this] a(2) Cons.prems(2,3)
  have ih: "quiet m1 m'" "placed U T m'" "n' = n1 + weight m1 (mset (map (gpa_page m) gs))"
    "members m' INACTIVE_LIST = members m1 INACTIVE_LIST + mset (map (gpa_page m) gs)"
    "\<And>k. k \<noteq> INACTIVE_LIST \<Longrightarrow> members m' k = members m1 k" "pin_members m' = pin_members m1"
    "\<And>q. locked_at m' q = locked_at m1 q"
    "\<And>q. mm_gpas m' q = (if q \<in> set gs then (mm_gpas m1 q)\<lparr>r_state := GPA_INACTIVE\<rparr> else mm_gpas m1 q)"
    "\<And>l. l \<notin> gpa_page m ` set gs \<Longrightarrow> mm_lps m' l = mm_lps m1 l"
    by (simp_all add: gp heads_ok_frame [OF f] lru_frame_eqs(4) [OF f]) (simp_all add: heads_ok_def)
  have "mm_gpas m' q = (if q \<in> set (g # gs) then (mm_gpas m q)\<lparr>r_state := GPA_INACTIVE\<rparr> else mm_gpas m q)" for q
    using ih(8) [of q] a(7) [of q] by auto
  moreover have "mm_lps m' x = mm_lps m x" if "x \<notin> gpa_page m ` set (g # gs)" for x
    using that ih(9) [of x] a(8) [of x] by simp
  ultimately show ?case
    using quiet_trans [OF a(1) ih(1)] ih(2-7) a(3-6,9) heads_block_pages [OF Cons.prems(2)] by (simp add: weight_frame [OF f])
qed simp

lemma insert_inactive_ok:
  assumes inv: "inactive_inv W (T + mset (map (gpa_page m) gs)) m" and "heads_ok m gs" and "c \<in> mm_cpus m"
  shows "\<exists>m'. insert_inactive m c gs = (weight m (mset (map (gpa_page m) gs)), m') \<and> inactive_inv W T m'
    \<and> lru_frame m m' \<and> (\<forall>q. locked_at m' q = locked_at m q)
    \<and> members m' INACTIVE_LIST = members m INACTIVE_LIST + mset (map (gpa_page m) gs)
    \<and> (\<forall>k. k \<noteq> INACTIVE_LIST \<longrightarrow> members m' k = members m k) \<and> pin_members m' = pin_members m
    \<and> (\<forall>q. mm_gpas m' q = (if q \<in> set gs then (mm_gpas m q)\<lparr>r_state := GPA_INACTIVE\<rparr> else mm_gpas m q))
    \<and> (\<forall>l. l \<notin> gpa_page m ` set gs \<longrightarrow> mm_lps m' l = mm_lps m l)"
proof -
  define xs where "xs = map (gpa_page m) gs"
  obtain n m1 where fd: "fold (add_gpa_inactive c) gs (0, m) = (n, m1)" by (metis surj_pair)
  have "placed {#} (T + mset (map (gpa_page m) gs)) m" using inv by (simp add: inactive_inv_def lru_inv_def)
  from add_inactive_fold [OF this assms(2,3) fd, folded xs_def] have
    a: "quiet m m1" "placed {#} T m1" "n = weight m (mset xs)"
    "members m1 INACTIVE_LIST = members m INACTIVE_LIST + mset xs"
    "\<And>k. k \<noteq> INACTIVE_LIST \<Longrightarrow> members m1 k = members m k" "pin_members m1 = pin_members m"
    "\<And>q. locked_at m1 q = locked_at m q"
    "\<And>q. mm_gpas m1 q = (if q \<in> set gs then (mm_gpas m q)\<lparr>r_state := GPA_INACTIVE\<rparr> else mm_gpas m q)"
    "\<And>l. l \<notin> gpa_page m ` set gs \<Longrightarrow> mm_lps m1 l = mm_lps m l" by auto
  note f = quiet_frame [OF a(1)]
  define m2 where "m2 = add_page_len INACTIVE_LIST (weight m (mset xs)) m1"
  have "mm_gpas m2 = mm_gpas m1" "mm_lps m2 = mm_lps m1" "weight m (mset xs) = 0 \<Longrightarrow> m2 = m1" by (simp_all add: m2_def add_page_len_def)
  moreover from this have e: "insert_inactive m c gs = (weight m (mset xs), m2)"
    by (simp add: insert_inactive_def fd a(3)) (simp add: m2_def)
  moreover have f2: "lru_frame m m2" using lru_frame_trans [OF f add_page_len_only(1)] by (simp add: m2_def)
  moreover have o: "members m2 k = members m1 k" "pin_members m2 = pin_members m1" "locked_at m2 q = locked_at m1 q"
    "placed {#} T m2" for k q using a(2) by (simp_all add: m2_def add_page_len_only)
  moreover have len: "slru_page_len m2 k = slru_page_len m k + (if k = INACTIVE_LIST then weight m (mset xs) else 0)"
    "cur_pin_pages m2 = cur_pin_pages m" for k
    by (simp_all add: m2_def add_page_len_def quiet_fields [OF a(1)])
  moreover have "inactive_inv W T m2"
    using inv o a(4-6) by (simp add: inactive_inv_def lru_inv_def len weight_frame [OF f2])
  ultimately show ?thesis using a(4-9) unfolding xs_def by (intro exI [of _ m2]) simp
qed

section \<open>Removing a block from its list\<close>

lemma flag_in_list_flags: "i < 4 \<Longrightarrow> is_local_page_flags lp i \<longleftrightarrow> i \<in> list_flags lp"
  by (simp add: is_local_page_flags_def list_flags_def bit_iff_and_push_bit_not_eq_0)

lemma LOCAL_PAGE_ON_less: "LOCAL_PAGE_ON_MRU < 4" "LOCAL_PAGE_ON_LRU < 4" "LOCAL_PAGE_ON_GLOBAL < 4" "LOCAL_PAGE_ON_PIN < 4"
  by (simp_all add: LOCAL_PAGE_ON_MRU_def LOCAL_PAGE_ON_LRU_def LOCAL_PAGE_ON_GLOBAL_def LOCAL_PAGE_ON_PIN_def)

lemma listed_at_place: "lp_at lp p \<Longrightarrow> listed_at lp = p"
  by (cases p) (simp_all add: listed_at_def lp_at_def flag_in_list_flags LOCAL_PAGE_ON_less,
      simp_all add: LOCAL_PAGE_ON_MRU_def LOCAL_PAGE_ON_LRU_def LOCAL_PAGE_ON_GLOBAL_def)

lemma clear_only_flag:
  assumes "lp_at lp p"
  shows "clear_local_page_list_flags lp = clear_local_page_flags lp (place_flag p)"
proof -
  have f: "list_flags lp = {place_flag p}" by (rule lp_at_flags [OF assms])
  have "bit (lp_flags lp) n \<Longrightarrow> n < 3 \<Longrightarrow> n = place_flag p" for n
  proof -
    assume "bit (lp_flags lp) n" "n < 3"
    then have "n \<in> list_flags lp" by (simp add: list_flags_def)
    then show "n = place_flag p" by (simp add: f)
  qed
  moreover have "place_flag p < 3"
    by (cases p) (simp_all add: place_flag_def LOCAL_PAGE_ON_MRU_def LOCAL_PAGE_ON_LRU_def LOCAL_PAGE_ON_GLOBAL_def)
  ultimately have i: "(bit (lp_flags lp) n \<and> 3 \<le> n) = (bit (lp_flags lp) n \<and> n \<noteq> place_flag p)" for n
    by (metis not_less)
  have "bit (lp_flags (clear_local_page_flags lp (place_flag p))) n \<longleftrightarrow> bit (lp_flags lp) n \<and> n \<noteq> place_flag p" for n
    using bit_imp_le_length [of "lp_flags lp" n]
    by (auto simp: clear_local_page_flags_def bit_and_iff bit_not_iff bit_one_flag simp del: push_bit_of_1)
  then have "lp_flags (clear_local_page_list_flags lp) = lp_flags (clear_local_page_flags lp (place_flag p))"
    by (intro bit_eqI) (simp only: bit_clear_list_flags i)
  then show ?thesis by (simp add: clear_local_page_list_flags_def clear_local_page_flags_def)
qed

lemma lens_inactive_inv:
  assumes inv: "inactive_inv W T m" and f: "lru_frame m m'" and pl: "placed {#} T' m'"
    and g: "\<And>x. group_members m x = group_members m' x + (if x = y then mset xs else {#})"
    and ln: "\<And>k. slru_page_len m' k = slru_page_len m k
      - (if y = Some k \<or> y = None \<and> k = PROACTIVE_LIST then weight m (mset xs) else 0)"
    and cp: "cur_pin_pages m' = cur_pin_pages m - (if y = None then weight m (mset xs) else 0)"
  shows "inactive_inv W T' m'"
proof -
  have w: "weight m (group_members m x) = weight m (group_members m' x) + (if x = y then weight m (mset xs) else 0)" for x
    using arg_cong [OF g [of x], of "weight m"] by auto
  show ?thesis
    using inv pl w [of None] w [of "Some PROACTIVE_LIST"] w [of "Some ACTIVE_LIST"] w [of "Some INACTIVE_LIST"] ln cp
    by (simp add: inactive_inv_def lru_inv_def weight_frame [OF f] split: if_splits)
qed

lemma unlist_one:
  assumes inv: "inactive_inv W T m" and p: "p \<in> places m" and l: "l \<in> set (el_head (slru_lists m k p))"
    and m': "m' = add_page_len k (- block_pages m l) (take_page k p (place_flag p) l m)"
  shows "inactive_inv W (add_mset l T) m'" and "lru_frame m m'" and "mm_gpas m' = mm_gpas m"
    and "group_members m x = group_members m' x + (if x = Some k then {#l#} else {#})"
proof -
  let ?m1 = "take_page k p (place_flag p) l m"
  have q: "quiet m ?m1" by (rule take_page_simps)
  note t = take_page_members [where i = "place_flag p", OF p l]
  have pm: "pin_members ?m1 = pin_members m" by (simp add: pin_members_def take_page_simps)
  show f: "lru_frame m m'" unfolding m' by (rule lru_frame_trans [OF quiet_frame [OF q] add_page_len_only(1)])
  show "mm_gpas m' = mm_gpas m" by (simp add: m' add_page_len_def take_page_simps)
  show g: "group_members m x = group_members m' x + (if x = Some k then {#l#} else {#})" for x
    using t pm by (cases x) (auto simp: m' add_page_len_only)
  have pl: "placed {#} (add_mset l T) m'"
    using take_page_placed [OF _ p l] inv by (simp add: m' add_page_len_only inactive_inv_def lru_inv_def)
  show "inactive_inv W (add_mset l T) m'"
    by (rule lens_inactive_inv [where y = "Some k" and xs = "[l]", OF inv f pl])
      (use g in \<open>simp_all add: m' add_page_len_def quiet_fields [OF q]\<close>)
qed

lemma unlist_pin:
  assumes inv: "inactive_inv W T m" and i: "i < mm_possible_cpus m" and l: "l \<in> set (el_head (pin_lists m i))"
    and m': "m' = add_page_len PROACTIVE_LIST (- block_pages m l)
      (take_pin i l (m\<lparr>cur_pin_pages := cur_pin_pages m - block_pages m l\<rparr>))"
  shows "inactive_inv W (add_mset l T) m'" and "lru_frame m m'" and "mm_gpas m' = mm_gpas m"
    and "group_members m x = group_members m' x + (if x = None then {#l#} else {#})"
proof -
  define m0 where "m0 = m\<lparr>cur_pin_pages := cur_pin_pages m - block_pages m l\<rparr>"
  have eqs: "mm_gpas m0 = mm_gpas m" "mm_lps m0 = mm_lps m" "slru_lists m0 = slru_lists m" "pin_lists m0 = pin_lists m"
    "mm_possible_cpus m0 = mm_possible_cpus m" "mm_vcpus_len m0 = mm_vcpus_len m" by (simp_all add: m0_def)
  note o = lengths_only [OF eqs]
  have q: "quiet m0 (take_pin i l m0)" by (rule take_pin_simps)
  have i0: "i < mm_possible_cpus m0" "l \<in> set (el_head (pin_lists m0 i))" using i l eqs by simp_all
  note t = take_pin_members [OF i0]
  have e: "m' = add_page_len PROACTIVE_LIST (- block_pages m l) (take_pin i l m0)" by (simp add: m' m0_def)
  show f: "lru_frame m m'" unfolding e
    by (rule lru_frame_trans [OF lru_frame_trans [OF o(1) quiet_frame [OF q]] add_page_len_only(1)])
  show "mm_gpas m' = mm_gpas m" by (simp add: e add_page_len_def take_pin_simps eqs)
  show g: "group_members m x = group_members m' x + (if x = None then {#l#} else {#})" for x
    using t o(3) [of x] by (cases x) (auto simp: e add_page_len_only)
  have pl: "placed {#} (add_mset l T) m'"
    using take_pin_placed [OF _ i0] inv by (simp add: e add_page_len_only inactive_inv_def lru_inv_def o(2))
  show "inactive_inv W (add_mset l T) m'"
    by (rule lens_inactive_inv [where y = None and xs = "[l]", OF inv f pl])
      (use g in \<open>simp_all add: e add_page_len_def quiet_fields [OF q], simp_all add: m0_def\<close>)
qed

text \<open>The page of the block with head \<open>g\<close> is on the list \<open>x\<close> and the descriptor says so; \<open>None\<close> are the pin lists.\<close>

definition listed_as :: "emp_mm \<Rightarrow> gpa_ptr \<Rightarrow> lru_list_type option \<Rightarrow> bool" where
  "listed_as m g x \<longleftrightarrow> emp_get_block_head (mm_gpas m) g = g \<and> lp_gpa (mm_lps m (gpa_page m g)) = g
     \<and> gpa_page m g \<in># group_members m x
     \<and> (if x = Some INACTIVE_LIST
        then r_state (mm_gpas m g) = GPA_INACTIVE \<and> list_flags (mm_lps m (gpa_page m g)) = {LOCAL_PAGE_ON_MRU}
        else r_state (mm_gpas m g) = GPA_ACTIVE
          \<and> (is_gpa_flags_set (mm_gpas m g) GPA_PROACTIVE_MASK \<longleftrightarrow> x \<noteq> Some ACTIVE_LIST))"

lemma settled_inactive_inv:
  assumes "settled m m'" and "inactive_inv W T m"
  shows "inactive_inv W T m'"
proof -
  have q: "quiet m m'" using assms(1) by (simp add: settled_def)
  have "members m' k = members m k" "pin_members m' = pin_members m" for k
    using assms(1) unfolding settled_def by (auto dest: spec [of _ "Some k"] spec [of _ None])
  then show ?thesis
    using assms by (simp add: inactive_inv_def lru_inv_def settled_def weight_frame [OF quiet_frame [OF q]] quiet_fields [OF q])
qed

lemma get_list_ptr_pin_at: "i < mm_possible_cpus m \<Longrightarrow> get_list_ptr_pin m (int i - int (mm_possible_cpus m)) = Some i"
  by (simp add: get_list_ptr_pin_def PCPU_ID_def)

lemma remove_from_list_eq:
  assumes "lp_at (mm_lps m l) p"
  shows "upd_lp clear_local_page_list_flags l (add_page_len k n (upd_slru k p (emp_list_del_init l) m))
    = add_page_len k n (take_page k p (place_flag p) l m)"
  by (simp add: take_page_def upd_lp_def add_page_len_def upd_slru_def clear_only_flag [OF assms])

lemma remove_from_proactive_ok:
  assumes inv: "inactive_inv W T m" and g: "lp_head m l = g" "l = the (local_page (mm_gpas m g))"
    and x: "l \<in># group_members m x" "x = None \<or> x = Some PROACTIVE_LIST"
  shows "\<exists>m'. remove_from_proactive g m = Some m' \<and> inactive_inv W (add_mset l T) m' \<and> lru_frame m m' \<and> mm_gpas m' = mm_gpas m
    \<and> (\<forall>y. group_members m y = group_members m' y + (if y = x then {#l#} else {#}))"
proof -
  have pl: "placed {#} T m" using inv by (simp add: inactive_inv_def lru_inv_def)
  have size: "int (gpa_block_size (mm_gpas m g)) = block_pages m l" by (simp add: block_pages_def g(1))
  show ?thesis
  proof (cases x)
    case None
    then obtain i where i: "i < mm_possible_cpus m" "l \<in> set (el_head (pin_lists m i))" using x(1) by (auto simp: in_pin_members)
    have "lp_pinned_at (mm_lps m l) (int i - int (mm_possible_cpus m))" by (rule placedD(6) [OF pl i])
    then have f: "is_local_page_flags (mm_lps m l) LOCAL_PAGE_ON_PIN" "get_list_ptr_pin m (lp_cpu (mm_lps m l)) = Some i"
      using get_list_ptr_pin_at [OF i(1)] by (simp_all add: lp_pinned_at_def flag_in_list_flags LOCAL_PAGE_ON_less)
    let ?m = "add_page_len PROACTIVE_LIST (- block_pages m l) (take_pin i l (m\<lparr>cur_pin_pages := cur_pin_pages m - block_pages m l\<rparr>))"
    have "remove_from_proactive g m = Some ?m"
      by (simp add: remove_from_proactive_def Let_def g(2) [symmetric] f size take_pin_def upd_lp_def add_page_len_def)
    then show ?thesis using unlist_pin [OF inv i refl] None by (intro exI [of _ ?m]) simp
  next
    case (Some k)
    with x(2) have k: "k = PROACTIVE_LIST" by simp
    obtain p where p: "p \<in> places m" "l \<in> set (el_head (slru_lists m PROACTIVE_LIST p))"
      using x(1) Some k by (auto simp: in_members)
    note at = placedD(5) [OF pl p]
    have np: "\<not> is_local_page_flags (mm_lps m l) LOCAL_PAGE_ON_PIN"
      using lp_at_flags [OF at] by (cases p)
        (simp_all add: flag_in_list_flags LOCAL_PAGE_ON_less place_flag_def,
         simp_all add: LOCAL_PAGE_ON_MRU_def LOCAL_PAGE_ON_LRU_def LOCAL_PAGE_ON_GLOBAL_def LOCAL_PAGE_ON_PIN_def)
    let ?m = "add_page_len PROACTIVE_LIST (- block_pages m l) (take_page PROACTIVE_LIST p (place_flag p) l m)"
    have "remove_from_proactive g m = Some ?m"
      by (simp add: remove_from_proactive_def Let_def g(2) [symmetric] np size listed_at_place [OF at] remove_from_list_eq [OF at])
    then show ?thesis using unlist_one [OF inv p refl] Some k by (intro exI [of _ ?m]) simp
  qed
qed

lemma remove_gpa_from_lru_ok:
  assumes inv: "inactive_inv W T m" and at: "listed_as m g x"
  shows "\<exists>m'. remove_gpa_from_lru g m = Some m' \<and> inactive_inv W (add_mset (gpa_page m g) T) m' \<and> lru_frame m m'
    \<and> (\<forall>y. group_members m y = group_members m' y + (if y = x then {#gpa_page m g#} else {#}))
    \<and> (\<forall>q. locked_at m' q = locked_at m q) \<and> (\<forall>q. r_state (mm_gpas m' q) = r_state (mm_gpas m q))"
proof -
  define l where "l = gpa_page m g"
  have hd: "emp_get_block_head (mm_gpas m) g = g" "lp_gpa (mm_lps m l) = g" "l \<in># group_members m x"
    using at by (simp_all add: listed_as_def l_def)
  have l: "lp_head m l = g" "l = the (local_page (mm_gpas m g))" using hd by (simp_all add: lp_head_def l_def gpa_page_def)
  have pl: "placed {#} T m" using inv by (simp add: inactive_inv_def lru_inv_def)
  have size: "int (gpa_block_size (mm_gpas m g)) = block_pages m l" by (simp add: block_pages_def l(1))
  consider (pro) "x = None \<or> x = Some PROACTIVE_LIST" | (act) "x = Some ACTIVE_LIST" | (inact) "x = Some INACTIVE_LIST"
    using lru_list_type.exhaust option.exhaust by metis
  then show ?thesis
  proof cases
    case pro
    then have x: "x = None \<or> x = Some PROACTIVE_LIST" .
    then have s: "r_state (mm_gpas m g) = GPA_ACTIVE" "is_gpa_flags_set (mm_gpas m g) GPA_PROACTIVE_MASK"
      using at by (auto simp: listed_as_def)
    let ?m1 = "upd_head (\<lambda>d. snd (clear_gpa_flags_if_set d GPA_PROACTIVE_MASK)) g m"
    have c: "fst (clear_gpa_flags_if_set (mm_gpas m g) GPA_PROACTIVE_MASK)"
      using s(2) by (simp add: clear_gpa_flags_if_set_def is_gpa_flags_same_def is_gpa_flags_set_def)
    note td = tidy_clear_flags [of m GPA_PROACTIVE_MASK g]
    have f1: "lru_frame m ?m1" using td by (simp add: tidy_def quiet_def)
    have gm: "group_members ?m1 y = group_members m y" for y using tidy_settled [OF td] by (simp add: settled_def)
    have l1: "lp_head ?m1 l = g" "l = the (local_page (mm_gpas ?m1 g))"
      using l lru_frame_eqs(1) [OF f1] f1 by (simp_all add: lru_frame_def fixed_part_def)
    from remove_from_proactive_ok [OF settled_inactive_inv [OF tidy_settled [OF td] inv] l1 _ x] hd(3) obtain m' where
      m': "remove_from_proactive g ?m1 = Some m'" "inactive_inv W (add_mset l T) m'" "lru_frame ?m1 m'"
        "mm_gpas m' = mm_gpas ?m1" "\<forall>y. group_members ?m1 y = group_members m' y + (if y = x then {#l#} else {#})"
      unfolding gm by blast
    have "remove_gpa_from_lru g m = Some m'" using s(1) c m'(1) by (simp add: remove_gpa_from_lru_def)
    moreover have "locked_at m' q = locked_at m q" for q using td m'(4) by (simp add: tidy_def locked_at_def)
    moreover have "r_state (mm_gpas m' q) = r_state (mm_gpas m q)" for q
      by (simp add: m'(4) upd_head_def upd_gpa_def clear_gpa_flags_if_set_def)
    ultimately show ?thesis using m'(2,5) lru_frame_trans [OF f1 m'(3)] by (auto simp: l_def [symmetric] gm)
  next
    case act
    then have s: "r_state (mm_gpas m g) = GPA_ACTIVE" "\<not> is_gpa_flags_set (mm_gpas m g) GPA_PROACTIVE_MASK"
      using at by (auto simp: listed_as_def)
    have c: "\<not> fst (clear_gpa_flags_if_set (mm_gpas m g) GPA_PROACTIVE_MASK)"
      using s(2) by (simp add: clear_gpa_flags_if_set_def is_gpa_flags_same_def is_gpa_flags_set_def)
    obtain p where p: "p \<in> places m" "l \<in> set (el_head (slru_lists m ACTIVE_LIST p))"
      using hd(3) act by (auto simp: in_members)
    note a = placedD(5) [OF pl p]
    let ?m = "add_page_len ACTIVE_LIST (- block_pages m l) (take_page ACTIVE_LIST p (place_flag p) l m)"
    have u: "mm_gpas (upd_slru ACTIVE_LIST p (emp_list_del_init l) m) = mm_gpas m" by (simp add: upd_slru_def)
    have "remove_gpa_from_lru g m = Some ?m"
      using s(1) c by (simp add: remove_gpa_from_lru_def remove_from_active_list_def Let_def l(2) [symmetric] u size
          listed_at_place [OF a] remove_from_list_eq [OF a])
    then show ?thesis using unlist_one [OF inv p refl] act unfolding l_def [symmetric]
      by (intro exI [of _ ?m]) (simp add: locked_at_def)
  next
    case inact
    then have s: "r_state (mm_gpas m g) = GPA_INACTIVE" "list_flags (mm_lps m l) = {LOCAL_PAGE_ON_MRU}"
      using at by (simp_all add: listed_as_def l_def)
    obtain p where p: "p \<in> places m" "l \<in> set (el_head (slru_lists m INACTIVE_LIST p))"
      using hd(3) inact by (auto simp: in_members)
    note a = placedD(5) [OF pl p]
    have pp: "p = Slru_mru (lp_cpu (mm_lps m l))"
      using a s(2) by (cases p) (simp_all add: lp_at_def, simp_all add: LOCAL_PAGE_ON_MRU_def LOCAL_PAGE_ON_LRU_def LOCAL_PAGE_ON_GLOBAL_def)
    have on: "is_local_page_on_list (mm_lps m l)"
    proof -
      have "bit (lp_flags (mm_lps m l)) 0" using s(2) by (auto simp: list_flags_def LOCAL_PAGE_ON_MRU_def)
      then have "bit (lp_flags (mm_lps m l) AND LOCAL_PAGE_ON_LIST_MASK) 0" by (simp only: bit_and_iff bit_list_mask) simp
      then show ?thesis unfolding is_local_page_on_list_def by (metis bit_0_eq bot_apply bot_bool_def)
    qed
    let ?m = "add_page_len INACTIVE_LIST (- block_pages m l) (take_page INACTIVE_LIST p (place_flag p) l m)"
    have u: "mm_gpas (upd_slru INACTIVE_LIST p (emp_list_del_init l) m) = mm_gpas m" by (simp add: upd_slru_def)
    have "remove_gpa_from_lru g m = Some ?m"
      using s(1) on by (simp add: remove_gpa_from_lru_def remove_from_inactive_list_def sub_inactive_list_page_len_def Let_def
          l(2) [symmetric] u size pp [symmetric] remove_from_list_eq [OF a])
    then show ?thesis using unlist_one [OF inv p refl] inact unfolding l_def [symmetric]
      by (intro exI [of _ ?m]) (simp add: locked_at_def)
  qed
qed

end
