(* ===== verification/Inactive_Claims.thy ===== *)
theory Inactive_Claims
  imports Lru_Claims Inactive
begin

text \<open>
  The properties of the inactive list: entering it, choosing victims from it, taking any block off the
  list it is on, and the quotas of the lists.  They are applied at the state \<open>ex_mm\<close> of \<open>Lru_Claims\<close>.
\<close>

lemma ex_inactive_inv: "inactive_inv 0 {#} ex_mm" "inactive_inv 0 {#3#} ex_mm"
  by (simp_all add: inactive_inv_def ex_inv ex_members) (simp_all add: ex_mm_def)

lemma ex_heads: "heads_ok ex_mm [12]" "map (gpa_page ex_mm) [12] = [3]"
  by (simp_all add: heads_ok_def gpa_page_def emp_get_block_head_def emp_get_block_head_at_def)

text \<open>
  C23: Choosing victims from the inactive list of a cpu, whatever the reference counts of the pages, for a
  cpu that has a pin list or a list without pinned blocks (\<^verbatim>\<open>pin_list_for\<close>).  At most the number asked for
  become victims; each was unlocked, is locked now, neither pinned nor marked for promotion, has left the
  list and is in state \<^verbatim>\<open>GPA_TRANS_IL\<close>.  The other blocks taken off the list are pinned ones, which are now on
  the pin list, and ones marked for promotion, which are now on the proactive list.  All other blocks keep
  their list and their descriptor, and no lock but those of the victims has changed.  The pages of the
  victims still count for the list until they are written back, every other length counts what is listed,
  and the pressure left is the pressure less the pages of the victims.
\<close>

theorem select_victims_inactive_list_accounts:
  assumes "inactive_inv W T m" and "c \<in> mm_cpus m" and "0 < n" and "pin_list_for INACTIVE_LIST m c"
  shows "\<exists>vl pl rl m'. select_victims_inactive_list gf page_count m c n pressure
      = Some (map (lp_head m) vl, pressure - weight m (mset vl), m')
    \<and> int (length vl) \<le> n \<and> lru_frame m m' \<and> took m vl m'
    \<and> inactive_inv (W + weight m (mset vl)) (T + mset vl) m'
    \<and> members m INACTIVE_LIST = members m' INACTIVE_LIST + mset vl + mset pl + mset rl
    \<and> pin_members m' = pin_members m + mset pl \<and> members m' PROACTIVE_LIST = members m PROACTIVE_LIST + mset rl
    \<and> members m' ACTIVE_LIST = members m ACTIVE_LIST
    \<and> (\<forall>l \<in> set pl. pinned_head m l) \<and> (\<forall>l \<in> set rl. \<not> pinned_head m l \<and> promoted_head m l)
    \<and> (\<forall>l \<in> set vl. \<not> pinned_head m l \<and> \<not> promoted_head m l)
    \<and> (\<forall>q. q \<notin> lp_head m ` set (pl @ rl) \<longrightarrow>
          desc m' q = (if q \<in> lp_head m ` set vl then (desc m q)\<lparr>r_state := GPA_TRANS_IL\<rparr> else desc m q))"
proof -
  from select_victims_inactive_list_ok [OF assms, of gf page_count pressure] obtain vl pl rl m' where
    r: "select_victims_inactive_list gf page_count m c n pressure = Some (map (lp_head m) vl, pressure - weight m (mset vl), m')" "int (length vl) \<le> n" "selection T m vl m'" "inactive_inv (W + weight m (mset vl)) (T + mset vl) m'"
      "sorted_out INACTIVE_LIST m vl pl rl m'" by blast
  show ?thesis
    by (intro exI [of _ vl] exI [of _ pl] exI [of _ rl] exI [of _ m'])
      (use r in \<open>simp add: selection_def sorted_out_def victim_state_def\<close>)
qed

lemma select_victims_inactive_list_accounts_witness:
  "\<exists>m1 vl m'. insert_inactive ex_mm (- 2) [12] = (8, m1) \<and> members m1 INACTIVE_LIST = {#3#}
    \<and> select_victims_inactive_list True (\<lambda>_. 1) m1 (- 2) 4 8 = Some (map (lp_head m1) vl, 8 - weight m1 (mset vl), m')
    \<and> inactive_inv (weight m1 (mset vl)) (mset vl) m'"
proof -
  have "inactive_inv 0 ({#} + mset (map (gpa_page ex_mm) [12])) ex_mm" unfolding ex_heads using ex_inactive_inv by simp
  from insert_inactive_ok [OF this ex_heads(1), of "- 2"] obtain m1 where
    m1: "insert_inactive ex_mm (- 2) [12] = (8, m1)" "inactive_inv 0 {#} m1" "lru_frame ex_mm m1"
      "members m1 INACTIVE_LIST = {#3#}"
    unfolding ex_heads(2) by (auto simp: ex_members)
  have c: "mm_possible_cpus m1 = 2" "mm_vcpus_len m1 = 0" using m1(3) by (simp_all add: lru_frame_def)
  have "- 2 \<in> mm_cpus m1" by (simp add: mm_cpus_def cpu_ids_def c)
  moreover have "pin_list_for INACTIVE_LIST m1 (- 2)" by (simp add: pin_list_for_def get_list_ptr_pin_def PCPU_ID_def c)
  ultimately show ?thesis
    using select_victims_inactive_list_accounts [OF m1(2), of "- 2" 4 True "\<lambda>_. 1" 8] m1(1,4) by fastforce
qed

text \<open>
  C24: A block that is on a list is taken off exactly that list, be it a buffer of a cpu, a global list
  or the pin list: its page is held by the caller, every length is reduced by its pages where it
  counted, and no other page moves and no lock or state changes.
\<close>

theorem remove_gpa_from_lru_exact:
  assumes "inactive_inv W T m" and "listed_as m g x"
  shows "\<exists>m'. remove_gpa_from_lru g m = Some m' \<and> inactive_inv W (add_mset (gpa_page m g) T) m' \<and> lru_frame m m'
    \<and> (\<forall>y. group_members m y = group_members m' y + (if y = x then {#gpa_page m g#} else {#}))
    \<and> (\<forall>q. locked_at m' q = locked_at m q) \<and> (\<forall>q. r_state (mm_gpas m' q) = r_state (mm_gpas m q))"
  using assms by (rule remove_gpa_from_lru_ok)

lemma remove_gpa_from_lru_exact_witness:
  "\<exists>m'. remove_gpa_from_lru 8 ex_mm = Some m' \<and> inactive_inv 0 {#2#} m' \<and> pin_members m' = {#}"
proof -
  have "listed_as ex_mm 8 None"
    by (simp add: listed_as_def emp_get_block_head_def emp_get_block_head_at_def gpa_page_def ex_members)
      (simp add: ex_block_def is_gpa_flags_set_def GPA_PINNED_MASK_def GPA_PROACTIVE_MASK_def)
  from remove_gpa_from_lru_exact [OF ex_inactive_inv(1) this] obtain m' where
    m': "remove_gpa_from_lru 8 ex_mm = Some m'" "inactive_inv 0 (add_mset (gpa_page ex_mm 8) {#}) m'"
      "\<forall>y. group_members ex_mm y = group_members m' y + (if y = None then {#gpa_page ex_mm 8#} else {#})" by blast
  have "gpa_page ex_mm 8 = 2" by (simp add: gpa_page_def emp_get_block_head_def emp_get_block_head_at_def)
  then show ?thesis using m'(1,2) spec [OF m'(3), of None] by (simp add: ex_members)
qed

text \<open>
  The quotas divide the pages of the local cache: they sum to it, the inactive list gets an eighth
  and the active list a half (rounded down), the list kept is at most the inactive one, and at least
  three eighths are left for the proactive list.
\<close>

theorem reclaim_set_quotas:
  "proactive_pages_len (reclaim_set pages m) + active_pages_len (reclaim_set pages m)
      + inactive_pages_len (reclaim_set pages m) = pages
    \<and> inactive_pages_len (reclaim_set pages m) = pages div 8 \<and> active_pages_len (reclaim_set pages m) = pages div 2
    \<and> inactive_keep_pages_len (reclaim_set pages m) \<le> inactive_pages_len (reclaim_set pages m)
    \<and> 3 * pages \<le> 8 * proactive_pages_len (reclaim_set pages m)
    \<and> slru_page_len (reclaim_set pages m) = slru_page_len m"
proof -
  have "drop_bit 3 pages = pages div 8" "drop_bit (Suc 0) pages = pages div 2"
    by (simp_all add: drop_bit_eq_div)
  then show ?thesis by (simp add: reclaim_set_def Let_def)
qed

end
