(* ===== verification/Memdev.thy ===== *)
theory Memdev
  imports Remote_Policy Free_Pages
begin

text \<open>
  Work requests (\<^verbatim>\<open>src/module_gpl/udma.h\<close>) and the memory device that serves them
  (\<^verbatim>\<open>memdev.c\<close>): reading and writing the pages of a subblock at an offset of a region.

  A page of 4096 bytes is its 512 words, a page of the local cache the list of the pages of its subblock.
  The device keeps either an array of such pages, filled on first write (a donor without an address), or
  a range of the memory of a user process, by page.  A region has one connection with one context, so the
  id of the region names all three.  \<open>None\<close> is an access outside the array or through NULL.

  The slab allocator, the host's allocator of pages for the device and the outcome of a copy to or from
  user memory are parameters: \<open>kmem\<close> gets the requests that are allocated, \<open>fresh\<close> is the page the host
  gives with its old content.  A copy from user memory that fails leaves the target zeroed, one to user
  memory leaves it alone.  What a request holds from its former use stays in it until it is overwritten.
\<close>

type_synonym page_data = "u64 list"

definition zero_page :: page_data where "zero_page = replicate 512 0"

definition zero_pages :: "nat \<Rightarrow> page_data list" where "zero_pages n = replicate n zero_page"

definition EMPTY_PAGE :: u64 where "EMPTY_PAGE = 0xDEADBEEF"

definition EFAULT :: int where "EFAULT = 14"

datatype wr_type = TYPE_FETCHING | TYPE_WB | TYPE_RCW | TYPE_FETCHING_MEMPOLL

datatype wr_state = STATE_INIT | STATE_READY | STATE_POST_READ | STATE_POST_WRITE | STATE_SEND
  | STATE_PR_FAILED | STATE_PW_FAILED

record work_request =
  subsibling :: "nat list"
  wr_gpa :: gpa_ptr
  wr_ty :: wr_type
  wr_refc :: int
  wr_size :: int
  wr_st :: wr_state
  wr_context :: nat
  m_errors :: int
  head_wr :: nat
  eh_wr :: "nat option"
  entangled_wr_len :: int
  wr_rp :: u64
  remote_pages :: "nat list"
  chained_ops :: bool

record mem_context =
  memdev_map :: "page_data list option list option"
  memdev_ptr :: "nat \<Rightarrow> page_data"
  ctx_wr_len :: int
  ctx_destroying :: bool

record io_mem =
  wrs :: "nat \<Rightarrow> work_request"
  wr_live :: "nat set"
  mr_wr_len :: "nat \<Rightarrow> int"
  mr_closing :: "nat \<Rightarrow> bool"
  contexts :: "nat \<Rightarrow> mem_context option"
  pg_data :: "nat \<Rightarrow> page_data list"
  pg_count :: "nat \<Rightarrow> int"

definition upd_wr :: "nat \<Rightarrow> (work_request \<Rightarrow> work_request) \<Rightarrow> io_mem \<Rightarrow> io_mem" where
  "upd_wr w f s = s\<lparr>wrs := (wrs s)(w := f (wrs s w))\<rparr>"

definition upd_ctx :: "nat \<Rightarrow> (mem_context \<Rightarrow> mem_context) \<Rightarrow> io_mem \<Rightarrow> io_mem" where
  "upd_ctx c f s = s\<lparr>contexts := (contexts s)(c := map_option f (contexts s c))\<rparr>"

definition set_data :: "nat \<Rightarrow> page_data list \<Rightarrow> io_mem \<Rightarrow> io_mem" where
  "set_data p d s = s\<lparr>pg_data := (pg_data s)(p := d)\<rparr>"

definition get_page :: "nat \<Rightarrow> io_mem \<Rightarrow> io_mem" where
  "get_page p s = s\<lparr>pg_count := (pg_count s)(p := pg_count s p + 1)\<rparr>"

definition put_page_ref :: "nat \<Rightarrow> io_mem \<Rightarrow> io_mem" where
  "put_page_ref p s = s\<lparr>pg_count := (pg_count s)(p := pg_count s p - 1)\<rparr>"

section \<open>Work requests\<close>

definition alloc_work_request :: "(nat set \<Rightarrow> nat option) \<Rightarrow> nat \<Rightarrow> io_mem \<Rightarrow> nat option \<times> io_mem" where
  "alloc_work_request kmem mr s =
     (case kmem (wr_live s) of
        None \<Rightarrow> (None, s)
      | Some w \<Rightarrow> (Some w, s\<lparr>mr_wr_len := (mr_wr_len s)(mr := mr_wr_len s mr + 1), wr_live := insert w (wr_live s)\<rparr>))"

definition free_work_request :: "nat \<Rightarrow> io_mem \<Rightarrow> io_mem" where
  "free_work_request w s =
     (let mid = unat (raw_remote_page_mrid (wr_rp (wrs s w)))
      in s\<lparr>mr_wr_len := (mr_wr_len s)(mid := mr_wr_len s mid - 1), wr_live := wr_live s - {w}\<rparr>)"

definition conn_unusable :: "io_mem \<Rightarrow> nat \<Rightarrow> bool" where
  "conn_unusable s mr \<longleftrightarrow> (case contexts s mr of None \<Rightarrow> True | Some c \<Rightarrow> ctx_destroying c) \<or> mr_closing s mr"

section \<open>The memory device\<close>

definition copy_pages :: "page_data list \<Rightarrow> page_data list \<Rightarrow> nat \<Rightarrow> page_data list" where
  "copy_pages dst src len = take len src @ drop len dst"

definition init_post :: "wr_state \<Rightarrow> nat \<Rightarrow> nat \<Rightarrow> nat option \<Rightarrow> io_mem \<Rightarrow> io_mem" where
  "init_post st conn w head s =
     (let s = upd_wr w (\<lambda>r. r\<lparr>wr_refc := 0, wr_st := st, wr_context := conn,
                head_wr := (case head of None \<Rightarrow> w | Some h \<Rightarrow> h)\<rparr>) s;
          s = upd_wr (head_wr (wrs s w)) (\<lambda>r. r\<lparr>wr_refc := wr_refc r + 1\<rparr>) s
      in upd_wr w (\<lambda>r. r\<lparr>entangled_wr_len := 1, eh_wr := None, chained_ops := False\<rparr>) s)"

definition emp_memdev_post_read ::
    "bool \<Rightarrow> nat \<Rightarrow> nat \<Rightarrow> nat \<Rightarrow> nat \<Rightarrow> nat \<Rightarrow> nat option \<Rightarrow> io_mem \<Rightarrow> io_mem option" where
  "emp_memdev_post_read user_ok conn w page pgoff pglen head s =
     (let s = init_post STATE_POST_READ conn w head s;
          done = upd_wr w (\<lambda>r. r\<lparr>wr_st := STATE_READY, m_errors := 0\<rparr>)
      in Option.bind (contexts s conn) (\<lambda>ctx.
           case memdev_map ctx of
             Some mp \<Rightarrow>
               (let offset = pgoff div pglen
                in if pglen = 0 \<or> length mp \<le> offset then None
                   else case mp ! offset of
                          None \<Rightarrow> Some (done (set_data page (copy_pages (pg_data s page) (zero_pages pglen) pglen) s))
                        | Some src \<Rightarrow> Some (done (set_data page (copy_pages (pg_data s page) src pglen) s)))
           | None \<Rightarrow>
               if user_ok
               then Some (done (set_data page
                      (copy_pages (pg_data s page) (map (memdev_ptr ctx) [pgoff ..< pgoff + pglen]) pglen) s))
               else Some (upd_wr w (\<lambda>r. r\<lparr>wr_st := STATE_PR_FAILED, m_errors := - EFAULT\<rparr>)
                      (set_data page (copy_pages (pg_data s page) (zero_pages pglen) pglen) s))))"

text \<open>
  The write takes the order of a subblock as a parameter, \<open>ord\<close>: the code reads it from the descriptor of
  the local page or from the memory of the process, and they agree.  A \<^verbatim>\<open>copy_to_user()\<close> that fails is
  taken to have copied nothing; how much it copied before the fault is not modelled.
\<close>

definition emp_memdev_post_write ::
    "page_data list option \<Rightarrow> bool \<Rightarrow> nat \<Rightarrow> nat \<Rightarrow> nat \<Rightarrow> nat \<Rightarrow> nat \<Rightarrow> nat \<Rightarrow> nat option \<Rightarrow> io_mem \<Rightarrow> io_mem option" where
  "emp_memdev_post_write fresh user_ok ord conn w page pgoff pglen head s =
     (let s = init_post STATE_POST_WRITE conn w head s;
          done = upd_wr w (\<lambda>r. r\<lparr>wr_st := STATE_READY, m_errors := 0\<rparr>);
          failed = (\<lambda>e. upd_wr w (\<lambda>r. r\<lparr>wr_st := STATE_PW_FAILED, m_errors := - e\<rparr>))
      in Option.bind (contexts s conn) (\<lambda>ctx.
           case memdev_map ctx of
             Some mp \<Rightarrow>
               (let offset = drop_bit ord pgoff
                in if length mp \<le> offset then None
                   else case (case mp ! offset of None \<Rightarrow> fresh | Some d \<Rightarrow> Some d) of
                          None \<Rightarrow> Some (failed ENOMEM s)
                        | Some dst \<Rightarrow>
                            Some (done (upd_ctx conn
                              (\<lambda>c. c\<lparr>memdev_map := Some (mp[offset := Some (copy_pages dst (pg_data s page) pglen)])\<rparr>) s)))
           | None \<Rightarrow>
               if user_ok
               then Some (done (upd_ctx conn (\<lambda>c. c\<lparr>memdev_ptr := (\<lambda>q. if pgoff \<le> q \<and> q < pgoff + pglen
                      then pg_data s page ! (q - pgoff) else memdev_ptr c q)\<rparr>) s))
               else Some (failed EFAULT s)))"

definition emp_memdev_wait_read :: "nat \<Rightarrow> io_mem \<Rightarrow> int" where
  "emp_memdev_wait_read w s = m_errors (wrs s w)"

definition emp_memdev_try_wait_read :: "nat \<Rightarrow> io_mem \<Rightarrow> int" where
  "emp_memdev_try_wait_read w s = m_errors (wrs s w)"

definition emp_memdev_wait_write :: "nat \<Rightarrow> io_mem \<Rightarrow> int" where
  "emp_memdev_wait_write w s = m_errors (wrs s w)"

text \<open>
  The array of a kernel device has one entry per subblock of the donor's megabytes; \<open>allocs\<close> says which
  of the four allocations succeed.
\<close>

definition memdev_create_conn :: "nat \<Rightarrow> nat \<Rightarrow> (nat \<Rightarrow> page_data) option \<Rightarrow> bool \<Rightarrow> bool \<Rightarrow> bool \<Rightarrow> bool
    \<Rightarrow> int \<times> mem_context option" where
  "memdev_create_conn ord donor_mb ptr conn_ok contexts_ok context_ok map_ok =
     (if \<not> conn_ok then (- ENOMEM, None)
      else if \<not> contexts_ok then (- ENOMEM, None)
      else if \<not> context_ok then (- ENOMEM, None)
      else
        let len = drop_bit ord (MB_TO_PAGE donor_mb)
        in case ptr of
             None \<Rightarrow> if \<not> map_ok then (- ENOMEM, None)
                     else (0, Some \<lparr>memdev_map = Some (replicate len None), memdev_ptr = (\<lambda>_. []),
                             ctx_wr_len = 0, ctx_destroying = False\<rparr>)
           | Some mem \<Rightarrow> (0, Some \<lparr>memdev_map = None, memdev_ptr = mem, ctx_wr_len = 0, ctx_destroying = False\<rparr>))"

text \<open>\<open>interrupted\<close> is the result of the wait; a context that is NULL is not reached.\<close>

definition memdev_destroy_conn :: "bool \<Rightarrow> nat \<Rightarrow> io_mem \<Rightarrow> int \<times> io_mem" where
  "memdev_destroy_conn interrupted conn s =
     (if interrupted then (- EINTR, upd_ctx conn (\<lambda>c. c\<lparr>ctx_destroying := True\<rparr>) s)
      else (0, s\<lparr>contexts := (contexts s)(conn := None), mr_closing := (mr_closing s)(conn := True)\<rparr>))"

definition memdev_wr_ctor :: "work_request \<Rightarrow> work_request" where
  "memdev_wr_ctor r = r\<lparr>wr_st := STATE_INIT, wr_gpa := 0, subsibling := [], remote_pages := [], wr_refc := 0\<rparr>"

section \<open>Posting and waiting\<close>

definition init_wr :: "wr_type \<Rightarrow> nat \<Rightarrow> gpa_ptr \<Rightarrow> u64 \<Rightarrow> nat \<Rightarrow> io_mem \<Rightarrow> io_mem" where
  "init_wr ty conn gpa rp w s = upd_ctx conn (\<lambda>c. c\<lparr>ctx_wr_len := ctx_wr_len c + 1\<rparr>)
     (upd_wr w (\<lambda>r. r\<lparr>wr_gpa := gpa, wr_rp := rp, wr_ty := ty\<rparr>) s)"

text \<open>The result: an error, or the request.\<close>

definition post_read :: "(nat set \<Rightarrow> nat option) \<Rightarrow> bool \<Rightarrow> nat \<Rightarrow> gpa_ptr \<Rightarrow> nat \<Rightarrow> nat \<Rightarrow> nat \<Rightarrow> u64 \<Rightarrow> nat option
    \<Rightarrow> io_mem \<Rightarrow> ((int + nat) \<times> io_mem) option" where
  "post_read kmem user_ok conn gpa page pgoff pglen rp head s =
     (if conn_unusable s conn then Some (Inl (- ENXIO), s)
      else case alloc_work_request kmem conn s of
             (None, s) \<Rightarrow> Some (Inl (- ENOMEM), s)
           | (Some w, s) \<Rightarrow>
               map_option (\<lambda>s. (Inr w, s))
                 (emp_memdev_post_read user_ok conn w page pgoff pglen head (init_wr TYPE_FETCHING conn gpa rp w s)))"

definition post_write :: "(nat set \<Rightarrow> nat option) \<Rightarrow> page_data list option \<Rightarrow> bool \<Rightarrow> nat \<Rightarrow> nat \<Rightarrow> gpa_ptr \<Rightarrow> nat
    \<Rightarrow> nat \<Rightarrow> nat \<Rightarrow> u64 \<Rightarrow> nat option \<Rightarrow> io_mem \<Rightarrow> ((int + nat) \<times> io_mem) option" where
  "post_write kmem fresh user_ok ord conn gpa page pgoff pglen rp head s =
     (if conn_unusable s conn then Some (Inl (- ENXIO), s)
      else case alloc_work_request kmem conn s of
             (None, s) \<Rightarrow> Some (Inl (- ENOMEM), s)
           | (Some w, s) \<Rightarrow>
               map_option (\<lambda>s. (Inr w, s))
                 (emp_memdev_post_write fresh user_ok ord conn w page pgoff pglen head (init_wr TYPE_WB conn gpa rp w s)))"

definition wait_read :: "nat \<Rightarrow> io_mem \<Rightarrow> int \<times> io_mem" where
  "wait_read w s = (emp_memdev_wait_read w s,
     upd_ctx (wr_context (wrs s w)) (\<lambda>c. c\<lparr>ctx_wr_len := ctx_wr_len c - 1\<rparr>) s)"

definition try_wait_read :: "nat \<Rightarrow> io_mem \<Rightarrow> int \<times> io_mem" where
  "try_wait_read w s =
     (let ret = emp_memdev_try_wait_read w s
      in (ret, if ret = 1 then upd_ctx (wr_context (wrs s w)) (\<lambda>c. c\<lparr>ctx_wr_len := ctx_wr_len c - 1\<rparr>) s else s))"

definition wait_write :: "nat \<Rightarrow> io_mem \<Rightarrow> int \<times> io_mem" where
  "wait_write w s = (emp_memdev_wait_write w s,
     upd_ctx (wr_context (wrs s w)) (\<lambda>c. c\<lparr>ctx_wr_len := ctx_wr_len c - entangled_wr_len (wrs s (head_wr (wrs s w)))\<rparr>) s)"

definition destroy_write :: "nat \<Rightarrow> io_mem \<Rightarrow> io_mem" where
  "destroy_write w s =
     upd_ctx (wr_context (wrs s w)) (\<lambda>c. c\<lparr>ctx_wr_len := ctx_wr_len c - entangled_wr_len (wrs s (head_wr (wrs s w)))\<rparr>) s"

section \<open>What a device holds\<close>

text \<open>The \<open>n\<close> pages a read at the page offset \<open>off\<close> delivers.\<close>

definition ctx_read :: "mem_context \<Rightarrow> nat \<Rightarrow> nat \<Rightarrow> page_data list" where
  "ctx_read c n off = (case memdev_map c of
     Some mp \<Rightarrow> (case mp ! (off div n) of None \<Rightarrow> zero_pages n | Some d \<Rightarrow> d)
   | None \<Rightarrow> map (memdev_ptr c) [off ..< off + n])"

text \<open>A device in use for subblocks of order \<open>ord\<close>, with room for \<open>slots\<close> of them.\<close>

definition ctx_ok :: "nat \<Rightarrow> nat \<Rightarrow> mem_context \<Rightarrow> bool" where
  "ctx_ok ord slots c \<longleftrightarrow> \<not> ctx_destroying c \<and> (case memdev_map c of None \<Rightarrow> True
     | Some mp \<Rightarrow> slots \<le> length mp \<and> list_all (\<lambda>x. case x of None \<Rightarrow> True | Some d \<Rightarrow> length d = 2 ^ ord) mp)"

lemma map_slot_length:
  "list_all (\<lambda>x. case x of None \<Rightarrow> True | Some d \<Rightarrow> length d = 2 ^ ord) mp \<Longrightarrow> k < length mp \<Longrightarrow> mp ! k = Some d
    \<Longrightarrow> length d = 2 ^ ord"
  by (metis (mono_tags, lifting) list_all_length option.simps(5))

lemma length_ctx_read: "ctx_ok ord slots c \<Longrightarrow> k < slots \<Longrightarrow> length (ctx_read c (2 ^ ord) (k * 2 ^ ord)) = 2 ^ ord"
proof -
  assume c: "ctx_ok ord slots c" and k: "k < slots"
  show ?thesis
  proof (cases "memdev_map c")
    case (Some mp)
    have "length d = 2 ^ ord" if "mp ! k = Some d" for d
      using c k Some that by (intro map_slot_length [of ord mp k]) (simp_all add: ctx_ok_def)
    then show ?thesis using Some by (cases "mp ! k") (simp_all add: ctx_read_def zero_pages_def)
  qed (simp add: ctx_read_def)
qed

definition fresh_ok :: "nat \<Rightarrow> page_data list option \<Rightarrow> bool" where
  "fresh_ok ord fresh \<longleftrightarrow> (case fresh of None \<Rightarrow> False | Some d \<Rightarrow> length d = 2 ^ ord)"

lemma copy_all [simp]: "length src = n \<Longrightarrow> length dst = n \<Longrightarrow> copy_pages dst src n = src"
  by (simp add: copy_pages_def)

lemma upd_wr_simps [simp]:
  "wrs (upd_wr w f s) w' = (if w' = w then f (wrs s w) else wrs s w')"
  "wr_live (upd_wr w f s) = wr_live s" "contexts (upd_wr w f s) = contexts s" "pg_data (upd_wr w f s) = pg_data s"
  "pg_count (upd_wr w f s) = pg_count s" "mr_closing (upd_wr w f s) = mr_closing s" "mr_wr_len (upd_wr w f s) = mr_wr_len s"
  by (simp_all add: upd_wr_def)

lemma upd_ctx_simps [simp]:
  "wrs (upd_ctx c f s) = wrs s" "wr_live (upd_ctx c f s) = wr_live s" "pg_data (upd_ctx c f s) = pg_data s"
  "pg_count (upd_ctx c f s) = pg_count s" "mr_closing (upd_ctx c f s) = mr_closing s" "mr_wr_len (upd_ctx c f s) = mr_wr_len s"
  "contexts (upd_ctx c f s) i = (if i = c then map_option f (contexts s c) else contexts s i)"
  by (simp_all add: upd_ctx_def)

lemma set_data_simps [simp]:
  "wrs (set_data p d s) = wrs s" "wr_live (set_data p d s) = wr_live s" "contexts (set_data p d s) = contexts s"
  "pg_data (set_data p d s) q = (if q = p then d else pg_data s q)"
  "pg_count (set_data p d s) = pg_count s" "mr_closing (set_data p d s) = mr_closing s" "mr_wr_len (set_data p d s) = mr_wr_len s"
  by (simp_all add: set_data_def)

text \<open>A request as posting leaves it.\<close>

definition posted_wr :: "wr_type \<Rightarrow> nat \<Rightarrow> gpa_ptr \<Rightarrow> u64 \<Rightarrow> nat \<Rightarrow> nat option \<Rightarrow> work_request \<Rightarrow> work_request" where
  "posted_wr ty conn gpa rp w head r = r\<lparr>wr_gpa := gpa, wr_rp := rp, wr_ty := ty,
     wr_refc := (if head = None then 1 else 0), wr_st := STATE_READY, wr_context := conn, m_errors := 0,
     head_wr := (case head of None \<Rightarrow> w | Some h \<Rightarrow> h), entangled_wr_len := 1, eh_wr := None, chained_ops := False\<rparr>"

text \<open>What posting changes apart from the data.\<close>

definition posts :: "wr_type \<Rightarrow> nat \<Rightarrow> gpa_ptr \<Rightarrow> u64 \<Rightarrow> nat \<Rightarrow> nat option \<Rightarrow> io_mem \<Rightarrow> io_mem \<Rightarrow> bool" where
  "posts ty conn gpa rp w head s s' \<longleftrightarrow> wr_live s' = insert w (wr_live s)
     \<and> wrs s' w = posted_wr ty conn gpa rp w head (wrs s w)
     \<and> (\<forall>w'. w' \<noteq> w \<longrightarrow> wrs s' w' = (if head = Some w' then (wrs s w')\<lparr>wr_refc := wr_refc (wrs s w') + 1\<rparr> else wrs s w'))
     \<and> pg_count s' = pg_count s \<and> mr_closing s' = mr_closing s
     \<and> (\<forall>i. i \<noteq> conn \<longrightarrow> contexts s' i = contexts s i)"

lemma post_write_ok:
  assumes c: "contexts s conn = Some c" "ctx_ok ord slots c" "\<not> mr_closing s conn" and k: "k < slots"
    and w: "kmem (wr_live s) = Some w" "head \<noteq> Some w"
    and e: "fresh_ok ord fresh" "user_ok" and d: "length (pg_data s page) = 2 ^ ord"
  shows "\<exists>s' c'. post_write kmem fresh user_ok ord conn gpa page (k * 2 ^ ord) (2 ^ ord) rp head s = Some (Inr w, s')
    \<and> posts TYPE_WB conn gpa rp w head s s' \<and> pg_data s' = pg_data s
    \<and> contexts s' conn = Some c' \<and> ctx_ok ord slots c' \<and> ctx_read c' (2 ^ ord) (k * 2 ^ ord) = pg_data s page
    \<and> (\<forall>k' < slots. k' \<noteq> k \<longrightarrow> ctx_read c' (2 ^ ord) (k' * 2 ^ ord) = ctx_read c (2 ^ ord) (k' * 2 ^ ord))"
proof -
  have u: "\<not> conn_unusable s conn" using c by (simp add: conn_unusable_def ctx_ok_def)
  let ?s = "s\<lparr>mr_wr_len := (mr_wr_len s)(conn := mr_wr_len s conn + 1), wr_live := insert w (wr_live s)\<rparr>"
  define i where "i = init_post STATE_POST_WRITE conn w head (init_wr TYPE_WB conn gpa rp w ?s)"
  have ci: "contexts i conn = Some (c\<lparr>ctx_wr_len := ctx_wr_len c + 1\<rparr>)" "pg_data i = pg_data s"
    using c(1) by (simp_all add: i_def init_post_def init_wr_def Let_def)
  let ?done = "upd_wr w (\<lambda>r. r\<lparr>wr_st := STATE_READY, m_errors := 0\<rparr>)"
  have p: "posts TYPE_WB conn gpa rp w head s (?done (upd_ctx conn f i))" for f
    using w(2) by (auto simp: i_def posts_def init_post_def init_wr_def posted_wr_def Let_def split: option.split)
  have dr: "drop_bit ord (k * 2 ^ ord) = k" by (simp add: drop_bit_eq_div)
  show ?thesis
  proof (cases "memdev_map c")
    case (Some mp)
    have mp: "k < length mp" "list_all (\<lambda>x. case x of None \<Rightarrow> True | Some d \<Rightarrow> length d = 2 ^ ord) mp"
      "slots \<le> length mp" using c(2) k Some by (auto simp: ctx_ok_def)
    obtain dst where dst: "(case mp ! k of None \<Rightarrow> fresh | Some d \<Rightarrow> Some d) = Some dst" "length dst = 2 ^ ord"
      using map_slot_length [OF mp(2,1)] e(1) by (cases "mp ! k") (auto simp: fresh_ok_def split: option.splits)
    let ?f = "\<lambda>x. x\<lparr>memdev_map := Some (mp[k := Some (pg_data s page)])\<rparr>"
    have "post_write kmem fresh user_ok ord conn gpa page (k * 2 ^ ord) (2 ^ ord) rp head s = Some (Inr w, ?done (upd_ctx conn ?f i))"
      using u w(1) ci Some mp(1) dst d dr
      by (simp add: post_write_def alloc_work_request_def emp_memdev_post_write_def Let_def i_def [symmetric])
    moreover have "ctx_ok ord slots (?f (c\<lparr>ctx_wr_len := ctx_wr_len c + 1\<rparr>))"
      using c(2) Some mp d by (auto simp: ctx_ok_def intro: list_all_nth_upd)
    ultimately show ?thesis
      using p [of ?f] ci Some mp(1,3) d
      by (intro exI [of _ "?done (upd_ctx conn ?f i)"] exI [of _ "?f (c\<lparr>ctx_wr_len := ctx_wr_len c + 1\<rparr>)"])
         (auto simp: ctx_read_def)
  next
    case None
    let ?f = "\<lambda>x. x\<lparr>memdev_ptr := (\<lambda>q. if k * 2 ^ ord \<le> q \<and> q < k * 2 ^ ord + 2 ^ ord
        then pg_data s page ! (q - k * 2 ^ ord) else memdev_ptr x q)\<rparr>"
    have "post_write kmem fresh user_ok ord conn gpa page (k * 2 ^ ord) (2 ^ ord) rp head s = Some (Inr w, ?done (upd_ctx conn ?f i))"
      using u w(1) ci None e(2)
      by (simp add: post_write_def alloc_work_request_def emp_memdev_post_write_def Let_def i_def [symmetric] cong: if_cong)
    moreover have "map (\<lambda>q. if k * 2 ^ ord \<le> q \<and> q < k * 2 ^ ord + 2 ^ ord then pg_data s page ! (q - k * 2 ^ ord) else f q)
        [k * 2 ^ ord ..< k * 2 ^ ord + 2 ^ ord] = pg_data s page" for f
      using d by (intro nth_equalityI) simp_all
    moreover have "map (\<lambda>q. if k * 2 ^ ord \<le> q \<and> q < k * 2 ^ ord + 2 ^ ord then pg_data s page ! (q - k * 2 ^ ord) else f q)
        [k' * 2 ^ ord ..< k' * 2 ^ ord + 2 ^ ord] = map f [k' * 2 ^ ord ..< k' * 2 ^ ord + 2 ^ ord]" if "k' \<noteq> k" for f k'
    proof -
      have d: "q div 2 ^ ord = j" if "j * 2 ^ ord \<le> q" "q < j * 2 ^ ord + 2 ^ ord" for q j :: nat
        using that by (metis add.commute mult.commute mult_Suc_right div_nat_eqI)
      show ?thesis using that d [of k] d [of k'] by (intro map_cong refl) fastforce
    qed
    ultimately show ?thesis
      using p [of ?f] ci None c(2)
      by (intro exI [of _ "?done (upd_ctx conn ?f i)"] exI [of _ "?f (c\<lparr>ctx_wr_len := ctx_wr_len c + 1\<rparr>)"])
         (simp add: ctx_read_def ctx_ok_def del: map_eq_conv)
  qed
qed

lemma post_read_ok:
  assumes c: "contexts s conn = Some c" "ctx_ok ord slots c" "\<not> mr_closing s conn" and k: "k < slots"
    and w: "kmem (wr_live s) = Some w" "head \<noteq> Some w" and e: "user_ok" and d: "length (pg_data s page) = 2 ^ ord"
  shows "\<exists>s'. post_read kmem user_ok conn gpa page (k * 2 ^ ord) (2 ^ ord) rp head s = Some (Inr w, s')
    \<and> posts TYPE_FETCHING conn gpa rp w head s s'
    \<and> pg_data s' = (pg_data s)(page := ctx_read c (2 ^ ord) (k * 2 ^ ord))
    \<and> contexts s' conn = Some (c\<lparr>ctx_wr_len := ctx_wr_len c + 1\<rparr>)"
proof -
  have u: "\<not> conn_unusable s conn" using c by (simp add: conn_unusable_def ctx_ok_def)
  let ?s = "s\<lparr>mr_wr_len := (mr_wr_len s)(conn := mr_wr_len s conn + 1), wr_live := insert w (wr_live s)\<rparr>"
  define i where "i = init_post STATE_POST_READ conn w head (init_wr TYPE_FETCHING conn gpa rp w ?s)"
  have ci: "contexts i conn = Some (c\<lparr>ctx_wr_len := ctx_wr_len c + 1\<rparr>)" "pg_data i = pg_data s"
    using c(1) by (simp_all add: i_def init_post_def init_wr_def Let_def)
  let ?r = "upd_wr w (\<lambda>r. r\<lparr>wr_st := STATE_READY, m_errors := 0\<rparr>) (set_data page (ctx_read c (2 ^ ord) (k * 2 ^ ord)) i)"
  have p: "posts TYPE_FETCHING conn gpa rp w head s ?r"
    using w(2) by (auto simp: i_def posts_def init_post_def init_wr_def posted_wr_def Let_def split: option.split)
  have "k < length mp" if "memdev_map c = Some mp" for mp using c(2) k that by (auto simp: ctx_ok_def)
  then have "post_read kmem user_ok conn gpa page (k * 2 ^ ord) (2 ^ ord) rp head s = Some (Inr w, ?r)"
    using u w(1) ci e d length_ctx_read [OF c(2) k]
    by (auto simp: post_read_def alloc_work_request_def emp_memdev_post_read_def Let_def i_def [symmetric] ctx_read_def zero_pages_def
        split: option.splits)
  then show ?thesis using p ci by (intro exI [of _ ?r]) auto
qed

end
