(* ===== verification/Remote_IO.thy ===== *)
theory Remote_IO
  imports Memdev Cow_Remote Inactive
begin

text \<open>
  Transfers between local pages and donors (\<^verbatim>\<open>src/module_gpl/donor_mem_rw.c\<close>, \<^verbatim>\<open>free_gpa()\<close>,
  \<^verbatim>\<open>set_gpa_remote()\<close> and \<^verbatim>\<open>cleanup_gpa()\<close> of \<^verbatim>\<open>gpa.c\<close>): a write-back posts one request per subblock,
  linked to the request of the block's head; when all are complete the local pages are freed and the
  block is remote.  A fetch is the reverse.

  \<open>emp_io\<close> puts the parts of \<^verbatim>\<open>struct emp_mm\<close> together: the lists and descriptors, the regions, the free
  pages, the device.  The devices of this configuration never chain requests, so the branches for
  \<^verbatim>\<open>chained_ops\<close> that link requests are not taken and left out.  Resident set sizes and statistics are not
  modelled.  The answers of the allocators, the outcome of user copies and the interference of other
  cpus with the free lists are the record \<open>io_env\<close>.  \<open>None\<close> is a null pointer, a freed object or a loop
  that does not end.
\<close>

record io_env =
  kmem :: "nat set \<Rightarrow> nat option"
  node_page :: "page_data list option"
  user_ok :: bool
  steals :: "nat \<Rightarrow> int"
  trylocks :: "nat \<Rightarrow> bool"

record emp_io =
  io_mm :: emp_mm
  io_mrs :: emp_mrs
  io_cfg :: emp_config
  io_cow :: cow_store
  io_crps :: "u64 set"
  io_ftm :: emp_ftm
  io_dev :: io_mem
  io_pages :: "nat \<Rightarrow> page_info"
  io_ewbr :: "nat \<Rightarrow> nat"

definition upd_mm :: "(emp_mm \<Rightarrow> emp_mm) \<Rightarrow> emp_io \<Rightarrow> emp_io" where
  "upd_mm f s = s\<lparr>io_mm := f (io_mm s)\<rparr>"

definition upd_dev :: "(io_mem \<Rightarrow> io_mem) \<Rightarrow> emp_io \<Rightarrow> emp_io" where
  "upd_dev f s = s\<lparr>io_dev := f (io_dev s)\<rparr>"

definition upd_ftm :: "(emp_ftm \<Rightarrow> emp_ftm) \<Rightarrow> emp_io \<Rightarrow> emp_io" where
  "upd_ftm f s = s\<lparr>io_ftm := f (io_ftm s)\<rparr>"

definition io_gpa :: "emp_io \<Rightarrow> gpa_ptr \<Rightarrow> emp_gpa" where
  "io_gpa s g = mm_gpas (io_mm s) g"

definition io_lp :: "emp_io \<Rightarrow> gpa_ptr \<Rightarrow> nat" where
  "io_lp s g = the (local_page (io_gpa s g))"

definition io_page :: "emp_io \<Rightarrow> gpa_ptr \<Rightarrow> nat" where
  "io_page s g = lp_page (mm_lps (io_mm s) (io_lp s g))"

definition io_wr :: "emp_io \<Rightarrow> nat \<Rightarrow> work_request" where
  "io_wr s w = wrs (io_dev s) w"

definition set_lp_w :: "gpa_ptr \<Rightarrow> nat option \<Rightarrow> emp_io \<Rightarrow> emp_io" where
  "set_lp_w g w s = upd_mm (upd_lp (\<lambda>lp. lp\<lparr>lp_w := w\<rparr>) (io_lp s g)) s"

definition emp_get_subblock :: "gpa_ptr \<Rightarrow> emp_io \<Rightarrow> emp_io" where
  "emp_get_subblock g s = upd_dev (get_page (io_page s g)) s"

definition emp_put_subblock :: "gpa_ptr \<Rightarrow> emp_io \<Rightarrow> emp_io" where
  "emp_put_subblock g s = upd_dev (put_page_ref (io_page s g)) s"

definition emp_lock_subblock :: "gpa_ptr \<Rightarrow> emp_io \<Rightarrow> emp_io" where
  "emp_lock_subblock g s = upd_ftm (\<lambda>f. emp_lock_page f (io_page s g)) s"

definition emp_unlock_subblock :: "gpa_ptr \<Rightarrow> emp_io \<Rightarrow> emp_io" where
  "emp_unlock_subblock g s = upd_ftm (\<lambda>f. emp_unlock_page f (io_page s g)) s"

definition push_page :: "io_env \<Rightarrow> int \<Rightarrow> nat \<Rightarrow> emp_io \<Rightarrow> emp_io" where
  "push_page e cpu p = upd_ftm (\<lambda>f. push_free_page_list f p (Some cpu) (steals e p) (trylocks e p))"

section \<open>Freeing a local page\<close>

definition cleanup_gpa :: "gpa_ptr \<Rightarrow> emp_io \<Rightarrow> nat option \<times> emp_io" where
  "cleanup_gpa g s =
     (let lp = local_page (io_gpa s g); p = io_page s g;
          s = upd_mm (upd_head (\<lambda>d. snd (clear_gpa_flags_if_set (d\<lparr>local_page := None\<rparr>) GPA_CLEANUP_MASK)) g) s
      in case lp of
           None \<Rightarrow> (None, s)
         | Some l \<Rightarrow> (Some p, s\<lparr>io_pages := (io_pages s)(p := \<lparr>pg_mlocked = False, pg_private = 0\<rparr>)\<rparr>))"

definition clear_page_state :: "nat \<Rightarrow> emp_ftm \<Rightarrow> emp_ftm" where
  "clear_page_state p f = f\<lparr>pg_locked := pg_locked f - {p}, pg_unevictable := pg_unevictable f - {p}\<rparr>"

definition free_gpa :: "io_env \<Rightarrow> int \<Rightarrow> gpa_ptr \<Rightarrow> emp_io \<Rightarrow> emp_io" where
  "free_gpa e cpu g s =
     (case cleanup_gpa g s of
        (None, s) \<Rightarrow> s
      | (Some p, s) \<Rightarrow> push_page e cpu p (upd_ftm (\<lambda>f. emp_lock_page (clear_page_state p f) p) s))"

definition set_gpa_remote :: "io_env \<Rightarrow> int \<Rightarrow> gpa_ptr \<Rightarrow> emp_io \<Rightarrow> emp_io" where
  "set_gpa_remote e cpu g s =
     upd_mm (upd_head (\<lambda>d. snd (set_gpa_flags_if_unset (d\<lparr>r_state := GPA_INIT\<rparr>) GPA_REMOTE_MASK)) g)
       (free_gpa e cpu g s)"

section \<open>Completing a write-back\<close>

definition free_wr :: "nat \<Rightarrow> emp_io \<Rightarrow> emp_io option" where
  "free_wr w s =
     (if memregs (io_mrs s) ! unat (raw_remote_page_mrid (wr_rp (io_wr s w))) = None then None
      else Some (upd_dev (free_work_request w) s))"

definition free_wr_page :: "nat \<Rightarrow> emp_io \<Rightarrow> emp_io option" where
  "free_wr_page w s =
     (if is_remote_page_freed (wr_rp (io_wr s w)) \<and> \<not> remote_reuse (io_cfg s)
      then map_option (\<lambda>(_, m). upd_dev (upd_wr w (\<lambda>r. r\<lparr>wr_rp := FREE_REMOTE_PAGE_VAL\<rparr>)) (s\<lparr>io_mrs := m\<rparr>))
             (release_remote_page (io_cow s) (io_mrs s) (wr_rp (io_wr s w)))
      else Some s)"

fun free_delayed :: "nat \<Rightarrow> nat list \<Rightarrow> emp_io \<Rightarrow> emp_io option" where
  "free_delayed w [] s = Some s"
| "free_delayed w (r # rs) s =
     Option.bind (free_wr_page r (upd_dev (upd_wr w (\<lambda>h. h\<lparr>remote_pages := rs\<rparr>)) s))
       (\<lambda>s. Option.bind (free_wr r s) (free_delayed w rs))"

definition free_work_requests :: "nat \<Rightarrow> emp_io \<Rightarrow> emp_io option" where
  "free_work_requests w s =
     Option.bind (free_delayed w (remote_pages (io_wr s w)) s)
       (\<lambda>s. Option.bind (free_wr_page w s) (free_wr w))"

definition clear_member :: "io_env \<Rightarrow> int \<Rightarrow> bool \<Rightarrow> gpa_ptr \<Rightarrow> emp_io \<Rightarrow> emp_io" where
  "clear_member e cpu do_reclaim g s =
     (let s = emp_unlock_subblock g (emp_put_subblock g s)
      in if do_reclaim then set_gpa_remote e cpu g s else set_lp_w g None s)"

definition clear_writeback_work_request ::
    "io_env \<Rightarrow> int \<Rightarrow> bool \<Rightarrow> nat \<Rightarrow> emp_io \<Rightarrow> (int \<times> emp_io) option" where
  "clear_writeback_work_request e cpu do_reclaim w s =
     (let s = upd_dev (\<lambda>d. snd (wait_write w d)) s;
          hw = head_wr (io_wr s w);
          s = (if \<not> chained_ops (io_wr s w) \<and> w \<noteq> hw
               then upd_dev (upd_wr hw (\<lambda>h. h\<lparr>remote_pages := remote_pages h @ [w]\<rparr>)) s else s);
          s = upd_dev (upd_wr hw (\<lambda>h. h\<lparr>wr_refc := wr_refc h - 1\<rparr>)) s
      in if wr_refc (io_wr s hw) \<noteq> 0 then Some (0, s)
         else
           let head = emp_get_block_head (mm_gpas (io_mm s)) (wr_gpa (io_wr s hw));
               s = foldl (\<lambda>s g. clear_member e cpu do_reclaim g s) s (rev (for_each_gpas (mm_gpas (io_mm s)) head));
               s = (if do_reclaim then upd_mm (sub_inactive_list_page_len head) s else s)
           in map_option (\<lambda>s. (int (gpa_block_size (io_gpa s head)), s)) (free_work_requests hw s))"

fun clear_siblings :: "io_env \<Rightarrow> int \<Rightarrow> bool \<Rightarrow> nat \<Rightarrow> nat list \<Rightarrow> int \<Rightarrow> emp_io \<Rightarrow> (int \<times> emp_io) option" where
  "clear_siblings e cpu do_reclaim w [] acc s = Some (acc, s)"
| "clear_siblings e cpu do_reclaim w (r # rs) acc s =
     Option.bind (clear_writeback_work_request e cpu do_reclaim r (upd_dev (upd_wr w (\<lambda>h. h\<lparr>subsibling := rs\<rparr>)) s))
       (\<lambda>(n, s). clear_siblings e cpu do_reclaim w rs (acc + (if n > 0 then n else 0)) s)"

text \<open>\<^verbatim>\<open>__clear_writeback_block()\<close>.\<close>

definition clear_writeback_block2 :: "io_env \<Rightarrow> int \<Rightarrow> bool \<Rightarrow> nat \<Rightarrow> emp_io \<Rightarrow> (int \<times> emp_io) option" where
  "clear_writeback_block2 e cpu do_reclaim w s =
     Option.bind (clear_siblings e cpu do_reclaim w (subsibling (io_wr s w)) 0 s)
       (\<lambda>(acc, s). map_option (\<lambda>(n, s). (acc + (if n > 0 then n else 0), s))
          (clear_writeback_work_request e cpu do_reclaim w s))"

definition clear_writeback_request_on_lru :: "nat \<Rightarrow> emp_io \<Rightarrow> emp_io" where
  "clear_writeback_request_on_lru w s =
     upd_mm (upd_lp (\<lambda>lp. clear_local_page_flags lp LOCAL_PAGE_ON_LRU)
       (io_lp s (emp_get_block_head (mm_gpas (io_mm s)) (wr_gpa (io_wr s w))))) s"

definition clear_writeback_block ::
    "io_env \<Rightarrow> int \<Rightarrow> gpa_ptr \<Rightarrow> nat \<Rightarrow> bool \<Rightarrow> bool \<Rightarrow> emp_io \<Rightarrow> (int \<times> emp_io) option" where
  "clear_writeback_block e cpu head w on_list do_reclaim s =
     (let s = (if on_list
               then (let l = io_lp s head; c = lp_cpu (mm_lps (io_mm s) l);
                         s = upd_mm (upd_slru INACTIVE_LIST (Slru_lru c) (emp_list_del_init l)) s;
                         s = clear_writeback_request_on_lru w s
                     in upd_mm (\<lambda>m. m\<lparr>inflight_writeback_page_len := inflight_writeback_page_len m
                          - int (gpa_block_size (mm_gpas m head))\<rparr>) s)
               else s)
      in clear_writeback_block2 e cpu do_reclaim w s)"

section \<open>Waiting for write-backs\<close>

text \<open>Nothing happens between the two checks of the request, so the second cannot fail.\<close>

definition emp_trylock_work_request :: "nat \<Rightarrow> emp_io \<Rightarrow> gpa_ptr option \<times> emp_io" where
  "emp_trylock_work_request w s =
     (case local_page (io_gpa s (wr_gpa (io_wr s w))) of
        None \<Rightarrow> (None, s)
      | Some l \<Rightarrow>
          if lp_w (mm_lps (io_mm s) l) \<noteq> Some w then (None, s)
          else case emp_trylock_local_page (io_mm s) l of (h, m) \<Rightarrow> (h, s\<lparr>io_mm := m\<rparr>))"

definition promote_gpa :: "int \<Rightarrow> gpa_ptr \<Rightarrow> emp_io \<Rightarrow> emp_io option" where
  "promote_gpa cpu g s =
     (case local_page (io_gpa s g) of
        None \<Rightarrow> None
      | Some l \<Rightarrow>
          Some (upd_mm (\<lambda>m.
            let m = put_page_mru ACTIVE_LIST cpu l m;
                m = upd_head (\<lambda>d. snd (set_gpa_flags_if_unset (d\<lparr>r_state := GPA_ACTIVE\<rparr>)
                      (GPA_PREFETCHED_BLK_MASK OR GPA_PREFETCH_ONCE_MASK OR GPA_HPT_MASK))) g m
            in add_page_len ACTIVE_LIST (int (gpa_block_size (mm_gpas m g))) m) s))"

fun wait_scan :: "slru_place \<Rightarrow> int \<Rightarrow> nat list \<Rightarrow> int \<Rightarrow> nat list \<Rightarrow> emp_io \<Rightarrow> (nat list \<times> emp_io) option" where
  "wait_scan p pressure [] reclaimed to_clear s = Some (to_clear, s)"
| "wait_scan p pressure (l # ls) reclaimed to_clear s =
     (case lp_w (mm_lps (io_mm s) l) of
        None \<Rightarrow> None
      | Some w \<Rightarrow>
          (case emp_trylock_work_request w s of
             (None, s) \<Rightarrow> wait_scan p pressure ls reclaimed to_clear s
           | (Some _, s) \<Rightarrow>
               (let s = upd_mm (upd_slru INACTIVE_LIST p (emp_list_del_init l)) s;
                    s = clear_writeback_request_on_lru w s;
                    to_clear = to_clear @ [l];
                    head = emp_get_block_head (mm_gpas (io_mm s)) (wr_gpa (io_wr s w))
                in if is_gpa_flags_set (io_gpa s head) GPA_PROMOTE_MASK
                   then wait_scan p pressure ls reclaimed to_clear s
                   else
                     let reclaimed = reclaimed + int (gpa_block_size (io_gpa s head))
                     in if reclaimed \<ge> pressure then Some (to_clear, s)
                        else wait_scan p pressure ls reclaimed to_clear s)))"

fun wait_clear :: "io_env \<Rightarrow> int \<Rightarrow> nat list \<Rightarrow> int \<Rightarrow> emp_io \<Rightarrow> (int \<times> emp_io) option" where
  "wait_clear e cpu [] reclaimed s = Some (reclaimed, s)"
| "wait_clear e cpu (l # ls) reclaimed s =
     (case lp_w (mm_lps (io_mm s) l) of
        None \<Rightarrow> None
      | Some w \<Rightarrow>
          (let head = emp_get_block_head (mm_gpas (io_mm s)) (wr_gpa (io_wr s w))
           in Option.bind (clear_writeback_block2 e cpu True w s) (\<lambda>(r, s).
                Option.bind
                  (if is_gpa_flags_set (io_gpa s head) GPA_PROMOTE_MASK
                   then map_option (\<lambda>s. (reclaimed, s)) (promote_gpa cpu head s)
                   else Some (reclaimed + r, s))
                  (\<lambda>(reclaimed, s). wait_clear e cpu ls reclaimed (upd_mm (upd_head emp_gpa_unlock head) s)))))"

text \<open>\<^verbatim>\<open>__wait_writeback_async()\<close>.\<close>

definition wait_writeback_async2 ::
    "io_env \<Rightarrow> int \<Rightarrow> int \<Rightarrow> int \<Rightarrow> emp_io \<Rightarrow> (int \<times> emp_io) option" where
  "wait_writeback_async2 e cpu local_cpu pressure s =
     (let p = Slru_lru cpu; list = slru_lists (io_mm s) INACTIVE_LIST p
      in if el_len list = 0 then Some (0, s)
         else Option.bind (wait_scan p pressure (el_head list) 0 [] s)
                (\<lambda>(to_clear, s). wait_clear e local_cpu to_clear 0 s))"

definition wait_writeback_async :: "io_env \<Rightarrow> int \<Rightarrow> int \<Rightarrow> emp_io \<Rightarrow> (int \<times> emp_io) option" where
  "wait_writeback_async e cpu pressure s = wait_writeback_async2 e cpu cpu pressure s"

fun steal_loop :: "io_env \<Rightarrow> int \<Rightarrow> int \<Rightarrow> int list \<Rightarrow> int \<Rightarrow> emp_io \<Rightarrow> (int \<times> emp_io) option" where
  "steal_loop e waiting pressure [] reclaimed s = Some (reclaimed, s)"
| "steal_loop e waiting pressure (v # vs) reclaimed s =
     (if v = waiting then steal_loop e waiting pressure vs reclaimed s
      else Option.bind (wait_writeback_async2 e v waiting (pressure - reclaimed) s)
             (\<lambda>(r, s). if reclaimed + r \<ge> pressure then Some (reclaimed + r, s)
                       else steal_loop e waiting pressure vs (reclaimed + r) s))"

definition wait_writeback_async_steal :: "io_env \<Rightarrow> int \<Rightarrow> int \<Rightarrow> emp_io \<Rightarrow> (int \<times> emp_io) option" where
  "wait_writeback_async_steal e waiting pressure s =
     steal_loop e waiting pressure
       (for_all_vcpus_from (mm_possible_cpus (io_mm s)) (mm_vcpus_len (io_mm s)) waiting) 0 s"

definition emp_wait_for_writeback :: "io_env \<Rightarrow> int \<Rightarrow> int \<Rightarrow> emp_io \<Rightarrow> (int \<times> emp_io) option" where
  "emp_wait_for_writeback e cpu pressure s =
     (let reclaimed = emp_list_len (get_local_free_list (io_ftm s) cpu) * 2 ^ cfg_subblock_order (io_cfg s)
      in if reclaimed \<ge> pressure then Some (reclaimed, s)
         else Option.bind (wait_writeback_async e cpu (pressure - reclaimed) s) (\<lambda>(r, s).
           let reclaimed = reclaimed + r
           in if reclaimed \<ge> pressure then Some (reclaimed, s)
              else map_option (\<lambda>(r, s). (reclaimed + r, s)) (wait_writeback_async_steal e cpu (pressure - reclaimed) s)))"

section \<open>Posting a write-back\<close>

definition push_writeback_request :: "int \<Rightarrow> nat \<Rightarrow> emp_io \<Rightarrow> emp_io" where
  "push_writeback_request cpu w s =
     (let l = io_lp s (emp_get_block_head (mm_gpas (io_mm s)) (wr_gpa (io_wr s w)));
          s = upd_dev (upd_wr w (\<lambda>r. r\<lparr>wr_size := (if \<not> chained_ops r then wr_refc r else entangled_wr_len r)\<rparr>)) s;
          s = upd_mm (put_page_lru INACTIVE_LIST cpu l) s
      in upd_mm (\<lambda>m. m\<lparr>inflight_writeback_page_len := inflight_writeback_page_len m
           + int (gpa_block_size (mm_gpas m (wr_gpa (io_wr s w))))\<rparr>) s)"

partial_function (option) post_write_loop ::
    "io_env \<Rightarrow> int \<Rightarrow> nat \<Rightarrow> gpa_ptr \<Rightarrow> nat \<Rightarrow> nat option \<Rightarrow> emp_io \<Rightarrow> (nat option \<times> emp_io) option" where
  "post_write_loop e cpu mrid gpa pglen head s =
     Option.bind
       (post_write (kmem e) (node_page e) (user_ok e) (sb_order (io_gpa s gpa)) mrid gpa (io_page s gpa)
          (unat (get_remote_page_offset (io_cow s) (remote_page (io_gpa s gpa)))) pglen
          (get_rp_val (io_cow s) (remote_page (io_gpa s gpa))) head (io_dev s))
       (\<lambda>(r, d).
          let s = s\<lparr>io_dev := d\<rparr>
          in case r of
               Inr w \<Rightarrow> Some (Some w, s)
             | Inl err \<Rightarrow>
                 if err = - ENOMEM
                 then Option.bind (wait_writeback_async e cpu 1 s)
                        (\<lambda>(_, s). post_write_loop e cpu mrid gpa pglen head s)
                 else Some (None, s))"

definition post_writeback_async :: "io_env \<Rightarrow> gpa_ptr \<Rightarrow> int \<Rightarrow> nat option \<Rightarrow> nat \<Rightarrow> bool \<Rightarrow> emp_io
    \<Rightarrow> (nat option \<times> emp_io) option" where
  "post_writeback_async e gpa cpu head pglen update_gpa s =
     (let mr_id8 = get_remote_page_mrid (io_cow s) (remote_page (io_gpa s gpa)); mrid = unat mr_id8;
          s = upd_mm (upd_head (\<lambda>d. d\<lparr>last_mr_id := mr_id8\<rparr>) gpa) s
      in if memregs (io_mrs s) ! mrid = None then None
         else map_option (\<lambda>(r, s). case r of
                None \<Rightarrow> (None, s)
              | Some w \<Rightarrow> (Some w, if update_gpa
                  then set_lp_w gpa (Some w) (upd_mm (upd_head (\<lambda>d. d\<lparr>r_state := GPA_WB\<rparr>) gpa) s) else s))
              (post_write_loop e cpu mrid gpa pglen head s))"

section \<open>Fetching\<close>

definition fetch_pages :: "io_env \<Rightarrow> nat \<Rightarrow> gpa_ptr \<Rightarrow> nat \<Rightarrow> nat \<Rightarrow> u64 \<Rightarrow> nat option \<Rightarrow> emp_io
    \<Rightarrow> ((int + nat) \<times> emp_io) option" where
  "fetch_pages e conn gpa pgoff pglen rp head s =
     (let s = emp_get_subblock gpa s
      in map_option (\<lambda>(r, d).
           let s = s\<lparr>io_dev := d\<rparr>
           in case r of Inl err \<Rightarrow> (Inl err, emp_put_subblock gpa s) | Inr w \<Rightarrow> (Inr w, s))
         (post_read (kmem e) (user_ok e) conn gpa (io_page s gpa) pgoff pglen rp head (io_dev s)))"

text \<open>
  \<open>lp\<close> is the object the cache of local pages returns.  The result 1 means that a request was posted, 0
  that nothing had to be fetched.
\<close>

definition fetch_subblock :: "io_env \<Rightarrow> nat option \<Rightarrow> nat \<Rightarrow> gpa_ptr \<Rightarrow> nat \<Rightarrow> nat \<Rightarrow> nat \<Rightarrow> int \<Rightarrow> nat option
    \<Rightarrow> bool \<Rightarrow> bool \<Rightarrow> bool \<Rightarrow> emp_io \<Rightarrow> (int \<times> emp_io) option" where
  "fetch_subblock e lp vmr gpa gpa_idx page_order page cpu head no_fetch is_stale io_read_mask s =
     (let rp = remote_page (io_gpa s gpa);
          mrid = unat (get_remote_page_mrid (io_cow s) rp)
      in case lp of
           None \<Rightarrow> Some (- ENOMEM, push_page e cpu page s)
         | Some l \<Rightarrow>
             (case alloc_local_page (Some (mm_lps (io_mm s) l)) (io_pages s) vmr page gpa_idx gpa of
                (None, _) \<Rightarrow> None
              | (Some obj, pages) \<Rightarrow>
                  (let s = upd_mm (upd_lp (\<lambda>_. obj) l) (s\<lparr>io_pages := pages\<rparr>);
                       s = upd_mm (upd_head (\<lambda>d. d\<lparr>local_page := Some l\<rparr>) gpa) s
                   in if \<not> no_fetch then
                        (if is_remote_page_free rp \<or> memregs (io_mrs s) ! mrid = None then None
                         else Option.bind
                           (fetch_pages e mrid gpa (unat (get_remote_page_offset (io_cow s) rp)) (push_bit page_order 1)
                              (get_rp_val (io_cow s) rp) head s)
                           (\<lambda>(r, s). case r of
                              Inl err \<Rightarrow>
                                (let s = s\<lparr>io_pages := (io_pages s)(page := \<lparr>pg_mlocked = False, pg_private = 0\<rparr>)\<rparr>;
                                     s = upd_mm (upd_head (\<lambda>d. d\<lparr>local_page := None\<rparr>) gpa) s
                                 in Some (err, push_page e cpu page s))
                            | Inr w \<Rightarrow> Some (1, set_lp_w gpa (Some w) s)))
                      else
                        let s = (if \<not> is_stale \<and> \<not> io_read_mask
                                 then upd_dev (set_data page (zero_pages (push_bit (sb_order (io_gpa s gpa)) 1))) s else s)
                        in Some (0, set_lp_w gpa None s))))"

section \<open>Completing a fetch\<close>

text \<open>\<^verbatim>\<open>__clear_fetching_work_request()\<close>: the remote copy has been consumed.\<close>

definition clear_fetching_work_request2 :: "nat \<Rightarrow> emp_io \<Rightarrow> emp_io option" where
  "clear_fetching_work_request2 w s =
     Option.bind (clear_fetching_remote (io_cfg s) (io_mrs s)
         \<lparr>cm_store = io_cow s, cm_live = io_crps s, cm_gpas = mm_gpas (io_mm s)\<rparr> (wr_gpa (io_wr s w)))
       (\<lambda>(m, c). free_wr w
          (s\<lparr>io_mrs := m, io_cow := cm_store c, io_crps := cm_live c, io_mm := (io_mm s)\<lparr>mm_gpas := cm_gpas c\<rparr>\<rparr>))"

definition clear_fetching_work_request1 :: "nat \<Rightarrow> emp_io \<Rightarrow> emp_io option" where
  "clear_fetching_work_request1 w s =
     (let hw = head_wr (io_wr s w)
      in Option.bind
           (if w \<noteq> hw \<and> (\<not> chained_ops (io_wr s w) \<or> Some w \<noteq> eh_wr (io_wr s hw))
            then clear_fetching_work_request2 w s else Some s)
           (\<lambda>s. let s = upd_dev (upd_wr hw (\<lambda>h. h\<lparr>wr_refc := wr_refc h - 1\<rparr>)) s
                in if wr_refc (io_wr s hw) \<noteq> 0 then Some s
                   else Option.bind (case eh_wr (io_wr s hw) of None \<Rightarrow> Some s | Some eh \<Rightarrow> clear_fetching_work_request2 eh s)
                          (clear_fetching_work_request2 hw)))"

definition clear_fetching_work_request :: "nat \<Rightarrow> emp_io \<Rightarrow> emp_io option" where
  "clear_fetching_work_request w s =
     clear_fetching_work_request1 w (upd_dev (\<lambda>d. snd (wait_read w d)) s)"

definition try_clear_fetching_work_request :: "nat \<Rightarrow> emp_io \<Rightarrow> (bool \<times> emp_io) option" where
  "try_clear_fetching_work_request w s =
     (case try_wait_read w (io_dev s) of (ret, d) \<Rightarrow>
        if ret = 0 then Some (False, s\<lparr>io_dev := d\<rparr>)
        else map_option (\<lambda>s. (True, s)) (clear_fetching_work_request1 w (s\<lparr>io_dev := d\<rparr>)))"

definition wait_read_async :: "gpa_ptr \<Rightarrow> emp_io \<Rightarrow> (bool \<times> emp_io) option" where
  "wait_read_async gpa s =
     (case lp_w (mm_lps (io_mm s) (io_lp s gpa)) of
        None \<Rightarrow> Some (False, s)
      | Some w \<Rightarrow> map_option (\<lambda>s. (True, set_lp_w gpa None (emp_put_subblock gpa s))) (clear_fetching_work_request w s))"

definition try_wait_read_async :: "gpa_ptr \<Rightarrow> emp_io \<Rightarrow> (bool \<times> emp_io) option" where
  "try_wait_read_async gpa s =
     (case lp_w (mm_lps (io_mm s) (io_lp s gpa)) of
        None \<Rightarrow> Some (False, s)
      | Some w \<Rightarrow> map_option (\<lambda>(done, s). (done, if done then set_lp_w gpa None (emp_put_subblock gpa s) else s))
                    (try_clear_fetching_work_request w s))"

definition cancel_read_async :: "gpa_ptr \<Rightarrow> emp_io \<Rightarrow> (bool \<times> emp_io) option" where
  "cancel_read_async gpa s =
     (case lp_w (mm_lps (io_mm s) (io_lp s gpa)) of
        None \<Rightarrow> Some (False, s)
      | Some w \<Rightarrow>
          (let s = upd_dev (\<lambda>d. snd (wait_read w d)) s; hw = head_wr (io_wr s w)
           in Option.bind
                (if w \<noteq> hw \<and> (\<not> chained_ops (io_wr s w) \<or> Some w \<noteq> eh_wr (io_wr s hw)) then free_wr w s else Some s)
                (\<lambda>s. let s = upd_dev (upd_wr hw (\<lambda>h. h\<lparr>wr_refc := wr_refc h - 1\<rparr>)) s
                     in map_option (\<lambda>s. (True, set_lp_w gpa None (emp_put_subblock gpa s)))
                          (if wr_refc (io_wr s hw) \<noteq> 0 then Some s
                           else Option.bind (case eh_wr (io_wr s hw) of None \<Rightarrow> Some s | Some eh \<Rightarrow> free_wr eh s) (free_wr hw)))))"

text \<open>
  Critical page first: the fetched page is polled for the marker that \<^verbatim>\<open>mark_empty_page()\<close> left in its last
  word.  \<open>mark\<close> and \<open>cpf\<close> are the two configuration flags.
\<close>

partial_function (option) poll_demand_page :: "nat \<Rightarrow> nat \<Rightarrow> nat \<Rightarrow> int \<Rightarrow> emp_io \<Rightarrow> (int \<times> emp_io) option" where
  "poll_demand_page w p off retry_count s =
     (if last (pg_data (io_dev s) p ! off) \<noteq> EMPTY_PAGE then Some (1, s)
      else if retry_count - 1 < 0
      then Option.bind (try_clear_fetching_work_request w s)
             (\<lambda>(done, s). if done then Some (2, s) else poll_demand_page w p off 10 s)
      else poll_demand_page w p off (retry_count - 1) s)"

definition clear_fetching_demand_page :: "bool \<Rightarrow> bool \<Rightarrow> nat \<Rightarrow> nat \<Rightarrow> emp_io \<Rightarrow> (int \<times> emp_io) option" where
  "clear_fetching_demand_page mark cpf w demand_sb_offset s =
     (if \<not> mark \<or> \<not> cpf then Some (0, s)
      else poll_demand_page w (io_page s (wr_gpa (io_wr s w))) demand_sb_offset 10 s)"

definition wait_read_async_demand_page :: "bool \<Rightarrow> bool \<Rightarrow> gpa_ptr \<Rightarrow> nat \<Rightarrow> emp_io \<Rightarrow> (int \<times> emp_io) option" where
  "wait_read_async_demand_page mark cpf gpa demand_sb_offset s =
     (case lp_w (mm_lps (io_mm s) (io_lp s gpa)) of
        None \<Rightarrow> Some (0, s)
      | Some w \<Rightarrow> map_option (\<lambda>(ret, s). (ret, if ret = 2 then set_lp_w gpa None (emp_put_subblock gpa s) else s))
                    (clear_fetching_demand_page mark cpf w demand_sb_offset s))"

fun wait_prefetched :: "gpa_ptr option \<Rightarrow> gpa_ptr list \<Rightarrow> emp_io \<Rightarrow> emp_io option" where
  "wait_prefetched pf [] s = Some s"
| "wait_prefetched pf (g # gs) s =
     (if pf = Some g then wait_prefetched pf gs s
      else Option.bind (wait_read_async g s) (\<lambda>(done, s).
        wait_prefetched pf gs
          (if done then upd_mm (upd_head (\<lambda>d. snd (clear_gpa_flags_if_set d GPA_REMOTE_MASK)) g) s else s)))"

definition wait_for_prefetched_block :: "gpa_ptr \<Rightarrow> emp_io \<Rightarrow> emp_io option" where
  "wait_for_prefetched_block head s =
     (let pf = (if is_gpa_flags_set (io_gpa s head) GPA_PREFETCHED_CSF_MASK
                then Some (head + drop_bit (sb_order (io_gpa s head)) (demand_offset (mm_lps (io_mm s) (io_lp s head))))
                else None)
      in map_option (\<lambda>s.
           let s = upd_mm (upd_head (\<lambda>d. snd (clear_gpa_flags_if_set d GPA_PREFETCHED_MASK)) head) s
           in upd_mm (upd_lp (\<lambda>lp. lp\<lparr>demand_offset := 0\<rparr>) (io_lp s head)) s)
         (wait_prefetched pf (for_each_gpas (mm_gpas (io_mm s)) head) s))"

section \<open>Evicting a block\<close>

text \<open>\<^verbatim>\<open>check_eager_wbr()\<close> with its work request; the record of an eager write-back is \<open>io_ewbr\<close>.\<close>

definition io_check_eager_wbr :: "io_env \<Rightarrow> int \<Rightarrow> gpa_ptr \<Rightarrow> emp_io \<Rightarrow> emp_io option" where
  "io_check_eager_wbr e cpu head s =
     (if \<not> fst (clear_gpa_flags_if_set (io_gpa s head) GPA_EAGER_WBR_MASK) then Some s
      else
        let s = upd_mm (upd_head (\<lambda>d. snd (clear_gpa_flags_if_set d GPA_EAGER_WBR_MASK)) head) s
        in Option.bind (lp_w (mm_lps (io_mm s) (io_lp s head))) (\<lambda>eb.
             map_option (\<lambda>(_, s). upd_mm (upd_head (\<lambda>d. snd (clear_gpa_flags_if_set d GPA_DIRTY_MASK)) head)
                 (set_lp_w head None s))
               (clear_writeback_block e cpu head (io_ewbr s eb) False False (set_lp_w head (Some (io_ewbr s eb)) s))))"

definition clear_block_w2 :: "io_env \<Rightarrow> int \<Rightarrow> gpa_ptr \<Rightarrow> emp_io \<Rightarrow> emp_io option" where
  "clear_block_w2 e cpu head s =
     Option.bind (if is_gpa_flags_set (io_gpa s head) GPA_EAGER_WBR_MASK then io_check_eager_wbr e cpu head s else Some s)
       (\<lambda>s. if r_state (io_gpa s head) = GPA_WB
            then (case lp_w (mm_lps (io_mm s) (io_lp s head)) of
                    None \<Rightarrow> Some s
                  | Some w \<Rightarrow> map_option snd (clear_writeback_block e cpu head w True False s))
            else if is_gpa_flags_set (io_gpa s head) GPA_PREFETCHED_MASK then wait_for_prefetched_block head s
            else Some s)"

definition clear_block_w :: "io_env \<Rightarrow> int \<Rightarrow> gpa_ptr \<Rightarrow> emp_io \<Rightarrow> emp_io option" where
  "clear_block_w e cpu head s =
     (if lp_w (mm_lps (io_mm s) (io_lp s head)) = None \<and> \<not> is_gpa_flags_set (io_gpa s head) GPA_PREFETCHED_MASK
      then Some s else clear_block_w2 e cpu head s)"

definition evict_dma_size :: "emp_config \<Rightarrow> emp_mrs \<Rightarrow> emp_gpa \<Rightarrow> nat" where
  "evict_dma_size c m head =
     (let dma_size = min (gpa_block_size head) (memregs_wdma_size m)
      in unat (min (word_of_nat dma_size :: u8) (word_of_nat (2 ^ cfg_subblock_order c))))"

text \<open>The loop over the block: the head request, the descriptor at which posting failed if any.\<close>

fun evict_post :: "io_env \<Rightarrow> int \<Rightarrow> nat \<Rightarrow> bool \<Rightarrow> gpa_ptr list \<Rightarrow> nat option \<Rightarrow> emp_io
    \<Rightarrow> (nat option \<times> gpa_ptr option \<times> emp_io) option" where
  "evict_post e cpu dma_size eager [] hw s = Some (hw, None, s)"
| "evict_post e cpu dma_size eager (v # vs) hw s =
     Option.bind
       (post_writeback_async e v cpu hw dma_size (\<not> eager) (emp_lock_subblock v (emp_get_subblock v s)))
       (\<lambda>(r, s). case r of
          None \<Rightarrow> Some (hw, Some v, s)
        | Some w \<Rightarrow>
            (case hw of
               None \<Rightarrow> evict_post e cpu dma_size eager vs (Some w) s
             | Some h \<Rightarrow> evict_post e cpu dma_size eager vs hw
                 (upd_dev (upd_wr h (\<lambda>r. r\<lparr>subsibling := subsibling r @ [w]\<rparr>)) s)))"

fun free_evicted :: "gpa_ptr list \<Rightarrow> emp_io \<Rightarrow> emp_io option" where
  "free_evicted [] s = Some s"
| "free_evicted (v # vs) s =
     (if is_remote_page_free (remote_page (io_gpa s v)) then free_evicted vs s
      else Option.bind (free_remote_page (io_cfg s) (io_cow s) (io_mrs s) (mm_gpas (io_mm s)) v True)
             (\<lambda>(_, m, h). free_evicted vs (s\<lparr>io_mrs := m, io_mm := (io_mm s)\<lparr>mm_gpas := h\<rparr>\<rparr>)))"

text \<open>
  The error exit.  Its loop runs while the list of siblings is \<^emph>\<open>empty\<close>: with no sibling it takes the head
  request for the last sibling, frees it and goes on reading it, for ever.
\<close>

definition evict_error :: "gpa_ptr \<Rightarrow> nat option \<Rightarrow> gpa_ptr option \<Rightarrow> emp_io \<Rightarrow> emp_io option" where
  "evict_error head hw victim s =
     (let release = (\<lambda>g s. emp_put_subblock g (emp_unlock_subblock g s))
      in Option.bind
           (case hw of
              None \<Rightarrow> Some (if victim \<noteq> None then release head s else s)
            | Some h \<Rightarrow>
                if subsibling (io_wr s h) = [] then None
                else Some (foldl (\<lambda>s g. release g s) s
                       (filter (\<lambda>g. \<not> g > the victim) (for_each_gpas (mm_gpas (io_mm s)) head))))
           (\<lambda>s. free_evicted (for_each_gpas (mm_gpas (io_mm s)) head) s))"

definition evict_block :: "io_env \<Rightarrow> int \<Rightarrow> gpa_ptr \<Rightarrow> bool \<Rightarrow> emp_io \<Rightarrow> ((int + nat) \<times> emp_io) option" where
  "evict_block e cpu head eager_evict s =
     (let dma_size = evict_dma_size (io_cfg s) (io_mrs s) (io_gpa s head)
      in Option.bind (clear_block_w e cpu head s) (\<lambda>s.
         Option.bind (alloc_remote_page (io_cfg s) (io_cow s) (io_mrs s) (mm_gpas (io_mm s)) head) (\<lambda>(dn, m, h).
           let s = s\<lparr>io_mrs := m, io_mm := (io_mm s)\<lparr>mm_gpas := h\<rparr>\<rparr>
           in if \<not> dn then map_option (\<lambda>s. (Inl (- ENXIO), s)) (evict_error head None None s)
              else Option.bind (evict_post e cpu dma_size eager_evict (for_each_gpas (mm_gpas (io_mm s)) head) None s)
                (\<lambda>(hw, failed, s).
                   case failed of
                     Some v \<Rightarrow> map_option (\<lambda>s. (Inl (- ENXIO), s)) (evict_error head hw failed s)
                   | None \<Rightarrow>
                       (case hw of
                          None \<Rightarrow> None
                        | Some w \<Rightarrow>
                            Some (Inr w, if eager_evict then s
                              else push_writeback_request cpu w (upd_mm (upd_head (\<lambda>d. d\<lparr>r_state := GPA_WB\<rparr>) head) s)))))))"

text \<open>
  The second half of \<^verbatim>\<open>add_gpas_to_inactive()\<close>: blocks whose pages nobody uses are posted at once, without
  leaving the list.  \<open>ealloc\<close> answers for the allocation of the record of each; \<open>pg_count\<close> is read for the
  test whether a block is free.
\<close>

fun do_eager_writeback :: "io_env \<Rightarrow> (gpa_ptr \<Rightarrow> nat option) \<Rightarrow> int \<Rightarrow> gpa_ptr list \<Rightarrow> emp_io \<Rightarrow> (int \<times> emp_io) option" where
  "do_eager_writeback e ealloc cpu [] s = Some (0, s)"
| "do_eager_writeback e ealloc cpu (head # heads) s =
     (if \<not> check_block_free (pg_count (io_dev s)) (io_mm s) head then do_eager_writeback e ealloc cpu heads s
      else case ealloc head of
             None \<Rightarrow> Some (0, s)
           | Some eb \<Rightarrow> Option.bind (evict_block e cpu head True s) (\<lambda>(r, s). case r of
                 Inl err \<Rightarrow> Some (err, s)
               | Inr w \<Rightarrow>
                   (let s = s\<lparr>io_ewbr := (io_ewbr s)(eb := w)\<rparr>;
                        s = set_lp_w head (Some eb) s;
                        s = upd_mm (upd_head (\<lambda>d. snd (set_gpa_flags_if_unset d GPA_EAGER_WBR_MASK)) head) s
                    in do_eager_writeback e ealloc cpu heads s)))"

definition add_gpas_to_inactive :: "io_env \<Rightarrow> (gpa_ptr \<Rightarrow> nat option) \<Rightarrow> bool \<Rightarrow> int \<Rightarrow> gpa_ptr list \<Rightarrow> emp_io
    \<Rightarrow> (int \<times> emp_io) option" where
  "add_gpas_to_inactive e ealloc eager_writeback cpu_id gpas s =
     (case insert_inactive (io_mm s) cpu_id gpas of (new_pages_len, m) \<Rightarrow>
        (let s = s\<lparr>io_mm := m\<rparr>
         in if eager_writeback
            then map_option (\<lambda>(ret, s). if ret < 0 then (ret, s) else (new_pages_len, s))
                   (do_eager_writeback e ealloc cpu_id gpas s)
            else Some (new_pages_len, s)))"

definition check_need_writeback :: "bool \<Rightarrow> gpa_ptr \<Rightarrow> emp_io \<Rightarrow> bool \<times> emp_io" where
  "check_need_writeback optimization_disable head s =
     (if optimization_disable then (True, s)
      else if \<not> remote_reuse (io_cfg s) then (True, s)
      else if \<not> is_block_remote_page_valid (mm_gpas (io_mm s)) head then (True, s)
      else (fst (clear_gpa_flags_if_set (io_gpa s head) GPA_DIRTY_MASK),
            upd_mm (upd_head (\<lambda>d. snd (clear_gpa_flags_if_set d GPA_DIRTY_MASK)) head) s))"

definition emp_writeback_block :: "io_env \<Rightarrow> bool \<Rightarrow> gpa_ptr \<Rightarrow> int \<Rightarrow> emp_io \<Rightarrow> (int \<times> emp_io) option" where
  "emp_writeback_block e optimization_disable head cpu s =
     (case check_need_writeback optimization_disable head s of (need, s) \<Rightarrow>
        if optimization_disable \<or> need
        then map_option (\<lambda>(r, s). (case r of Inl err \<Rightarrow> err | Inr _ \<Rightarrow> 1, s)) (evict_block e cpu head False s)
        else
          let s = foldl (\<lambda>s g. set_gpa_remote e cpu g s) s (rev (for_each_gpas (mm_gpas (io_mm s)) head))
          in Some (0, upd_mm (sub_inactive_list_page_len head) s))"

end
