(* ===== verification/Io_Data.thy ===== *)
theory Io_Data
  imports Remote_IO
begin

text \<open>
  What the transfers do to the contents of memory.  The contents of a subblock are those of its local page
  if it has one, else what its remote page holds, else zeros.  \<open>io_ok\<close> is the invariant of the data: slots
  are not shared, every region has a device with room for it, local pages are not shared.
\<close>

section \<open>Contents\<close>

definition dev_data :: "nat \<Rightarrow> emp_io \<Rightarrow> gpa_ptr \<Rightarrow> page_data list" where
  "dev_data ord s p = (case word_slot ord (remote_page (io_gpa s p)) of (i, k) \<Rightarrow>
     (case contexts (io_dev s) i of None \<Rightarrow> [] | Some c \<Rightarrow> ctx_read c (2 ^ ord) (k * 2 ^ ord)))"

definition contents :: "nat \<Rightarrow> emp_io \<Rightarrow> gpa_ptr \<Rightarrow> page_data list" where
  "contents ord s p = (if local_page (io_gpa s p) \<noteq> None then pg_data (io_dev s) (io_page s p)
     else if is_remote_page_free (remote_page (io_gpa s p)) then zero_pages (2 ^ ord) else dev_data ord s p)"

definition dev_ok :: "nat \<Rightarrow> emp_io \<Rightarrow> bool" where
  "dev_ok ord s \<longleftrightarrow> (\<forall>i r. i < 256 \<and> memregs (io_mrs s) ! i = Some r \<longrightarrow>
     (\<exists>c. contexts (io_dev s) i = Some c \<and> ctx_ok ord (mr_slots ord r) c \<and> \<not> mr_closing (io_dev s) i))"

definition local_ok :: "nat \<Rightarrow> gpa_ptr set \<Rightarrow> emp_io \<Rightarrow> bool" where
  "local_ok ord P s \<longleftrightarrow> (\<forall>p \<in> P. \<forall>l. local_page (io_gpa s p) = Some l \<longrightarrow>
       lp_gpa (mm_lps (io_mm s) l) = p \<and> length (pg_data (io_dev s) (lp_page (mm_lps (io_mm s) l))) = 2 ^ ord)
     \<and> inj_on (io_page s) {p \<in> P. local_page (io_gpa s p) \<noteq> None}"

definition io_ok :: "nat \<Rightarrow> gpa_ptr set \<Rightarrow> emp_io \<Rightarrow> bool" where
  "io_ok ord P s \<longleftrightarrow> mrs_ok ord (io_mrs s) \<and> pages_ok ord (memregs (io_mrs s)) (mm_gpas (io_mm s)) P
     \<and> cfg_subblock_order (io_cfg s) = ord \<and> ord \<le> 5
     \<and> (\<forall>p \<in> P. sb_order (io_gpa s p) = ord) \<and> dev_ok ord s \<and> local_ok ord P s"

definition pool_ok :: "emp_io \<Rightarrow> bool" where
  "pool_ok s \<longleftrightarrow> finite (wr_live (io_dev s))
     \<and> (\<forall>w. w \<notin> wr_live (io_dev s) \<longrightarrow> subsibling (io_wr s w) = [] \<and> remote_pages (io_wr s w) = [])"

definition env_ok :: "nat \<Rightarrow> io_env \<Rightarrow> bool" where
  "env_ok ord e \<longleftrightarrow> (\<forall>A. finite A \<longrightarrow> (\<exists>w. kmem e A = Some w \<and> w \<notin> A)) \<and> fresh_ok ord (node_page e) \<and> user_ok e"

section \<open>Access after update\<close>

definition io_lps :: "emp_io \<Rightarrow> nat \<Rightarrow> local_page" where
  "io_lps s l = mm_lps (io_mm s) l"

lemma io_acc [simp]: "mm_gpas (io_mm s) p = io_gpa s p" "mm_lps (io_mm s) l = io_lps s l" "wrs (io_dev s) w = io_wr s w"
  by (simp_all add: io_gpa_def io_lps_def io_wr_def)

lemma io_page_lps: "io_page s g = lp_page (io_lps s (io_lp s g))"
  by (simp add: io_page_def io_lps_def del: io_acc)

lemma upd_io_simps [simp]:
  "io_mm (upd_mm f s) = f (io_mm s)" "io_dev (upd_mm f s) = io_dev s" "io_mrs (upd_mm f s) = io_mrs s"
  "io_cfg (upd_mm f s) = io_cfg s" "io_cow (upd_mm f s) = io_cow s" "io_ftm (upd_mm f s) = io_ftm s"
  "io_crps (upd_mm f s) = io_crps s" "io_ewbr (upd_mm f s) = io_ewbr s"
  "io_mm (upd_dev g s) = io_mm s" "io_dev (upd_dev g s) = g (io_dev s)" "io_mrs (upd_dev g s) = io_mrs s"
  "io_cfg (upd_dev g s) = io_cfg s" "io_cow (upd_dev g s) = io_cow s" "io_ftm (upd_dev g s) = io_ftm s"
  "io_crps (upd_dev g s) = io_crps s" "io_ewbr (upd_dev g s) = io_ewbr s"
  "io_mm (upd_ftm k s) = io_mm s" "io_dev (upd_ftm k s) = io_dev s" "io_mrs (upd_ftm k s) = io_mrs s"
  "io_cfg (upd_ftm k s) = io_cfg s" "io_cow (upd_ftm k s) = io_cow s" "io_ftm (upd_ftm k s) = k (io_ftm s)"
  "io_crps (upd_ftm k s) = io_crps s" "io_ewbr (upd_ftm k s) = io_ewbr s"
  by (simp_all add: upd_mm_def upd_dev_def upd_ftm_def)

lemma io_gpa_simps [simp]:
  "io_gpa (upd_dev g s) = io_gpa s" "io_gpa (upd_ftm k s) = io_gpa s"
  "io_gpa (upd_mm (upd_head f q) s) p = (if p = q then f (io_gpa s q) else io_gpa s p)"
  "io_gpa (upd_mm (upd_lp f' l) s) = io_gpa s" "io_gpa (s\<lparr>io_dev := d\<rparr>) = io_gpa s" "io_gpa (s\<lparr>io_pages := pi\<rparr>) = io_gpa s"
  by (auto simp: io_gpa_def upd_head_def upd_gpa_def upd_lp_def fun_eq_iff simp del: io_acc)

lemma io_lps_simps [simp]:
  "io_lps (upd_dev g s) = io_lps s" "io_lps (upd_ftm k s) = io_lps s" "io_lps (upd_mm (upd_head f q) s) = io_lps s"
  "io_lps (upd_mm (upd_lp f' l) s) l' = (if l' = l then f' (io_lps s l) else io_lps s l')"
  "io_lps (s\<lparr>io_dev := d\<rparr>) = io_lps s" "io_lps (s\<lparr>io_pages := pi\<rparr>) = io_lps s"
  by (auto simp: io_lps_def upd_head_def upd_lp_def fun_eq_iff simp del: io_acc)

lemma io_wr_simps [simp]:
  "io_wr (upd_mm f s) = io_wr s" "io_wr (upd_ftm k s) = io_wr s" "io_wr (s\<lparr>io_dev := d\<rparr>) = wrs d"
  "io_wr (s\<lparr>io_pages := pi\<rparr>) = io_wr s" "io_wr (upd_dev g s) = wrs (g (io_dev s))"
  by (simp_all add: io_wr_def fun_eq_iff del: io_acc)

lemma ref_simps [simp]:
  "wrs (get_page p d) = wrs d" "wrs (put_page_ref p d) = wrs d" "pg_data (get_page p d) = pg_data d"
  "pg_data (put_page_ref p d) = pg_data d" "contexts (get_page p d) = contexts d" "contexts (put_page_ref p d) = contexts d"
  "wr_live (get_page p d) = wr_live d" "wr_live (put_page_ref p d) = wr_live d"
  "mr_closing (get_page p d) = mr_closing d" "mr_closing (put_page_ref p d) = mr_closing d"
  by (simp_all add: get_page_def put_page_ref_def)

section \<open>The part that carries data\<close>

definition ctx_part :: "mem_context \<Rightarrow> page_data list option list option \<times> (nat \<Rightarrow> page_data) \<times> bool" where
  "ctx_part c = (memdev_map c, memdev_ptr c, ctx_destroying c)"

text \<open>\<open>stat s\<close> is that part without the devices.\<close>

definition stat :: "emp_io \<Rightarrow> (gpa_ptr \<Rightarrow> nat \<times> nat \<times> nat \<times> nat \<times> nat option \<times> u64) \<times> (nat \<Rightarrow> nat \<times> nat)
    \<times> (nat \<Rightarrow> page_data list) \<times> (nat \<Rightarrow> bool) \<times> emp_mrs \<times> emp_config \<times> cow_store" where
  "stat s = (\<lambda>p. fixed_part (io_gpa s p), \<lambda>l. (lp_page (io_lps s l), lp_gpa (io_lps s l)), pg_data (io_dev s),
     mr_closing (io_dev s), io_mrs s, io_cfg s, io_cow s)"

definition dpart :: "emp_io \<Rightarrow> ((gpa_ptr \<Rightarrow> nat \<times> nat \<times> nat \<times> nat \<times> nat option \<times> u64) \<times> (nat \<Rightarrow> nat \<times> nat)
    \<times> (nat \<Rightarrow> page_data list) \<times> (nat \<Rightarrow> bool) \<times> emp_mrs \<times> emp_config \<times> cow_store)
    \<times> (nat \<Rightarrow> (page_data list option list option \<times> (nat \<Rightarrow> page_data) \<times> bool) option)" where
  "dpart s = (stat s, \<lambda>i. map_option ctx_part (contexts (io_dev s) i))"

lemma ctx_part_facts: "ctx_part c' = ctx_part c \<Longrightarrow> ctx_ok ord n c' = ctx_ok ord n c \<and> ctx_read c' = ctx_read c"
proof -
  assume "ctx_part c' = ctx_part c"
  then have "memdev_map c' = memdev_map c" "memdev_ptr c' = memdev_ptr c" "ctx_destroying c' = ctx_destroying c"
    by (simp_all add: ctx_part_def)
  then show ?thesis by (simp add: ctx_ok_def) (intro ext, simp add: ctx_read_def cong: option.case_cong)
qed

lemma statD:
  assumes "stat s' = stat s"
  shows "fixed_part (io_gpa s' p) = fixed_part (io_gpa s p)" "lp_page (io_lps s' l) = lp_page (io_lps s l)"
    "lp_gpa (io_lps s' l) = lp_gpa (io_lps s l)" "pg_data (io_dev s') = pg_data (io_dev s)"
    "mr_closing (io_dev s') = mr_closing (io_dev s)" "io_mrs s' = io_mrs s" "io_cfg s' = io_cfg s" "io_cow s' = io_cow s"
  using assms by (simp_all add: stat_def fun_eq_iff)

lemma dpartD:
  assumes "dpart s' = dpart s"
  shows "stat s' = stat s" "map_option ctx_part (contexts (io_dev s') i) = map_option ctx_part (contexts (io_dev s) i)"
  using assms by (simp_all add: dpart_def fun_eq_iff)

lemma stat_gpa:
  assumes "stat s' = stat s"
  shows "local_page (io_gpa s' p) = local_page (io_gpa s p)" "remote_page (io_gpa s' p) = remote_page (io_gpa s p)"
    "sb_order (io_gpa s' p) = sb_order (io_gpa s p)" "io_lp s' p = io_lp s p" "io_page s' p = io_page s p"
    "desc_order (io_gpa s' p) = desc_order (io_gpa s p)" "block_order (io_gpa s' p) = block_order (io_gpa s p)"
  using statD [OF assms] by (simp_all add: fixed_part_def io_lp_def io_page_def)

lemma pages_ok_cong:
  assumes "\<And>p. p \<in> P \<Longrightarrow> remote_page (h' p) = remote_page (h p)"
  shows "pages_ok ord t h' P = pages_ok ord t h P"
proof -
  have "{p \<in> P. has_page h' p} = {p \<in> P. has_page h p}" using assms by auto
  moreover have "inj_on (\<lambda>p. remote_page (h' p)) A = inj_on (\<lambda>p. remote_page (h p)) A" if "A \<subseteq> P" for A
    using assms that by (intro inj_on_cong) blast
  ultimately show ?thesis using assms by (simp add: pages_ok_def)
qed

lemma stat_local_ok:
  assumes "stat s' = stat s"
  shows "local_ok ord P s' = local_ok ord P s"
  by (simp add: local_ok_def stat_gpa [OF assms] statD(2-4) [OF assms] inj_on_def)

lemma stat_io_ok:
  assumes "stat s' = stat s" and "io_ok ord P s" and "dev_ok ord s'"
  shows "io_ok ord P s'"
proof -
  have "pages_ok ord (memregs (io_mrs s)) (mm_gpas (io_mm s')) P"
    using assms(2) by (subst pages_ok_cong [of P _ "mm_gpas (io_mm s)"]) (simp_all add: io_ok_def stat_gpa(2) [OF assms(1)])
  then show ?thesis
    using assms(2,3) by (simp add: io_ok_def statD(6,7) [OF assms(1)] stat_gpa(3) [OF assms(1)] stat_local_ok [OF assms(1)])
qed

lemma io_ok_dev: "io_ok ord P s \<Longrightarrow> dev_ok ord s" by (simp add: io_ok_def)

text \<open>Only the part of a context that carries data counts for what a descriptor finds remotely.\<close>

lemma ctx_dev_data:
  assumes rp: "remote_page (io_gpa s' p) = remote_page (io_gpa s p)"
    and c: "\<And>i. map_option ctx_part (contexts (io_dev s') i) = map_option ctx_part (contexts (io_dev s) i)"
  shows "dev_data ord s' p = dev_data ord s p"
proof -
  obtain i k where w: "word_slot ord (remote_page (io_gpa s p)) = (i, k)" by (metis surj_pair)
  note d = c [of i]
  show ?thesis
  proof (cases "contexts (io_dev s) i")
    case None
    then show ?thesis using d w rp by (simp add: dev_data_def)
  next
    case (Some c)
    then obtain c' where c': "contexts (io_dev s') i = Some c'" "ctx_part c' = ctx_part c" using d by auto
    then show ?thesis using Some w rp ctx_part_facts [OF c'(2)] by (simp add: dev_data_def)
  qed
qed

lemma ctx_dev_ok:
  assumes ok: "dev_ok ord s" and c: "\<And>i. map_option ctx_part (contexts (io_dev s') i) = map_option ctx_part (contexts (io_dev s) i)"
    and m: "mr_closing (io_dev s') = mr_closing (io_dev s)"
      "\<And>i. map_option mr_size (memregs (io_mrs s') ! i) = map_option mr_size (memregs (io_mrs s) ! i)"
  shows "dev_ok ord s'"
  unfolding dev_ok_def
proof (intro allI impI)
  fix i r assume i: "i < 256 \<and> memregs (io_mrs s') ! i = Some r"
  then obtain r0 where r0: "memregs (io_mrs s) ! i = Some r0" "mr_size r0 = mr_size r"
    using m(2) [of i] by (cases "memregs (io_mrs s) ! i") auto
  have sl: "mr_slots ord r0 = mr_slots ord r" using r0(2) by (simp add: mr_slots_def)
  from ok [unfolded dev_ok_def, rule_format, of i r0] i r0(1) obtain c0 where
    c0: "contexts (io_dev s) i = Some c0" "ctx_ok ord (mr_slots ord r) c0" "\<not> mr_closing (io_dev s) i" unfolding sl by auto
  from c [of i] c0(1) obtain c' where c': "contexts (io_dev s') i = Some c'" "ctx_part c' = ctx_part c0" by auto
  then show "\<exists>c. contexts (io_dev s') i = Some c \<and> ctx_ok ord (mr_slots ord r) c \<and> \<not> mr_closing (io_dev s') i"
    using c0 ctx_part_facts [OF c'(2)] m(1) by simp
qed

lemma dpart_dev_data: "dpart s' = dpart s \<Longrightarrow> dev_data ord s' p = dev_data ord s p"
  using ctx_dev_data [of s' p s ord] dpartD stat_gpa(2) by metis

lemma dpart_contents:
  assumes "dpart s' = dpart s"
  shows "contents ord s' p = contents ord s p"
  by (simp add: contents_def stat_gpa [OF dpartD(1) [OF assms]] dpart_dev_data [OF assms] statD(4) [OF dpartD(1) [OF assms]])

lemma dpart_io_ok:
  assumes "dpart s' = dpart s" and "io_ok ord P s"
  shows "io_ok ord P s'"
proof (rule stat_io_ok [OF dpartD(1) [OF assms(1)] assms(2)])
  note st = dpartD(1) [OF assms(1)]
  show "dev_ok ord s'"
    using ctx_dev_ok [OF io_ok_dev [OF assms(2)] dpartD(2) [OF assms(1)] statD(5) [OF st]] statD(6) [OF st] by simp
qed

section \<open>Where a remote page is\<close>

lemma freed_iff_bit: "is_remote_page_freed rp \<longleftrightarrow> bit rp 1"
  by (simp add: is_remote_page_freed_def REMOTE_PAGE_FREED_MASK_def bit_iff_and_push_bit_not_eq_0)

lemma make_val_not_freed [simp]: "\<not> is_remote_page_freed (make_remote_page_val (int m) off)"
  unfolding freed_iff_bit by (subst bit_make_val) simp

lemma slot_word_addr:
  assumes "i < 255" and "(k + 1) * 2 ^ ord \<le> 2 ^ 54"
  shows "unat (raw_remote_page_mrid (slot_word ord (i, k))) = i"
    and "unat (raw_remote_page_offset (slot_word ord (i, k))) = k * 2 ^ ord"
    and "unat (get_remote_page_mrid st (slot_word ord (i, k))) = i"
    and "unat (get_remote_page_offset st (slot_word ord (i, k))) = k * 2 ^ ord"
    and "get_rp_val st (slot_word ord (i, k)) = slot_word ord (i, k)"
    and "\<not> is_remote_page_freed (slot_word ord (i, k))"
proof -
  have "k * 2 ^ ord < (k + 1) * 2 ^ ord" by simp
  from this assms(2) have lt: "k * 2 ^ ord < 2 ^ 54" by (rule less_le_trans)
  have e: "push_bit ord (of_nat k) = (of_nat (k * 2 ^ ord) :: u64)" by (simp add: push_bit_eq_mult)
  have u: "unat (push_bit ord (of_nat k) :: u64) = k * 2 ^ ord"
    unfolding e using lt by (simp only: unat_of_nat) (simp add: take_bit_nat_eq_self)
  note f = slot_word_facts [OF assms]
  show m: "unat (raw_remote_page_mrid (slot_word ord (i, k))) = i" using f(1) by (simp add: word_slot_def)
  show o1: "unat (raw_remote_page_offset (slot_word ord (i, k))) = k * 2 ^ ord"
    using raw_offset_make [of "push_bit ord (of_nat k)" i] u lt by (simp add: slot_word_def)
  show g: "get_rp_val st (slot_word ord (i, k)) = slot_word ord (i, k)" using f(3) by (simp add: get_rp_val_def)
  show "unat (get_remote_page_mrid st (slot_word ord (i, k))) = i"
    using m assms(1) by (simp add: get_remote_page_mrid_def g unsigned_ucast_eq take_bit_nat_eq_self)
  show "unat (get_remote_page_offset st (slot_word ord (i, k))) = k * 2 ^ ord"
    using o1 by (simp add: get_remote_page_offset_def g)
  show "\<not> is_remote_page_freed (slot_word ord (i, k))" by (simp add: slot_word_def)
qed

text \<open>Where the remote page of a descriptor is.\<close>

definition at_slot :: "nat \<Rightarrow> emp_io \<Rightarrow> gpa_ptr \<Rightarrow> nat \<Rightarrow> nat \<Rightarrow> bool" where
  "at_slot ord s p i k \<longleftrightarrow> remote_page (io_gpa s p) = slot_word ord (i, k) \<and> i < 255 \<and> (k + 1) * 2 ^ ord \<le> 2 ^ 54
     \<and> (\<exists>r. memregs (io_mrs s) ! i = Some r \<and> k < mr_slots ord r)"

lemma at_slotI:
  assumes "io_ok ord P s" and "p \<in> P" and "has_page (mm_gpas (io_mm s)) p"
  shows "\<exists>i k. at_slot ord s p i k"
proof -
  obtain i k where s: "(i, k) \<in> used_slots (memregs (io_mrs s))" "remote_page (io_gpa s p) = slot_word ord (i, k)"
    using assms by (auto simp: io_ok_def pages_ok_def simp del: split_paired_Ex)
  then obtain r where r: "i < length (memregs (io_mrs s))" "memregs (io_mrs s) ! i = Some r" "k \<in> zeros (alloc_bitmap r)"
    by (auto simp: used_slots_def)
  have res: "region_res ord i r 0" using assms(1) r(1,2) mrs_ok_region [of ord "io_mrs s" i r] by (simp add: io_ok_def mrs_ok_def)
  have k: "k < mr_slots ord r" using mr.used_cap [OF res] r(3) by blast
  show ?thesis using region_slot_bound [OF res k] s(2) r(2) k by (auto simp: at_slot_def)
qed

lemma at_slot_ctx:
  assumes "at_slot ord s p i k" and "dev_ok ord s"
  obtains c r where "memregs (io_mrs s) ! i = Some r" "k < mr_slots ord r" "contexts (io_dev s) i = Some c"
    "ctx_ok ord (mr_slots ord r) c" "\<not> mr_closing (io_dev s) i"
proof -
  obtain r where r: "memregs (io_mrs s) ! i = Some r" "k < mr_slots ord r" "i < 255" using assms(1) by (auto simp: at_slot_def)
  then obtain c where "contexts (io_dev s) i = Some c" "ctx_ok ord (mr_slots ord r) c" "\<not> mr_closing (io_dev s) i"
    using assms(2) [unfolded dev_ok_def, rule_format, of i r] by auto
  then show thesis using that r by blast
qed

lemmas at_slot_addr = slot_word_addr slot_word_facts

lemma at_slot_distinct:
  assumes "io_ok ord P s" and "p \<in> P" "q \<in> P" "p \<noteq> q" and "at_slot ord s p i k" "at_slot ord s q j l"
  shows "(i, k) \<noteq> (j, l)"
proof
  assume e: "(i, k) = (j, l)"
  then have "remote_page (io_gpa s p) = remote_page (io_gpa s q)" using assms(5,6) by (simp add: at_slot_def)
  moreover have "\<not> is_remote_page_free (remote_page (io_gpa s p))" "\<not> is_remote_page_free (remote_page (io_gpa s q))"
    using assms(5,6) slot_word_facts(2) by (auto simp: at_slot_def)
  ultimately show False using assms(1-4) by (auto simp: io_ok_def pages_ok_def inj_on_def)
qed

lemma at_slot_data:
  "at_slot ord s p i k \<Longrightarrow> dev_data ord s p = (case contexts (io_dev s) i of None \<Rightarrow> [] | Some c \<Rightarrow> ctx_read c (2 ^ ord) (k * 2 ^ ord))"
  using slot_word_facts(1) by (simp add: at_slot_def dev_data_def)

end
