(* ===== verification/Io_Write.thy ===== *)
theory Io_Write
  imports Io_Data
begin

text \<open>
  Writing a block back: every subblock is posted to the slot of its remote page, which then holds what the
  local page holds; on completion the local pages go and nothing that memory contains has changed.
\<close>

section \<open>One subblock\<close>

text \<open>The slot \<open>k\<close> of region \<open>i\<close> is written with \<open>d\<close>, no other slot of any region changes.\<close>

definition slot_written :: "nat \<Rightarrow> nat \<Rightarrow> nat \<Rightarrow> page_data list \<Rightarrow> emp_io \<Rightarrow> emp_io \<Rightarrow> bool" where
  "slot_written ord i k d s s' \<longleftrightarrow> stat s' = stat s \<and> (\<forall>j. j \<noteq> i \<longrightarrow> contexts (io_dev s') j = contexts (io_dev s) j)
     \<and> (\<exists>r c c'. memregs (io_mrs s) ! i = Some r \<and> contexts (io_dev s) i = Some c \<and> contexts (io_dev s') i = Some c'
          \<and> ctx_ok ord (mr_slots ord r) c' \<and> ctx_read c' (2 ^ ord) (k * 2 ^ ord) = d
          \<and> (\<forall>k' < mr_slots ord r. k' \<noteq> k \<longrightarrow> ctx_read c' (2 ^ ord) (k' * 2 ^ ord) = ctx_read c (2 ^ ord) (k' * 2 ^ ord)))"

lemma slot_written_dev_ok:
  assumes "slot_written ord i k d s s'" and "dev_ok ord s"
  shows "dev_ok ord s'"
  unfolding dev_ok_def
proof (intro allI impI)
  fix j r assume j: "j < 256 \<and> memregs (io_mrs s') ! j = Some r"
  have st: "stat s' = stat s" using assms(1) by (simp add: slot_written_def)
  then have r: "memregs (io_mrs s) ! j = Some r" using j statD(6) [OF st] by simp
  from assms(2) [unfolded dev_ok_def, rule_format, of j r] j r obtain c where
    c: "contexts (io_dev s) j = Some c" "ctx_ok ord (mr_slots ord r) c" "\<not> mr_closing (io_dev s) j" by auto
  show "\<exists>c. contexts (io_dev s') j = Some c \<and> ctx_ok ord (mr_slots ord r) c \<and> \<not> mr_closing (io_dev s') j"
  proof (cases "j = i")
    case True
    then show ?thesis using assms(1) r c(3) statD(5) [OF st] by (auto simp: slot_written_def)
  next
    case False
    then show ?thesis using assms(1) c statD(5) [OF st] by (simp add: slot_written_def)
  qed
qed

lemma slot_written_io_ok: "slot_written ord i k d s s' \<Longrightarrow> io_ok ord P s \<Longrightarrow> io_ok ord P s'"
  using slot_written_dev_ok io_ok_dev stat_io_ok by (metis slot_written_def)

lemma at_slot_stat: "stat s' = stat s \<Longrightarrow> at_slot ord s' p i k = at_slot ord s p i k"
  using stat_gpa(2) [of s' s p] statD(6) [of s' s] by (simp add: at_slot_def)

lemma slot_written_same:
  assumes "slot_written ord i k d s s'" and "at_slot ord s v i k"
  shows "dev_data ord s' v = d"
  using assms at_slot_data [of ord s' v i k] at_slot_stat [of s' s ord v i k] by (auto simp: slot_written_def)

lemma slot_written_other:
  assumes "slot_written ord i k d s s'" and "at_slot ord s p j l" and "(j, l) \<noteq> (i, k)"
  shows "dev_data ord s' p = dev_data ord s p"
proof (cases "j = i")
  case True
  then obtain r where "memregs (io_mrs s) ! i = Some r" "l < mr_slots ord r" "l \<noteq> k" using assms(2,3) by (auto simp: at_slot_def)
  then show ?thesis
    using True assms at_slot_data [OF assms(2)] at_slot_data [of ord s' p j l] at_slot_stat [of s' s ord p j l]
    by (auto simp: slot_written_def)
next
  case False
  then show ?thesis
    using assms at_slot_data [OF assms(2)] at_slot_data [of ord s' p j l] at_slot_stat [of s' s ord p j l]
    by (auto simp: slot_written_def split: option.split)
qed

text \<open>The state after posting the write of \<open>v\<close> with the request \<open>w\<close>, the device being \<open>d\<close> then.\<close>

definition posted :: "gpa_ptr \<Rightarrow> nat \<Rightarrow> io_mem \<Rightarrow> emp_io \<Rightarrow> emp_io" where
  "posted v w d s = set_lp_w v (Some w) (upd_mm (upd_head (\<lambda>g. g\<lparr>r_state := GPA_WB\<rparr>) v)
     (upd_mm (upd_head (\<lambda>g. g\<lparr>last_mr_id := get_remote_page_mrid (io_cow s) (remote_page (io_gpa s v))\<rparr>) v) s\<lparr>io_dev := d\<rparr>))"

lemma post_writeback_async_at:
  assumes c: "memregs (io_mrs s) ! i = Some r" "k < mr_slots ord r" "contexts (io_dev s) i = Some c"
      "ctx_ok ord (mr_slots ord r) c" "\<not> mr_closing (io_dev s) i"
    and e: "env_ok ord e" "finite (wr_live (io_dev s))" and v: "at_slot ord s v i k" and sb: "sb_order (io_gpa s v) = ord"
    and len: "length (pg_data (io_dev s) (io_page s v)) = 2 ^ ord" and h: "\<And>h. hw = Some h \<Longrightarrow> h \<in> wr_live (io_dev s)"
  shows "\<exists>w d. w \<notin> wr_live (io_dev s)
    \<and> post_writeback_async e v cpu hw (2 ^ ord) True s = Some (Some w, posted v w d s)
    \<and> posts TYPE_WB i v (remote_page (io_gpa s v)) w hw (io_dev s) d
    \<and> slot_written ord i k (pg_data (io_dev s) (io_page s v)) s (posted v w d s)"
proof -
  obtain w where w: "kmem e (wr_live (io_dev s)) = Some w" "w \<notin> wr_live (io_dev s)" using e by (auto simp: env_ok_def)
  have hw: "hw \<noteq> Some w" using h w(2) by blast
  have a: "i < 255" "(k + 1) * 2 ^ ord \<le> 2 ^ 54" "remote_page (io_gpa s v) = slot_word ord (i, k)"
    using v by (simp_all add: at_slot_def)
  let ?s1 = "upd_mm (upd_head (\<lambda>g. g\<lparr>last_mr_id := get_remote_page_mrid (io_cow s) (remote_page (io_gpa s v))\<rparr>) v) s"
  have pw: "fresh_ok ord (node_page e)" "user_ok e" using e by (simp_all add: env_ok_def)
  from post_write_ok [where kmem = "kmem e" and head = hw and gpa = v and rp = "slot_word ord (i, k)",
      OF c(3-5,2) w(1) hw pw len]
  obtain d c' where d: "post_write (kmem e) (node_page e) (user_ok e) ord i v (io_page s v) (k * 2 ^ ord) (2 ^ ord)
      (slot_word ord (i, k)) hw (io_dev s) = Some (Inr w, d)"
    "posts TYPE_WB i v (slot_word ord (i, k)) w hw (io_dev s) d" "pg_data d = pg_data (io_dev s)"
    "contexts d i = Some c'" "ctx_ok ord (mr_slots ord r) c'" "ctx_read c' (2 ^ ord) (k * 2 ^ ord) = pg_data (io_dev s) (io_page s v)"
    "\<forall>k' < mr_slots ord r. k' \<noteq> k \<longrightarrow> ctx_read c' (2 ^ ord) (k' * 2 ^ ord) = ctx_read c (2 ^ ord) (k' * 2 ^ ord)"
    by blast
  have m: "unat (get_remote_page_mrid (io_cow s) (remote_page (io_gpa s v))) = i"
    "unat (get_remote_page_offset (io_cow s) (remote_page (io_gpa s v))) = k * 2 ^ ord"
    "get_rp_val (io_cow s) (remote_page (io_gpa s v)) = slot_word ord (i, k)"
    using at_slot_addr [OF a(1,2)] a(3) by simp_all
  have g: "io_page ?s1 v = io_page s v" by (simp add: io_page_lps io_lp_def)
  have "post_write_loop e cpu i v (2 ^ ord) hw ?s1 = Some (Some w, ?s1\<lparr>io_dev := d\<rparr>)"
    using d(1) g sb m by (subst post_write_loop.simps) simp
  then have "post_writeback_async e v cpu hw (2 ^ ord) True s = Some (Some w, posted v w d s)"
    unfolding post_writeback_async_def Let_def m(1) using c(1) by (simp add: posted_def)
  moreover have "slot_written ord i k (pg_data (io_dev s) (io_page s v)) s (posted v w d s)"
    using c d by (auto simp: slot_written_def posts_def stat_def posted_def set_lp_w_def fixed_part_def fun_eq_iff)
  ultimately show ?thesis using w(2) d(2) a(3) by (intro exI [of _ w] exI [of _ d]) simp
qed

lemma post_writeback_async_ok:
  assumes io: "io_ok ord P s" and e: "env_ok ord e" "finite (wr_live (io_dev s))" and v: "v \<in> P" "at_slot ord s v i k"
    and l: "local_page (io_gpa s v) \<noteq> None" and h: "\<And>h. hw = Some h \<Longrightarrow> h \<in> wr_live (io_dev s)"
  shows "\<exists>w d. w \<notin> wr_live (io_dev s)
    \<and> post_writeback_async e v cpu hw (2 ^ ord) True s = Some (Some w, posted v w d s)
    \<and> posts TYPE_WB i v (remote_page (io_gpa s v)) w hw (io_dev s) d
    \<and> slot_written ord i k (pg_data (io_dev s) (io_page s v)) s (posted v w d s)"
proof -
  obtain c r where c: "memregs (io_mrs s) ! i = Some r" "k < mr_slots ord r" "contexts (io_dev s) i = Some c"
    "ctx_ok ord (mr_slots ord r) c" "\<not> mr_closing (io_dev s) i"
    using at_slot_ctx [OF v(2) io_ok_dev [OF io]] by metis
  have "length (pg_data (io_dev s) (io_page s v)) = 2 ^ ord"
    using io v(1) l by (auto simp: io_ok_def local_ok_def io_page_lps io_lp_def)
  moreover have "sb_order (io_gpa s v) = ord" using io v(1) by (simp add: io_ok_def)
  ultimately show ?thesis using post_writeback_async_at [OF c e v(2) _ _ h] by blast
qed

section \<open>A run of subblocks\<close>

text \<open>A request that writes \<open>g\<close> as part of the write-back headed by \<open>h\<close>.\<close>

definition wb_request :: "emp_io \<Rightarrow> nat \<Rightarrow> gpa_ptr \<Rightarrow> nat \<Rightarrow> bool" where
  "wb_request s h g w \<longleftrightarrow> wr_gpa (io_wr s w) = g \<and> wr_rp (io_wr s w) = remote_page (io_gpa s g) \<and> head_wr (io_wr s w) = h
     \<and> \<not> chained_ops (io_wr s w) \<and> remote_pages (io_wr s w) = [] \<and> (w \<noteq> h \<longrightarrow> subsibling (io_wr s w) = [])"

text \<open>The subblocks \<open>gs\<close> have been posted with the requests \<open>ws\<close>, starting from \<open>s0\<close>.\<close>

definition wb_data :: "nat \<Rightarrow> gpa_ptr set \<Rightarrow> gpa_ptr list \<Rightarrow> emp_io \<Rightarrow> emp_io \<Rightarrow> bool" where
  "wb_data ord P gs s0 s \<longleftrightarrow> io_ok ord P s \<and> stat s = stat s0
     \<and> (\<forall>p \<in> P. has_page (mm_gpas (io_mm s0)) p \<longrightarrow>
          dev_data ord s p = (if p \<in> set gs then pg_data (io_dev s0) (io_page s0 p) else dev_data ord s0 p))"

definition wb_requests :: "gpa_ptr list \<Rightarrow> nat list \<Rightarrow> emp_io \<Rightarrow> emp_io \<Rightarrow> bool" where
  "wb_requests gs ws s0 s \<longleftrightarrow> distinct ws \<and> set ws \<inter> wr_live (io_dev s0) = {} \<and> wr_live (io_dev s) = set ws \<union> wr_live (io_dev s0)
     \<and> list_all2 (wb_request s (hd ws)) gs ws
     \<and> (ws \<noteq> [] \<longrightarrow> wr_refc (io_wr s (hd ws)) = int (length ws) \<and> subsibling (io_wr s (hd ws)) = tl ws)
     \<and> (\<forall>w. w \<notin> set ws \<longrightarrow> io_wr s w = io_wr s0 w)"

definition wb_mm :: "gpa_ptr list \<Rightarrow> nat list \<Rightarrow> emp_io \<Rightarrow> emp_io \<Rightarrow> bool" where
  "wb_mm gs ws s0 s \<longleftrightarrow> io_mm s = (io_mm s0)\<lparr>mm_gpas := mm_gpas (io_mm s), mm_lps := mm_lps (io_mm s)\<rparr>
     \<and> (\<forall>p. gpa_flags (io_gpa s p) = gpa_flags (io_gpa s0 p) \<and> gpa_lock (io_gpa s p) = gpa_lock (io_gpa s0 p)
          \<and> r_state (io_gpa s p) = (if p \<in> set gs then GPA_WB else r_state (io_gpa s0 p)))
     \<and> map (\<lambda>g. lp_w (io_lps s (io_lp s0 g))) gs = map Some ws
     \<and> (\<forall>l. \<exists>w. io_lps s l = (io_lps s0 l)\<lparr>lp_w := w\<rparr>) \<and> (\<forall>l. l \<notin> io_lp s0 ` set gs \<longrightarrow> io_lps s l = io_lps s0 l)"

text \<open>One turn of the loop of \<open>evict_post\<close>.\<close>

definition turn :: "gpa_ptr \<Rightarrow> nat \<Rightarrow> io_mem \<Rightarrow> nat option \<Rightarrow> emp_io \<Rightarrow> emp_io" where
  "turn v w d hw s = (let s = posted v w d (emp_lock_subblock v (emp_get_subblock v s))
     in case hw of None \<Rightarrow> s | Some h \<Rightarrow> upd_dev (upd_wr h (\<lambda>r. r\<lparr>subsibling := subsibling r @ [w]\<rparr>)) s)"

lemma subblock_ref_dpart [simp]:
  "dpart (emp_lock_subblock v s) = dpart s" "dpart (emp_get_subblock v s) = dpart s"
  "dpart (emp_unlock_subblock v s) = dpart s" "dpart (emp_put_subblock v s) = dpart s"
  "dpart (upd_dev (upd_wr h f) s) = dpart s"
  by (simp_all add: dpart_def stat_def emp_lock_subblock_def emp_get_subblock_def emp_unlock_subblock_def emp_put_subblock_def)

lemma subblock_ref_simps [simp]:
  "io_mm (emp_lock_subblock v s) = io_mm s" "io_mm (emp_get_subblock v s) = io_mm s"
  "io_mm (emp_unlock_subblock v s) = io_mm s" "io_mm (emp_put_subblock v s) = io_mm s"
  "io_gpa (emp_lock_subblock v s) = io_gpa s" "io_gpa (emp_get_subblock v s) = io_gpa s"
  "io_gpa (emp_unlock_subblock v s) = io_gpa s" "io_gpa (emp_put_subblock v s) = io_gpa s"
  "io_lps (emp_lock_subblock v s) = io_lps s" "io_lps (emp_get_subblock v s) = io_lps s"
  "io_lps (emp_unlock_subblock v s) = io_lps s" "io_lps (emp_put_subblock v s) = io_lps s"
  "io_wr (emp_lock_subblock v s) = io_wr s" "io_wr (emp_get_subblock v s) = io_wr s"
  "io_wr (emp_unlock_subblock v s) = io_wr s" "io_wr (emp_put_subblock v s) = io_wr s"
  "wr_live (io_dev (emp_lock_subblock v s)) = wr_live (io_dev s)" "wr_live (io_dev (emp_get_subblock v s)) = wr_live (io_dev s)"
  "wr_live (io_dev (emp_unlock_subblock v s)) = wr_live (io_dev s)" "wr_live (io_dev (emp_put_subblock v s)) = wr_live (io_dev s)"
  by (simp_all add: emp_lock_subblock_def emp_get_subblock_def emp_unlock_subblock_def emp_put_subblock_def fun_eq_iff)

text \<open>What a turn needs of the state, and that it goes through.\<close>

definition hw_of :: "nat list \<Rightarrow> nat option" where
  "hw_of ws = (if ws = [] then None else Some (hd ws))"

lemma dpart_at_slot: "dpart s' = dpart s \<Longrightarrow> at_slot ord s' p i k = at_slot ord s p i k"
  by (rule at_slot_stat [OF dpartD(1)])

lemma turn_goes:
  assumes d: "wb_data ord P gs s0 s" and r: "wb_requests gs ws s0 s" and e: "env_ok ord e" "finite (wr_live (io_dev s0))"
    and v: "v \<in> P" "has_page (mm_gpas (io_mm s0)) v" "local_page (io_gpa s0 v) \<noteq> None"
  shows "\<exists>w d i k. w \<notin> wr_live (io_dev s) \<and> at_slot ord s v i k
    \<and> post_writeback_async e v cpu (hw_of ws) (2 ^ ord) True (emp_lock_subblock v (emp_get_subblock v s))
        = Some (Some w, posted v w d (emp_lock_subblock v (emp_get_subblock v s)))
    \<and> posts TYPE_WB i v (remote_page (io_gpa s v)) w (hw_of ws) (io_dev (emp_lock_subblock v (emp_get_subblock v s))) d
    \<and> slot_written ord i k (pg_data (io_dev s0) (io_page s0 v)) (emp_lock_subblock v (emp_get_subblock v s)) (posted v w d (emp_lock_subblock v (emp_get_subblock v s)))"
proof -
  let ?s = "emp_lock_subblock v (emp_get_subblock v s)"
  have dp: "dpart ?s = dpart s" by simp
  have st: "stat s = stat s0" and io: "io_ok ord P ?s"
    using d dpart_io_ok [OF dp] by (simp_all add: wb_data_def)
  note st' = trans [OF dpartD(1) [OF dp] st]
  have l: "local_page (io_gpa ?s v) \<noteq> None" "has_page (mm_gpas (io_mm ?s)) v"
    using v stat_gpa(1,2) [OF st] by simp_all
  from at_slotI [OF io v(1) l(2)] obtain i k where a: "at_slot ord ?s v i k" by blast
  have f: "finite (wr_live (io_dev ?s))" using r e(2) by (simp add: wb_requests_def)
  have h: "h \<in> wr_live (io_dev ?s)" if "hw_of ws = Some h" for h
    using that r by (auto simp: wb_requests_def hw_of_def split: if_splits)
  from post_writeback_async_ok [OF io e(1) f v(1) a l(1) h] obtain w d where
    "w \<notin> wr_live (io_dev ?s)" "post_writeback_async e v cpu (hw_of ws) (2 ^ ord) True ?s = Some (Some w, posted v w d ?s)"
    "posts TYPE_WB i v (remote_page (io_gpa ?s v)) w (hw_of ws) (io_dev ?s) d"
    "slot_written ord i k (pg_data (io_dev ?s) (io_page ?s v)) ?s (posted v w d ?s)" by blast
  then show ?thesis
    using a dpart_at_slot [OF dp] statD(4) [OF st'] stat_gpa(5) [OF st'] by (intro exI [of _ w] exI [of _ d] exI [of _ i] exI [of _ k]) simp
qed

lemma turn_data:
  assumes d: "wb_data ord P gs s0 s" and v: "v \<in> P" "v \<notin> set gs" "has_page (mm_gpas (io_mm s0)) v"
    and w: "at_slot ord s v i k" "slot_written ord i k (pg_data (io_dev s0) (io_page s0 v)) (emp_lock_subblock v (emp_get_subblock v s))
      (posted v w d (emp_lock_subblock v (emp_get_subblock v s)))"
  shows "wb_data ord P (gs @ [v]) s0 (turn v w d hw s)"
proof -
  let ?s = "emp_lock_subblock v (emp_get_subblock v s)" and ?t = "posted v w d (emp_lock_subblock v (emp_get_subblock v s))"
  have dt: "dpart (turn v w d hw s) = dpart ?t" by (simp add: turn_def Let_def split: option.split)
  have ds: "dpart ?s = dpart s" by simp
  have io: "io_ok ord P ?s" using d dpart_io_ok [OF ds] by (simp add: wb_data_def)
  have st: "stat (turn v w d hw s) = stat s0"
    using dpartD(1) [OF dt] w(2) dpartD(1) [OF ds] d by (simp add: slot_written_def wb_data_def)
  have at: "at_slot ord ?s v i k" using w(1) dpart_at_slot [OF ds] by simp
  have "dev_data ord (turn v w d hw s) p
      = (if p \<in> set (gs @ [v]) then pg_data (io_dev s0) (io_page s0 p) else dev_data ord s0 p)"
    if p: "p \<in> P" "has_page (mm_gpas (io_mm s0)) p" for p
  proof (cases "p = v")
    case True
    then show ?thesis using slot_written_same [OF w(2) at] dpart_dev_data [OF dt] by simp
  next
    case False
    have "has_page (mm_gpas (io_mm ?s)) p" using p(2) d stat_gpa(2) [of s s0] by (simp add: wb_data_def)
    from at_slotI [OF io p(1) this] obtain j l where a: "at_slot ord ?s p j l" by blast
    have "(j, l) \<noteq> (i, k)" using at_slot_distinct [OF io p(1) v(1) False a at] .
    from slot_written_other [OF w(2) a this] show ?thesis
      using False p d dpart_dev_data [OF dt, of ord p] dpart_dev_data [OF ds, of ord p] by (simp add: wb_data_def)
  qed
  then show ?thesis
    using st dpart_io_ok [OF dt slot_written_io_ok [OF w(2) io]] by (simp add: wb_data_def)
qed

lemma wb_request_cong:
  "io_wr s' w = io_wr s w \<Longrightarrow> remote_page (io_gpa s' g) = remote_page (io_gpa s g) \<Longrightarrow> wb_request s' h g w = wb_request s h g w"
  by (simp add: wb_request_def)

lemma turn_requests:
  assumes r: "wb_requests gs ws s0 s" and pool: "pool_ok s0" and w: "w \<notin> wr_live (io_dev s)"
    and p: "posts TYPE_WB i v (remote_page (io_gpa s v)) w (hw_of ws) (io_dev (emp_lock_subblock v (emp_get_subblock v s))) d"
  shows "wb_requests (gs @ [v]) (ws @ [w]) s0 (turn v w d (hw_of ws) s)"
proof -
  let ?s = "turn v w d (hw_of ws) s"
  have wr: "wrs d w = posted_wr TYPE_WB i v (remote_page (io_gpa s v)) w (hw_of ws) (io_wr s w)"
    "\<And>w'. w' \<noteq> w \<Longrightarrow> wrs d w' = (if hw_of ws = Some w' then (io_wr s w')\<lparr>wr_refc := wr_refc (io_wr s w') + 1\<rparr> else io_wr s w')"
    using p by (simp_all add: posts_def io_wr_def emp_lock_subblock_def emp_get_subblock_def del: io_acc)
  have new: "w \<notin> set ws" "w \<notin> wr_live (io_dev s0)" and l2: "list_all2 (wb_request s (hd ws)) gs ws"
    using r w by (auto simp: wb_requests_def)
  then have raw: "subsibling (io_wr s w) = []" "remote_pages (io_wr s w) = []"
    using r pool by (auto simp: wb_requests_def pool_ok_def)
  have wr': "io_wr ?s w' = (if w' = w then wrs d w
      else if hw_of ws = Some w' then (io_wr s w')\<lparr>wr_refc := wr_refc (io_wr s w') + 1, subsibling := subsibling (io_wr s w') @ [w]\<rparr>
      else io_wr s w')" for w'
    using wr(2) new(1) by (auto simp: turn_def posted_def set_lp_w_def Let_def hw_of_def split: option.split)
  have rp: "remote_page (io_gpa ?s g) = remote_page (io_gpa s g)" for g
    by (simp add: turn_def posted_def set_lp_w_def Let_def split: option.split)
  have live: "wr_live (io_dev ?s) = insert w (wr_live (io_dev s))"
    using p by (simp add: posts_def turn_def posted_def set_lp_w_def Let_def split: option.split)
  have old: "list_all2 (wb_request ?s (hd (ws @ [w]))) gs ws"
  proof (rule list.rel_mono_strong [OF l2])
    fix g w' assume "w' \<in> set ws" and q: "wb_request s (hd ws) g w'"
    then have "w' \<noteq> w" "ws \<noteq> []" using new(1) by auto
    then show "wb_request ?s (hd (ws @ [w])) g w'"
      using q unfolding wb_request_def wr' rp by (simp add: hw_of_def)
  qed
  have "wb_request ?s (hd (ws @ [w])) v w"
    using raw unfolding wb_request_def wr' rp wr(1) by (cases "ws = []") (simp_all add: posted_wr_def hw_of_def)
  with old have l2': "list_all2 (wb_request ?s (hd (ws @ [w]))) (gs @ [v]) (ws @ [w])" by (simp add: list_all2_appendI)
  have hd: "wr_refc (io_wr ?s (hd (ws @ [w]))) = int (length (ws @ [w])) \<and> subsibling (io_wr ?s (hd (ws @ [w]))) = tl (ws @ [w])"
  proof (cases "ws = []")
    case True
    then show ?thesis using raw unfolding wr' wr(1) by (simp add: posted_wr_def hw_of_def)
  next
    case False
    moreover have "hd ws \<noteq> w" using False new(1) by auto
    ultimately show ?thesis using r unfolding wr' by (simp add: hw_of_def wb_requests_def)
  qed
  have "io_wr ?s w' = io_wr s0 w'" if "w' \<notin> set (ws @ [w])" for w'
    using that r unfolding wr' by (auto simp: hw_of_def wb_requests_def split: if_splits)
  then show ?thesis using l2' hd r new live by (auto simp: wb_requests_def)
qed

lemma io_lp_inj:
  assumes "io_ok ord P s" and "p \<in> P" "q \<in> P" and "local_page (io_gpa s p) \<noteq> None" "local_page (io_gpa s q) \<noteq> None"
    and "io_lp s p = io_lp s q"
  shows "p = q"
proof -
  have "lp_gpa (io_lps s (io_lp s g)) = g" if "g \<in> P" "local_page (io_gpa s g) \<noteq> None" for g
    using assms(1) that by (auto simp: io_ok_def local_ok_def io_lp_def)
  then show ?thesis using assms(2-6) by metis
qed

lemma mm_frame_trans:
  "a = b\<lparr>mm_gpas := mm_gpas a, mm_lps := mm_lps a\<rparr> \<Longrightarrow> b = c\<lparr>mm_gpas := mm_gpas b, mm_lps := mm_lps b\<rparr>
    \<Longrightarrow> a = c\<lparr>mm_gpas := mm_gpas a, mm_lps := mm_lps a\<rparr>" for a b c :: emp_mm
  by (cases a, cases b, cases c) simp

lemma turn_mm:
  assumes m: "wb_mm gs ws s0 s" and st: "stat s = stat s0"
    and v: "\<And>g. g \<in> set gs \<Longrightarrow> io_lp s0 g \<noteq> io_lp s0 v"
  shows "wb_mm (gs @ [v]) (ws @ [w]) s0 (turn v w d hw s)"
proof -
  let ?s = "turn v w d hw s"
  have lp: "io_lp s v = io_lp s0 v" using stat_gpa(4) [OF st] .
  have lps: "io_lps ?s l = (if l = io_lp s0 v then (io_lps s l)\<lparr>lp_w := Some w\<rparr> else io_lps s l)" for l
    using lp by (simp add: turn_def posted_def set_lp_w_def Let_def io_lp_def split: option.split)
  have gpa: "io_gpa ?s p = (if p = v then (io_gpa s p)\<lparr>last_mr_id := get_remote_page_mrid (io_cow s) (remote_page (io_gpa s v)), r_state := GPA_WB\<rparr> else io_gpa s p)" for p
    by (simp add: turn_def posted_def set_lp_w_def Let_def emp_lock_subblock_def emp_get_subblock_def split: option.split)
  have "io_mm ?s = (io_mm s)\<lparr>mm_gpas := mm_gpas (io_mm ?s), mm_lps := mm_lps (io_mm ?s)\<rparr>"
    by (simp add: turn_def posted_def set_lp_w_def Let_def upd_head_def upd_lp_def del: io_acc split: option.split)
  then have "io_mm ?s = (io_mm s0)\<lparr>mm_gpas := mm_gpas (io_mm ?s), mm_lps := mm_lps (io_mm ?s)\<rparr>"
    using mm_frame_trans m unfolding wb_mm_def by blast
  moreover have "map (\<lambda>g. lp_w (io_lps ?s (io_lp s0 g))) (gs @ [v]) = map Some (ws @ [w])"
  proof -
    have "map (\<lambda>g. lp_w (io_lps ?s (io_lp s0 g))) gs = map (\<lambda>g. lp_w (io_lps s (io_lp s0 g))) gs"
      using v unfolding lps by (intro map_cong refl) auto
    also have "\<dots> = map Some ws" using m by (simp add: wb_mm_def)
    finally have "map (\<lambda>g. lp_w (io_lps ?s (io_lp s0 g))) gs = map Some ws" .
    moreover have "lp_w (io_lps ?s (io_lp s0 v)) = Some w" by (simp add: lps)
    ultimately show ?thesis by simp
  qed
  moreover have "\<exists>w. io_lps ?s l = (io_lps s0 l)\<lparr>lp_w := w\<rparr>" for l
  proof -
    obtain x where "io_lps s l = (io_lps s0 l)\<lparr>lp_w := x\<rparr>" using m unfolding wb_mm_def by blast
    then show ?thesis unfolding lps by (cases "l = io_lp s0 v") auto
  qed
  ultimately show ?thesis
    using m unfolding wb_mm_def gpa by (auto simp: lps)
qed

definition wb_run :: "nat \<Rightarrow> gpa_ptr set \<Rightarrow> gpa_ptr list \<Rightarrow> nat list \<Rightarrow> emp_io \<Rightarrow> emp_io \<Rightarrow> bool" where
  "wb_run ord P gs ws s0 s \<longleftrightarrow> wb_data ord P gs s0 s \<and> wb_requests gs ws s0 s \<and> wb_mm gs ws s0 s"

text \<open>What a block needs to be written: its subblocks have a local page and a slot.\<close>

definition writable :: "gpa_ptr set \<Rightarrow> gpa_ptr list \<Rightarrow> emp_io \<Rightarrow> bool" where
  "writable P gs s \<longleftrightarrow> distinct gs \<and> set gs \<subseteq> P
     \<and> (\<forall>g \<in> set gs. local_page (io_gpa s g) \<noteq> None \<and> has_page (mm_gpas (io_mm s)) g)"

lemma evict_post_ok:
  assumes "writable P (gs @ vs) s0" and e: "env_ok ord e" "finite (wr_live (io_dev s0))" "pool_ok s0" and io: "io_ok ord P s0"
    and "wb_run ord P gs ws s0 s"
  shows "\<exists>ws' s'. evict_post e cpu (2 ^ ord) False vs (hw_of ws) s = Some (hw_of ws', None, s') \<and> wb_run ord P (gs @ vs) ws' s0 s'"
  using assms(1,6)
proof (induction vs arbitrary: gs ws s)
  case Nil
  then show ?case by auto
next
  case (Cons v vs)
  note run = Cons.prems(2) [unfolded wb_run_def]
  have st: "stat s = stat s0" using run by (simp add: wb_data_def)
  have v: "v \<in> P" "v \<notin> set gs" "has_page (mm_gpas (io_mm s0)) v" "local_page (io_gpa s0 v) \<noteq> None"
    using Cons.prems(1) by (auto simp: writable_def)
  have inj: "io_lp s0 g \<noteq> io_lp s0 v" if "g \<in> set gs" for g
    using io_lp_inj [OF io, of g v] that Cons.prems(1) v by (auto simp: writable_def)
  let ?s = "emp_lock_subblock v (emp_get_subblock v s)"
  from turn_goes [of ord P gs s0 s ws e v cpu] run e v obtain w d i k where
    w: "w \<notin> wr_live (io_dev s)" "at_slot ord s v i k"
      "post_writeback_async e v cpu (hw_of ws) (2 ^ ord) True ?s = Some (Some w, posted v w d ?s)"
      "posts TYPE_WB i v (remote_page (io_gpa s v)) w (hw_of ws) (io_dev ?s) d"
      "slot_written ord i k (pg_data (io_dev s0) (io_page s0 v)) ?s (posted v w d ?s)" by blast
  have "wb_run ord P (gs @ [v]) (ws @ [w]) s0 (turn v w d (hw_of ws) s)"
    using turn_data [of ord P gs s0 s v i k w d "hw_of ws"] turn_requests [of gs ws s0 s w i v d] turn_mm [of gs ws s0 s v w d "hw_of ws"]
      run v w st inj e(3) unfolding wb_run_def by blast
  from Cons.IH [OF _ this] Cons.prems(1) obtain ws' s' where
    r: "evict_post e cpu (2 ^ ord) False vs (hw_of (ws @ [w])) (turn v w d (hw_of ws) s) = Some (hw_of ws', None, s')"
      "wb_run ord P (gs @ v # vs) ws' s0 s'" by auto
  have "evict_post e cpu (2 ^ ord) False (v # vs) (hw_of ws) s
      = evict_post e cpu (2 ^ ord) False vs (hw_of (ws @ [w])) (turn v w d (hw_of ws) s)"
    using w(3) by (simp add: turn_def hw_of_def Let_def)
  then show ?case using r by auto
qed

lemma wb_run_refl: "io_ok ord P s \<Longrightarrow> wb_run ord P [] [] s s"
  by (simp add: wb_run_def wb_data_def wb_requests_def wb_mm_def) (metis local_page.surjective local_page.update_convs(12))

section \<open>A block\<close>

text \<open>The remote pages of a block allocated.\<close>

definition with_pages :: "emp_mrs \<Rightarrow> gpa_heap \<Rightarrow> emp_io \<Rightarrow> emp_io" where
  "with_pages m h s = s\<lparr>io_mrs := m, io_mm := (io_mm s)\<lparr>mm_gpas := h\<rparr>\<rparr>"

lemma with_pages_simps [simp]:
  "io_mrs (with_pages m h s) = m" "io_gpa (with_pages m h s) = h" "io_lps (with_pages m h s) = io_lps s"
  "io_dev (with_pages m h s) = io_dev s" "io_cfg (with_pages m h s) = io_cfg s" "io_cow (with_pages m h s) = io_cow s"
  "io_mm (with_pages m h s) = (io_mm s)\<lparr>mm_gpas := h\<rparr>" "io_wr (with_pages m h s) = io_wr s"
  by (auto simp: with_pages_def io_gpa_def io_lps_def io_wr_def fun_eq_iff simp del: io_acc)

lemma alloc_keeps:
  assumes io: "io_ok ord P s" and b: "block_gpas (mm_gpas (io_mm s)) head \<subseteq> P" "head \<in> P"
    and a: "alloc_pre (io_cfg s) (io_mrs s) (mm_gpas (io_mm s)) head"
      "alloc_remote_page (io_cfg s) (io_cow s) (io_mrs s) (mm_gpas (io_mm s)) head = Some (True, m, h)"
  shows "io_ok ord P (with_pages m h s)" and "\<And>p. local_page (io_gpa s p) \<noteq> None \<or> p \<notin> block_gpas (mm_gpas (io_mm s)) head \<Longrightarrow>
      contents ord (with_pages m h s) p = contents ord s p"
    and "\<And>p. p \<in> block_gpas (mm_gpas (io_mm s)) head \<Longrightarrow> has_page h p"
    and "\<And>p. \<exists>v. h p = (io_gpa s p)\<lparr>remote_page := v\<rparr>"
    and "\<And>p. p \<notin> block_gpas (mm_gpas (io_mm s)) head \<or> has_page (mm_gpas (io_mm s)) p \<Longrightarrow> h p = io_gpa s p"
proof -
  note ok = io [unfolded io_ok_def]
  have sb: "sb_order (mm_gpas (io_mm s) head) = ord" using ok b(2) by simp
  from alloc_remote_page_ok [OF _ _ b(1) sb a(1), of "io_cow s"] ok a(2)
  have al: "mrs_ok ord m" "pages_ok ord (memregs m) h P"
    "\<And>p. p \<notin> block_gpas (mm_gpas (io_mm s)) head \<or> has_page (mm_gpas (io_mm s)) p \<Longrightarrow> h p = mm_gpas (io_mm s) p"
    "\<And>p. p \<in> block_gpas (mm_gpas (io_mm s)) head \<Longrightarrow> has_page h p" by auto
  have rk: "run_keeps (block_gpas (mm_gpas (io_mm s)) head) (memregs (io_mrs s), mm_gpas (io_mm s)) (memregs m, h)"
    using alloc_remote_page_run [OF _ _ b(1) sb a(1,2)] ok by blast
  show rp: "\<exists>v. h p = (io_gpa s p)\<lparr>remote_page := v\<rparr>" for p using rk by (simp add: run_keeps_def)
  then have g: "local_page (h p) = local_page (io_gpa s p)" "sb_order (h p) = sb_order (io_gpa s p)" for p
    by (metis emp_gpa.select_convs(4,11) emp_gpa.surjective emp_gpa.update_convs(10))+
  have pg: "io_lp (with_pages m h s) = io_lp s" "io_page (with_pages m h s) = io_page s"
    using g by (simp_all add: fun_eq_iff io_page_lps io_lp_def)
  have "dev_ok ord (with_pages m h s)"
    using ctx_dev_ok [OF io_ok_dev [OF io], of "with_pages m h s"] rk by (simp add: run_keeps_def)
  then show "io_ok ord P (with_pages m h s)"
    using ok al(1,2) g by (simp add: io_ok_def local_ok_def pg)
  show "contents ord (with_pages m h s) p = contents ord s p"
    if "local_page (io_gpa s p) \<noteq> None \<or> p \<notin> block_gpas (mm_gpas (io_mm s)) head" for p
    using that g al(3) [of p] by (cases "local_page (io_gpa s p) = None") (simp_all add: contents_def pg dev_data_def)
  show "has_page h p" if "p \<in> block_gpas (mm_gpas (io_mm s)) head" for p using al(4) that .
  show "h p = io_gpa s p" if "p \<notin> block_gpas (mm_gpas (io_mm s)) head \<or> has_page (mm_gpas (io_mm s)) p" for p
    using al(3) [OF that] by simp
qed

lemma evict_dma_size_eq:
  assumes "cfg_subblock_order c = ord" "ord \<le> 5" "memregs_wdma_size m = 2 ^ ord" "ord \<le> block_order g"
  shows "evict_dma_size c m g = 2 ^ ord"
proof -
  have "(2::nat) ^ ord \<le> gpa_block_size g" using assms(4) by (simp add: gpa_block_size_def)
  moreover have "ord \<in> {0, 1, 2, 3, 4, 5}" using assms(2) by auto
  then have "unat (word_of_nat (2 ^ ord) :: u8) = 2 ^ ord" by auto
  ultimately show ?thesis using assms by (simp add: evict_dma_size_def Let_def)
qed

text \<open>A block that can be evicted: resident as a whole, nothing in flight, known to the allocator.\<close>

definition evictable :: "nat \<Rightarrow> gpa_ptr set \<Rightarrow> gpa_ptr \<Rightarrow> emp_io \<Rightarrow> bool" where
  "evictable ord P head s \<longleftrightarrow> block_gpas (mm_gpas (io_mm s)) head \<subseteq> P \<and> orders_ok (io_gpa s head)
     \<and> memregs_wdma_size (io_mrs s) = 2 ^ ord \<and> alloc_pre (io_cfg s) (io_mrs s) (mm_gpas (io_mm s)) head
     \<and> (\<forall>g \<in> block_gpas (mm_gpas (io_mm s)) head. local_page (io_gpa s g) \<noteq> None)
     \<and> lp_w (io_lps s (io_lp s head)) = None \<and> \<not> is_gpa_flags_set (io_gpa s head) GPA_PREFETCHED_MASK"

lemma set_for_each: "set (for_each_gpas h head) = block_gpas h head"
  by (auto simp: for_each_gpas_def block_gpas_def)

lemma head_in_block: "head \<in> block_gpas h head"
  by (simp add: block_gpas_def num_subblock_in_block_def)

lemma for_each_nonempty: "for_each_gpas h head \<noteq> []" "hd (for_each_gpas h head) = head"
  by (simp_all add: for_each_gpas_def num_subblock_in_block_def hd_upt)

text \<open>The last step of a posted block: it enters the inactive list of the cpu.\<close>

definition queue_block :: "int \<Rightarrow> gpa_ptr \<Rightarrow> nat \<Rightarrow> emp_io \<Rightarrow> emp_io" where
  "queue_block cpu head w s = push_writeback_request cpu w (upd_mm (upd_head (\<lambda>d. d\<lparr>r_state := GPA_WB\<rparr>) head) s)"

lemma evict_block_ok:
  assumes io: "io_ok ord P s" and ev: "evictable ord P head s" and e: "env_ok ord e" "pool_ok s"
    and a: "alloc_remote_page (io_cfg s) (io_cow s) (io_mrs s) (mm_gpas (io_mm s)) head = Some (True, m, h)"
  shows "\<exists>ws s'. evict_block e cpu head False s = Some (Inr (hd ws), queue_block cpu head (hd ws) s')
    \<and> ws \<noteq> [] \<and> wb_run ord P (for_each_gpas (mm_gpas (io_mm s)) head) ws (with_pages m h s) s'"
proof -
  let ?gs = "for_each_gpas (mm_gpas (io_mm s)) head" and ?s = "with_pages m h s"
  note ev' = ev [unfolded evictable_def]
  have hP: "head \<in> P" using ev' head_in_block by blast
  note al = alloc_keeps [OF io _ hP _ a]
  have b: "block_gpas (mm_gpas (io_mm s)) head \<subseteq> P" and pre: "alloc_pre (io_cfg s) (io_mrs s) (mm_gpas (io_mm s)) head"
    using ev' by blast+
  have dma: "evict_dma_size (io_cfg s) (io_mrs s) (io_gpa s head) = 2 ^ ord"
    using io ev' hP by (intro evict_dma_size_eq) (auto simp: io_ok_def orders_ok_def)
  have ready: "clear_block_w e cpu head s = Some s" using ev' by (simp add: clear_block_w_def io_gpa_def [symmetric] del: io_acc) (simp add: io_lps_def del: io_acc)
  obtain v where v: "h head = (io_gpa s head)\<lparr>remote_page := v\<rparr>" using al(4) [OF b pre] by blast
  then have gs: "for_each_gpas (mm_gpas (io_mm ?s)) head = ?gs" by (simp add: for_each_gpas_def num_subblock_in_block_def)
  have lp: "local_page (h g) = local_page (io_gpa s g)" for g
    using al(4) [OF b pre, of g] by (metis emp_gpa.select_convs(11) emp_gpa.surjective emp_gpa.update_convs(10))
  have w: "writable P ([] @ ?gs) ?s"
    using al(3) [OF b pre] ev' by (auto simp: writable_def set_for_each lp) (simp add: for_each_gpas_def)
  have pool: "finite (wr_live (io_dev ?s))" "pool_ok ?s" using e(2) by (simp_all add: pool_ok_def)
  from evict_post_ok [OF w e(1) pool al(1) [OF b pre] wb_run_refl [OF al(1) [OF b pre]], of cpu]
  obtain ws s' where r: "evict_post e cpu (2 ^ ord) False ?gs None ?s = Some (hw_of ws, None, s')" "wb_run ord P ?gs ws ?s s'"
    by (auto simp: hw_of_def)
  have "list_all2 (wb_request s' (hd ws)) ?gs ws" using r(2) by (simp add: wb_run_def wb_requests_def)
  then have ne: "ws \<noteq> []" using for_each_nonempty [of "mm_gpas (io_mm s)" head] by auto
  have "evict_block e cpu head False s = Some (Inr (hd ws), queue_block cpu head (hd ws) s')"
    using dma ready a r(1) ne gs
    by (simp add: evict_block_def Let_def with_pages_def [symmetric] hw_of_def queue_block_def)
  then show ?thesis using r(2) ne by blast
qed

lemma queue_block_simps [simp]:
  "dpart (queue_block cpu head w s) = dpart s" "wr_live (io_dev (queue_block cpu head w s)) = wr_live (io_dev s)"
  "io_wr (queue_block cpu head w s) w' = (if w' = w then (io_wr s w)
      \<lparr>wr_size := (if \<not> chained_ops (io_wr s w) then wr_refc (io_wr s w) else entangled_wr_len (io_wr s w))\<rparr> else io_wr s w')"
  "io_gpa (queue_block cpu head w s) p = (if p = head then (io_gpa s p)\<lparr>r_state := GPA_WB\<rparr> else io_gpa s p)"
proof -
  show "dpart (queue_block cpu head w s) = dpart s"
    by (simp add: queue_block_def push_writeback_request_def Let_def dpart_def stat_def put_page_lru_def fixed_part_def fun_eq_iff
        io_gpa_def io_lps_def upd_slru_def upd_lp_def upd_head_def upd_gpa_def set_local_page_cpu_list_def set_local_page_list_flags_def
        del: io_acc)
  show "io_gpa (queue_block cpu head w s) p = (if p = head then (io_gpa s p)\<lparr>r_state := GPA_WB\<rparr> else io_gpa s p)"
    by (simp add: queue_block_def push_writeback_request_def Let_def put_page_lru_def io_gpa_def upd_slru_def upd_lp_def
        upd_head_def upd_gpa_def del: io_acc)
qed (simp_all add: queue_block_def push_writeback_request_def Let_def)

section \<open>Completion\<close>

lemma ctx_part_wr_len [simp]: "ctx_part (c\<lparr>ctx_wr_len := n\<rparr>) = ctx_part c"
  by (simp add: ctx_part_def)

lemma wait_write_dpart [simp]: "dpart (upd_dev (\<lambda>d. snd (wait_write w d)) s) = dpart s"
  by (auto simp: dpart_def stat_def wait_write_def fun_eq_iff option.map_comp comp_def)

lemma wait_write_simps [simp]:
  "wrs (snd (wait_write w d)) = wrs d" "wr_live (snd (wait_write w d)) = wr_live d"
  by (simp_all add: wait_write_def)

text \<open>Only the device differs, and in nothing that carries data.\<close>

definition dev_step :: "emp_io \<Rightarrow> emp_io \<Rightarrow> bool" where
  "dev_step s t \<longleftrightarrow> t = s\<lparr>io_dev := io_dev t\<rparr> \<and> dpart t = dpart s"

lemma dev_step_refl: "dev_step s s" by (simp add: dev_step_def)

lemma dev_step_trans: "dev_step s t \<Longrightarrow> dev_step t u \<Longrightarrow> dev_step s u"
  unfolding dev_step_def by (metis emp_io.update_convs(7) emp_io.surjective emp_io.ext_inject)

lemma dev_step_upd: "dpart (upd_dev f s) = dpart s \<Longrightarrow> dev_step s (upd_dev f s)"
  by (simp add: dev_step_def upd_dev_def)

lemma dev_step_same: "dev_step s t \<Longrightarrow> io_mm t = io_mm s \<and> io_gpa t = io_gpa s \<and> io_lps t = io_lps s \<and> io_mrs t = io_mrs s
    \<and> io_cfg t = io_cfg s \<and> io_cow t = io_cow s \<and> io_ftm t = io_ftm s \<and> io_pages t = io_pages s"
  unfolding dev_step_def by (metis emp_io.select_convs emp_io.surjective emp_io.update_convs(7) io_gpa_simps(5) io_lps_simps(5))

text \<open>A request other than the head, not the last: it is set aside and counted down.\<close>

lemma clear_one:
  assumes "head_wr (io_wr s r) = h" "r \<noteq> h" "\<not> chained_ops (io_wr s r)" "wr_refc (io_wr s h) \<noteq> 1"
  shows "\<exists>t. clear_writeback_work_request e cpu dr r s = Some (0, t) \<and> dev_step s t \<and> wr_live (io_dev t) = wr_live (io_dev s)
    \<and> io_wr t h = (io_wr s h)\<lparr>wr_refc := wr_refc (io_wr s h) - 1, remote_pages := remote_pages (io_wr s h) @ [r]\<rparr>
    \<and> (\<forall>w. w \<noteq> h \<longrightarrow> io_wr t w = io_wr s w)"
proof -
  let ?t = "upd_dev (upd_wr h (\<lambda>x. x\<lparr>wr_refc := wr_refc x - 1\<rparr>)) (upd_dev (upd_wr h (\<lambda>x. x\<lparr>remote_pages := remote_pages x @ [r]\<rparr>))
      (upd_dev (\<lambda>d. snd (wait_write r d)) s))"
  have "clear_writeback_work_request e cpu dr r s = Some (0, ?t)"
    using assms by (simp add: clear_writeback_work_request_def Let_def)
  moreover have "dpart ?t = dpart s" by simp
  then have "dev_step s ?t" by (simp add: dev_step_def) (simp add: upd_dev_def)
  ultimately show ?thesis by (intro exI [of _ ?t]) simp
qed

lemma clear_siblings_ok:
  assumes "\<And>r. r \<in> set rs \<Longrightarrow> head_wr (io_wr s r) = h \<and> r \<noteq> h \<and> \<not> chained_ops (io_wr s r)"
    and "wr_refc (io_wr s h) = int (length rs) + 1" and "subsibling (io_wr s h) = rs"
  shows "\<exists>t. clear_siblings e cpu dr h rs acc s = Some (acc, t) \<and> dev_step s t \<and> wr_live (io_dev t) = wr_live (io_dev s)
    \<and> io_wr t h = (io_wr s h)\<lparr>wr_refc := 1, subsibling := [], remote_pages := remote_pages (io_wr s h) @ rs\<rparr>
    \<and> (\<forall>w. w \<noteq> h \<longrightarrow> io_wr t w = io_wr s w)"
  using assms
proof (induction rs arbitrary: s)
  case Nil
  have "io_wr s h = (io_wr s h)\<lparr>wr_refc := 1, subsibling := []\<rparr>" using Nil.prems(2,3) by (cases "io_wr s h") simp
  then show ?case using dev_step_refl by auto
next
  case (Cons r rs)
  let ?s = "upd_dev (upd_wr h (\<lambda>x. x\<lparr>subsibling := rs\<rparr>)) s"
  have r: "head_wr (io_wr ?s r) = h" "r \<noteq> h" "\<not> chained_ops (io_wr ?s r)" "wr_refc (io_wr ?s h) \<noteq> 1"
    using Cons.prems by simp_all
  obtain t where t: "clear_writeback_work_request e cpu dr r ?s = Some (0, t)" "dev_step ?s t" "wr_live (io_dev t) = wr_live (io_dev ?s)"
    "io_wr t h = (io_wr ?s h)\<lparr>wr_refc := wr_refc (io_wr ?s h) - 1, remote_pages := remote_pages (io_wr ?s h) @ [r]\<rparr>"
    "\<forall>w. w \<noteq> h \<longrightarrow> io_wr t w = io_wr ?s w"
    using clear_one [OF r, of e cpu dr] by blast
  have "\<exists>u. clear_siblings e cpu dr h rs acc t = Some (acc, u) \<and> dev_step t u \<and> wr_live (io_dev u) = wr_live (io_dev t)
    \<and> io_wr u h = (io_wr t h)\<lparr>wr_refc := 1, subsibling := [], remote_pages := remote_pages (io_wr t h) @ rs\<rparr>
    \<and> (\<forall>w. w \<noteq> h \<longrightarrow> io_wr u w = io_wr t w)"
    using Cons.prems t by (intro Cons.IH) auto
  then obtain u where u: "clear_siblings e cpu dr h rs acc t = Some (acc, u)" "dev_step t u" "wr_live (io_dev u) = wr_live (io_dev t)"
    "io_wr u h = (io_wr t h)\<lparr>wr_refc := 1, subsibling := [], remote_pages := remote_pages (io_wr t h) @ rs\<rparr>"
    "\<forall>w. w \<noteq> h \<longrightarrow> io_wr u w = io_wr t w" by blast
  have "dev_step s u" using dev_step_trans [OF dev_step_trans [OF dev_step_upd t(2)] u(2)] by simp
  moreover have "clear_siblings e cpu dr h (r # rs) acc s = Some (acc, u)" using t(1) u(1) by simp
  ultimately show ?case using t(3-5) u(3-5) by (intro exI [of _ u]) simp
qed

text \<open>The descriptor of a subblock that has been written out.\<close>

definition remote_desc :: "emp_gpa \<Rightarrow> emp_gpa" where
  "remote_desc d = snd (set_gpa_flags_if_unset
     ((snd (clear_gpa_flags_if_set (d\<lparr>local_page := None\<rparr>) GPA_CLEANUP_MASK))\<lparr>r_state := GPA_INIT\<rparr>) GPA_REMOTE_MASK)"

lemma clear_member_gpa [simp]:
  "io_gpa (clear_member e cpu True g s) p = (if p = g then remote_desc (io_gpa s p) else io_gpa s p)"
  by (simp add: clear_member_def set_gpa_remote_def free_gpa_def cleanup_gpa_def Let_def remote_desc_def push_page_def
      split: option.split)

lemma wrs_io: "wrs (io_dev s) = io_wr s"
  by (simp add: fun_eq_iff)

lemma clear_member_rest [simp]:
  "io_lps (clear_member e cpu True g s) = io_lps s" "io_wr (clear_member e cpu True g s) = io_wr s"
  "wr_live (io_dev (clear_member e cpu True g s)) = wr_live (io_dev s)"
  "pg_data (io_dev (clear_member e cpu True g s)) = pg_data (io_dev s)"
  "contexts (io_dev (clear_member e cpu True g s)) = contexts (io_dev s)"
  "mr_closing (io_dev (clear_member e cpu True g s)) = mr_closing (io_dev s)"
  "io_mrs (clear_member e cpu True g s) = io_mrs s" "io_cfg (clear_member e cpu True g s) = io_cfg s"
  "io_cow (clear_member e cpu True g s) = io_cow s"
  "slru_page_len (io_mm (clear_member e cpu True g s)) = slru_page_len (io_mm s)"
  by (simp_all add: clear_member_def set_gpa_remote_def free_gpa_def cleanup_gpa_def Let_def push_page_def
      emp_unlock_subblock_def emp_put_subblock_def upd_head_def wrs_io split: option.split)

lemma clear_members:
  assumes "distinct xs"
  shows "io_gpa (foldl (\<lambda>s g. clear_member e cpu True g s) s xs) p = (if p \<in> set xs then remote_desc (io_gpa s p) else io_gpa s p)"
    and "io_lps (foldl (\<lambda>s g. clear_member e cpu True g s) s xs) = io_lps s"
    and "io_wr (foldl (\<lambda>s g. clear_member e cpu True g s) s xs) = io_wr s"
    and "wr_live (io_dev (foldl (\<lambda>s g. clear_member e cpu True g s) s xs)) = wr_live (io_dev s)"
    and "pg_data (io_dev (foldl (\<lambda>s g. clear_member e cpu True g s) s xs)) = pg_data (io_dev s)"
    and "contexts (io_dev (foldl (\<lambda>s g. clear_member e cpu True g s) s xs)) = contexts (io_dev s)"
    and "mr_closing (io_dev (foldl (\<lambda>s g. clear_member e cpu True g s) s xs)) = mr_closing (io_dev s)"
    and "io_mrs (foldl (\<lambda>s g. clear_member e cpu True g s) s xs) = io_mrs s"
    and "io_cfg (foldl (\<lambda>s g. clear_member e cpu True g s) s xs) = io_cfg s"
    and "io_cow (foldl (\<lambda>s g. clear_member e cpu True g s) s xs) = io_cow s"
    and "slru_page_len (io_mm (foldl (\<lambda>s g. clear_member e cpu True g s) s xs)) = slru_page_len (io_mm s)"
  using assms by (induction xs arbitrary: s) auto

text \<open>The requests are given back.\<close>

definition freeable :: "emp_io \<Rightarrow> nat \<Rightarrow> bool" where
  "freeable s w \<longleftrightarrow> \<not> is_remote_page_freed (wr_rp (io_wr s w))
     \<and> memregs (io_mrs s) ! unat (raw_remote_page_mrid (wr_rp (io_wr s w))) \<noteq> None"

lemma free_work_request_dpart [simp]: "dpart (upd_dev (free_work_request w) s) = dpart s"
  by (simp add: dpart_def stat_def free_work_request_def Let_def fun_eq_iff)

lemma free_work_request_simps [simp]:
  "wrs (free_work_request w d) = wrs d" "wr_live (free_work_request w d) = wr_live d - {w}"
  by (simp_all add: free_work_request_def Let_def)

lemma free_delayed_ok:
  assumes "\<And>r. r \<in> set rs \<Longrightarrow> freeable s r" and "w \<notin> set rs"
  shows "\<exists>t. free_delayed w rs s = Some t \<and> dev_step s t \<and> wr_live (io_dev t) = wr_live (io_dev s) - set rs
    \<and> io_wr t w = (io_wr s w)\<lparr>remote_pages := if rs = [] then remote_pages (io_wr s w) else []\<rparr> \<and> (\<forall>w'. w' \<noteq> w \<longrightarrow> io_wr t w' = io_wr s w')"
  using assms
proof (induction rs arbitrary: s)
  case Nil
  then show ?case using dev_step_refl by auto
next
  case (Cons r rs)
  let ?s = "upd_dev (upd_wr w (\<lambda>h. h\<lparr>remote_pages := rs\<rparr>)) s" and ?t = "upd_dev (free_work_request r) (upd_dev (upd_wr w (\<lambda>h. h\<lparr>remote_pages := rs\<rparr>)) s)"
  have "freeable s r" using Cons.prems by simp
  then have r: "free_wr_page r ?s = Some ?s" "free_wr r ?s = Some ?t"
    using Cons.prems by (auto simp: freeable_def free_wr_page_def free_wr_def)
  have "freeable ?t x = freeable s x" if "x \<in> set rs" for x
    using that Cons.prems by (auto simp: freeable_def)
  with Cons.IH [of ?t] Cons.prems obtain u where u: "free_delayed w rs ?t = Some u" "dev_step ?t u"
    "wr_live (io_dev u) = wr_live (io_dev ?t) - set rs"
    "io_wr u w = (io_wr ?t w)\<lparr>remote_pages := if rs = [] then remote_pages (io_wr ?t w) else []\<rparr>"
    "\<forall>w'. w' \<noteq> w \<longrightarrow> io_wr u w' = io_wr ?t w'" by auto
  have "free_delayed w (r # rs) s = Some u" using r u(1) by simp
  moreover have "dev_step s u" using dev_step_trans [OF dev_step_upd dev_step_trans [OF dev_step_upd u(2)]] by simp
  ultimately show ?case using u(3-5) by (intro exI [of _ u]) auto
qed

text \<open>A write-back in flight: all subblocks of a block are posted and the donors hold what they contain.\<close>

definition in_flight :: "nat \<Rightarrow> gpa_ptr set \<Rightarrow> gpa_ptr list \<Rightarrow> nat list \<Rightarrow> emp_io \<Rightarrow> bool" where
  "in_flight ord P gs ws s \<longleftrightarrow> io_ok ord P s \<and> gs \<noteq> [] \<and> distinct gs \<and> set gs \<subseteq> P
     \<and> distinct ws \<and> list_all2 (wb_request s (hd ws)) gs ws
     \<and> wr_refc (io_wr s (hd ws)) = int (length ws) \<and> subsibling (io_wr s (hd ws)) = tl ws
     \<and> (\<forall>g \<in> set gs. has_page (mm_gpas (io_mm s)) g \<and> dev_data ord s g = contents ord s g)"

lemma in_flight_freeable:
  assumes "in_flight ord P gs ws s" and "w \<in> set ws"
  shows "freeable s w"
proof -
  note f = assms(1) [unfolded in_flight_def]
  obtain j where j: "j < length ws" "w = ws ! j" using assms(2) by (metis in_set_conv_nth)
  then have g: "gs ! j \<in> set gs" "wb_request s (hd ws) (gs ! j) w"
    using f by (auto simp: list_all2_conv_all_nth)
  from at_slotI [of ord P s "gs ! j"] f g(1) obtain i k where a: "at_slot ord s (gs ! j) i k" by blast
  then show ?thesis
    using g(2) at_slot_addr [of i k ord] by (auto simp: freeable_def wb_request_def at_slot_def)
qed

lemma remote_desc_simps [simp]:
  "local_page (remote_desc d) = None" "remote_page (remote_desc d) = remote_page d" "sb_order (remote_desc d) = sb_order d"
  "block_order (remote_desc d) = block_order d" "desc_order (remote_desc d) = desc_order d" "r_state (remote_desc d) = GPA_INIT"
  by (simp_all add: remote_desc_def set_gpa_flags_if_unset_def clear_gpa_flags_if_set_def Let_def)

text \<open>Dropping the local pages of \<open>A\<close>.\<close>

lemma drop_local:
  assumes io: "io_ok ord P s" and g: "\<And>p. io_gpa t p = (if p \<in> A then remote_desc (io_gpa s p) else io_gpa s p)"
    and same: "io_lps t = io_lps s" "pg_data (io_dev t) = pg_data (io_dev s)"
      "\<And>i. map_option ctx_part (contexts (io_dev t) i) = map_option ctx_part (contexts (io_dev s) i)"
      "mr_closing (io_dev t) = mr_closing (io_dev s)" "io_mrs t = io_mrs s" "io_cfg t = io_cfg s"
    and A: "\<And>p. p \<in> A \<Longrightarrow> has_page (mm_gpas (io_mm s)) p \<and> dev_data ord s p = contents ord s p"
  shows "io_ok ord P t" and "contents ord t p = contents ord s p"
proof -
  have rp: "remote_page (io_gpa t p) = remote_page (io_gpa s p)" "sb_order (io_gpa t p) = sb_order (io_gpa s p)" for p
    using g by simp_all
  have lp: "local_page (io_gpa t p) = (if p \<in> A then None else local_page (io_gpa s p))" for p using g by simp
  have pg: "io_page t p = io_page s p" if "p \<notin> A" for p using that same(1) lp by (simp add: io_page_lps io_lp_def)
  have "pages_ok ord (memregs (io_mrs s)) (mm_gpas (io_mm t)) P"
    using io by (subst pages_ok_cong [of P _ "mm_gpas (io_mm s)"]) (simp_all add: io_ok_def rp)
  moreover have "dev_ok ord t" using ctx_dev_ok [OF io_ok_dev [OF io] same(3,4)] same(5) by simp
  moreover have "local_ok ord P t"
  proof -
    define X where "X = {p \<in> P. local_page (io_gpa t p) \<noteq> None}"
    have "inj_on (io_page s) X"
      using io lp by (auto simp: io_ok_def local_ok_def X_def elim!: inj_on_subset)
    moreover have "inj_on (io_page t) X = inj_on (io_page s) X"
      using pg lp by (intro inj_on_cong) (auto simp: X_def split: if_splits)
    ultimately have "inj_on (io_page t) X" by simp
    then show ?thesis using io lp same(1,2) unfolding X_def by (simp add: io_ok_def local_ok_def)
  qed
  ultimately show "io_ok ord P t" using io rp same(5,6) by (simp add: io_ok_def)
  have "dev_data ord t p = dev_data ord s p" by (rule ctx_dev_data [OF rp(1) same(3)])
  then show "contents ord t p = contents ord s p"
    using A [of p] lp [of p] pg [of p] rp(1) [of p] same(2) by (cases "p \<in> A") (simp_all add: contents_def)
qed

lemma clear_head_ok:
  assumes w: "head_wr (io_wr s w) = w" "wr_refc (io_wr s w) = 1" "w \<notin> set (remote_pages (io_wr s w))"
    and fr: "\<And>r. r \<in> insert w (set (remote_pages (io_wr s w))) \<Longrightarrow> freeable s r"
    and h: "emp_get_block_head (mm_gpas (io_mm s)) (wr_gpa (io_wr s w)) = head"
  shows "\<exists>t. clear_writeback_work_request e cpu True w s = Some (int (gpa_block_size (io_gpa s head)), t)
    \<and> (\<forall>p. io_gpa t p = (if p \<in> set (for_each_gpas (mm_gpas (io_mm s)) head) then remote_desc (io_gpa s p) else io_gpa s p))
    \<and> io_lps t = io_lps s \<and> pg_data (io_dev t) = pg_data (io_dev s)
    \<and> (\<forall>i. map_option ctx_part (contexts (io_dev t) i) = map_option ctx_part (contexts (io_dev s) i))
    \<and> mr_closing (io_dev t) = mr_closing (io_dev s) \<and> io_mrs t = io_mrs s \<and> io_cfg t = io_cfg s
    \<and> wr_live (io_dev t) = wr_live (io_dev s) - insert w (set (remote_pages (io_wr s w)))
    \<and> remote_pages (io_wr t w) = [] \<and> subsibling (io_wr t w) = subsibling (io_wr s w)
    \<and> (\<forall>w'. w' \<noteq> w \<longrightarrow> io_wr t w' = io_wr s w')
    \<and> slru_page_len (io_mm t) = (slru_page_len (io_mm s))(INACTIVE_LIST := slru_page_len (io_mm s) INACTIVE_LIST
        - int (gpa_block_size (io_gpa s head)))"
proof -
  let ?gs = "for_each_gpas (mm_gpas (io_mm s)) head" and ?n = "int (gpa_block_size (io_gpa s head))"
  let ?s1 = "upd_dev (upd_wr w (\<lambda>x. x\<lparr>wr_refc := wr_refc x - 1\<rparr>)) (upd_dev (\<lambda>d. snd (wait_write w d)) s)"
  define s2 where "s2 = foldl (\<lambda>s g. clear_member e cpu True g s) ?s1 (rev ?gs)"
  define s3 where "s3 = upd_mm (sub_inactive_list_page_len head) s2"
  have dg: "distinct (rev ?gs)" by (simp add: for_each_gpas_def)
  note m = clear_members [OF dg, where s = ?s1 and e = e and cpu = cpu, folded s2_def]
  have dp: "map_option ctx_part (contexts (io_dev ?s1) i) = map_option ctx_part (contexts (io_dev s) i)"
    "stat ?s1 = stat s" for i
    using dpartD [of ?s1 s] by simp_all
  have s3: "io_gpa s3 p = (if p \<in> set ?gs then remote_desc (io_gpa s p) else io_gpa s p)"
    "io_lps s3 = io_lps s" "pg_data (io_dev s3) = pg_data (io_dev s)"
    "map_option ctx_part (contexts (io_dev s3) i) = map_option ctx_part (contexts (io_dev s) i)"
    "mr_closing (io_dev s3) = mr_closing (io_dev s)" "io_mrs s3 = io_mrs s" "io_cfg s3 = io_cfg s"
    "wr_live (io_dev s3) = wr_live (io_dev s)"
    "io_wr s3 w' = (if w' = w then (io_wr s w)\<lparr>wr_refc := wr_refc (io_wr s w) - 1\<rparr> else io_wr s w')" for p i w'
    using m dp statD(4,5) [OF dp(2)]
    by (simp_all add: s3_def io_gpa_def [of "upd_mm _ _"] io_lps_def [of "upd_mm _ _"] fun_eq_iff
        sub_inactive_list_page_len_def add_page_len_def)
  have len3: "slru_page_len (io_mm s3) = (slru_page_len (io_mm s))(INACTIVE_LIST := slru_page_len (io_mm s) INACTIVE_LIST - ?n)"
    using m(1) [of head] m(11) by (simp add: s3_def sub_inactive_list_page_len_def add_page_len_def gpa_block_size_def)
  have fr3: "freeable s3 r" if "r \<in> insert w (set (remote_pages (io_wr s w)))" for r
    using fr [OF that] by (cases "r = w") (simp_all add: freeable_def s3)
  from free_delayed_ok [of "remote_pages (io_wr s w)" s3 w] w(3) fr3 obtain u where
    u: "free_delayed w (remote_pages (io_wr s w)) s3 = Some u" "dev_step s3 u"
      "wr_live (io_dev u) = wr_live (io_dev s3) - set (remote_pages (io_wr s w))"
      "remote_pages (io_wr u w) = []" "wr_rp (io_wr u w) = wr_rp (io_wr s3 w)" "subsibling (io_wr u w) = subsibling (io_wr s w)"
      "\<forall>w'. w' \<noteq> w \<longrightarrow> io_wr u w' = io_wr s3 w'" by (auto simp: s3(9))
  let ?t = "upd_dev (free_work_request w) u"
  note us = dev_step_same [OF u(2)]
  have ud: "dpart ?t = dpart s3" using u(2) by (simp add: dev_step_def)
  have "free_wr_page w u = Some u" "free_wr w u = Some ?t"
    using fr3 [of w] u(5) us by (auto simp: freeable_def free_wr_page_def free_wr_def)
  then have fw: "free_work_requests w s3 = Some ?t" using u(1) s3(9) [of w] by (simp add: free_work_requests_def)
  have bs: "int (gpa_block_size (io_gpa u head)) = ?n" using us by (simp add: gpa_block_size_def s3(1))
  have "clear_writeback_work_request e cpu True w s = Some (?n, ?t)"
    using w h fw bs by (simp add: clear_writeback_work_request_def Let_def s2_def [symmetric] s3_def [symmetric])
  moreover have "X - A - {w} = X - insert w A" for X A :: "nat set" by blast
  ultimately show ?thesis
    using us u(3,4,6,7) s3 len3 dpartD(2) [OF ud] statD(4,5) [OF dpartD(1) [OF ud]] by (intro exI [of _ ?t]) simp
qed

lemma complete_ok:
  assumes f: "in_flight ord P (for_each_gpas (mm_gpas (io_mm s)) head) ws s"
    and h: "emp_get_block_head (mm_gpas (io_mm s)) head = head"
  shows "\<exists>t. clear_writeback_block2 e cpu True (hd ws) s = Some (int (gpa_block_size (io_gpa s head)), t)
    \<and> io_ok ord P t \<and> (\<forall>p. contents ord t p = contents ord s p)
    \<and> (\<forall>p. io_gpa t p = (if p \<in> block_gpas (mm_gpas (io_mm s)) head then remote_desc (io_gpa s p) else io_gpa s p))
    \<and> io_lps t = io_lps s \<and> pg_data (io_dev t) = pg_data (io_dev s)
    \<and> wr_live (io_dev t) = wr_live (io_dev s) - set ws
    \<and> (\<forall>w \<in> set ws. subsibling (io_wr t w) = [] \<and> remote_pages (io_wr t w) = []) \<and> (\<forall>w. w \<notin> set ws \<longrightarrow> io_wr t w = io_wr s w)
    \<and> slru_page_len (io_mm t) = (slru_page_len (io_mm s))(INACTIVE_LIST := slru_page_len (io_mm s) INACTIVE_LIST
        - int (gpa_block_size (io_gpa s head)))"
proof -
  let ?gs = "for_each_gpas (mm_gpas (io_mm s)) head" and ?h = "hd ws"
  note F = f [unfolded in_flight_def]
  have len: "length ws = length ?gs" and ne: "ws \<noteq> []" using F by (auto dest: list_all2_lengthD)
  obtain ts where ts: "ws = ?h # ts" using ne by (metis list.collapse)
  have req: "wb_request s ?h (?gs ! j) (ws ! j)" if "j < length ws" for j using F that len by (simp add: list_all2_conv_all_nth)
  have head: "wb_request s ?h head ?h" using req [of 0] ne for_each_nonempty by (simp add: hd_conv_nth)
  have tl: "head_wr (io_wr s r) = ?h \<and> r \<noteq> ?h \<and> \<not> chained_ops (io_wr s r)" if r: "r \<in> set ts" for r
  proof -
    have "distinct ws" using F by blast
    then have "r \<noteq> ?h" using r ts by (metis distinct.simps(2))
    moreover obtain j where "j < length ws" "ws ! j = r" using r ts by (metis in_set_conv_nth list.set_intros(2))
    ultimately show ?thesis using req [of j] by (simp add: wb_request_def)
  qed
  have "wr_refc (io_wr s ?h) = int (length ts) + 1" "subsibling (io_wr s ?h) = ts"
    using F ts by (metis length_Cons of_nat_Suc add.commute, metis list.sel(3))
  from clear_siblings_ok [of ts s ?h, OF tl this, of e cpu True 0] obtain u where
    u: "clear_siblings e cpu True ?h ts 0 s = Some (0, u)" "dev_step s u" "wr_live (io_dev u) = wr_live (io_dev s)"
      "io_wr u ?h = (io_wr s ?h)\<lparr>wr_refc := 1, subsibling := [], remote_pages := remote_pages (io_wr s ?h) @ ts\<rparr>"
      "\<forall>w. w \<noteq> ?h \<longrightarrow> io_wr u w = io_wr s w" by blast
  note us = dev_step_same [OF u(2)]
  have du: "dpart u = dpart s" using u(2) by (simp add: dev_step_def)
  have rp: "remote_pages (io_wr u ?h) = ts" using u(4) head by (simp add: wb_request_def)
  have "head_wr (io_wr u ?h) = ?h" "wr_refc (io_wr u ?h) = 1" "?h \<notin> set (remote_pages (io_wr u ?h))"
    "emp_get_block_head (mm_gpas (io_mm u)) (wr_gpa (io_wr u ?h)) = head"
    using u(4) head h us tl rp by (auto simp: wb_request_def)
  moreover have "freeable u r" if "r \<in> insert ?h (set (remote_pages (io_wr u ?h)))" for r
  proof -
    have "r \<in> set ws" using that rp ts by (metis list.set(2))
    from in_flight_freeable [OF f this] show ?thesis using u(4,5) us by (cases "r = ?h") (simp_all add: freeable_def)
  qed
  ultimately obtain t where
    t: "clear_writeback_work_request e cpu True ?h u = Some (int (gpa_block_size (io_gpa u head)), t)"
      "\<And>p. io_gpa t p = (if p \<in> set (for_each_gpas (mm_gpas (io_mm u)) head) then remote_desc (io_gpa u p) else io_gpa u p)"
      "io_lps t = io_lps u" "pg_data (io_dev t) = pg_data (io_dev u)"
      "\<And>i. map_option ctx_part (contexts (io_dev t) i) = map_option ctx_part (contexts (io_dev u) i)"
      "mr_closing (io_dev t) = mr_closing (io_dev u)" "io_mrs t = io_mrs u" "io_cfg t = io_cfg u"
      "wr_live (io_dev t) = wr_live (io_dev u) - insert ?h (set (remote_pages (io_wr u ?h)))"
      "remote_pages (io_wr t ?h) = []" "subsibling (io_wr t ?h) = subsibling (io_wr u ?h)" "\<And>w'. w' \<noteq> ?h \<Longrightarrow> io_wr t w' = io_wr u w'"
      "slru_page_len (io_mm t) = (slru_page_len (io_mm u))(INACTIVE_LIST := slru_page_len (io_mm u) INACTIVE_LIST
        - int (gpa_block_size (io_gpa u head)))"
    using clear_head_ok [of u ?h head e cpu] by auto
  have A: "has_page (mm_gpas (io_mm u)) p \<and> dev_data ord u p = contents ord u p" if "p \<in> set (for_each_gpas (mm_gpas (io_mm u)) head)" for p
    using F that us dpart_dev_data [OF du] dpart_contents [OF du] by simp
  have io: "io_ok ord P u" using dpart_io_ok [OF du] F by blast
  note dl = drop_local [OF io t(2-8) A]
  have n: "int (gpa_block_size (io_gpa s head)) > 0" by (simp add: gpa_block_size_def)
  have "clear_writeback_block2 e cpu True ?h s = Some (int (gpa_block_size (io_gpa s head)), t)"
    using u(1) t(1) us n \<open>subsibling (io_wr s ?h) = ts\<close> by (simp add: clear_writeback_block2_def)
  moreover have "\<forall>w \<in> set ws. subsibling (io_wr t w) = [] \<and> remote_pages (io_wr t w) = []"
  proof
    fix w assume w: "w \<in> set ws"
    show "subsibling (io_wr t w) = [] \<and> remote_pages (io_wr t w) = []"
    proof (cases "w = ?h")
      case False
      obtain j where "j < length ws" "ws ! j = w" using w by (metis in_set_conv_nth)
      then show ?thesis using False req [of j] t(12) u(5) by (simp add: wb_request_def)
    qed (use t(10,11) u(4) in simp)
  qed
  moreover have "wr_live (io_dev t) = wr_live (io_dev s) - set ws" using t(9) rp ts u(3) by (metis list.set(2))
  moreover have "io_wr t w = io_wr s w" if "w \<notin> set ws" for w using that t(12) u(5) ne by (metis list.set_sel(1))
  moreover have "pg_data (io_dev t) = pg_data (io_dev s)" using t(4) statD(4) [OF dpartD(1) [OF du]] by simp
  ultimately show ?thesis
    using dl dpart_contents [OF du] t(2,3,13) us by (intro exI [of _ t]) (simp add: set_for_each)
qed

section \<open>Out and gone\<close>

lemma wb_data_contents:
  assumes d: "wb_data ord P gs s0 s" and p: "p \<in> P" and l: "\<And>g. g \<in> set gs \<Longrightarrow> local_page (io_gpa s0 g) \<noteq> None"
  shows "contents ord s p = contents ord s0 p"
proof -
  have st: "stat s = stat s0" using d by (simp add: wb_data_def)
  show ?thesis
  proof (cases "local_page (io_gpa s0 p) = None \<and> has_page (mm_gpas (io_mm s0)) p")
    case True
    then have "p \<notin> set gs" using l by blast
    then have "dev_data ord s p = dev_data ord s0 p" using d p True by (auto simp: wb_data_def)
    then show ?thesis using True by (simp add: contents_def stat_gpa [OF st])
  next
    case False
    then show ?thesis by (auto simp: contents_def stat_gpa [OF st] statD(4) [OF st])
  qed
qed

lemma queue_block_len [simp]: "slru_page_len (io_mm (queue_block cpu head w s)) = slru_page_len (io_mm s)"
  by (simp add: queue_block_def push_writeback_request_def Let_def put_page_lru_def upd_slru_def upd_lp_def upd_head_def)

lemma evict_in_flight:
  assumes io: "io_ok ord P s" and ev: "evictable ord P head s" and e: "env_ok ord e" "pool_ok s"
    and a: "alloc_remote_page (io_cfg s) (io_cow s) (io_mrs s) (mm_gpas (io_mm s)) head = Some (True, m, h)"
  shows "\<exists>ws t. evict_block e cpu head False s = Some (Inr (hd ws), t)
    \<and> in_flight ord P (for_each_gpas (mm_gpas (io_mm s)) head) ws t
    \<and> (\<forall>p \<in> P. contents ord t p = contents ord s p)
    \<and> set ws \<inter> wr_live (io_dev s) = {} \<and> wr_live (io_dev t) = set ws \<union> wr_live (io_dev s)
    \<and> (\<forall>w. w \<notin> set ws \<longrightarrow> io_wr t w = io_wr s w) \<and> slru_page_len (io_mm t) = slru_page_len (io_mm s)
    \<and> stat t = stat (with_pages m h s) \<and> (\<forall>p. gpa_lock (io_gpa t p) = gpa_lock (io_gpa s p))
    \<and> (\<forall>g \<in> block_gpas (mm_gpas (io_mm s)) head. r_state (io_gpa t g) = GPA_WB)"
proof -
  let ?gs = "for_each_gpas (mm_gpas (io_mm s)) head" and ?s = "with_pages m h s"
  note ev' = ev [unfolded evictable_def]
  have b: "block_gpas (mm_gpas (io_mm s)) head \<subseteq> P" and pre: "alloc_pre (io_cfg s) (io_mrs s) (mm_gpas (io_mm s)) head"
    and hP: "head \<in> P" using ev' head_in_block by blast+
  note al = alloc_keeps [OF io b hP pre a]
  obtain ws s' where r: "evict_block e cpu head False s = Some (Inr (hd ws), queue_block cpu head (hd ws) s')"
    "ws \<noteq> []" "wb_run ord P ?gs ws ?s s'" using evict_block_ok [OF io ev e a] by blast
  let ?t = "queue_block cpu head (hd ws) s'"
  have d: "wb_data ord P ?gs ?s s'" and q: "wb_requests ?gs ws ?s s'" and mm: "wb_mm ?gs ws ?s s'"
    using r(3) by (simp_all add: wb_run_def)
  have dt: "dpart ?t = dpart s'" by simp
  have st: "stat ?t = stat ?s" using dpartD(1) [OF dt] d by (simp add: wb_data_def)
  have lp: "local_page (io_gpa ?s p) = local_page (io_gpa s p)" for p
    using al(4) [of p] by (metis emp_gpa.select_convs(11) emp_gpa.surjective emp_gpa.update_convs(10) with_pages_simps(2))
  have loc: "local_page (io_gpa ?s g) \<noteq> None" if "g \<in> set ?gs" for g
    using that ev' lp by (auto simp: set_for_each)
  have con: "contents ord ?t p = contents ord ?s p" if "p \<in> P" for p
    using wb_data_contents [OF d that loc] dpart_contents [OF dt] by simp
  have con': "contents ord ?s p = contents ord s p" for p
    using al(2) [of p] ev' by blast
  have "dev_data ord ?t g = contents ord ?t g \<and> has_page (mm_gpas (io_mm ?t)) g" if g: "g \<in> set ?gs" for g
  proof -
    have gP: "g \<in> P" "has_page h g" using g b al(3) by (auto simp: set_for_each)
    then have "dev_data ord ?t g = pg_data (io_dev ?s) (io_page ?s g)"
      using d g dpart_dev_data [OF dt, of ord g] by (auto simp: wb_data_def)
    then show ?thesis using loc [OF g] gP(2) con [OF gP(1)] stat_gpa(2) [OF st, of g] by (simp add: contents_def)
  qed
  moreover have "wb_request ?t (hd ws) = wb_request s' (hd ws)" by (simp add: wb_request_def fun_eq_iff)
  then have "list_all2 (wb_request ?t (hd ws)) ?gs ws" using q by (simp only: wb_requests_def)
  moreover have "distinct ws" "wr_refc (io_wr ?t (hd ws)) = int (length ws)" "subsibling (io_wr ?t (hd ws)) = tl ws"
    using q r(2) by (simp_all add: wb_requests_def)
  moreover have "io_ok ord P ?t" using dpart_io_ok [OF dt] d by (simp only: wb_data_def)
  moreover have "?gs \<noteq> []" "distinct ?gs" "set ?gs \<subseteq> P"
    using for_each_nonempty(1) b by (simp_all add: set_for_each) (simp add: for_each_gpas_def)
  ultimately have fl: "in_flight ord P ?gs ws ?t" unfolding in_flight_def by blast
  have len: "slru_page_len (io_mm ?t) = slru_page_len (io_mm s)"
  proof -
    have "io_mm s' = (io_mm ?s)\<lparr>mm_gpas := mm_gpas (io_mm s'), mm_lps := mm_lps (io_mm s')\<rparr>" using mm by (simp only: wb_mm_def)
    then have "slru_page_len (io_mm s') = slru_page_len ((io_mm ?s)\<lparr>mm_gpas := mm_gpas (io_mm s'), mm_lps := mm_lps (io_mm s')\<rparr>)"
      by (rule arg_cong)
    then show ?thesis by simp
  qed
  have "gpa_lock (io_gpa ?t p) = gpa_lock (io_gpa s p)" for p
  proof -
    obtain v where "h p = (io_gpa s p)\<lparr>remote_page := v\<rparr>" using al(4) by blast
    then show ?thesis using mm unfolding wb_mm_def by (cases "p = head") simp_all
  qed
  moreover have "r_state (io_gpa ?t g) = GPA_WB" if "g \<in> block_gpas (mm_gpas (io_mm s)) head" for g
    using mm that [folded set_for_each] unfolding wb_mm_def by simp
  moreover have "set ws \<inter> wr_live (io_dev s) = {}" "wr_live (io_dev ?t) = set ws \<union> wr_live (io_dev s)"
    using q by (simp_all add: wb_requests_def)
  moreover have "io_wr ?t w = io_wr s w" if "w \<notin> set ws" for w
    using q r(2) that by (auto simp: wb_requests_def)
  ultimately show ?thesis using r(1) fl con con' len st by (intro exI [of _ ws] exI [of _ ?t]) simp
qed

lemma fixed_part_parts:
  assumes "fixed_part d' = fixed_part d"
  shows "local_page d' = local_page d" "remote_page d' = remote_page d" "sb_order d' = sb_order d"
    "block_order d' = block_order d" "desc_order d' = desc_order d" "max_block_order d' = max_block_order d"
  using assms by (simp_all add: fixed_part_def)

lemma write_back_ok:
  assumes io: "io_ok ord P s" and ev: "evictable ord P head s" and e: "env_ok ord e" "pool_ok s"
    and a: "alloc_remote_page (io_cfg s) (io_cow s) (io_mrs s) (mm_gpas (io_mm s)) head = Some (True, m, h)"
    and h: "emp_get_block_head (mm_gpas (io_mm s)) head = head"
  shows "\<exists>w t u. evict_block e cpu head False s = Some (Inr w, t)
    \<and> clear_writeback_block2 e cpu' True w t = Some (int (gpa_block_size (io_gpa s head)), u)
    \<and> (\<forall>p \<in> P. contents ord t p = contents ord s p \<and> contents ord u p = contents ord s p)
    \<and> (\<forall>g \<in> block_gpas (mm_gpas (io_mm s)) head. r_state (io_gpa t g) = GPA_WB \<and> dev_data ord t g = contents ord s g
         \<and> local_page (io_gpa t g) = local_page (io_gpa s g) \<and> local_page (io_gpa u g) = None \<and> has_page (mm_gpas (io_mm u)) g)
    \<and> (\<forall>p. p \<notin> block_gpas (mm_gpas (io_mm s)) head \<longrightarrow> local_page (io_gpa u p) = local_page (io_gpa s p)
         \<and> remote_page (io_gpa u p) = remote_page (io_gpa s p))
    \<and> (\<forall>l. lp_page (io_lps u l) = lp_page (io_lps s l)) \<and> pg_data (io_dev u) = pg_data (io_dev s)
    \<and> io_ok ord P u \<and> pool_ok u \<and> wr_live (io_dev u) = wr_live (io_dev s)
    \<and> slru_page_len (io_mm u) INACTIVE_LIST = slru_page_len (io_mm s) INACTIVE_LIST - int (gpa_block_size (io_gpa s head))"
proof -
  let ?B = "block_gpas (mm_gpas (io_mm s)) head"
  note ev' = ev [unfolded evictable_def]
  have b: "?B \<subseteq> P" and pre: "alloc_pre (io_cfg s) (io_mrs s) (mm_gpas (io_mm s)) head" and hP: "head \<in> P"
    using ev' head_in_block by blast+
  note al = alloc_keeps [OF io b hP pre a]
  obtain ws t where t: "evict_block e cpu head False s = Some (Inr (hd ws), t)"
    "in_flight ord P (for_each_gpas (mm_gpas (io_mm s)) head) ws t" "\<And>p. p \<in> P \<Longrightarrow> contents ord t p = contents ord s p"
    "set ws \<inter> wr_live (io_dev s) = {}" "wr_live (io_dev t) = set ws \<union> wr_live (io_dev s)"
    "\<And>w. w \<notin> set ws \<Longrightarrow> io_wr t w = io_wr s w" "slru_page_len (io_mm t) = slru_page_len (io_mm s)"
    "stat t = stat (with_pages m h s)" "\<And>g. g \<in> ?B \<Longrightarrow> r_state (io_gpa t g) = GPA_WB"
    using evict_in_flight [OF io ev e a, of cpu] by blast
  have hp: "\<exists>v. h p = (io_gpa s p)\<lparr>remote_page := v\<rparr>" for p using al(4) .
  have fp: "local_page (io_gpa t p) = local_page (io_gpa s p)" "desc_order (io_gpa t p) = desc_order (io_gpa s p)"
    "block_order (io_gpa t p) = block_order (io_gpa s p)" "sb_order (io_gpa t p) = sb_order (io_gpa s p)" for p
    using hp [of p] fixed_part_parts [OF statD(1) [OF t(8), of p]] by auto
  have gs: "for_each_gpas (mm_gpas (io_mm t)) head = for_each_gpas (mm_gpas (io_mm s)) head"
    by (simp add: for_each_gpas_def num_subblock_in_block_def fp)
  have blk: "block_gpas (mm_gpas (io_mm t)) head = ?B" using arg_cong [OF gs, of set] by (simp only: set_for_each)
  have bs: "gpa_block_size (io_gpa t head) = gpa_block_size (io_gpa s head)" by (simp add: gpa_block_size_def fp)
  have h': "emp_get_block_head (mm_gpas (io_mm t)) head = head" using h by (simp add: emp_get_block_head_def fp)
  obtain u where u: "clear_writeback_block2 e cpu' True (hd ws) t = Some (int (gpa_block_size (io_gpa t head)), u)"
    "io_ok ord P u" "\<And>p. contents ord u p = contents ord t p"
    "\<And>p. io_gpa u p = (if p \<in> ?B then remote_desc (io_gpa t p) else io_gpa t p)"
    "io_lps u = io_lps t" "pg_data (io_dev u) = pg_data (io_dev t)" "wr_live (io_dev u) = wr_live (io_dev t) - set ws"
    "\<And>w. w \<in> set ws \<Longrightarrow> subsibling (io_wr u w) = [] \<and> remote_pages (io_wr u w) = []" "\<And>w. w \<notin> set ws \<Longrightarrow> io_wr u w = io_wr t w"
    "slru_page_len (io_mm u) = (slru_page_len (io_mm t))(INACTIVE_LIST := slru_page_len (io_mm t) INACTIVE_LIST
        - int (gpa_block_size (io_gpa t head)))"
    using complete_ok [OF t(2) [folded gs] h', of e cpu'] unfolding blk by blast
  have live: "wr_live (io_dev u) = wr_live (io_dev s)" using u(7) t(4,5) by auto
  have "subsibling (io_wr u w) = [] \<and> remote_pages (io_wr u w) = []" if "w \<notin> wr_live (io_dev u)" for w
    using u(8,9) t(6) e(2) that live by (cases "w \<in> set ws") (simp_all add: pool_ok_def)
  then have "pool_ok u" using e(2) live by (simp add: pool_ok_def)
  moreover have "dev_data ord t g = contents ord s g \<and> has_page (mm_gpas (io_mm u)) g" if g: "g \<in> ?B" for g
  proof -
    have "has_page (mm_gpas (io_mm t)) g \<and> dev_data ord t g = contents ord t g"
      using t(2) g set_for_each unfolding in_flight_def by blast
    moreover have "contents ord t g = contents ord s g" using t(3) g b by blast
    ultimately show ?thesis using g u(4) [of g] by simp
  qed
  moreover have "remote_page (io_gpa u p) = remote_page (io_gpa s p)" if "p \<notin> ?B" for p
    using that u(4) fixed_part_parts(2) [OF statD(1) [OF t(8), of p]] al(5) [of p] by simp
  ultimately show ?thesis
    using t(1,3,7,9) u(1-6,10) bs live fp(1) statD(2,4) [OF t(8)] by (intro exI [of _ "hd ws"] exI [of _ t] exI [of _ u]) simp
qed

section \<open>The error exit\<close>

lemma post_writeback_async_closed:
  assumes v: "at_slot ord s v j n" and cl: "conn_unusable (io_dev s) j" and m: "memregs (io_mrs s) ! j \<noteq> None"
  shows "\<exists>t. post_writeback_async e v cpu hw pglen upd s = Some (None, t) \<and> io_wr t = io_wr s"
proof -
  let ?s1 = "upd_mm (upd_head (\<lambda>g. g\<lparr>last_mr_id := get_remote_page_mrid (io_cow s) (remote_page (io_gpa s v))\<rparr>) v) s"
  have a: "j < 255" "(n + 1) * 2 ^ ord \<le> 2 ^ 54" "remote_page (io_gpa s v) = slot_word ord (j, n)"
    using v by (simp_all add: at_slot_def)
  have i: "unat (get_remote_page_mrid (io_cow s) (remote_page (io_gpa s v))) = j" using at_slot_addr [OF a(1,2)] a(3) by simp
  have "?s1\<lparr>io_dev := io_dev s\<rparr> = ?s1" by (simp add: upd_mm_def)
  then have "post_write_loop e cpu j v pglen hw ?s1 = Some (None, ?s1)"
    using cl by (subst post_write_loop.simps) (simp add: post_write_def ENXIO_def ENOMEM_def)
  then show ?thesis
    unfolding post_writeback_async_def Let_def i using m by simp
qed

text \<open>With one request posted when the next cannot be, the exit looks for siblings where there are none.\<close>

lemma evict_error_hangs:
  assumes ev: "clear_block_w e cpu head s = Some s" "list_all (has_page (mm_gpas (io_mm s))) (for_each_gpas (mm_gpas (io_mm s)) head)"
      "evict_dma_size (io_cfg s) (io_mrs s) (io_gpa s head) = 2 ^ ord" "2 \<le> num_subblock_in_block (io_gpa s head)"
    and c: "memregs (io_mrs s) ! i = Some r" "k < mr_slots ord r" "contexts (io_dev s) i = Some c"
      "ctx_ok ord (mr_slots ord r) c" "\<not> mr_closing (io_dev s) i"
    and e: "env_ok ord e" "pool_ok s" and v: "at_slot ord s head i k" and sb: "sb_order (io_gpa s head) = ord"
    and len: "length (pg_data (io_dev s) (io_page s head)) = 2 ^ ord"
    and w: "at_slot ord s (Suc head) j n" "conn_unusable (io_dev s) j" "j \<noteq> i"
  shows "evict_block e cpu head False s = None"
proof -
  let ?s = "emp_lock_subblock head (emp_get_subblock head s)"
  have dp: "dpart ?s = dpart s" by simp
  have st: "stat ?s = stat s" using dpartD(1) [OF dp] .
  have ctx: "contexts (io_dev ?s) = contexts (io_dev s)" by (simp add: emp_lock_subblock_def emp_get_subblock_def)
  have "\<exists>w d. w \<notin> wr_live (io_dev ?s) \<and> post_writeback_async e head cpu None (2 ^ ord) True ?s = Some (Some w, posted head w d ?s)
    \<and> posts TYPE_WB i head (remote_page (io_gpa ?s head)) w None (io_dev ?s) d
    \<and> slot_written ord i k (pg_data (io_dev ?s) (io_page ?s head)) ?s (posted head w d ?s)"
    using c e len v sb statD [OF st] stat_gpa [OF st] ctx
    by (intro post_writeback_async_at [where r = r and c = c]) (simp_all add: dpart_at_slot [OF dp] pool_ok_def)
  then obtain w d where p: "w \<notin> wr_live (io_dev ?s)" "post_writeback_async e head cpu None (2 ^ ord) True ?s = Some (Some w, posted head w d ?s)"
    "posts TYPE_WB i head (remote_page (io_gpa ?s head)) w None (io_dev ?s) d"
    "slot_written ord i k (pg_data (io_dev ?s) (io_page ?s head)) ?s (posted head w d ?s)" by blast
  let ?t = "posted head w d ?s" and ?n = "Suc head"
  let ?u = "emp_lock_subblock ?n (emp_get_subblock ?n ?t)"
  have raw: "subsibling (io_wr s w) = []" using p(1) e(2) by (simp add: pool_ok_def)
  have "io_wr ?t w = posted_wr TYPE_WB i head (remote_page (io_gpa ?s head)) w None (io_wr s w)"
    using p(3) by (simp add: posts_def posted_def set_lp_w_def wrs_io)
  then have sib: "subsibling (io_wr ?u w) = []" using raw by (simp add: posted_wr_def)
  have stt: "stat ?t = stat s" using p(4) st by (simp add: slot_written_def)
  have stu: "stat ?u = stat s" using dpartD(1) [of ?u ?t] stt by simp
  have cu: "conn_unusable (io_dev ?u) j"
  proof -
    have "contexts (io_dev ?t) j = contexts (io_dev s) j" "mr_closing (io_dev ?t) = mr_closing (io_dev s)"
      using p(4) w(3) ctx statD(5) [OF stt] by (simp_all add: slot_written_def)
    moreover have "contexts (io_dev ?u) = contexts (io_dev ?t)" "mr_closing (io_dev ?u) = mr_closing (io_dev ?t)"
      by (simp_all add: emp_lock_subblock_def emp_get_subblock_def)
    ultimately show ?thesis using w(2) by (simp add: conn_unusable_def)
  qed
  have mu: "memregs (io_mrs ?u) ! j \<noteq> None" using w(1) statD(6) [OF stu] by (auto simp: at_slot_def)
  from post_writeback_async_closed [OF iffD2 [OF at_slot_stat [OF stu] w(1)] cu mu]
  obtain t where t: "post_writeback_async e ?n cpu (Some w) (2 ^ ord) True ?u = Some (None, t)" "io_wr t = io_wr ?u" by blast
  have gs: "for_each_gpas (mm_gpas (io_mm s)) head = head # Suc head # [Suc (Suc head) ..< head + num_subblock_in_block (io_gpa s head)]"
    using ev(4) by (simp add: for_each_gpas_def upt_conv_Cons)
  have al: "alloc_remote_page (io_cfg s) (io_cow s) (io_mrs s) (mm_gpas (io_mm s)) head = Some (True, io_mrs s, mm_gpas (io_mm s))"
    using ev(2) by (simp add: alloc_remote_page_def)
  have ws: "s\<lparr>io_mrs := io_mrs s, io_mm := (io_mm s)\<lparr>mm_gpas := mm_gpas (io_mm s)\<rparr>\<rparr> = s" by simp
  have "evict_post e cpu (2 ^ ord) False (for_each_gpas (mm_gpas (io_mm s)) head) None s = Some (Some w, Some (Suc head), t)"
    unfolding gs using p(2) t(1) by simp
  moreover have "evict_error head (Some w) (Some (Suc head)) t = None"
    using sib t(2) by (simp add: evict_error_def Let_def)
  ultimately show ?thesis unfolding evict_block_def Let_def ev(3) using ev(1) al by (simp del: io_acc)
qed

end
