(* ===== verification/Io_Fetch.thy ===== *)
theory Io_Fetch
  imports Io_Write
begin

text \<open>
  Fetching a subblock back: a free local page is attached, the read is posted, and on completion the page
  holds what the donor held; unless remote pages are kept, the slot goes back to its region.
\<close>

section \<open>Attaching a local page\<close>

lemma local_added:
  assumes io: "io_ok ord P s" and g: "g \<in> P" "local_page (io_gpa s g) = None"
    and fresh: "\<And>p. p \<in> P \<Longrightarrow> local_page (io_gpa s p) \<noteq> Some l"
      "\<And>p. p \<in> P \<Longrightarrow> local_page (io_gpa s p) \<noteq> None \<Longrightarrow> io_page s p \<noteq> page"
    and D: "length D = 2 ^ ord"
    and t: "\<And>p. fixed_part (io_gpa t p) = fixed_part (if p = g then (io_gpa s g)\<lparr>local_page := Some l\<rparr> else io_gpa s p)"
      "lp_page (io_lps t l) = page" "lp_gpa (io_lps t l) = g"
      "\<And>l'. l' \<noteq> l \<Longrightarrow> lp_page (io_lps t l') = lp_page (io_lps s l') \<and> lp_gpa (io_lps t l') = lp_gpa (io_lps s l')"
      "pg_data (io_dev t) = (pg_data (io_dev s))(page := D)"
    and c: "\<And>i. map_option ctx_part (contexts (io_dev t) i) = map_option ctx_part (contexts (io_dev s) i)"
      "mr_closing (io_dev t) = mr_closing (io_dev s)" "io_mrs t = io_mrs s" "io_cfg t = io_cfg s"
  shows "io_ok ord P t" and "p \<in> P \<Longrightarrow> contents ord t p = (if p = g then D else contents ord s p)"
proof -
  have rp: "remote_page (io_gpa t p) = remote_page (io_gpa s p)" "sb_order (io_gpa t p) = sb_order (io_gpa s p)"
    "local_page (io_gpa t p) = (if p = g then Some l else local_page (io_gpa s p))" for p
    using fixed_part_parts [OF t(1) [of p]] by (simp_all split: if_splits)
  have lp: "io_lp t p = io_lp s p" "io_page t p = io_page s p" if "p \<in> P" "p \<noteq> g" "local_page (io_gpa s p) \<noteq> None" for p
    using that fresh(1) [of p] t(4) [of "io_lp s p"] rp(3) [of p] by (auto simp: io_page_lps io_lp_def)
  have lg: "io_lp t g = l" "io_page t g = page" using rp(3) t(2) by (simp_all add: io_page_lps io_lp_def)
  have "pages_ok ord (memregs (io_mrs s)) (mm_gpas (io_mm t)) P"
    using io by (subst pages_ok_cong [of P _ "mm_gpas (io_mm s)"]) (simp_all add: io_ok_def rp)
  moreover have "dev_ok ord t" using ctx_dev_ok [OF io_ok_dev [OF io] c(1,2)] c(3) by simp
  moreover have "local_ok ord P t"
  proof -
    have lo: "local_ok ord P s" using io by (simp only: io_ok_def)
    have "lp_gpa (io_lps t l') = p \<and> length (pg_data (io_dev t) (lp_page (io_lps t l'))) = 2 ^ ord"
      if p: "p \<in> P" "local_page (io_gpa t p) = Some l'" for p l'
    proof (cases "p = g")
      case True
      then show ?thesis using p(2) rp(3) [of g] t(2,3,5) D by simp
    next
      case False
      then have l: "local_page (io_gpa s p) = Some l'" "l' \<noteq> l" using p rp(3) [of p] fresh(1) [of p] by auto
      moreover have "lp_page (io_lps s l') \<noteq> page" using fresh(2) [of p] l(1) p(1) by (simp add: io_page_lps io_lp_def)
      moreover have "lp_gpa (io_lps s l') = p" "length (pg_data (io_dev s) (lp_page (io_lps s l'))) = 2 ^ ord"
        using lo p(1) l(1) by (simp_all add: local_ok_def)
      ultimately show ?thesis using t(4) [of l'] t(5) by simp
    qed
    moreover have "p = q" if p: "p \<in> P" "q \<in> P" "local_page (io_gpa t p) \<noteq> None" "local_page (io_gpa t q) \<noteq> None"
        "io_page t p = io_page t q" for p q
    proof -
      have "io_page t x \<noteq> page" if "x \<in> P" "x \<noteq> g" "local_page (io_gpa t x) \<noteq> None" for x
        using that fresh(2) [of x] lp(2) [of x] rp(3) [of x] by simp
      moreover have "p = q" if "p \<noteq> g" "q \<noteq> g"
      proof -
        have "inj_on (io_page s) {p \<in> P. local_page (io_gpa s p) \<noteq> None}" using lo by (simp only: local_ok_def)
        then show ?thesis using p that lp(2) [of p] lp(2) [of q] rp(3) [of p] rp(3) [of q] unfolding inj_on_def by auto
      qed
      ultimately show ?thesis using p lg(2) by metis
    qed
    ultimately show ?thesis by (simp add: local_ok_def inj_on_def)
  qed
  ultimately show "io_ok ord P t" using io rp c by (simp add: io_ok_def)
  assume p: "p \<in> P"
  have "dev_data ord t p = dev_data ord s p" by (rule ctx_dev_data [OF rp(1) c(1)])
  then show "contents ord t p = (if p = g then D else contents ord s p)"
    using p lg lp(2) [of p] rp [of p] t(5) fresh(2) [of p] by (cases "local_page (io_gpa s p) = None") (auto simp: contents_def)
qed

section \<open>Posting the read\<close>

text \<open>The local page object \<open>l\<close> and the page are not in use, and the page has the size of a subblock.\<close>

definition attachable :: "nat \<Rightarrow> gpa_ptr set \<Rightarrow> nat \<Rightarrow> nat \<Rightarrow> emp_io \<Rightarrow> bool" where
  "attachable ord P l page s \<longleftrightarrow> (\<forall>p \<in> P. local_page (io_gpa s p) \<noteq> Some l)
     \<and> (\<forall>p \<in> P. local_page (io_gpa s p) \<noteq> None \<longrightarrow> io_page s p \<noteq> page) \<and> length (pg_data (io_dev s) page) = 2 ^ ord"

text \<open>They will be free once the block of \<open>head\<close> has lost its local pages.\<close>

definition spare :: "nat \<Rightarrow> gpa_ptr set \<Rightarrow> gpa_ptr \<Rightarrow> nat \<Rightarrow> nat \<Rightarrow> emp_io \<Rightarrow> bool" where
  "spare ord P head l page s \<longleftrightarrow> length (pg_data (io_dev s) page) = 2 ^ ord
     \<and> (\<forall>p \<in> P - block_gpas (mm_gpas (io_mm s)) head. local_page (io_gpa s p) \<noteq> Some l
          \<and> (local_page (io_gpa s p) \<noteq> None \<longrightarrow> io_page s p \<noteq> page))"

lemma spare_attachable:
  assumes "spare ord P head l page s"
    and "\<forall>g \<in> block_gpas (mm_gpas (io_mm s)) head. local_page (io_gpa u g) = None"
    and "\<forall>p. p \<notin> block_gpas (mm_gpas (io_mm s)) head \<longrightarrow> local_page (io_gpa u p) = local_page (io_gpa s p)"
    and "\<forall>l. lp_page (io_lps u l) = lp_page (io_lps s l)" and "pg_data (io_dev u) = pg_data (io_dev s)"
  shows "attachable ord P l page u"
  unfolding attachable_def
proof (intro conjI ballI impI)
  fix p assume p: "p \<in> P"
  show "local_page (io_gpa u p) \<noteq> Some l"
    using p assms(1-3) by (cases "p \<in> block_gpas (mm_gpas (io_mm s)) head") (simp_all add: spare_def)
  assume l: "local_page (io_gpa u p) \<noteq> None"
  then have "p \<notin> block_gpas (mm_gpas (io_mm s)) head" using assms(2) by auto
  then show "io_page u p \<noteq> page" using p l assms(1,3,4) by (simp add: spare_def io_page_lps io_lp_def)
qed (use assms(1,5) in \<open>simp add: spare_def\<close>)

text \<open>A fetch of \<open>g\<close> into the page in flight, started in \<open>s\<close>, with the request \<open>w\<close>.\<close>

definition fetching :: "nat \<Rightarrow> gpa_ptr set \<Rightarrow> gpa_ptr \<Rightarrow> nat \<Rightarrow> nat \<Rightarrow> nat \<Rightarrow> emp_io \<Rightarrow> emp_io \<Rightarrow> bool" where
  "fetching ord P g l page w s t \<longleftrightarrow> io_page t g = page \<and> io_ok ord P t \<and> (\<forall>p \<in> P. contents ord t p = contents ord s p)
     \<and> (\<forall>p. fixed_part (io_gpa t p) = fixed_part (if p = g then (io_gpa s g)\<lparr>local_page := Some l\<rparr> else io_gpa s p))
     \<and> lp_w (io_lps t l) = Some w \<and> w \<notin> wr_live (io_dev s) \<and> wr_live (io_dev t) = insert w (wr_live (io_dev s))
     \<and> wr_gpa (io_wr t w) = g \<and> wr_rp (io_wr t w) = remote_page (io_gpa s g) \<and> head_wr (io_wr t w) = w
     \<and> wr_refc (io_wr t w) = 1 \<and> eh_wr (io_wr t w) = None
     \<and> subsibling (io_wr t w) = subsibling (io_wr s w) \<and> remote_pages (io_wr t w) = remote_pages (io_wr s w)
     \<and> (\<forall>w'. w' \<noteq> w \<longrightarrow> io_wr t w' = io_wr s w') \<and> io_mrs t = io_mrs s \<and> io_cfg t = io_cfg s \<and> io_cow t = io_cow s"

lemma fetch_subblock_ok:
  assumes io: "io_ok ord P s" and e: "env_ok ord e" "finite (wr_live (io_dev s))"
    and g: "g \<in> P" "local_page (io_gpa s g) = None" "has_page (mm_gpas (io_mm s)) g" and at: "attachable ord P l page s"
  shows "\<exists>w t. fetch_subblock e (Some l) vmr g idx ord page cpu None False stale rmask s = Some (1, t) \<and> fetching ord P g l page w s t"
proof -
  obtain i k where a: "at_slot ord s g i k" using at_slotI [OF io g(1,3)] by blast
  have a': "i < 255" "(k + 1) * 2 ^ ord \<le> 2 ^ 54" "remote_page (io_gpa s g) = slot_word ord (i, k)"
    using a by (simp_all add: at_slot_def)
  obtain w where w: "kmem e (wr_live (io_dev s)) = Some w" "w \<notin> wr_live (io_dev s)" using e by (auto simp: env_ok_def)
  obtain c r where c: "memregs (io_mrs s) ! i = Some r" "k < mr_slots ord r" "contexts (io_dev s) i = Some c"
    "ctx_ok ord (mr_slots ord r) c" "\<not> mr_closing (io_dev s) i"
    using at_slot_ctx [OF a io_ok_dev [OF io]] by metis
  define obj where "obj = (emp_init_local_page (io_lps s l) vmr idx page)\<lparr>lp_gpa := g\<rparr>"
  define s1 where "s1 = upd_mm (upd_head (\<lambda>d. d\<lparr>local_page := Some l\<rparr>) g)
    (upd_mm (upd_lp (\<lambda>_. obj) l) (s\<lparr>io_pages := (io_pages s)(page := \<lparr>pg_mlocked = True, pg_private = g\<rparr>)\<rparr>))"
  define s2 where "s2 = emp_get_subblock g s1"
  have obj: "lp_page obj = page" "lp_gpa obj = g"
    by (simp_all add: obj_def emp_init_local_page_def Let_def INIT_MAPPED_PMD_def set_local_page_cpu_only_def clear_local_page_list_flags_def)
  have s2: "io_gpa s2 p = (if p = g then (io_gpa s g)\<lparr>local_page := Some l\<rparr> else io_gpa s p)"
    "io_lps s2 l' = (if l' = l then obj else io_lps s l')" "io_wr s2 = io_wr s" "contexts (io_dev s2) = contexts (io_dev s)"
    "mr_closing (io_dev s2) = mr_closing (io_dev s)" "wr_live (io_dev s2) = wr_live (io_dev s)" "pg_data (io_dev s2) = pg_data (io_dev s)"
    "io_mrs s2 = io_mrs s" "io_cfg s2 = io_cfg s" "io_cow s2 = io_cow s" for p l'
    by (simp_all add: s2_def s1_def fun_eq_iff emp_get_subblock_def)
  have pg: "io_page s2 g = page" "io_page s1 g = page"
    using s2(1,2) obj by (simp_all add: io_page_lps io_lp_def s2_def [symmetric]) (simp add: s1_def)
  let ?D = "ctx_read c (2 ^ ord) (k * 2 ^ ord)"
  have D: "?D = contents ord s g" "length ?D = 2 ^ ord"
    using g at_slot_data [OF a] c(3) length_ctx_read [OF c(4,2)] by (simp_all add: contents_def)
  have ue: "user_ok e" and none: "None \<noteq> Some w" using e(1) by (simp_all add: env_ok_def)
  have c2: "contexts (io_dev s2) i = Some c" "\<not> mr_closing (io_dev s2) i" "kmem e (wr_live (io_dev s2)) = Some w"
    "length (pg_data (io_dev s2) page) = 2 ^ ord"
    using c w s2 at by (simp_all add: attachable_def)
  from post_read_ok [where kmem = "kmem e" and head = None and gpa = g and rp = "slot_word ord (i, k)",
      OF c2(1) c(4) c2(2) c(2) c2(3) none ue c2(4)]
  obtain d where d: "post_read (kmem e) (user_ok e) i g page (k * 2 ^ ord) (2 ^ ord) (slot_word ord (i, k)) None (io_dev s2) = Some (Inr w, d)"
    "posts TYPE_FETCHING i g (slot_word ord (i, k)) w None (io_dev s2) d" "pg_data d = (pg_data (io_dev s2))(page := ?D)"
    "contexts d i = Some (c\<lparr>ctx_wr_len := ctx_wr_len c + 1\<rparr>)" using ue by auto
  define t where "t = set_lp_w g (Some w) (s2\<lparr>io_dev := d\<rparr>)"
  have m: "unat (get_remote_page_mrid (io_cow s) (remote_page (io_gpa s g))) = i"
    "unat (get_remote_page_offset (io_cow s) (remote_page (io_gpa s g))) = k * 2 ^ ord"
    "get_rp_val (io_cow s) (remote_page (io_gpa s g)) = slot_word ord (i, k)"
    using at_slot_addr [OF a'(1,2)] a'(3) by simp_all
  have fp: "fetch_pages e i g (k * 2 ^ ord) (2 ^ ord) (slot_word ord (i, k)) None s1 = Some (Inr w, s2\<lparr>io_dev := d\<rparr>)"
    using d(1) pg(1) by (simp add: fetch_pages_def Let_def s2_def [symmetric])
  have "fetch_subblock e (Some l) vmr g idx ord page cpu None False stale rmask s = Some (1, t)"
    using fp m c(1) g(3) unfolding fetch_subblock_def Let_def
    by (simp add: alloc_local_page_def obj_def [symmetric] s1_def [symmetric] t_def)
  moreover have "fetching ord P g l page w s t"
  proof -
    have il: "io_lp s2 g = l" using s2(1) by (simp add: io_lp_def)
    have t: "io_gpa t = io_gpa s2" "io_lps t l' = (if l' = l then obj\<lparr>lp_w := Some w\<rparr> else io_lps s l')" "io_dev t = d"
      "io_wr t = wrs d" "io_mrs t = io_mrs s" "io_cfg t = io_cfg s" "io_cow t = io_cow s" for l'
      using s2 il by (simp_all add: t_def set_lp_w_def io_lp_def)
    have ctx: "map_option ctx_part (contexts (io_dev t) j) = map_option ctx_part (contexts (io_dev s) j)" for j
      using d(2,4) s2(4) c(3) by (cases "j = i") (simp_all add: t(3) posts_def)
    have cl: "mr_closing (io_dev t) = mr_closing (io_dev s)" using d(2) s2(5) by (simp add: t(3) posts_def)
    have fr: "\<And>p. p \<in> P \<Longrightarrow> local_page (io_gpa s p) \<noteq> Some l"
      "\<And>p. p \<in> P \<Longrightarrow> local_page (io_gpa s p) \<noteq> None \<Longrightarrow> io_page s p \<noteq> page" using at unfolding attachable_def by blast+
    have f: "\<And>p. fixed_part (io_gpa t p) = fixed_part (if p = g then (io_gpa s g)\<lparr>local_page := Some l\<rparr> else io_gpa s p)"
      "lp_page (io_lps t l) = page" "lp_gpa (io_lps t l) = g"
      "\<And>l'. l' \<noteq> l \<Longrightarrow> lp_page (io_lps t l') = lp_page (io_lps s l') \<and> lp_gpa (io_lps t l') = lp_gpa (io_lps s l')"
      "pg_data (io_dev t) = (pg_data (io_dev s))(page := ?D)" by (simp_all add: t obj s2 d(3))
    have "io_page t g = page" using f(2) s2(1) by (simp add: io_page_lps io_lp_def t(1))
    moreover note la = local_added [OF io g(1,2) fr D(2) f ctx cl t(5,6)]
    have "io_ok ord P t" by (rule la(1))
    moreover have "\<forall>p \<in> P. contents ord t p = (if p = g then ?D else contents ord s p)" using la(2) by blast
    moreover have "wrs d w = posted_wr TYPE_FETCHING i g (slot_word ord (i, k)) w None (io_wr s w)"
      "wr_live d = insert w (wr_live (io_dev s))" "\<And>w'. w' \<noteq> w \<Longrightarrow> wrs d w' = io_wr s w'"
      using d(2) s2(3,6) by (simp_all add: posts_def)
    ultimately show ?thesis
      using D(1) w(2) a'(3) by (auto simp: fetching_def t s2 posted_wr_def)
  qed
  ultimately show ?thesis by blast
qed

section \<open>Completing the read\<close>

lemma put_slot_size: "mr_size (mr_put_slot r k) = mr_size r"
  by (simp add: mr_put_slot_def mr_charge_def Let_def)

lemma release_sizes:
  assumes "free_remote_page4 st m h p = Some (m', h')"
  shows "map_option mr_size (memregs m' ! j) = map_option mr_size (memregs m ! j)"
proof -
  obtain i r k where r: "memregs m ! i = Some r" "m' = upd_mr m i (mr_put_slot r k)"
    using assms by (auto simp: free_remote_page4_def release_remote_page_def Let_def split: option.splits if_splits)
  then show ?thesis
    by (cases "i < length (memregs m)") (simp_all add: upd_mr_def put_slot_size nth_upd_size list_update_beyond)
qed

lemma wait_read_dpart [simp]: "dpart (upd_dev (\<lambda>d. snd (wait_read w d)) s) = dpart s"
  by (auto simp: dpart_def stat_def wait_read_def fun_eq_iff option.map_comp comp_def)

lemma wait_read_simps [simp]:
  "wrs (snd (wait_read w d)) = wrs d" "wr_live (snd (wait_read w d)) = wr_live d"
  by (simp_all add: wait_read_def)

text \<open>What consuming the remote copy of \<open>g\<close> does.\<close>

definition consumed :: "gpa_ptr \<Rightarrow> emp_io \<Rightarrow> emp_mrs \<Rightarrow> gpa_heap \<Rightarrow> bool" where
  "consumed g s m h \<longleftrightarrow> (if remote_reuse (io_cfg s) then m = io_mrs s \<and> h = io_gpa s
     else h = (io_gpa s)(g := (io_gpa s g)\<lparr>remote_page := FREE_REMOTE_PAGE_VAL\<rparr>)
       \<and> used_slots (memregs m) = used_slots (memregs (io_mrs s)) - {word_slot (sb_order (io_gpa s g)) (remote_page (io_gpa s g))})"

lemma gpas_io: "mm_gpas (io_mm s) = io_gpa s"
  by (simp add: fun_eq_iff)

lemma consume_ok:
  assumes io: "io_ok ord P s" and g: "g \<in> P" "local_page (io_gpa s g) \<noteq> None" "has_page (mm_gpas (io_mm s)) g"
  shows "\<exists>m h. clear_fetching_remote (io_cfg s) (io_mrs s) \<lparr>cm_store = io_cow s, cm_live = io_crps s, cm_gpas = mm_gpas (io_mm s)\<rparr> g
        = Some (m, \<lparr>cm_store = io_cow s, cm_live = io_crps s, cm_gpas = h\<rparr>)
    \<and> consumed g s m h \<and> io_ok ord P (with_pages m h s) \<and> (\<forall>p \<in> P. contents ord (with_pages m h s) p = contents ord s p)
    \<and> (\<forall>i. map_option mr_size (memregs m ! i) = map_option mr_size (memregs (io_mrs s) ! i))"
proof -
  obtain i k where a: "at_slot ord s g i k" using at_slotI [OF io g(1,3)] by blast
  have a': "i < 255" "(k + 1) * 2 ^ ord \<le> 2 ^ 54" "remote_page (io_gpa s g) = slot_word ord (i, k)"
    using a by (simp_all add: at_slot_def)
  have nc: "\<not> is_remote_page_cow (remote_page (io_gpa s g))" "\<not> is_remote_page_free (remote_page (io_gpa s g))"
    using at_slot_addr [OF a'(1,2)] a'(3) by simp_all
  have sb: "sb_order (io_gpa s g) = ord" using io g(1) by (simp add: io_ok_def)
  let ?c = "\<lparr>cm_store = io_cow s, cm_live = io_crps s, cm_gpas = io_gpa s\<rparr>"
  have put: "put_cow_remote_page ?c g = (True, ?c)" using nc by (simp add: put_cow_remote_page_def rp_of_def)
  show ?thesis
  proof (cases "remote_reuse (io_cfg s)")
    case True
    have w: "with_pages (io_mrs s) (io_gpa s) s = s" by (simp add: with_pages_def gpas_io [symmetric] del: io_acc)
    have "clear_fetching_remote (io_cfg s) (io_mrs s) ?c g = Some (io_mrs s, ?c)"
      using True put nc by (simp add: clear_fetching_remote_def free_remote_page_def free_remote_page2_def)
    then show ?thesis using True w io by (intro exI [of _ "io_mrs s"] exI [of _ "io_gpa s"]) (simp add: consumed_def gpas_io)
  next
    case False
    have ok: "mrs_ok ord (io_mrs s)" "pages_ok ord (memregs (io_mrs s)) (io_gpa s) P" using io by (simp_all only: io_ok_def gpas_io)
    have g3: "has_page (io_gpa s) g" using g(3) by simp
    from free_remote_page4_spec [OF ok g(1) g3, of "io_cow s"] obtain m where
      m: "free_remote_page4 (io_cow s) (io_mrs s) (io_gpa s) g = Some (m, set_rp (io_gpa s) g FREE_REMOTE_PAGE_VAL)"
        "mrs_ok ord m" "pages_ok ord (memregs m) (set_rp (io_gpa s) g FREE_REMOTE_PAGE_VAL) P"
        "used_slots (memregs m) = used_slots (memregs (io_mrs s)) - {word_slot ord (remote_page (io_gpa s g))}" by auto
    let ?h = "set_rp (io_gpa s) g FREE_REMOTE_PAGE_VAL" and ?t = "with_pages m (set_rp (io_gpa s) g FREE_REMOTE_PAGE_VAL) s"
    have sz: "map_option mr_size (memregs m ! i) = map_option mr_size (memregs (io_mrs s) ! i)" for i by (rule release_sizes [OF m(1)])
    have h: "?h p = (if p = g then (io_gpa s g)\<lparr>remote_page := FREE_REMOTE_PAGE_VAL\<rparr> else io_gpa s p)" for p by (simp add: set_rp_def)
    have pg: "io_lp ?t = io_lp s" "io_page ?t = io_page s" using h by (simp_all add: fun_eq_iff io_page_lps io_lp_def)
    have lo: "local_page (?h p) = local_page (io_gpa s p)" "sb_order (?h p) = sb_order (io_gpa s p)" for p using h [of p] by simp_all
    have "dev_ok ord ?t" using ctx_dev_ok [OF io_ok_dev [OF io], of ?t] sz by simp
    then have "io_ok ord P ?t" using io m(2,3) lo by (simp add: io_ok_def local_ok_def pg)
    moreover have "contents ord ?t p = contents ord s p" for p
      using g(2) h [of p] by (cases "p = g") (simp_all add: contents_def pg dev_data_def)
    moreover have "clear_fetching_remote (io_cfg s) (io_mrs s) ?c g = Some (m, ?c\<lparr>cm_gpas := ?h\<rparr>)"
      using False put nc m(1) by (simp add: clear_fetching_remote_def free_remote_page_def free_remote_page2_def)
    ultimately show ?thesis using False sz m(4) sb
      by (intro exI [of _ m] exI [of _ ?h]) (simp add: consumed_def fun_eq_iff h gpas_io)
  qed
qed

lemma set_lp_w_dpart [simp]: "dpart (set_lp_w g w s) = dpart s"
  by (simp add: set_lp_w_def dpart_def stat_def fun_eq_iff)

lemma wait_read_async_ok:
  assumes f: "fetching ord P g l page w s t" and g: "g \<in> P" "has_page (mm_gpas (io_mm s)) g"
  shows "\<exists>u. wait_read_async g t = Some (True, u) \<and> io_ok ord P u \<and> (\<forall>p \<in> P. contents ord u p = contents ord s p)
    \<and> local_page (io_gpa u g) = Some l \<and> lp_w (io_lps u l) = None \<and> io_page u g = page
    \<and> remote_page (io_gpa u g) = (if remote_reuse (io_cfg s) then remote_page (io_gpa s g) else FREE_REMOTE_PAGE_VAL)
    \<and> (\<forall>p. p \<noteq> g \<longrightarrow> fixed_part (io_gpa u p) = fixed_part (io_gpa s p))
    \<and> used_slots (memregs (io_mrs u)) = (if remote_reuse (io_cfg s) then used_slots (memregs (io_mrs s))
         else used_slots (memregs (io_mrs s)) - {word_slot ord (remote_page (io_gpa s g))})
    \<and> wr_live (io_dev u) = wr_live (io_dev s)"
proof -
  note F = f [unfolded fetching_def]
  define t2 where "t2 = upd_dev (upd_wr w (\<lambda>h. h\<lparr>wr_refc := wr_refc h - 1\<rparr>)) (upd_dev (\<lambda>d. snd (wait_read w d)) t)"
  have dp: "dpart t2 = dpart t" by (simp add: t2_def)
  have same: "io_gpa t2 = io_gpa t" "io_lps t2 = io_lps t" "io_mrs t2 = io_mrs t" "io_cfg t2 = io_cfg t" "io_cow t2 = io_cow t"
    "io_mm t2 = io_mm t" "io_crps t2 = io_crps t" "wr_live (io_dev t2) = wr_live (io_dev t)"
    "io_wr t2 w' = (if w' = w then (io_wr t w)\<lparr>wr_refc := wr_refc (io_wr t w) - 1\<rparr> else io_wr t w')" for w'
    by (simp_all add: t2_def)
  have fp: "local_page (io_gpa t g) = Some l" "remote_page (io_gpa t g) = remote_page (io_gpa s g)" "sb_order (io_gpa t g) = ord"
    using F fixed_part_parts [of "io_gpa t g" "(io_gpa s g)\<lparr>local_page := Some l\<rparr>"] g(1) by (simp_all add: io_ok_def)
  have io2: "io_ok ord P t2" using dpart_io_ok [OF dp] F by blast
  have g2: "local_page (io_gpa t2 g) \<noteq> None" "has_page (mm_gpas (io_mm t2)) g" using fp g(2) same by simp_all
  from consume_ok [OF io2 g(1) g2] obtain m h where
    c: "clear_fetching_remote (io_cfg t2) (io_mrs t2) \<lparr>cm_store = io_cow t2, cm_live = io_crps t2, cm_gpas = mm_gpas (io_mm t2)\<rparr> g
        = Some (m, \<lparr>cm_store = io_cow t2, cm_live = io_crps t2, cm_gpas = h\<rparr>)"
      "consumed g t2 m h" "io_ok ord P (with_pages m h t2)" "\<And>p. p \<in> P \<Longrightarrow> contents ord (with_pages m h t2) p = contents ord t2 p"
      "\<And>i. map_option mr_size (memregs m ! i) = map_option mr_size (memregs (io_mrs t2) ! i)" by blast
  let ?v = "with_pages m h t2"
  define u where "u = set_lp_w g None (emp_put_subblock g (upd_dev (free_work_request w) ?v))"
  have du: "dpart u = dpart ?v" by (simp add: u_def)
  obtain i k where a: "at_slot ord t2 g i k" using at_slotI [OF io2 g(1) g2(2)] by blast
  then have "memregs (io_mrs t2) ! unat (raw_remote_page_mrid (wr_rp (io_wr t w))) \<noteq> None"
    using at_slot_addr [of i k ord] F fp(2) same(1) by (auto simp: at_slot_def)
  then have m0: "memregs m ! unat (raw_remote_page_mrid (wr_rp (io_wr t w))) \<noteq> None"
    using c(5) [of "unat (raw_remote_page_mrid (wr_rp (io_wr t w)))"] by (metis option.map_disc_iff)
  have "clear_fetching_work_request2 w t2 = Some (upd_dev (free_work_request w) ?v)"
    using c(1) F m0 same(9) [of w] by (simp add: clear_fetching_work_request2_def with_pages_def [symmetric] free_wr_def)
  moreover have "clear_fetching_work_request w t = clear_fetching_work_request2 w t2"
    using F by (simp add: clear_fetching_work_request_def clear_fetching_work_request1_def Let_def t2_def)
  ultimately have "wait_read_async g t = Some (True, u)"
    using F fp(1) by (simp add: wait_read_async_def io_lp_def u_def)
  moreover have "io_ok ord P u" using dpart_io_ok [OF du c(3)] .
  moreover have "contents ord u p = contents ord s p" if "p \<in> P" for p
    using that dpart_contents [OF du] c(4) [OF that] dpart_contents [OF dp] F by simp
  moreover have gp: "fixed_part (io_gpa u p) = fixed_part (h p)" for p using statD(1) [OF dpartD(1) [OF du]] by simp
  moreover have hp: "h p = (if p = g \<and> \<not> remote_reuse (io_cfg s) then (io_gpa t g)\<lparr>remote_page := FREE_REMOTE_PAGE_VAL\<rparr> else io_gpa t p)" for p
    using c(2) F same by (auto simp: consumed_def split: if_splits)
  moreover have "local_page (io_gpa u g) = Some l"
    "remote_page (io_gpa u g) = (if remote_reuse (io_cfg s) then remote_page (io_gpa s g) else FREE_REMOTE_PAGE_VAL)"
    using fixed_part_parts(1,2) [OF gp [of g]] hp [of g] fp by simp_all
  moreover have "fixed_part (io_gpa u p) = fixed_part (io_gpa s p)" if "p \<noteq> g" for p
    using that gp [of p] hp [of p] F by simp
  moreover have "io_mrs u = m" by (simp add: u_def set_lp_w_def emp_put_subblock_def)
  moreover have "wr_live (io_dev u) = wr_live (io_dev s)"
    using F same(8) by (auto simp: u_def set_lp_w_def)
  moreover have "io_page u g = page"
  proof -
    have "lp_page (io_lps u l) = lp_page (io_lps t l)"
      using statD(2) [OF dpartD(1) [OF du], of l] same(2) by simp
    then show ?thesis using F fp(1) fixed_part_parts(1) [OF gp [of g]] hp [of g] by (auto simp: io_page_lps io_lp_def)
  qed
  moreover have "lp_w (io_lps u l) = None" using fp(1) hp [of g] by (simp add: u_def set_lp_w_def io_lp_def)
  ultimately show ?thesis
    using c(2) F same fp(2,3) by (intro exI [of _ u]) (simp add: consumed_def split: if_splits)
qed

lemma fetch_ok:
  assumes io: "io_ok ord P s" and e: "env_ok ord e" "finite (wr_live (io_dev s))"
    and g: "g \<in> P" "local_page (io_gpa s g) = None" "has_page (mm_gpas (io_mm s)) g" and at: "attachable ord P l page s"
  shows "\<exists>t u. fetch_subblock e (Some l) vmr g idx ord page cpu None False stale rmask s = Some (1, t)
    \<and> wait_read_async g t = Some (True, u) \<and> io_ok ord P u \<and> (\<forall>p \<in> P. contents ord u p = contents ord s p)
    \<and> local_page (io_gpa u g) = Some l \<and> io_page u g = page \<and> lp_w (io_lps u l) = None
    \<and> remote_page (io_gpa u g) = (if remote_reuse (io_cfg s) then remote_page (io_gpa s g) else FREE_REMOTE_PAGE_VAL)
    \<and> used_slots (memregs (io_mrs u)) = (if remote_reuse (io_cfg s) then used_slots (memregs (io_mrs s))
         else used_slots (memregs (io_mrs s)) - {word_slot ord (remote_page (io_gpa s g))})
    \<and> (\<forall>p. p \<noteq> g \<longrightarrow> fixed_part (io_gpa u p) = fixed_part (io_gpa s p)) \<and> wr_live (io_dev u) = wr_live (io_dev s)"
proof -
  obtain w t where t: "fetch_subblock e (Some l) vmr g idx ord page cpu None False stale rmask s = Some (1, t)"
    "fetching ord P g l page w s t" using fetch_subblock_ok [OF assms] by blast
  from wait_read_async_ok [OF t(2) g(1,3)] t(1) show ?thesis by blast
qed

end
