(* ===== verification/Io_Claims.thy ===== *)
theory Io_Claims
  imports Io_Fetch Remote_Claims Lru_Claims Inactive_Claims Page_Claims
begin

text \<open>
  The properties of the memory device and of the transfers.
\<close>

section \<open>The memory device\<close>

text \<open>
  C9: What is written to a slot of a memory device is what a later read of that slot delivers, whatever
  the device held there (an entry of the array not filled yet, an old page, the memory of a user
  process), and a read of any other slot delivers what it would have delivered before the write.
\<close>

theorem device_read_back:
  assumes "contexts s conn = Some c" and "ctx_ok ord slots c" and "\<not> mr_closing s conn"
    and "k < slots" and "k' < slots" and "pool (wr_live s) = Some w" and "pool (insert w (wr_live s)) = Some w'"
    and "fresh_ok ord new_page" and "length (pg_data s page) = 2 ^ ord" and "length (pg_data s page') = 2 ^ ord"
  shows "\<exists>s' s''. post_write pool new_page True ord conn gpa page (k * 2 ^ ord) (2 ^ ord) rp None s = Some (Inr w, s')
    \<and> post_read pool True conn gpa' page' (k' * 2 ^ ord) (2 ^ ord) rp' None s' = Some (Inr w', s'')
    \<and> pg_data s'' = (pg_data s)(page' := if k' = k then pg_data s page else ctx_read c (2 ^ ord) (k' * 2 ^ ord))"
proof -
  obtain s' c' where w: "post_write pool new_page True ord conn gpa page (k * 2 ^ ord) (2 ^ ord) rp None s = Some (Inr w, s')"
    "posts TYPE_WB conn gpa rp w None s s'" "pg_data s' = pg_data s" "contexts s' conn = Some c'" "ctx_ok ord slots c'"
    "ctx_read c' (2 ^ ord) (k * 2 ^ ord) = pg_data s page"
    "\<forall>k' < slots. k' \<noteq> k \<longrightarrow> ctx_read c' (2 ^ ord) (k' * 2 ^ ord) = ctx_read c (2 ^ ord) (k' * 2 ^ ord)"
    using post_write_ok [where kmem = pool and head = None and gpa = gpa and rp = rp, OF assms(1-4,6) _ assms(8) TrueI assms(9)] by auto
  have m: "\<not> mr_closing s' conn" "pool (wr_live s') = Some w'" using w(2) assms(3,7) by (simp_all add: posts_def)
  have l: "length (pg_data s' page') = 2 ^ ord" using w(3) assms(10) by simp
  from post_read_ok [where kmem = pool and head = None and gpa = gpa' and rp = rp', OF w(4,5) m(1) assms(5) m(2) _ TrueI l] obtain s'' where
    r: "post_read pool True conn gpa' page' (k' * 2 ^ ord) (2 ^ ord) rp' None s' = Some (Inr w', s'')"
      "pg_data s'' = (pg_data s')(page' := ctx_read c' (2 ^ ord) (k' * 2 ^ ord))" by auto
  then show ?thesis using w(1,3,6,7) assms(5) by (intro exI [of _ s'] exI [of _ s'']) simp
qed

text \<open>A region of one megabyte just connected, and two local pages.\<close>

definition ex_dev :: io_mem where
  "ex_dev = \<lparr>wrs = (\<lambda>_. \<lparr>subsibling = [], wr_gpa = 0, wr_ty = TYPE_WB, wr_refc = 0, wr_size = 0, wr_st = STATE_INIT,
       wr_context = 0, m_errors = 0, head_wr = 0, eh_wr = None, entangled_wr_len = 0, wr_rp = 0, remote_pages = [],
       chained_ops = False\<rparr>),
     wr_live = {}, mr_wr_len = (\<lambda>_. 0), mr_closing = (\<lambda>_. False),
     contexts = (\<lambda>i. if i = 0 then snd (memdev_create_conn 1 1 None True True True True) else None),
     pg_data = (\<lambda>p. replicate 2 (replicate 512 (of_nat p))), pg_count = (\<lambda>_. 1)\<rparr>"

lemma device_read_back_witness:
  "\<exists>s' s''. post_write (\<lambda>A. if A = {} then Some 4 else Some 5) (Some (zero_pages 2)) True 1 0 0 7 6 2 0 None ex_dev = Some (Inr 4, s')
    \<and> post_read (\<lambda>A. if A = {} then Some 4 else Some 5) True 0 1 8 6 2 0 None s' = Some (Inr 5, s'')
    \<and> pg_data s'' 8 = replicate 2 (replicate 512 7)"
proof -
  define c where "c = \<lparr>memdev_map = Some (replicate 128 None), memdev_ptr = (\<lambda>_. []), ctx_wr_len = 0, ctx_destroying = False\<rparr>"
  have c: "contexts ex_dev 0 = Some c"
    by (simp add: ex_dev_def memdev_create_conn_def c_def MB_TO_PAGE_def Let_def drop_bit_eq_div)
  have ok: "ctx_ok 1 128 c" by (simp add: ctx_ok_def c_def list_all_iff)
  have "\<not> mr_closing ex_dev 0" "fresh_ok 1 (Some (zero_pages 2))" "length (pg_data ex_dev 7) = 2 ^ 1" "length (pg_data ex_dev 8) = 2 ^ 1"
    "wr_live ex_dev = {}" by (simp_all add: ex_dev_def fresh_ok_def zero_pages_def)
  from device_read_back [OF c ok this(1), of 3 3 "\<lambda>A. if A = {} then Some 4 else Some 5" 4 5 "Some (zero_pages 2)" 7 8 0 0 1 0]
    this show ?thesis by (auto simp: ex_dev_def)
qed

section \<open>Critical page first\<close>



text \<open>
  A small system: a block of four subblocks, each with its local page, one region of four slots on \<open>ex_dev\<close>.
\<close>

definition io_block :: "gpa_ptr \<Rightarrow> emp_gpa" where
  "io_block p = ex_gpa\<lparr>r_state := GPA_INACTIVE, local_page := if p < 4 then Some p else None\<rparr>"

definition ex_io :: emp_io where
  "ex_io = \<lparr>io_mm = ex_mm\<lparr>mm_gpas := io_block, mm_lps := (\<lambda>l. (Lru_Claims.ex_lp l)\<lparr>lp_gpa := l\<rparr>)\<rparr>,
     io_mrs = ex_mrs 1, io_cfg = ex_cfg 1, io_cow = ex_store, io_crps = {}, io_ftm = ex_ftm, io_dev = ex_dev,
     io_pages = (\<lambda>_. \<lparr>pg_mlocked = True, pg_private = 0\<rparr>), io_ewbr = (\<lambda>_. 0)\<rparr>"


section \<open>Write-back and fetch\<close>

definition io_ex_env :: io_env where
  "io_ex_env = \<lparr>kmem = (\<lambda>A. Some (if A = {} then 0 else Suc (Max A))), node_page = Some (zero_pages 2), user_ok = True,
     steals = (\<lambda>_. 0), trylocks = (\<lambda>_. True)\<rparr>"

lemma io_ex_env_ok: "env_ok 1 io_ex_env"
proof -
  have "Suc (Max A) \<notin> A" if "finite A" for A :: "nat set" using Max_ge [OF that, of "Suc (Max A)"] by auto
  then show ?thesis by (auto simp: env_ok_def io_ex_env_def fresh_ok_def zero_pages_def)
qed

lemma ex_io_parts:
  "io_gpa ex_io p = io_block p" "io_mrs ex_io = ex_mrs 1" "io_cfg ex_io = ex_cfg 1" "io_cow ex_io = ex_store"
  "io_dev ex_io = ex_dev" "io_lps ex_io l = (Lru_Claims.ex_lp l)\<lparr>lp_gpa := l\<rparr>" "io_wr ex_io w = wrs ex_dev w"
  by (simp_all add: ex_io_def io_gpa_def io_lps_def io_wr_def del: io_acc)

lemma io_block_simps [simp]:
  "num_subblock_in_block (io_block p) = 4" "sb_order (io_block p) = 1" "remote_page (io_block p) = FREE_REMOTE_PAGE_VAL"
  "local_page (io_block p) = (if p < 4 then Some p else None)" "block_order (io_block p) = 3" "desc_order (io_block p) = 2"
  by (simp_all add: io_block_def ex_gpa_def num_subblock_in_block_def)

lemma ex_io_page: "p < 4 \<Longrightarrow> io_page ex_io p = p"
  by (simp add: io_page_lps io_lp_def ex_io_parts Lru_Claims.ex_lp_def)

lemma ex_io_ok: "io_ok 1 {..<4} ex_io"
proof -
  have m: "mrs_ok 1 (ex_mrs 1)" by (rule ex_mrs_ok) (simp add: MAX_MRID_def)
  have c: "contexts ex_dev 0 = Some \<lparr>memdev_map = Some (replicate 128 None), memdev_ptr = (\<lambda>_. []), ctx_wr_len = 0, ctx_destroying = False\<rparr>"
    by (simp add: ex_dev_def memdev_create_conn_def MB_TO_PAGE_def Let_def drop_bit_eq_div)
  have d: "dev_ok 1 ex_io" unfolding dev_ok_def
  proof (intro allI impI)
    fix i r assume "i < 256 \<and> memregs (io_mrs ex_io) ! i = Some r"
    then have "i = 0" "r = ex_region 0" by (auto simp: ex_io_parts split: if_splits)
    then show "\<exists>c. contexts (io_dev ex_io) i = Some c \<and> ctx_ok 1 (mr_slots 1 r) c \<and> \<not> mr_closing (io_dev ex_io) i"
      using c by (simp add: ex_io_parts ctx_ok_def list_all_iff mr_slots_def ex_region_def drop_bit_eq_div)
        (simp add: ex_dev_def)
  qed
  have "local_ok 1 {..<4} ex_io"
    unfolding local_ok_def
  proof
    show "inj_on (io_page ex_io) {p \<in> {..<4}. local_page (io_gpa ex_io p) \<noteq> None}"
      by (auto simp: inj_on_def ex_io_page)
    show "\<forall>p \<in> {..<4}. \<forall>l. local_page (io_gpa ex_io p) = Some l \<longrightarrow>
       lp_gpa (mm_lps (io_mm ex_io) l) = p \<and> length (pg_data (io_dev ex_io) (lp_page (mm_lps (io_mm ex_io) l))) = 2 ^ 1"
      by (simp add: ex_io_parts) (simp add: ex_dev_def)
  qed
  moreover have "pages_ok 1 t (mm_gpas (io_mm ex_io)) P" for t P
    by (simp add: pages_ok_def ex_io_parts is_remote_page_free_def)
  ultimately show ?thesis using m d by (simp add: io_ok_def ex_io_parts) (simp add: ex_cfg_def)
qed

lemma ex_io_block: "block_gpas (mm_gpas (io_mm ex_io)) 0 = {..<4}"
  by (auto simp: block_gpas_def ex_io_parts)

lemma ex_io_evictable: "evictable 1 {..<4} 0 ex_io"
proof -
  have "alloc_pre (ex_cfg 1) (ex_mrs 1) (mm_gpas (io_mm ex_io)) 0" by (simp add: alloc_pre_def ring_ok_def ex_cfg_def)
  moreover have "orders_ok (io_block 0)" by (simp add: orders_ok_def io_block_def ex_gpa_def BLOCK_MAX_ORDER_def)
  moreover have "\<not> is_gpa_flags_set (io_block 0) GPA_PREFETCHED_MASK" by (simp add: io_block_def ex_gpa_def is_gpa_flags_set_def)
  ultimately show ?thesis
    unfolding evictable_def ex_io_block by (simp add: ex_io_parts) (simp add: ex_mrs_def Lru_Claims.ex_lp_def)
qed

lemma ex_io_pool: "pool_ok ex_io"
  by (simp add: pool_ok_def ex_io_parts) (simp add: ex_dev_def)

lemma ex_io_alloc: "\<exists>m h. alloc_remote_page (io_cfg ex_io) (io_cow ex_io) (io_mrs ex_io) (mm_gpas (io_mm ex_io)) 0 = Some (True, m, h)"
  by (simp add: alloc_eval ex_io_parts ex_cfg_def ex_region_def)

lemma ex_io_head: "emp_get_block_head (mm_gpas (io_mm ex_io)) 0 = 0"
  by (simp add: emp_get_block_head_def emp_get_block_head_at_def)

text \<open>
  C11: Writing a resident block back to memory devices loses nothing.  The memory is consistent
  (\<open>io_ok\<close>: a device serves each region, each page has its own slot, each local page its descriptor), the
  block is resident, not prefetched, has no request in flight and is sent by subblocks (\<open>evictable\<close>), the
  donors have room, and no allocation or user copy fails (\<open>env_ok\<close>).  Then \<^verbatim>\<open>evict_block()\<close> posts the block: each subblock
  still has its local page, and the slot of its remote page holds what it contains.  Clearing the
  posted requests then frees the local pages of the block and only them, gives every request back, takes the
  block off the length of the inactive list and returns the number of pages of the block.  At both
  points every descriptor contains what it did before.
\<close>

theorem write_back_keeps_memory:
  assumes "io_ok ord P s" and "evictable ord P head s" and "env_ok ord e" and "pool_ok s"
    and "alloc_remote_page (io_cfg s) (io_cow s) (io_mrs s) (mm_gpas (io_mm s)) head = Some (True, m, h)"
    and "emp_get_block_head (mm_gpas (io_mm s)) head = head"
  shows "\<exists>w t u. evict_block e cpu head False s = Some (Inr w, t)
    \<and> clear_writeback_block2 e cpu' True w t = Some (int (gpa_block_size (io_gpa s head)), u)
    \<and> (\<forall>p \<in> P. contents ord t p = contents ord s p \<and> contents ord u p = contents ord s p)
    \<and> (\<forall>g \<in> block_gpas (mm_gpas (io_mm s)) head. r_state (io_gpa t g) = GPA_WB \<and> dev_data ord t g = contents ord s g
         \<and> local_page (io_gpa t g) = local_page (io_gpa s g) \<and> local_page (io_gpa u g) = None \<and> has_page (mm_gpas (io_mm u)) g)
    \<and> (\<forall>p. p \<notin> block_gpas (mm_gpas (io_mm s)) head \<longrightarrow> local_page (io_gpa u p) = local_page (io_gpa s p)
         \<and> remote_page (io_gpa u p) = remote_page (io_gpa s p))
    \<and> (\<forall>l. lp_page (io_lps u l) = lp_page (io_lps s l)) \<and> pg_data (io_dev u) = pg_data (io_dev s)
    \<and> io_ok ord P u \<and> pool_ok u \<and> wr_live (io_dev u) = wr_live (io_dev s)
    \<and> slru_page_len (io_mm u) INACTIVE_LIST = slru_page_len (io_mm s) INACTIVE_LIST - int (gpa_block_size (io_gpa s head))"
  using assms by (rule write_back_ok)

lemma write_back_keeps_memory_witness:
  "\<exists>w t u. evict_block io_ex_env (- 2) 0 False ex_io = Some (Inr w, t)
    \<and> clear_writeback_block2 io_ex_env (- 2) True w t = Some (8, u)
    \<and> contents 1 u 2 = replicate 2 (replicate 512 2) \<and> local_page (io_gpa u 2) = None"
proof -
  obtain m h where a: "alloc_remote_page (io_cfg ex_io) (io_cow ex_io) (io_mrs ex_io) (mm_gpas (io_mm ex_io)) 0 = Some (True, m, h)"
    using ex_io_alloc by blast
  have c: "contents 1 ex_io 2 = replicate 2 (replicate 512 2)"
    by (simp add: contents_def ex_io_parts ex_io_page) (simp add: ex_dev_def)
  from write_back_keeps_memory [OF ex_io_ok ex_io_evictable io_ex_env_ok ex_io_pool a ex_io_head, of "- 2" "- 2"]
  show ?thesis unfolding ex_io_block by (auto simp: c ex_io_parts gpa_block_size_def simp del: One_nat_def)
qed

text \<open>
  Fetching a subblock that has only its remote page, into a local page nobody uses: one request is
  posted, waiting for it succeeds, every descriptor contains what it did before, and the subblock now
  has that local page.  The slot of its remote page stays allocated when remote pages are reused and is
  given back, alone, when they are not.
\<close>

theorem fetch_keeps_memory:
  assumes "io_ok ord P s" and "env_ok ord e" and "finite (wr_live (io_dev s))"
    and "g \<in> P" and "local_page (io_gpa s g) = None" and "has_page (mm_gpas (io_mm s)) g" and "attachable ord P l page s"
  shows "\<exists>t u. fetch_subblock e (Some l) vmr g idx ord page cpu None False stale rmask s = Some (1, t)
    \<and> wait_read_async g t = Some (True, u) \<and> io_ok ord P u \<and> (\<forall>p \<in> P. contents ord u p = contents ord s p)
    \<and> local_page (io_gpa u g) = Some l \<and> io_page u g = page \<and> lp_w (io_lps u l) = None
    \<and> remote_page (io_gpa u g) = (if remote_reuse (io_cfg s) then remote_page (io_gpa s g) else FREE_REMOTE_PAGE_VAL)
    \<and> used_slots (memregs (io_mrs u)) = (if remote_reuse (io_cfg s) then used_slots (memregs (io_mrs s))
         else used_slots (memregs (io_mrs s)) - {word_slot ord (remote_page (io_gpa s g))})
    \<and> (\<forall>p. p \<noteq> g \<longrightarrow> fixed_part (io_gpa u p) = fixed_part (io_gpa s p)) \<and> wr_live (io_dev u) = wr_live (io_dev s)"
  using assms by (rule fetch_ok)

lemma fetch_keeps_memory_witness:
  "\<exists>s t u. contents 1 s 2 = replicate 2 (replicate 512 2) \<and> local_page (io_gpa s 2) = None
    \<and> fetch_subblock io_ex_env (Some 9) 0 2 2 1 9 (- 2) None False False False s = Some (1, t) \<and> wait_read_async 2 t = Some (True, u)
    \<and> contents 1 u 2 = replicate 2 (replicate 512 2) \<and> io_page u 2 = 9"
proof -
  obtain m h where a: "alloc_remote_page (io_cfg ex_io) (io_cow ex_io) (io_mrs ex_io) (mm_gpas (io_mm ex_io)) 0 = Some (True, m, h)"
    using ex_io_alloc by blast
  obtain w t s where s: "\<forall>p \<in> {..<4}. contents 1 s p = contents 1 ex_io p"
    "\<forall>g \<in> {..<4}. local_page (io_gpa s g) = None \<and> has_page (mm_gpas (io_mm s)) g"
    "pg_data (io_dev s) = pg_data (io_dev ex_io)" "io_ok 1 {..<4} s" "pool_ok s"
    using write_back_ok [OF ex_io_ok ex_io_evictable io_ex_env_ok ex_io_pool a ex_io_head, of "- 2" "- 2"]
    unfolding ex_io_block by blast
  have c: "contents 1 ex_io 2 = replicate 2 (replicate 512 2)"
    by (simp add: contents_def ex_io_parts ex_io_page) (simp add: ex_dev_def)
  have l: "length (pg_data (io_dev s) 9) = 2 ^ 1" by (simp add: s(3) ex_io_parts) (simp add: ex_dev_def)
  have at: "attachable 1 {..<4} 9 9 s" using s(2) l by (simp add: attachable_def)
  have f: "finite (wr_live (io_dev s))" using s(5) by (simp only: pool_ok_def)
  have g: "(2::nat) \<in> {..<4}" "local_page (io_gpa s 2) = None" "has_page (mm_gpas (io_mm s)) 2" using s(2) by auto
  from fetch_keeps_memory [OF s(4) io_ex_env_ok f g at, of 0 2 "- 2" False False] obtain t u where
    u: "fetch_subblock io_ex_env (Some 9) 0 2 2 1 9 (- 2) None False False False s = Some (1, t)"
      "wait_read_async 2 t = Some (True, u)" "\<forall>p \<in> {..<4}. contents 1 u p = contents 1 s p" "io_page u 2 = 9" by blast
  have "contents 1 s 2 = replicate 2 (replicate 512 2)" "contents 1 u 2 = contents 1 s 2"
    using bspec [OF s(1) g(1)] bspec [OF u(3) g(1)] c by simp_all
  then show ?thesis using u(1,2,4) g(2) by (intro exI [of _ s] exI [of _ t] exI [of _ u]) simp
qed

text \<open>
  C10: A block that was written back to memory devices and cleared comes back unchanged, in a
  consistent memory (\<open>io_ok\<close>), for a resident block with nothing in flight (\<open>evictable\<close>), donors with room, and
  no allocation or user copy that fails (\<open>env_ok\<close>): fetching any of its subblocks into a local
  page that no descriptor outside the block uses (\<open>spare\<close>) fills that page with exactly the words the
  subblock's local page held before the write-back, whatever was in the new page, and every descriptor
  contains what it did at the start.
\<close>

theorem evicted_block_comes_back:
  assumes "io_ok ord P s" and "evictable ord P head s" and "env_ok ord e" and "pool_ok s"
    and "alloc_remote_page (io_cfg s) (io_cow s) (io_mrs s) (mm_gpas (io_mm s)) head = Some (True, m, h)"
    and "emp_get_block_head (mm_gpas (io_mm s)) head = head" and "g \<in> block_gpas (mm_gpas (io_mm s)) head"
    and "spare ord P head l page s"
  shows "\<exists>w t u v x. evict_block e cpu head False s = Some (Inr w, t)
    \<and> clear_writeback_block2 e cpu' True w t = Some (int (gpa_block_size (io_gpa s head)), u) \<and> local_page (io_gpa u g) = None
    \<and> fetch_subblock e (Some l) vmr g idx ord page cpu None False stale rmask u = Some (1, v)
    \<and> wait_read_async g v = Some (True, x) \<and> local_page (io_gpa x g) = Some l \<and> io_page x g = page
    \<and> pg_data (io_dev x) page = pg_data (io_dev s) (io_page s g) \<and> (\<forall>p \<in> P. contents ord x p = contents ord s p)"
proof -
  let ?B = "block_gpas (mm_gpas (io_mm s)) head"
  obtain w t u where u: "evict_block e cpu head False s = Some (Inr w, t)"
    "clear_writeback_block2 e cpu' True w t = Some (int (gpa_block_size (io_gpa s head)), u)"
    "\<forall>p \<in> P. contents ord u p = contents ord s p"
    "\<forall>g \<in> ?B. local_page (io_gpa u g) = None" "has_page (mm_gpas (io_mm u)) g"
    "\<forall>p. p \<notin> ?B \<longrightarrow> local_page (io_gpa u p) = local_page (io_gpa s p)"
    "\<forall>l. lp_page (io_lps u l) = lp_page (io_lps s l)" "pg_data (io_dev u) = pg_data (io_dev s)" "io_ok ord P u" "pool_ok u"
    using write_back_ok [OF assms(1-6), of cpu cpu'] assms(7) by blast
  have g: "g \<in> P" "local_page (io_gpa s g) \<noteq> None" using assms(2,7) by (auto simp: evictable_def)
  have l: "local_page (io_gpa u g) = None" using u(4) assms(7) by blast
  have f: "finite (wr_live (io_dev u))" using u(10) by (simp only: pool_ok_def)
  from fetch_ok [OF u(9) assms(3) f g(1) l u(5) spare_attachable [OF assms(8) u(4,6-8)], of vmr idx cpu stale rmask]
  obtain v x where x: "fetch_subblock e (Some l) vmr g idx ord page cpu None False stale rmask u = Some (1, v)"
    "wait_read_async g v = Some (True, x)" "\<forall>p \<in> P. contents ord x p = contents ord u p"
    "local_page (io_gpa x g) = Some l" "io_page x g = page" by blast
  have "contents ord x g = contents ord s g" using x(3) u(3) g(1) by simp
  then have "pg_data (io_dev x) page = pg_data (io_dev s) (io_page s g)" using x(4,5) g(2) by (simp add: contents_def)
  then show ?thesis using u(1-3) l x by (intro exI [of _ w] exI [of _ t] exI [of _ u] exI [of _ v] exI [of _ x]) simp
qed

lemma evicted_block_comes_back_witness:
  "\<exists>w t u v x. evict_block io_ex_env (- 2) 0 False ex_io = Some (Inr w, t) \<and> clear_writeback_block2 io_ex_env (- 2) True w t = Some (8, u)
    \<and> local_page (io_gpa u 2) = None \<and> fetch_subblock io_ex_env (Some 9) 0 2 2 1 9 (- 2) None False False False u = Some (1, v)
    \<and> wait_read_async 2 v = Some (True, x) \<and> pg_data (io_dev x) 9 = replicate 2 (replicate 512 2)"
proof -
  obtain m h where a: "alloc_remote_page (io_cfg ex_io) (io_cow ex_io) (io_mrs ex_io) (mm_gpas (io_mm ex_io)) 0 = Some (True, m, h)"
    using ex_io_alloc by blast
  have sp: "spare 1 {..<4} 0 9 9 ex_io" by (simp add: spare_def ex_io_block ex_io_parts) (simp add: ex_dev_def)
  have g: "2 \<in> block_gpas (mm_gpas (io_mm ex_io)) 0" by (simp add: ex_io_block)
  have d: "pg_data (io_dev ex_io) (io_page ex_io 2) = replicate 2 (replicate 512 2)"
    by (simp add: ex_io_page ex_io_parts) (simp add: ex_dev_def)
  from evicted_block_comes_back [OF ex_io_ok ex_io_evictable io_ex_env_ok ex_io_pool a ex_io_head g sp, of "- 2" "- 2" 0 2 False False]
  show ?thesis unfolding d by (auto simp: ex_io_parts gpa_block_size_def simp del: One_nat_def)
qed

text \<open>
  The error exit of \<^verbatim>\<open>evict_block()\<close> does not come back when the first subblock was posted and the second
  cannot be, because its region is closing or its device going away: the loop that should take the posted
  siblings runs while there are none.
\<close>

theorem evict_error_never_returns:
  assumes "clear_block_w e cpu head s = Some s"
    and "list_all (has_page (mm_gpas (io_mm s))) (for_each_gpas (mm_gpas (io_mm s)) head)"
    and "evict_dma_size (io_cfg s) (io_mrs s) (io_gpa s head) = 2 ^ ord" and "2 \<le> num_subblock_in_block (io_gpa s head)"
    and "memregs (io_mrs s) ! i = Some r" and "k < mr_slots ord r" and "contexts (io_dev s) i = Some c"
    and "ctx_ok ord (mr_slots ord r) c" and "\<not> mr_closing (io_dev s) i" and "env_ok ord e" and "pool_ok s"
    and "at_slot ord s head i k" and "sb_order (io_gpa s head) = ord"
    and "length (pg_data (io_dev s) (io_page s head)) = 2 ^ ord"
    and "at_slot ord s (Suc head) j n" and "conn_unusable (io_dev s) j" and "j \<noteq> i"
  shows "evict_block e cpu head False s = None"
  using assms by (rule evict_error_hangs)

text \<open>Two regions, every subblock in one of the second, which no donor serves any more.\<close>

definition ex_gone :: emp_io where
  "ex_gone = ex_io\<lparr>io_mrs := ex_mrs 2, io_mm := (io_mm ex_io)\<lparr>mm_gpas :=
     (\<lambda>p. (io_block p)\<lparr>remote_page := slot_word 1 (if p = 0 then 0 else 1, p)\<rparr>)\<rparr>\<rparr>"

lemma evict_error_never_returns_witness: "evict_block io_ex_env (- 2) 0 False ex_gone = None"
proof -
  have g: "io_gpa ex_gone p = (io_block p)\<lparr>remote_page := slot_word 1 (if p = 0 then 0 else 1, p)\<rparr>" for p
    by (simp add: ex_gone_def io_gpa_def del: io_acc)
  have r: "io_mrs ex_gone = ex_mrs 2" "io_cfg ex_gone = ex_cfg 1" "io_dev ex_gone = ex_dev" "io_cow ex_gone = ex_store"
    "io_lps ex_gone l = (Lru_Claims.ex_lp l)\<lparr>lp_gpa := l\<rparr>" for l
    by (simp_all add: ex_gone_def ex_io_def io_lps_def del: io_acc)
  have hp: "has_page (mm_gpas (io_mm ex_gone)) p" if "p < 4" for p
    using slot_word_facts(2) [of "if p = 0 then 0 else 1" p 1] that by (simp add: g)
  have m: "memregs (io_mrs ex_gone) ! 0 = Some (ex_region 0)" "memregs (io_mrs ex_gone) ! 1 = Some (ex_region 1)"
    by (simp_all add: r ex_mrs_def)
  have c: "contexts (io_dev ex_gone) 0 = Some \<lparr>memdev_map = Some (replicate 128 None), memdev_ptr = (\<lambda>_. []), ctx_wr_len = 0, ctx_destroying = False\<rparr>"
    by (simp add: r) (simp add: ex_dev_def memdev_create_conn_def MB_TO_PAGE_def Let_def drop_bit_eq_div)
  show ?thesis
  proof (rule evict_error_never_returns [where ord = 1 and i = 0 and k = 0 and j = 1 and n = 1, OF _ _ _ _ m(1) _ c])
    show "clear_block_w io_ex_env (- 2) 0 ex_gone = Some ex_gone"
      by (simp add: clear_block_w_def g r io_lp_def Lru_Claims.ex_lp_def is_gpa_flags_set_def) (simp add: io_block_def ex_gpa_def)
    show "list_all (has_page (mm_gpas (io_mm ex_gone))) (for_each_gpas (mm_gpas (io_mm ex_gone)) 0)"
      using hp by (simp add: list_all_iff set_for_each block_gpas_def g num_subblock_in_block_def)
    show "evict_dma_size (io_cfg ex_gone) (io_mrs ex_gone) (io_gpa ex_gone 0) = 2 ^ 1"
      by (rule evict_dma_size_eq) (simp_all add: r g ex_cfg_def ex_mrs_def)
    show "ctx_ok 1 (mr_slots 1 (ex_region 0)) \<lparr>memdev_map = Some (replicate 128 None), memdev_ptr = (\<lambda>_. []), ctx_wr_len = 0, ctx_destroying = False\<rparr>"
      by (simp add: ctx_ok_def list_all_iff mr_slots_def ex_region_def drop_bit_eq_div)
    show "pool_ok ex_gone" using ex_io_pool by (simp add: pool_ok_def ex_gone_def io_wr_def del: io_acc)
    show "at_slot 1 ex_gone 0 0 0" "at_slot 1 ex_gone (Suc 0) 1 1"
      using m by (simp_all add: at_slot_def g mr_slots_def ex_region_def drop_bit_eq_div)
    show "length (pg_data (io_dev ex_gone) (io_page ex_gone 0)) = 2 ^ 1" by (simp add: r) (simp add: ex_dev_def)
    show "conn_unusable (io_dev ex_gone) 1" by (simp add: r conn_unusable_def ex_dev_def)
    show "\<not> mr_closing (io_dev ex_gone) 0" by (simp add: r ex_dev_def)
    show "env_ok 1 io_ex_env" by (rule io_ex_env_ok)
  qed (simp_all add: g num_subblock_in_block_def mr_slots_def ex_region_def)
qed

section \<open>Entering the inactive list\<close>



end
