(* ===== verification/Spec2Isabelle.thy ===== *)
theory Spec2Isabelle
  imports Remote_Claims Page_Claims Block_Claims Lru_Claims Els_Claims Cow_Claims Lock_Claims Inactive_Claims Io_Claims
begin

text \<open>
  A verification library for the memory expander EMP (\<^verbatim>\<open>src/module_gpl\<close>): the kernel module that lets a
  virtual machine or process use more memory than the host gives it, by keeping most of it on remote
  donors and a cache of it in local pages.

  \<^bold>\<open>The program.\<close>  A mapping is cut into subblocks; each has a descriptor (\<^verbatim>\<open>struct emp_gpa\<close>).  An aligned
  power of two of subblocks is a block, the unit of locking and of reclaim, and its first descriptor
  is its head.  A descriptor may have a local page (\<^verbatim>\<open>struct local_page\<close>) and a remote page (a word that
  names a region of a donor and an offset in it).  A page fault takes a free local page and links the block
  to the active list; reclaim takes victims from the proactive, active and inactive lists and writes
  them to remote pages; a fork shares the remote pages of both processes through counted records.

  \<^bold>\<open>The configuration\<close> modelled is the one \<^verbatim>\<open>src/Makefile.inc\<close> builds (see \<open>Emp_Prelude\<close>): user and VM
  mode, blocks, elastic blocks and several donors.

  \<^bold>\<open>Theories and code.\<close>
  \<^item> \<open>Emp_Prelude\<close>: machine types, generic lemmas on lists, masks and aligned numbers, the collections.
  \<^item> \<open>Gpa\<close> (\<^verbatim>\<open>emp_type.h\<close>, \<^verbatim>\<open>gpa.h\<close>): the descriptor as a record, its flag word, its four 4-bit orders.
  \<^item> \<open>Remote_Page\<close> (\<^verbatim>\<open>remote_page.h\<close>): the 64-bit word of a remote page, with the encodings of a region,
    of no page and of a pointer to a shared record.
  \<^item> \<open>Donor_Mgmt\<close> (\<^verbatim>\<open>donor_mgmt.c\<close>): the table of regions, \<open>create_mr\<close> with every error exit,
    \<open>disconnect_mrs\<close>; the connection, the size of a donor and the allocators are arguments.
  \<^item> \<open>Remote_Alloc\<close>, \<open>Remote_Policy\<close>, \<open>Remote_System\<close> (\<^verbatim>\<open>remote_page.c\<close>): the three allocation policies
    and the release; what they promise over an abstract table of slots; and donors, allocation and
    release as one transition system (\<open>remote_step\<close>) with its reachable states.
  \<^item> \<open>Cow_Remote\<close> (\<^verbatim>\<open>cow.c\<close>, \<^verbatim>\<open>remote_page_release()\<close>): the counted records a fork shares remote pages by,
    with the rollback of a failing fork, as a transition system \<open>cow_step\<close> of forks of blocks that have
    all their remote pages.
  \<^item> \<open>Local_Page\<close> (\<^verbatim>\<open>local_page.c\<close>): the local page and the circular list of the page tables that map it.
  \<^item> \<open>Vmdesc_View\<close> (\<^verbatim>\<open>gpa.c\<close>): the ranges of a shared file that its mappings see.
  \<^item> \<open>Emp_List\<close> (\<^verbatim>\<open>lru.h\<close>): counted lists; the locale \<open>counted_list\<close> states their contract.
  \<^item> \<open>Vcpu_Ring\<close> (\<^verbatim>\<open>vcpu_var.h\<close>): the cyclic walk over I/O threads and virtual cpus.
  \<^item> \<open>Free_Pages\<close> (\<^verbatim>\<open>alloc.c\<close>): the free lists and the loop of \<^verbatim>\<open>_alloc_pages()\<close>.
  \<^item> \<open>Gpa_Block\<close> (\<^verbatim>\<open>block.h\<close>, \<^verbatim>\<open>vm.h\<close>): heads of blocks, the directory of descriptors, its scans.
  \<^item> \<open>Gpa_Regions\<close> (\<^verbatim>\<open>gpa.c\<close>): the layout of the descriptors of a mapping and their creation on demand.
  \<^item> \<open>Block_Lock\<close>, \<open>Els_Lock\<close> (\<^verbatim>\<open>block.h\<close>): the locking loops as program counters of interleaved threads,
    and the resizing of blocks as steps of that protocol.
  \<^item> \<open>Els_Block\<close> (\<^verbatim>\<open>els_block.c\<close>): stretching two buddies to one block and reducing a block.  Stretching has no
    result when it meets a missing local page, which the code dereferences, or a cpu without a pin list.
  \<^item> \<open>Lru_Lists\<close>, \<open>Lru_Inv\<close>, \<open>Victims\<close> (\<^verbatim>\<open>lru.h\<close>, \<^verbatim>\<open>reclaim.c\<close>): the lists of resident blocks, the invariant
    that relates them to the flags of the local pages, and the selection of victims.
  \<^item> \<open>Inactive\<close> (\<^verbatim>\<open>reclaim.c\<close>): the inactive list, the removal of a block from its list, the quotas.
  \<^item> \<open>Memdev\<close> (\<^verbatim>\<open>udma.h\<close>, \<^verbatim>\<open>memdev.c\<close>): work requests and the memory device, down to the words of its pages.
  \<^item> \<open>Remote_IO\<close> (\<^verbatim>\<open>donor_mem_rw.c\<close>, \<^verbatim>\<open>evict_block()\<close>, \<^verbatim>\<open>free_gpa()\<close>): write-back and fetch of blocks, with the
    waiting, stealing and error paths, and the eager write-back of blocks that enter the inactive list.
  \<^item> \<open>Io_Data\<close>, \<open>Io_Write\<close>, \<open>Io_Fetch\<close>: the contents of a descriptor (the words of its local page or of the slot
    of its remote page), and that writing a block back, clearing the requests and fetching keep them.
  \<^item> \<open>Remote_Claims\<close>, \<open>Page_Claims\<close>, \<open>Block_Claims\<close>, \<open>Lru_Claims\<close>, \<open>Els_Claims\<close>, \<open>Cow_Claims\<close>,
    \<open>Lock_Claims\<close>, \<open>Inactive_Claims\<close> and \<open>Io_Claims\<close> hold the numbered properties (\<open>C1\<close> and so on) with the states they are applied at.

  \<^bold>\<open>What the lemmas show.\<close>  Each component theory proves its invariant kept by every operation
  (\<open>table_ok\<close>, \<open>mrs_ok\<close>, \<open>lp_ok\<close>, \<open>views_ok\<close>, \<open>emp_list_ok\<close>, \<open>lists_ok\<close>, \<open>regions_ok\<close>, \<open>els_ok\<close>, \<open>lru_inv\<close>,
  \<open>cow_inv\<close>, \<open>lk_inv\<close>) and the result of each operation on every branch.  Across components: no slot of a
  region is ever held by two descriptors unless one counted record shares it; every block with a local
  page is on exactly the list its flags name and the page counters are the pages listed; a block
  written back and fetched again contains what it did; a thread that
  returns from locking holds the lock of the present head of its block.  Contracts between components
  are locales (\<open>slot_pool\<close>, \<open>mapper_set\<close>, \<open>interval_bag\<close>, \<open>counted_list\<close>, \<open>selection\<close>), each interpreted
  on the code's own definitions.

  \<^bold>\<open>Loops.\<close>  Loops that may not end are \<^verbatim>\<open>partial_function (option)\<close> and their result is proved to
  exist where it does (the policies of \<open>Remote_Alloc\<close>, \<open>stretch_loop\<close>, \<open>alloc_pages_loop\<close> when a page is
  at hand).  The walk over the cpus has the fuel \<open>P + V\<close>, the length of the ring, which
  \<open>cpu_walk_visits_each_once\<close> shows to be enough.

  \<^bold>\<open>Concurrency.\<close>  \<open>Block_Lock\<close> interleaves threads at every access to shared memory.  Elsewhere an operation
  is one step: it runs under the lock the code takes (of a list, a region or a block), or on blocks the
  caller has locked.  The spin locks of lists and regions are not part of the state.

  \<^bold>\<open>Not modelled\<close>: the fault handlers and the fork of page tables (\<^verbatim>\<open>hva.c\<close>, most of \<^verbatim>\<open>cow.c\<close> and
  \<^verbatim>\<open>gpa.c\<close>), which act on the host's page tables and KVM; the drivers of block and RDMA devices (\<^verbatim>\<open>bdev.c\<close>,
  \<^verbatim>\<open>nvme.c\<close>, \<^verbatim>\<open>rdma.c\<close>) and the chained requests only they use; the ioctl and file operations of
  \<^verbatim>\<open>vm.c\<close>; statistics; \<^verbatim>\<open>src/module_kvm\<close>, which is the kernel's KVM with small hooks.
\<close>

end
